(* ===== verification/Ngx_Prelude.thy ===== *)
theory Ngx_Prelude
  imports Main "HOL-Library.Word"
begin

unbundle bit_operations_syntax

text \<open>
  Shared vocabulary of the development: the return codes of nginx (src/nginx/src/core/ngx_core.h),
  the machine integers its C code computes with, byte strings, and the generic lemmas on lists
  the component theories share.

  Integers. A C value of type \<^verbatim>\<open>ngx_int_t\<close> or \<^verbatim>\<open>time_t\<close> is an \<open>int\<close> in the signed 64-bit range, a
  value of type \<^verbatim>\<open>ngx_uint_t\<close> or \<^verbatim>\<open>size_t\<close> an \<open>int\<close> (or a \<open>nat\<close>, where it is an index or a length)
  in the unsigned 64-bit range; wherever the C code computes, the result is wrapped by \<open>i64\<close> or
  \<open>u64\<close>. Bytes (\<^verbatim>\<open>u_char\<close>) are words of eight bits.
\<close>

section \<open>Return codes\<close>

datatype ngx_rc = NGX_OK | NGX_ERROR | NGX_AGAIN | NGX_BUSY | NGX_DONE | NGX_DECLINED | NGX_ABORT

section \<open>Machine integers\<close>

definition u64 :: "int \<Rightarrow> int" where
  "u64 x = x mod 2 ^ 64"

definition i64 :: "int \<Rightarrow> int" where
  "i64 x = (x + 2 ^ 63) mod 2 ^ 64 - 2 ^ 63"

lemma u64_bounds: "0 \<le> u64 x" "u64 x < 2 ^ 64"
  by (simp_all add: u64_def)

lemma u64_id: "0 \<le> x \<Longrightarrow> x < 2 ^ 64 \<Longrightarrow> u64 x = x"
  by (simp add: u64_def)

lemma i64_id: "- (2 ^ 63) \<le> x \<Longrightarrow> x < 2 ^ 63 \<Longrightarrow> i64 x = x"
  by (simp add: i64_def)

lemma i64_bounds: "- (2 ^ 63) \<le> i64 x" "i64 x < 2 ^ 63"
proof -
  have "0 \<le> (x + 2 ^ 63) mod 2 ^ 64" and "(x + 2 ^ 63) mod 2 ^ 64 < (2 ^ 64 :: int)"
    by simp_all
  then show "- (2 ^ 63) \<le> i64 x" "i64 x < 2 ^ 63"
    by (simp_all add: i64_def)
qed

lemma i64_i64_add [simp]: "i64 (i64 a + b) = i64 (a + b)"
proof -
  have "(i64 a + b + 2 ^ 63) mod 2 ^ 64 = (a + b + 2 ^ 63) mod (2 ^ 64 :: int)"
    unfolding i64_def by (simp add: mod_simps algebra_simps)
  then show ?thesis by (simp add: i64_def)
qed

lemma i64_i64 [simp]: "i64 (i64 a) = i64 a"
  using i64_i64_add [of a 0] by simp

lemma i64_cong_diff: "i64 b = i64 c \<Longrightarrow> i64 (a - b) = i64 (a - c)"
proof -
  assume "i64 b = i64 c"
  then have "(b + 2 ^ 63) mod 2 ^ 64 = (c + 2 ^ 63) mod (2 ^ 64 :: int)"
    by (simp add: i64_def)
  then have "(a + 2 ^ 63 + 2 ^ 63 - (b + 2 ^ 63)) mod 2 ^ 64 =
      (a + 2 ^ 63 + 2 ^ 63 - (c + 2 ^ 63)) mod (2 ^ 64 :: int)"
    by (rule mod_diff_cong [OF refl])
  then show ?thesis by (simp add: i64_def algebra_simps)
qed

lemma u64_u64 [simp]: "u64 (u64 x) = u64 x"
  by (simp add: u64_def)

lemma u64_i64 [simp]: "u64 (i64 x) = u64 x"
proof -
  have "((x + 2 ^ 63) mod 2 ^ 64 - 2 ^ 63) mod 2 ^ 64 = (x + 2 ^ 63 - 2 ^ 63) mod (2 ^ 64 :: int)"
    by (rule mod_diff_left_eq)
  then show ?thesis by (simp add: i64_def u64_def)
qed

lemma u64_diff_cong: "u64 a = u64 b \<Longrightarrow> u64 (a - c) = u64 (b - c)"
  unfolding u64_def by (rule mod_diff_cong) simp_all

lemma u64_sum_cong:
  "finite A \<Longrightarrow> (\<And>j. j \<in> A \<Longrightarrow> u64 (f j) = u64 (g j)) \<Longrightarrow> u64 (sum f A) = u64 (sum g A)"
  unfolding u64_def by (induction A rule: finite_induct) (auto intro: mod_add_cong)

lemma u64_zero [simp]: "u64 0 = 0"
  by (simp add: u64_def)

lemma u64_inc_dec: "0 \<le> x \<Longrightarrow> x < 2 ^ 64 \<Longrightarrow> u64 (u64 (x + 1) - 1) = x"
  by (simp add: u64_def mod_diff_left_eq)

section \<open>Bytes\<close>

type_synonym u_char = "8 word"

text \<open>The bytes of a C string literal.\<close>

definition bytes :: "string \<Rightarrow> u_char list" where
  "bytes s = map of_char s"

lemma length_bytes [simp]: "length (bytes s) = length s"
  by (simp add: bytes_def)

lemma bytes_Nil [simp]: "bytes [] = []"
  by (simp add: bytes_def)

lemma bytes_Cons: "bytes (c # s) = of_char c # bytes s"
  by (simp add: bytes_def)

text \<open>A statement about every byte, as an evaluation over the 256 of them.\<close>

definition byte_all :: "(u_char \<Rightarrow> bool) \<Rightarrow> bool" where
  "byte_all P = list_all (\<lambda>i. P (word_of_int i)) [0..255]"

lemma byte_all: "byte_all P \<Longrightarrow> P c"
proof -
  assume "byte_all P"
  moreover have "uint c \<in> set [0..255]" using uint_lt2p [of c] by simp
  ultimately have "P (word_of_int (uint c))" unfolding byte_all_def list_all_iff by blast
  then show ?thesis by simp
qed

text \<open>A table of 256 entries, given by what it holds for each byte.\<close>

lemma byte_table:
  assumes "tab = map (\<lambda>i. f (word_of_int i)) [0..255]"
  shows "tab ! unat (c :: u_char) = f c"
proof -
  have c: "unat c < 256" using unsigned_less [of c] by simp
  have "[0..255] ! unat c = 0 + int (unat c)" using c by (intro nth_upto) linarith
  then show ?thesis unfolding assms using c by simp
qed

section \<open>Lists\<close>

lemma nth_list_update_if: "xs[i := x] ! j = (if i = j \<and> j < length xs then x else xs ! j)"
  by (cases "i = j"; cases "j < length xs") (simp_all add: list_update_beyond)

lemma map_update_same: "k < length xs \<Longrightarrow> f x = f (xs ! k) \<Longrightarrow> map f (xs[k := x]) = map f xs"
  by (simp add: map_update list_update_same_conv)

lemma map_take_append: "map h zs = map h (drop n xs) \<Longrightarrow> map h (take n xs @ zs) = map h xs"
  by (metis append_take_drop_id map_append)

lemma ball_update: "\<forall>y \<in> set xs. P y \<Longrightarrow> P x \<Longrightarrow> \<forall>y \<in> set (xs[k := x]). P y"
  using set_update_subset_insert by fastforce

lemma sum_list_pos: "xs \<noteq> [] \<Longrightarrow> \<forall>x \<in> set xs. 0 < x \<Longrightarrow> 0 < sum_list (xs :: int list)"
  by (induction xs rule: list_nonempty_induct) auto

lemma sum_list_update_int:
  "k < length xs \<Longrightarrow> sum_list (xs[k := x]) = sum_list xs + x - (xs ! k :: int)"
  by (induction xs arbitrary: k) (auto split: nat.split)

lemma sum_list_map_update_int:
  "k < length xs \<Longrightarrow>
     sum_list (map f (xs[k := x])) = sum_list (map f xs) + f x - (f (xs ! k) :: int)"
  by (simp add: map_update sum_list_update_int)

end
