(* ===== verification/Ngx_Upstream_Peers.thy ===== *)
theory Ngx_Upstream_Peers
  imports Ngx_Prelude
begin

text \<open>
  The peers of an upstream (src/nginx/src/http/ngx_http_upstream_round_robin.c and .h): the peer
  groups and the per-request balancer data as records, the construction of the groups from the
  configuration, the bitmap of peers a request has tried, the conditions that exclude a peer, and
  the release of a peer at the end of a request. Every balancing method works on these data.

  The singly linked list of peers of a group is a list, and the chain of groups (the primary
  group and, through \<^verbatim>\<open>next\<close>, the backup group) is a list of groups. The pointer \<^verbatim>\<open>rrp->peers\<close> is
  the index of a group in that chain and \<^verbatim>\<open>rrp->current\<close> the index of a peer in that group. The
  locks of a shared memory zone are left out: each handler runs under the write lock of its group,
  so a handler is one atomic step.
\<close>

section \<open>Data\<close>

type_synonym sockaddr = "u_char list"

record ngx_addr_t =
  addr_sockaddr :: sockaddr
  addr_name :: string

record ngx_http_upstream_server_t =
  server_name :: string
  server_addrs :: "ngx_addr_t list"
  server_weight :: int
  server_max_conns :: int
  server_max_fails :: int
  server_fail_timeout :: int
  server_down :: bool
  server_backup :: bool

record ngx_http_upstream_rr_peer_t =
  peer_sockaddr :: sockaddr
  peer_name :: string
  peer_server :: string
  current_weight :: int
  effective_weight :: int
  weight :: int
  conns :: int
  max_conns :: int
  fails :: int
  accessed :: int
  checked :: int
  max_fails :: int
  fail_timeout :: int
  down :: bool

record ngx_http_upstream_rr_peers_t =
  number :: nat
  total_weight :: int
  tries :: int
  single :: bool
  weighted :: bool
  peers_name :: string
  peer :: "ngx_http_upstream_rr_peer_t list"

text \<open>The chain of groups: a group and the groups that follow it through \<^verbatim>\<open>next\<close>.\<close>

type_synonym rr_chain = "ngx_http_upstream_rr_peers_t list"

record ngx_http_upstream_rr_peer_data_t =
  config :: nat
  rrp_peers :: nat
  current :: "nat option"
  tried :: "64 word list"

record ngx_peer_connection_t =
  pc_sockaddr :: "sockaddr option"
  pc_name :: string
  pc_tries :: int
  pc_cached :: bool
  pc_connection :: bool

record ngx_http_upstream_srv_conf_t =
  us_host :: string
  us_port :: nat
  us_servers :: "ngx_http_upstream_server_t list option"
  us_peer_data :: rr_chain

section \<open>Building the groups\<close>

text \<open>
  Allocation from the pool may fail: \<open>alloc k\<close> says whether the \<open>k\<close>-th allocation of the call
  succeeds. A peer is a zeroed structure whose configured fields are then assigned.
\<close>

definition rr_peer_of_server ::
    "ngx_http_upstream_server_t \<Rightarrow> ngx_addr_t \<Rightarrow> ngx_http_upstream_rr_peer_t" where
  "rr_peer_of_server s a =
     \<lparr>peer_sockaddr = addr_sockaddr a, peer_name = addr_name a, peer_server = server_name s,
      current_weight = 0, effective_weight = i64 (server_weight s),
      weight = i64 (server_weight s), conns = 0, max_conns = server_max_conns s, fails = 0,
      accessed = 0, checked = 0, max_fails = server_max_fails s,
      fail_timeout = server_fail_timeout s, down = server_down s\<rparr>"

text \<open>A peer of an upstream that has no \<^verbatim>\<open>server\<close> lines: weight 1, one failure per 10 seconds.\<close>

definition rr_peer_of_addr :: "ngx_addr_t \<Rightarrow> ngx_http_upstream_rr_peer_t" where
  "rr_peer_of_addr a =
     \<lparr>peer_sockaddr = addr_sockaddr a, peer_name = addr_name a, peer_server = [],
      current_weight = 0, effective_weight = 1, weight = 1, conns = 0, max_conns = 0, fails = 0,
      accessed = 0, checked = 0, max_fails = 1, fail_timeout = 10, down = False\<rparr>"

text \<open>The counting loop over the servers whose backup flag is \<open>b\<close>: peers, weight, live peers.\<close>

fun rr_count :: "bool \<Rightarrow> ngx_http_upstream_server_t list \<Rightarrow> nat \<Rightarrow> int \<Rightarrow> int \<Rightarrow> nat \<times> int \<times> int" where
  "rr_count b [] n w t = (n, w, t)"
| "rr_count b (s # ss) n w t =
     (if server_backup s \<noteq> b then rr_count b ss n w t
      else
        let k = length (server_addrs s)
        in rr_count b ss (n + k) (u64 (w + int k * server_weight s))
             (if server_down s then t else u64 (t + int k)))"

definition rr_fill :: "bool \<Rightarrow> ngx_http_upstream_server_t list \<Rightarrow> ngx_http_upstream_rr_peer_t list" where
  "rr_fill b ss =
     concat (map (\<lambda>s. map (rr_peer_of_server s) (server_addrs s))
       (filter (\<lambda>s. server_backup s = b) ss))"

definition rr_group ::
    "string \<Rightarrow> bool \<Rightarrow> nat \<times> int \<times> int \<Rightarrow> ngx_http_upstream_rr_peer_t list
       \<Rightarrow> ngx_http_upstream_rr_peers_t" where
  "rr_group host sg nwt ps =
     (case nwt of (n, w, t) \<Rightarrow>
        \<lparr>number = n, total_weight = w, tries = t, single = sg, weighted = (w \<noteq> int n),
         peers_name = host, peer = ps\<rparr>)"

definition rr_init_servers ::
    "(nat \<Rightarrow> bool) \<Rightarrow> ngx_http_upstream_srv_conf_t \<Rightarrow> ngx_http_upstream_server_t list
       \<Rightarrow> ngx_rc \<times> ngx_http_upstream_srv_conf_t" where
  "rr_init_servers alloc us ss =
     (let nwt = rr_count False ss 0 0 0; n = fst nwt
      in if n = 0 then (NGX_ERROR, us)
         else if \<not> alloc 0 \<or> \<not> alloc 1 then (NGX_ERROR, us)
         else
           let peers = rr_group (us_host us) (n = 1) nwt (rr_fill False ss);
               us1 = us\<lparr>us_peer_data := [peers]\<rparr>;
               bnwt = rr_count True ss 0 0 0
           in if fst bnwt = 0 then (NGX_OK, us1)
              else if \<not> alloc 2 \<or> \<not> alloc 3 then (NGX_ERROR, us1)
              else
                let backup = rr_group (us_host us) False bnwt (rr_fill True ss)
                in (NGX_OK, us1\<lparr>us_peer_data := [peers\<lparr>single := False\<rparr>, backup]\<rparr>))"

text \<open>
  \<open>resolve\<close> stands for \<^verbatim>\<open>ngx_inet_resolve_host\<close>, which asks the system resolver: the addresses of
  a host and a port, or \<open>None\<close> on an error.
\<close>

definition ngx_http_upstream_init_round_robin ::
    "(nat \<Rightarrow> bool) \<Rightarrow> (string \<Rightarrow> nat \<Rightarrow> ngx_addr_t list option) \<Rightarrow> ngx_http_upstream_srv_conf_t
       \<Rightarrow> ngx_rc \<times> ngx_http_upstream_srv_conf_t" where
  "ngx_http_upstream_init_round_robin alloc resolve us =
     (case us_servers us of
        Some ss \<Rightarrow> rr_init_servers alloc us ss
      | None \<Rightarrow>
          if us_port us = 0 then (NGX_ERROR, us)
          else
            case resolve (us_host us) (us_port us) of
              None \<Rightarrow> (NGX_ERROR, us)
            | Some addrs \<Rightarrow>
                let n = length addrs
                in if \<not> alloc 0 \<or> \<not> alloc 1 then (NGX_ERROR, us)
                   else
                     (NGX_OK, us\<lparr>us_peer_data :=
                        [\<lparr>number = n, total_weight = int n, tries = int n, single = (n = 1),
                          weighted = False, peers_name = us_host us,
                          peer = map rr_peer_of_addr addrs\<rparr>]\<rparr>))"

section \<open>The bitmap of tried peers\<close>

text \<open>Words of the bitmap for \<open>n\<close> peers; \<^verbatim>\<open>8 * sizeof(uintptr_t)\<close> is 64.\<close>

definition tried_words :: "nat \<Rightarrow> nat" where
  "tried_words n = (n + 63) div 64"

definition tried_bit :: "64 word list \<Rightarrow> nat \<Rightarrow> bool" where
  "tried_bit t i = ((t ! (i div 64)) AND push_bit (i mod 64) 1 \<noteq> 0)"

definition tried_set :: "64 word list \<Rightarrow> nat \<Rightarrow> 64 word list" where
  "tried_set t i = t[i div 64 := (t ! (i div 64)) OR push_bit (i mod 64) 1]"

text \<open>The loop that clears the words of the next group: \<^verbatim>\<open>for (i = 0; i < n; i++) tried[i] = 0\<close>.\<close>

definition tried_clear :: "nat \<Rightarrow> 64 word list \<Rightarrow> 64 word list" where
  "tried_clear n t = replicate (min n (length t)) 0 @ drop n t"

section \<open>Per-request data\<close>

definition ngx_http_upstream_tries :: "rr_chain \<Rightarrow> int" where
  "ngx_http_upstream_tries ups =
     (case ups of
        [] \<Rightarrow> 0
      | [p] \<Rightarrow> tries p
      | p # q # _ \<Rightarrow> u64 (tries p + tries q))"

text \<open>
  \<open>alloc 0\<close> is the allocation of the balancer data (done when the request has none yet: \<open>have\<close> is
  false), \<open>alloc 1\<close> that of the bitmap when it does not fit the word inside the structure.
\<close>

definition ngx_http_upstream_init_round_robin_peer ::
    "(nat \<Rightarrow> bool) \<Rightarrow> bool \<Rightarrow> ngx_http_upstream_srv_conf_t \<Rightarrow> ngx_peer_connection_t
       \<Rightarrow> ngx_rc \<times> ngx_peer_connection_t \<times> ngx_http_upstream_rr_peer_data_t option" where
  "ngx_http_upstream_init_round_robin_peer alloc have us pc =
     (if \<not> have \<and> \<not> alloc 0 then (NGX_ERROR, pc, None)
      else
        case us_peer_data us of
          [] \<Rightarrow> (NGX_ERROR, pc, None)
        | peers # next \<Rightarrow>
            let n0 = number peers;
                n = (case next of [] \<Rightarrow> n0 | b # _ \<Rightarrow> if number b > n0 then number b else n0);
                rrp = \<lparr>config = 0, rrp_peers = 0, current = None, tried = []\<rparr>;
                pc' = pc\<lparr>pc_tries := ngx_http_upstream_tries (us_peer_data us)\<rparr>
            in if n \<le> 64 then (NGX_OK, pc', Some (rrp\<lparr>tried := [0]\<rparr>))
               else if \<not> alloc 1 then (NGX_ERROR, pc, Some rrp)
               else (NGX_OK, pc', Some (rrp\<lparr>tried := replicate (tried_words n) 0\<rparr>)))"

section \<open>Conditions and updates of a single peer\<close>

text \<open>The three reasons of the loop's \<^verbatim>\<open>continue\<close> statements that depend on the peer only.\<close>

definition peer_failing :: "int \<Rightarrow> ngx_http_upstream_rr_peer_t \<Rightarrow> bool" where
  "peer_failing now p \<longleftrightarrow>
     max_fails p \<noteq> 0 \<and> fails p \<ge> max_fails p \<and> i64 (now - checked p) \<le> fail_timeout p"

definition peer_full :: "ngx_http_upstream_rr_peer_t \<Rightarrow> bool" where
  "peer_full p \<longleftrightarrow> max_conns p \<noteq> 0 \<and> conns p \<ge> max_conns p"

definition rr_eligible :: "int \<Rightarrow> 64 word list \<Rightarrow> nat \<Rightarrow> ngx_http_upstream_rr_peer_t \<Rightarrow> bool" where
  "rr_eligible now t i p \<longleftrightarrow>
     \<not> tried_bit t i \<and> \<not> down p \<and> \<not> peer_failing now p \<and> \<not> peer_full p"

definition peer_touch :: "int \<Rightarrow> ngx_http_upstream_rr_peer_t \<Rightarrow> ngx_http_upstream_rr_peer_t" where
  "peer_touch now p = (if i64 (now - checked p) > fail_timeout p then p\<lparr>checked := now\<rparr> else p)"

definition pc_use_peer :: "ngx_http_upstream_rr_peer_t \<Rightarrow> ngx_peer_connection_t \<Rightarrow> ngx_peer_connection_t" where
  "pc_use_peer p pc = pc\<lparr>pc_sockaddr := Some (peer_sockaddr p), pc_name := peer_name p\<rparr>"

definition peer_acquire :: "ngx_http_upstream_rr_peer_t \<Rightarrow> ngx_http_upstream_rr_peer_t" where
  "peer_acquire p = p\<lparr>conns := u64 (conns p + 1)\<rparr>"

section \<open>Releasing a peer\<close>

definition NGX_PEER_FAILED :: nat where
  "NGX_PEER_FAILED = 4"

text \<open>The effect of a request's end on its peer, for a group of several peers.\<close>

definition peer_release :: "int \<Rightarrow> nat \<Rightarrow> ngx_http_upstream_rr_peer_t \<Rightarrow> ngx_http_upstream_rr_peer_t" where
  "peer_release now state p =
     (let p1 =
        (if state AND NGX_PEER_FAILED \<noteq> 0 then
           (let q = p\<lparr>fails := u64 (fails p + 1), accessed := now, checked := now\<rparr>;
                q1 = (if max_fails q \<noteq> 0
                      then q\<lparr>effective_weight :=
                               i64 (effective_weight q - u64 (weight q) div max_fails q)\<rparr>
                      else q)
            in if effective_weight q1 < 0 then q1\<lparr>effective_weight := 0\<rparr> else q1)
         else if accessed p < checked p then p\<lparr>fails := 0\<rparr> else p)
      in p1\<lparr>conns := u64 (conns p1 - 1)\<rparr>)"

text \<open>\<open>None\<close> is the dereference of a NULL \<^verbatim>\<open>rrp->current\<close>.\<close>

definition ngx_http_upstream_free_round_robin_peer ::
    "int \<Rightarrow> rr_chain \<Rightarrow> ngx_peer_connection_t \<Rightarrow> ngx_http_upstream_rr_peer_data_t \<Rightarrow> nat
       \<Rightarrow> (rr_chain \<times> ngx_peer_connection_t) option" where
  "ngx_http_upstream_free_round_robin_peer now ups pc rrp state =
     (let g = rrp_peers rrp
      in case current rrp of
           None \<Rightarrow> None
         | Some k \<Rightarrow>
             let peers = ups ! g; ps = peer peers; p = ps ! k
             in if single peers then
                  Some (ups[g := peers\<lparr>peer := ps[k := p\<lparr>conns := u64 (conns p - 1)\<rparr>]\<rparr>],
                        pc\<lparr>pc_tries := 0\<rparr>)
                else
                  Some (ups[g := peers\<lparr>peer := ps[k := peer_release now state p]\<rparr>],
                        if pc_tries pc \<noteq> 0 then pc\<lparr>pc_tries := u64 (pc_tries pc - 1)\<rparr> else pc))"

section \<open>Laws of the bitmap and of the updates\<close>

lemma tried_bit_iff: "tried_bit t i \<longleftrightarrow> bit (t ! (i div 64)) (i mod 64)"
  by (simp add: tried_bit_def push_bit_eq_mult and_exp_eq_0_iff_not_bit)

lemma tried_bit_set:
  assumes "i div 64 < length t"
  shows "tried_bit (tried_set t i) j \<longleftrightarrow> j = i \<or> tried_bit t j"
proof -
  have eq: "i div 64 = j div 64 \<Longrightarrow> i mod 64 = j mod 64 \<Longrightarrow> j = i"
    by (metis div_mult_mod_eq)
  have b: "bit (w OR 2 ^ k) m \<longleftrightarrow> bit w m \<or> (m = k)" if "m < 64" for w :: "64 word" and k m
    using that by (auto simp: bit_or_iff bit_exp_iff)
  have "j mod 64 < 64" by simp
  show ?thesis
  proof (cases "i div 64 = j div 64")
    case True
    with assms have "tried_bit (tried_set t i) j \<longleftrightarrow> tried_bit t j \<or> j mod 64 = i mod 64"
      by (simp add: tried_bit_iff tried_set_def b)
    with eq [OF True] show ?thesis by metis
  next
    case False
    then show ?thesis by (auto simp: tried_bit_iff tried_set_def)
  qed
qed

lemma length_tried_set [simp]: "length (tried_set t i) = length t"
  by (simp add: tried_set_def)

lemma div64_less_words: "i < n \<Longrightarrow> i div 64 < tried_words n"
  by (simp add: tried_words_def less_eq_Suc_le [symmetric] div_le_mono) 

lemma tried_bit_fresh: "i < n \<Longrightarrow> \<not> tried_bit (replicate (tried_words n) 0) i"
  by (simp add: tried_bit_iff div64_less_words)

lemma tried_bit_one: "i < 64 \<Longrightarrow> \<not> tried_bit [0] i"
  by (simp add: tried_bit_iff)

lemma tried_bit_clear:
  "i < n \<Longrightarrow> tried_words n \<le> length t \<Longrightarrow> \<not> tried_bit (tried_clear (tried_words n) t) i"
  using div64_less_words [of i n] by (simp add: tried_bit_iff tried_clear_def nth_append)

lemma peer_touch_simps [simp]:
  "current_weight (peer_touch now p) = current_weight p" "weight (peer_touch now p) = weight p"
  "effective_weight (peer_touch now p) = effective_weight p" "conns (peer_touch now p) = conns p"
  "max_conns (peer_touch now p) = max_conns p" "fails (peer_touch now p) = fails p"
  "max_fails (peer_touch now p) = max_fails p" "down (peer_touch now p) = down p"
  by (simp_all add: peer_touch_def)

end
