(* ===== verification/Ngx_Balancer.thy ===== *)
theory Ngx_Balancer
  imports Ngx_Upstream_Peers
begin

text \<open>
  The contract between a balancing method and the requests that use it. A request takes a peer
  with the method's get handler and gives it back with
  \<^verbatim>\<open>ngx_http_upstream_free_round_robin_peer\<close>; requests interleave. The locale \<open>peer_balancer\<close> states
  what a get handler promises about the connection counters and the weights; from these promises
  follow, for any interleaving of requests, that the counters are exact and that no peer ever has
  more than \<^verbatim>\<open>max_conns\<close> connections.
\<close>

section \<open>What a handler may change\<close>

text \<open>The fields of a peer that no handler writes, and the tables of a chain.\<close>

definition peer_static :: "ngx_http_upstream_rr_peer_t \<Rightarrow> sockaddr \<times> string \<times> int \<times> int \<times> int \<times> int \<times> bool" where
  "peer_static p =
     (peer_sockaddr p, peer_name p, weight p, max_conns p, max_fails p, fail_timeout p, down p)"

definition static_tab :: "rr_chain \<Rightarrow> (nat \<times> bool \<times> (sockaddr \<times> string \<times> int \<times> int \<times> int \<times> int \<times> bool) list) list" where
  "static_tab ups = map (\<lambda>g. (number g, single g, map peer_static (peer g))) ups"

definition conns_tab :: "rr_chain \<Rightarrow> int list list" where
  "conns_tab ups = map (\<lambda>g. map conns (peer g)) ups"

definition peer_at :: "rr_chain \<Rightarrow> nat \<Rightarrow> nat \<Rightarrow> ngx_http_upstream_rr_peer_t" where
  "peer_at ups g k = peer (ups ! g) ! k"

definition in_chain :: "rr_chain \<Rightarrow> nat \<Rightarrow> nat \<Rightarrow> bool" where
  "in_chain ups g k \<longleftrightarrow> g < length ups \<and> k < length (peer (ups ! g))"

definition tab_inc :: "int list list \<Rightarrow> nat \<Rightarrow> nat \<Rightarrow> int list list" where
  "tab_inc tab g k = tab[g := (tab ! g)[k := u64 (tab ! g ! k + 1)]]"

text \<open>The weights of a peer: the effective weight stays between 0 and the configured weight.\<close>

definition peer_weights_ok :: "ngx_http_upstream_rr_peer_t \<Rightarrow> bool" where
  "peer_weights_ok p \<longleftrightarrow> 0 < weight p \<and> weight p < 2 ^ 62 \<and> 0 \<le> max_fails p \<and>
     0 \<le> effective_weight p \<and> effective_weight p \<le> weight p"

definition chain_weights_ok :: "rr_chain \<Rightarrow> bool" where
  "chain_weights_ok ups \<longleftrightarrow> (\<forall>g \<in> set ups. \<forall>p \<in> set (peer g). peer_weights_ok p)"

lemma static_tab_length: "static_tab ups' = static_tab ups \<Longrightarrow> length ups' = length ups"
  unfolding static_tab_def by (rule map_eq_imp_length_eq)

lemma static_tab_nth:
  assumes "static_tab ups' = static_tab ups" and "g < length ups"
  shows "single (ups' ! g) = single (ups ! g)" "number (ups' ! g) = number (ups ! g)"
    "map peer_static (peer (ups' ! g)) = map peer_static (peer (ups ! g))"
proof -
  have "static_tab ups' ! g = static_tab ups ! g" "g < length ups'"
    using assms static_tab_length [of ups' ups] by simp_all
  then show "single (ups' ! g) = single (ups ! g)" "number (ups' ! g) = number (ups ! g)"
    "map peer_static (peer (ups' ! g)) = map peer_static (peer (ups ! g))"
    using assms(2) by (simp_all add: static_tab_def)
qed

lemma static_tab_peer_length:
  "static_tab ups' = static_tab ups \<Longrightarrow> g < length ups \<Longrightarrow>
     length (peer (ups' ! g)) = length (peer (ups ! g))"
  using static_tab_nth(3) map_eq_imp_length_eq by blast

lemma static_tab_in_chain: "static_tab ups' = static_tab ups \<Longrightarrow> in_chain ups' g k = in_chain ups g k"
  using static_tab_length [of ups' ups] static_tab_peer_length [of ups' ups g]
  by (auto simp: in_chain_def)

lemma static_tab_peer_at:
  assumes "static_tab ups' = static_tab ups" and "in_chain ups g k"
  shows "peer_static (peer_at ups' g k) = peer_static (peer_at ups g k)"
proof -
  have "map peer_static (peer (ups' ! g)) ! k = map peer_static (peer (ups ! g)) ! k"
    using static_tab_nth(3) [OF assms(1)] assms(2) by (simp add: in_chain_def)
  then show ?thesis
    using assms static_tab_peer_length [OF assms(1), of g] by (simp add: in_chain_def peer_at_def)
qed

lemma conns_tab_nth: "in_chain ups g k \<Longrightarrow> conns_tab ups ! g ! k = conns (peer_at ups g k)"
  by (simp add: conns_tab_def in_chain_def peer_at_def)

lemma tab_inc_nth:
  "in_chain ups g k \<Longrightarrow> in_chain ups g' k' \<Longrightarrow>
     tab_inc (conns_tab ups) g k ! g' ! k' =
       (if g' = g \<and> k' = k then u64 (conns (peer_at ups g k) + 1) else conns (peer_at ups g' k'))"
  by (auto simp: tab_inc_def conns_tab_def in_chain_def peer_at_def nth_list_update_if)

section \<open>The release of a peer\<close>

lemma peer_update_laws [simp]:
  "peer_static (peer_touch now p) = peer_static p"
  "peer_weights_ok (peer_touch now p) = peer_weights_ok p"
  "peer_static (p\<lparr>current_weight := x\<rparr>) = peer_static p"
  "peer_weights_ok (p\<lparr>current_weight := x\<rparr>) = peer_weights_ok p"
  by (simp_all add: peer_touch_def peer_static_def peer_weights_ok_def)

lemma peer_release_simps [simp]:
  "peer_static (peer_release now state p) = peer_static p"
  "conns (peer_release now state p) = u64 (conns p - 1)"
  by (simp_all add: peer_release_def peer_static_def Let_def)

lemma peer_release_weights_ok:
  assumes "peer_weights_ok p" shows "peer_weights_ok (peer_release now state p)"
proof -
  have ok: "0 < weight p" "weight p < 2 ^ 62" "0 \<le> max_fails p" "0 \<le> effective_weight p"
    "effective_weight p \<le> weight p"
    using assms by (auto simp: peer_weights_ok_def)
  have "0 \<le> weight p div max_fails p" using ok by (cases "max_fails p = 0") (auto simp: pos_imp_zdiv_nonneg_iff)
  moreover have "weight p div max_fails p \<le> weight p"
    using ok zdiv_mono2 [of "weight p" 1 "max_fails p"] by (cases "max_fails p = 0") auto
  moreover have "u64 (weight p) = weight p" using ok by (simp add: u64_id)
  ultimately have "i64 (effective_weight p - u64 (weight p) div max_fails p)
      = effective_weight p - weight p div max_fails p"
    using ok by (simp add: i64_id)
  with ok \<open>0 \<le> weight p div max_fails p\<close> show ?thesis
    by (auto simp: peer_weights_ok_def peer_release_def Let_def)
qed

lemma free_peer_laws:
  assumes "ngx_http_upstream_free_round_robin_peer now ups pc rrp state = Some (ups', pc')"
    and "current rrp = Some k" and "in_chain ups (rrp_peers rrp) k"
  shows "static_tab ups' = static_tab ups"
    and "in_chain ups g' k' \<Longrightarrow> conns (peer_at ups' g' k') =
       (if g' = rrp_peers rrp \<and> k' = k then u64 (conns (peer_at ups g' k') - 1)
        else conns (peer_at ups g' k'))"
    and "chain_weights_ok ups \<Longrightarrow> chain_weights_ok ups'"
proof -
  let ?g = "rrp_peers rrp"
  let ?p = "peer (ups ! ?g) ! k"
  obtain q where q: "ups' = ups[?g := (ups ! ?g)\<lparr>peer := (peer (ups ! ?g))[k := q]\<rparr>]"
    "peer_static q = peer_static ?p" "conns q = u64 (conns ?p - 1)"
    "peer_weights_ok ?p \<Longrightarrow> peer_weights_ok q"
  proof (cases "single (ups ! ?g)")
    case True
    then show ?thesis using assms that [of "?p\<lparr>conns := u64 (conns ?p - 1)\<rparr>"]
      by (auto simp: ngx_http_upstream_free_round_robin_peer_def peer_static_def peer_weights_ok_def
          Let_def)
  next
    case False
    then show ?thesis using assms that [of "peer_release now state ?p"] peer_release_weights_ok [of ?p]
      by (auto simp: ngx_http_upstream_free_round_robin_peer_def Let_def)
  qed
  have k: "?g < length ups" "k < length (peer (ups ! ?g))"
    using assms(3) by (auto simp: in_chain_def)
  have "map peer_static ((peer (ups ! ?g))[k := q]) = map peer_static (peer (ups ! ?g))"
    using q(2) k by (intro map_update_same) simp_all
  then show "static_tab ups' = static_tab ups"
    unfolding q(1) static_tab_def using k by (intro map_update_same) simp_all
  show "in_chain ups g' k' \<Longrightarrow> conns (peer_at ups' g' k') =
       (if g' = ?g \<and> k' = k then u64 (conns (peer_at ups g' k') - 1) else conns (peer_at ups g' k'))"
    using k q(3) by (auto simp: q(1) peer_at_def in_chain_def nth_list_update_if)
  assume ok: "chain_weights_ok ups"
  then have gok: "\<forall>p \<in> set (peer (ups ! ?g)). peer_weights_ok p"
    using k by (auto simp: chain_weights_ok_def)
  then have "peer_weights_ok q" using k q(4) by simp
  then have "\<forall>p \<in> set ((peer (ups ! ?g))[k := q]). peer_weights_ok p"
    using gok by (intro ball_update)
  then show "chain_weights_ok ups'"
    using ok unfolding chain_weights_ok_def q(1) by (intro ball_update) simp_all
qed

section \<open>Laws of a choice and of a get handler\<close>

text \<open>
  A balancing method chooses a peer in one group; \<open>choice_ok\<close> is what the choice may do to the group.
  Its get handler walks the chain from the group the request is at; \<open>get_law\<close> is what the walk may
  do to the rest of the chain, whose first group has the index \<open>base\<close>.
\<close>

fun choice_ok ::
    "ngx_http_upstream_rr_peer_t list \<Rightarrow> ngx_http_upstream_rr_peer_data_t
       \<Rightarrow> nat option \<times> ngx_http_upstream_rr_peer_t list \<times> ngx_http_upstream_rr_peer_data_t \<Rightarrow> bool" where
  "choice_ok ps rrp (r, ps', rrp') \<longleftrightarrow>
     map conns ps' = map conns ps \<and> map peer_static ps' = map peer_static ps \<and>
     ((\<forall>p \<in> set ps. peer_weights_ok p) \<longrightarrow> (\<forall>p \<in> set ps'. peer_weights_ok p)) \<and>
     rrp_peers rrp' = rrp_peers rrp \<and>
     (\<forall>k. r = Some k \<longrightarrow>
        k < length ps \<and> \<not> peer_full (ps ! k) \<and> \<not> down (ps ! k) \<and> current rrp' = Some k)"

fun get_law ::
    "nat \<Rightarrow> rr_chain
       \<Rightarrow> ngx_rc \<times> rr_chain \<times> ngx_peer_connection_t \<times> ngx_http_upstream_rr_peer_data_t \<Rightarrow> bool" where
  "get_law base ups (rc, ups', pc', rrp') \<longleftrightarrow>
     static_tab ups' = static_tab ups \<and>
     (chain_weights_ok ups \<longrightarrow> chain_weights_ok ups') \<and>
     (rc \<noteq> NGX_OK \<longrightarrow> conns_tab ups' = conns_tab ups) \<and>
     (rc = NGX_OK \<longrightarrow>
        (\<exists>d k. rrp_peers rrp' = base + d \<and> current rrp' = Some k \<and> in_chain ups d k \<and>
           \<not> peer_full (peer_at ups d k) \<and> \<not> down (peer_at ups d k) \<and>
           conns_tab ups' = tab_inc (conns_tab ups) d k))"

lemma get_law_chosen:
  assumes "choice_ok (peer g) rrp (Some k, ps, rrp')"
  shows "get_law (rrp_peers rrp) (g # rest)
     (NGX_OK, g\<lparr>peer := ps[k := peer_acquire (ps ! k)]\<rparr> # rest, pc', rrp')"
proof -
  have len: "length ps = length (peer g)" and k: "k < length ps"
    using assms map_eq_imp_length_eq by (auto simp: dest: map_eq_imp_length_eq)
  have st: "map peer_static (ps[k := peer_acquire (ps ! k)]) = map peer_static (peer g)"
    using assms k map_update_same [of k ps peer_static "peer_acquire (ps ! k)"]
    by (simp add: peer_acquire_def peer_static_def)
  have "map conns ps ! k = conns (peer g ! k)"
    using assms k len by simp
  then have "conns (ps ! k) = conns (peer g ! k)"
    using k by simp
  then have cn: "map conns (ps[k := peer_acquire (ps ! k)]) =
      (map conns (peer g))[k := u64 (map conns (peer g) ! k + 1)]"
    using assms k len by (simp add: map_update peer_acquire_def)
  have "\<forall>p \<in> set (ps[k := peer_acquire (ps ! k)]). peer_weights_ok p"
    if "\<forall>p \<in> set (peer g). peer_weights_ok p"
  proof (rule ball_update)
    show ok: "\<forall>p \<in> set ps. peer_weights_ok p" using assms that by simp
    then have "peer_weights_ok (ps ! k)" using k by simp
    then show "peer_weights_ok (peer_acquire (ps ! k))"
      by (simp add: peer_acquire_def peer_weights_ok_def)
  qed
  then have w: "chain_weights_ok (g # rest) \<longrightarrow>
      chain_weights_ok (g\<lparr>peer := ps[k := peer_acquire (ps ! k)]\<rparr> # rest)"
    by (simp add: chain_weights_ok_def)
  have s: "static_tab (g\<lparr>peer := ps[k := peer_acquire (ps ! k)]\<rparr> # rest) = static_tab (g # rest)"
    using st by (simp add: static_tab_def)
  have c: "conns_tab (g\<lparr>peer := ps[k := peer_acquire (ps ! k)]\<rparr> # rest) =
      tab_inc (conns_tab (g # rest)) 0 k"
    using cn by (simp add: conns_tab_def tab_inc_def)
  show ?thesis
    using assms s w c k len
    by (simp add: in_chain_def peer_at_def exI [of _ 0] exI [of _ k])
qed

lemma get_law_failed:
  assumes "choice_ok (peer g) rrp (None, ps, rrp')"
    and "get_law (Suc (rrp_peers rrp)) rest (rc, rest', pc', rrp'')"
  shows "get_law (rrp_peers rrp) (g # rest) (rc, g\<lparr>peer := ps\<rparr> # rest', pc'', rrp'')"
proof -
  have "\<exists>d' k. rrp_peers rrp'' = rrp_peers rrp + d' \<and> current rrp'' = Some k \<and> in_chain (g # rest) d' k \<and>
      \<not> peer_full (peer_at (g # rest) d' k) \<and> \<not> down (peer_at (g # rest) d' k) \<and>
      conns_tab (g\<lparr>peer := ps\<rparr> # rest') = tab_inc (conns_tab (g # rest)) d' k" if rc: "rc = NGX_OK"
  proof -
    obtain d k where d: "rrp_peers rrp'' = Suc (rrp_peers rrp) + d" "current rrp'' = Some k" "in_chain rest d k"
      "\<not> peer_full (peer_at rest d k)" "\<not> down (peer_at rest d k)" "conns_tab rest' = tab_inc (conns_tab rest) d k"
      using assms(2) rc by auto
    then show ?thesis using assms(1)
      by (intro exI [of _ "Suc d"] exI [of _ k])
        (auto simp: in_chain_def peer_at_def conns_tab_def tab_inc_def)
  qed
  then show ?thesis
    using assms by (auto simp: static_tab_def chain_weights_ok_def conns_tab_def)
qed

lemma get_law_busy:
  "choice_ok (peer g) rrp (None, ps, rrp') \<Longrightarrow> rc \<noteq> NGX_OK \<Longrightarrow>
     get_law base (g # rest) (rc, g\<lparr>peer := ps\<rparr> # rest, pc', rrp'')"
  by (auto simp: static_tab_def chain_weights_ok_def conns_tab_def)

lemma get_law_splice:
  assumes "get_law n (drop n ups) (rc, ups', pc', rrp')"
  shows "get_law 0 ups (rc, take n ups @ ups', pc', rrp')"
proof -
  have st: "static_tab (take n ups @ ups') = static_tab ups"
    using assms unfolding static_tab_def get_law.simps by (intro map_take_append) (rule conjunct1)
  have w: "chain_weights_ok ups \<Longrightarrow> chain_weights_ok (take n ups @ ups')"
    using assms by (auto simp: chain_weights_ok_def dest: in_set_takeD in_set_dropD)
  have none: "rc \<noteq> NGX_OK \<Longrightarrow> conns_tab (take n ups @ ups') = conns_tab ups"
    using assms unfolding conns_tab_def get_law.simps by (intro map_take_append) simp
  have "\<exists>d k. rrp_peers rrp' = 0 + d \<and> current rrp' = Some k \<and> in_chain ups d k \<and>
      \<not> peer_full (peer_at ups d k) \<and> \<not> down (peer_at ups d k) \<and>
      conns_tab (take n ups @ ups') = tab_inc (conns_tab ups) d k" if rc: "rc = NGX_OK"
  proof -
    obtain d k where d: "rrp_peers rrp' = n + d" "current rrp' = Some k" "in_chain (drop n ups) d k"
      "\<not> peer_full (peer_at (drop n ups) d k)" "\<not> down (peer_at (drop n ups) d k)"
      "conns_tab ups' = tab_inc (conns_tab (drop n ups)) d k"
      using assms rc by auto
    then have n: "n + d < length ups" by (auto simp: in_chain_def)
    have "conns_tab (take n ups @ ups') = take n (conns_tab ups) @ tab_inc (drop n (conns_tab ups)) d k"
      using d(6) by (simp add: conns_tab_def take_map drop_map)
    also have "\<dots> = tab_inc (conns_tab ups) (n + d) k"
    proof -
      have "length (conns_tab ups) = length ups" by (simp add: conns_tab_def)
      then have "tab_inc (drop n (conns_tab ups)) d k = drop n (tab_inc (conns_tab ups) (n + d) k)"
        "take n (conns_tab ups) = take n (tab_inc (conns_tab ups) (n + d) k)"
        using n by (simp_all add: tab_inc_def drop_update_swap)
      then show ?thesis by (simp add: append_take_drop_id)
    qed
    finally show ?thesis using d(1-5) n
      by (intro exI [of _ "n + d"] exI [of _ k]) (simp add: in_chain_def peer_at_def)
  qed
  then show ?thesis using st w none by simp
qed

section \<open>Requests in flight\<close>

type_synonym get_handler =
  "int \<Rightarrow> rr_chain \<Rightarrow> ngx_peer_connection_t \<Rightarrow> ngx_http_upstream_rr_peer_data_t
     \<Rightarrow> ngx_rc \<times> rr_chain \<times> ngx_peer_connection_t \<times> ngx_http_upstream_rr_peer_data_t"

record balancer_state =
  bs_chain :: rr_chain
  bs_active :: "ngx_http_upstream_rr_peer_data_t list"

text \<open>
  A step is one handler call. A request that calls get may be new or may retry with the data it
  has; a request that calls free is one that holds a peer. The number of requests in flight fits
  the counter (it is bounded by the number of connections of the worker).
\<close>

inductive balancer_step :: "get_handler \<Rightarrow> balancer_state \<Rightarrow> balancer_state \<Rightarrow> bool" for get where
  get_peer: "get now (bs_chain s) pc rrp = (NGX_OK, ups', pc', rrp') \<Longrightarrow>
     int (length (bs_active s)) + 1 < 2 ^ 64 \<Longrightarrow>
     balancer_step get s \<lparr>bs_chain = ups', bs_active = rrp' # bs_active s\<rparr>"
| no_peer: "get now (bs_chain s) pc rrp = (rc, ups', pc', rrp') \<Longrightarrow> rc \<noteq> NGX_OK \<Longrightarrow>
     balancer_step get s (s\<lparr>bs_chain := ups'\<rparr>)"
| free_peer: "bs_active s = as @ rrp # bs \<Longrightarrow>
     ngx_http_upstream_free_round_robin_peer now (bs_chain s) pc rrp state = Some (ups', pc') \<Longrightarrow>
     balancer_step get s \<lparr>bs_chain = ups', bs_active = as @ bs\<rparr>"

inductive balancer_reachable :: "get_handler \<Rightarrow> rr_chain \<Rightarrow> balancer_state \<Rightarrow> bool" for get ups where
  start: "balancer_reachable get ups \<lparr>bs_chain = ups, bs_active = []\<rparr>"
| step: "balancer_reachable get ups s \<Longrightarrow> balancer_step get s s' \<Longrightarrow> balancer_reachable get ups s'"

definition holders :: "ngx_http_upstream_rr_peer_data_t list \<Rightarrow> nat \<Rightarrow> nat \<Rightarrow> nat" where
  "holders as g k = length (filter (\<lambda>r. rrp_peers r = g \<and> current r = Some k) as)"

definition holds_valid :: "rr_chain \<Rightarrow> ngx_http_upstream_rr_peer_data_t \<Rightarrow> bool" where
  "holds_valid ups r \<longleftrightarrow> (\<exists>k. current r = Some k \<and> in_chain ups (rrp_peers r) k)"

definition balancer_inv :: "balancer_state \<Rightarrow> bool" where
  "balancer_inv s \<longleftrightarrow>
     chain_weights_ok (bs_chain s) \<and> (\<forall>r \<in> set (bs_active s). holds_valid (bs_chain s) r) \<and>
     int (length (bs_active s)) < 2 ^ 64 \<and>
     (\<forall>g k. in_chain (bs_chain s) g k \<longrightarrow>
        conns (peer_at (bs_chain s) g k) = int (holders (bs_active s) g k) \<and>
        (max_conns (peer_at (bs_chain s) g k) \<noteq> 0 \<longrightarrow>
           conns (peer_at (bs_chain s) g k) \<le> max_conns (peer_at (bs_chain s) g k)))"

text \<open>A chain as the configuration leaves it: no connections, sane limits and weights.\<close>

definition chain_idle :: "rr_chain \<Rightarrow> bool" where
  "chain_idle ups \<longleftrightarrow> chain_weights_ok ups \<and>
     (\<forall>g \<in> set ups. \<forall>p \<in> set (peer g). conns p = 0 \<and> 0 \<le> max_conns p)"

lemma balancer_invD:
  assumes "balancer_inv s" and "in_chain (bs_chain s) g k"
  shows "conns (peer_at (bs_chain s) g k) = int (holders (bs_active s) g k)"
    and "max_conns (peer_at (bs_chain s) g k) \<noteq> 0 \<Longrightarrow>
      int (holders (bs_active s) g k) \<le> max_conns (peer_at (bs_chain s) g k)"
  using assms by (simp add: balancer_inv_def, metis balancer_inv_def)

lemma balancer_inv_weights:
  "balancer_inv s \<Longrightarrow> in_chain (bs_chain s) g k \<Longrightarrow> peer_weights_ok (peer_at (bs_chain s) g k)"
  unfolding balancer_inv_def chain_weights_ok_def in_chain_def peer_at_def by (meson nth_mem)

lemma holders_le: "holders as g k \<le> length as"
  by (simp add: holders_def)

lemma holds_valid_static:
  "static_tab ups' = static_tab ups \<Longrightarrow> holds_valid ups' r = holds_valid ups r"
  using static_tab_in_chain [of ups' ups] by (simp add: holds_valid_def)

lemma peer_static_max_conns: "peer_static p = peer_static q \<Longrightarrow> max_conns p = max_conns q"
  by (simp add: peer_static_def)

lemma balancer_inv_idle: "chain_idle ups \<Longrightarrow> balancer_inv \<lparr>bs_chain = ups, bs_active = []\<rparr>"
  by (auto simp: balancer_inv_def chain_idle_def holders_def in_chain_def peer_at_def
      all_set_conv_all_nth)

lemma balancer_inv_free:
  assumes "balancer_inv s" and act: "bs_active s = as @ rrp # bs"
    and free: "ngx_http_upstream_free_round_robin_peer now (bs_chain s) pc rrp state = Some (ups', pc')"
  shows "balancer_inv \<lparr>bs_chain = ups', bs_active = as @ bs\<rparr>"
proof -
  obtain k where k: "current rrp = Some k" "in_chain (bs_chain s) (rrp_peers rrp) k"
    using assms(1) act by (auto simp: balancer_inv_def holds_valid_def)
  note F = free_peer_laws [OF free k]
  have h: "holders (bs_active s) g' k' =
      holders (as @ bs) g' k' + (if g' = rrp_peers rrp \<and> k' = k then 1 else 0)" for g' k'
    using k(1) by (simp add: holders_def act)
  have c: "conns (peer_at ups' g' k') = int (holders (as @ bs) g' k')"
    if "in_chain (bs_chain s) g' k'" for g' k'
  proof -
    have "conns (peer_at (bs_chain s) g' k') = int (holders (bs_active s) g' k')"
      using assms(1) that by (simp add: balancer_inv_def)
    moreover have "int (holders (as @ bs) g' k') < 2 ^ 64"
      using assms(1) act holders_le [of "as @ bs" g' k'] by (simp add: balancer_inv_def)
    ultimately show ?thesis using F(2) [OF that] h [of g' k'] by (auto simp: u64_id)
  qed
  have lim: "conns (peer_at ups' g' k') \<le> max_conns (peer_at ups' g' k')"
    if "in_chain (bs_chain s) g' k'" "max_conns (peer_at ups' g' k') \<noteq> 0" for g' k'
  proof -
    have m: "max_conns (peer_at ups' g' k') = max_conns (peer_at (bs_chain s) g' k')"
      using peer_static_max_conns [OF static_tab_peer_at [OF F(1) that(1)]] .
    then have "int (holders (bs_active s) g' k') \<le> max_conns (peer_at (bs_chain s) g' k')"
      using balancer_invD(2) [OF assms(1) that(1)] that(2) by simp
    then show ?thesis using c [OF that(1)] h [of g' k'] m by simp
  qed
  show ?thesis
    using assms(1) act F(3) c lim
    by (simp add: balancer_inv_def static_tab_in_chain [OF F(1)] holds_valid_static [OF F(1)])
qed

section \<open>The contract\<close>

locale peer_balancer =
  fixes get :: get_handler
  assumes get_static: "get now ups pc rrp = (rc, ups', pc', rrp') \<Longrightarrow> static_tab ups' = static_tab ups"
    and get_weights: "get now ups pc rrp = (rc, ups', pc', rrp') \<Longrightarrow>
      chain_weights_ok ups \<Longrightarrow> chain_weights_ok ups'"
    and get_none: "get now ups pc rrp = (rc, ups', pc', rrp') \<Longrightarrow> rc \<noteq> NGX_OK \<Longrightarrow>
      conns_tab ups' = conns_tab ups"
    and get_some: "get now ups pc rrp = (NGX_OK, ups', pc', rrp') \<Longrightarrow>
      \<exists>k. current rrp' = Some k \<and> in_chain ups (rrp_peers rrp') k \<and>
          \<not> peer_full (peer_at ups (rrp_peers rrp') k) \<and> \<not> down (peer_at ups (rrp_peers rrp') k) \<and>
          conns_tab ups' = tab_inc (conns_tab ups) (rrp_peers rrp') k"
begin

lemma inv_get:
  assumes inv: "balancer_inv s" and g: "get now (bs_chain s) pc rrp = (NGX_OK, ups', pc', rrp')"
    and room: "int (length (bs_active s)) + 1 < 2 ^ 64"
  shows "balancer_inv \<lparr>bs_chain = ups', bs_active = rrp' # bs_active s\<rparr>"
proof -
  let ?ups = "bs_chain s" and ?g = "rrp_peers rrp'"
  note st = get_static [OF g]
  obtain k where k: "current rrp' = Some k" "in_chain ?ups ?g k" "\<not> peer_full (peer_at ?ups ?g k)"
    "conns_tab ups' = tab_inc (conns_tab ?ups) ?g k"
    using get_some [OF g] by blast
  have c: "conns (peer_at ups' g' k') =
     (if g' = ?g \<and> k' = k then u64 (conns (peer_at ?ups g' k') + 1) else conns (peer_at ?ups g' k'))"
    if "in_chain ?ups g' k'" for g' k'
    using conns_tab_nth [of ups' g' k'] tab_inc_nth [OF k(2) that] that k(4)
    by (auto simp: static_tab_in_chain [OF st])
  have h: "holders (rrp' # bs_active s) g' k' =
      holders (bs_active s) g' k' + (if g' = ?g \<and> k' = k then 1 else 0)" for g' k'
    using k(1) by (simp add: holders_def)
  have cc: "conns (peer_at ?ups g' k') = int (holders (bs_active s) g' k')" 
    if "in_chain ?ups g' k'" for g' k'
    using inv that by (simp add: balancer_inv_def)
  have new: "conns (peer_at ups' g' k') = int (holders (rrp' # bs_active s) g' k')"
    if "in_chain ?ups g' k'" for g' k'
    using c [OF that] h [of g' k'] cc [OF that] room holders_le [of "bs_active s" g' k']
    by (cases "g' = ?g \<and> k' = k") (auto simp: u64_id)
  have mx: "max_conns (peer_at ups' g' k') = max_conns (peer_at ?ups g' k')"
    if "in_chain ?ups g' k'" for g' k'
    using peer_static_max_conns [OF static_tab_peer_at [OF st that]] .
  have lim: "conns (peer_at ups' g' k') \<le> max_conns (peer_at ups' g' k')"
    if "in_chain ?ups g' k'" "max_conns (peer_at ups' g' k') \<noteq> 0" for g' k'
    using balancer_invD(2) [OF inv that(1)] that(2) new [OF that(1)] cc [OF that(1)] h [of g' k']
      k(3) mx [OF that(1)]
    by (cases "g' = ?g \<and> k' = k") (auto simp: peer_full_def)
  show ?thesis
    using inv room new lim get_weights [OF g] k(1,2)
    by (auto simp: balancer_inv_def static_tab_in_chain [OF st] holds_valid_static [OF st] holds_valid_def)
qed

lemma inv_none:
  assumes inv: "balancer_inv s" and g: "get now (bs_chain s) pc rrp = (rc, ups', pc', rrp')"
    and "rc \<noteq> NGX_OK"
  shows "balancer_inv (s\<lparr>bs_chain := ups'\<rparr>)"
proof -
  note st = get_static [OF g]
  have "conns (peer_at ups' g' k') = conns (peer_at (bs_chain s) g' k')"
    if "in_chain (bs_chain s) g' k'" for g' k'
    using get_none [OF g assms(3)] that conns_tab_nth [of ups' g' k'] conns_tab_nth [OF that]
    by (simp add: static_tab_in_chain [OF st])
  moreover have "max_conns (peer_at ups' g' k') = max_conns (peer_at (bs_chain s) g' k')"
    if "in_chain (bs_chain s) g' k'" for g' k'
    using peer_static_max_conns [OF static_tab_peer_at [OF st that]] .
  ultimately show ?thesis
    using inv get_weights [OF g] balancer_invD [OF inv]
    by (simp add: balancer_inv_def static_tab_in_chain [OF st] holds_valid_static [OF st])
qed

lemma step_inv: "balancer_step get s s' \<Longrightarrow> balancer_inv s \<Longrightarrow> balancer_inv s'"
  by (induction rule: balancer_step.induct) (auto intro: inv_get inv_none balancer_inv_free)

lemma reachable_inv: "balancer_reachable get ups s \<Longrightarrow> chain_idle ups \<Longrightarrow> balancer_inv s"
  by (induction rule: balancer_reachable.induct) (auto intro: balancer_inv_idle step_inv)

end

text \<open>The law of a walk gives the contract.\<close>

lemma peer_balancer_of_law:
  assumes "\<And>now ups pc rrp. get_law 0 ups (get now ups pc rrp)"
  shows "peer_balancer get"
proof (unfold_locales, goal_cases)
  case (1 now ups pc rrp)
  then show ?case using assms [of ups now pc rrp] by simp
next
  case (2 now ups pc rrp)
  then show ?case using assms [of ups now pc rrp] by simp
next
  case (3 now ups pc rrp)
  then show ?case using assms [of ups now pc rrp] by simp
next
  case (4 now ups pc rrp)
  then show ?case using assms [of ups now pc rrp] by simp
qed

text \<open>
  The requests of one upstream may call different handlers: a handler with data of its own is one
  handler for each value of the data, and some fall back to round robin. The contract of all of them
  gives the invariant for any interleaving.
\<close>

inductive mixed_reachable :: "get_handler set \<Rightarrow> rr_chain \<Rightarrow> balancer_state \<Rightarrow> bool" for G ups where
  mixed_start: "mixed_reachable G ups \<lparr>bs_chain = ups, bs_active = []\<rparr>"
| mixed_step: "mixed_reachable G ups s \<Longrightarrow> get \<in> G \<Longrightarrow> balancer_step get s s' \<Longrightarrow> mixed_reachable G ups s'"

lemma mixed_inv:
  assumes "mixed_reachable G ups s" and "\<And>get. get \<in> G \<Longrightarrow> peer_balancer get" and "chain_idle ups"
  shows "balancer_inv s"
  using assms(1)
  by induction (auto intro: balancer_inv_idle assms(3) peer_balancer.step_inv [OF assms(2)])

end
