(* ===== verification/Ngx_Swrr.thy ===== *)
theory Ngx_Swrr
  imports Ngx_Prelude
begin

text \<open>
  The abstract specification of smooth weighted round robin, independent of the peers' other
  fields: a list of weights \<open>w\<close> and a list of current weights \<open>c\<close>. A step adds every weight, picks an
  index whose sum is largest and subtracts the total weight there. Theorem \<open>swrr_run_fair\<close>: from
  zero, a run of a multiple of the total weight in steps picks every index exactly that multiple of
  its weight, and ends in zero again.
\<close>

definition swrr_step :: "int list \<Rightarrow> int list \<Rightarrow> nat \<Rightarrow> int list \<Rightarrow> bool" where
  "swrr_step w c b c' \<longleftrightarrow>
     b < length w \<and> length c = length w \<and> length c' = length w \<and>
     (\<forall>j < length w. c ! j + w ! j \<le> c ! b + w ! b) \<and>
     (\<forall>j < length w. c' ! j = c ! j + w ! j - (if j = b then sum_list w else 0))"

inductive swrr_run :: "int list \<Rightarrow> int list \<Rightarrow> nat list \<Rightarrow> int list \<Rightarrow> bool" for w where
  stop: "length c = length w \<Longrightarrow> swrr_run w c [] c"
| pick: "swrr_step w c b c' \<Longrightarrow> swrr_run w c' bs c'' \<Longrightarrow> swrr_run w c (b # bs) c''"

definition swrr_inv :: "int list \<Rightarrow> int list \<Rightarrow> bool" where
  "swrr_inv w c \<longleftrightarrow> length c = length w \<and> sum_list c = 0 \<and> (\<forall>j < length w. - sum_list w < c ! j)"

lemma sum_list_nth_eq: "sum_list xs = (\<Sum>j = 0..<length xs. xs ! j)" for xs :: "int list"
  by (simp add: sum_list_sum_nth)

lemma swrr_step_sum:
  assumes "swrr_step w c b c'"
  shows "sum_list c' = sum_list c"
proof -
  let ?n = "length w"
  have "sum_list c' = (\<Sum>j = 0..<?n. c ! j + w ! j - (if j = b then sum_list w else 0))"
    using assms by (simp add: swrr_step_def sum_list_nth_eq)
  also have "\<dots> = (\<Sum>j = 0..<?n. c ! j) + (\<Sum>j = 0..<?n. w ! j) - sum_list w"
    using assms by (simp add: swrr_step_def sum.distrib sum_subtractf)
  also have "\<dots> = sum_list c"
    using assms by (simp add: swrr_step_def sum_list_nth_eq)
  finally show ?thesis .
qed

lemma swrr_step_inv:
  assumes "swrr_step w c b c'" and "swrr_inv w c" and pos: "\<forall>x \<in> set w. 0 < x"
  shows "swrr_inv w c'"
proof -
  let ?n = "length w" and ?W = "sum_list w"
  have b: "b < ?n" and len: "length c = ?n" "length c' = ?n" using assms(1) by (auto simp: swrr_step_def)
  have Wsum: "?W = (\<Sum>j = 0..<?n. c ! j + w ! j)"
    using assms(2) len by (simp add: swrr_inv_def sum_list_nth_eq sum.distrib)
  have "0 < w ! b" using pos b by simp
  also have "w ! b \<le> ?W"
    using pos b by (simp add: sum_list_nth_eq) (rule member_le_sum, auto simp: less_imp_le)
  finally have "0 < ?W" .
  then have "0 < c ! b + w ! b"
  proof (rule contrapos_pp)
    assume "\<not> 0 < c ! b + w ! b"
    then have "\<forall>j \<in> {0..<?n}. c ! j + w ! j \<le> 0"
      using assms(1) by (force simp: swrr_step_def)
    then show "\<not> 0 < ?W" using Wsum sum_nonpos [of "{0..<?n}" "\<lambda>j. c ! j + w ! j"] by simp
  qed
  moreover have "- ?W < c ! j + w ! j" if "j < ?n" for j
  proof -
    have "0 < w ! j" using pos that by simp
    moreover have "- ?W < c ! j" using assms(2) that by (simp add: swrr_inv_def)
    ultimately show ?thesis by simp
  qed
  ultimately show ?thesis
    using assms(1,2) len swrr_step_sum [OF assms(1)] by (auto simp: swrr_inv_def swrr_step_def)
qed

lemma swrr_run_inv:
  "swrr_run w c bs c' \<Longrightarrow> \<forall>x \<in> set w. 0 < x \<Longrightarrow> swrr_inv w c \<Longrightarrow> swrr_inv w c'"
  by (induction rule: swrr_run.induct) (auto intro: swrr_step_inv)

lemma swrr_run_value:
  "swrr_run w c bs c' \<Longrightarrow> j < length w \<Longrightarrow>
     c' ! j = c ! j + int (length bs) * w ! j - sum_list w * int (count_list bs j)"
  by (induction rule: swrr_run.induct) (auto simp: swrr_step_def algebra_simps)

lemma swrr_inv_upper:
  assumes "swrr_inv w c" and "j < length w"
  shows "c ! j \<le> (int (length w) - 1) * sum_list w"
proof -
  let ?n = "length w"
  have "0 = (\<Sum>i \<in> {0..<?n}. c ! i)"
    using assms by (auto simp: swrr_inv_def sum_list_nth_eq)
  also have "\<dots> = c ! j + (\<Sum>i \<in> {0..<?n} - {j}. c ! i)"
    using assms by (simp add: sum.remove)
  finally have "c ! j = - (\<Sum>i \<in> {0..<?n} - {j}. c ! i)" by simp
  moreover have "(\<Sum>i \<in> {0..<?n} - {j}. - sum_list w) \<le> (\<Sum>i \<in> {0..<?n} - {j}. c ! i)"
    using assms by (intro sum_mono) (simp add: swrr_inv_def less_imp_le)
  ultimately show ?thesis using assms by (simp add: of_nat_diff)
qed

lemma swrr_run_fair:
  assumes run: "swrr_run w (replicate (length w) 0) bs c'"
    and pos: "\<forall>x \<in> set w. 0 < x" and len: "int (length bs) = n * sum_list w"
    and j: "j < length w"
  shows "int (count_list bs j) = n * w ! j" and "c' ! j = 0"
proof -
  let ?W = "sum_list w"
  have W: "0 < ?W"
    using pos j by (intro sum_list_pos) auto
  have "swrr_inv w (replicate (length w) 0)"
    using W by (simp add: swrr_inv_def sum_list_replicate)
  then have inv: "swrr_inv w c'" using swrr_run_inv [OF run pos] by simp
  have v: "c' ! i = ?W * (n * w ! i - int (count_list bs i))" if "i < length w" for i
    using swrr_run_value [OF run that] that len by (simp add: algebra_simps)
  have ge: "0 \<le> c' ! i" if "i < length w" for i
  proof -
    have "- ?W < c' ! i" using inv that by (simp add: swrr_inv_def)
    then have "?W * (- 1) < ?W * (n * w ! i - int (count_list bs i))"
      using v [OF that] by simp
    then have "- 1 < n * w ! i - int (count_list bs i)"
      using W mult_less_cancel_left_pos by blast
    then show ?thesis using W v [OF that] by simp
  qed
  have "(\<Sum>i = 0..<length w. c' ! i) = 0"
    using inv by (auto simp: swrr_inv_def sum_list_nth_eq)
  then have "\<forall>i \<in> {0..<length w}. c' ! i = 0"
    using sum_nonneg_eq_0_iff [of "{0..<length w}" "\<lambda>i. c' ! i"] ge by simp
  then show "c' ! j = 0" using j by simp
  then show "int (count_list bs j) = n * w ! j" using v [OF j] W by simp
qed

end
