(* ===== verification/Ngx_Upstream_RR.thy ===== *)
theory Ngx_Upstream_RR
  imports Ngx_Balancer Ngx_Swrr
begin

text \<open>
  The round-robin balancer of src/nginx/src/http/ngx_http_upstream_round_robin.c: the smooth
  weighted selection \<^verbatim>\<open>ngx_http_upstream_get_peer\<close> and the get handler of a request.
\<close>

section \<open>Selecting a peer\<close>

text \<open>The update of the weights of a peer the loop does not skip.\<close>

definition rr_bump :: "ngx_http_upstream_rr_peer_t \<Rightarrow> ngx_http_upstream_rr_peer_t" where
  "rr_bump p =
     (let p1 = p\<lparr>current_weight := i64 (current_weight p + effective_weight p)\<rparr>
      in if effective_weight p1 < weight p1
         then p1\<lparr>effective_weight := i64 (effective_weight p1 + 1)\<rparr> else p1)"

text \<open>\<^verbatim>\<open>if (best == NULL || peer->current_weight > best->current_weight) best = peer\<close>.\<close>

definition rr_better :: "ngx_http_upstream_rr_peer_t list \<Rightarrow> nat option \<Rightarrow> nat \<Rightarrow> nat option" where
  "rr_better ps best i =
     (case best of
        None \<Rightarrow> Some i
      | Some b \<Rightarrow> if current_weight (ps ! i) > current_weight (ps ! b) then Some i else best)"

function rr_loop ::
    "int \<Rightarrow> 64 word list \<Rightarrow> nat \<Rightarrow> ngx_http_upstream_rr_peer_t list \<Rightarrow> nat option \<Rightarrow> int
       \<Rightarrow> ngx_http_upstream_rr_peer_t list \<times> nat option \<times> int" where
  "rr_loop now t i ps best tot =
     (if i < length ps then
        (let p = ps ! i
         in if \<not> rr_eligible now t i p then rr_loop now t (Suc i) ps best tot
            else
              let ps' = ps[i := rr_bump p];
                  tot' = i64 (tot + effective_weight p)
              in rr_loop now t (Suc i) ps' (rr_better ps' best i) tot')
      else (ps, best, tot))"
  by pat_completeness auto
termination
  by (relation "measure (\<lambda>(now, t, i, ps, best, tot). length ps - i)") auto

declare rr_loop.simps [simp del]

definition ngx_http_upstream_get_peer ::
    "int \<Rightarrow> ngx_http_upstream_rr_peer_t list \<Rightarrow> ngx_http_upstream_rr_peer_data_t
       \<Rightarrow> nat option \<times> ngx_http_upstream_rr_peer_t list \<times> ngx_http_upstream_rr_peer_data_t" where
  "ngx_http_upstream_get_peer now ps rrp =
     (case rr_loop now (tried rrp) 0 ps None 0 of
        (ps', None, tot) \<Rightarrow> (None, ps', rrp)
      | (ps', Some p, tot) \<Rightarrow>
          let best = ps' ! p;
              best1 = best\<lparr>current_weight := i64 (current_weight best - tot)\<rparr>
          in (Some p, ps'[p := peer_touch now best1],
              rrp\<lparr>current := Some p, tried := tried_set (tried rrp) p\<rparr>))"

section \<open>The get handler\<close>

text \<open>
  The part of the handler before the label \<^verbatim>\<open>failed\<close>: the peer chosen in a group (\<open>None\<close> is
  \<^verbatim>\<open>goto failed\<close>), with the group and the balancer data after the choice.
\<close>

definition rr_choose ::
    "int \<Rightarrow> ngx_http_upstream_rr_peers_t \<Rightarrow> ngx_http_upstream_rr_peer_data_t
       \<Rightarrow> nat option \<times> ngx_http_upstream_rr_peer_t list \<times> ngx_http_upstream_rr_peer_data_t" where
  "rr_choose now peers rrp =
     (if single peers then
        (case peer peers of
           [] \<Rightarrow> (None, [], rrp)
         | p # _ \<Rightarrow>
             if down p then (None, peer peers, rrp)
             else if peer_full p then (None, peer peers, rrp)
             else (Some 0, peer peers, rrp\<lparr>current := Some 0\<rparr>))
      else ngx_http_upstream_get_peer now (peer peers) rrp)"

text \<open>
  The handler on the suffix of the chain \<^verbatim>\<open>rrp->peers\<close> points at. The empty chain stands for a NULL
  \<^verbatim>\<open>rrp->peers\<close>, which no caller passes.
\<close>

fun get_rr_peer ::
    "int \<Rightarrow> rr_chain \<Rightarrow> ngx_peer_connection_t \<Rightarrow> ngx_http_upstream_rr_peer_data_t
       \<Rightarrow> ngx_rc \<times> rr_chain \<times> ngx_peer_connection_t \<times> ngx_http_upstream_rr_peer_data_t" where
  "get_rr_peer now [] pc rrp = (NGX_ERROR, [], pc, rrp)"
| "get_rr_peer now (peers # next) pc rrp =
     (let pc0 = pc\<lparr>pc_cached := False, pc_connection := False\<rparr>
      in case rr_choose now peers rrp of
           (Some k, ps, rrp') \<Rightarrow>
             (NGX_OK, peers\<lparr>peer := ps[k := peer_acquire (ps ! k)]\<rparr> # next,
              pc_use_peer (ps ! k) pc0, rrp')
         | (None, ps, rrp') \<Rightarrow>
             let failed = peers\<lparr>peer := ps\<rparr>
             in case next of
                  [] \<Rightarrow> (NGX_BUSY, [failed], pc0\<lparr>pc_name := peers_name peers\<rparr>, rrp')
                | b # _ \<Rightarrow>
                    (case get_rr_peer now next pc0
                            (rrp'\<lparr>rrp_peers := Suc (rrp_peers rrp'),
                                  tried := tried_clear (tried_words (number b)) (tried rrp')\<rparr>) of
                       (rc, next', pc', rrp'') \<Rightarrow>
                         if rc \<noteq> NGX_BUSY then (rc, failed # next', pc', rrp'')
                         else (NGX_BUSY, failed # next', pc'\<lparr>pc_name := peers_name peers\<rparr>, rrp'')))"

definition ngx_http_upstream_get_round_robin_peer ::
    "int \<Rightarrow> rr_chain \<Rightarrow> ngx_peer_connection_t \<Rightarrow> ngx_http_upstream_rr_peer_data_t
       \<Rightarrow> ngx_rc \<times> rr_chain \<times> ngx_peer_connection_t \<times> ngx_http_upstream_rr_peer_data_t" where
  "ngx_http_upstream_get_round_robin_peer now ups pc rrp =
     (case get_rr_peer now (drop (rrp_peers rrp) ups) pc rrp of
        (rc, ups', pc', rrp') \<Rightarrow> (rc, take (rrp_peers rrp) ups @ ups', pc', rrp'))"

section \<open>What the selection loop computes\<close>

lemma rr_loop_done: "\<not> i < length ps \<Longrightarrow> rr_loop now t i ps best tot = (ps, best, tot)"
  by (simp add: rr_loop.simps)

lemma rr_loop_skip:
  "i < length ps \<Longrightarrow> \<not> rr_eligible now t i (ps ! i) \<Longrightarrow>
     rr_loop now t i ps best tot = rr_loop now t (Suc i) ps best tot"
  by (simp add: rr_loop.simps [of now t i])

lemma rr_loop_take:
  "i < length ps \<Longrightarrow> rr_eligible now t i (ps ! i) \<Longrightarrow>
     rr_loop now t i ps best tot =
       rr_loop now t (Suc i) (ps[i := rr_bump (ps ! i)])
         (rr_better (ps[i := rr_bump (ps ! i)]) best i) (i64 (tot + effective_weight (ps ! i)))"
  by (simp add: rr_loop.simps [of now t i] Let_def)

lemmas rr_loop_steps = rr_loop_done rr_loop_skip rr_loop_take

definition rr_bumped :: "int \<Rightarrow> 64 word list \<Rightarrow> nat \<Rightarrow> ngx_http_upstream_rr_peer_t list \<Rightarrow> nat \<Rightarrow> ngx_http_upstream_rr_peer_t" where
  "rr_bumped now t i ps j = (if i \<le> j \<and> rr_eligible now t j (ps ! j) then rr_bump (ps ! j) else ps ! j)"

lemma rr_loop_peers:
  "fst (rr_loop now t i ps best tot) = map (rr_bumped now t i ps) [0..<length ps]"
proof (induction now t i ps best tot rule: rr_loop.induct)
  case (1 now t i ps best tot)
  have skip: "map (rr_bumped now t (Suc i) ps) [0..<length ps] = map (rr_bumped now t i ps) [0..<length ps]"
    if "\<not> rr_eligible now t i (ps ! i)"
    using that by (auto simp: rr_bumped_def le_Suc_eq Suc_le_eq dest: le_neq_implies_less)
  have tk: "map (rr_bumped now t (Suc i) (ps[i := rr_bump (ps ! i)])) [0..<length ps]
      = map (rr_bumped now t i ps) [0..<length ps]" if "rr_eligible now t i (ps ! i)" "i < length ps"
    using that by (auto simp: rr_bumped_def nth_list_update_if Suc_le_eq dest: le_neq_implies_less)
  show ?case
  proof (cases "i < length ps")
    case False
    then show ?thesis
      by (simp add: rr_loop_done) (rule nth_equalityI, auto simp: rr_bumped_def)
  next
    case True
    then show ?thesis
      using "1.IH" skip tk
      by (cases "rr_eligible now t i (ps ! i)") (auto simp: rr_loop_skip rr_loop_take)
  qed
qed

lemma rr_loop_total:
  "i64 (snd (snd (rr_loop now t i ps best tot))) =
     i64 (tot + (\<Sum>j = i..<length ps. if rr_eligible now t j (ps ! j) then effective_weight (ps ! j) else 0))"
proof (induction now t i ps best tot rule: rr_loop.induct)
  case (1 now t i ps best tot)
  show ?case
  proof (cases "i < length ps")
    case False
    then show ?thesis by (simp add: rr_loop_done)
  next
    case True
    let ?f = "\<lambda>ps j. if rr_eligible now t j (ps ! j) then effective_weight (ps ! j) else 0"
    have "sum (?f (ps[i := p])) {Suc i..<length ps} = sum (?f ps) {Suc i..<length ps}" for p
      by (rule sum.cong) auto
    with True show ?thesis
      using "1.IH"
      by (cases "rr_eligible now t i (ps ! i)")
        (simp_all add: rr_loop_skip rr_loop_take sum.atLeast_Suc_lessThan add.assoc)
  qed
qed


lemma rr_bumped_skip:
  "\<not> rr_eligible now t i (ps ! i) \<Longrightarrow> rr_bumped now t (Suc i) ps = rr_bumped now t i ps"
  by (rule ext) (auto simp: rr_bumped_def Suc_le_eq dest: le_neq_implies_less)

lemma rr_bumped_take:
  "rr_eligible now t i (ps ! i) \<Longrightarrow> i < length ps \<Longrightarrow> 
     rr_bumped now t (Suc i) (ps[i := rr_bump (ps ! i)]) = rr_bumped now t i ps"
  by (rule ext) (auto simp: rr_bumped_def nth_list_update_if Suc_le_eq dest: le_neq_implies_less)

definition rr_cand :: "int \<Rightarrow> 64 word list \<Rightarrow> nat \<Rightarrow> ngx_http_upstream_rr_peer_t list \<Rightarrow> nat option \<Rightarrow> nat set" where
  "rr_cand now t i ps best = set_option best \<union> {j. i \<le> j \<and> j < length ps \<and> rr_eligible now t j (ps ! j)}"

lemma rr_loop_best:
  assumes "set_option best \<subseteq> {..<i}" "i \<le> length ps"
  shows "case fst (snd (rr_loop now t i ps best tot)) of
     None \<Rightarrow> rr_cand now t i ps best = {}
   | Some b \<Rightarrow> is_arg_max (\<lambda>j. current_weight (rr_bumped now t i ps j)) (\<lambda>j. j \<in> rr_cand now t i ps best) b"
  using assms
proof (induction now t i ps best tot rule: rr_loop.induct)
  case (1 now t i ps best tot)
  let ?ps = "ps[i := rr_bump (ps ! i)]"
  consider (stop) "\<not> i < length ps" | (skip) "i < length ps" "\<not> rr_eligible now t i (ps ! i)"
    | (tk) "i < length ps" "rr_eligible now t i (ps ! i)" by blast
  then show ?case
  proof cases
    case stop
    then show ?thesis
      by (auto simp: rr_loop_done rr_cand_def is_arg_max_def split: option.split)
  next
    case skip
    then have "rr_cand now t (Suc i) ps best = rr_cand now t i ps best"
      by (auto simp: rr_cand_def Suc_le_eq dest: le_neq_implies_less)
    moreover have "set_option best \<subseteq> {..<Suc i}" using "1.prems" by auto
    ultimately show ?thesis using "1.IH"(1) skip
      by (auto simp: rr_loop_skip rr_bumped_skip split: option.splits)
  next
    case tk
    let ?best = "rr_better ?ps best i"
    have "set_option ?best \<subseteq> {..<Suc i}" using "1.prems"
      by (auto simp: rr_better_def split: option.splits if_splits)
    then have IH: "case fst (snd (rr_loop now t i ps best tot)) of
     None \<Rightarrow> rr_cand now t (Suc i) ?ps ?best = {}
   | Some b \<Rightarrow> is_arg_max (\<lambda>j. current_weight (rr_bumped now t i ps j)) (\<lambda>j. j \<in> rr_cand now t (Suc i) ?ps ?best) b"
      using "1.IH"(2) [OF tk(1) refl _ refl refl] tk
      unfolding rr_bumped_take [OF tk(2,1)] by (simp add: rr_loop_take)
    have c: "rr_cand now t i ps best = insert i (set_option best \<union> (rr_cand now t (Suc i) ?ps None))"
      using tk by (auto simp: rr_cand_def Suc_le_eq nth_list_update_if dest: le_neq_implies_less)
    have c': "rr_cand now t (Suc i) ?ps ?best = set_option ?best \<union> rr_cand now t (Suc i) ?ps None"
      by (simp add: rr_cand_def)
    have "rr_bumped now t i ps i = rr_bump (ps ! i)" "\<And>j. j < i \<Longrightarrow> rr_bumped now t i ps j = ps ! j"
      using tk by (auto simp: rr_bumped_def)
    then have "set_option ?best \<subseteq> insert i (set_option best)" "?best \<noteq> None"
      "\<forall>b \<in> set_option ?best. \<forall>j \<in> insert i (set_option best). 
         current_weight (rr_bumped now t i ps j) \<le> current_weight (rr_bumped now t i ps b)"
      using "1.prems" tk by (auto simp: rr_better_def split: option.splits)
    with IH c c' show ?thesis
      by (auto simp: is_arg_max_linorder split: option.splits)
  qed
qed

text \<open>Of the candidates with the same weight the loop keeps the first.\<close>

lemma rr_loop_first:
  assumes "set_option best \<subseteq> {..<i}" "i \<le> length ps" "fst (snd (rr_loop now t i ps best tot)) = Some b" "j \<in> rr_cand now t i ps best" "j < b"
  shows "current_weight (rr_bumped now t i ps j) < current_weight (rr_bumped now t i ps b)"
  using assms
proof (induction now t i ps best tot arbitrary: j rule: rr_loop.induct)
  case (1 now t i ps best tot)
  let ?ps = "ps[i := rr_bump (ps ! i)]"
  consider (stop) "\<not> i < length ps" | (skip) "i < length ps" "\<not> rr_eligible now t i (ps ! i)"
    | (tk) "i < length ps" "rr_eligible now t i (ps ! i)" by blast
  then show ?case
  proof cases
    case stop
    then show ?thesis using "1.prems" by (auto simp: rr_loop_done rr_cand_def)
  next
    case skip
    then have "rr_cand now t (Suc i) ps best = rr_cand now t i ps best"
      by (auto simp: rr_cand_def Suc_le_eq dest: le_neq_implies_less)
    moreover have "set_option best \<subseteq> {..<Suc i}" using "1.prems" by auto
    ultimately show ?thesis using "1.IH"(1) [OF skip(1) refl] skip "1.prems" by (simp add: rr_loop_skip rr_bumped_skip)
  next
    case tk
    let ?best = "rr_better ?ps best i" and ?w = "\<lambda>j. current_weight (rr_bumped now t i ps j)"
    have sub: "set_option ?best \<subseteq> {..<Suc i}" using "1.prems"(1)
      by (auto simp: rr_better_def split: option.splits if_splits)
    have res: "fst (snd (rr_loop now t (Suc i) ?ps ?best (i64 (tot + effective_weight (ps ! i))))) = Some b"
      using "1.prems"(3) tk by (simp add: rr_loop_take)
    have IH: "?w k < ?w b" if "k \<in> rr_cand now t (Suc i) ?ps ?best" "k < b" for k
      using "1.IH"(2) [OF tk(1) refl _ refl refl] tk sub res that unfolding rr_bumped_take [OF tk(2,1)] by simp
    obtain x where x: "?best = Some x" by (cases best; cases "current_weight (?ps ! the best) < current_weight (?ps ! i)") (auto simp: rr_better_def)
    have old: "rr_bumped now t i ps i = rr_bump (ps ! i)" "\<And>k. k < i \<Longrightarrow> rr_bumped now t i ps k = ps ! k"
      using tk by (auto simp: rr_bumped_def)
    have b: "x \<le> b" "x \<le> i"
      using rr_loop_best [OF sub, of ?ps now t "i64 (tot + effective_weight (ps ! i))"] res sub tk x by (auto simp: is_arg_max_def rr_cand_def)
    show ?thesis
    proof (cases "j \<in> rr_cand now t (Suc i) ?ps ?best")
      case False
      then have "j = i \<or> j \<in> set_option best" "j \<noteq> x" using "1.prems"(4) tk x
        by (auto simp: rr_cand_def Suc_le_eq nth_list_update_if dest: le_neq_implies_less)
      then have j: "?w j \<le> ?w x" "j < x \<Longrightarrow> ?w j < ?w x"
        using x old "1.prems"(1) tk(1) by (auto simp: rr_better_def split: option.splits if_splits)
      have "x \<in> rr_cand now t (Suc i) ?ps ?best" using x by (simp add: rr_cand_def)
      then show ?thesis using IH [of x] b(1) j "1.prems"(5) by (cases "x = b") auto
    qed (use IH "1.prems"(5) in blast)
  qed
qed

section \<open>What the selection returns\<close>

definition rr_total :: "int \<Rightarrow> 64 word list \<Rightarrow> ngx_http_upstream_rr_peer_t list \<Rightarrow> int" where
  "rr_total now t ps =
     (\<Sum>j = 0..<length ps. if rr_eligible now t j (ps ! j) then effective_weight (ps ! j) else 0)"

lemma get_peer_none:
  assumes "ngx_http_upstream_get_peer now ps rrp = (None, ps', rrp')"
  shows "ps' = ps" "rrp' = rrp" "j < length ps \<Longrightarrow> \<not> rr_eligible now (tried rrp) j (ps ! j)"
proof -
  obtain tot where l: "rr_loop now (tried rrp) 0 ps None 0 = (ps', None, tot)" "rrp' = rrp"
    using assms by (auto simp: ngx_http_upstream_get_peer_def Let_def split: prod.splits option.splits)
  then show "rrp' = rrp" by simp
  have c: "rr_cand now (tried rrp) 0 ps None = {}"
    using rr_loop_best [of None 0 ps now "tried rrp" 0] l by simp
  then show "j < length ps \<Longrightarrow> \<not> rr_eligible now (tried rrp) j (ps ! j)"
    by (auto simp: rr_cand_def)
  have "ps' = map (rr_bumped now (tried rrp) 0 ps) [0..<length ps]"
    using rr_loop_peers [of now "tried rrp" 0 ps None 0] l by simp
  also have "\<dots> = ps"
    by (rule nth_equalityI) (use c in \<open>auto simp: rr_bumped_def rr_cand_def\<close>)
  finally show "ps' = ps" .
qed

lemma get_peer_some:
  assumes "ngx_http_upstream_get_peer now ps rrp = (Some b, ps', rrp')"
  shows "b < length ps" "rr_eligible now (tried rrp) b (ps ! b)"
    "\<And>j. j < length ps \<Longrightarrow> rr_eligible now (tried rrp) j (ps ! j) \<Longrightarrow>
       current_weight (rr_bump (ps ! j)) \<le> current_weight (rr_bump (ps ! b))"
    "rrp' = rrp\<lparr>current := Some b, tried := tried_set (tried rrp) b\<rparr>"
    "ps' = (map (rr_bumped now (tried rrp) 0 ps) [0..<length ps])
        [b := peer_touch now ((rr_bump (ps ! b))\<lparr>current_weight :=
               i64 (current_weight (rr_bump (ps ! b)) - rr_total now (tried rrp) ps)\<rparr>)]"
proof -
  obtain qs tot where l: "rr_loop now (tried rrp) 0 ps None 0 = (qs, Some b, tot)" 
    and r: "rrp' = rrp\<lparr>current := Some b, tried := tried_set (tried rrp) b\<rparr>"
    and p: "ps' = qs[b := peer_touch now ((qs ! b)\<lparr>current_weight := i64 (current_weight (qs ! b) - tot)\<rparr>)]"
    using assms by (auto simp: ngx_http_upstream_get_peer_def Let_def split: prod.splits option.splits)
  show "rrp' = rrp\<lparr>current := Some b, tried := tried_set (tried rrp) b\<rparr>" by (rule r)
  have m: "is_arg_max (\<lambda>j. current_weight (rr_bumped now (tried rrp) 0 ps j)) 
      (\<lambda>j. j \<in> rr_cand now (tried rrp) 0 ps None) b"
    using rr_loop_best [of None 0 ps now "tried rrp" 0] l by simp
  then show b: "b < length ps" "rr_eligible now (tried rrp) b (ps ! b)"
    by (auto simp: is_arg_max_def rr_cand_def)
  then have bb: "rr_bumped now (tried rrp) 0 ps b = rr_bump (ps ! b)" by (simp add: rr_bumped_def)
  fix j
  show "current_weight (rr_bump (ps ! j)) \<le> current_weight (rr_bump (ps ! b))" 
    if "j < length ps" "rr_eligible now (tried rrp) j (ps ! j)"
    using m that bb by (auto simp: is_arg_max_linorder rr_cand_def rr_bumped_def)
  have q: "qs = map (rr_bumped now (tried rrp) 0 ps) [0..<length ps]"
    using rr_loop_peers [of now "tried rrp" 0 ps None 0] l by simp
  have t: "i64 tot = i64 (rr_total now (tried rrp) ps)"
    using rr_loop_total [of now "tried rrp" 0 ps None 0] l by (simp add: rr_total_def)
  from b have "qs ! b = rr_bump (ps ! b)" by (simp add: q bb)
  then show "ps' = (map (rr_bumped now (tried rrp) 0 ps) [0..<length ps])
        [b := peer_touch now ((rr_bump (ps ! b))\<lparr>current_weight :=
               i64 (current_weight (rr_bump (ps ! b)) - rr_total now (tried rrp) ps)\<rparr>)]"
    by (simp add: p q i64_cong_diff [OF t])
qed

lemma get_peer_first:
  assumes "ngx_http_upstream_get_peer now ps rrp = (Some b, ps', rrp')" "j < b" "rr_eligible now (tried rrp) j (ps ! j)"
  shows "current_weight (rr_bump (ps ! j)) < current_weight (rr_bump (ps ! b))"
proof -
  obtain qs tot where l: "rr_loop now (tried rrp) 0 ps None 0 = (qs, Some b, tot)"
    using assms(1) by (auto simp: ngx_http_upstream_get_peer_def Let_def split: prod.splits option.splits)
  then show ?thesis
    using rr_loop_first [of None 0 ps now "tried rrp" 0 b j] get_peer_some(1,2) [OF assms(1)] assms(2,3) by (simp add: rr_cand_def rr_bumped_def)
qed

section \<open>The balancer contract\<close>

lemma rr_bump_simps [simp]:
  "conns (rr_bump p) = conns p" "peer_static (rr_bump p) = peer_static p"
  by (simp_all add: rr_bump_def peer_static_def Let_def)

lemma rr_bump_weights_ok: "peer_weights_ok p \<Longrightarrow> peer_weights_ok (rr_bump p)"
  by (auto simp: rr_bump_def peer_weights_ok_def Let_def i64_id)

lemma rr_bumped_weights_ok: "peer_weights_ok (ps ! j) \<Longrightarrow> peer_weights_ok (rr_bumped now t i ps j)"
  by (simp add: rr_bumped_def rr_bump_weights_ok)

lemma map_rr_bumped:
  "(\<And>p. f (rr_bump p) = f p) \<Longrightarrow> map f (map (rr_bumped now t i ps) [0..<length ps]) = map f ps"
  by (rule nth_equalityI) (auto simp: rr_bumped_def)

lemma get_peer_choice_ok: "choice_ok ps rrp (ngx_http_upstream_get_peer now ps rrp)"
proof -
  obtain r ps' rrp' where g: "ngx_http_upstream_get_peer now ps rrp = (r, ps', rrp')"
    by (metis prod_cases3)
  show ?thesis
  proof (cases r)
    case None
    then show ?thesis using get_peer_none [OF g [unfolded None]] g by simp
  next
    case (Some b)
    let ?qs = "map (rr_bumped now (tried rrp) 0 ps) [0..<length ps]"
    note G = get_peer_some [OF g [unfolded Some]]
    obtain q where q: "ps' = ?qs[b := q]" "conns q = conns (ps ! b)" "peer_static q = peer_static (ps ! b)"
      "peer_weights_ok (ps ! b) \<Longrightarrow> peer_weights_ok q"
      using G(5) rr_bump_weights_ok [of "ps ! b"]
      by simp
    have b: "?qs ! b = rr_bump (ps ! b)" using G(1,2) by (simp add: rr_bumped_def)
    have "map conns ps' = map conns ps"
      using map_update_same [of b ?qs conns q] q b G(1) map_rr_bumped [of conns]
      by (simp del: map_map)
    moreover have "map peer_static ps' = map peer_static ps"
      using map_update_same [of b ?qs peer_static q] q b G(1) map_rr_bumped [of peer_static]
      by (simp del: map_map)
    moreover have "\<forall>p \<in> set ps'. peer_weights_ok p" if "\<forall>p \<in> set ps. peer_weights_ok p"
      unfolding q(1) using that G(1) q(4)
      by (intro ball_update) (auto intro!: rr_bumped_weights_ok)
    ultimately show ?thesis
      using g Some G by (simp add: rr_eligible_def)
  qed
qed

lemma rr_choose_ok: "choice_ok (peer g) rrp (rr_choose now g rrp)"
  using get_peer_choice_ok [of "peer g" rrp now] by (auto simp: rr_choose_def split: list.split)

lemma get_rr_peer_law: "get_law (rrp_peers rrp) ups (get_rr_peer now ups pc rrp)"
proof (induction now ups pc rrp rule: get_rr_peer.induct)
  case (1 now pc rrp)
  then show ?case by simp
next
  case (2 now g rest pc rrp)
  obtain r ps rrp' where c: "rr_choose now g rrp = (r, ps, rrp')" by (metis prod_cases3)
  have ok: "choice_ok (peer g) rrp (r, ps, rrp')" using rr_choose_ok [of g rrp now] c by simp
  show ?case
  proof (cases r)
    case (Some k)
    then show ?thesis using get_law_chosen ok c by (simp del: get_law.simps choice_ok.simps)
  next
    case None
    show ?thesis
    proof (cases rest)
      case Nil
      then show ?thesis using ok c None get_law_busy [where rest = "[]"]
        by (simp del: get_law.simps choice_ok.simps)
    next
      case (Cons b bs)
      let ?rrp = "rrp'\<lparr>rrp_peers := Suc (rrp_peers rrp'),
          tried := tried_clear (tried_words (number b)) (tried rrp')\<rparr>"
      obtain rc rest' pc' rrp'' where
        n: "get_rr_peer now rest (pc\<lparr>pc_cached := False, pc_connection := False\<rparr>) ?rrp = (rc, rest', pc', rrp'')"
        by (metis prod_cases4)
      have "get_law (Suc (rrp_peers rrp)) rest (rc, rest', pc', rrp'')"
        using "2.IH" [OF refl c [symmetric] None refl refl Cons] n ok by simp
      note law = get_law_failed [OF ok [unfolded None] this]
      have "get_rr_peer now (g # rest) pc rrp =
          (if rc \<noteq> NGX_BUSY then (rc, g\<lparr>peer := ps\<rparr> # rest', pc', rrp'')
           else (NGX_BUSY, g\<lparr>peer := ps\<rparr> # rest', pc'\<lparr>pc_name := peers_name g\<rparr>, rrp''))"
        unfolding Cons get_rr_peer.simps(2) [of now g "b # bs"]
        by (simp add: c None n [unfolded Cons] Let_def del: get_rr_peer.simps)
      then show ?thesis
        using law by (cases "rc = NGX_BUSY") (auto simp del: get_law.simps get_rr_peer.simps)
    qed
  qed
qed

lemma round_robin_law: "get_law 0 ups (ngx_http_upstream_get_round_robin_peer now ups pc rrp)"
proof -
  obtain rc ups' pc' rrp' where
    g: "get_rr_peer now (drop (rrp_peers rrp) ups) pc rrp = (rc, ups', pc', rrp')"
    by (metis prod_cases4)
  then show ?thesis
    using get_law_splice get_rr_peer_law [of rrp "drop (rrp_peers rrp) ups" now pc]
    by (simp add: ngx_http_upstream_get_round_robin_peer_def del: get_law.simps)
qed

interpretation rr: peer_balancer ngx_http_upstream_get_round_robin_peer
  by (rule peer_balancer_of_law) (rule round_robin_law)

section \<open>Refinement of the smooth weighted selection\<close>

text \<open>
  A request that arrives at time \<open>now\<close>: its balancer data are initialised and the get handler is
  called. \<open>rr_requests\<close> is a sequence of such requests; it returns the code and the chosen peer of
  each.
\<close>

definition rr_request ::
    "int \<Rightarrow> ngx_peer_connection_t \<Rightarrow> ngx_http_upstream_srv_conf_t
       \<Rightarrow> ngx_rc \<times> nat option \<times> ngx_http_upstream_srv_conf_t" where
  "rr_request now pc us =
     (case ngx_http_upstream_init_round_robin_peer (\<lambda>_. True) False us pc of
        (rc, pc', None) \<Rightarrow> (rc, None, us)
      | (rc, pc', Some rrp) \<Rightarrow>
          if rc \<noteq> NGX_OK then (rc, None, us)
          else
            (case ngx_http_upstream_get_round_robin_peer now (us_peer_data us) pc' rrp of
               (rc', ups, pc'', rrp') \<Rightarrow> (rc', current rrp', us\<lparr>us_peer_data := ups\<rparr>)))"

fun rr_requests ::
    "int list \<Rightarrow> ngx_peer_connection_t \<Rightarrow> ngx_http_upstream_srv_conf_t
       \<Rightarrow> (ngx_rc \<times> nat option) list \<times> ngx_http_upstream_srv_conf_t" where
  "rr_requests [] pc us = ([], us)"
| "rr_requests (now # nows) pc us =
     (case rr_request now pc us of
        (rc, k, us') \<Rightarrow>
          (case rr_requests nows pc us' of (rs, us'') \<Rightarrow> ((rc, k) # rs, us'')))"

definition peer_healthy :: "ngx_http_upstream_rr_peer_t \<Rightarrow> bool" where
  "peer_healthy p \<longleftrightarrow>
     \<not> down p \<and> max_conns p = 0 \<and> fails p = 0 \<and> 0 \<le> max_fails p \<and>
     effective_weight p = weight p \<and> 0 < weight p"

definition rr_group_healthy :: "ngx_http_upstream_rr_peers_t \<Rightarrow> bool" where
  "rr_group_healthy g \<longleftrightarrow>
     \<not> single g \<and> peer g \<noteq> [] \<and> number g = length (peer g) \<and> (\<forall>p \<in> set (peer g). peer_healthy p) \<and>
     int (length (peer g)) * sum_list (map weight (peer g)) \<le> 2 ^ 62"

lemma peer_healthy_eligible:
  "peer_healthy p \<Longrightarrow> \<not> tried_bit t i \<Longrightarrow> rr_eligible now t i p"
  by (auto simp: peer_healthy_def rr_eligible_def peer_failing_def peer_full_def)

lemma peer_healthy_bump:
  "peer_healthy p \<Longrightarrow> rr_bump p = p\<lparr>current_weight := i64 (current_weight p + weight p)\<rparr>"
  by (simp add: peer_healthy_def rr_bump_def)

lemma get_peer_healthy:
  assumes h: "\<forall>p \<in> set ps. peer_healthy p" and ne: "ps \<noteq> []"
    and fresh: "\<forall>i < length ps. \<not> tried_bit (tried rrp) i"
    and inv: "swrr_inv (map weight ps) (map current_weight ps)"
    and small: "int (length ps) * sum_list (map weight ps) \<le> 2 ^ 62"
  obtains b ps' rrp' where "ngx_http_upstream_get_peer now ps rrp = (Some b, ps', rrp')"
    and "current rrp' = Some b" "b < length ps"
    and "swrr_step (map weight ps) (map current_weight ps) b (map current_weight ps')"
    and "\<forall>p \<in> set ps'. peer_healthy p" "map weight ps' = map weight ps"
proof -
  have el: "rr_eligible now (tried rrp) j (ps ! j)" if "j < length ps" for j
    using h fresh that by (auto intro!: peer_healthy_eligible)
  obtain r ps' rrp' where g: "ngx_http_upstream_get_peer now ps rrp = (r, ps', rrp')"
    by (cases "ngx_http_upstream_get_peer now ps rrp") auto
  then obtain b where r: "r = Some b"
    using get_peer_none(3) [of now ps rrp ps' rrp' 0] el [of 0] ne by (cases r) auto
  note G = get_peer_some [OF g [unfolded r]]
  let ?w = "map weight ps" and ?c = "map current_weight ps"
  let ?W = "sum_list ?w"
  have W: "rr_total now (tried rrp) ps = ?W"
    using h el by (auto simp: rr_total_def sum_list_sum_nth peer_healthy_def intro!: sum.cong)
  have bnd: "- (2 ^ 63) \<le> ?c ! j + ?w ! j - ?W" "?c ! j + ?w ! j < 2 ^ 63" "0 < ?w ! j" "?w ! j \<le> ?W" if "j < length ps" for j
  proof -
    have pos: "0 < ?w ! i" if "i < length ps" for i
      using h that by (simp add: peer_healthy_def)
    then show "0 < ?w ! j" using that .
    show wW: "?w ! j \<le> ?W"
      using pos that unfolding sum_list_nth_eq by (intro member_le_sum) (auto simp: less_imp_le)
    have lo: "- ?W < ?c ! j" and hi: "?c ! j \<le> (int (length ps) - 1) * ?W"
      using inv that swrr_inv_upper [OF inv, of j] by (auto simp: swrr_inv_def)
    have "1 * ?W \<le> int (length ps) * ?W"
      using ne pos [OF that] wW by (intro mult_right_mono) (auto simp: Suc_le_eq)
    then have "?W \<le> 2 ^ 62" using small by simp
    then show "- (2 ^ 63) \<le> ?c ! j + ?w ! j - ?W" using lo pos [OF that] by simp
    have "?c ! j + ?w ! j \<le> int (length ps) * ?W"
      using hi wW by (simp add: algebra_simps)
    then show "?c ! j + ?w ! j < 2 ^ 63" using small by simp
  qed
  have b: "b < length ps" and len: "length ps' = length ps"
    using G(1,5) by simp_all
  have hj: "peer_healthy (ps ! j)" if "j < length ps" for j using h that by simp
  have nth: "ps' ! j = (if j = b
      then peer_touch now ((ps ! j)\<lparr>current_weight := ?c ! j + ?w ! j - ?W\<rparr>)
      else (ps ! j)\<lparr>current_weight := ?c ! j + ?w ! j\<rparr>)" if "j < length ps" for j
  proof -
    have bm: "rr_bump (ps ! j) = (ps ! j)\<lparr>current_weight := ?c ! j + ?w ! j\<rparr>"
      using bnd [OF that] that by (simp add: peer_healthy_bump [OF hj [OF that]] i64_id)
    moreover have "i64 (?c ! j + ?w ! j - ?W) = ?c ! j + ?w ! j - ?W"
      using bnd [OF that] by (simp add: i64_id)
    ultimately show ?thesis
      using that el [OF that] b W by (auto simp: G(5) nth_list_update_if rr_bumped_def)
  qed
  have mx: "?c ! j + ?w ! j \<le> ?c ! b + ?w ! b" if "j < length ps" for j
    using G(3) [OF that el [OF that]] bnd [OF that] bnd [OF b] that b
    by (simp add: peer_healthy_bump hj i64_id)
  have "swrr_step ?w ?c b (map current_weight ps')"
    using b len mx nth by (auto simp: swrr_step_def)
  moreover have "\<forall>p \<in> set ps'. peer_healthy p"
    using hj by (auto simp: all_set_conv_all_nth len nth peer_healthy_def)
  moreover have "map weight ps' = ?w"
    by (rule nth_equalityI) (auto simp: len nth)
  ultimately show thesis
    using that [of b ps' rrp'] g r G(4) b by simp
qed

lemma fresh_rrp:
  assumes "us_peer_data us = g # rest"
    and "ngx_http_upstream_init_round_robin_peer (\<lambda>_. True) False us pc = (rc, pc', r)"
  obtains rrp where "rc = NGX_OK" "r = Some rrp" "rrp_peers rrp = 0"
    "\<And>i. i < number g \<Longrightarrow> \<not> tried_bit (tried rrp) i"
proof -
  define n where "n = (case rest of [] \<Rightarrow> number g | b # _ \<Rightarrow> max (number g) (number b))"
  have n: "number g \<le> n" by (simp add: n_def split: list.split)
  have "rc = NGX_OK" and r: "r = Some \<lparr>config = 0, rrp_peers = 0, current = None,
      tried = (if n \<le> 64 then [0] else replicate (tried_words n) 0)\<rparr>"
    using assms
    by (auto simp: ngx_http_upstream_init_round_robin_peer_def n_def Let_def max_def
        split: list.splits if_splits)
  moreover have "\<not> tried_bit (if n \<le> 64 then [0] else replicate (tried_words n) 0) i" if "i < number g" for i
    using that n by (auto simp: tried_bit_one tried_bit_fresh)
  ultimately show ?thesis using that by simp
qed

lemma rr_request_healthy:
  assumes us: "us_peer_data us = g # rest" and h: "rr_group_healthy g"
    and inv: "swrr_inv (map weight (peer g)) (map current_weight (peer g))"
  obtains b us' g' where "rr_request now pc us = (NGX_OK, Some b, us')"
    "us_peer_data us' = g' # rest" "rr_group_healthy g'" "map weight (peer g') = map weight (peer g)"
    "swrr_step (map weight (peer g)) (map current_weight (peer g)) b (map current_weight (peer g'))"
proof -
  obtain rc pc' r where i: "ngx_http_upstream_init_round_robin_peer (\<lambda>_. True) False us pc = (rc, pc', r)"
    by (metis prod_cases3)
  obtain rrp where r: "rc = NGX_OK" "r = Some rrp" "rrp_peers rrp = 0"
    and fresh: "\<And>i. i < number g \<Longrightarrow> \<not> tried_bit (tried rrp) i"
    using fresh_rrp [OF us i] by metis
  have "\<forall>p \<in> set (peer g). peer_healthy p" "peer g \<noteq> []" "\<forall>i < length (peer g). \<not> tried_bit (tried rrp) i"
    "int (length (peer g)) * sum_list (map weight (peer g)) \<le> 2 ^ 62"
    using h fresh by (auto simp: rr_group_healthy_def)
  from get_peer_healthy [OF this(1-3) inv this(4), of now]
  obtain b ps' rrp' where G: "ngx_http_upstream_get_peer now (peer g) rrp = (Some b, ps', rrp')"
    "current rrp' = Some b" "b < length (peer g)"
    "swrr_step (map weight (peer g)) (map current_weight (peer g)) b (map current_weight ps')"
    "\<forall>p \<in> set ps'. peer_healthy p" "map weight ps' = map weight (peer g)" by metis
  have len: "length ps' = length (peer g)" using G(6) map_eq_imp_length_eq by blast
  let ?g = "g\<lparr>peer := ps'[b := peer_acquire (ps' ! b)]\<rparr>"
  have c: "map current_weight (ps'[b := peer_acquire (ps' ! b)]) = map current_weight ps'"
    "map weight (ps'[b := peer_acquire (ps' ! b)]) = map weight ps'"
    by (simp_all add: map_update peer_acquire_def) (metis list_update_id map_update)+
  have "peer_healthy (peer_acquire (ps' ! b))"
    using G(3,5) len by (simp add: peer_healthy_def peer_acquire_def)
  then have "\<forall>p \<in> set (peer ?g). peer_healthy p"
    using G(5) set_update_subset_insert [of ps' b] by fastforce
  then have "rr_group_healthy ?g"
    using h len G(6) c by (auto simp: rr_group_healthy_def)
  moreover have "rr_request now pc us = (NGX_OK, Some b, us\<lparr>us_peer_data := ?g # rest\<rparr>)"
    using i r us h G(1,2)
    by (simp add: rr_request_def ngx_http_upstream_get_round_robin_peer_def rr_choose_def rr_group_healthy_def)
  ultimately show thesis
    using that [of b _ ?g] G(4,6) c by simp
qed

lemma rr_requests_length: "rr_requests nows pc us = (rs, us') \<Longrightarrow> length rs = length nows"
  by (induction nows arbitrary: us rs us') (auto split: prod.splits)

lemma rr_requests_refine:
  assumes "us_peer_data us = g # rest" and "rr_group_healthy g"
    and "swrr_inv (map weight (peer g)) (map current_weight (peer g))"
    and "rr_requests nows pc us = (rs, us')"
  shows "\<exists>bs g'. rs = map (\<lambda>b. (NGX_OK, Some b)) bs \<and> us_peer_data us' = g' # rest \<and>
     map weight (peer g') = map weight (peer g) \<and>
     swrr_run (map weight (peer g)) (map current_weight (peer g)) bs (map current_weight (peer g'))"
  using assms
proof (induction nows arbitrary: us g rs us')
  case Nil
  then show ?case by (auto intro!: exI [of _ "[]"] swrr_run.stop)
next
  case (Cons now nows)
  obtain b us1 g1 where q: "rr_request now pc us = (NGX_OK, Some b, us1)"
    "us_peer_data us1 = g1 # rest" "rr_group_healthy g1" "map weight (peer g1) = map weight (peer g)"
    "swrr_step (map weight (peer g)) (map current_weight (peer g)) b (map current_weight (peer g1))"
    using rr_request_healthy [OF Cons.prems(1-3)] by metis
  obtain rs1 where r: "rr_requests nows pc us1 = (rs1, us')" "rs = (NGX_OK, Some b) # rs1"
    using Cons.prems(4) q(1) by (auto split: prod.splits)
  have "\<forall>x \<in> set (map weight (peer g)). 0 < x"
    using Cons.prems(2) by (auto simp: rr_group_healthy_def peer_healthy_def)
  then have "swrr_inv (map weight (peer g1)) (map current_weight (peer g1))"
    using swrr_step_inv [OF q(5) Cons.prems(3)] q(4) by simp
  from Cons.IH [OF q(2,3) this r(1)] obtain bs g' where
    "rs1 = map (\<lambda>b. (NGX_OK, Some b)) bs" "us_peer_data us' = g' # rest"
    "map weight (peer g') = map weight (peer g1)"
    "swrr_run (map weight (peer g1)) (map current_weight (peer g1)) bs (map current_weight (peer g'))"
    by auto
  then show ?case using r(2) q(4,5)
    by (intro exI [of _ "b # bs"] exI [of _ g']) (auto intro: swrr_run.pick)
qed

section \<open>From the configuration to a healthy group\<close>

definition server_ok :: "ngx_http_upstream_server_t \<Rightarrow> bool" where
  "server_ok s \<longleftrightarrow> \<not> server_down s \<and> server_max_conns s = 0 \<and> 0 \<le> server_max_fails s \<and>
     0 < server_weight s \<and> server_weight s < 2 ^ 62"

lemma rr_fill_Cons:
  "rr_fill b (s # ss) =
     (if server_backup s = b then map (rr_peer_of_server s) (server_addrs s) else []) @ rr_fill b ss"
  by (simp add: rr_fill_def)

lemma fst_rr_count: "fst (rr_count b ss n w t) = n + length (rr_fill b ss)"
  by (induction ss arbitrary: n w t) (auto simp: rr_fill_Cons Let_def rr_fill_def)

lemma rr_fill_peers:
  "\<forall>s \<in> set ss. server_ok s \<Longrightarrow> p \<in> set (rr_fill b ss) \<Longrightarrow> peer_healthy p \<and> current_weight p = 0"
  by (auto simp: rr_fill_def rr_peer_of_server_def server_ok_def peer_healthy_def i64_id)

lemma init_servers_group:
  assumes "rr_init_servers alloc us ss = (NGX_OK, us1)"
  obtains g rest where "us_peer_data us1 = g # rest" "peer g = rr_fill False ss"
    "number g = length (rr_fill False ss)" "single g \<Longrightarrow> length (rr_fill False ss) = 1"
proof -
  let ?nwt = "rr_count False ss 0 0 0"
  let ?g = "rr_group (us_host us) (fst ?nwt = 1) ?nwt (rr_fill False ss)"
  have f: "peer ?g = rr_fill False ss" "number ?g = length (rr_fill False ss)"
    "single ?g = (length (rr_fill False ss) = 1)"
    using fst_rr_count [of False ss 0 0 0] by (cases ?nwt; simp add: rr_group_def)+
  have "us_peer_data us1 = [?g] \<or> (\<exists>bk. us_peer_data us1 = [?g\<lparr>single := False\<rparr>, bk])"
    using assms by (auto simp: rr_init_servers_def Let_def split: if_splits)
  then show thesis
  proof
    assume "us_peer_data us1 = [?g]"
    then show thesis using that [of ?g "[]"] f by simp
  next
    assume "\<exists>bk. us_peer_data us1 = [?g\<lparr>single := False\<rparr>, bk]"
    then obtain bk where "us_peer_data us1 = [?g\<lparr>single := False\<rparr>, bk]" ..
    then show thesis using that [of "?g\<lparr>single := False\<rparr>" "[bk]"] f by simp
  qed
qed

lemma count_list_map_ok: "count_list (map (\<lambda>b. (NGX_OK, Some b)) bs) (NGX_OK, Some k) = count_list bs k"
  by (induction bs) auto

text \<open>
  C1: for an upstream of at least two peers whose servers are all up and unlimited with weights from 1,
  the round-robin balancer is exactly fair: of \<open>n\<close> times the total weight consecutive new requests, at
  whatever times they arrive, every request gets a peer and every peer gets exactly \<open>n\<close> times its
  configured weight of them, and the current weights are then all zero again.
\<close>

theorem round_robin_exact_shares:
  assumes "us_servers us = Some ss" and "\<forall>s \<in> set ss. server_ok s"
    and "ngx_http_upstream_init_round_robin alloc resolve us = (NGX_OK, us1)"
    and "ps = rr_fill False ss" and "2 \<le> length ps"
    and "int (length ps) * sum_list (map weight ps) \<le> 2 ^ 62"
    and "int (length nows) = n * sum_list (map weight ps)"
    and "rr_requests nows pc us1 = (rs, us2)"
  shows "(\<forall>r \<in> set rs. fst r = NGX_OK) \<and>
    (\<forall>k < length ps. int (count_list rs (NGX_OK, Some k)) = n * weight (ps ! k)) \<and>
    map current_weight (peer (hd (us_peer_data us2))) = replicate (length ps) 0"
proof -
  have init: "rr_init_servers alloc us ss = (NGX_OK, us1)"
    using assms(1,3) by (simp add: ngx_http_upstream_init_round_robin_def)
  obtain g rest where g: "us_peer_data us1 = g # rest" "peer g = ps" "number g = length ps"
    "single g \<Longrightarrow> length ps = 1"
    using init_servers_group [OF init] assms(4) by metis
  have hp: "peer_healthy p \<and> current_weight p = 0" if "p \<in> set ps" for p
    using rr_fill_peers [OF assms(2)] that assms(4) by blast
  then have pos: "\<forall>x \<in> set (map weight ps). 0 < x" by (auto simp: peer_healthy_def)
  have zero: "map current_weight ps = replicate (length ps) 0"
    by (rule nth_equalityI) (use hp in auto)
  have "0 < sum_list (map weight ps)"
    using pos assms(5) by (intro sum_list_pos) auto
  then have inv: "swrr_inv (map weight ps) (map current_weight ps)"
    by (simp add: zero swrr_inv_def sum_list_replicate)
  have "rr_group_healthy g"
    using g hp assms(5,6) by (auto simp: rr_group_healthy_def)
  from rr_requests_refine [OF g(1) this, of nows pc rs us2] g(2) inv assms(8)
  obtain bs g' where bs: "rs = map (\<lambda>b. (NGX_OK, Some b)) bs" "us_peer_data us2 = g' # rest"
    "map weight (peer g') = map weight ps"
    "swrr_run (map weight ps) (replicate (length ps) 0) bs (map current_weight (peer g'))"
    using zero by auto
  have len: "int (length bs) = n * sum_list (map weight ps)"
    using rr_requests_length [OF assms(8)] assms(7) bs(1) by simp
  have lg: "length (peer g') = length ps" using bs(3) map_eq_imp_length_eq by blast
  note fair = swrr_run_fair [of "map weight ps", simplified, OF bs(4) _ len]
  have "map current_weight (peer g') = replicate (length ps) 0"
    by (rule nth_equalityI) (use fair(2) pos lg in auto)
  moreover have "int (count_list bs k) = n * weight (ps ! k)" if "k < length ps" for k
    using fair(1) pos that by simp
  ultimately show ?thesis
    using bs(1,2) by (auto simp: count_list_map_ok)
qed

definition ex_server :: "int \<Rightarrow> bool \<Rightarrow> ngx_http_upstream_server_t" where
  "ex_server w b =
     \<lparr>server_name = ''s'', server_addrs = [\<lparr>addr_sockaddr = [10, 0, 0, 1], addr_name = ''a''\<rparr>],
      server_weight = w, server_max_conns = 0, server_max_fails = 1, server_fail_timeout = 10,
      server_down = False, server_backup = b\<rparr>"

definition ex_us :: ngx_http_upstream_srv_conf_t where
  "ex_us = \<lparr>us_host = ''u'', us_port = 80,
     us_servers = Some [ex_server 2 False, ex_server 1 False, ex_server 1 True], us_peer_data = []\<rparr>"

definition ex_pc :: ngx_peer_connection_t where
  "ex_pc = \<lparr>pc_sockaddr = None, pc_name = [], pc_tries = 0, pc_cached = False, pc_connection = False\<rparr>"

theorem round_robin_exact_shares_witness:
  "let us1 = snd (ngx_http_upstream_init_round_robin (\<lambda>_. True) (\<lambda>_ _. None) ex_us);
       rs = fst (rr_requests [5, 6, 70, 70, 90, 91] ex_pc us1)
   in count_list rs (NGX_OK, Some 0) = 4 \<and> count_list rs (NGX_OK, Some 1) = 2"
proof -
  let ?ss = "[ex_server 2 False, ex_server 1 False, ex_server 1 True]"
  let ?i = "ngx_http_upstream_init_round_robin (\<lambda>_. True) (\<lambda>_ _. None) ex_us"
  have "fst ?i = NGX_OK" by code_simp
  then have init: "?i = (NGX_OK, snd ?i)" by (metis prod.collapse)
  have w: "map weight (rr_fill False ?ss) = [2, 1]" by code_simp
  have len: "length (rr_fill False ?ss) = 2" by code_simp
  have s: "us_servers ex_us = Some ?ss" by (simp add: ex_us_def)
  have ok: "\<forall>s \<in> set ?ss. server_ok s" by (simp add: ex_server_def server_ok_def)
  have r: "rr_requests [5, 6, 70, 70, 90, 91] ex_pc (snd ?i) =
      (fst (rr_requests [5, 6, 70, 70, 90, 91] ex_pc (snd ?i)), snd (rr_requests [5, 6, 70, 70, 90, 91] ex_pc (snd ?i)))"
    by simp
  have "rr_fill False ?ss ! 0 \<in> set (rr_fill False ?ss)" by (simp add: len)
  have nth: "weight (rr_fill False ?ss ! 0) = 2" "weight (rr_fill False ?ss ! 1) = 1" by code_simp+
  have "\<forall>k < length (rr_fill False ?ss).
      int (count_list (fst (rr_requests [5, 6, 70, 70, 90, 91] ex_pc (snd ?i))) (NGX_OK, Some k)) =
        2 * weight (rr_fill False ?ss ! k)"
    using round_robin_exact_shares [OF s ok init refl _ _ _ r, of 2] by (simp add: w len)
  then show ?thesis using nth len by (auto simp: Let_def numeral_2_eq_2)
qed

section \<open>Properties of a single selection\<close>

lemma rr_bump_weight_mod: "u64 (current_weight (rr_bump p)) = u64 (current_weight p + effective_weight p)"
  by (simp add: rr_bump_def Let_def)

lemma get_peer_sum:
  assumes "ngx_http_upstream_get_peer now ps rrp = (Some b, ps', rrp')"
  shows "u64 (sum_list (map current_weight ps')) = u64 (sum_list (map current_weight ps))"
proof -
  note G = get_peer_some [OF assms]
  let ?n = "length ps" and ?t = "tried rrp"
  let ?e = "\<lambda>j. if rr_eligible now ?t j (ps ! j) then effective_weight (ps ! j) else 0"
  have len: "length ps' = ?n" using G(5) by simp
  have nth: "u64 (current_weight (ps' ! j)) =
      u64 (current_weight (ps ! j) + ?e j - (if j = b then rr_total now ?t ps else 0))"
    if "j < ?n" for j
  proof (cases "j = b")
    case True
    then have "current_weight (ps' ! j) = i64 (current_weight (rr_bump (ps ! b)) - rr_total now ?t ps)"
      using G(1,5) by simp
    then show ?thesis using G(2) True u64_diff_cong [OF rr_bump_weight_mod] by simp
  next
    case False
    then have "ps' ! j = rr_bumped now ?t 0 ps j" using that G(1,5) by simp
    then show ?thesis using False by (simp add: rr_bumped_def rr_bump_weight_mod)
  qed
  have "u64 (sum_list (map current_weight ps')) =
      u64 (\<Sum>j = 0..<?n. current_weight (ps ! j) + ?e j - (if j = b then rr_total now ?t ps else 0))"
    unfolding sum_list_sum_nth length_map len by (rule u64_sum_cong) (use nth len in auto)
  also have "(\<Sum>j = 0..<?n. current_weight (ps ! j) + ?e j - (if j = b then rr_total now ?t ps else 0))
      = sum_list (map current_weight ps)"
    using G(1) by (simp add: sum.distrib sum_subtractf sum_list_sum_nth rr_total_def)
  finally show ?thesis .
qed

text \<open>
  C19: the selection returns a peer exactly when some peer is eligible (not tried by this request,
  not marked down, not failing, below its connection limit); the peer it returns is eligible and
  has the largest current weight after every eligible peer's weight was added, and of several such
  peers it is the first in the list; it is marked as tried; and the sum of the current weights is what it was, modulo the width of the counters.
  When it returns none, nothing has changed.
\<close>

theorem get_peer_correct:
  "case ngx_http_upstream_get_peer now ps rrp of
     (None, ps', rrp') \<Rightarrow>
       ps' = ps \<and> rrp' = rrp \<and> (\<forall>j < length ps. \<not> rr_eligible now (tried rrp) j (ps ! j))
   | (Some b, ps', rrp') \<Rightarrow>
       b < length ps \<and> rr_eligible now (tried rrp) b (ps ! b) \<and> current rrp' = Some b \<and>
       tried rrp' = tried_set (tried rrp) b \<and>
       (\<forall>j < length ps. rr_eligible now (tried rrp) j (ps ! j) \<longrightarrow>
          i64 (current_weight (ps ! j) + effective_weight (ps ! j)) \<le>
          i64 (current_weight (ps ! b) + effective_weight (ps ! b))) \<and>
       (\<forall>j < b. rr_eligible now (tried rrp) j (ps ! j) \<longrightarrow>
          i64 (current_weight (ps ! j) + effective_weight (ps ! j)) <
          i64 (current_weight (ps ! b) + effective_weight (ps ! b))) \<and>
       u64 (sum_list (map current_weight ps')) = u64 (sum_list (map current_weight ps))"
proof -
  obtain r ps' rrp' where g: "ngx_http_upstream_get_peer now ps rrp = (r, ps', rrp')"
    by (metis prod_cases3)
  have bump: "current_weight (rr_bump p) = i64 (current_weight p + effective_weight p)" for p
    by (simp add: rr_bump_def Let_def)
  show ?thesis
  proof (cases r)
    case None
    then show ?thesis using get_peer_none [OF g [unfolded None]] g by simp
  next
    case (Some b)
    then show ?thesis
      using get_peer_some [OF g [unfolded Some]] get_peer_first [OF g [unfolded Some]] get_peer_sum [OF g [unfolded Some]] g
      by (simp add: bump)
  qed
qed

text \<open>
  In every state reachable by any interleaving of requests that take a peer by round robin and
  give it back, from a configured upstream without connections, the connection counter of every
  peer is the number of requests that hold it, no peer has more connections than its
  \<^verbatim>\<open>max_conns\<close> limit, and every effective weight is between 0 and the configured weight.
\<close>

theorem round_robin_max_conns:
  assumes "balancer_reachable ngx_http_upstream_get_round_robin_peer ups s" and "chain_idle ups"
    and "in_chain (bs_chain s) g k"
  shows "conns (peer_at (bs_chain s) g k) = int (holders (bs_active s) g k) \<and>
    (max_conns (peer_at (bs_chain s) g k) \<noteq> 0 \<longrightarrow>
       conns (peer_at (bs_chain s) g k) \<le> max_conns (peer_at (bs_chain s) g k)) \<and>
    0 \<le> effective_weight (peer_at (bs_chain s) g k) \<and>
    effective_weight (peer_at (bs_chain s) g k) \<le> weight (peer_at (bs_chain s) g k)"
  using rr.reachable_inv [OF assms(1,2)] balancer_invD [of s g k] balancer_inv_weights [of s g k] assms(3)
  by (auto simp: peer_weights_ok_def)

definition ex_peer :: "int \<Rightarrow> int \<Rightarrow> int \<Rightarrow> ngx_http_upstream_rr_peer_t" where
  "ex_peer w c m =
     \<lparr>peer_sockaddr = [], peer_name = [], peer_server = [], current_weight = 0,
      effective_weight = w, weight = w, conns = c, max_conns = m, fails = 0, accessed = 0,
      checked = 0, max_fails = 1, fail_timeout = 10, down = False\<rparr>"

definition ex_group :: "ngx_http_upstream_rr_peer_t list \<Rightarrow> ngx_http_upstream_rr_peers_t" where
  "ex_group ps = \<lparr>number = length ps, total_weight = 0, tries = 0, single = False, weighted = False,
     peers_name = [], peer = ps\<rparr>"

definition ex_rrp :: ngx_http_upstream_rr_peer_data_t where
  "ex_rrp = \<lparr>config = 0, rrp_peers = 0, current = None, tried = [0]\<rparr>"

theorem round_robin_max_conns_witness:
  "\<exists>s. balancer_reachable ngx_http_upstream_get_round_robin_peer [ex_group [ex_peer 3 0 1, ex_peer 1 0 0]] s \<and>
     bs_active s \<noteq> [] \<and> conns (peer_at (bs_chain s) 0 0) = 1 \<and> conns (peer_at (bs_chain s) 0 0) \<le> 1"
proof -
  let ?ups = "[ex_group [ex_peer 3 0 1, ex_peer 1 0 0]]"
  let ?r = "ngx_http_upstream_get_round_robin_peer 5 ?ups ex_pc ex_rrp"
  have "fst ?r = NGX_OK" by code_simp
  then obtain ups' pc' rrp' where r: "?r = (NGX_OK, ups', pc', rrp')" by (metis prod.collapse fst_conv)
  let ?s = "\<lparr>bs_chain = ups', bs_active = [rrp']\<rparr>"
  have re: "balancer_reachable ngx_http_upstream_get_round_robin_peer ?ups ?s"
    by (rule balancer_reachable.step [OF balancer_reachable.start])
      (use balancer_step.get_peer [of ngx_http_upstream_get_round_robin_peer 5
           "\<lparr>bs_chain = ?ups, bs_active = []\<rparr>"] r in simp)
  have idle: "chain_idle ?ups"
    by (simp add: chain_idle_def chain_weights_ok_def peer_weights_ok_def ex_group_def ex_peer_def)
  have "fst (snd ?r) = ups'" "snd (snd (snd ?r)) = rrp'" using r by simp_all
  moreover have "in_chain (fst (snd ?r)) 0 0" by code_simp
  moreover have "holders [snd (snd (snd ?r))] 0 0 = 1" by code_simp
  moreover have "max_conns (peer_at (fst (snd ?r)) 0 0) = 1" by code_simp
  ultimately have "in_chain ups' 0 0" "holders [rrp'] 0 0 = 1" "max_conns (peer_at ups' 0 0) = 1"
    by simp_all
  then show ?thesis using re round_robin_max_conns [OF re idle, of 0 0] by (intro exI [of _ ?s]) simp
qed

theorem get_peer_correct_witness:
  "fst (ngx_http_upstream_get_peer 5 [ex_peer 3 0 0, ex_peer 1 0 0] ex_rrp) = Some 0 \<and>
   rr_eligible 5 (tried ex_rrp) 1 (ex_peer 1 0 0) \<and>
   i64 (current_weight (ex_peer 1 0 0) + effective_weight (ex_peer 1 0 0)) \<le>
     i64 (current_weight (ex_peer 3 0 0) + effective_weight (ex_peer 3 0 0))"
proof -
  let ?r = "ngx_http_upstream_get_peer 5 [ex_peer 3 0 0, ex_peer 1 0 0] ex_rrp"
  have f: "fst ?r = Some 0" by code_simp
  then obtain ps' rrp' where r: "?r = (Some 0, ps', rrp')" by (metis prod.collapse fst_conv)
  have e: "rr_eligible 5 (tried ex_rrp) 1 (ex_peer 1 0 0)" by code_simp
  have "\<forall>j < length [ex_peer 3 0 0, ex_peer 1 0 0].
      rr_eligible 5 (tried ex_rrp) j ([ex_peer 3 0 0, ex_peer 1 0 0] ! j) \<longrightarrow>
      i64 (current_weight ([ex_peer 3 0 0, ex_peer 1 0 0] ! j) + effective_weight ([ex_peer 3 0 0, ex_peer 1 0 0] ! j)) \<le>
      i64 (current_weight (ex_peer 3 0 0) + effective_weight (ex_peer 3 0 0))"
    using get_peer_correct [where now = 5 and ps = "[ex_peer 3 0 0, ex_peer 1 0 0]" and rrp = ex_rrp] unfolding r by simp
  from this [rule_format, of 1] show ?thesis using e f by simp
qed

end
