(* ===== verification/Ngx_Least_Conn.thy ===== *)
theory Ngx_Least_Conn
  imports Ngx_Upstream_RR
begin

text \<open>
  The least-connections balancer of
  src/nginx/src/http/modules/ngx_http_upstream_least_conn_module.c, with the comparison this
  repository changed: a peer is better when \<^verbatim>\<open>(conns + 1) / weight\<close> is smaller. Shown here: the
  scan finds a peer that minimises that ratio; with equal weights the handler always picks a peer
  with the fewest connections; and the balancer contract. The test for a tie still compares
  \<^verbatim>\<open>conns / weight\<close>; \<open>least_conn_order_dependent\<close> shows what that does.
\<close>

section \<open>Selecting a peer\<close>

text \<open>The comparisons of the loops, in the unsigned 64-bit arithmetic of the C expressions.\<close>

definition lc_less :: "ngx_http_upstream_rr_peer_t \<Rightarrow> ngx_http_upstream_rr_peer_t \<Rightarrow> bool" where
  "lc_less p best \<longleftrightarrow>
     u64 (u64 (conns p + 1) * weight best) < u64 (u64 (conns best + 1) * weight p)"

definition lc_tie :: "ngx_http_upstream_rr_peer_t \<Rightarrow> ngx_http_upstream_rr_peer_t \<Rightarrow> bool" where
  "lc_tie p best \<longleftrightarrow> u64 (conns p * weight best) = u64 (conns best * weight p)"

function lc_scan ::
    "int \<Rightarrow> 64 word list \<Rightarrow> nat \<Rightarrow> ngx_http_upstream_rr_peer_t list \<Rightarrow> nat option \<Rightarrow> bool
       \<Rightarrow> nat option \<times> bool" where
  "lc_scan now t i ps best many =
     (if i < length ps then
        (let p = ps ! i
         in if \<not> rr_eligible now t i p then lc_scan now t (Suc i) ps best many
            else
              case best of
                None \<Rightarrow> lc_scan now t (Suc i) ps (Some i) False
              | Some b \<Rightarrow>
                  if lc_less p (ps ! b) then lc_scan now t (Suc i) ps (Some i) False
                  else if lc_tie p (ps ! b) then lc_scan now t (Suc i) ps best True
                  else lc_scan now t (Suc i) ps best many)
      else (best, many))"
  by pat_completeness auto
termination
  by (relation "measure (\<lambda>(now, t, i, ps, best, many). length ps - i)") auto

declare lc_scan.simps [simp del]

text \<open>The second loop, over the peers that tie with the best one; it starts at the best peer.\<close>

function lc_loop ::
    "int \<Rightarrow> 64 word list \<Rightarrow> nat \<Rightarrow> ngx_http_upstream_rr_peer_t list \<Rightarrow> nat \<Rightarrow> int
       \<Rightarrow> ngx_http_upstream_rr_peer_t list \<times> nat \<times> int" where
  "lc_loop now t i ps best tot =
     (if i < length ps then
        (let p = ps ! i
         in if tried_bit t i then lc_loop now t (Suc i) ps best tot
            else if down p then lc_loop now t (Suc i) ps best tot
            else if \<not> lc_tie p (ps ! best) then lc_loop now t (Suc i) ps best tot
            else if peer_failing now p then lc_loop now t (Suc i) ps best tot
            else if peer_full p then lc_loop now t (Suc i) ps best tot
            else
              let ps' = ps[i := rr_bump p];
                  tot' = i64 (tot + effective_weight p);
                  best' = (if current_weight (ps' ! i) > current_weight (ps' ! best) then i else best)
              in lc_loop now t (Suc i) ps' best' tot')
      else (ps, best, tot))"
  by pat_completeness auto
termination
  by (relation "measure (\<lambda>(now, t, i, ps, best, tot). length ps - i)") auto

declare lc_loop.simps [simp del]

text \<open>
  The handler from the scan to the update of the bitmap, without \<^verbatim>\<open>best->conns++\<close>; \<open>None\<close> is
  \<^verbatim>\<open>goto failed\<close>.
\<close>

definition lc_choose ::
    "int \<Rightarrow> ngx_http_upstream_rr_peer_t list \<Rightarrow> ngx_http_upstream_rr_peer_data_t
       \<Rightarrow> nat option \<times> ngx_http_upstream_rr_peer_t list \<times> ngx_http_upstream_rr_peer_data_t" where
  "lc_choose now ps rrp =
     (case lc_scan now (tried rrp) 0 ps None False of
        (None, many) \<Rightarrow> (None, ps, rrp)
      | (Some p, many) \<Rightarrow>
          (case (if many then lc_loop now (tried rrp) p ps p 0 else (ps, p, 0)) of
             (ps', b, tot) \<Rightarrow>
               let best = ps' ! b;
                   best1 = best\<lparr>current_weight := i64 (current_weight best - tot)\<rparr>
               in (Some b, ps'[b := peer_touch now best1],
                   rrp\<lparr>current := Some b, tried := tried_set (tried rrp) b\<rparr>)))"

section \<open>The get handler\<close>

fun get_lc_peer ::
    "int \<Rightarrow> rr_chain \<Rightarrow> ngx_peer_connection_t \<Rightarrow> ngx_http_upstream_rr_peer_data_t
       \<Rightarrow> ngx_rc \<times> rr_chain \<times> ngx_peer_connection_t \<times> ngx_http_upstream_rr_peer_data_t" where
  "get_lc_peer now [] pc rrp = (NGX_ERROR, [], pc, rrp)"
| "get_lc_peer now (peers # next) pc rrp =
     (if single peers then get_rr_peer now (peers # next) pc rrp
      else
        let pc0 = pc\<lparr>pc_cached := False, pc_connection := False\<rparr>
        in case lc_choose now (peer peers) rrp of
             (Some k, ps, rrp') \<Rightarrow>
               (NGX_OK, peers\<lparr>peer := ps[k := peer_acquire (ps ! k)]\<rparr> # next,
                pc_use_peer (ps ! k) pc0, rrp')
           | (None, ps, rrp') \<Rightarrow>
               let failed = peers\<lparr>peer := ps\<rparr>
               in case next of
                    [] \<Rightarrow> (NGX_BUSY, [failed], pc0\<lparr>pc_name := peers_name peers\<rparr>, rrp')
                  | b # _ \<Rightarrow>
                      (case get_lc_peer now next pc0
                              (rrp'\<lparr>rrp_peers := Suc (rrp_peers rrp'),
                                    tried := tried_clear (tried_words (number b)) (tried rrp')\<rparr>) of
                         (rc, next', pc', rrp'') \<Rightarrow>
                           if rc \<noteq> NGX_BUSY then (rc, failed # next', pc', rrp'')
                           else (NGX_BUSY, failed # next', pc'\<lparr>pc_name := peers_name peers\<rparr>, rrp'')))"

definition ngx_http_upstream_get_least_conn_peer ::
    "int \<Rightarrow> rr_chain \<Rightarrow> ngx_peer_connection_t \<Rightarrow> ngx_http_upstream_rr_peer_data_t
       \<Rightarrow> ngx_rc \<times> rr_chain \<times> ngx_peer_connection_t \<times> ngx_http_upstream_rr_peer_data_t" where
  "ngx_http_upstream_get_least_conn_peer now ups pc rrp =
     (case get_lc_peer now (drop (rrp_peers rrp) ups) pc rrp of
        (rc, ups', pc', rrp') \<Rightarrow> (rc, take (rrp_peers rrp) ups @ ups', pc', rrp'))"

text \<open>The init handlers add nothing to those of round robin but the get handler they install.\<close>

definition ngx_http_upstream_init_least_conn ::
    "(nat \<Rightarrow> bool) \<Rightarrow> (string \<Rightarrow> nat \<Rightarrow> ngx_addr_t list option) \<Rightarrow> ngx_http_upstream_srv_conf_t
       \<Rightarrow> ngx_rc \<times> ngx_http_upstream_srv_conf_t" where
  "ngx_http_upstream_init_least_conn alloc resolve us =
     (case ngx_http_upstream_init_round_robin alloc resolve us of
        (rc, us') \<Rightarrow> if rc \<noteq> NGX_OK then (NGX_ERROR, us') else (NGX_OK, us'))"

definition ngx_http_upstream_init_least_conn_peer ::
    "(nat \<Rightarrow> bool) \<Rightarrow> bool \<Rightarrow> ngx_http_upstream_srv_conf_t \<Rightarrow> ngx_peer_connection_t
       \<Rightarrow> ngx_rc \<times> ngx_peer_connection_t \<times> ngx_http_upstream_rr_peer_data_t option" where
  "ngx_http_upstream_init_least_conn_peer alloc have us pc =
     (case ngx_http_upstream_init_round_robin_peer alloc have us pc of
        (rc, pc', rrp) \<Rightarrow> if rc \<noteq> NGX_OK then (NGX_ERROR, pc', rrp) else (NGX_OK, pc', rrp))"

section \<open>What the scan finds\<close>

text \<open>
  Peers whose products fit the 64-bit arithmetic. \<open>ratio_le p q\<close> is
  \<^verbatim>\<open>(conns p + 1) / weight p <= (conns q + 1) / weight q\<close> without division.
\<close>

definition peer_fits :: "ngx_http_upstream_rr_peer_t \<Rightarrow> bool" where
  "peer_fits p \<longleftrightarrow> 0 \<le> conns p \<and> conns p < 2 ^ 31 \<and> 0 < weight p \<and> weight p < 2 ^ 31"

definition ratio_le :: "ngx_http_upstream_rr_peer_t \<Rightarrow> ngx_http_upstream_rr_peer_t \<Rightarrow> bool" where
  "ratio_le p q \<longleftrightarrow> (conns p + 1) * weight q \<le> (conns q + 1) * weight p"

lemma prod_fits: "0 \<le> a \<Longrightarrow> a \<le> 2 ^ 31 \<Longrightarrow> 0 \<le> b \<Longrightarrow> b < 2 ^ 31 \<Longrightarrow> u64 (a * b) = a * (b :: int)"
proof -
  assume "0 \<le> a" "a \<le> 2 ^ 31" "0 \<le> b" "b < 2 ^ 31"
  then have "a * b \<le> 2 ^ 31 * 2 ^ 31" by (intro mult_mono) auto
  then show ?thesis using \<open>0 \<le> a\<close> \<open>0 \<le> b\<close> by (intro u64_id) auto
qed

lemma lc_less_iff: "peer_fits p \<Longrightarrow> peer_fits q \<Longrightarrow> lc_less p q \<longleftrightarrow> \<not> ratio_le q p"
  by (simp add: lc_less_def ratio_le_def peer_fits_def u64_id prod_fits not_le)

lemma lc_tie_iff: "peer_fits p \<Longrightarrow> peer_fits q \<Longrightarrow> lc_tie p q \<longleftrightarrow> conns p * weight q = conns q * weight p"
  by (simp add: lc_tie_def peer_fits_def prod_fits)

lemma ratio_le_refl [simp]: "ratio_le p p"
  by (simp add: ratio_le_def)

lemma ratio_le_trans:
  assumes "ratio_le p q" "ratio_le q r" "peer_fits p" "peer_fits q" "peer_fits r"
  shows "ratio_le p r"
proof -
  have w: "0 < weight p" "0 < weight q" "0 < weight r" using assms by (auto simp: peer_fits_def)
  have "((conns p + 1) * weight q) * weight r \<le> ((conns q + 1) * weight p) * weight r"
    using assms(1) w by (intro mult_right_mono) (auto simp: ratio_le_def)
  also have "\<dots> = ((conns q + 1) * weight r) * weight p" by (simp add: ac_simps)
  also have "\<dots> \<le> ((conns r + 1) * weight q) * weight p"
    using assms(2) w by (intro mult_right_mono) (auto simp: ratio_le_def)
  finally have "weight q * ((conns p + 1) * weight r) \<le> weight q * ((conns r + 1) * weight p)"
    by (simp add: ac_simps)
  then show ?thesis using w by (simp add: ratio_le_def)
qed

definition lc_minimal ::
    "int \<Rightarrow> 64 word list \<Rightarrow> nat \<Rightarrow> ngx_http_upstream_rr_peer_t list \<Rightarrow> nat \<Rightarrow> bool" where
  "lc_minimal now t i ps b \<longleftrightarrow> b < i \<and> b < length ps \<and> rr_eligible now t b (ps ! b) \<and>
     (\<forall>j < i. j < length ps \<and> rr_eligible now t j (ps ! j) \<longrightarrow> ratio_le (ps ! b) (ps ! j))"

definition lc_found ::
    "int \<Rightarrow> 64 word list \<Rightarrow> nat \<Rightarrow> ngx_http_upstream_rr_peer_t list \<Rightarrow> nat option \<Rightarrow> bool" where
  "lc_found now t i ps best \<longleftrightarrow>
     (case best of
        None \<Rightarrow> \<forall>j < i. j < length ps \<longrightarrow> \<not> rr_eligible now t j (ps ! j)
      | Some b \<Rightarrow> lc_minimal now t i ps b)"

lemma lc_minimal_new:
  assumes "lc_minimal now t i ps b" and "lc_less (ps ! i) (ps ! b)" and "i < length ps"
    and "rr_eligible now t i (ps ! i)" and fits: "\<forall>p \<in> set ps. peer_fits p"
  shows "lc_minimal now t (Suc i) ps i"
proof -
  have b: "b < length ps" using assms(1) by (simp add: lc_minimal_def)
  have "ratio_le (ps ! i) (ps ! b)"
    using assms(2,3) b fits by (auto simp: lc_less_iff ratio_le_def)
  then have "ratio_le (ps ! i) (ps ! j)" if "ratio_le (ps ! b) (ps ! j)" "j < length ps" for j
    using that assms(3) b fits by (intro ratio_le_trans [of "ps ! i" "ps ! b" "ps ! j"]) auto
  then show ?thesis using assms by (auto simp: lc_minimal_def less_Suc_eq)
qed

lemma lc_minimal_keep:
  "lc_minimal now t i ps b \<Longrightarrow> \<not> lc_less (ps ! i) (ps ! b) \<Longrightarrow> i < length ps \<Longrightarrow>
     \<forall>p \<in> set ps. peer_fits p \<Longrightarrow> lc_minimal now t (Suc i) ps b"
  by (auto simp: lc_minimal_def less_Suc_eq lc_less_iff)

lemma lc_scan_done: "\<not> i < length ps \<Longrightarrow> lc_scan now t i ps best many = (best, many)"
  by (simp add: lc_scan.simps)

lemma lc_scan_skip:
  "i < length ps \<Longrightarrow> \<not> rr_eligible now t i (ps ! i) \<Longrightarrow>
     lc_scan now t i ps best many = lc_scan now t (Suc i) ps best many"
  by (simp add: lc_scan.simps [of now t i])

lemma lc_found_skip:
  "lc_found now t i ps best \<Longrightarrow> \<not> rr_eligible now t i (ps ! i) \<Longrightarrow> lc_found now t (Suc i) ps best"
  by (auto simp: lc_found_def lc_minimal_def less_Suc_eq split: option.splits)

lemma lc_scan_found:
  assumes "\<forall>p \<in> set ps. peer_fits p" and "lc_found now t i ps best" and "i \<le> length ps"
  shows "lc_found now t (length ps) ps (fst (lc_scan now t i ps best many))"
  using assms
proof (induction now t i ps best many rule: lc_scan.induct)
  case (1 now t i ps best many)
  consider (stop) "\<not> i < length ps" | (skip) "i < length ps" "\<not> rr_eligible now t i (ps ! i)"
    | (tk) "i < length ps" "rr_eligible now t i (ps ! i)" by blast
  then show ?case
  proof cases
    case stop
    then show ?thesis using "1.prems" by (simp add: lc_scan_done)
  next
    case skip
    then show ?thesis using 1 lc_found_skip [OF "1.prems"(2) skip(2)] by (simp add: lc_scan_skip)
  next
    case tk
    show ?thesis
    proof (cases best)
      case None
      then show ?thesis using 1 tk
        by (auto simp: lc_scan.simps [of now t i] lc_found_def lc_minimal_def less_Suc_eq)
    next
      case (Some b)
      have "lc_found now t (Suc i) ps (Some i)" if "lc_less (ps ! i) (ps ! b)"
        using lc_minimal_new [of now t i ps b] "1.prems" tk Some that by (simp add: lc_found_def)
      moreover have "lc_found now t (Suc i) ps (Some b)" if "\<not> lc_less (ps ! i) (ps ! b)"
        using lc_minimal_keep [of now t i ps b] "1.prems" tk Some that by (simp add: lc_found_def)
      ultimately show ?thesis using 1 tk Some
        by (auto simp: lc_scan.simps [of now t i] Let_def)
    qed
  qed
qed

section \<open>What the second loop may do\<close>

definition lc_next :: "ngx_http_upstream_rr_peer_t list \<Rightarrow> nat \<Rightarrow> nat \<Rightarrow> nat" where
  "lc_next ps i best = (if current_weight (ps ! i) > current_weight (ps ! best) then i else best)"

lemma lc_loop_done: "\<not> i < length ps \<Longrightarrow> lc_loop now t i ps best tot = (ps, best, tot)"
  by (simp add: lc_loop.simps)

lemma lc_loop_skip:
  "i < length ps \<Longrightarrow> \<not> (rr_eligible now t i (ps ! i) \<and> lc_tie (ps ! i) (ps ! best)) \<Longrightarrow>
     lc_loop now t i ps best tot = lc_loop now t (Suc i) ps best tot"
  by (auto simp: lc_loop.simps [of now t i] rr_eligible_def Let_def)

lemma lc_loop_take:
  "i < length ps \<Longrightarrow> rr_eligible now t i (ps ! i) \<Longrightarrow> lc_tie (ps ! i) (ps ! best) \<Longrightarrow>
     lc_loop now t i ps best tot =
       lc_loop now t (Suc i) (ps[i := rr_bump (ps ! i)])
         (lc_next (ps[i := rr_bump (ps ! i)]) i best) (i64 (tot + effective_weight (ps ! i)))"
  by (simp add: lc_loop.simps [of now t i] rr_eligible_def lc_next_def Let_def)

lemma lc_loop_induct [consumes 1, case_names stop skip tk]:
  assumes "lc_loop now t i ps best tot = r"
    and "\<And>i ps best tot. \<not> i < length ps \<Longrightarrow> P i ps best (ps, best, tot)"
    and "\<And>i ps best r. i < length ps \<Longrightarrow>
      \<not> (rr_eligible now t i (ps ! i) \<and> lc_tie (ps ! i) (ps ! best)) \<Longrightarrow>
      P (Suc i) ps best r \<Longrightarrow> P i ps best r"
    and "\<And>i ps best r. i < length ps \<Longrightarrow> rr_eligible now t i (ps ! i) \<Longrightarrow>
      lc_tie (ps ! i) (ps ! best) \<Longrightarrow>
      P (Suc i) (ps[i := rr_bump (ps ! i)]) (lc_next (ps[i := rr_bump (ps ! i)]) i best) r \<Longrightarrow>
      P i ps best r"
  shows "P i ps best r"
  using assms(1)
proof (induction "length ps - i" arbitrary: i ps best tot)
  case 0
  then show ?case using assms(2) by (auto simp: lc_loop_done)
next
  case (Suc n)
  show ?case
  proof (cases "rr_eligible now t i (ps ! i) \<and> lc_tie (ps ! i) (ps ! best)")
    case False
    then have "P (Suc i) ps best r"
      using Suc.hyps(1) [of ps "Suc i" best tot] Suc.hyps(2) Suc.prems by (simp add: lc_loop_skip)
    then show ?thesis using assms(3) False Suc.hyps(2) by simp
  next
    case True
    let ?ps = "ps[i := rr_bump (ps ! i)]"
    have "P (Suc i) ?ps (lc_next ?ps i best) r"
      using Suc.hyps(1) [of ?ps "Suc i" "lc_next ?ps i best"] Suc.hyps(2) Suc.prems True
      by (simp add: lc_loop_take)
    then show ?thesis using assms(4) True Suc.hyps(2) by simp
  qed
qed

fun lc_kept ::
    "int \<Rightarrow> 64 word list \<Rightarrow> nat \<Rightarrow> ngx_http_upstream_rr_peer_t list \<Rightarrow> nat
       \<Rightarrow> ngx_http_upstream_rr_peer_t list \<times> nat \<times> int \<Rightarrow> bool" where
  "lc_kept now t i ps best (ps', b, tot') \<longleftrightarrow>
     map conns ps' = map conns ps \<and> map peer_static ps' = map peer_static ps \<and>
     ((\<forall>p \<in> set ps. peer_weights_ok p) \<longrightarrow> (\<forall>p \<in> set ps'. peer_weights_ok p)) \<and>
     (b = best \<or> (i \<le> b \<and> b < length ps \<and> rr_eligible now t b (ps ! b)))"

lemma lc_loop_kept: "lc_loop now t i ps best tot = r \<Longrightarrow> lc_kept now t i ps best r"
proof (induction rule: lc_loop_induct)
  case (stop i ps best tot)
  then show ?case by simp
next
  case (skip i ps best r)
  then show ?case by (cases r) auto
next
  case (tk i ps best r)
  let ?ps = "ps[i := rr_bump (ps ! i)]"
  have "map conns ?ps = map conns ps" "map peer_static ?ps = map peer_static ps"
    using tk(1) by (simp_all add: map_update_same)
  moreover have "\<forall>p \<in> set ?ps. peer_weights_ok p" if "\<forall>p \<in> set ps. peer_weights_ok p"
    using that tk(1) by (intro ball_update) (auto intro: rr_bump_weights_ok)
  moreover have "rr_eligible now t j (?ps ! j) = rr_eligible now t j (ps ! j)" if "Suc i \<le> j" for j
    using that by simp
  ultimately show ?case using tk
    by (cases r) (auto simp: lc_next_def split: if_splits)
qed

lemma lc_loop_equal_weights:
  assumes "\<forall>p \<in> set ps. peer_fits p \<and> weight p = w" and "best < length ps"
    and "lc_loop now t i ps best tot = (ps', b, tot')"
  shows "b < length ps \<and> conns (ps ! b) = conns (ps ! best)"
proof -
  have "\<forall>ps' b tot'. r = (ps', b, tot') \<longrightarrow> b < length ps \<and> conns (ps ! b) = conns (ps ! best)"
    if "lc_loop now t i ps best tot = r" "\<forall>p \<in> set ps. peer_fits p \<and> weight p = w" "best < length ps" for r
    using that
  proof (induction rule: lc_loop_induct)
    case (stop i ps best tot)
    then show ?case by simp
  next
    case (skip i ps best r)
    then show ?case by simp
  next
    case (tk i ps best r)
    let ?ps = "ps[i := rr_bump (ps ! i)]"
    have f: "peer_fits (ps ! i)" "peer_fits (ps ! best)" "weight (ps ! i) = w" "weight (ps ! best) = w"
      using tk.prems tk.hyps(1) by auto
    then have "0 < w" by (auto simp: peer_fits_def)
    then have e: "conns (ps ! i) = conns (ps ! best)"
      using tk.hyps(3) f by (simp add: lc_tie_iff)
    have "\<forall>p \<in> set ?ps. peer_fits p \<and> weight p = w"
      using tk.prems(1) f by (intro ball_update) (auto simp: peer_fits_def rr_bump_def Let_def)
    moreover have "conns (?ps ! j) = conns (ps ! j)" for j
      by (simp add: nth_list_update_if)
    ultimately show ?case using tk e by (auto simp: lc_next_def split: if_splits)
  qed
  then show ?thesis using assms by blast
qed

section \<open>The choice\<close>

definition lc_candidate :: "int \<Rightarrow> 64 word list \<Rightarrow> ngx_http_upstream_rr_peer_t list \<Rightarrow> nat option \<Rightarrow> bool" where
  "lc_candidate now t ps best \<longleftrightarrow>
     (\<forall>b. best = Some b \<longrightarrow> b < length ps \<and> rr_eligible now t b (ps ! b))"

lemma lc_scan_candidate:
  "lc_candidate now t ps best \<Longrightarrow> lc_candidate now t ps (fst (lc_scan now t i ps best many))"
proof (induction now t i ps best many rule: lc_scan.induct)
  case (1 now t i ps best many)
  show ?case
  proof (cases "i < length ps \<and> rr_eligible now t i (ps ! i)")
    case True
    then have "lc_candidate now t ps (Some i)" by (simp add: lc_candidate_def)
    then show ?thesis using 1 True
      by (auto simp: lc_scan.simps [of now t i] Let_def split: option.split)
  next
    case False
    then show ?thesis using 1 by (cases "i < length ps") (auto simp: lc_scan_done lc_scan_skip)
  qed
qed

text \<open>The choice taken apart: the scan's peer \<open>p\<close>, the peer \<open>b\<close> after the second loop.\<close>

lemma lc_choose_some:
  assumes "lc_choose now ps rrp = (Some b, ps', rrp')"
  obtains p many qs tot where "lc_scan now (tried rrp) 0 ps None False = (Some p, many)"
    and "(if many then lc_loop now (tried rrp) p ps p 0 else (ps, p, 0)) = (qs, b, tot)"
    and "ps' = qs[b := peer_touch now ((qs ! b)\<lparr>current_weight := i64 (current_weight (qs ! b) - tot)\<rparr>)]"
    and "rrp' = rrp\<lparr>current := Some b, tried := tried_set (tried rrp) b\<rparr>"
    and "p < length ps" and "rr_eligible now (tried rrp) p (ps ! p)"
proof -
  obtain p many qs tot where l: "lc_scan now (tried rrp) 0 ps None False = (Some p, many)"
    "(if many then lc_loop now (tried rrp) p ps p 0 else (ps, p, 0)) = (qs, b, tot)"
    "ps' = qs[b := peer_touch now ((qs ! b)\<lparr>current_weight := i64 (current_weight (qs ! b) - tot)\<rparr>)]"
    "rrp' = rrp\<lparr>current := Some b, tried := tried_set (tried rrp) b\<rparr>"
    using assms by (auto simp: lc_choose_def Let_def split: prod.splits option.splits)
  moreover have "p < length ps" "rr_eligible now (tried rrp) p (ps ! p)"
    using lc_scan_candidate [of now "tried rrp" ps None 0 False] l(1) by (simp_all add: lc_candidate_def)
  ultimately show thesis using that by blast
qed

lemma lc_choose_none:
  "lc_choose now ps rrp = (None, ps', rrp') \<Longrightarrow>
     ps' = ps \<and> rrp' = rrp \<and> fst (lc_scan now (tried rrp) 0 ps None False) = None"
  by (auto simp: lc_choose_def Let_def split: prod.splits option.splits)

lemma lc_choose_ok: "choice_ok ps rrp (lc_choose now ps rrp)"
proof -
  obtain r ps' rrp' where c: "lc_choose now ps rrp = (r, ps', rrp')" by (metis prod_cases3)
  show ?thesis
  proof (cases r)
    case None
    then show ?thesis using lc_choose_none c by fastforce
  next
    case (Some b)
    obtain p many qs tot where l: "(if many then lc_loop now (tried rrp) p ps p 0 else (ps, p, 0)) = (qs, b, tot)"
      and ps': "ps' = qs[b := peer_touch now ((qs ! b)\<lparr>current_weight := i64 (current_weight (qs ! b) - tot)\<rparr>)]"
      and rrp': "rrp' = rrp\<lparr>current := Some b, tried := tried_set (tried rrp) b\<rparr>"
      and p: "p < length ps" "rr_eligible now (tried rrp) p (ps ! p)"
      using lc_choose_some [OF c [unfolded Some]] by metis
    have k: "lc_kept now (tried rrp) p ps p (qs, b, tot)"
      using l lc_loop_kept [of now "tried rrp" p ps p 0 "(qs, b, tot)"] by (cases many) simp_all
    then have b: "b < length ps" "rr_eligible now (tried rrp) b (ps ! b)" using p by auto
    have len: "length qs = length ps" using k map_eq_imp_length_eq by (metis lc_kept.simps)
    have "map conns ps' = map conns qs" "map peer_static ps' = map peer_static qs"
      unfolding ps' using b len by (simp_all add: map_update_same)
    moreover have "\<forall>p \<in> set ps'. peer_weights_ok p" if "\<forall>p \<in> set ps. peer_weights_ok p"
      unfolding ps' using that k b len by (intro ball_update) auto
    ultimately show ?thesis
      using c Some k b rrp' by (simp add: rr_eligible_def)
  qed
qed

section \<open>The balancer contract\<close>

lemma get_lc_peer_law: "get_law (rrp_peers rrp) ups (get_lc_peer now ups pc rrp)"
proof (induction now ups pc rrp rule: get_lc_peer.induct)
  case (1 now pc rrp)
  then show ?case by simp
next
  case (2 now g rest pc rrp)
  show ?case
  proof (cases "single g")
    case True
    then show ?thesis
      using get_rr_peer_law [of rrp "g # rest" now pc] by (simp del: get_law.simps get_rr_peer.simps)
  next
    case multi: False
    obtain r ps rrp' where c: "lc_choose now (peer g) rrp = (r, ps, rrp')" by (metis prod_cases3)
    have ok: "choice_ok (peer g) rrp (r, ps, rrp')" using lc_choose_ok [of "peer g" rrp now] c by simp
    show ?thesis
    proof (cases r)
      case (Some k)
      then show ?thesis using get_law_chosen ok c multi by (simp del: get_law.simps choice_ok.simps)
    next
      case None
      show ?thesis
      proof (cases rest)
        case Nil
        then show ?thesis using ok c None multi get_law_busy [where rest = "[]"]
          by (simp del: get_law.simps choice_ok.simps)
      next
        case (Cons b bs)
        let ?rrp = "rrp'\<lparr>rrp_peers := Suc (rrp_peers rrp'),
            tried := tried_clear (tried_words (number b)) (tried rrp')\<rparr>"
        obtain rc rest' pc' rrp'' where
          n: "get_lc_peer now rest (pc\<lparr>pc_cached := False, pc_connection := False\<rparr>) ?rrp = (rc, rest', pc', rrp'')"
          by (metis prod_cases4)
        have "get_law (Suc (rrp_peers rrp)) rest (rc, rest', pc', rrp'')"
          using "2.IH" [OF multi refl c [symmetric] None refl refl Cons] n ok by simp
        note law = get_law_failed [OF ok [unfolded None] this]
        have "get_lc_peer now (g # rest) pc rrp =
            (if rc \<noteq> NGX_BUSY then (rc, g\<lparr>peer := ps\<rparr> # rest', pc', rrp'')
             else (NGX_BUSY, g\<lparr>peer := ps\<rparr> # rest', pc'\<lparr>pc_name := peers_name g\<rparr>, rrp''))"
          unfolding Cons get_lc_peer.simps(2) [of now g "b # bs"]
          by (simp add: multi c None n [unfolded Cons] Let_def del: get_lc_peer.simps)
        then show ?thesis
          using law by (cases "rc = NGX_BUSY") (auto simp del: get_law.simps get_lc_peer.simps)
      qed
    qed
  qed
qed

lemma least_conn_law: "get_law 0 ups (ngx_http_upstream_get_least_conn_peer now ups pc rrp)"
proof -
  obtain rc ups' pc' rrp' where
    g: "get_lc_peer now (drop (rrp_peers rrp) ups) pc rrp = (rc, ups', pc', rrp')"
    by (metis prod_cases4)
  then show ?thesis
    using get_law_splice get_lc_peer_law [of rrp "drop (rrp_peers rrp) ups" now pc]
    by (simp add: ngx_http_upstream_get_least_conn_peer_def del: get_law.simps)
qed

interpretation lc: peer_balancer ngx_http_upstream_get_least_conn_peer
  by (rule peer_balancer_of_law) (rule least_conn_law)

section \<open>Properties of the choice\<close>

definition lc_no_ties :: "int \<Rightarrow> 64 word list \<Rightarrow> ngx_http_upstream_rr_peer_t list \<Rightarrow> bool" where
  "lc_no_ties now t ps \<longleftrightarrow>
     (\<forall>i < length ps. \<forall>j < length ps. rr_eligible now t i (ps ! i) \<and> rr_eligible now t j (ps ! j) \<and> i \<noteq> j
        \<longrightarrow> conns (ps ! i) * weight (ps ! j) \<noteq> conns (ps ! j) * weight (ps ! i))"

lemma lc_scan_many:
  assumes "lc_no_ties now t ps" and "\<forall>p \<in> set ps. peer_fits p"
    and "lc_candidate now t ps best" and "\<forall>b. best = Some b \<longrightarrow> b < i"
  shows "snd (lc_scan now t i ps best False) = False"
  using assms
proof (induction now t i ps best "False" rule: lc_scan.induct)
  case (1 now t i ps best)
  show ?case
  proof (cases "i < length ps \<and> rr_eligible now t i (ps ! i)")
    case True
    then have i: "lc_candidate now t ps (Some i)" by (simp add: lc_candidate_def)
    have "\<not> lc_tie (ps ! i) (ps ! b)" if "best = Some b" for b
      using that "1.prems" True by (auto simp: lc_no_ties_def lc_candidate_def lc_tie_iff)
    then show ?thesis using 1 True i
      by (auto simp: lc_scan.simps [of now t i] Let_def less_Suc_eq split: option.split)
  next
    case False
    then show ?thesis using 1 by (cases "i < length ps") (auto simp: lc_scan_done lc_scan_skip less_Suc_eq)
  qed
qed

lemma lc_scan_minimal:
  assumes "\<forall>p \<in> set ps. peer_fits p" and "lc_scan now t 0 ps None False = (Some p, many)"
    and "j < length ps" and "rr_eligible now t j (ps ! j)"
  shows "ratio_le (ps ! p) (ps ! j)"
  using lc_scan_found [OF assms(1), of now t 0 None False] assms(2-4)
  by (simp add: lc_found_def lc_minimal_def)

text \<open>
  C2: when no two eligible peers have the same connections per weight, the peer the
  least-connections handler chooses minimises \<^verbatim>\<open>(conns + 1) / weight\<close> over all eligible peers.
\<close>

theorem least_conn_min_ratio:
  assumes "\<forall>p \<in> set ps. peer_fits p" and "lc_no_ties now (tried rrp) ps"
    and "lc_choose now ps rrp = (Some b, ps', rrp')"
    and "j < length ps" and "rr_eligible now (tried rrp) j (ps ! j)"
  shows "rr_eligible now (tried rrp) b (ps ! b) \<and>
    (conns (ps ! b) + 1) * weight (ps ! j) \<le> (conns (ps ! j) + 1) * weight (ps ! b)"
proof -
  obtain p many qs tot where l: "lc_scan now (tried rrp) 0 ps None False = (Some p, many)"
    "(if many then lc_loop now (tried rrp) p ps p 0 else (ps, p, 0)) = (qs, b, tot)"
    "rr_eligible now (tried rrp) p (ps ! p)"
    using lc_choose_some [OF assms(3)] by metis
  have "\<not> many"
    using lc_scan_many [OF assms(2,1), of None 0] l(1) by (simp add: lc_candidate_def)
  then have "b = p" using l(2) by simp
  then show ?thesis
    using lc_scan_minimal [OF assms(1) l(1) assms(4,5)] l(3) by (simp add: ratio_le_def)
qed

theorem least_conn_min_ratio_witness:
  "let ps = [ex_peer 1 2 0, ex_peer 4 3 0, ex_peer 2 9 0]
   in fst (lc_choose 5 ps ex_rrp) = Some 1 \<and>
      (\<forall>j < 3. (3 + 1) * weight (ps ! j) \<le> (conns (ps ! j) + 1) * 4)"
proof -
  let ?ps = "[ex_peer 1 2 0, ex_peer 4 3 0, ex_peer 2 9 0]"
  have f: "\<forall>p \<in> set ?ps. peer_fits p" by (simp add: ex_peer_def peer_fits_def)
  have n: "lc_no_ties 5 (tried ex_rrp) ?ps"
    by (simp add: lc_no_ties_def ex_peer_def All_less_Suc numeral_3_eq_3)
  have c: "fst (lc_choose 5 ?ps ex_rrp) = Some 1" by code_simp
  then obtain ps' rrp' where cc: "lc_choose 5 ?ps ex_rrp = (Some 1, ps', rrp')"
    by (metis prod.collapse fst_conv)
  have e: "rr_eligible 5 (tried ex_rrp) j (?ps ! j)" if "j < 3" for j
  proof -
    from that have "j = 0 \<or> j = 1 \<or> j = 2" by auto
    then show ?thesis
      by (auto simp: rr_eligible_def tried_bit_def ex_rrp_def ex_peer_def peer_failing_def peer_full_def)
  qed
  have "(conns (?ps ! 1) + 1) * weight (?ps ! j) \<le> (conns (?ps ! j) + 1) * weight (?ps ! 1)" if "j < 3" for j
    using least_conn_min_ratio [OF f n cc _ e [OF that]] that by simp
  then show ?thesis using c by (simp add: Let_def ex_peer_def)
qed

text \<open>
  When all peers have the same weight, the least-connections handler always chooses an
  eligible peer with the fewest connections, ties or not.
\<close>

theorem least_conn_equal_weights:
  assumes "\<forall>p \<in> set ps. peer_fits p \<and> weight p = w"
    and "lc_choose now ps rrp = (Some b, ps', rrp')"
    and "j < length ps" and "rr_eligible now (tried rrp) j (ps ! j)"
  shows "conns (ps ! b) \<le> conns (ps ! j)"
proof -
  obtain p many qs tot where l: "lc_scan now (tried rrp) 0 ps None False = (Some p, many)"
    "(if many then lc_loop now (tried rrp) p ps p 0 else (ps, p, 0)) = (qs, b, tot)"
    "p < length ps"
    using lc_choose_some [OF assms(2)] by metis
  have w: "weight (ps ! p) = w" "weight (ps ! j) = w" "peer_fits (ps ! p)"
    using assms(1,3) l(3) by auto
  then have "0 < w" by (auto simp: peer_fits_def)
  have "conns (ps ! b) = conns (ps ! p)"
    using l(2) lc_loop_equal_weights [OF assms(1) l(3)] by (cases many) auto
  moreover have "ratio_le (ps ! p) (ps ! j)"
    using lc_scan_minimal [OF _ l(1) assms(3,4)] assms(1) by blast
  then have "conns (ps ! p) \<le> conns (ps ! j)"
    using w \<open>0 < w\<close> by (simp add: ratio_le_def)
  ultimately show ?thesis by simp
qed

theorem least_conn_equal_weights_witness:
  "let ps = [ex_peer 1 2 0, ex_peer 1 1 0, ex_peer 1 1 0]
   in fst (lc_choose 5 ps ex_rrp) = Some 1 \<and> conns (ps ! 1) \<le> conns (ps ! 0)"
proof -
  let ?ps = "[ex_peer 1 2 0, ex_peer 1 1 0, ex_peer 1 1 0]"
  have f: "\<forall>p \<in> set ?ps. peer_fits p \<and> weight p = 1" by (simp add: ex_peer_def peer_fits_def)
  have c: "fst (lc_choose 5 ?ps ex_rrp) = Some 1" by code_simp
  then obtain ps' rrp' where cc: "lc_choose 5 ?ps ex_rrp = (Some 1, ps', rrp')"
    by (metis prod.collapse fst_conv)
  have e: "rr_eligible 5 (tried ex_rrp) 0 (?ps ! 0)"
    by (simp add: rr_eligible_def tried_bit_def ex_rrp_def ex_peer_def peer_failing_def peer_full_def)
  show ?thesis using c least_conn_equal_weights [OF f cc _ e] by (simp add: Let_def)
qed

text \<open>
  In every state reachable by any interleaving of requests that take a peer by least
  connections and give it back, from a configured upstream without connections, the connection
  counter of every peer is the number of requests that hold it and no peer exceeds its
  \<^verbatim>\<open>max_conns\<close> limit.
\<close>

theorem least_conn_max_conns:
  assumes "balancer_reachable ngx_http_upstream_get_least_conn_peer ups s" and "chain_idle ups"
    and "in_chain (bs_chain s) g k"
  shows "conns (peer_at (bs_chain s) g k) = int (holders (bs_active s) g k) \<and>
    (max_conns (peer_at (bs_chain s) g k) \<noteq> 0 \<longrightarrow>
       conns (peer_at (bs_chain s) g k) \<le> max_conns (peer_at (bs_chain s) g k))"
  using lc.reachable_inv [OF assms(1,2)] balancer_invD [of s g k] assms(3) by auto

theorem least_conn_max_conns_witness:
  "\<exists>s. balancer_reachable ngx_http_upstream_get_least_conn_peer [ex_group [ex_peer 3 0 1, ex_peer 1 0 0]] s \<and>
     bs_active s \<noteq> [] \<and> conns (peer_at (bs_chain s) 0 0) = 1"
proof -
  let ?ups = "[ex_group [ex_peer 3 0 1, ex_peer 1 0 0]]"
  let ?r = "ngx_http_upstream_get_least_conn_peer 5 ?ups ex_pc ex_rrp"
  have "fst ?r = NGX_OK" by code_simp
  then obtain ups' pc' rrp' where r: "?r = (NGX_OK, ups', pc', rrp')" by (metis prod.collapse fst_conv)
  let ?s = "\<lparr>bs_chain = ups', bs_active = [rrp']\<rparr>"
  have re: "balancer_reachable ngx_http_upstream_get_least_conn_peer ?ups ?s"
    by (rule balancer_reachable.step [OF balancer_reachable.start])
      (use balancer_step.get_peer [of ngx_http_upstream_get_least_conn_peer 5
           "\<lparr>bs_chain = ?ups, bs_active = []\<rparr>"] r in simp)
  have idle: "chain_idle ?ups"
    by (simp add: chain_idle_def chain_weights_ok_def peer_weights_ok_def ex_group_def ex_peer_def)
  have "fst (snd ?r) = ups'" "snd (snd (snd ?r)) = rrp'" using r by simp_all
  moreover have "in_chain (fst (snd ?r)) 0 0" "holders [snd (snd (snd ?r))] 0 0 = 1" by code_simp+
  ultimately have "in_chain ups' 0 0" "holders [rrp'] 0 0 = 1" by simp_all
  then show ?thesis using re least_conn_max_conns [OF re idle, of 0 0] by (intro exI [of _ ?s]) simp
qed

text \<open>The choice between two peers.\<close>

lemma lc_tie_bump [simp]: "lc_tie p (rr_bump q) = lc_tie p q"
  by (simp add: lc_tie_def rr_bump_def Let_def)

lemma lc_choose_two:
  assumes "rr_eligible now (tried rrp) 0 p" "rr_eligible now (tried rrp) 1 q"
  shows "fst (lc_choose now [p, q] rrp) =
    Some (if lc_less q p \<or> lc_tie q p \<and> current_weight (rr_bump p) < current_weight (rr_bump q) then 1 else 0)"
proof -
  let ?t = "tried rrp"
  have scan: "lc_scan now ?t 0 [p, q] None False = (if lc_less q p then (Some 1, False) else (Some 0, lc_tie q p))"
    using assms by (simp add: lc_scan.simps)
  have e: "\<not> tried_bit ?t 0" "\<not> down p" "\<not> peer_failing now p" "\<not> peer_full p"
    "\<not> tried_bit ?t 1" "\<not> down q" "\<not> peer_failing now q" "\<not> peer_full q" "lc_tie p p"
    using assms by (simp_all add: rr_eligible_def lc_tie_def)
  have "fst (snd (lc_loop now ?t 0 [p, q] 0 0)) = (if current_weight (rr_bump p) < current_weight (rr_bump q) then 1 else 0)" if "lc_tie q p"
    using e that by (simp add: lc_loop.simps Let_def)
  then show ?thesis by (auto simp: lc_choose_def scan Let_def split: prod.split)
qed

text \<open>
  C20: the choice depends on the order in which the servers are listed. Of two peers that can be used,
  whose connections are in proportion to their weights (both idle, for example) and the lighter of
  which has the larger current weight, the second one listed is chosen, whichever it is: listed heavy
  first, the tie test \<^verbatim>\<open>peer->conns * best->weight == best->conns * peer->weight\<close> holds, the peers are
  balanced by round robin and the lighter one is chosen, although its \<^verbatim>\<open>(conns + 1) / weight\<close> is
  larger; listed light first, the heavy one is strictly better and is chosen. Conversely, a real tie of
  \<^verbatim>\<open>(conns + 1) / weight\<close> between different weights is not recognised: the first peer listed is chosen
  whatever the current weights are.
\<close>

theorem least_conn_order_dependent:
  assumes "peer_fits p" "peer_fits q" "weight q < weight p"
    and "rr_eligible now (tried rrp) 0 p" "rr_eligible now (tried rrp) 1 q" "rr_eligible now (tried rrp) 0 q" "rr_eligible now (tried rrp) 1 p"
  shows "(conns p * weight q = conns q * weight p \<longrightarrow>
      i64 (current_weight p + effective_weight p) < i64 (current_weight q + effective_weight q) \<longrightarrow>
      \<not> ratio_le q p \<and> fst (lc_choose now [p, q] rrp) = Some 1 \<and> fst (lc_choose now [q, p] rrp) = Some 1) \<and>
    (ratio_le p q \<longrightarrow> ratio_le q p \<longrightarrow> fst (lc_choose now [p, q] rrp) = Some 0 \<and> fst (lc_choose now [q, p] rrp) = Some 0)"
proof -
  have bump: "current_weight (rr_bump x) = i64 (current_weight x + effective_weight x)" for x
    by (simp add: rr_bump_def Let_def)
  note two = lc_choose_two [OF assms(4,5)] lc_choose_two [OF assms(6,7)]
  note iff = lc_less_iff [OF assms(1,2)] lc_less_iff [OF assms(2,1)] lc_tie_iff [OF assms(1,2)] lc_tie_iff [OF assms(2,1)]
  have "\<not> ratio_le q p" "ratio_le p q" if "conns p * weight q = conns q * weight p"
    using that assms(3) by (simp_all add: ratio_le_def algebra_simps)
  moreover have "conns p * weight q \<noteq> conns q * weight p" if "ratio_le p q" "ratio_le q p"
    using that assms(3) by (simp add: ratio_le_def algebra_simps)
  ultimately show ?thesis by (auto simp: two iff bump)
qed

theorem least_conn_order_dependent_witness:
  "let heavy = ex_peer 10 0 0; light = (ex_peer 1 0 0)\<lparr>current_weight := 20\<rparr>; a = ex_peer 2 1 0
   in fst (lc_choose 5 [heavy, light] ex_rrp) = Some 1 \<and> fst (lc_choose 5 [light, heavy] ex_rrp) = Some 1 \<and> \<not> ratio_le light heavy \<and>
      ratio_le a light \<and> ratio_le light a \<and> fst (lc_choose 5 [a, light] ex_rrp) = Some 0 \<and> fst (lc_choose 5 [light, a] ex_rrp) = Some 0"
proof -
  let ?h = "ex_peer 10 0 0" and ?l = "(ex_peer 1 0 0)\<lparr>current_weight := 20\<rparr>" and ?a = "ex_peer 2 1 0"
  have f: "peer_fits ?h" "peer_fits ?l" "peer_fits ?a" "weight ?l < weight ?h" "weight ?l < weight ?a" by (simp_all add: ex_peer_def peer_fits_def)
  have e: "rr_eligible 5 (tried ex_rrp) k x" if "k < 2" "x \<in> {?h, ?l, ?a}" for k x
    using that by (auto simp: rr_eligible_def tried_bit_def ex_rrp_def ex_peer_def peer_failing_def peer_full_def)
  have c: "conns ?h * weight ?l = conns ?l * weight ?h" "i64 (current_weight ?h + effective_weight ?h) < i64 (current_weight ?l + effective_weight ?l)"
    "ratio_le ?a ?l" "ratio_le ?l ?a"
    by (simp_all add: ex_peer_def i64_id ratio_le_def)
  show ?thesis
    using least_conn_order_dependent [OF f(1,2,4), of 5 ex_rrp] least_conn_order_dependent [OF f(3,2,5), of 5 ex_rrp] e c by (simp add: Let_def)
qed

end
