(* ===== verification/Ngx_Number.thy ===== *)
theory Ngx_Number
  imports Ngx_Prelude
begin

text \<open>
  Numbers in text: the parsers \<^verbatim>\<open>ngx_atoi\<close>, \<^verbatim>\<open>ngx_atosz\<close>, \<^verbatim>\<open>ngx_atoof\<close>, \<^verbatim>\<open>ngx_atotm\<close>,
  \<^verbatim>\<open>ngx_atofp\<close> and \<^verbatim>\<open>ngx_hextoi\<close>, the digit loops of \<^verbatim>\<open>ngx_sprintf_num\<close> and \<^verbatim>\<open>ngx_hex_dump\<close>
  (src/nginx/src/core/ngx_string.c).

  A C argument pair (pointer, length) is the list of the bytes read. Values are \<open>int\<close>s wrapped by
  \<open>i64\<close> after each computation, and \<open>-1\<close> is the C value \<^verbatim>\<open>NGX_ERROR\<close>. The locale \<open>digit_loop\<close>
  states what one parsing loop does on one byte, \<open>digit_printer\<close> adds the printing side; what the
  loops compute, that they accept exactly the numbers that fit, and the round trip with the
  printed digits are proved once there and hold for the decimal and the hexadecimal loops.
\<close>

section \<open>The limits\<close>

definition NGX_MAX_INT_T_VALUE :: int where
  "NGX_MAX_INT_T_VALUE = 9223372036854775807"

text \<open>The limits of \<^verbatim>\<open>size_t\<close>, \<^verbatim>\<open>off_t\<close> and \<^verbatim>\<open>time_t\<close> come from the configure step
  (src/nginx/auto/unix, line 677): the largest signed value of an eight byte type.\<close>

definition NGX_MAX_SIZE_T_VALUE :: int where
  "NGX_MAX_SIZE_T_VALUE = 9223372036854775807"

definition NGX_MAX_OFF_T_VALUE :: int where
  "NGX_MAX_OFF_T_VALUE = 9223372036854775807"

definition NGX_MAX_TIME_T_VALUE :: int where
  "NGX_MAX_TIME_T_VALUE = 9223372036854775807"

lemmas max_values = NGX_MAX_INT_T_VALUE_def NGX_MAX_SIZE_T_VALUE_def NGX_MAX_OFF_T_VALUE_def
  NGX_MAX_TIME_T_VALUE_def

lemma max_nonneg: "0 \<le> NGX_MAX_INT_T_VALUE"
  by (simp add: max_values)

section \<open>The parsers\<close>

text \<open>The loop the decimal parsers share, on the bytes left to read.\<close>

fun atoi_loop :: "int \<Rightarrow> int \<Rightarrow> u_char list \<Rightarrow> int" where
  "atoi_loop mx value [] = value"
| "atoi_loop mx value (c # line) =
     (if c < 0x30 \<or> c > 0x39 then -1
      else if value \<ge> mx div 10 \<and> (value > mx div 10 \<or> uint c - 0x30 > mx mod 10) then -1
      else atoi_loop mx (i64 (value * 10 + (uint c - 0x30))) line)"

definition ngx_atoi :: "u_char list \<Rightarrow> int" where
  "ngx_atoi line = (if line = [] then -1 else atoi_loop NGX_MAX_INT_T_VALUE 0 line)"

definition ngx_atosz :: "u_char list \<Rightarrow> int" where
  "ngx_atosz line = (if line = [] then -1 else atoi_loop NGX_MAX_SIZE_T_VALUE 0 line)"

definition ngx_atoof :: "u_char list \<Rightarrow> int" where
  "ngx_atoof line = (if line = [] then -1 else atoi_loop NGX_MAX_OFF_T_VALUE 0 line)"

definition ngx_atotm :: "u_char list \<Rightarrow> int" where
  "ngx_atotm line = (if line = [] then -1 else atoi_loop NGX_MAX_TIME_T_VALUE 0 line)"

text \<open>The fixed point parser: the loop over the digits gives the value and the decimal places still
  owed, or none for \<^verbatim>\<open>NGX_ERROR\<close>; the second loop pads with zeros.\<close>

fun atofp_loop :: "int \<Rightarrow> nat \<Rightarrow> bool \<Rightarrow> u_char list \<Rightarrow> (int \<times> nat) option" where
  "atofp_loop value point dot [] = Some (value, point)"
| "atofp_loop value point dot (c # line) =
     (if point = 0 then None
      else if c = 0x2e then (if dot then None else atofp_loop value point True line)
      else if c < 0x30 \<or> c > 0x39 then None
      else if value \<ge> NGX_MAX_INT_T_VALUE div 10 \<and>
              (value > NGX_MAX_INT_T_VALUE div 10 \<or> uint c - 0x30 > NGX_MAX_INT_T_VALUE mod 10)
        then None
      else atofp_loop (i64 (value * 10 + (uint c - 0x30))) (if dot then point - 1 else point) dot line)"

fun atofp_scale :: "nat \<Rightarrow> int \<Rightarrow> int" where
  "atofp_scale 0 value = value"
| "atofp_scale (Suc point) value =
     (if value > NGX_MAX_INT_T_VALUE div 10 then -1 else atofp_scale point (i64 (value * 10)))"

definition ngx_atofp :: "u_char list \<Rightarrow> nat \<Rightarrow> int" where
  "ngx_atofp line point =
     (if line = [] then -1
      else case atofp_loop 0 point False line of None \<Rightarrow> -1 | Some (value, point') \<Rightarrow> atofp_scale point' value)"

fun hextoi_loop :: "int \<Rightarrow> u_char list \<Rightarrow> int" where
  "hextoi_loop value [] = value"
| "hextoi_loop value (ch # line) =
     (if value > NGX_MAX_INT_T_VALUE div 16 then -1
      else if ch \<ge> 0x30 \<and> ch \<le> 0x39 then hextoi_loop (i64 (value * 16 + (uint ch - 0x30))) line
      else let c = ch OR 0x20
           in if c \<ge> 0x61 \<and> c \<le> 0x66 then hextoi_loop (i64 (value * 16 + (uint c - 0x61 + 10))) line
              else -1)"

definition ngx_hextoi :: "u_char list \<Rightarrow> int" where
  "ngx_hextoi line = (if line = [] then -1 else hextoi_loop 0 line)"

section \<open>The printers\<close>

definition hex_lower :: "u_char list" where
  "hex_lower = bytes ''0123456789abcdef''"

definition hex_upper :: "u_char list" where
  "hex_upper = bytes ''0123456789ABCDEF''"

definition ngx_hex_dump :: "u_char list \<Rightarrow> u_char list" where
  "ngx_hex_dump src =
     concat (map (\<lambda>c. [hex_lower ! unat (drop_bit 4 c), hex_lower ! unat (c AND 0xf)]) src)"

text \<open>The loops that write the digits of a number backwards before \<open>p\<close>.\<close>

function num_loop10 :: "nat \<Rightarrow> u_char list \<Rightarrow> u_char list" where
  "num_loop10 ui p =
     (let p = of_nat (ui mod 10 + 0x30) # p; ui = ui div 10
      in if ui \<noteq> 0 then num_loop10 ui p else p)"
  by pat_completeness auto
termination by (relation "measure fst") auto

function num_loop16 :: "u_char list \<Rightarrow> nat \<Rightarrow> u_char list \<Rightarrow> u_char list" where
  "num_loop16 hex ui p =
     (let p = hex ! (ui AND 0xf) # p; ui = drop_bit 4 ui
      in if ui \<noteq> 0 then num_loop16 hex ui p else p)"
  by pat_completeness auto
termination
  by (relation "measure (\<lambda>(h, u, p). u)") (auto simp: drop_bit_eq_div)

declare num_loop10.simps [simp del] num_loop16.simps [simp del]

text \<open>The text of the number in the temporary buffer, hexadecimal = 0, 1 or 2.\<close>

definition sprintf_num_text :: "nat \<Rightarrow> nat \<Rightarrow> u_char list" where
  "sprintf_num_text ui64 hexadecimal =
     (if hexadecimal = 0 then
        (if ui64 \<le> 0xffffffff then num_loop10 (ui64 mod 2 ^ 32) [] else num_loop10 ui64 [])
      else if hexadecimal = 1 then num_loop16 hex_lower ui64 []
      else num_loop16 hex_upper ui64 [])"

text \<open>The number is padded to \<open>width\<close> and copied as far as the \<open>room\<close> bytes of the buffer allow.\<close>

definition ngx_sprintf_num :: "nat \<Rightarrow> nat \<Rightarrow> u_char \<Rightarrow> nat \<Rightarrow> nat \<Rightarrow> u_char list" where
  "ngx_sprintf_num room ui64 zero hexadecimal width =
     (let p = sprintf_num_text ui64 hexadecimal;
          pad = min (width - length p) room
      in replicate pad zero @ take (room - pad) p)"

section \<open>Positional notation\<close>

text \<open>The value of a digit string continued from a prefix of value \<open>v\<close>, and the digits of a number.\<close>

fun digits_val :: "int \<Rightarrow> (u_char \<Rightarrow> int option) \<Rightarrow> int \<Rightarrow> u_char list \<Rightarrow> int option" where
  "digits_val base digit v [] = Some v"
| "digits_val base digit v (c # cs) =
     (case digit c of None \<Rightarrow> None | Some d \<Rightarrow> digits_val base digit (v * base + d) cs)"

function base_digits :: "nat \<Rightarrow> nat \<Rightarrow> nat list" where
  "base_digits b n = (if b \<le> 1 \<or> n < b then [n] else base_digits b (n div b) @ [n mod b])"
  by pat_completeness auto
termination by (relation "measure snd") (auto intro!: div_less_dividend)

declare base_digits.simps [simp del]

lemma digits_val_append:
  "digits_val base digit v (cs @ ds) =
     (case digits_val base digit v cs of None \<Rightarrow> None | Some w \<Rightarrow> digits_val base digit w ds)"
  by (induction cs arbitrary: v) (auto split: option.splits)

lemma digits_val_ge:
  assumes "\<And>c d. digit c = Some d \<Longrightarrow> 0 \<le> d" and "1 \<le> base"
  shows "0 \<le> v \<Longrightarrow> digits_val base digit v cs = Some w \<Longrightarrow> v \<le> w"
proof (induction cs arbitrary: v)
  case (Cons c cs)
  then obtain d where d: "digit c = Some d" "digits_val base digit (v * base + d) cs = Some w"
    by (auto split: option.splits)
  have "v * 1 \<le> v * base" using Cons.prems(1) assms(2) by (intro mult_left_mono) auto
  then have "v \<le> v * base + d" using assms(1) [OF d(1)] by linarith
  then show ?case using Cons.IH [OF _ d(2)] Cons.prems(1) by linarith
qed simp

lemma base_digits_nonempty [simp]: "base_digits b n \<noteq> []"
  by (subst base_digits.simps) simp

lemma base_digits_less: "1 < b \<Longrightarrow> d \<in> set (base_digits b n) \<Longrightarrow> d < b"
proof (induction b n rule: base_digits.induct)
  case (1 b n)
  then show ?case by (subst (asm) (2) base_digits.simps) (auto split: if_splits)
qed

lemma base_digits_length:
  "1 < b \<Longrightarrow> n < b ^ Suc k \<Longrightarrow> length (base_digits b n) \<le> Suc k"
proof (induction k arbitrary: n)
  case (Suc k)
  show ?case
  proof (cases "n < b")
    case False
    have "n div b < b ^ Suc k"
      using Suc.prems by (simp add: less_mult_imp_div_less mult.commute)
    with Suc.IH [OF Suc.prems(1)] False Suc.prems(1) show ?thesis
      by (subst base_digits.simps) simp
  qed (simp add: base_digits.simps)
qed (simp add: base_digits.simps)

lemma num_loop10_digits:
  "num_loop10 n p = map (\<lambda>d. of_nat (d + 0x30)) (base_digits 10 n) @ p"
proof (induction n p rule: num_loop10.induct)
  case (1 n p)
  show ?case
    by (cases "n < 10"; subst num_loop10.simps; subst base_digits.simps)
       (use 1 in \<open>auto simp: Let_def\<close>)
qed

lemma nat_and_15: "n AND 15 = n mod 16" for n :: nat
proof -
  have "n AND mask 4 = take_bit 4 n" by (rule take_bit_eq_mask [symmetric])
  then show ?thesis by (simp add: take_bit_eq_mod mask_eq_exp_minus_1)
qed

lemma num_loop16_digits:
  "num_loop16 hex n p = map (\<lambda>d. hex ! d) (base_digits 16 n) @ p"
proof (induction hex n p rule: num_loop16.induct)
  case (1 hex n p)
  show ?case
    by (cases "n < 16"; subst num_loop16.simps; subst base_digits.simps)
       (use 1 in \<open>auto simp: Let_def nat_and_15 drop_bit_eq_div\<close>)
qed

section \<open>What a parsing loop computes\<close>

locale digit_loop =
  fixes base :: int and maxv :: int and digit :: "u_char \<Rightarrow> int option"
    and loop :: "int \<Rightarrow> u_char list \<Rightarrow> int"
  assumes base_gt: "1 < base"
    and maxv_nonneg: "0 \<le> maxv"
    and digit_range: "digit c = Some d \<Longrightarrow> 0 \<le> d \<and> d < base"
    and loop_Nil: "loop v [] = v"
    and loop_Cons: "0 \<le> v \<Longrightarrow> v \<le> maxv \<Longrightarrow>
      loop v (c # cs) = (case digit c of None \<Rightarrow> -1
        | Some d \<Rightarrow> if v * base + d \<le> maxv then loop (v * base + d) cs else -1)"
begin

lemma digits_val_mono: "0 \<le> v \<Longrightarrow> digits_val base digit v cs = Some w \<Longrightarrow> v \<le> w"
  using digits_val_ge [of digit base v cs w] digit_range base_gt by force

lemma loop_value:
  "0 \<le> v \<Longrightarrow> v \<le> maxv \<Longrightarrow>
     loop v cs = (case digits_val base digit v cs of None \<Rightarrow> -1 | Some w \<Rightarrow> if w \<le> maxv then w else -1)"
proof (induction cs arbitrary: v)
  case Nil
  then show ?case by (simp add: loop_Nil)
next
  case (Cons c cs)
  show ?case
  proof (cases "digit c")
    case (Some d)
    have "0 \<le> v * base" using Cons.prems(1) base_gt by simp
    then have ge: "0 \<le> v * base + d" using digit_range [OF Some] by linarith
    show ?thesis
    proof (cases "v * base + d \<le> maxv")
      case True
      then show ?thesis using Cons.IH [OF ge True] Some by (simp add: loop_Cons Cons.prems)
    next
      case False
      then show ?thesis
        using Some by (auto simp: loop_Cons Cons.prems split: option.splits dest: digits_val_mono [OF ge])
    qed
  qed (simp add: loop_Cons Cons.prems)
qed

lemma loop_from_zero:
  "loop 0 cs = (case digits_val base digit 0 cs of None \<Rightarrow> -1 | Some w \<Rightarrow> if w \<le> maxv then w else -1)"
  by (rule loop_value) (simp_all add: maxv_nonneg)

end

locale digit_printer = digit_loop +
  fixes dig :: "nat \<Rightarrow> u_char"
  assumes digit_dig: "int d < base \<Longrightarrow> digit (dig d) = Some (int d)"
begin

lemma digits_val_printed:
  "digits_val base digit 0 (map dig (base_digits (nat base) n)) = Some (int n)"
proof (induction n rule: less_induct)
  case (less n)
  show ?case
  proof (cases "n < nat base")
    case True
    then show ?thesis using base_gt by (subst base_digits.simps) (simp add: digit_dig)
  next
    case False
    have nb: "1 < nat base" using base_gt by simp
    then have lt: "n div nat base < n" "n mod nat base < nat base"
      using False by (auto intro!: div_less_dividend)
    have split: "int (n div nat base) * base + int (n mod nat base) = int n"
      using base_gt by (metis div_mult_mod_eq of_nat_add of_nat_mult int_nat_eq less_le_not_le
          order_less_le_trans zero_less_one)
    have "base_digits (nat base) n = base_digits (nat base) (n div nat base) @ [n mod nat base]"
      using False nb by (subst base_digits.simps) simp
    moreover have "digit (dig (n mod nat base)) = Some (int (n mod nat base))"
      using lt(2) base_gt by (intro digit_dig) linarith
    ultimately show ?thesis using less.IH [OF lt(1)] split by (simp add: digits_val_append)
  qed
qed

lemma loop_printed: "int n \<le> maxv \<Longrightarrow> loop 0 (map dig (base_digits (nat base) n)) = int n"
  by (simp add: loop_from_zero digits_val_printed)

end

section \<open>The decimal and the hexadecimal loops\<close>

definition dec_digit :: "u_char \<Rightarrow> int option" where
  "dec_digit c = (if 0x30 \<le> c \<and> c \<le> 0x39 then Some (uint c - 0x30) else None)"

definition hex_digit :: "u_char \<Rightarrow> int option" where
  "hex_digit c =
     (if 0x30 \<le> c \<and> c \<le> 0x39 then Some (uint c - 0x30)
      else if 0x61 \<le> c \<and> c \<le> 0x66 then Some (uint c - 0x61 + 10)
      else if 0x41 \<le> c \<and> c \<le> 0x46 then Some (uint c - 0x41 + 10)
      else None)"

lemma dec_digit_range: "dec_digit c = Some d \<Longrightarrow> 0 \<le> d \<and> d < 10"
  by (auto simp: dec_digit_def word_le_def split: if_splits)

lemma hex_digit_range: "hex_digit c = Some d \<Longrightarrow> 0 \<le> d \<and> d < 16"
  by (auto simp: hex_digit_def word_le_def split: if_splits)

lemma dec_digit_of_nat: "d < 10 \<Longrightarrow> dec_digit (of_nat (d + 0x30)) = Some (int d)"
  by (simp add: dec_digit_def word_le_nat_alt unat_of_nat uint_nat del: of_nat_add)

text \<open>The overflow test of the decimal loop is exact.\<close>

lemma cutoff_exact:
  assumes "0 \<le> d" "d < 10"
  shows "(v \<ge> mx div 10 \<and> (v > mx div 10 \<or> d > mx mod 10)) \<longleftrightarrow> \<not> v * 10 + d \<le> (mx :: int)"
  using assms by presburger

lemma i64_digit:
  assumes "0 \<le> v" "0 \<le> d" "0 \<le> (b :: int)" "v * b + d \<le> NGX_MAX_INT_T_VALUE"
  shows "i64 (v * b + d) = v * b + d"
proof -
  have "0 \<le> v * b" using assms(1,3) by simp
  then show ?thesis using assms(2,4) by (intro i64_id) (simp_all add: max_values)
qed

lemma atoi_loop_Cons:
  assumes "0 \<le> v" "mx \<le> NGX_MAX_INT_T_VALUE"
  shows "atoi_loop mx v (c # cs) = (case dec_digit c of None \<Rightarrow> -1
    | Some d \<Rightarrow> if v * 10 + d \<le> mx then atoi_loop mx (v * 10 + d) cs else -1)"
proof (cases "dec_digit c")
  case None
  then show ?thesis by (auto simp: dec_digit_def not_le split: if_splits)
next
  case (Some d)
  then have d: "d = uint c - 0x30" "\<not> (c < 0x30 \<or> c > 0x39)"
    by (auto simp: dec_digit_def split: if_splits)
  note r = dec_digit_range [OF Some]
  have eq: "atoi_loop mx v (c # cs) =
      (if v \<ge> mx div 10 \<and> (v > mx div 10 \<or> d > mx mod 10) then -1 else atoi_loop mx (i64 (v * 10 + d)) cs)"
    unfolding d(1) [symmetric] atoi_loop.simps using d(2) by (simp only: if_False)
  show ?thesis
    unfolding eq using Some r assms i64_digit [of v d 10] by (simp add: cutoff_exact [OF conjunct1 conjunct2])
qed

interpretation atoi: digit_printer 10 NGX_MAX_INT_T_VALUE dec_digit
    "atoi_loop NGX_MAX_INT_T_VALUE" "\<lambda>d. of_nat (d + 0x30)"
proof
  show "dec_digit (of_nat (d + 0x30)) = Some (int d)" if "int d < 10" for d
    using that by (intro dec_digit_of_nat) simp
qed (use dec_digit_range in \<open>simp_all add: atoi_loop_Cons max_nonneg del: atoi_loop.simps(2)\<close>)

lemma hex_digit_fold_case:
  "\<not> (0x30 \<le> c \<and> c \<le> 0x39) \<longrightarrow>
     hex_digit c = (if 0x61 \<le> c OR 0x20 \<and> c OR 0x20 \<le> 0x66 then Some (uint (c OR 0x20) - 0x61 + 10) else None)"
  by (rule byte_all [where c = c]) code_simp

lemma hextoi_loop_Cons:
  assumes "0 \<le> v" "v \<le> NGX_MAX_INT_T_VALUE"
  shows "hextoi_loop v (c # cs) = (case hex_digit c of None \<Rightarrow> -1
    | Some d \<Rightarrow> if v * 16 + d \<le> NGX_MAX_INT_T_VALUE then hextoi_loop (v * 16 + d) cs else -1)"
proof (cases "hex_digit c")
  case None
  then show ?thesis using hex_digit_fold_case [of c] by (auto simp: hex_digit_def Let_def split: if_splits)
next
  case (Some d)
  note r = hex_digit_range [OF Some]
  have eq: "hextoi_loop v (c # cs) =
      (if v > NGX_MAX_INT_T_VALUE div 16 then -1 else hextoi_loop (i64 (v * 16 + d)) cs)"
    using Some hex_digit_fold_case [of c] by (auto simp: hex_digit_def Let_def split: if_splits)
  have "v > NGX_MAX_INT_T_VALUE div 16 \<longleftrightarrow> \<not> v * 16 + d \<le> NGX_MAX_INT_T_VALUE"
    using r by (auto simp: max_values)
  then show ?thesis unfolding eq using Some r assms i64_digit [of v d 16] by simp
qed

lemma hex_digit_dig:
  "d < 16 \<Longrightarrow> hex_digit (hex_lower ! d) = Some (int d) \<and> hex_digit (hex_upper ! d) = Some (int d)"
proof -
  assume "d < 16"
  moreover have "list_all (\<lambda>d. hex_digit (hex_lower ! d) = Some (int d) \<and> hex_digit (hex_upper ! d) = Some (int d)) [0..<16]"
    by code_simp
  ultimately show ?thesis by (simp add: list_all_iff)
qed

interpretation hexl: digit_printer 16 NGX_MAX_INT_T_VALUE hex_digit hextoi_loop "\<lambda>d. hex_lower ! d"
  by unfold_locales
    (use hex_digit_range hex_digit_dig in \<open>simp_all add: hextoi_loop_Cons max_nonneg del: hextoi_loop.simps(2)\<close>)

interpretation hexu: digit_printer 16 NGX_MAX_INT_T_VALUE hex_digit hextoi_loop "\<lambda>d. hex_upper ! d"
  by unfold_locales
    (use hex_digit_range hex_digit_dig in \<open>simp_all add: hextoi_loop_Cons max_nonneg del: hextoi_loop.simps(2)\<close>)

section \<open>What the parsers accept\<close>

definition dec_value :: "u_char list \<Rightarrow> int option" where
  "dec_value line = (if line = [] then None else digits_val 10 dec_digit 0 line)"

definition or_error :: "int \<Rightarrow> int option \<Rightarrow> int" where
  "or_error mx r = (case r of None \<Rightarrow> -1 | Some w \<Rightarrow> if w \<le> mx then w else -1)"

lemma ngx_atoi_value: "ngx_atoi line = or_error NGX_MAX_INT_T_VALUE (dec_value line)"
  by (simp add: ngx_atoi_def dec_value_def or_error_def atoi.loop_from_zero)

lemma dec_value_nonneg: "dec_value line = Some w \<Longrightarrow> 0 \<le> w"
  using atoi.digits_val_mono [of 0 line w] by (simp add: dec_value_def split: if_splits)

lemma atoi_same:
  "ngx_atosz line = ngx_atoi line" "ngx_atoof line = ngx_atoi line" "ngx_atotm line = ngx_atoi line"
  by (simp_all add: ngx_atosz_def ngx_atoof_def ngx_atotm_def ngx_atoi_def max_values)

text \<open>
  C36: the decimal parsers and the hexadecimal parser return the value the digits denote, in
  unbounded arithmetic, when the text is a non-empty string of digits and the value is at most the
  largest signed 64-bit value, and \<^verbatim>\<open>NGX_ERROR\<close> (-1) otherwise: every overflow is rejected, no
  number that fits is.
\<close>

theorem number_parsers_exact:
  "ngx_atoi line = or_error (2 ^ 63 - 1) (dec_value line) \<and>
   ngx_atosz line = or_error (2 ^ 63 - 1) (dec_value line) \<and>
   ngx_atoof line = or_error (2 ^ 63 - 1) (dec_value line) \<and>
   ngx_atotm line = or_error (2 ^ 63 - 1) (dec_value line) \<and>
   ngx_hextoi line =
     or_error (2 ^ 63 - 1) (if line = [] then None else digits_val 16 hex_digit 0 line)"
proof -
  have mx: "2 ^ 63 - 1 = NGX_MAX_INT_T_VALUE" by (simp add: max_values)
  have "ngx_hextoi line =
      or_error NGX_MAX_INT_T_VALUE (if line = [] then None else digits_val 16 hex_digit 0 line)"
    by (simp add: ngx_hextoi_def or_error_def hexl.loop_from_zero)
  then show ?thesis unfolding mx by (simp add: atoi_same ngx_atoi_value)
qed

lemma sprintf_num_text_digits:
  "sprintf_num_text n 0 = map (\<lambda>d. of_nat (d + 0x30)) (base_digits 10 n)"
  "sprintf_num_text n (Suc 0) = map (\<lambda>d. hex_lower ! d) (base_digits 16 n)"
  "sprintf_num_text n 2 = map (\<lambda>d. hex_upper ! d) (base_digits 16 n)"
  by (simp_all add: sprintf_num_text_def num_loop10_digits num_loop16_digits)

text \<open>The temporary buffer of \<^verbatim>\<open>ngx_sprintf_num\<close> holds \<^verbatim>\<open>NGX_INT64_LEN\<close> = 20 bytes.\<close>

lemma sprintf_num_text_length:
  assumes "n < 2 ^ 64" shows "length (sprintf_num_text n hexadecimal) \<le> 20"
proof -
  have "n < 10 ^ Suc 19" "n < 16 ^ Suc 15" using assms by simp_all
  then have "length (base_digits 10 n) \<le> Suc 19" "length (base_digits 16 n) \<le> Suc 15"
    by (intro base_digits_length; simp)+
  then show ?thesis by (simp add: sprintf_num_text_def num_loop10_digits num_loop16_digits)
qed

lemma sprintf_num_text_nonempty [simp]: "sprintf_num_text n hexadecimal \<noteq> []"
  by (simp add: sprintf_num_text_def num_loop10_digits num_loop16_digits)

lemma digits_val_zeros:
  assumes "digit 0x30 = Some 0"
  shows "digits_val base digit 0 (replicate k 0x30 @ cs) = digits_val base digit 0 cs"
  using assms by (induction k) simp_all

lemma sprintf_num_full:
  assumes "n < 2 ^ 64" "20 \<le> room" "width \<le> room"
  shows "ngx_sprintf_num room n zero h width =
    replicate (width - length (sprintf_num_text n h)) zero @ sprintf_num_text n h"
  using assms sprintf_num_text_length [OF assms(1), of h] by (simp add: ngx_sprintf_num_def Let_def)

text \<open>
  A number printed by \<^verbatim>\<open>ngx_sprintf_num\<close>, in decimal or in either kind of hexadecimal,
  padded with zeros to any width, is read back by \<^verbatim>\<open>ngx_atoi\<close> or \<^verbatim>\<open>ngx_hextoi\<close> as the same
  number, and its digits fit in the 20 bytes of the temporary buffer.
\<close>

theorem sprintf_num_roundtrip:
  assumes "n < 2 ^ 63" "20 \<le> room" "width \<le> room"
  shows "ngx_atoi (ngx_sprintf_num room n 0x30 0 width) = int n \<and>
    ngx_hextoi (ngx_sprintf_num room n 0x30 1 width) = int n \<and>
    ngx_hextoi (ngx_sprintf_num room n 0x30 2 width) = int n \<and>
    length (sprintf_num_text n h) \<le> 20"
proof -
  have n: "n < 2 ^ 64" and m: "int n \<le> NGX_MAX_INT_T_VALUE" using assms(1) by (simp_all add: max_values)
  have z: "dec_digit 0x30 = Some 0" "hex_digit 0x30 = Some 0" by code_simp+
  note full = sprintf_num_full [OF n assms(2,3)]
  have "ngx_atoi (ngx_sprintf_num room n 0x30 0 width) = int n"
    using m atoi.digits_val_printed [of n]
    by (simp add: full ngx_atoi_value or_error_def dec_value_def digits_val_zeros z sprintf_num_text_digits)
  moreover have "ngx_hextoi (ngx_sprintf_num room n 0x30 1 width) = int n"
    using m hexl.digits_val_printed [of n]
    by (simp add: full ngx_hextoi_def hexl.loop_from_zero digits_val_zeros z sprintf_num_text_digits)
  moreover have "ngx_hextoi (ngx_sprintf_num room n 0x30 2 width) = int n"
    using m hexu.digits_val_printed [of n]
    by (simp add: full ngx_hextoi_def hexl.loop_from_zero digits_val_zeros z sprintf_num_text_digits)
  ultimately show ?thesis using sprintf_num_text_length [OF n] by blast
qed

theorem sprintf_num_roundtrip_witness:
  "ngx_sprintf_num 32 175 0x30 1 8 = bytes ''000000af'' \<and> ngx_hextoi (bytes ''000000af'') = 175 \<and>
   ngx_atoi (ngx_sprintf_num 32 175 0x30 0 8) = 175"
proof -
  have "ngx_sprintf_num 32 175 0x30 1 8 = bytes ''000000af''" by code_simp
  then show ?thesis using sprintf_num_roundtrip [of 175 32 8 0] by simp
qed

section \<open>Fixed point numbers\<close>

definition all_digits :: "u_char list \<Rightarrow> bool" where
  "all_digits cs = list_all (\<lambda>c. 0x30 \<le> c \<and> c \<le> 0x39) cs"

lemma all_digits_Cons [simp]:
  "all_digits (c # cs) \<longleftrightarrow> (\<exists>d. dec_digit c = Some d) \<and> all_digits cs"
  "all_digits []"
  by (auto simp: all_digits_def dec_digit_def)

lemma digits_val_all_digits: "all_digits cs \<Longrightarrow> \<exists>w. digits_val 10 dec_digit v cs = Some w"
  by (induction cs arbitrary: v) auto

lemma dot_not_digit: "dec_digit 0x2e = None"
  by code_simp

lemma atofp_digit:
  assumes "dec_digit c = Some d" "0 \<le> v" "0 < point"
  shows "atofp_loop v point dot (c # cs) =
    (if v * 10 + d \<le> NGX_MAX_INT_T_VALUE
     then atofp_loop (v * 10 + d) (if dot then point - 1 else point) dot cs else None)"
proof -
  have d: "d = uint c - 0x30" "\<not> (c < 0x30 \<or> c > 0x39)" "c \<noteq> 0x2e"
    using assms(1) dot_not_digit by (auto simp: dec_digit_def split: if_splits)
  have "atofp_loop v point dot (c # cs) =
    (if v \<ge> NGX_MAX_INT_T_VALUE div 10 \<and> (v > NGX_MAX_INT_T_VALUE div 10 \<or> d > NGX_MAX_INT_T_VALUE mod 10)
     then None else atofp_loop (i64 (v * 10 + d)) (if dot then point - 1 else point) dot cs)"
    unfolding d(1) [symmetric] atofp_loop.simps using d(2,3) assms(3) by (simp only: if_False) simp
  then show ?thesis
    using dec_digit_range [OF assms(1)] assms(2) i64_digit [of v d 10]
    by (simp add: cutoff_exact [OF conjunct1 conjunct2])
qed

text \<open>The digits before the dot, and those after it.\<close>

lemma atofp_loop_digits:
  assumes "all_digits cs" "0 \<le> v" "v \<le> NGX_MAX_INT_T_VALUE"
    and "if dot then length cs \<le> point \<and> (rest = []) else 0 < point"
  shows "atofp_loop v point dot (cs @ rest) =
    (case digits_val 10 dec_digit v cs of None \<Rightarrow> None
     | Some w \<Rightarrow> if w \<le> NGX_MAX_INT_T_VALUE
         then atofp_loop w (if dot then point - length cs else point) dot rest else None)"
  using assms
proof (induction cs arbitrary: v point)
  case (Cons c cs)
  then obtain d where d: "dec_digit c = Some d" and cs: "all_digits cs" by auto
  have pt: "0 < point" using Cons.prems(4) by (auto split: if_splits)
  have ge: "0 \<le> v * 10 + d" using dec_digit_range [OF d] Cons.prems(2) by simp
  show ?case
  proof (cases "v * 10 + d \<le> NGX_MAX_INT_T_VALUE")
    case True
    have "if dot then length cs \<le> (if dot then point - 1 else point) \<and> rest = []
          else 0 < (if dot then point - 1 else point)"
      using Cons.prems(4) by (auto split: if_splits)
    from Cons.IH [OF cs ge True this] show ?thesis
      using d True by (simp add: atofp_digit [OF d Cons.prems(2) pt] del: atofp_loop.simps split: option.splits)
  next
    case False
    obtain w where w: "digits_val 10 dec_digit (v * 10 + d) cs = Some w"
      using digits_val_all_digits [OF cs] by blast
    then have "\<not> w \<le> NGX_MAX_INT_T_VALUE" using atoi.digits_val_mono [OF ge w] False by simp
    then show ?thesis using d w False by (simp add: atofp_digit [OF d Cons.prems(2) pt] del: atofp_loop.simps)
  qed
qed simp

lemma atofp_scale_value:
  "0 \<le> v \<Longrightarrow> v \<le> NGX_MAX_INT_T_VALUE \<Longrightarrow>
     atofp_scale k v = (if v * 10 ^ k \<le> NGX_MAX_INT_T_VALUE then v * 10 ^ k else -1)"
proof (induction k arbitrary: v)
  case (Suc k)
  show ?case
  proof (cases "v > NGX_MAX_INT_T_VALUE div 10")
    case True
    have "NGX_MAX_INT_T_VALUE < v * 10 * 1" using True by (simp add: max_values)
    also have "\<dots> \<le> v * 10 * 10 ^ k" using Suc.prems(1) by (intro mult_left_mono) auto
    finally show ?thesis using True by (simp add: mult.assoc)
  next
    case False
    then have le: "v * 10 \<le> NGX_MAX_INT_T_VALUE" by (simp add: max_values)
    then show ?thesis using Suc.IH [of "v * 10"] Suc.prems(1) False i64_digit [of v 0 10] by (simp add: mult.assoc)
  qed
qed simp

text \<open>
  \<^verbatim>\<open>ngx_atofp\<close> on digits, a dot and at most \<open>point\<close> more digits returns the number scaled by
  ten to the power \<open>point\<close>, exactly, or \<^verbatim>\<open>NGX_ERROR\<close> when that exceeds the 64-bit range.
\<close>

theorem atofp_exact:
  assumes "all_digits whole" "all_digits frac" "length frac \<le> point" "0 < point"
    and "digits_val 10 dec_digit 0 (whole @ frac) = Some v"
  shows "ngx_atofp (whole @ 0x2e # frac) point =
    (if v * 10 ^ (point - length frac) \<le> 2 ^ 63 - 1 then v * 10 ^ (point - length frac) else -1)"
proof -
  obtain w where w: "digits_val 10 dec_digit 0 whole = Some w"
    using digits_val_all_digits [OF assms(1)] by blast
  then have v: "digits_val 10 dec_digit w frac = Some v" using assms(5) by (simp add: digits_val_append)
  have w0: "0 \<le> w" using atoi.digits_val_mono [OF _ w] by simp
  have wv: "w \<le> v" using atoi.digits_val_mono [OF w0 v] .
  have mx: "2 ^ 63 - 1 = NGX_MAX_INT_T_VALUE" by (simp add: max_values)
  have scale: "v * 1 \<le> v * 10 ^ (point - length frac)" using w0 wv by (intro mult_left_mono) auto
  have "atofp_loop 0 point False (whole @ 0x2e # frac) =
    (if v \<le> NGX_MAX_INT_T_VALUE then Some (v, point - length frac) else None)"
    using atofp_loop_digits [OF assms(1), of 0 False point "0x2e # frac"]
      atofp_loop_digits [OF assms(2), of w True point "[]"] assms(3,4) w v w0 wv max_nonneg by simp
  then show ?thesis
    using atofp_scale_value [of v "point - length frac"] w0 wv scale
    unfolding mx by (simp add: ngx_atofp_def)
qed

theorem atofp_exact_witness:
  "ngx_atofp (bytes ''10.5'') 2 = 1050 \<and>
   digits_val 10 dec_digit 0 (bytes ''10'' @ bytes ''5'') = Some 105"
proof -
  have "all_digits (bytes ''10'')" "all_digits (bytes ''5'')"
    "digits_val 10 dec_digit 0 (bytes ''10'' @ bytes ''5'') = Some 105"
    "bytes ''10.5'' = bytes ''10'' @ 0x2e # bytes ''5''"
    unfolding all_digits_def by code_simp+
  then show ?thesis using atofp_exact [of "bytes ''10''" "bytes ''5''" 2 105] by simp
qed

end
