(* ===== verification/Ngx_Parse_Units.thy ===== *)
theory Ngx_Parse_Units
  imports Ngx_Number
begin

text \<open>
  Sizes, offsets and times of the configuration (src/nginx/src/core/ngx_parse.c). A parser takes the
  bytes of the argument and returns the number of bytes, seconds or milliseconds, or \<open>-1\<close> for
  \<^verbatim>\<open>NGX_ERROR\<close>. The pointer \<^verbatim>\<open>p\<close> of \<^verbatim>\<open>ngx_parse_time\<close> is the list of the bytes left.
\<close>

section \<open>Sizes and offsets\<close>

definition parse_scaled :: "(u_char list \<Rightarrow> int) \<Rightarrow> u_char list \<Rightarrow> int \<Rightarrow> int \<Rightarrow> int" where
  "parse_scaled ato line mx scale =
     (let size = ato line in if size = -1 \<or> size > mx then -1 else i64 (size * scale))"

definition ngx_parse_size :: "u_char list \<Rightarrow> int" where
  "ngx_parse_size line =
     (if line = [] then -1
      else let unit = last line
           in if unit = 0x4b \<or> unit = 0x6b
              then parse_scaled ngx_atosz (butlast line) (NGX_MAX_SIZE_T_VALUE div 1024) 1024
              else if unit = 0x4d \<or> unit = 0x6d
              then parse_scaled ngx_atosz (butlast line) (NGX_MAX_SIZE_T_VALUE div (1024 * 1024)) (1024 * 1024)
              else parse_scaled ngx_atosz line NGX_MAX_SIZE_T_VALUE 1)"

definition ngx_parse_offset :: "u_char list \<Rightarrow> int" where
  "ngx_parse_offset line =
     (if line = [] then -1
      else let unit = last line
           in if unit = 0x4b \<or> unit = 0x6b
              then parse_scaled ngx_atoof (butlast line) (NGX_MAX_OFF_T_VALUE div 1024) 1024
              else if unit = 0x4d \<or> unit = 0x6d
              then parse_scaled ngx_atoof (butlast line) (NGX_MAX_OFF_T_VALUE div (1024 * 1024)) (1024 * 1024)
              else if unit = 0x47 \<or> unit = 0x67
              then parse_scaled ngx_atoof (butlast line)
                (NGX_MAX_OFF_T_VALUE div (1024 * 1024 * 1024)) (1024 * 1024 * 1024)
              else parse_scaled ngx_atoof line NGX_MAX_OFF_T_VALUE 1)"

section \<open>Times\<close>

text \<open>The enumeration of the steps; the code compares them as integers.\<close>

abbreviation (input) st_start :: nat where "st_start \<equiv> 0"
abbreviation (input) st_year :: nat where "st_year \<equiv> 1"
abbreviation (input) st_month :: nat where "st_month \<equiv> 2"
abbreviation (input) st_week :: nat where "st_week \<equiv> 3"
abbreviation (input) st_day :: nat where "st_day \<equiv> 4"
abbreviation (input) st_hour :: nat where "st_hour \<equiv> 5"
abbreviation (input) st_min :: nat where "st_min \<equiv> 6"
abbreviation (input) st_sec :: nat where "st_sec \<equiv> 7"
abbreviation (input) st_msec :: nat where "st_msec \<equiv> 8"
abbreviation (input) st_last :: nat where "st_last \<equiv> 9"

text \<open>The switch on the unit: the new step, the limit, the scale and the bytes after the unit, or
  none for \<^verbatim>\<open>NGX_ERROR\<close>.\<close>

definition time_unit :: "bool \<Rightarrow> nat \<Rightarrow> u_char \<Rightarrow> u_char list \<Rightarrow> (nat \<times> int \<times> int \<times> u_char list) option" where
  "time_unit is_sec step c p =
     (if c = 0x79 then
        (if step > st_start then None
         else Some (st_year, NGX_MAX_INT_T_VALUE div (60 * 60 * 24 * 365), 60 * 60 * 24 * 365, p))
      else if c = 0x4d then
        (if step \<ge> st_month then None
         else Some (st_month, NGX_MAX_INT_T_VALUE div (60 * 60 * 24 * 30), 60 * 60 * 24 * 30, p))
      else if c = 0x77 then
        (if step \<ge> st_week then None
         else Some (st_week, NGX_MAX_INT_T_VALUE div (60 * 60 * 24 * 7), 60 * 60 * 24 * 7, p))
      else if c = 0x64 then
        (if step \<ge> st_day then None
         else Some (st_day, NGX_MAX_INT_T_VALUE div (60 * 60 * 24), 60 * 60 * 24, p))
      else if c = 0x68 then
        (if step \<ge> st_hour then None
         else Some (st_hour, NGX_MAX_INT_T_VALUE div (60 * 60), 60 * 60, p))
      else if c = 0x6d then
        (if p \<noteq> [] \<and> hd p = 0x73 then
           (if is_sec \<or> step \<ge> st_msec then None
            else Some (st_msec, NGX_MAX_INT_T_VALUE, 1, tl p))
         else if step \<ge> st_min then None
         else Some (st_min, NGX_MAX_INT_T_VALUE div 60, 60, p))
      else if c = 0x73 then
        (if step \<ge> st_sec then None else Some (st_sec, NGX_MAX_INT_T_VALUE, 1, p))
      else if c = 0x20 then
        (if step \<ge> st_sec then None else Some (st_last, NGX_MAX_INT_T_VALUE, 1, p))
      else None)"

lemma time_unit_length: "time_unit is_sec step c p = Some (s, mx, scale, p') \<Longrightarrow> length p' \<le> length p"
  by (auto simp: time_unit_def split: if_splits)

function parse_time_loop ::
  "bool \<Rightarrow> nat \<Rightarrow> bool \<Rightarrow> int \<Rightarrow> int \<Rightarrow> u_char list \<Rightarrow> (bool \<times> int \<times> int) option" where
  "parse_time_loop is_sec step valid value tot [] = Some (valid, value, tot)"
| "parse_time_loop is_sec step valid value tot (c # p) =
     (if c \<ge> 0x30 \<and> c \<le> 0x39 then
        (if value \<ge> NGX_MAX_INT_T_VALUE div 10 \<and>
            (value > NGX_MAX_INT_T_VALUE div 10 \<or> uint c - 0x30 > NGX_MAX_INT_T_VALUE mod 10)
         then None
         else parse_time_loop is_sec step True (i64 (value * 10 + (uint c - 0x30))) tot p)
      else case time_unit is_sec step c p of None \<Rightarrow> None
        | Some (step', mx, scale, p') \<Rightarrow>
            let scaled = (step' \<noteq> st_msec \<and> \<not> is_sec);
                scale' = (if scaled then i64 (scale * 1000) else scale);
                mx' = (if scaled then mx div 1000 else mx)
            in if value > mx' then None
               else let value' = i64 (value * scale')
                    in if tot > i64 (NGX_MAX_INT_T_VALUE - value') then None
                       else parse_time_loop is_sec step' valid 0 (i64 (tot + value'))
                              (dropWhile (\<lambda>c. c = 0x20) p'))"
  by pat_completeness auto
termination
proof (relation "measure (\<lambda>(is_sec, step, valid, value, tot, p). length p)", goal_cases)
  case (3 is_sec step valid v tot c p x s y mx z scale p')
  then have "length p' \<le> length p" using time_unit_length by metis
  then show ?case using length_dropWhile_le [of "\<lambda>c. c = 0x20" p'] by simp
qed auto

definition ngx_parse_time :: "u_char list \<Rightarrow> bool \<Rightarrow> int" where
  "ngx_parse_time line is_sec =
     (case parse_time_loop is_sec (if is_sec then st_start else st_month) False 0 0 line of
        None \<Rightarrow> -1
      | Some (valid, value, tot) \<Rightarrow>
          if \<not> valid then -1
          else if \<not> is_sec \<and> value > NGX_MAX_INT_T_VALUE div 1000 then -1
          else let value = (if is_sec then value else i64 (value * 1000))
               in if tot > i64 (NGX_MAX_INT_T_VALUE - value) then -1 else i64 (tot + value))"

section \<open>Sizes\<close>

lemma le_div_int_iff: "0 < k \<Longrightarrow> n \<le> m div k \<longleftrightarrow> n * k \<le> (m :: int)"
proof
  assume k: "0 < k" and "n \<le> m div k"
  then have "n * k \<le> m div k * k" by simp
  also have "\<dots> \<le> m" using k div_mult_mod_eq [of m k] pos_mod_sign [of k m] by linarith
  finally show "n * k \<le> m" .
next
  assume k: "0 < k" and "n * k \<le> m"
  then show "n \<le> m div k" using zdiv_mono1 [of "n * k" m k] by simp
qed

lemma i64_nonneg: "0 \<le> x \<Longrightarrow> x \<le> NGX_MAX_INT_T_VALUE \<Longrightarrow> i64 x = x"
  by (rule i64_id) (simp_all add: max_values)

lemma parse_scaled_exact:
  assumes "0 < k"
  shows "parse_scaled ngx_atoi line (NGX_MAX_INT_T_VALUE div k) k =
    or_error NGX_MAX_INT_T_VALUE (map_option (\<lambda>n. n * k) (dec_value line))"
proof (cases "dec_value line")
  case (Some n)
  have n: "0 \<le> n" using dec_value_nonneg [OF Some] .
  have "n * 1 \<le> n * k" using n assms by (intro mult_left_mono) auto
  then have le: "n \<le> n * k" by simp
  show ?thesis
    using n assms le i64_nonneg [of "n * k"]
    by (auto simp: parse_scaled_def ngx_atoi_value or_error_def Some Let_def not_less
        le_div_int_iff [OF assms] not_le [symmetric])
qed (simp add: parse_scaled_def ngx_atoi_value or_error_def)

text \<open>The multiplier of a suffix and the digits before it.\<close>

definition size_suffix :: "bool \<Rightarrow> u_char list \<Rightarrow> int \<times> u_char list" where
  "size_suffix giga line =
     (if last line \<in> {0x4b, 0x6b} then (2 ^ 10, butlast line)
      else if last line \<in> {0x4d, 0x6d} then (2 ^ 20, butlast line)
      else if giga \<and> last line \<in> {0x47, 0x67} then (2 ^ 30, butlast line)
      else (1, line))"

text \<open>
  A size or an offset is the number before its suffix (K, M, and for offsets G, in either case)
  times 2 to the power 10, 20 or 30, when that product is in the range of the type, and
  \<^verbatim>\<open>NGX_ERROR\<close> otherwise; the multiplication never overflows.
\<close>

theorem parse_size_exact:
  "ngx_parse_size line = (case size_suffix False line of (k, digits) \<Rightarrow>
     or_error (2 ^ 63 - 1) (map_option (\<lambda>n. n * k) (dec_value digits))) \<and>
   ngx_parse_offset line = (case size_suffix True line of (k, digits) \<Rightarrow>
     or_error (2 ^ 63 - 1) (map_option (\<lambda>n. n * k) (dec_value digits)))"
proof (cases "line = []")
  case True
  have "dec_value [] = None" by (simp add: dec_value_def)
  then show ?thesis using True
    by (auto simp: ngx_parse_size_def ngx_parse_offset_def size_suffix_def or_error_def)
next
  case False
  have mx: "2 ^ 63 - 1 = NGX_MAX_INT_T_VALUE"
    "NGX_MAX_SIZE_T_VALUE = NGX_MAX_INT_T_VALUE" "NGX_MAX_OFF_T_VALUE = NGX_MAX_INT_T_VALUE"
    by (simp_all add: max_values)
  have at: "ngx_atosz = ngx_atoi" "ngx_atoof = ngx_atoi" by (auto simp: atoi_same)
  have one: "parse_scaled ngx_atoi l NGX_MAX_INT_T_VALUE 1 =
      or_error NGX_MAX_INT_T_VALUE (map_option (\<lambda>n. n * 1) (dec_value l))" for l
    using parse_scaled_exact [of 1 l] by simp
  show ?thesis
    unfolding mx at ngx_parse_size_def ngx_parse_offset_def size_suffix_def
    using False parse_scaled_exact [of "2 ^ 10"] parse_scaled_exact [of "2 ^ 20"]
      parse_scaled_exact [of "2 ^ 30"] one
    by (simp add: Let_def)
qed

section \<open>Times\<close>

datatype tunit = TU_year | TU_month | TU_week | TU_day | TU_hour | TU_min | TU_sec | TU_msec

fun tu_step :: "tunit \<Rightarrow> nat" where
  "tu_step TU_year = 1" | "tu_step TU_month = 2" | "tu_step TU_week = 3" | "tu_step TU_day = 4"
| "tu_step TU_hour = 5" | "tu_step TU_min = 6" | "tu_step TU_sec = 7" | "tu_step TU_msec = 8"

fun tu_seconds :: "tunit \<Rightarrow> int" where
  "tu_seconds TU_year = 31536000" | "tu_seconds TU_month = 2592000" | "tu_seconds TU_week = 604800"
| "tu_seconds TU_day = 86400" | "tu_seconds TU_hour = 3600" | "tu_seconds TU_min = 60"
| "tu_seconds TU_sec = 1" | "tu_seconds TU_msec = 1"

fun tu_text :: "tunit \<Rightarrow> string" where
  "tu_text TU_year = ''y''" | "tu_text TU_month = ''M''" | "tu_text TU_week = ''w''"
| "tu_text TU_day = ''d''" | "tu_text TU_hour = ''h''" | "tu_text TU_min = ''m''"
| "tu_text TU_sec = ''s''" | "tu_text TU_msec = ''ms''"

definition tu_scale :: "bool \<Rightarrow> tunit \<Rightarrow> int" where
  "tu_scale is_sec u = (if is_sec \<or> u = TU_msec then tu_seconds u else tu_seconds u * 1000)"

text \<open>A time is a list of numbers with their units, each followed by any number of spaces.\<close>

type_synonym time_item = "nat \<times> tunit \<times> nat"

fun item_text :: "time_item \<Rightarrow> u_char list" where
  "item_text (n, u, k) = sprintf_num_text n 0 @ bytes (tu_text u) @ replicate k 0x20"

fun item_value :: "bool \<Rightarrow> time_item \<Rightarrow> int" where
  "item_value is_sec (n, u, k) = int n * tu_scale is_sec u"

text \<open>The units come in descending order; years and months only where the time is in seconds,
  milliseconds only where it is not.\<close>

fun items_ok :: "bool \<Rightarrow> nat \<Rightarrow> time_item list \<Rightarrow> bool" where
  "items_ok is_sec step [] = True"
| "items_ok is_sec step ((n, u, k) # items) =
     (step < tu_step u \<and> (u = TU_msec \<longrightarrow> \<not> is_sec) \<and> items_ok is_sec (tu_step u) items)"

lemma parse_time_digits:
  "digits_val 10 dec_digit v ds = Some w \<Longrightarrow> 0 \<le> v \<Longrightarrow> v \<le> NGX_MAX_INT_T_VALUE \<Longrightarrow>
     parse_time_loop is_sec step valid v tot (ds @ rest) =
     (if w \<le> NGX_MAX_INT_T_VALUE then parse_time_loop is_sec step (valid \<or> ds \<noteq> []) w tot rest else None)"
proof (induction ds arbitrary: v valid)
  case (Cons c ds)
  then obtain d where d: "dec_digit c = Some d" and w: "digits_val 10 dec_digit (v * 10 + d) ds = Some w"
    by (auto split: option.splits)
  have c: "c \<ge> 0x30 \<and> c \<le> 0x39" "d = uint c - 0x30" using d by (auto simp: dec_digit_def split: if_splits)
  have ge: "0 \<le> v * 10 + d" using dec_digit_range [OF d] Cons.prems(2) by simp
  have eq: "parse_time_loop is_sec step valid v tot ((c # ds) @ rest) =
    (if v * 10 + d \<le> NGX_MAX_INT_T_VALUE then parse_time_loop is_sec step True (v * 10 + d) tot (ds @ rest) else None)"
    unfolding append_Cons parse_time_loop.simps c(2) [symmetric]
    using c(1) dec_digit_range [OF d] i64_nonneg [OF ge]
    by (simp only: cutoff_exact if_True) simp
  show ?case
    using Cons.IH [OF w ge, of True] atoi.digits_val_mono [OF ge w] eq by (simp del: parse_time_loop.simps)
qed simp

lemma parse_time_unit:
  assumes u: "time_unit is_sec step c p = Some (s, NGX_MAX_INT_T_VALUE div k, k, p')"
    and c: "dec_digit c = None" and k: "0 < k" "k \<le> 2 ^ 40"
    and v: "0 \<le> v" and tot: "0 \<le> tot" "tot \<le> NGX_MAX_INT_T_VALUE"
    and sc: "sc = (if s \<noteq> st_msec \<and> \<not> is_sec then k * 1000 else k)"
  shows "parse_time_loop is_sec step valid v tot (c # p) =
    (if tot + v * sc \<le> NGX_MAX_INT_T_VALUE
     then parse_time_loop is_sec s valid 0 (tot + v * sc) (dropWhile (\<lambda>c. c = 0x20) p') else None)"
proof -
  have c': "\<not> (c \<ge> 0x30 \<and> c \<le> 0x39)" using c by (auto simp: dec_digit_def split: if_splits)
  have "i64 (k * 1000) = k * 1000" using k by (intro i64_nonneg) (simp_all add: max_values)
  then have scale: "(if s \<noteq> st_msec \<and> \<not> is_sec then i64 (k * 1000) else k) = sc" using sc by simp
  have mx: "(if s \<noteq> st_msec \<and> \<not> is_sec then NGX_MAX_INT_T_VALUE div k div 1000 else NGX_MAX_INT_T_VALUE div k)
      = NGX_MAX_INT_T_VALUE div sc"
    using sc k by (simp add: zdiv_zmult2_eq)
  have sc0: "0 < sc" using sc k by simp
  have eq: "parse_time_loop is_sec step valid v tot (c # p) =
     (if v > NGX_MAX_INT_T_VALUE div sc then None
      else if tot > i64 (NGX_MAX_INT_T_VALUE - i64 (v * sc)) then None
      else parse_time_loop is_sec s valid 0 (i64 (tot + i64 (v * sc))) (dropWhile (\<lambda>c. c = 0x20) p'))"
    unfolding parse_time_loop.simps Let_def using c' by (simp only: u option.case prod.case if_False scale mx)
  have vs0: "0 \<le> v * sc" using v sc0 by simp
  show ?thesis
  proof (cases "v * sc \<le> NGX_MAX_INT_T_VALUE")
    case True
    then have "i64 (v * sc) = v * sc" "i64 (NGX_MAX_INT_T_VALUE - v * sc) = NGX_MAX_INT_T_VALUE - v * sc"
      using vs0 by (auto intro!: i64_nonneg)
    moreover have "tot + v * sc \<le> NGX_MAX_INT_T_VALUE \<Longrightarrow> i64 (tot + v * sc) = tot + v * sc"
      using vs0 tot by (intro i64_nonneg) auto
    moreover have "\<not> v > NGX_MAX_INT_T_VALUE div sc" using True by (simp add: not_less le_div_int_iff [OF sc0])
    ultimately show ?thesis unfolding eq by (simp add: algebra_simps not_less [symmetric])
  next
    case False
    then have "v > NGX_MAX_INT_T_VALUE div sc" using le_div_int_iff [OF sc0, of v NGX_MAX_INT_T_VALUE] by simp
    then show ?thesis unfolding eq using False tot(1) by simp
  qed
qed

lemma time_unit_tu:
  assumes "step < tu_step u" "u = TU_msec \<longrightarrow> \<not> is_sec" "rest = [] \<or> hd rest \<noteq> 0x73"
  shows "time_unit is_sec step (hd (bytes (tu_text u))) (tl (bytes (tu_text u)) @ rest) =
    Some (tu_step u, NGX_MAX_INT_T_VALUE div tu_seconds u, tu_seconds u, rest)"
  using assms by (cases u) (auto simp: bytes_Cons time_unit_def)

lemma tu_props:
  "0 < tu_seconds u" "tu_seconds u \<le> 2 ^ 40" "dec_digit (hd (bytes (tu_text u))) = None" "tu_text u \<noteq> []"
  "(if tu_step u \<noteq> st_msec \<and> \<not> is_sec then tu_seconds u * 1000 else tu_seconds u) = tu_scale is_sec u"
  by (cases u; simp add: bytes_Cons dec_digit_def tu_scale_def)+

lemma tu_scale_pos: "1 \<le> tu_scale is_sec u"
  using tu_props(1) [of u] by (simp add: tu_scale_def)

lemma parse_time_item:
  assumes "step < tu_step u" "u = TU_msec \<longrightarrow> \<not> is_sec" "0 \<le> tot" "tot \<le> NGX_MAX_INT_T_VALUE"
    and rest: "rest = [] \<or> (\<exists>d. dec_digit (hd rest) = Some d)"
  shows "parse_time_loop is_sec step valid 0 tot (item_text (n, u, k) @ rest) =
    (if tot + item_value is_sec (n, u, k) \<le> NGX_MAX_INT_T_VALUE
     then parse_time_loop is_sec (tu_step u) True 0 (tot + item_value is_sec (n, u, k)) rest else None)"
proof -
  let ?t = "bytes (tu_text u)"
  let ?r = "replicate k 0x20 @ rest"
  have nd: "dec_digit 0x73 = None" "dec_digit 0x20 = None" by code_simp+
  have hd_rest: "rest = [] \<or> (hd rest \<noteq> 0x73 \<and> hd rest \<noteq> 0x20)"
    using rest nd by (cases rest) auto
  then have r: "?r = [] \<or> hd ?r \<noteq> 0x73" by (cases k) auto
  have drop: "dropWhile (\<lambda>c. c = 0x20) ?r = rest"
    using hd_rest by (induction k) (auto simp: dropWhile_eq_self_iff)
  have t: "?t = hd ?t # tl ?t" using tu_props(4) [of u] by (cases "tu_text u") (auto simp: bytes_Cons)
  have dv: "digits_val 10 dec_digit 0 (sprintf_num_text n 0) = Some (int n)"
    using atoi.digits_val_printed [of n] by (simp add: sprintf_num_text_digits)
  have pos: "int n * 1 \<le> int n * tu_scale is_sec u" using tu_scale_pos by (intro mult_left_mono) auto
  have step: "parse_time_loop is_sec step True (int n) tot (hd ?t # (tl ?t @ ?r)) =
    (if tot + int n * tu_scale is_sec u \<le> NGX_MAX_INT_T_VALUE
     then parse_time_loop is_sec (tu_step u) True 0 (tot + int n * tu_scale is_sec u) rest else None)"
    using parse_time_unit [OF time_unit_tu [OF assms(1,2) r] tu_props(3) tu_props(1,2) of_nat_0_le_iff [of n] assms(3,4)
        tu_props(5) [symmetric]] unfolding drop by blast
  have eq: "item_text (n, u, k) @ rest = sprintf_num_text n 0 @ hd ?t # (tl ?t @ ?r)"
    using arg_cong [OF t, of "\<lambda>x. sprintf_num_text n 0 @ x @ ?r"] by simp
  have valid: "(valid \<or> sprintf_num_text n 0 \<noteq> []) = True" by simp
  show ?thesis
    unfolding eq parse_time_digits [OF dv order_refl max_nonneg] valid step item_value.simps
    using pos assms(3) by (simp del: parse_time_loop.simps)
qed

lemma item_value_nonneg: "0 \<le> item_value is_sec i"
  using tu_scale_pos [of is_sec "fst (snd i)"] by (cases i) simp

lemma items_value_nonneg: "0 \<le> sum_list (map (item_value is_sec) items)"
  by (rule sum_list_nonneg) (auto simp: item_value_nonneg simp del: item_value.simps)

lemma item_text_starts: "item_text i \<noteq> [] \<and> (\<exists>d. dec_digit (hd (item_text i @ rest)) = Some d)"
proof (cases i)
  case (fields n u k)
  obtain d ds where d: "base_digits 10 n = d # ds" by (cases "base_digits 10 n") auto
  then have "d < 10" using base_digits_less [of 10 d n] by simp
  then show ?thesis using fields d dec_digit_of_nat [of d] by (simp add: sprintf_num_text_digits)
qed

lemma parse_time_items:
  assumes "items_ok is_sec step items" "0 \<le> tot" "tot \<le> NGX_MAX_INT_T_VALUE"
    and rest: "rest = [] \<or> (\<exists>d. dec_digit (hd rest) = Some d)"
  shows "\<exists>s. parse_time_loop is_sec step valid 0 tot (concat (map item_text items) @ rest) =
    (if tot + sum_list (map (item_value is_sec) items) \<le> NGX_MAX_INT_T_VALUE
     then parse_time_loop is_sec s (valid \<or> items \<noteq> []) 0 (tot + sum_list (map (item_value is_sec) items)) rest
     else None)"
  using assms(1-3)
proof (induction items arbitrary: step valid tot)
  case (Cons i items)
  obtain n u k where i: "i = (n, u, k)" by (cases i)
  let ?rest = "concat (map item_text items) @ rest"
  have starts: "?rest = [] \<or> (\<exists>d. dec_digit (hd ?rest) = Some d)"
    using rest item_text_starts by (cases items) auto
  have ok: "step < tu_step u" "u = TU_msec \<longrightarrow> \<not> is_sec" "items_ok is_sec (tu_step u) items"
    using Cons.prems(1) i by auto
  have item: "parse_time_loop is_sec step valid 0 tot (item_text i @ ?rest) =
    (if tot + item_value is_sec i \<le> NGX_MAX_INT_T_VALUE
     then parse_time_loop is_sec (tu_step u) True 0 (tot + item_value is_sec i) ?rest else None)"
    unfolding i by (rule parse_time_item [OF ok(1,2) Cons.prems(2,3) starts])
  have nn: "0 \<le> item_value is_sec i" "0 \<le> sum_list (map (item_value is_sec) items)"
    by (rule item_value_nonneg, rule items_value_nonneg)
  show ?case
  proof (cases "tot + item_value is_sec i \<le> NGX_MAX_INT_T_VALUE")
    case True
    have ge: "0 \<le> tot + item_value is_sec i" using nn Cons.prems(2) by simp
    obtain s where "parse_time_loop is_sec (tu_step u) True 0 (tot + item_value is_sec i) ?rest =
      (if tot + item_value is_sec i + sum_list (map (item_value is_sec) items) \<le> NGX_MAX_INT_T_VALUE
       then parse_time_loop is_sec s True 0
         (tot + item_value is_sec i + sum_list (map (item_value is_sec) items)) rest else None)"
      using Cons.IH [OF ok(3) ge True, of True] by (simp only: simp_thms) blast
    then show ?thesis
      using item True
      by (intro exI [of _ s]) (simp add: add.assoc del: parse_time_loop.simps item_text.simps item_value.simps)
  next
    case False
    then show ?thesis using item nn by (simp del: parse_time_loop.simps item_text.simps item_value.simps)
  qed
qed (use assms in auto)

definition tail_text :: "nat option \<Rightarrow> u_char list" where
  "tail_text t = (case t of None \<Rightarrow> [] | Some n \<Rightarrow> sprintf_num_text n 0)"

definition tail_value :: "bool \<Rightarrow> nat option \<Rightarrow> int" where
  "tail_value is_sec t = (case t of None \<Rightarrow> 0 | Some n \<Rightarrow> int n * (if is_sec then 1 else 1000))"

lemma parse_time_tail:
  "parse_time_loop is_sec s valid 0 tot (tail_text t) =
     (case t of None \<Rightarrow> Some (valid, 0, tot)
      | Some n \<Rightarrow> if int n \<le> NGX_MAX_INT_T_VALUE then Some (True, int n, tot) else None)"
proof (cases t)
  case (Some n)
  have "digits_val 10 dec_digit 0 (sprintf_num_text n 0) = Some (int n)"
    using atoi.digits_val_printed [of n] by (simp add: sprintf_num_text_digits)
  from parse_time_digits [OF this, of is_sec s valid tot "[]"] show ?thesis
    using Some max_nonneg by (simp add: tail_text_def)
qed (simp add: tail_text_def)

lemma tail_starts: "tail_text t = [] \<or> (\<exists>d. dec_digit (hd (tail_text t)) = Some d)"
proof (cases t)
  case (Some n)
  obtain d ds where d: "base_digits 10 n = d # ds" by (cases "base_digits 10 n") auto
  then have "d < 10" using base_digits_less [of 10 d n] by simp
  then show ?thesis using Some d dec_digit_of_nat [of d] by (simp add: tail_text_def sprintf_num_text_digits)
qed (simp add: tail_text_def)

lemma parse_time_finish:
  assumes "0 \<le> tot" "tot \<le> NGX_MAX_INT_T_VALUE" "0 \<le> v" "v \<le> NGX_MAX_INT_T_VALUE"
    and "sc = (if is_sec then 1 else 1000)"
  shows "(if \<not> is_sec \<and> v > NGX_MAX_INT_T_VALUE div 1000 then -1
     else let v = (if is_sec then v else i64 (v * 1000))
          in if tot > i64 (NGX_MAX_INT_T_VALUE - v) then -1 else i64 (tot + v)) =
    (if tot + v * sc \<le> NGX_MAX_INT_T_VALUE then tot + v * sc else -1)"
proof (cases "v * sc \<le> NGX_MAX_INT_T_VALUE")
  case True
  have vs: "0 \<le> v * sc" using assms(3,5) by simp
  have *: "\<not> (\<not> is_sec \<and> v > NGX_MAX_INT_T_VALUE div 1000)"
    using True assms(5) by (cases is_sec) (simp_all add: not_less le_div_int_iff)
  have "(if is_sec then v else i64 (v * 1000)) = v * sc" using True vs assms(5) by (auto intro: i64_nonneg)
  moreover have "i64 (NGX_MAX_INT_T_VALUE - v * sc) = NGX_MAX_INT_T_VALUE - v * sc"
    using True vs by (intro i64_nonneg) auto
  moreover have "tot + v * sc \<le> NGX_MAX_INT_T_VALUE \<Longrightarrow> i64 (tot + v * sc) = tot + v * sc"
    using vs assms(1) by (intro i64_nonneg) auto
  ultimately show ?thesis unfolding if_not_P [OF *] Let_def by (simp add: algebra_simps not_less [symmetric])
next
  case False
  then have s: "\<not> is_sec" using assms(4,5) by (cases is_sec) auto
  have "\<not> v \<le> NGX_MAX_INT_T_VALUE div 1000" using False s assms(5) by (simp add: le_div_int_iff)
  then show ?thesis using False s assms(1) by simp
qed

text \<open>
  C35: a time written as numbers with units in descending order (years and months only when the result is in
  seconds, milliseconds only when it is in milliseconds), spaces allowed after each unit, and
  optionally a last number without unit (seconds), is parsed to the sum of its parts, in seconds
  or in milliseconds, or to \<^verbatim>\<open>NGX_ERROR\<close> when the sum exceeds the 64-bit range: the checks against
  overflow are exact at every point of the text.
\<close>

theorem parse_time_exact:
  assumes "items_ok is_sec (if is_sec then st_start else st_month) items"
    and "items \<noteq> [] \<or> t \<noteq> None"
  shows "ngx_parse_time (concat (map item_text items) @ tail_text t) is_sec =
    or_error (2 ^ 63 - 1) (Some (sum_list (map (item_value is_sec) items) + tail_value is_sec t))"
proof -
  let ?S = "sum_list (map (item_value is_sec) items)"
  have mx: "2 ^ 63 - 1 = NGX_MAX_INT_T_VALUE" by (simp add: max_values)
  have S0: "0 \<le> ?S" by (rule items_value_nonneg)
  obtain s where s: "parse_time_loop is_sec (if is_sec then st_start else st_month) False 0 0
      (concat (map item_text items) @ tail_text t) =
    (if ?S \<le> NGX_MAX_INT_T_VALUE then parse_time_loop is_sec s (items \<noteq> []) 0 ?S (tail_text t) else None)"
    using parse_time_items [OF assms(1) order_refl max_nonneg tail_starts [of t], of False]
    by (simp only: simp_thms add_0) blast
  have t0: "0 \<le> tail_value is_sec t" by (cases t) (auto simp: tail_value_def)
  show ?thesis
  proof (cases t)
    case None
    show ?thesis
    proof (cases "?S \<le> NGX_MAX_INT_T_VALUE")
      case True
      then show ?thesis unfolding mx
        using s None assms(2) max_nonneg parse_time_finish [OF S0 _ order_refl _ refl, of is_sec]
        by (simp add: ngx_parse_time_def parse_time_tail or_error_def tail_value_def del: parse_time_loop.simps)
    qed (use s None mx in \<open>simp add: ngx_parse_time_def or_error_def tail_value_def\<close>)
  next
    case (Some n)
    have le: "int n \<le> tail_value is_sec t" using Some by (simp add: tail_value_def)
    show ?thesis
    proof (cases "?S \<le> NGX_MAX_INT_T_VALUE \<and> int n \<le> NGX_MAX_INT_T_VALUE")
      case True
      then show ?thesis unfolding mx
        using s Some parse_time_finish [OF S0 _ _ _ refl, of "int n" is_sec]
        by (simp add: ngx_parse_time_def parse_time_tail or_error_def tail_value_def del: parse_time_loop.simps)
    next
      case False
      then have "\<not> ?S + tail_value is_sec t \<le> NGX_MAX_INT_T_VALUE" using le S0 t0 by linarith
      then show ?thesis unfolding mx using s Some False
        by (auto simp: ngx_parse_time_def parse_time_tail or_error_def simp del: parse_time_loop.simps)
    qed
  qed
qed

theorem parse_time_exact_witness:
  "ngx_parse_time (bytes ''1h 30m5'') False = 5405000"
proof -
  have "bytes ''1h 30m5'' =
      concat (map item_text [(1, TU_hour, 1), (30, TU_min, 0)]) @ tail_text (Some 5)"
    by (simp add: sprintf_num_text_digits base_digits.simps tail_text_def bytes_Cons)
  then show ?thesis
    using parse_time_exact [of False "[(1, TU_hour, 1), (30, TU_min, 0)]" "Some 5"]
    by (simp add: or_error_def tail_value_def tu_scale_def)
qed

end
