(* ===== verification/Ngx_Sprintf.thy ===== *)
theory Ngx_Sprintf
  imports Ngx_Number
begin

text \<open>
  Formatted output: \<^verbatim>\<open>ngx_vslprintf\<close>, \<^verbatim>\<open>ngx_snprintf\<close> and \<^verbatim>\<open>ngx_sprintf_str\<close>
  (src/nginx/src/core/ngx_string.c).

  The buffer is the list of the bytes written so far and \<open>mx\<close> the number of bytes between the
  start of the buffer and \<^verbatim>\<open>last\<close>; \<^verbatim>\<open>buf < last\<close> is \<open>length out < mx\<close>. The format is the list of
  its bytes without the terminating zero, so that reading \<^verbatim>\<open>*fmt\<close> at the end of the list is reading
  the zero. The variable arguments are a list of values. The result is none where the behaviour of
  the C code is undefined: an argument that is missing or of the wrong kind, a string read past
  its end, a format read past its terminating zero.

  A floating point argument of \<^verbatim>\<open>%f\<close> is what the code gets from the arithmetic of the machine: whether
  the number is negative, the integer part of its absolute value, and the fraction times a power of
  ten, rounded.
\<close>

datatype varg =
    VInt int                  \<comment> \<open>an integer or a pointer printed as a number\<close>
  | VStr "u_char list"        \<comment> \<open>an \<^verbatim>\<open>ngx_str_t *\<close> or an \<^verbatim>\<open>ngx_variable_value_t *\<close>\<close>
  | VPtr "u_char list"        \<comment> \<open>a \<^verbatim>\<open>u_char *\<close>, with the bytes that may be read from it\<close>
  | VFlt bool nat "nat \<Rightarrow> nat"  \<comment> \<open>a double: \<^verbatim>\<open>f < 0\<close>, \<^verbatim>\<open>(int64_t) f\<close> for the absolute value, and
      \<^verbatim>\<open>(uint64_t) ((f - (double) ui64) * scale + 0.5)\<close> as a function of \<^verbatim>\<open>scale\<close>\<close>

record fmt_spec =
  fs_width :: nat
  fs_sign :: bool
  fs_hex :: nat
  fs_max_width :: bool
  fs_frac_width :: nat
  fs_slen :: nat

definition SIZE_MAX :: nat where
  "SIZE_MAX = 2 ^ 64 - 1"

definition NGX_INT_T_LEN :: nat where
  "NGX_INT_T_LEN = 20"

section \<open>Strings\<close>

fun copy_cstr :: "nat \<Rightarrow> u_char list \<Rightarrow> u_char list option" where
  "copy_cstr room [] = None"
| "copy_cstr room (c # src) =
     (if c = 0 \<or> room = 0 then Some []
      else map_option (\<lambda>t. c # t) (copy_cstr (room - 1) src))"

fun hex_cstr :: "u_char list \<Rightarrow> nat \<Rightarrow> u_char list \<Rightarrow> u_char list option" where
  "hex_cstr hex room [] = None"
| "hex_cstr hex room (c # src) =
     (if c = 0 \<or> room < 2 then Some []
      else map_option (\<lambda>t. hex ! unat (drop_bit 4 c) # hex ! unat (c AND 0xf) # t) (hex_cstr hex (room - 2) src))"

fun hex_str :: "u_char list \<Rightarrow> nat \<Rightarrow> nat \<Rightarrow> u_char list \<Rightarrow> u_char list option" where
  "hex_str hex room len [] = (if len = 0 \<or> room < 2 then Some [] else None)"
| "hex_str hex room len (c # src) =
     (if len = 0 \<or> room < 2 then Some []
      else map_option (\<lambda>t. hex ! unat (drop_bit 4 c) # hex ! unat (c AND 0xf) # t)
             (hex_str hex (room - 2) (len - 1) src))"

definition ngx_sprintf_str :: "nat \<Rightarrow> u_char list \<Rightarrow> nat \<Rightarrow> nat \<Rightarrow> u_char list option" where
  "ngx_sprintf_str room src len hexadecimal =
     (if hexadecimal = 0 then
        (if len = SIZE_MAX then copy_cstr room src
         else let len = min room len in if len \<le> length src then Some (take len src) else None)
      else if hexadecimal = 1 then
        (if len = SIZE_MAX then hex_cstr hex_lower room src else hex_str hex_lower room len src)
      else
        (if len = SIZE_MAX then hex_cstr hex_upper room src else hex_str hex_upper room len src))"

section \<open>The directive\<close>

fun fmt_digits :: "nat \<Rightarrow> u_char list \<Rightarrow> nat \<times> u_char list" where
  "fmt_digits w [] = (w, [])"
| "fmt_digits w (c # fmt) =
     (if c \<ge> 0x30 \<and> c \<le> 0x39 then fmt_digits ((w * 10 + (unat c - 0x30)) mod 2 ^ 64) fmt
      else (w, c # fmt))"

fun fmt_flags :: "fmt_spec \<Rightarrow> u_char list \<Rightarrow> varg list \<Rightarrow> (fmt_spec \<times> u_char list \<times> varg list) option" where
  "fmt_flags spec [] args = Some (spec, [], args)"
| "fmt_flags spec (c # fmt) args =
     (if c = 0x75 then fmt_flags (spec\<lparr>fs_sign := False\<rparr>) fmt args
      else if c = 0x6d then fmt_flags (spec\<lparr>fs_max_width := True\<rparr>) fmt args
      else if c = 0x58 then fmt_flags (spec\<lparr>fs_hex := 2, fs_sign := False\<rparr>) fmt args
      else if c = 0x78 then fmt_flags (spec\<lparr>fs_hex := 1, fs_sign := False\<rparr>) fmt args
      else if c = 0x2e then
        (case fmt_digits (fs_frac_width spec) fmt of (w, fmt') \<Rightarrow>
           Some (spec\<lparr>fs_frac_width := w\<rparr>, fmt', args))
      else if c = 0x2a then
        (case args of VInt n # args' \<Rightarrow> fmt_flags (spec\<lparr>fs_slen := nat (u64 n)\<rparr>) fmt args' | _ \<Rightarrow> None)
      else Some (spec, c # fmt, args))"

definition i32 :: "int \<Rightarrow> int" where
  "i32 x = (x + 2 ^ 31) mod 2 ^ 32 - 2 ^ 31"

definition u32 :: "int \<Rightarrow> int" where
  "u32 x = x mod 2 ^ 32"

text \<open>The value an integer conversion prints, with its sign flag and the new width and padding:
  \<^verbatim>\<open>(sign, i64 or ui64, hex, zero, width)\<close>.\<close>

definition conv_int :: "fmt_spec \<Rightarrow> u_char \<Rightarrow> u_char \<Rightarrow> int \<Rightarrow> (bool \<times> int \<times> nat \<times> u_char \<times> nat) option" where
  "conv_int spec zero c n =
     (let sign = fs_sign spec; hex = fs_hex spec; width = fs_width spec;
          wide = (sign, if sign then i64 n else u64 n, hex, zero, width)
      in if c = 0x4f \<or> c = 0x50 \<or> c = 0x54 \<or> c = 0x72 then          \<comment> \<open>O, P, T, r\<close>
           Some (True, if c = 0x50 then i32 n else i64 n, hex, zero, width)
         else if c = 0x4d then                                         \<comment> \<open>M\<close>
           (if i64 n = -1 then Some (True, -1, hex, zero, width) else Some (False, u64 n, hex, zero, width))
         else if c = 0x7a \<or> c = 0x6c \<or> c = 0x4c then Some wide          \<comment> \<open>z, l, L\<close>
         else if c = 0x69 \<or> c = 0x41 then                              \<comment> \<open>i, A\<close>
           Some (sign, if sign then i64 n else u64 n, hex, zero, if fs_max_width spec then NGX_INT_T_LEN else width)
         else if c = 0x64 \<or> c = 0x44 then                              \<comment> \<open>d, D\<close>
           Some (sign, if sign then i32 n else u32 n, hex, zero, width)
         else if c = 0x70 then Some (False, u64 n, 2, 0x30, 16)        \<comment> \<open>p\<close>
         else None)"

definition print_int :: "nat \<Rightarrow> bool \<times> int \<times> nat \<times> u_char \<times> nat \<Rightarrow> u_char list" where
  "print_int room = (\<lambda>(sign, v, hex, zero, width).
     if sign \<and> v < 0 then 0x2d # ngx_sprintf_num (room - 1) (nat (u64 (- v))) zero hex width
     else ngx_sprintf_num room (nat v) zero hex width)"

text \<open>A floating point number. The minus sign is written without a check, as there is room for one byte;
  \<^verbatim>\<open>scale\<close> and the integer part are 64 bits wide.\<close>

definition float_parts :: "nat \<Rightarrow> nat \<Rightarrow> (nat \<Rightarrow> nat) \<Rightarrow> nat \<times> nat" where
  "float_parts frac_width ui64 frac_at =
     (if frac_width = 0 then (ui64, 0)
      else
        let scale = 10 ^ frac_width mod 2 ^ 64; frac = frac_at scale
        in if frac = scale then ((ui64 + 1) mod 2 ^ 64, 0) else (ui64, frac))"

definition print_float :: "nat \<Rightarrow> nat \<Rightarrow> u_char \<Rightarrow> nat \<Rightarrow> bool \<Rightarrow> nat \<Rightarrow> (nat \<Rightarrow> nat) \<Rightarrow> u_char list" where
  "print_float room frac_width zero width neg ui64 frac_at =
     (let minus = (if neg then [0x2d] else []);
          (ui64, frac) = float_parts frac_width ui64 frac_at;
          out = minus @ ngx_sprintf_num (room - length minus) ui64 zero 0 width
      in if frac_width = 0 then out
         else
           let out = (if length out < room then out @ [0x2e] else out)
           in out @ ngx_sprintf_num (room - length out) frac 0x30 0 frac_width)"

text \<open>One directive after the percent sign: the bytes it writes, the format and the arguments left.\<close>

definition vsl_directive ::
  "nat \<Rightarrow> u_char list \<Rightarrow> varg list \<Rightarrow> (u_char list \<times> u_char list \<times> varg list) option" where
  "vsl_directive room fmt args =
     (let zero = (if fmt \<noteq> [] \<and> hd fmt = 0x30 then 0x30 else 0x20);
          (width, fmt1) = fmt_digits 0 fmt
      in case fmt_flags \<lparr>fs_width = width, fs_sign = True, fs_hex = 0, fs_max_width = False,
                fs_frac_width = 0, fs_slen = SIZE_MAX\<rparr> fmt1 args of
           Some (spec, c # fmt', args') \<Rightarrow>
             if c = 0x56 \<or> c = 0x76 then                                  \<comment> \<open>V, v\<close>
               (case args' of VStr v # args'' \<Rightarrow>
                  map_option (\<lambda>t. (t, fmt', args'')) (ngx_sprintf_str room v (length v) (fs_hex spec))
                | _ \<Rightarrow> None)
             else if c = 0x73 then                                       \<comment> \<open>s\<close>
               (case args' of VPtr p # args'' \<Rightarrow>
                  map_option (\<lambda>t. (t, fmt', args'')) (ngx_sprintf_str room p (fs_slen spec) (fs_hex spec))
                | _ \<Rightarrow> None)
             else if c = 0x66 then                                       \<comment> \<open>f\<close>
               (case args' of VFlt neg ui64 frac_at # args'' \<Rightarrow>
                  Some (print_float room (fs_frac_width spec) zero (fs_width spec) neg ui64 frac_at, fmt', args'')
                | _ \<Rightarrow> None)
             else if c = 0x63 then                                       \<comment> \<open>c\<close>
               (case args' of VInt d # args'' \<Rightarrow> Some ([word_of_int (d AND 0xff)], fmt', args'') | _ \<Rightarrow> None)
             else if c = 0x5a then Some ([0], fmt', args')                \<comment> \<open>Z\<close>
             else if c = 0x4e then Some ([0x0a], fmt', args')             \<comment> \<open>N\<close>
             else if c \<in> {0x4f, 0x50, 0x54, 0x72, 0x4d, 0x7a, 0x6c, 0x4c, 0x69, 0x41, 0x64, 0x44, 0x70} then
               (case args' of VInt n # args'' \<Rightarrow>
                  map_option (\<lambda>v. (print_int room v, fmt', args'')) (conv_int spec zero c n)
                | _ \<Rightarrow> None)
             else Some ([c], fmt', args')                                \<comment> \<open>%% and any other byte\<close>
         | _ \<Rightarrow> None)"

lemma fmt_digits_length: "fmt_digits w fmt = (w', fmt') \<Longrightarrow> length fmt' \<le> length fmt"
  by (induction w fmt rule: fmt_digits.induct) (auto split: if_splits)

lemma fmt_flags_length: "fmt_flags spec fmt args = Some (spec', fmt', args') \<Longrightarrow> length fmt' \<le> length fmt"
proof (induction spec fmt args rule: fmt_flags.induct)
  case (2 spec c fmt args)
  then show ?case
    by (fastforce split: if_splits prod.splits list.splits varg.splits dest: fmt_digits_length)
qed simp

lemma vsl_directive_length:
  "vsl_directive room fmt args = Some (t, fmt', args') \<Longrightarrow> length fmt' < length fmt"
  unfolding vsl_directive_def Let_def
  by (auto split: if_splits option.splits prod.splits list.splits varg.splits
      dest!: fmt_digits_length fmt_flags_length)

function vslprintf_loop :: "nat \<Rightarrow> u_char list \<Rightarrow> varg list \<Rightarrow> u_char list \<Rightarrow> u_char list option" where
  "vslprintf_loop mx [] args out = Some out"
| "vslprintf_loop mx (c # fmt) args out =
     (if \<not> length out < mx then Some out
      else if c = 0x25 then
        (case vsl_directive (mx - length out) fmt args of
           None \<Rightarrow> None
         | Some (t, fmt', args') \<Rightarrow> vslprintf_loop mx fmt' args' (out @ t))
      else vslprintf_loop mx fmt args (out @ [c]))"
  by pat_completeness auto
termination
  by (relation "measure (\<lambda>(mx, fmt, args, out). length fmt)") (auto dest: vsl_directive_length)

definition ngx_vslprintf :: "nat \<Rightarrow> u_char list \<Rightarrow> varg list \<Rightarrow> u_char list option" where
  "ngx_vslprintf mx fmt args = vslprintf_loop mx fmt args []"

text \<open>\<^verbatim>\<open>ngx_sprintf\<close> has no bound: \<^verbatim>\<open>last\<close> is the largest address.\<close>

definition ngx_sprintf :: "u_char list \<Rightarrow> varg list \<Rightarrow> u_char list option" where
  "ngx_sprintf fmt args = ngx_vslprintf (2 ^ 64 - 1) fmt args"

definition ngx_snprintf :: "nat \<Rightarrow> u_char list \<Rightarrow> varg list \<Rightarrow> u_char list option" where
  "ngx_snprintf mx fmt args = ngx_vslprintf mx fmt args"

section \<open>No byte is written outside of the buffer\<close>

lemma copy_cstr_length: "copy_cstr room src = Some t \<Longrightarrow> length t \<le> room"
proof (induction src arbitrary: room t)
  case (Cons c src)
  then show ?case using Cons.IH [of "room - 1"] by (fastforce split: if_splits)
qed (auto split: if_splits)

lemma hex_cstr_length: "hex_cstr hex room src = Some t \<Longrightarrow> length t \<le> room"
proof (induction src arbitrary: room t)
  case (Cons c src)
  then show ?case using Cons.IH [of "room - 2"] by (fastforce split: if_splits)
qed (auto split: if_splits)

lemma hex_str_length: "hex_str hex room len src = Some t \<Longrightarrow> length t \<le> room"
proof (induction src arbitrary: room len t)
  case (Cons c src)
  then show ?case using Cons.IH [of "room - 2" "len - 1"] by (fastforce split: if_splits)
qed (auto split: if_splits)

lemma sprintf_str_length: "ngx_sprintf_str room src len h = Some t \<Longrightarrow> length t \<le> room"
  by (auto simp: ngx_sprintf_str_def Let_def split: if_splits
      dest: copy_cstr_length hex_cstr_length hex_str_length)

lemma sprintf_num_length: "length (ngx_sprintf_num room n zero h width) \<le> room"
  by (simp add: ngx_sprintf_num_def Let_def)

lemma print_int_length: "0 < room \<Longrightarrow> length (print_int room v) \<le> room"
proof (cases v)
  case (fields sign n h zero width)
  assume "0 < room"
  then show ?thesis
    using fields sprintf_num_length [of "room - 1" "nat (u64 (- n))" zero h width]
      sprintf_num_length [of room "nat n" zero h width]
    by (auto simp: print_int_def)
qed

text \<open>The text of a number in a buffer of any size is the beginning of one text.\<close>

lemma sprintf_num_take:
  "ngx_sprintf_num room n zero h width = take room (replicate (width - length (sprintf_num_text n h)) zero @ sprintf_num_text n h)"
  by (simp add: ngx_sprintf_num_def Let_def min_def)

lemma print_float_take:
  assumes "0 < room"
  shows "print_float room fw zero width neg ui64 frac_at = take room
    ((if neg then [0x2d] else []) @
     replicate (width - length (sprintf_num_text (fst (float_parts fw ui64 frac_at)) 0)) zero @ sprintf_num_text (fst (float_parts fw ui64 frac_at)) 0 @
     (if fw = 0 then [] else 0x2e # replicate (fw - length (sprintf_num_text (snd (float_parts fw ui64 frac_at)) 0)) 0x30 @
        sprintf_num_text (snd (float_parts fw ui64 frac_at)) 0))"
proof -
  obtain i f where p: "float_parts fw ui64 frac_at = (i, f)" by (cases "float_parts fw ui64 frac_at")
  define A where "A = (if neg then [0x2d] else []) @ replicate (width - length (sprintf_num_text i 0)) zero @ sprintf_num_text i 0"
  define B where "B = replicate (fw - length (sprintf_num_text f 0)) (0x30 :: u_char) @ sprintf_num_text f 0"
  have A: "(if neg then [0x2d] else []) @ ngx_sprintf_num (room - length (if neg then [0x2d] else [] :: u_char list)) i zero 0 width = take room A"
    using assms by (cases room) (auto simp: sprintf_num_take A_def)
  have B: "ngx_sprintf_num k f 0x30 0 fw = take k B" for k by (simp add: sprintf_num_take B_def)
  have "print_float room fw zero width neg ui64 frac_at = take room (A @ (if fw = 0 then [] else 0x2e # B))"
    unfolding print_float_def p Let_def prod.case A B
    by (cases "length A < room") (auto simp: take_Cons' min_def)
  then show ?thesis by (simp add: p A_def B_def)
qed

lemma print_float_length: "0 < room \<Longrightarrow> length (print_float room fw zero width neg ui64 frac_at) \<le> room"
  by (simp only: print_float_take length_take min.cobounded2)

lemma print_float_mono:
  "room \<le> room' \<Longrightarrow> 0 < room \<Longrightarrow>
     print_float room fw zero width neg ui64 frac_at = take room (print_float room' fw zero width neg ui64 frac_at)"
  by (simp only: print_float_take take_take min_def) simp

lemma vsl_directive_room:
  "vsl_directive room fmt args = Some (t, fmt', args') \<Longrightarrow> 0 < room \<Longrightarrow> length t \<le> room"
  unfolding vsl_directive_def Let_def
  by (auto split: if_splits option.splits prod.splits list.splits varg.splits
      dest: sprintf_str_length intro: print_int_length print_float_length)

lemma vslprintf_loop_room:
  "vslprintf_loop mx fmt args out = Some r \<Longrightarrow> length out \<le> mx \<Longrightarrow> length r \<le> mx"
proof (induction mx fmt args out arbitrary: r rule: vslprintf_loop.induct)
  case (2 mx c fmt args out)
  show ?case
  proof (cases "length out < mx \<and> c = 0x25")
    case True
    then obtain t fmt' args' where d: "vsl_directive (mx - length out) fmt args = Some (t, fmt', args')"
      "vslprintf_loop mx fmt' args' (out @ t) = Some r"
      using 2(3) by (auto split: option.splits)
    have "length t \<le> mx - length out" using vsl_directive_room [OF d(1)] True by simp
    moreover have "length out < mx" using True by simp
    ultimately have "length (out @ t) \<le> mx" by simp
    then show ?thesis using 2(1) [OF _ _ d(1) refl refl d(2)] True by simp
  next
    case False
    then show ?thesis using 2 by (auto split: if_splits)
  qed
qed simp

text \<open>
  C37: the formatted output never exceeds the buffer: for every format, with every conversion, and for all
  arguments that fit the format, the number of bytes written is at most the room before \<^verbatim>\<open>last\<close>.
\<close>

theorem vslprintf_bounded:
  assumes "ngx_vslprintf mx fmt args = Some out"
  shows "length out \<le> mx"
  using vslprintf_loop_room [of mx fmt args "[]" out] assms by (simp add: ngx_vslprintf_def)

section \<open>A small buffer truncates the output\<close>

lemma copy_cstr_mono: "copy_cstr room' src = Some t \<Longrightarrow> room \<le> room' \<Longrightarrow> copy_cstr room src = Some (take room t)"
proof (induction src arbitrary: room room' t)
  case (Cons c src)
  show ?case
  proof (cases "c = 0 \<or> room = 0")
    case False
    then obtain t' where "copy_cstr (room' - 1) src = Some t'" "t = c # t'" using Cons.prems by auto
    then show ?thesis using Cons.IH [of "room' - 1" t' "room - 1"] Cons.prems(2) False by (auto simp: take_Cons')
  qed (use Cons.prems in auto)
qed simp

lemma sprintf_str_mono:
  assumes "ngx_sprintf_str room' src len 0 = Some t" "room \<le> room'"
  shows "ngx_sprintf_str room src len 0 = Some (take room t)"
proof (cases "len = SIZE_MAX")
  case True
  then show ?thesis using assms copy_cstr_mono by (simp add: ngx_sprintf_str_def)
next
  case False
  then have "min room' len \<le> length src" "t = take (min room' len) src"
    using assms(1) by (auto simp: ngx_sprintf_str_def Let_def split: if_splits)
  then show ?thesis using assms(2) False by (auto simp: ngx_sprintf_str_def Let_def min_def split: if_splits)
qed

lemma print_int_mono: "room \<le> room' \<Longrightarrow> 0 < room \<Longrightarrow> print_int room v = take room (print_int room' v)"
  by (cases v) (auto simp: print_int_def sprintf_num_take take_Cons' min_def simp del: take_append)

text \<open>The formats in which no string is printed in hexadecimal: no directive has both a flag \<^verbatim>\<open>x\<close> or \<^verbatim>\<open>X\<close> and
  one of the conversions \<^verbatim>\<open>V\<close>, \<^verbatim>\<open>v\<close>, \<^verbatim>\<open>s\<close>.\<close>

fun hex_flag :: "bool \<Rightarrow> u_char list \<Rightarrow> bool \<times> u_char list" where
  "hex_flag h [] = (h, [])"
| "hex_flag h (c # fmt) =
     (if c \<in> {0x75, 0x6d, 0x2a} then hex_flag h fmt
      else if c = 0x58 \<or> c = 0x78 then hex_flag True fmt
      else if c = 0x2e then (h, snd (fmt_digits 0 fmt))
      else (h, c # fmt))"

lemma fmt_digits_rest: "snd (fmt_digits w fmt) = snd (fmt_digits 0 fmt)"
proof (induction fmt arbitrary: w)
  case (Cons c fmt)
  then show ?case by (metis fmt_digits.simps(2) snd_conv)
qed simp

lemma digits_rest_length: "length (snd (fmt_digits w fmt)) \<le> length fmt"
  by (cases "fmt_digits w fmt") (simp add: fmt_digits_length)

lemma hex_flag_length: "hex_flag h fmt = (h', fmt') \<Longrightarrow> length fmt' \<le> length fmt"
proof (induction h fmt rule: hex_flag.induct)
  case (2 h c fmt)
  then show ?case using digits_rest_length [of 0 fmt] by (auto split: if_splits)
qed simp

lemma hex_flag_rest: "hex_flag h (snd (fmt_digits 0 fmt)) = (h', d # fmt') \<Longrightarrow> length fmt' < length fmt"
  using hex_flag_length [of h "snd (fmt_digits 0 fmt)" h' "d # fmt'"] digits_rest_length [of 0 fmt] by simp

function no_hex_string :: "u_char list \<Rightarrow> bool" where
  "no_hex_string [] = True"
| "no_hex_string (c # fmt) =
     (if c = 0x25 then
        (case hex_flag False (snd (fmt_digits 0 fmt)) of
           (h, []) \<Rightarrow> True
         | (h, d # fmt') \<Rightarrow> \<not> (h \<and> d \<in> {0x56, 0x76, 0x73}) \<and> no_hex_string fmt')
      else no_hex_string fmt)"
  by pat_completeness auto
termination by (relation "measure length") (auto dest!: hex_flag_rest [OF sym])

lemma fmt_flags_hex:
  "fmt_flags spec fmt args = Some (spec', fmt', args') \<Longrightarrow>
     hex_flag (fs_hex spec \<noteq> 0) fmt = (fs_hex spec' \<noteq> 0, fmt')"
proof (induction spec fmt args rule: fmt_flags.induct)
  case (2 spec c fmt args)
  show ?case
  proof (cases "c = 0x2e")
    case True
    then show ?thesis using 2(6) fmt_digits_rest [of "fs_frac_width spec" fmt] by (auto split: prod.splits)
  next
    case False
    then show ?thesis using 2 by (auto split: if_splits list.splits varg.splits)
  qed
qed simp

definition int_convs :: "u_char set" where
  "int_convs = {0x4f, 0x50, 0x54, 0x72, 0x4d, 0x7a, 0x6c, 0x4c, 0x69, 0x41, 0x64, 0x44, 0x70}"

text \<open>The conversions other than those of strings.\<close>

lemma vsl_directive_conv:
  assumes "fmt_digits 0 fmt = (w, fmt1)" "fmt_flags \<lparr>fs_width = w, fs_sign = True, fs_hex = 0, fs_max_width = False,
      fs_frac_width = 0, fs_slen = SIZE_MAX\<rparr> fmt1 args = Some (spec, c # fmt', args')" "c \<notin> {0x56, 0x76, 0x73}"
  shows "vsl_directive room fmt args =
    (let zero = (if fmt \<noteq> [] \<and> hd fmt = 0x30 then 0x30 else 0x20) in
     if c = 0x66 then
       (case args' of VFlt neg ui64 frac_at # args'' \<Rightarrow>
          Some (print_float room (fs_frac_width spec) zero (fs_width spec) neg ui64 frac_at, fmt', args'') | _ \<Rightarrow> None)
     else if c = 0x63 then (case args' of VInt d # args'' \<Rightarrow> Some ([word_of_int (d AND 0xff)], fmt', args'') | _ \<Rightarrow> None)
     else if c = 0x5a then Some ([0], fmt', args')
     else if c = 0x4e then Some ([0x0a], fmt', args')
     else if c \<in> int_convs then
       (case args' of VInt n # args'' \<Rightarrow> map_option (\<lambda>v. (print_int room v, fmt', args'')) (conv_int spec zero c n) | _ \<Rightarrow> None)
     else Some ([c], fmt', args'))"
proof -
  have "\<not> (c = 0x56 \<or> c = 0x76)" "c \<noteq> 0x73" using assms(3) by simp_all
  then show ?thesis unfolding vsl_directive_def int_convs_def Let_def assms(1,2) prod.case option.case list.case
    by (simp only: if_False not_False_eq_True)
qed

lemma vsl_directive_mono:
  assumes "vsl_directive room' fmt args = Some (t, f, a)" "room \<le> room'" "0 < room" "no_hex_string (0x25 # fmt)"
  shows "vsl_directive room fmt args = Some (take room t, f, a) \<and> no_hex_string f"
proof -
  obtain w fmt1 where w: "fmt_digits 0 fmt = (w, fmt1)" by (cases "fmt_digits 0 fmt")
  let ?spec = "\<lparr>fs_width = w, fs_sign = True, fs_hex = 0, fs_max_width = False,
                fs_frac_width = 0, fs_slen = SIZE_MAX\<rparr>"
  obtain spec c fmt' args' where fl: "fmt_flags ?spec fmt1 args = Some (spec, c # fmt', args')"
  proof (cases "fmt_flags ?spec fmt1 args")
    case None
    then show ?thesis using assms(1) w by (simp add: vsl_directive_def)
  next
    case (Some x)
    obtain spec r args' where "x = (spec, r, args')" by (cases x)
    then show ?thesis using assms(1) w Some that by (cases r) (simp_all add: vsl_directive_def)
  qed
  have "hex_flag False fmt1 = (fs_hex spec \<noteq> 0, c # fmt')" using fmt_flags_hex [OF fl] by simp
  then have hex: "c \<in> {0x56, 0x76, 0x73} \<Longrightarrow> fs_hex spec = 0" and rest: "no_hex_string fmt'" using assms(4) w by auto
  have "f = fmt'" using assms(1) w fl
    by (auto simp: vsl_directive_def split: if_splits list.splits varg.splits)
  moreover have "vsl_directive room fmt args = Some (take room t, f, a)"
  proof (cases "c \<in> {0x56, 0x76, 0x73}")
    case True
    then show ?thesis using assms(1,2) w fl hex
      by (auto simp: vsl_directive_def split: if_splits list.splits varg.splits dest!: sprintf_str_mono [of room' _ _ _ room])
  next
    case False
    have one: "take room [x] = [x]" for x :: u_char using assms(3) by (cases room) auto
    note conv = vsl_directive_conv [OF w fl False] and mono = print_int_mono [OF assms(2,3)] print_float_mono [OF assms(2,3)]
    consider "c = 0x66" | "c = 0x63" | "c \<noteq> 0x66" "c \<noteq> 0x63" "c \<in> int_convs" | "c \<noteq> 0x66" "c \<noteq> 0x63" "c \<notin> int_convs" by blast
    then show ?thesis
    proof cases
      case 1
      then show ?thesis using assms(1) mono(2) unfolding conv by (auto split: list.splits varg.splits)
    next
      case 2
      then show ?thesis using assms(1) one unfolding conv by (auto split: list.splits varg.splits)
    next
      case 3
      then have "c \<noteq> 0x5a" "c \<noteq> 0x4e" by (auto simp: int_convs_def)
      then show ?thesis using assms(1) 3 mono(1) unfolding conv by (auto split: list.splits varg.splits)
    next
      case 4
      then show ?thesis using assms(1) one unfolding conv by (auto split: if_splits)
    qed
  qed
  ultimately show ?thesis using rest by simp
qed

lemma vslprintf_loop_extends: "vslprintf_loop mx fmt args out = Some r \<Longrightarrow> \<exists>z. r = out @ z"
proof (induction mx fmt args out arbitrary: r rule: vslprintf_loop.induct)
  case (2 mx c fmt args out)
  then show ?case by (fastforce split: if_splits option.splits)
qed simp

lemma vslprintf_loop_full: "mx \<le> length out \<Longrightarrow> vslprintf_loop mx fmt args out = Some out"
  by (cases fmt) simp_all

lemma vslprintf_loop_mono:
  "vslprintf_loop mx' fmt args out = Some r \<Longrightarrow> mx \<le> mx' \<Longrightarrow> length out \<le> mx \<Longrightarrow> no_hex_string fmt \<Longrightarrow>
     vslprintf_loop mx fmt args out = Some (take mx r)"
proof (induction mx' fmt args out arbitrary: r rule: vslprintf_loop.induct)
  case (2 mx' c fmt args out)
  consider (full) "\<not> length out < mx" | (dir) "length out < mx" "c = 0x25" | (plain) "length out < mx" "c \<noteq> 0x25"
    by blast
  then show ?case
  proof cases
    case full
    then have "length out = mx" using 2(5) by simp
    then show ?thesis using vslprintf_loop_extends [OF 2(3)] vslprintf_loop_full by fastforce
  next
    case dir
    have lt: "length out < mx'" using dir 2(4) by simp
    obtain t f a where d: "vsl_directive (mx' - length out) fmt args = Some (t, f, a)" "vslprintf_loop mx' f a (out @ t) = Some r"
      using 2(3) dir lt by (auto split: option.splits)
    have m: "vsl_directive (mx - length out) fmt args = Some (take (mx - length out) t, f, a)" "no_hex_string f"
      using vsl_directive_mono [OF d(1), of "mx - length out"] dir 2(4,6) by (auto simp del: no_hex_string.simps)
    have step: "vslprintf_loop mx (c # fmt) args out = vslprintf_loop mx f a (out @ take (mx - length out) t)"
      using dir m(1) by simp
    show ?thesis
    proof (cases "length (out @ t) \<le> mx")
      case True
      then have "take (mx - length out) t = t" by simp
      then show ?thesis unfolding step using 2(1) [OF _ dir(2) d(1) refl refl d(2) 2(4) True m(2)] lt by simp
    next
      case False
      then have "mx \<le> length (out @ take (mx - length out) t)" using dir(1) by simp
      moreover obtain z where "r = (out @ t) @ z" using vslprintf_loop_extends [OF d(2)] by blast
      ultimately show ?thesis unfolding step using False dir(1) by (simp add: vslprintf_loop_full)
    qed
  next
    case plain
    then show ?thesis using 2 by (auto split: if_splits)
  qed
qed simp

text \<open>
  C38: with a format that prints no string in hexadecimal (no directive has both a flag x or X and one of
  the conversions V, v, s), the output into a small buffer is the beginning of the output into a
  larger one: if the larger call is defined, so is the smaller one, and the only effect of the size is
  truncation.
\<close>

theorem snprintf_truncates:
  assumes "ngx_snprintf mx' fmt args = Some out" "mx \<le> mx'" "no_hex_string fmt"
  shows "ngx_snprintf mx fmt args = Some (take mx out)"
  using vslprintf_loop_mono [of mx' fmt args "[]" out mx] assms
  by (simp add: ngx_snprintf_def ngx_vslprintf_def)

theorem vslprintf_bounded_witness:
  "\<exists>out. ngx_vslprintf 4 (bytes ''a%.2f'') [VFlt True 42 (\<lambda>scale. scale div 2)] = Some out \<and> length out \<le> 4"
proof -
  have f: "float_parts (Suc (Suc 0)) 42 (\<lambda>scale. scale div 2) = (42, 50)" by (simp add: float_parts_def)
  have t: "sprintf_num_text 42 0 = [0x34, 0x32]" "sprintf_num_text 50 0 = [0x35, 0x30]"
    by (simp_all add: sprintf_num_text_digits base_digits.simps)
  have "ngx_vslprintf 4 (bytes ''a%.2f'') [VFlt True 42 (\<lambda>scale. scale div 2)] = Some (bytes ''a-42'')"
    by (simp add: ngx_vslprintf_def vsl_directive_def bytes_Cons print_float_def f t ngx_sprintf_num_def)
  then show ?thesis using vslprintf_bounded by blast
qed

theorem snprintf_truncates_witness:
  "ngx_snprintf 2 (bytes ''x%V %xi'') [VStr (bytes ''bcd''), VInt 10] = Some (take 2 (bytes ''xbcd a''))"
proof -
  have a: "ngx_snprintf 9 (bytes ''x%V %xi'') [VStr (bytes ''bcd''), VInt 10] = Some (bytes ''xbcd a'')"
    by (simp add: ngx_snprintf_def ngx_vslprintf_def vsl_directive_def bytes_Cons ngx_sprintf_str_def SIZE_MAX_def conv_int_def
        print_int_def u64_def ngx_sprintf_num_def sprintf_num_text_digits base_digits.simps hex_lower_def)
  have "no_hex_string (bytes ''x%V %xi'')" by (simp add: bytes_Cons)
  then show ?thesis using snprintf_truncates [OF a, of 2] by simp
qed

end
