(* ===== verification/Ngx_Base64.thy ===== *)
theory Ngx_Base64
  imports Ngx_Prelude
begin

text \<open>
  Base64 (src/nginx/src/core/ngx_string.c): the encoder and the decoder, and the two alphabets the
  code uses them with. The source and destination strings are lists of bytes; the decoder gives
  none for \<^verbatim>\<open>NGX_ERROR\<close>. The locale \<open>base64_alphabet\<close> states what the pair of tables must satisfy,
  the round trip is proved once there, and both pairs of tables are instances.
\<close>

section \<open>Encoding\<close>

fun ngx_encode_base64_internal :: "u_char list \<Rightarrow> bool \<Rightarrow> u_char list \<Rightarrow> u_char list" where
  "ngx_encode_base64_internal basis padding (s0 # s1 # s2 # s) =
     basis ! unat (drop_bit 2 s0 AND 0x3f) #
     basis ! unat (push_bit 4 (s0 AND 3) OR drop_bit 4 s1) #
     basis ! unat (push_bit 2 (s1 AND 0x0f) OR drop_bit 6 s2) #
     basis ! unat (s2 AND 0x3f) # ngx_encode_base64_internal basis padding s"
| "ngx_encode_base64_internal basis padding [s0, s1] =
     [basis ! unat (drop_bit 2 s0 AND 0x3f),
      basis ! unat (push_bit 4 (s0 AND 3) OR drop_bit 4 s1),
      basis ! unat (push_bit 2 (s1 AND 0x0f))] @ (if padding then [0x3d] else [])"
| "ngx_encode_base64_internal basis padding [s0] =
     [basis ! unat (drop_bit 2 s0 AND 0x3f), basis ! unat (push_bit 4 (s0 AND 3))] @
     (if padding then [0x3d] else []) @ (if padding then [0x3d] else [])"
| "ngx_encode_base64_internal basis padding [] = []"

definition basis64_enc :: "u_char list" where
  "basis64_enc = bytes ''ABCDEFGHIJKLMNOPQRSTUVWXYZabcdefghijklmnopqrstuvwxyz0123456789+/''"

definition ngx_encode_base64 :: "u_char list \<Rightarrow> u_char list" where
  "ngx_encode_base64 src = ngx_encode_base64_internal basis64_enc True src"

definition basis64url_enc :: "u_char list" where
  "basis64url_enc = bytes ''ABCDEFGHIJKLMNOPQRSTUVWXYZabcdefghijklmnopqrstuvwxyz0123456789-_''"

definition ngx_encode_base64url :: "u_char list \<Rightarrow> u_char list" where
  "ngx_encode_base64url src = ngx_encode_base64_internal basis64url_enc False src"

section \<open>Decoding\<close>

text \<open>The first loop: the length of the data before a padding byte, or none for a byte that is not
  of the alphabet.\<close>

fun decode_base64_len :: "u_char list \<Rightarrow> u_char list \<Rightarrow> nat \<Rightarrow> nat option" where
  "decode_base64_len basis [] len = Some len"
| "decode_base64_len basis (c # s) len =
     (if c = 0x3d then Some len
      else if basis ! unat c = 77 then None
      else decode_base64_len basis s (Suc len))"

fun decode_base64_loop :: "u_char list \<Rightarrow> u_char list \<Rightarrow> u_char list" where
  "decode_base64_loop basis (s0 # s1 # s2 # s3 # s) =
     (push_bit 2 (basis ! unat s0) OR drop_bit 4 (basis ! unat s1)) #
     (push_bit 4 (basis ! unat s1) OR drop_bit 2 (basis ! unat s2)) #
     (push_bit 6 (basis ! unat s2) OR (basis ! unat s3)) # decode_base64_loop basis s"
| "decode_base64_loop basis s =
     (if length s > 1 then [push_bit 2 (basis ! unat (s ! 0)) OR drop_bit 4 (basis ! unat (s ! 1))] else []) @
     (if length s > 2 then [push_bit 4 (basis ! unat (s ! 1)) OR drop_bit 2 (basis ! unat (s ! 2))] else [])"

definition ngx_decode_base64_internal :: "u_char list \<Rightarrow> u_char list \<Rightarrow> u_char list option" where
  "ngx_decode_base64_internal basis src =
     (case decode_base64_len basis src 0 of
        None \<Rightarrow> None
      | Some len \<Rightarrow> if len mod 4 = 1 then None else Some (decode_base64_loop basis (take len src)))"

definition basis64_dec :: "u_char list" where
  "basis64_dec = [
      77, 77, 77, 77, 77, 77, 77, 77, 77, 77, 77, 77, 77, 77, 77, 77,
      77, 77, 77, 77, 77, 77, 77, 77, 77, 77, 77, 77, 77, 77, 77, 77,
      77, 77, 77, 77, 77, 77, 77, 77, 77, 77, 77, 62, 77, 77, 77, 63,
      52, 53, 54, 55, 56, 57, 58, 59, 60, 61, 77, 77, 77, 77, 77, 77,
      77, 0, 1, 2, 3, 4, 5, 6, 7, 8, 9, 10, 11, 12, 13, 14,
      15, 16, 17, 18, 19, 20, 21, 22, 23, 24, 25, 77, 77, 77, 77, 77,
      77, 26, 27, 28, 29, 30, 31, 32, 33, 34, 35, 36, 37, 38, 39, 40,
      41, 42, 43, 44, 45, 46, 47, 48, 49, 50, 51, 77, 77, 77, 77, 77,
      77, 77, 77, 77, 77, 77, 77, 77, 77, 77, 77, 77, 77, 77, 77, 77,
      77, 77, 77, 77, 77, 77, 77, 77, 77, 77, 77, 77, 77, 77, 77, 77,
      77, 77, 77, 77, 77, 77, 77, 77, 77, 77, 77, 77, 77, 77, 77, 77,
      77, 77, 77, 77, 77, 77, 77, 77, 77, 77, 77, 77, 77, 77, 77, 77,
      77, 77, 77, 77, 77, 77, 77, 77, 77, 77, 77, 77, 77, 77, 77, 77,
      77, 77, 77, 77, 77, 77, 77, 77, 77, 77, 77, 77, 77, 77, 77, 77,
      77, 77, 77, 77, 77, 77, 77, 77, 77, 77, 77, 77, 77, 77, 77, 77,
      77, 77, 77, 77, 77, 77, 77, 77, 77, 77, 77, 77, 77, 77, 77, 77]"

definition ngx_decode_base64 :: "u_char list \<Rightarrow> u_char list option" where
  "ngx_decode_base64 src = ngx_decode_base64_internal basis64_dec src"

definition basis64url_dec :: "u_char list" where
  "basis64url_dec = [
      77, 77, 77, 77, 77, 77, 77, 77, 77, 77, 77, 77, 77, 77, 77, 77,
      77, 77, 77, 77, 77, 77, 77, 77, 77, 77, 77, 77, 77, 77, 77, 77,
      77, 77, 77, 77, 77, 77, 77, 77, 77, 77, 77, 77, 77, 62, 77, 77,
      52, 53, 54, 55, 56, 57, 58, 59, 60, 61, 77, 77, 77, 77, 77, 77,
      77, 0, 1, 2, 3, 4, 5, 6, 7, 8, 9, 10, 11, 12, 13, 14,
      15, 16, 17, 18, 19, 20, 21, 22, 23, 24, 25, 77, 77, 77, 77, 63,
      77, 26, 27, 28, 29, 30, 31, 32, 33, 34, 35, 36, 37, 38, 39, 40,
      41, 42, 43, 44, 45, 46, 47, 48, 49, 50, 51, 77, 77, 77, 77, 77,
      77, 77, 77, 77, 77, 77, 77, 77, 77, 77, 77, 77, 77, 77, 77, 77,
      77, 77, 77, 77, 77, 77, 77, 77, 77, 77, 77, 77, 77, 77, 77, 77,
      77, 77, 77, 77, 77, 77, 77, 77, 77, 77, 77, 77, 77, 77, 77, 77,
      77, 77, 77, 77, 77, 77, 77, 77, 77, 77, 77, 77, 77, 77, 77, 77,
      77, 77, 77, 77, 77, 77, 77, 77, 77, 77, 77, 77, 77, 77, 77, 77,
      77, 77, 77, 77, 77, 77, 77, 77, 77, 77, 77, 77, 77, 77, 77, 77,
      77, 77, 77, 77, 77, 77, 77, 77, 77, 77, 77, 77, 77, 77, 77, 77,
      77, 77, 77, 77, 77, 77, 77, 77, 77, 77, 77, 77, 77, 77, 77, 77]"

definition ngx_decode_base64url :: "u_char list \<Rightarrow> u_char list option" where
  "ngx_decode_base64url src = ngx_decode_base64_internal basis64url_dec src"

definition ngx_base64_encoded_length :: "nat \<Rightarrow> nat" where
  "ngx_base64_encoded_length len = ((len + 2) div 3) * 4"

definition ngx_base64_decoded_length :: "nat \<Rightarrow> nat" where
  "ngx_base64_decoded_length len = ((len + 3) div 4) * 3"

section \<open>The bytes come back\<close>

lemma byte_masks: "(0x3f :: u_char) = mask 6" "(3 :: u_char) = mask 2" "(0x0f :: u_char) = mask 4"
  by (simp_all add: mask_eq_exp_minus_1)

lemma Suc_Suc_minus_2: "\<not> n < 2 \<Longrightarrow> Suc (Suc (n - 2)) = n" "\<not> n < 4 \<Longrightarrow> n - 4 + 4 = n" "\<not> n < 6 \<Longrightarrow> n - 6 + 6 = n"
  by simp_all

lemma triple0: "push_bit 2 (drop_bit 2 x AND 0x3f) OR drop_bit 4 (push_bit 4 (x AND 3) OR drop_bit 4 y) = (x :: u_char)"
  unfolding byte_masks
proof (rule bit_word_eqI)
  fix n assume "n < LENGTH(8)"
  then show "bit (push_bit 2 (drop_bit 2 x AND mask 6) OR drop_bit 4 (push_bit 4 (x AND mask 2) OR drop_bit 4 y)) n = bit x n"
    by (cases "n < 2") (auto simp: bit_simps Suc_Suc_minus_2)
qed

lemma triple1: "push_bit 4 (push_bit 4 (x AND 3) OR drop_bit 4 y) OR drop_bit 2 (push_bit 2 (y AND 0x0f) OR drop_bit 6 z) = (y::u_char)"
  unfolding byte_masks
proof (rule bit_word_eqI)
  fix n assume "n < LENGTH(8)"
  then show "bit (push_bit 4 (push_bit 4 (x AND mask 2) OR drop_bit 4 y) OR drop_bit 2 (push_bit 2 (y AND mask 4) OR drop_bit 6 z)) n = bit y n"
    by (cases "n < 4") (auto simp: bit_simps Suc_Suc_minus_2)
qed

lemma triple2: "push_bit 6 (push_bit 2 (y AND 0x0f) OR drop_bit 6 z) OR (z AND 0x3f) = (z::u_char)"
  unfolding byte_masks
proof (rule bit_word_eqI)
  fix n assume "n < LENGTH(8)"
  then show "bit (push_bit 6 (push_bit 2 (y AND mask 4) OR drop_bit 6 z) OR (z AND mask 6)) n = bit z n"
    by (cases "n < 6") (auto simp: bit_simps Suc_Suc_minus_2)
qed

lemmas triple_back = triple0 triple1 triple2

lemma byte_less_64: "take_bit 6 w = w \<Longrightarrow> w < (64 :: u_char)"
proof -
  assume "take_bit 6 w = w"
  then have "uint w = take_bit 6 (uint w)" by (metis unsigned_take_bit_eq)
  then have "uint w < 2 ^ 6" by (metis take_bit_int_less_exp)
  then show ?thesis by (simp add: word_less_def)
qed

lemma sextets:
  "drop_bit 2 x AND 0x3f < (64 :: u_char)" "push_bit 4 (x AND 3) OR drop_bit 4 y < (64 :: u_char)"
  "push_bit 2 (y AND 0x0f) OR drop_bit 6 z < (64 :: u_char)" "z AND 0x3f < (64 :: u_char)"
  unfolding byte_masks by (rule byte_less_64; rule bit_word_eqI; auto simp: bit_simps dest: bit_imp_le_length; fail)+

lemmas sextets_short = sextets(2) [where y = 0, unfolded drop_bit_of_0 or.right_neutral] sextets(3) [where z = 0, unfolded drop_bit_of_0 or.right_neutral]

lemmas triple_back_short = triple1 [where z = 0, unfolded drop_bit_of_0 or.right_neutral] triple0 [where y = 0, unfolded drop_bit_of_0 or.right_neutral]

lemma decode_len_append:
  "list_all (\<lambda>c. c \<noteq> 0x3d \<and> basis ! unat c \<noteq> 77) xs \<Longrightarrow> ys = [] \<or> hd ys = 0x3d \<Longrightarrow>
     decode_base64_len basis (xs @ ys) n = Some (n + length xs)"
proof (induction xs arbitrary: n)
  case Nil
  then show ?case by (cases ys) auto
qed auto

lemma triple_induct [case_names more two one none]:
  assumes "\<And>a b c s. P s \<Longrightarrow> P (a # b # c # s)" "\<And>a b. P [a, b]" "\<And>a. P [a]" "P []"
  shows "P (s :: u_char list)"
  by (rule ngx_encode_base64_internal.induct [of "\<lambda>_ _ s. P s"]) (use assms in auto)

lemma encode_padding:
  "\<exists>k. ngx_encode_base64_internal basis True s = ngx_encode_base64_internal basis False s @ replicate k 0x3d"
  by (induction s rule: triple_induct)
    (auto intro: exI [of _ 0] exI [of _ 1] exI [of _ 2] simp: numeral_2_eq_2)

lemma encode_length_mod: "length (ngx_encode_base64_internal basis False s) mod 4 \<noteq> 1"
  by (induction s rule: triple_induct) (simp_all del: push_bit_and push_bit_or drop_bit_and drop_bit_or)

locale base64_alphabet =
  fixes enc dec :: "u_char list"
  assumes dec_enc: "(v :: u_char) < 64 \<Longrightarrow> dec ! unat (enc ! unat v) = v"
    and enc_not_pad: "(v :: u_char) < 64 \<Longrightarrow> enc ! unat v \<noteq> 0x3d"
begin

lemma enc_in_alphabet: "(v :: u_char) < 64 \<Longrightarrow> enc ! unat v \<noteq> 0x3d \<and> dec ! unat (enc ! unat v) \<noteq> 77"
  using dec_enc [of v] enc_not_pad [of v] by (auto simp: word_less_def)

lemma encoded_in_alphabet:
  "list_all (\<lambda>c. c \<noteq> 0x3d \<and> dec ! unat c \<noteq> 77) (ngx_encode_base64_internal enc False s)"
  by (induction s rule: triple_induct)
    (simp_all add: enc_in_alphabet sextets sextets_short del: push_bit_and push_bit_or drop_bit_and drop_bit_or)

lemma decode_loop_encoded: "decode_base64_loop dec (ngx_encode_base64_internal enc False s) = s"
  by (induction s rule: triple_induct)
    (simp_all add: dec_enc sextets sextets_short triple_back triple_back_short del: push_bit_and push_bit_or drop_bit_and drop_bit_or)

lemma decode_encoded:
  "ngx_decode_base64_internal dec (ngx_encode_base64_internal enc padding s) = Some s"
proof -
  let ?e = "ngx_encode_base64_internal enc False s"
  obtain k where k: "ngx_encode_base64_internal enc padding s = ?e @ replicate k 0x3d"
    using encode_padding by (cases padding) (auto intro: that [of 0])
  have "replicate k 0x3d = [] \<or> hd (replicate k (0x3d :: u_char)) = 0x3d" by (cases k) auto
  from decode_len_append [OF encoded_in_alphabet this] show ?thesis
    using encode_length_mod by (simp add: ngx_decode_base64_internal_def k decode_loop_encoded)
qed

end

lemma sixty_four:
  "map word_of_int [0..63] = ([0, 1, 2, 3, 4, 5, 6, 7, 8, 9, 10, 11, 12, 13, 14, 15, 16, 17, 18, 19, 20, 21, 22, 23, 24,
    25, 26, 27, 28, 29, 30, 31, 32, 33, 34, 35, 36, 37, 38, 39, 40, 41, 42, 43, 44, 45, 46,
    47, 48, 49, 50, 51, 52, 53, 54, 55, 56, 57, 58, 59, 60, 61, 62, 63] :: u_char list)"
  by code_simp

lemma alphabet_by_table:
  assumes "map (\<lambda>c. dec ! unat c) enc = map word_of_int [0..63]" and "list_all (\<lambda>c. c \<noteq> 0x3d) enc"
  shows "base64_alphabet enc dec"
proof
  have len: "length enc = 64" using arg_cong [OF assms(1), of length] by simp
  fix v :: u_char
  assume "v < 64"
  then have v: "unat v < 64" by (simp add: word_less_nat_alt)
  have "[0..63] ! unat v = 0 + int (unat v)" using v by (intro nth_upto) linarith
  then have "map (\<lambda>c. dec ! unat c) enc ! unat v = word_of_int (int (unat v))"
    unfolding assms(1) using v by simp
  then show "dec ! unat (enc ! unat v) = v" using len v by simp
  show "enc ! unat v \<noteq> 0x3d" using assms(2) len v by (simp add: list_all_length)
qed

interpretation b64: base64_alphabet basis64_enc basis64_dec
proof (rule alphabet_by_table)
  show "map (\<lambda>c. basis64_dec ! unat c) basis64_enc = map word_of_int [0..63]"
    by (simp add: basis64_enc_def bytes_def basis64_dec_def sixty_four)
qed code_simp

interpretation b64url: base64_alphabet basis64url_enc basis64url_dec
proof (rule alphabet_by_table)
  show "map (\<lambda>c. basis64url_dec ! unat c) basis64url_enc = map word_of_int [0..63]"
    by (simp add: basis64url_enc_def bytes_def basis64url_dec_def sixty_four)
qed code_simp

text \<open>
  C39: decoding returns every encoded string, for the padded standard alphabet and for the unpadded
  URL alphabet.
\<close>

theorem base64_roundtrip:
  "ngx_decode_base64 (ngx_encode_base64 s) = Some s \<and>
   ngx_decode_base64url (ngx_encode_base64url s) = Some s"
  by (simp add: ngx_decode_base64_def ngx_encode_base64_def ngx_decode_base64url_def
      ngx_encode_base64url_def b64.decode_encoded b64url.decode_encoded)

lemma base64_lengths:
  "ngx_base64_encoded_length (Suc (Suc (Suc n))) = ngx_base64_encoded_length n + 4"
  "ngx_base64_decoded_length (Suc (Suc (Suc (Suc n)))) = ngx_base64_decoded_length n + 3"
proof -
  have "Suc (Suc (Suc n)) + 2 = (n + 2) + 3" "Suc (Suc (Suc (Suc n))) + 3 = (n + 3) + 4" by simp_all
  then show "ngx_base64_encoded_length (Suc (Suc (Suc n))) = ngx_base64_encoded_length n + 4"
    "ngx_base64_decoded_length (Suc (Suc (Suc (Suc n)))) = ngx_base64_decoded_length n + 3"
    unfolding ngx_base64_encoded_length_def ngx_base64_decoded_length_def
    by (simp_all only: div_add_self2) simp_all
qed

lemma encode_length:
  "length (ngx_encode_base64_internal basis p s) \<le> ngx_base64_encoded_length (length s)"
proof -
  have "ngx_base64_encoded_length 1 = 4" "ngx_base64_encoded_length 2 = 4"
    by (simp_all add: ngx_base64_encoded_length_def)
  then show ?thesis
    by (induction s rule: triple_induct) (simp_all add: base64_lengths numeral_2_eq_2 del: push_bit_and push_bit_or drop_bit_and drop_bit_or)
qed

lemma decode_loop_length:
  "length (decode_base64_loop basis s) \<le> ngx_base64_decoded_length (length s)"
  by (induction basis s rule: decode_base64_loop.induct)
    (simp_all add: base64_lengths, simp_all add: ngx_base64_decoded_length_def)

text \<open>The buffers the callers allocate by the length macros are large enough.\<close>

lemma base64_buffers:
  "length (ngx_encode_base64 s) \<le> ngx_base64_encoded_length (length s)"
  "ngx_decode_base64 s = Some d \<Longrightarrow> length d \<le> ngx_base64_decoded_length (length s)"
proof -
  show "length (ngx_encode_base64 s) \<le> ngx_base64_encoded_length (length s)"
    by (simp add: ngx_encode_base64_def encode_length)
  assume "ngx_decode_base64 s = Some d"
  then obtain n where "d = decode_base64_loop basis64_dec (take n s)"
    by (auto simp: ngx_decode_base64_def ngx_decode_base64_internal_def split: option.splits if_splits)
  moreover have "ngx_base64_decoded_length (length (take n s)) \<le> ngx_base64_decoded_length (length s)"
    unfolding ngx_base64_decoded_length_def by (intro mult_right_mono div_le_mono) auto
  ultimately show "length d \<le> ngx_base64_decoded_length (length s)"
    using decode_loop_length order_trans by blast
qed

end
