(* ===== verification/Ngx_Escape.thy ===== *)
theory Ngx_Escape
  imports Ngx_Number
begin

text \<open>
  Escaping (src/nginx/src/core/ngx_string.c): \<^verbatim>\<open>ngx_escape_uri\<close>, \<^verbatim>\<open>ngx_unescape_uri\<close>,
  \<^verbatim>\<open>ngx_escape_html\<close> and \<^verbatim>\<open>ngx_escape_json\<close>. Each escaping function has two passes in the code: called
  without a destination it returns a count by which the caller sizes the buffer, called with one it
  writes the escaped bytes. They are two functions here. The locale \<open>escaper\<close> states what the passes do
  on one byte; that the count is exact, and that a decoder which undoes the escape of one byte undoes
  the whole output, are proved once there.
\<close>

section \<open>URIs\<close>

definition escape_uri :: "32 word list" where
  "escape_uri = [0xffffffff, 0xd000002d, 0x50000000, 0xb8000001, 0xffffffff, 0xffffffff, 0xffffffff, 0xffffffff]"

definition escape_args :: "32 word list" where
  "escape_args = [0xffffffff, 0xd800086d, 0x50000000, 0xb8000001, 0xffffffff, 0xffffffff, 0xffffffff, 0xffffffff]"

definition escape_uri_component :: "32 word list" where
  "escape_uri_component = [0xffffffff, 0xfc009fff, 0x78000001, 0xb8000001, 0xffffffff, 0xffffffff, 0xffffffff, 0xffffffff]"

definition escape_html :: "32 word list" where
  "escape_html = [0xffffffff, 0x500000ad, 0x50000000, 0xb8000001, 0xffffffff, 0xffffffff, 0xffffffff, 0xffffffff]"

definition escape_refresh :: "32 word list" where
  "escape_refresh = [0xffffffff, 0x50000085, 0x50000000, 0xd8000001, 0xffffffff, 0xffffffff, 0xffffffff, 0xffffffff]"

definition escape_memcached :: "32 word list" where
  "escape_memcached = [0xffffffff, 0x00000021, 0x00000000, 0x00000000, 0x00000000, 0x00000000, 0x00000000, 0x00000000]"

text \<open>The table of the tables, indexed by the type of the escape.\<close>

definition escape_map :: "32 word list list" where
  "escape_map = [escape_uri, escape_args, escape_uri_component, escape_html, escape_refresh,
     escape_memcached, escape_memcached]"

definition escaped :: "nat \<Rightarrow> u_char \<Rightarrow> bool" where
  "escaped type c \<longleftrightarrow>
     ((escape_map ! type) ! unat (drop_bit 5 c)) AND push_bit (unat (c AND 0x1f)) 1 \<noteq> 0"

fun escape_uri_count :: "nat \<Rightarrow> u_char list \<Rightarrow> nat" where
  "escape_uri_count type [] = 0"
| "escape_uri_count type (c # src) = (if escaped type c then 1 else 0) + escape_uri_count type src"

fun ngx_escape_uri :: "nat \<Rightarrow> u_char list \<Rightarrow> u_char list" where
  "ngx_escape_uri type [] = []"
| "ngx_escape_uri type (c # src) =
     (if escaped type c
      then [0x25, hex_upper ! unat (drop_bit 4 c), hex_upper ! unat (c AND 0xf)] else [c]) @
     ngx_escape_uri type src"

definition NGX_UNESCAPE_URI :: nat where "NGX_UNESCAPE_URI = 1"
definition NGX_UNESCAPE_REDIRECT :: nat where "NGX_UNESCAPE_REDIRECT = 2"

datatype unescape_state = sw_usual | sw_quoted | sw_quoted_second

text \<open>The loop: the state, the decoded high digit, the byte read before (\<^verbatim>\<open>*(s - 2)\<close> in the code when
  the current one has been read), and the bytes left. It returns the bytes written and the bytes
  not consumed.\<close>

definition put :: "u_char list \<Rightarrow> u_char list \<times> u_char list \<Rightarrow> u_char list \<times> u_char list" where
  "put t r = (t @ fst r, snd r)"

fun unescape_loop ::
  "nat \<Rightarrow> unescape_state \<Rightarrow> u_char \<Rightarrow> u_char \<Rightarrow> u_char list \<Rightarrow> u_char list \<times> u_char list" where
  "unescape_loop type st decoded prev [] = ([], [])"
| "unescape_loop type sw_usual decoded prev (ch # s) =
     (if ch = 0x3f \<and> type AND (NGX_UNESCAPE_URI OR NGX_UNESCAPE_REDIRECT) \<noteq> 0 then ([ch], s)
      else if ch = 0x25 then unescape_loop type sw_quoted decoded ch s
      else put [ch] (unescape_loop type sw_usual decoded ch s))"
| "unescape_loop type sw_quoted decoded prev (ch # s) =
     (if ch \<ge> 0x30 \<and> ch \<le> 0x39 then unescape_loop type sw_quoted_second (ch - 0x30) ch s
      else let c = ch OR 0x20
           in if c \<ge> 0x61 \<and> c \<le> 0x66 then unescape_loop type sw_quoted_second (c - 0x61 + 10) ch s
              else put [ch] (unescape_loop type sw_usual decoded ch s))"
| "unescape_loop type sw_quoted_second decoded prev (ch # s) =
     (if ch \<ge> 0x30 \<and> ch \<le> 0x39 then
        (let b = push_bit 4 decoded + (ch - 0x30)
         in if type AND NGX_UNESCAPE_REDIRECT \<noteq> 0 then
              (if b > 0x25 \<and> b < 0x7f then put [b] (unescape_loop type sw_usual decoded ch s)
               else put [0x25, prev, ch] (unescape_loop type sw_usual decoded ch s))
            else put [b] (unescape_loop type sw_usual decoded ch s))
      else let c = ch OR 0x20
           in if c \<ge> 0x61 \<and> c \<le> 0x66 then
                (let b = push_bit 4 decoded + (c - 0x61) + 10
                 in if type AND NGX_UNESCAPE_URI \<noteq> 0 then
                      (if b = 0x3f then ([b], s) else put [b] (unescape_loop type sw_usual decoded ch s))
                    else if type AND NGX_UNESCAPE_REDIRECT \<noteq> 0 then
                      (if b = 0x3f then ([b], s)
                       else if b > 0x25 \<and> b < 0x7f then put [b] (unescape_loop type sw_usual decoded ch s)
                       else put [0x25, prev, ch] (unescape_loop type sw_usual decoded ch s))
                    else put [b] (unescape_loop type sw_usual decoded ch s))
              else unescape_loop type sw_usual decoded ch s)"

definition ngx_unescape_uri :: "nat \<Rightarrow> u_char list \<Rightarrow> u_char list \<times> u_char list" where
  "ngx_unescape_uri type src = unescape_loop type sw_usual 0 0 src"

section \<open>HTML\<close>

fun escape_html_len :: "u_char list \<Rightarrow> nat" where
  "escape_html_len [] = 0"
| "escape_html_len (c # src) =
     (if c = 0x3c then 3 else if c = 0x3e then 3 else if c = 0x26 then 4 else if c = 0x22 then 5 else 0) +
     escape_html_len src"

fun ngx_escape_html :: "u_char list \<Rightarrow> u_char list" where
  "ngx_escape_html [] = []"
| "ngx_escape_html (c # src) =
     (if c = 0x3c then bytes ''&lt;''
      else if c = 0x3e then bytes ''&gt;''
      else if c = 0x26 then bytes ''&amp;''
      else if c = 0x22 then bytes ''&quot;''
      else [c]) @ ngx_escape_html src"

section \<open>JSON\<close>

fun escape_json_len :: "u_char list \<Rightarrow> nat" where
  "escape_json_len [] = 0"
| "escape_json_len (ch # src) =
     (if ch = 0x5c \<or> ch = 0x22 then 1
      else if ch \<le> 0x1f then
        (if ch = 0x0a \<or> ch = 0x0d \<or> ch = 0x09 \<or> ch = 0x08 \<or> ch = 0x0c then 1 else 5)
      else 0) + escape_json_len src"

fun ngx_escape_json :: "u_char list \<Rightarrow> u_char list" where
  "ngx_escape_json [] = []"
| "ngx_escape_json (ch # src) =
     (if ch > 0x1f then (if ch = 0x5c \<or> ch = 0x22 then [0x5c] else []) @ [ch]
      else 0x5c #
        (if ch = 0x0a then [0x6e]
         else if ch = 0x0d then [0x72]
         else if ch = 0x09 then [0x74]
         else if ch = 0x08 then [0x62]
         else if ch = 0x0c then [0x66]
         else [0x75, 0x30, 0x30, 0x30 + drop_bit 4 ch,
               let ch = ch AND 0xf in if ch < 10 then 0x30 + ch else 0x41 + ch - 10])) @
     ngx_escape_json src"

section \<open>The contract of an escaper\<close>

locale escaper =
  fixes out :: "u_char list \<Rightarrow> u_char list" and count :: "u_char list \<Rightarrow> nat" and growth :: nat
    and esc :: "u_char \<Rightarrow> u_char list" and cnt :: "u_char \<Rightarrow> nat"
  assumes out_Nil: "out [] = []" and out_Cons: "out (c # s) = esc c @ out s"
    and count_Nil: "count [] = 0" and count_Cons: "count (c # s) = cnt c + count s"
    and esc_length: "length (esc c) = 1 + growth * cnt c"
begin

lemma out_length: "length (out s) = length s + growth * count s"
  by (induction s) (simp_all add: out_Nil out_Cons count_Nil count_Cons esc_length algebra_simps)

lemma out_concat: "out s = concat (map esc s)"
  by (induction s) (simp_all add: out_Nil out_Cons)

end

locale decodable_escaper = escaper +
  fixes dec :: "u_char list \<Rightarrow> u_char list option"
  assumes dec_Nil: "dec [] = Some []"
    and dec_esc: "dec (esc c @ s) = map_option ((#) c) (dec s)"
begin

lemma dec_out: "dec (out s) = Some s"
  by (induction s) (simp_all add: out_Nil out_Cons dec_Nil dec_esc)

end

section \<open>The escapers of the code\<close>

definition uri_esc :: "nat \<Rightarrow> u_char \<Rightarrow> u_char list" where
  "uri_esc type c = (if escaped type c
     then [0x25, hex_upper ! unat (drop_bit 4 c), hex_upper ! unat (c AND 0xf)] else [c])"

interpretation uri: escaper "ngx_escape_uri type" "escape_uri_count type" 2 "uri_esc type"
    "\<lambda>c. if escaped type c then 1 else 0" for type
  by unfold_locales (simp_all add: uri_esc_def)

definition html_esc :: "u_char \<Rightarrow> u_char list" where
  "html_esc c = ngx_escape_html [c]"

definition html_cnt :: "u_char \<Rightarrow> nat" where
  "html_cnt c = escape_html_len [c]"

definition json_esc :: "u_char \<Rightarrow> u_char list" where
  "json_esc ch = ngx_escape_json [ch]"

definition json_cnt :: "u_char \<Rightarrow> nat" where
  "json_cnt ch = escape_json_len [ch]"

text \<open>What a reader of HTML and of JSON makes of the escaped text.\<close>

function html_dec :: "u_char list \<Rightarrow> u_char list option" where
  "html_dec s =
     (if s = [] then Some []
      else if take 4 s = bytes ''&lt;'' then map_option ((#) 0x3c) (html_dec (drop 4 s))
      else if take 4 s = bytes ''&gt;'' then map_option ((#) 0x3e) (html_dec (drop 4 s))
      else if take 5 s = bytes ''&amp;'' then map_option ((#) 0x26) (html_dec (drop 5 s))
      else if take 6 s = bytes ''&quot;'' then map_option ((#) 0x22) (html_dec (drop 6 s))
      else if hd s \<in> {0x3c, 0x3e, 0x26, 0x22} then None
      else map_option ((#) (hd s)) (html_dec (tl s)))"
  by pat_completeness auto
termination by (relation "measure length") auto

definition json_letter :: "u_char \<Rightarrow> u_char option" where
  "json_letter c = map_of [(0x6e, 0x0a), (0x72, 0x0d), (0x74, 0x09), (0x62, 0x08), (0x66, 0x0c),
     (0x5c, 0x5c), (0x22, 0x22)] c"

function json_dec :: "u_char list \<Rightarrow> u_char list option" where
  "json_dec s =
     (if s = [] then Some []
      else if hd s \<noteq> 0x5c then
        (if hd s = 0x22 \<or> hd s \<le> 0x1f then None else map_option ((#) (hd s)) (json_dec (tl s)))
      else if length s < 2 then None
      else if s ! 1 = 0x75 then
        (if length s < 6 \<or> s ! 2 \<noteq> 0x30 \<or> s ! 3 \<noteq> 0x30 then None
         else case (hex_digit (s ! 4), hex_digit (s ! 5)) of
           (Some a, Some b) \<Rightarrow> map_option ((#) (word_of_int (16 * a + b))) (json_dec (drop 6 s))
         | _ \<Rightarrow> None)
      else case json_letter (s ! 1) of None \<Rightarrow> None
        | Some c \<Rightarrow> map_option ((#) c) (json_dec (drop 2 s)))"
  by pat_completeness auto
termination by (relation "measure length") auto

declare html_dec.simps [simp del] json_dec.simps [simp del]

lemma html_esc_length: "length (html_esc c) = 1 + 1 * html_cnt c"
  by (simp add: html_esc_def html_cnt_def)

lemma html_dec_esc: "html_dec (html_esc c @ s) = map_option ((#) c) (html_dec s)"
  by (subst html_dec.simps) (auto simp: html_esc_def bytes_Cons)

interpretation html: decodable_escaper ngx_escape_html escape_html_len 1 html_esc html_cnt html_dec
proof
  show "ngx_escape_html (c # s) = html_esc c @ ngx_escape_html s" for c s by (simp add: html_esc_def)
  show "escape_html_len (c # s) = html_cnt c + escape_html_len s" for c s by (simp add: html_cnt_def)
  show "html_dec [] = Some []" by (simp add: html_dec.simps)
qed (simp_all add: html_esc_length html_dec_esc)

lemma json_esc_length: "length (json_esc c) = 1 + 1 * json_cnt c"
  by (auto simp: json_esc_def json_cnt_def)

lemma json_control_digits:
  "c \<le> 0x1f \<longrightarrow> hex_digit (0x30 + drop_bit 4 c) = Some (uint c div 16) \<and>
     hex_digit (let ch = c AND 0xf in if ch < 10 then 0x30 + ch else 0x41 + ch - 10) = Some (uint c mod 16)"
  by (rule byte_all [where c = c]) code_simp

lemma json_dec_esc: "json_dec (json_esc c @ s) = map_option ((#) c) (json_dec s)"
proof (cases "c \<le> 0x1f \<and> c \<notin> {0x0a, 0x0d, 0x09, 0x08, 0x0c}")
  case True
  let ?h = "0x30 + drop_bit 4 c"
  let ?l = "let ch = c AND 0xf in if ch < 10 then 0x30 + ch else 0x41 + ch - 10"
  have e: "json_esc c = [0x5c, 0x75, 0x30, 0x30, ?h, ?l]" using True by (auto simp: json_esc_def not_le)
  have word: "word_of_int (16 * (uint c div 16) + uint c mod 16) = c" by simp
  show ?thesis
    unfolding e using json_control_digits [of c] True word
    by (subst json_dec.simps) (simp del: word_of_int_uint)
next
  case False
  then show ?thesis
    by (subst json_dec.simps) (auto simp: json_esc_def json_letter_def not_le)
qed

interpretation json: decodable_escaper ngx_escape_json escape_json_len 1 json_esc json_cnt json_dec
proof
  show "ngx_escape_json (c # s) = json_esc c @ ngx_escape_json s" for c s by (simp add: json_esc_def)
  show "escape_json_len (c # s) = json_cnt c + escape_json_len s" for c s by (simp add: json_cnt_def)
  show "json_dec [] = Some []" by (simp add: json_dec.simps)
qed (simp_all add: json_esc_length json_dec_esc)

section \<open>Unescaping undoes escaping\<close>

lemma unescape_indep:
  "unescape_loop type sw_usual d p s = unescape_loop type sw_usual d' p' s"
  "unescape_loop type sw_quoted d p s = unescape_loop type sw_quoted d' p' s"
proof -
  have "\<forall>d p d' p'. unescape_loop type sw_usual d p s = unescape_loop type sw_usual d' p' s \<and>
      unescape_loop type sw_quoted d p s = unescape_loop type sw_quoted d' p' s"
  proof (induction s)
    case (Cons c s)
    then have u: "unescape_loop type sw_usual d c s = unescape_loop type sw_usual 0 0 s"
      and q: "unescape_loop type sw_quoted d c s = unescape_loop type sw_quoted 0 0 s" for d
      by metis+
    show ?case by (simp only: unescape_loop.simps u q Let_def simp_thms)
  qed simp
  then show "unescape_loop type sw_usual d p s = unescape_loop type sw_usual d' p' s"
    "unescape_loop type sw_quoted d p s = unescape_loop type sw_quoted d' p' s" by blast+
qed

definition unescape_hi :: "u_char \<Rightarrow> u_char" where
  "unescape_hi ch = (if ch \<ge> 0x30 \<and> ch \<le> 0x39 then ch - 0x30 else (ch OR 0x20) - 0x61 + 10)"

lemma hex_upper_digits:
  "let h = hex_upper ! unat (drop_bit 4 c); l = hex_upper ! unat (c AND 0xf)
   in (h \<ge> 0x30 \<and> h \<le> 0x39 \<or> (h OR 0x20 \<ge> 0x61 \<and> h OR 0x20 \<le> 0x66)) \<and>
      (l \<ge> 0x30 \<and> l \<le> 0x39 \<longrightarrow> push_bit 4 (unescape_hi h) + (l - 0x30) = c) \<and>
      (\<not> (l \<ge> 0x30 \<and> l \<le> 0x39) \<longrightarrow> l OR 0x20 \<ge> 0x61 \<and> l OR 0x20 \<le> 0x66 \<and>
         push_bit 4 (unescape_hi h) + ((l OR 0x20) - 0x61) + 10 = c)"
  by (rule byte_all [where c = c]) code_simp

lemma unescape_quoted:
  "unescape_loop 0 sw_usual d p ([0x25, hex_upper ! unat (drop_bit 4 c), hex_upper ! unat (c AND 0xf)] @ s) =
     put [c] (unescape_loop 0 sw_usual 0 0 s)"
proof -
  define h l where "h = hex_upper ! unat (drop_bit 4 c)" and "l = hex_upper ! unat (c AND 0xf)"
  note facts = hex_upper_digits [of c, folded h_def l_def, unfolded Let_def]
  have "unescape_loop 0 sw_usual d p ([0x25, h, l] @ s) =
      unescape_loop 0 sw_quoted_second (unescape_hi h) h (l # s)"
  proof (cases "h \<ge> 0x30 \<and> h \<le> 0x39")
    case True
    then show ?thesis unfolding append_Cons append_Nil unescape_hi_def if_P [OF True] by simp
  next
    case False
    then have f: "h OR 0x20 \<ge> 0x61 \<and> h OR 0x20 \<le> 0x66" using facts by blast
    have "unescape_loop 0 sw_usual d p (0x25 # h # l # s) = unescape_loop 0 sw_quoted d 0x25 (h # l # s)"
      by (simp del: unescape_loop.simps(3))
    then show ?thesis
      unfolding append_Cons append_Nil unescape_hi_def if_not_P [OF False] unescape_loop.simps(3) Let_def if_P [OF f] .
  qed
  also have "\<dots> = put [c] (unescape_loop 0 sw_usual (unescape_hi h) l s)"
  proof (cases "l \<ge> 0x30 \<and> l \<le> 0x39")
    case True
    then have b: "push_bit 4 (unescape_hi h) + (l - 0x30) = c" using facts by blast
    show ?thesis unfolding unescape_loop.simps Let_def b if_P [OF True] by simp
  next
    case False
    then have b: "l OR 0x20 \<ge> 0x61 \<and> l OR 0x20 \<le> 0x66"
      "push_bit 4 (unescape_hi h) + ((l OR 0x20) - 0x61) + 10 = c" using facts by blast+
    show ?thesis unfolding unescape_loop.simps Let_def b(2) if_not_P [OF False] if_P [OF b(1)] by simp
  qed
  also have "\<dots> = put [c] (unescape_loop 0 sw_usual 0 0 s)"
    using unescape_indep(1) by metis
  finally show ?thesis by (simp add: h_def l_def)
qed

text \<open>Every table except the one for the Refresh header escapes the percent sign.\<close>

lemma percent_escaped: "type < 7 \<Longrightarrow> type \<noteq> 4 \<Longrightarrow> escaped type 0x25"
proof -
  have "list_all (\<lambda>t. t = 4 \<or> escaped t 0x25) [0..<7]" by code_simp
  then show "type < 7 \<Longrightarrow> type \<noteq> 4 \<Longrightarrow> escaped type 0x25" by (auto simp: list_all_iff)
qed

definition uri_dec :: "u_char list \<Rightarrow> u_char list option" where
  "uri_dec s = (case ngx_unescape_uri 0 s of (t, r) \<Rightarrow> if r = [] then Some t else None)"

lemma uri_dec_esc:
  assumes "type < 7" "type \<noteq> 4"
  shows "uri_dec (uri_esc type c @ s) = map_option ((#) c) (uri_dec s)"
proof (cases "escaped type c")
  case True
  then show ?thesis
    using unescape_quoted [of 0 0 c s]
    by (simp add: uri_dec_def ngx_unescape_uri_def uri_esc_def put_def split: prod.splits)
next
  case False
  then have "c \<noteq> 0x25" using percent_escaped [OF assms] by auto
  then show ?thesis
    using False unescape_indep(1) [of 0 0 c s 0 0]
    by (simp add: uri_dec_def ngx_unescape_uri_def uri_esc_def put_def split: prod.splits)
qed

lemma uri_decodable:
  "type < 7 \<Longrightarrow> type \<noteq> 4 \<Longrightarrow>
     decodable_escaper (ngx_escape_uri type) (escape_uri_count type) 2 (uri_esc type)
       (\<lambda>c. if escaped type c then 1 else 0) uri_dec"
  by unfold_locales (simp_all add: uri_esc_def [symmetric] uri_dec_esc uri.esc_length, simp add: uri_dec_def ngx_unescape_uri_def)

text \<open>
  C40: unescaping an escaped string gives the string back and consumes all of it, for every kind of
  escape except the one of the Refresh header.
\<close>

theorem uri_roundtrip:
  assumes "type < 7" "type \<noteq> 4"
  shows "ngx_unescape_uri 0 (ngx_escape_uri type s) = (s, [])"
  using decodable_escaper.dec_out [OF uri_decodable [OF assms], of s]
  by (auto simp: uri_dec_def split: prod.splits if_splits)

theorem uri_roundtrip_witness:
  "ngx_escape_uri 0 (bytes ''a b'') = bytes ''a%20b'' \<and> ngx_unescape_uri 0 (bytes ''a%20b'') = (bytes ''a b'', [])"
proof -
  have "ngx_escape_uri 0 (bytes ''a b'') = bytes ''a%20b''" by code_simp
  then show ?thesis using uri_roundtrip [of 0 "bytes ''a b''"] by simp
qed

text \<open>
  The count returned by the first pass of each escaping function sizes the output of the second
  pass exactly: two more bytes per escaped byte of a URI, and the returned number of bytes for HTML
  and JSON.
\<close>

theorem escape_lengths:
  "length (ngx_escape_uri type s) = length s + 2 * escape_uri_count type s \<and>
   length (ngx_escape_html s) = length s + escape_html_len s \<and>
   length (ngx_escape_json s) = length s + escape_json_len s"
  using uri.out_length [of type s] html.out_length [of s] json.out_length [of s] by simp

text \<open>
  A reader that decodes character references gets the original text back from the escaped HTML,
  and one that decodes JSON strings (and accepts no quote, no control character and no stray
  backslash in them) gets it back from the escaped JSON.
\<close>

theorem html_json_faithful:
  "html_dec (ngx_escape_html s) = Some s \<and> json_dec (ngx_escape_json s) = Some s"
  by (simp add: html.dec_out json.dec_out)

text \<open>
  The table of the Refresh header escapes the tilde and leaves the closing brace, although the
  comment beside it (and every other table) says the opposite, and it leaves the percent sign,
  so that an escaped text may decode to another one.
\<close>

theorem refresh_table_deviates:
  "escaped 4 0x7e \<and> \<not> escaped 4 0x7d \<and> \<not> escaped 0 0x7e \<and> escaped 0 0x7d \<and>
   ngx_unescape_uri 0 (ngx_escape_uri 4 (bytes ''%41'')) \<noteq> (bytes ''%41'', [])"
  by code_simp

end
