(* ===== verification/Ngx_Parser.thy ===== *)
theory Ngx_Parser
  imports Ngx_Prelude
begin

text \<open>
  The shape shared by the byte-driven parsers of src/nginx/src/http/ngx_http_parse.c: a loop
  \<^verbatim>\<open>for (p = b->pos; p < b->last; p++)\<close> with a switch on the state. A parser is a step function; it
  gets the buffer, the position \<open>p\<close>, the state and the request, and goes on, finishes (\<^verbatim>\<open>goto done\<close>)
  or returns an error. Pointers into the buffer are positions, \<^verbatim>\<open>NULL\<close> is none. When the buffer is
  exhausted the loop returns the state to resume from (\<^verbatim>\<open>NGX_AGAIN\<close>).

  The locale \<open>incremental_parser\<close> states that a step reads no byte beyond its position; it follows
  that the way a message is cut into reads never changes the result. The locale \<open>guarded_parser\<close>
  adds an invariant.
\<close>

datatype ('s, 'r, 'e) pstep = Next 's 'r | Done 'r | Fail 'e 'r

datatype ('s, 'r, 'e) presult = Again nat 's 'r | Finished nat 'r | Failed nat 'e 'r

type_synonym ('s, 'r, 'e) parser_step = "u_char list \<Rightarrow> nat \<Rightarrow> 's \<Rightarrow> 'r \<Rightarrow> ('s, 'r, 'e) pstep"

function run_parser :: "('s, 'r, 'e) parser_step \<Rightarrow> u_char list \<Rightarrow> nat \<Rightarrow> 's \<Rightarrow> 'r \<Rightarrow> ('s, 'r, 'e) presult" where
  "run_parser step buf p s r =
     (if p < length buf then
        (case step buf p s r of
           Next s' r' \<Rightarrow> run_parser step buf (Suc p) s' r'
         | Done r' \<Rightarrow> Finished p r'
         | Fail e r' \<Rightarrow> Failed p e r')
      else Again p s r)"
  by pat_completeness auto
termination by (relation "measure (\<lambda>(step, buf, p, s, r). length buf - p)") auto

declare run_parser.simps [simp del]

lemma run_parser_end: "run_parser step buf (length buf) s r = Again (length buf) s r"
  by (simp add: run_parser.simps)

lemma run_parser_next:
  "p < length buf \<Longrightarrow> step buf p s r = Next s' r' \<Longrightarrow>
     run_parser step buf p s r = run_parser step buf (Suc p) s' r'"
  by (subst run_parser.simps) simp

lemma run_parser_done: "p < length buf \<Longrightarrow> step buf p s r = Done r' \<Longrightarrow> run_parser step buf p s r = Finished p r'"
  by (subst run_parser.simps) simp

text \<open>A property of the state and the request that a run of bytes keeps.\<close>

lemma run_parser_while:
  assumes "p + n \<le> length buf" and "Q s r"
    and "\<And>i s r. p \<le> i \<Longrightarrow> i < p + n \<Longrightarrow> Q s r \<Longrightarrow> \<exists>s' r'. step buf i s r = Next s' r' \<and> Q s' r'"
  shows "\<exists>s' r'. run_parser step buf p s r = run_parser step buf (p + n) s' r' \<and> Q s' r'"
  using assms
proof (induction n arbitrary: p s r)
  case (Suc n)
  obtain s' r' where st: "step buf p s r = Next s' r'" "Q s' r'" using Suc.prems(2) Suc.prems(3) [of p s r] by auto
  then have "run_parser step buf p s r = run_parser step buf (Suc p) s' r'"
    using Suc.prems(1) by (intro run_parser_next) auto
  moreover have "\<exists>s'' r''. run_parser step buf (Suc p) s' r' = run_parser step buf (Suc p + n) s'' r'' \<and> Q s'' r''"
    using Suc.prems(1,3) st(2) by (intro Suc.IH) auto
  ultimately show ?case by simp
qed auto

section \<open>The bytes of a buffer\<close>

definition sub :: "u_char list \<Rightarrow> nat \<Rightarrow> nat \<Rightarrow> u_char list" where
  "sub buf m n = take n (drop m buf)"

lemma sub_append: "m + n \<le> length buf \<Longrightarrow> sub (buf @ more) m n = sub buf m n"
  by (simp add: sub_def)

lemma nth_sub: "i < n \<Longrightarrow> m + n \<le> length buf \<Longrightarrow> sub buf m n ! i = buf ! (m + i)"
  by (simp add: sub_def)

section \<open>Reading in pieces\<close>

fun resume :: "('s, 'r, 'e) parser_step \<Rightarrow> u_char list \<Rightarrow> ('s, 'r, 'e) presult \<Rightarrow> ('s, 'r, 'e) presult" where
  "resume step buf (Again p s r) = run_parser step buf p s r"
| "resume step buf (Finished p r) = Finished p r"
| "resume step buf (Failed p e r) = Failed p e r"

text \<open>The parser called after each read, the buffer growing by the bytes read.\<close>

fun feed :: "('s, 'r, 'e) parser_step \<Rightarrow> u_char list \<Rightarrow> u_char list list \<Rightarrow> ('s, 'r, 'e) presult \<Rightarrow> ('s, 'r, 'e) presult" where
  "feed step buf [] res = res"
| "feed step buf (c # cs) res = feed step (buf @ c) cs (resume step (buf @ c) res)"

locale incremental_parser =
  fixes step :: "('s, 'r, 'e) parser_step" and valid :: "nat \<Rightarrow> 'r \<Rightarrow> bool"
  assumes step_local: "valid p r \<Longrightarrow> p < length buf \<Longrightarrow> step (buf @ more) p s r = step buf p s r"
    and step_valid: "valid p r \<Longrightarrow> p < length buf \<Longrightarrow> step buf p s r = Next s' r' \<Longrightarrow> valid (Suc p) r'"
begin

lemma run_append:
  "valid p r \<Longrightarrow> p \<le> length buf \<Longrightarrow>
     run_parser step (buf @ more) p s r = resume step (buf @ more) (run_parser step buf p s r)"
proof (induction "length buf - p" arbitrary: p s r)
  case 0
  then have "p = length buf" by simp
  then show ?case by (simp add: run_parser_end)
next
  case (Suc n)
  then have p: "p < length buf" by simp
  have eq: "step (buf @ more) p s r = step buf p s r" by (rule step_local [OF Suc.prems(1) p])
  have ih: "run_parser step (buf @ more) (Suc p) s' r' = resume step (buf @ more) (run_parser step buf (Suc p) s' r')"
    if "step buf p s r = Next s' r'" for s' r'
    using Suc.hyps(1) [of "Suc p" r' s'] Suc.hyps(2) p step_valid [OF Suc.prems(1) p that] by simp
  show ?case
    by (subst (1 2) run_parser.simps) (use p eq ih in \<open>simp split: pstep.split\<close>)
qed

lemma feed_again:
  assumes "valid p r" "p \<le> length buf"
  shows "feed step buf cs (run_parser step buf p s r) = run_parser step (buf @ concat cs) p s r"
  using assms(2)
proof (induction cs arbitrary: buf)
  case (Cons c cs)
  have "feed step buf (c # cs) (run_parser step buf p s r) =
      feed step (buf @ c) cs (run_parser step (buf @ c) p s r)"
    using run_append [OF assms(1) Cons.prems, of c s] by simp
  also have "\<dots> = run_parser step ((buf @ c) @ concat cs) p s r"
    using Cons.prems by (intro Cons.IH) simp
  finally show ?case by simp
qed simp

lemma feed_eq: "valid 0 r \<Longrightarrow> feed step [] cs (Again 0 s r) = run_parser step (concat cs) 0 s r"
  using feed_again [of 0 r "[]" cs s] run_parser_end [of step "[]" s r] by simp

end

locale guarded_parser =
  fixes step :: "('s, 'r, 'e) parser_step" and inv :: "u_char list \<Rightarrow> nat \<Rightarrow> 's \<Rightarrow> 'r \<Rightarrow> bool"
    and fin :: "u_char list \<Rightarrow> nat \<Rightarrow> 'r \<Rightarrow> bool"
  assumes step_inv: "inv buf p s r \<Longrightarrow> p < length buf \<Longrightarrow> step buf p s r = Next s' r' \<Longrightarrow> inv buf (Suc p) s' r'"
    and step_fin: "inv buf p s r \<Longrightarrow> p < length buf \<Longrightarrow> step buf p s r = Done r' \<Longrightarrow> fin buf p r'"
begin

lemma run_inv:
  "inv buf p s r \<Longrightarrow> p \<le> length buf \<Longrightarrow>
     (case run_parser step buf p s r of Again q s' r' \<Rightarrow> q = length buf \<and> inv buf q s' r'
      | Finished q r' \<Rightarrow> p \<le> q \<and> q < length buf \<and> fin buf q r' | Failed q e r' \<Rightarrow> p \<le> q \<and> q < length buf)"
proof (induction "length buf - p" arbitrary: p s r)
  case 0
  then have "p = length buf" by simp
  then show ?case using 0 by (simp add: run_parser_end)
next
  case (Suc n)
  then have p: "p < length buf" by simp
  show ?case
  proof (cases "step buf p s r")
    case (Next s' r')
    have "n = length buf - Suc p" using Suc.hyps(2) p by simp
    from Suc.hyps(1) [OF this step_inv [OF Suc.prems(1) p Next]] show ?thesis
      using p Next by (subst run_parser.simps) (auto split: presult.splits)
  next
    case (Done r')
    then show ?thesis using p step_fin [OF Suc.prems(1) p Done] by (simp add: run_parser.simps)
  next
    case (Fail e r')
    then show ?thesis using p by (simp add: run_parser.simps)
  qed
qed

end

end
