(* ===== verification/Ngx_Request_Line.thy ===== *)
theory Ngx_Request_Line
  imports Ngx_Parser
begin

text \<open>
  The request line: \<^verbatim>\<open>ngx_http_parse_request_line\<close> (src/nginx/src/http/ngx_http_parse.c). One
  definition per state of the switch; \<open>rl_step\<close> dispatches on the state, and the loop is
  \<open>run_parser\<close> of \<^verbatim>\<open>Ngx_Parser\<close>. Where a case of the C switch falls through into the next one, the
  definition calls the next one. The buffer is the one the pointers of the request point into; the
  version numbers are fields of 16 bits.
\<close>

section \<open>State\<close>

datatype rl_state =
    sw_start | sw_method | sw_spaces_before_uri | sw_schema | sw_schema_slash
  | sw_schema_slash_slash | sw_host_start | sw_host | sw_host_end | sw_host_ip_literal | sw_port
  | sw_after_slash_in_uri | sw_check_uri | sw_uri | sw_http_09 | sw_http_H | sw_http_HT
  | sw_http_HTT | sw_http_HTTP | sw_first_major_digit | sw_major_digit | sw_first_minor_digit
  | sw_minor_digit | sw_spaces_after_digit | sw_almost_done

datatype parse_error =
    NGX_HTTP_PARSE_INVALID_METHOD | NGX_HTTP_PARSE_INVALID_REQUEST
  | NGX_HTTP_PARSE_INVALID_VERSION | NGX_HTTP_PARSE_INVALID_09_METHOD | NGX_HTTP_PARSE_INVALID_HEADER

record rl_request =
  rl_method :: nat
  request_start :: "nat option"
  request_end :: "nat option"
  method_end :: "nat option"
  schema_start :: "nat option"
  schema_end :: "nat option"
  host_start :: "nat option"
  host_end :: "nat option"
  uri_start :: "nat option"
  uri_end :: "nat option"
  uri_ext :: "nat option"
  args_start :: "nat option"
  http_protocol_data :: "nat option"
  http_major :: nat
  http_minor :: nat
  http_version :: nat
  complex_uri :: bool
  quoted_uri :: bool
  plus_in_uri :: bool
  empty_path_in_uri :: bool

abbreviation (input) CR :: u_char where "CR \<equiv> 0x0d"
abbreviation (input) LF :: u_char where "LF \<equiv> 0x0a"

definition NGX_HTTP_UNKNOWN :: nat where "NGX_HTTP_UNKNOWN = 0x0001"
definition NGX_HTTP_GET :: nat where "NGX_HTTP_GET = 0x0002"
definition NGX_HTTP_HEAD :: nat where "NGX_HTTP_HEAD = 0x0004"
definition NGX_HTTP_POST :: nat where "NGX_HTTP_POST = 0x0008"
definition NGX_HTTP_PUT :: nat where "NGX_HTTP_PUT = 0x0010"
definition NGX_HTTP_DELETE :: nat where "NGX_HTTP_DELETE = 0x0020"
definition NGX_HTTP_MKCOL :: nat where "NGX_HTTP_MKCOL = 0x0040"
definition NGX_HTTP_COPY :: nat where "NGX_HTTP_COPY = 0x0080"
definition NGX_HTTP_MOVE :: nat where "NGX_HTTP_MOVE = 0x0100"
definition NGX_HTTP_OPTIONS :: nat where "NGX_HTTP_OPTIONS = 0x0200"
definition NGX_HTTP_PROPFIND :: nat where "NGX_HTTP_PROPFIND = 0x0400"
definition NGX_HTTP_PROPPATCH :: nat where "NGX_HTTP_PROPPATCH = 0x0800"
definition NGX_HTTP_LOCK :: nat where "NGX_HTTP_LOCK = 0x1000"
definition NGX_HTTP_UNLOCK :: nat where "NGX_HTTP_UNLOCK = 0x2000"
definition NGX_HTTP_PATCH :: nat where "NGX_HTTP_PATCH = 0x4000"
definition NGX_HTTP_TRACE :: nat where "NGX_HTTP_TRACE = 0x8000"
definition NGX_HTTP_CONNECT :: nat where "NGX_HTTP_CONNECT = 0x10000"

lemmas method_values = NGX_HTTP_UNKNOWN_def NGX_HTTP_GET_def NGX_HTTP_HEAD_def NGX_HTTP_POST_def
  NGX_HTTP_PUT_def NGX_HTTP_DELETE_def NGX_HTTP_MKCOL_def NGX_HTTP_COPY_def NGX_HTTP_MOVE_def
  NGX_HTTP_OPTIONS_def NGX_HTTP_PROPFIND_def NGX_HTTP_PROPPATCH_def NGX_HTTP_LOCK_def
  NGX_HTTP_UNLOCK_def NGX_HTTP_PATCH_def NGX_HTTP_TRACE_def NGX_HTTP_CONNECT_def

text \<open>The table of the characters that are usual in a URI.\<close>

definition usual :: "32 word list" where
  "usual = [0x00000000, 0x7fff37d6, 0xffffffff, 0x7fffffff, 0xffffffff, 0xffffffff, 0xffffffff, 0xffffffff]"

definition is_usual :: "u_char \<Rightarrow> bool" where
  "is_usual ch \<longleftrightarrow> (usual ! unat (drop_bit 5 ch)) AND push_bit (unat (ch AND 0x1f)) 1 \<noteq> 0"

section \<open>Steps\<close>

type_synonym rl_result = "(rl_state, rl_request, parse_error) pstep"

definition method_char :: "u_char \<Rightarrow> bool" where
  "method_char ch \<longleftrightarrow> \<not> ((ch < 0x41 \<or> ch > 0x5a) \<and> ch \<noteq> 0x5f \<and> ch \<noteq> 0x2d)"

definition alpha_char :: "u_char \<Rightarrow> bool" where
  "alpha_char ch \<longleftrightarrow> (let c = ch OR 0x20 in c \<ge> 0x61 \<and> c \<le> 0x7a)"

definition digit_char :: "u_char \<Rightarrow> bool" where
  "digit_char ch \<longleftrightarrow> ch \<ge> 0x30 \<and> ch \<le> 0x39"

definition rl_start :: "nat \<Rightarrow> u_char \<Rightarrow> rl_request \<Rightarrow> rl_result" where
  "rl_start p ch r =
     (let r = r\<lparr>request_start := Some p\<rparr>
      in if ch = CR \<or> ch = LF then Next sw_start r
         else if \<not> method_char ch then Fail NGX_HTTP_PARSE_INVALID_METHOD r
         else Next sw_method r)"

text \<open>The switch on the length of the method; the methods are compared byte by byte.\<close>

definition rl_method_of :: "u_char list \<Rightarrow> nat \<Rightarrow> nat \<Rightarrow> nat \<Rightarrow> nat" where
  "rl_method_of buf m n old =
     (let is = (\<lambda>s. sub buf m n = bytes s)
      in if n = 3 then
           (if is ''GET'' then NGX_HTTP_GET else if is ''PUT'' then NGX_HTTP_PUT else old)
         else if n = 4 then
           (if buf ! (m + 1) = 0x4f then
              (if is ''POST'' then NGX_HTTP_POST
               else if is ''COPY'' then NGX_HTTP_COPY
               else if is ''MOVE'' then NGX_HTTP_MOVE
               else if is ''LOCK'' then NGX_HTTP_LOCK
               else old)
            else if is ''HEAD'' then NGX_HTTP_HEAD else old)
         else if n = 5 then
           (if is ''MKCOL'' then NGX_HTTP_MKCOL
            else if is ''PATCH'' then NGX_HTTP_PATCH
            else if is ''TRACE'' then NGX_HTTP_TRACE
            else old)
         else if n = 6 then
           (if is ''DELETE'' then NGX_HTTP_DELETE else if is ''UNLOCK'' then NGX_HTTP_UNLOCK else old)
         else if n = 7 then
           (if is ''CONNECT'' then NGX_HTTP_CONNECT
            else if is ''OPTIONS'' then NGX_HTTP_OPTIONS else old)
         else if n = 8 then (if is ''PROPFIND'' then NGX_HTTP_PROPFIND else old)
         else if n = 9 then (if is ''PROPPATCH'' then NGX_HTTP_PROPPATCH else old)
         else old)"

definition rl_method_step :: "u_char list \<Rightarrow> nat \<Rightarrow> u_char \<Rightarrow> rl_request \<Rightarrow> rl_result" where
  "rl_method_step buf p ch r =
     (if ch = 0x20 then
        (case request_start r of
           None \<Rightarrow> Fail NGX_HTTP_PARSE_INVALID_REQUEST r
         | Some m \<Rightarrow>
             Next sw_spaces_before_uri
               (r\<lparr>method_end := Some (p - 1), rl_method := rl_method_of buf m (p - m) (rl_method r)\<rparr>))
      else if \<not> method_char ch then Fail NGX_HTTP_PARSE_INVALID_METHOD r
      else Next sw_method r)"

definition rl_spaces_before_uri :: "nat \<Rightarrow> u_char \<Rightarrow> rl_request \<Rightarrow> rl_result" where
  "rl_spaces_before_uri p ch r =
     (if ch = 0x2f then Next sw_after_slash_in_uri (r\<lparr>uri_start := Some p\<rparr>)
      else if alpha_char ch then Next sw_schema (r\<lparr>schema_start := Some p\<rparr>)
      else if ch = 0x20 then Next sw_spaces_before_uri r
      else Fail NGX_HTTP_PARSE_INVALID_REQUEST r)"

definition rl_schema :: "nat \<Rightarrow> u_char \<Rightarrow> rl_request \<Rightarrow> rl_result" where
  "rl_schema p ch r =
     (if alpha_char ch then Next sw_schema r
      else if digit_char ch \<or> ch = 0x2b \<or> ch = 0x2d \<or> ch = 0x2e then Next sw_schema r
      else if ch = 0x3a then Next sw_schema_slash (r\<lparr>schema_end := Some p\<rparr>)
      else Fail NGX_HTTP_PARSE_INVALID_REQUEST r)"

definition rl_expect :: "u_char \<Rightarrow> rl_state \<Rightarrow> u_char \<Rightarrow> rl_request \<Rightarrow> rl_result" where
  "rl_expect want s ch r = (if ch = want then Next s r else Fail NGX_HTTP_PARSE_INVALID_REQUEST r)"

text \<open>What follows a host or a port: the slash of the URI, a question mark, or the end.\<close>

definition rl_after_host :: "nat \<Rightarrow> u_char \<Rightarrow> rl_request \<Rightarrow> rl_result" where
  "rl_after_host p ch r =
     (if ch = 0x2f then Next sw_after_slash_in_uri (r\<lparr>uri_start := Some p\<rparr>)
      else if ch = 0x3f then
        Next sw_uri (r\<lparr>uri_start := Some p, args_start := Some (p + 1), empty_path_in_uri := True\<rparr>)
      else if ch = 0x20 then
        Next sw_http_09 (r\<lparr>uri_start := map_option (\<lambda>e. e + 1) (schema_end r),
                           uri_end := map_option (\<lambda>e. e + 2) (schema_end r)\<rparr>)
      else Fail NGX_HTTP_PARSE_INVALID_REQUEST r)"

definition rl_host_end :: "nat \<Rightarrow> u_char \<Rightarrow> rl_request \<Rightarrow> rl_result" where
  "rl_host_end p ch r =
     (let r = r\<lparr>host_end := Some p\<rparr>
      in if ch = 0x3a then Next sw_port r else rl_after_host p ch r)"

definition rl_host :: "nat \<Rightarrow> u_char \<Rightarrow> rl_request \<Rightarrow> rl_result" where
  "rl_host p ch r =
     (if alpha_char ch then Next sw_host r
      else if digit_char ch \<or> ch = 0x2e \<or> ch = 0x2d then Next sw_host r
      else rl_host_end p ch r)"

definition rl_host_start :: "nat \<Rightarrow> u_char \<Rightarrow> rl_request \<Rightarrow> rl_result" where
  "rl_host_start p ch r =
     (let r = r\<lparr>host_start := Some p\<rparr>
      in if ch = 0x5b then Next sw_host_ip_literal r else rl_host p ch r)"

definition rl_host_ip_literal :: "nat \<Rightarrow> u_char \<Rightarrow> rl_request \<Rightarrow> rl_result" where
  "rl_host_ip_literal p ch r =
     (if digit_char ch then Next sw_host_ip_literal r
      else if alpha_char ch then Next sw_host_ip_literal r
      else if ch = 0x3a then Next sw_host_ip_literal r
      else if ch = 0x5d then Next sw_host_end r
      else if ch \<in> {0x2d, 0x2e, 0x5f, 0x7e} then Next sw_host_ip_literal r
      else if ch \<in> {0x21, 0x24, 0x26, 0x27, 0x28, 0x29, 0x2a, 0x2b, 0x2c, 0x3b, 0x3d} then Next sw_host_ip_literal r
      else Fail NGX_HTTP_PARSE_INVALID_REQUEST r)"

definition rl_port :: "nat \<Rightarrow> u_char \<Rightarrow> rl_request \<Rightarrow> rl_result" where
  "rl_port p ch r = (if digit_char ch then Next sw_port r else rl_after_host p ch r)"

definition rl_after_slash_in_uri :: "nat \<Rightarrow> u_char \<Rightarrow> rl_request \<Rightarrow> rl_result" where
  "rl_after_slash_in_uri p ch r =
     (if is_usual ch then Next sw_check_uri r
      else if ch = 0x20 then Next sw_http_09 (r\<lparr>uri_end := Some p\<rparr>)
      else if ch = CR then Next sw_almost_done (r\<lparr>uri_end := Some p, http_minor := 9\<rparr>)
      else if ch = LF then Done (r\<lparr>uri_end := Some p, http_minor := 9\<rparr>)
      else if ch = 0x2e then Next sw_uri (r\<lparr>complex_uri := True\<rparr>)
      else if ch = 0x25 then Next sw_uri (r\<lparr>quoted_uri := True\<rparr>)
      else if ch = 0x2f then Next sw_uri (r\<lparr>complex_uri := True\<rparr>)
      else if ch = 0x3f then Next sw_uri (r\<lparr>args_start := Some (p + 1)\<rparr>)
      else if ch = 0x23 then Next sw_uri (r\<lparr>complex_uri := True\<rparr>)
      else if ch = 0x2b then Next sw_after_slash_in_uri (r\<lparr>plus_in_uri := True\<rparr>)
      else if ch < 0x20 \<or> ch = 0x7f then Fail NGX_HTTP_PARSE_INVALID_REQUEST r
      else Next sw_check_uri r)"

definition rl_check_uri :: "nat \<Rightarrow> u_char \<Rightarrow> rl_request \<Rightarrow> rl_result" where
  "rl_check_uri p ch r =
     (if is_usual ch then Next sw_check_uri r
      else if ch = 0x2f then Next sw_after_slash_in_uri (r\<lparr>uri_ext := None\<rparr>)
      else if ch = 0x2e then Next sw_check_uri (r\<lparr>uri_ext := Some (p + 1)\<rparr>)
      else if ch = 0x20 then Next sw_http_09 (r\<lparr>uri_end := Some p\<rparr>)
      else if ch = CR then Next sw_almost_done (r\<lparr>uri_end := Some p, http_minor := 9\<rparr>)
      else if ch = LF then Done (r\<lparr>uri_end := Some p, http_minor := 9\<rparr>)
      else if ch = 0x25 then Next sw_uri (r\<lparr>quoted_uri := True\<rparr>)
      else if ch = 0x3f then Next sw_uri (r\<lparr>args_start := Some (p + 1)\<rparr>)
      else if ch = 0x23 then Next sw_uri (r\<lparr>complex_uri := True\<rparr>)
      else if ch = 0x2b then Next sw_check_uri (r\<lparr>plus_in_uri := True\<rparr>)
      else if ch < 0x20 \<or> ch = 0x7f then Fail NGX_HTTP_PARSE_INVALID_REQUEST r
      else Next sw_check_uri r)"

definition rl_uri :: "nat \<Rightarrow> u_char \<Rightarrow> rl_request \<Rightarrow> rl_result" where
  "rl_uri p ch r =
     (if is_usual ch then Next sw_uri r
      else if ch = 0x20 then Next sw_http_09 (r\<lparr>uri_end := Some p\<rparr>)
      else if ch = CR then Next sw_almost_done (r\<lparr>uri_end := Some p, http_minor := 9\<rparr>)
      else if ch = LF then Done (r\<lparr>uri_end := Some p, http_minor := 9\<rparr>)
      else if ch = 0x23 then Next sw_uri (r\<lparr>complex_uri := True\<rparr>)
      else if ch < 0x20 \<or> ch = 0x7f then Fail NGX_HTTP_PARSE_INVALID_REQUEST r
      else Next sw_uri r)"

definition rl_http_09 :: "nat \<Rightarrow> u_char \<Rightarrow> rl_request \<Rightarrow> rl_result" where
  "rl_http_09 p ch r =
     (if ch = 0x20 then Next sw_http_09 r
      else if ch = CR then Next sw_almost_done (r\<lparr>http_minor := 9\<rparr>)
      else if ch = LF then Done (r\<lparr>http_minor := 9\<rparr>)
      else if ch = 0x48 then Next sw_http_H (r\<lparr>http_protocol_data := Some p\<rparr>)
      else Fail NGX_HTTP_PARSE_INVALID_REQUEST r)"

definition rl_first_major_digit :: "u_char \<Rightarrow> rl_request \<Rightarrow> rl_result" where
  "rl_first_major_digit ch r =
     (if ch < 0x31 \<or> ch > 0x39 then Fail NGX_HTTP_PARSE_INVALID_REQUEST r
      else let r = r\<lparr>http_major := unat ch - 0x30\<rparr>
           in if http_major r > 1 then Fail NGX_HTTP_PARSE_INVALID_VERSION r
              else Next sw_major_digit r)"

definition rl_major_digit :: "u_char \<Rightarrow> rl_request \<Rightarrow> rl_result" where
  "rl_major_digit ch r =
     (if ch = 0x2e then Next sw_first_minor_digit r
      else if ch < 0x30 \<or> ch > 0x39 then Fail NGX_HTTP_PARSE_INVALID_REQUEST r
      else let r = r\<lparr>http_major := (http_major r * 10 + (unat ch - 0x30)) mod 2 ^ 16\<rparr>
           in if http_major r > 1 then Fail NGX_HTTP_PARSE_INVALID_VERSION r
              else Next sw_major_digit r)"

definition rl_first_minor_digit :: "u_char \<Rightarrow> rl_request \<Rightarrow> rl_result" where
  "rl_first_minor_digit ch r =
     (if ch < 0x30 \<or> ch > 0x39 then Fail NGX_HTTP_PARSE_INVALID_REQUEST r
      else Next sw_minor_digit (r\<lparr>http_minor := unat ch - 0x30\<rparr>))"

definition rl_minor_digit :: "u_char \<Rightarrow> rl_request \<Rightarrow> rl_result" where
  "rl_minor_digit ch r =
     (if ch = CR then Next sw_almost_done r
      else if ch = LF then Done r
      else if ch = 0x20 then Next sw_spaces_after_digit r
      else if ch < 0x30 \<or> ch > 0x39 then Fail NGX_HTTP_PARSE_INVALID_REQUEST r
      else if http_minor r > 99 then Fail NGX_HTTP_PARSE_INVALID_REQUEST r
      else Next sw_minor_digit (r\<lparr>http_minor := (http_minor r * 10 + (unat ch - 0x30)) mod 2 ^ 16\<rparr>))"

definition rl_spaces_after_digit :: "u_char \<Rightarrow> rl_request \<Rightarrow> rl_result" where
  "rl_spaces_after_digit ch r =
     (if ch = 0x20 then Next sw_spaces_after_digit r
      else if ch = CR then Next sw_almost_done r
      else if ch = LF then Done r
      else Fail NGX_HTTP_PARSE_INVALID_REQUEST r)"

definition rl_almost_done :: "nat \<Rightarrow> u_char \<Rightarrow> rl_request \<Rightarrow> rl_result" where
  "rl_almost_done p ch r =
     (let r = r\<lparr>request_end := Some (p - 1)\<rparr>
      in if ch = LF then Done r else Fail NGX_HTTP_PARSE_INVALID_REQUEST r)"

text \<open>The switch of the loop.\<close>

definition rl_step :: "(rl_state, rl_request, parse_error) parser_step" where
  "rl_step buf p s r =
     (let ch = buf ! p in
      case s of
        sw_start \<Rightarrow> rl_start p ch r
      | sw_method \<Rightarrow> rl_method_step buf p ch r
      | sw_spaces_before_uri \<Rightarrow> rl_spaces_before_uri p ch r
      | sw_schema \<Rightarrow> rl_schema p ch r
      | sw_schema_slash \<Rightarrow> rl_expect 0x2f sw_schema_slash_slash ch r
      | sw_schema_slash_slash \<Rightarrow> rl_expect 0x2f sw_host_start ch r
      | sw_host_start \<Rightarrow> rl_host_start p ch r
      | sw_host \<Rightarrow> rl_host p ch r
      | sw_host_end \<Rightarrow> rl_host_end p ch r
      | sw_host_ip_literal \<Rightarrow> rl_host_ip_literal p ch r
      | sw_port \<Rightarrow> rl_port p ch r
      | sw_after_slash_in_uri \<Rightarrow> rl_after_slash_in_uri p ch r
      | sw_check_uri \<Rightarrow> rl_check_uri p ch r
      | sw_uri \<Rightarrow> rl_uri p ch r
      | sw_http_09 \<Rightarrow> rl_http_09 p ch r
      | sw_http_H \<Rightarrow> rl_expect 0x54 sw_http_HT ch r
      | sw_http_HT \<Rightarrow> rl_expect 0x54 sw_http_HTT ch r
      | sw_http_HTT \<Rightarrow> rl_expect 0x50 sw_http_HTTP ch r
      | sw_http_HTTP \<Rightarrow> rl_expect 0x2f sw_first_major_digit ch r
      | sw_first_major_digit \<Rightarrow> rl_first_major_digit ch r
      | sw_major_digit \<Rightarrow> rl_major_digit ch r
      | sw_first_minor_digit \<Rightarrow> rl_first_minor_digit ch r
      | sw_minor_digit \<Rightarrow> rl_minor_digit ch r
      | sw_spaces_after_digit \<Rightarrow> rl_spaces_after_digit ch r
      | sw_almost_done \<Rightarrow> rl_almost_done p ch r)"

text \<open>The end of the function, after \<^verbatim>\<open>done:\<close> at position \<open>p\<close>.\<close>

definition rl_done :: "nat \<Rightarrow> rl_request \<Rightarrow> rl_request \<times> parse_error option" where
  "rl_done p r =
     (let r = (if request_end r = None then r\<lparr>request_end := Some p\<rparr> else r);
          r = r\<lparr>http_version := http_major r * 1000 + http_minor r\<rparr>
      in (r, if http_version r = 9 \<and> rl_method r \<noteq> NGX_HTTP_GET
             then Some NGX_HTTP_PARSE_INVALID_09_METHOD else None))"

datatype rl_rc = RL_OK | RL_AGAIN | RL_ERROR parse_error

text \<open>The function: the return code, the new position and state of the parser, and the request.\<close>

definition ngx_http_parse_request_line ::
  "u_char list \<Rightarrow> nat \<Rightarrow> rl_state \<Rightarrow> rl_request \<Rightarrow> rl_rc \<times> nat \<times> rl_state \<times> rl_request" where
  "ngx_http_parse_request_line buf pos s r =
     (case run_parser rl_step buf pos s r of
        Again p s' r' \<Rightarrow> (RL_AGAIN, p, s', r')
      | Failed p e r' \<Rightarrow> (RL_ERROR e, pos, s, r')
      | Finished p r' \<Rightarrow>
          (case rl_done p r' of
             (r'', None) \<Rightarrow> (RL_OK, p + 1, sw_start, r'')
           | (r'', Some e) \<Rightarrow> (RL_ERROR e, p + 1, sw_start, r'')))"

lemmas rl_step_defs = rl_start_def rl_method_step_def rl_spaces_before_uri_def rl_schema_def rl_expect_def
  rl_after_host_def rl_host_end_def rl_host_def rl_host_start_def rl_host_ip_literal_def rl_port_def
  rl_after_slash_in_uri_def rl_check_uri_def rl_uri_def rl_http_09_def rl_first_major_digit_def
  rl_major_digit_def rl_first_minor_digit_def rl_minor_digit_def rl_spaces_after_digit_def rl_almost_done_def

section \<open>Reading in pieces\<close>

text \<open>The only bytes a step reads besides the current one are those of the method, before it.\<close>

definition rl_valid :: "nat \<Rightarrow> rl_request \<Rightarrow> bool" where
  "rl_valid p r = (case request_start r of None \<Rightarrow> True | Some m \<Rightarrow> m < p)"

lemma rl_method_of_local:
  "m \<le> p \<Longrightarrow> p < length buf \<Longrightarrow> rl_method_of (buf @ rest) m (p - m) old = rl_method_of buf m (p - m) old"
  by (simp add: rl_method_of_def Let_def sub_append nth_append)

lemma rl_step_local:
  "rl_valid p r \<Longrightarrow> p < length buf \<Longrightarrow> rl_step (buf @ rest) p s r = rl_step buf p s r"
  by (cases s) (auto simp: rl_step_def rl_method_step_def rl_valid_def nth_append rl_method_of_local Let_def
      split: option.splits)

lemma rl_step_request_start:
  "rl_step buf p s r = Next s' r' \<Longrightarrow> request_start r' = request_start r \<or> request_start r' = Some p"
  by (cases s) (auto simp: rl_step_def rl_step_defs Let_def split: if_splits option.splits)

interpretation rl: incremental_parser rl_step rl_valid
proof
  show "rl_step (buf @ rest) p s r = rl_step buf p s r" if "rl_valid p r" "p < length buf" for p r buf rest s
    by (rule rl_step_local [OF that])
  show "rl_valid (Suc p) r'" if "rl_valid p r" "p < length buf" "rl_step buf p s r = Next s' r'" for p r buf s s' r'
    using that(1) rl_step_request_start [OF that(3)] by (auto simp: rl_valid_def split: option.splits)
qed

definition rl_init :: rl_request where
  "rl_init = \<lparr>rl_method = NGX_HTTP_UNKNOWN, request_start = None, request_end = None, method_end = None,
     schema_start = None, schema_end = None, host_start = None, host_end = None, uri_start = None,
     uri_end = None, uri_ext = None, args_start = None, http_protocol_data = None, http_major = 0,
     http_minor = 0, http_version = 0, complex_uri = False, quoted_uri = False, plus_in_uri = False,
     empty_path_in_uri = False\<rparr>"

text \<open>
  The request line parser gives the same result however the bytes arrive: calling it after each
  read of any division of the input into pieces, resuming from the saved state, ends in the same
  result as one call on all of the bytes.
\<close>

theorem request_line_pieces:
  "feed rl_step [] pieces (Again 0 sw_start rl_init) = run_parser rl_step (concat pieces) 0 sw_start rl_init"
  by (rule rl.feed_eq) (simp add: rl_valid_def rl_init_def)

section \<open>The pointers of an accepted request line\<close>

definition uri_byte :: "u_char \<Rightarrow> bool" where
  "uri_byte ch \<longleftrightarrow> ch > 0x20 \<and> ch \<noteq> 0x7f"

definition bytes_in :: "(u_char \<Rightarrow> bool) \<Rightarrow> u_char list \<Rightarrow> nat \<Rightarrow> nat \<Rightarrow> bool" where
  "bytes_in P buf a b \<longleftrightarrow> (\<forall>i. a \<le> i \<and> i < b \<longrightarrow> P (buf ! i))"

lemma bytes_in_Suc: "bytes_in P buf a (Suc p) \<longleftrightarrow> bytes_in P buf a p \<and> (a \<le> p \<longrightarrow> P (buf ! p))"
  by (auto simp: bytes_in_def less_Suc_eq)

lemma bytes_in_empty [simp]: "bytes_in P buf a a"
  by (auto simp: bytes_in_def)

lemma is_usual_byte: "is_usual ch \<longrightarrow> uri_byte ch"
  unfolding uri_byte_def by (rule byte_all [where c = ch]) code_simp

definition method_ok :: "u_char list \<Rightarrow> nat \<Rightarrow> rl_request \<Rightarrow> bool" where
  "method_ok buf p r =
     (case (request_start r, method_end r) of
        (Some m, Some e) \<Rightarrow> m \<le> e \<and> Suc e < p \<and> bytes_in method_char buf m (Suc e) \<and> buf ! Suc e = 0x20
      | _ \<Rightarrow> False)"

definition schema_ok :: "u_char list \<Rightarrow> nat \<Rightarrow> rl_request \<Rightarrow> bool" where
  "schema_ok buf p r =
     (case (method_end r, schema_end r) of
        (Some e, Some z) \<Rightarrow> Suc e < z \<and> z < p \<and> (Suc z < p \<longrightarrow> buf ! Suc z = 0x2f)
      | _ \<Rightarrow> False)"

definition host_ok :: "u_char list \<Rightarrow> nat \<Rightarrow> rl_request \<Rightarrow> bool" where
  "host_ok buf p r =
     (case (method_end r, schema_end r) of
        (Some e, Some z) \<Rightarrow> Suc e < z \<and> Suc (Suc z) < p \<and> buf ! Suc z = 0x2f
      | _ \<Rightarrow> False)"

definition uri_open :: "u_char list \<Rightarrow> nat \<Rightarrow> rl_request \<Rightarrow> bool" where
  "uri_open buf p r =
     (case (method_end r, uri_start r) of
        (Some e, Some u) \<Rightarrow> Suc e < u \<and> u < p \<and> bytes_in uri_byte buf u p \<and> (buf ! u = 0x2f \<or> buf ! u = 0x3f)
      | _ \<Rightarrow> False)"

definition uri_closed :: "u_char list \<Rightarrow> nat \<Rightarrow> rl_request \<Rightarrow> bool" where
  "uri_closed buf p r =
     (case (method_end r, uri_start r, uri_end r) of
        (Some e, Some u, Some ue) \<Rightarrow>
          Suc e < u \<and> u < ue \<and> ue \<le> p \<and> bytes_in uri_byte buf u ue \<and> (buf ! u = 0x2f \<or> buf ! u = 0x3f)
      | _ \<Rightarrow> False)"

definition version_ok :: "nat \<Rightarrow> nat \<Rightarrow> rl_request \<Rightarrow> bool" where
  "version_ok major minor r \<longleftrightarrow> http_major r \<le> major \<and> http_minor r \<le> minor"

fun rl_inv :: "u_char list \<Rightarrow> nat \<Rightarrow> rl_state \<Rightarrow> rl_request \<Rightarrow> bool" where
  "rl_inv buf p s r \<longleftrightarrow> request_end r = None \<and>
     (case s of
        sw_start \<Rightarrow> version_ok 0 0 r
      | sw_method \<Rightarrow> version_ok 0 0 r \<and>
          (\<exists>m. request_start r = Some m \<and> m < p \<and> bytes_in method_char buf m p)
      | sw_spaces_before_uri \<Rightarrow> version_ok 0 0 r \<and> method_ok buf p r
      | sw_schema \<Rightarrow> version_ok 0 0 r \<and> method_ok buf p r
      | sw_schema_slash \<Rightarrow> version_ok 0 0 r \<and> method_ok buf p r \<and> schema_ok buf p r \<and> schema_end r = Some (p - 1)
      | sw_schema_slash_slash \<Rightarrow> version_ok 0 0 r \<and> method_ok buf p r \<and> schema_ok buf p r \<and> schema_end r = Some (p - 2)
      | sw_after_slash_in_uri \<Rightarrow> version_ok 0 0 r \<and> method_ok buf p r \<and> uri_open buf p r
      | sw_check_uri \<Rightarrow> version_ok 0 0 r \<and> method_ok buf p r \<and> uri_open buf p r
      | sw_uri \<Rightarrow> version_ok 0 0 r \<and> method_ok buf p r \<and> uri_open buf p r
      | sw_http_09 \<Rightarrow> version_ok 0 0 r \<and> method_ok buf p r \<and> uri_closed buf (p - 1) r
      | sw_http_H \<Rightarrow> version_ok 0 0 r \<and> method_ok buf p r \<and> uri_closed buf (p - 1) r
      | sw_http_HT \<Rightarrow> version_ok 0 0 r \<and> method_ok buf p r \<and> uri_closed buf (p - 1) r
      | sw_http_HTT \<Rightarrow> version_ok 0 0 r \<and> method_ok buf p r \<and> uri_closed buf (p - 1) r
      | sw_http_HTTP \<Rightarrow> version_ok 0 0 r \<and> method_ok buf p r \<and> uri_closed buf (p - 1) r
      | sw_first_major_digit \<Rightarrow> version_ok 0 0 r \<and> method_ok buf p r \<and> uri_closed buf (p - 1) r
      | sw_major_digit \<Rightarrow> version_ok 1 0 r \<and> method_ok buf p r \<and> uri_closed buf (p - 1) r
      | sw_first_minor_digit \<Rightarrow> version_ok 1 0 r \<and> method_ok buf p r \<and> uri_closed buf (p - 1) r
      | sw_minor_digit \<Rightarrow> version_ok 1 999 r \<and> method_ok buf p r \<and> uri_closed buf (p - 1) r
      | sw_spaces_after_digit \<Rightarrow> version_ok 1 999 r \<and> method_ok buf p r \<and> uri_closed buf (p - 1) r
      | sw_almost_done \<Rightarrow> version_ok 1 999 r \<and> method_ok buf p r \<and> uri_closed buf (p - 1) r
      | _ \<Rightarrow> version_ok 0 0 r \<and> method_ok buf p r \<and> host_ok buf p r)"

definition rl_fin :: "u_char list \<Rightarrow> nat \<Rightarrow> rl_request \<Rightarrow> bool" where
  "rl_fin buf p r \<longleftrightarrow> version_ok 1 999 r \<and> method_ok buf p r \<and> buf ! p = LF \<and>
     (case request_end r of None \<Rightarrow> uri_closed buf p r | Some q \<Rightarrow> Suc q = p \<and> uri_closed buf q r)"

lemmas rl_ok_defs = method_ok_def schema_ok_def host_ok_def uri_open_def uri_closed_def version_ok_def

lemma method_ok_Suc: "method_ok buf p r \<Longrightarrow> method_ok buf (Suc p) r"
  by (auto simp: method_ok_def split: option.splits)

lemma uri_open_Suc: "uri_open buf p r \<Longrightarrow> uri_byte (buf ! p) \<Longrightarrow> uri_open buf (Suc p) r"
  by (auto simp: uri_open_def bytes_in_Suc split: option.splits)

lemma uri_closed_pred: "uri_closed buf (p - Suc 0) r \<Longrightarrow> uri_closed buf p r"
  by (auto simp: uri_closed_def split: option.splits)

lemma uri_close: "uri_open buf p r \<Longrightarrow> uri_closed buf p (r\<lparr>uri_end := Some p\<rparr>)"
  by (auto simp: uri_open_def uri_closed_def split: option.splits)

lemma host_ok_Suc: "host_ok buf p r \<Longrightarrow> host_ok buf (Suc p) r"
  by (auto simp: host_ok_def split: option.splits)

lemma uri_from_here:
  "method_ok buf p r \<Longrightarrow> buf ! p = 0x2f \<or> buf ! p = 0x3f \<Longrightarrow> uri_open buf (Suc p) (r\<lparr>uri_start := Some p\<rparr>)"
  by (auto simp: method_ok_def uri_open_def bytes_in_Suc uri_byte_def split: option.splits)

lemma uri_from_schema:
  "host_ok buf p r \<Longrightarrow> uri_closed buf p (r\<lparr>uri_start := map_option Suc (schema_end r),
     uri_end := map_option (\<lambda>e. Suc (Suc e)) (schema_end r)\<rparr>)"
  by (auto simp: host_ok_def uri_closed_def bytes_in_def uri_byte_def less_Suc_eq split: option.splits)

text \<open>The predicates do not depend on the fields a step sets besides.\<close>

lemma rl_ok_frame [simp]:
  "method_ok buf p (r\<lparr>uri_start := x\<rparr>) = method_ok buf p r"
  "method_ok buf p (r\<lparr>uri_end := x\<rparr>) = method_ok buf p r"
  "method_ok buf p (r\<lparr>uri_ext := x\<rparr>) = method_ok buf p r"
  "method_ok buf p (r\<lparr>args_start := x\<rparr>) = method_ok buf p r"
  "method_ok buf p (r\<lparr>schema_start := x\<rparr>) = method_ok buf p r"
  "method_ok buf p (r\<lparr>schema_end := x\<rparr>) = method_ok buf p r"
  "method_ok buf p (r\<lparr>host_start := x\<rparr>) = method_ok buf p r"
  "method_ok buf p (r\<lparr>host_end := x\<rparr>) = method_ok buf p r"
  "method_ok buf p (r\<lparr>http_protocol_data := x\<rparr>) = method_ok buf p r"
  "method_ok buf p (r\<lparr>http_major := n\<rparr>) = method_ok buf p r"
  "method_ok buf p (r\<lparr>http_minor := n\<rparr>) = method_ok buf p r"
  "method_ok buf p (r\<lparr>request_end := x\<rparr>) = method_ok buf p r"
  "method_ok buf p (r\<lparr>complex_uri := b\<rparr>) = method_ok buf p r"
  "method_ok buf p (r\<lparr>quoted_uri := b\<rparr>) = method_ok buf p r"
  "method_ok buf p (r\<lparr>plus_in_uri := b\<rparr>) = method_ok buf p r"
  "method_ok buf p (r\<lparr>empty_path_in_uri := b\<rparr>) = method_ok buf p r"
  "uri_open buf p (r\<lparr>uri_ext := x\<rparr>) = uri_open buf p r"
  "uri_open buf p (r\<lparr>args_start := x\<rparr>) = uri_open buf p r"
  "uri_open buf p (r\<lparr>complex_uri := b\<rparr>) = uri_open buf p r"
  "uri_open buf p (r\<lparr>quoted_uri := b\<rparr>) = uri_open buf p r"
  "uri_open buf p (r\<lparr>plus_in_uri := b\<rparr>) = uri_open buf p r"
  "uri_open buf p (r\<lparr>empty_path_in_uri := b\<rparr>) = uri_open buf p r"
  "uri_open buf p (r\<lparr>host_end := x\<rparr>) = uri_open buf p r"
  "uri_closed buf p (r\<lparr>http_minor := n\<rparr>) = uri_closed buf p r"
  "uri_closed buf p (r\<lparr>http_major := n\<rparr>) = uri_closed buf p r"
  "uri_closed buf p (r\<lparr>http_protocol_data := x\<rparr>) = uri_closed buf p r"
  "uri_closed buf p (r\<lparr>request_end := x\<rparr>) = uri_closed buf p r"
  "uri_closed buf p (r\<lparr>host_end := x\<rparr>) = uri_closed buf p r"
  "host_ok buf p (r\<lparr>host_start := x\<rparr>) = host_ok buf p r"
  "host_ok buf p (r\<lparr>host_end := x\<rparr>) = host_ok buf p r"
  by (simp_all add: rl_ok_defs)

lemmas rl_inv_intros = method_ok_Suc uri_open_Suc uri_closed_pred uri_close host_ok_Suc
  uri_from_here uri_from_schema

lemma rl_inv_start: "rl_inv buf p sw_start r \<Longrightarrow> rl_start p (buf ! p) r = Next s' r' \<Longrightarrow> rl_inv buf (Suc p) s' r'"
  by (auto simp: rl_start_def Let_def version_ok_def bytes_in_Suc split: if_splits)

lemma rl_inv_method:
  "rl_inv buf p sw_method r \<Longrightarrow> rl_method_step buf p (buf ! p) r = Next s' r' \<Longrightarrow> rl_inv buf (Suc p) s' r'"
  by (auto simp: rl_method_step_def method_ok_def version_ok_def bytes_in_Suc split: if_splits)

lemma rl_inv_schema:
  "rl_inv buf p sw_spaces_before_uri r \<Longrightarrow> rl_spaces_before_uri p (buf ! p) r = Next s' r' \<Longrightarrow> rl_inv buf (Suc p) s' r'"
  "rl_inv buf p sw_schema r \<Longrightarrow> rl_schema p (buf ! p) r = Next s' r' \<Longrightarrow> rl_inv buf (Suc p) s' r'"
  "rl_inv buf p sw_schema_slash r \<Longrightarrow> rl_expect 0x2f sw_schema_slash_slash (buf ! p) r = Next s' r' \<Longrightarrow> rl_inv buf (Suc p) s' r'"
  "rl_inv buf p sw_schema_slash_slash r \<Longrightarrow> rl_expect 0x2f sw_host_start (buf ! p) r = Next s' r' \<Longrightarrow> rl_inv buf (Suc p) s' r'"
  by (auto simp: rl_spaces_before_uri_def version_ok_def split: if_splits intro: rl_inv_intros)
    (auto simp: rl_schema_def rl_expect_def version_ok_def schema_ok_def host_ok_def method_ok_def split: if_splits option.splits)

definition in_host :: "u_char list \<Rightarrow> nat \<Rightarrow> rl_request \<Rightarrow> bool" where
  "in_host buf p r \<longleftrightarrow> request_end r = None \<and> version_ok 0 0 r \<and> method_ok buf p r \<and> host_ok buf p r"

lemma rl_inv_after_host:
  "in_host buf p r \<Longrightarrow> rl_after_host p (buf ! p) r = Next s' r' \<Longrightarrow> rl_inv buf (Suc p) s' r'"
  by (auto simp: in_host_def rl_after_host_def version_ok_def split: if_splits intro: rl_inv_intros)

lemma rl_inv_host_end:
  "in_host buf p r \<Longrightarrow> rl_host_end p (buf ! p) r = Next s' r' \<Longrightarrow> rl_inv buf (Suc p) s' r'"
  using rl_inv_after_host [of buf p "r\<lparr>host_end := Some p\<rparr>" s' r']
  by (auto simp: rl_host_end_def Let_def in_host_def version_ok_def split: if_splits intro: rl_inv_intros)

lemma rl_inv_host:
  "in_host buf p r \<Longrightarrow> rl_host p (buf ! p) r = Next s' r' \<Longrightarrow> rl_inv buf (Suc p) s' r'"
  using rl_inv_host_end [of buf p r s' r']
  by (auto simp: rl_host_def in_host_def version_ok_def split: if_splits intro: rl_inv_intros)

lemma rl_inv_hosts:
  "in_host buf p r \<Longrightarrow> rl_host_start p (buf ! p) r = Next s' r' \<Longrightarrow> rl_inv buf (Suc p) s' r'"
  "in_host buf p r \<Longrightarrow> rl_host_ip_literal p (buf ! p) r = Next s' r' \<Longrightarrow> rl_inv buf (Suc p) s' r'"
  "in_host buf p r \<Longrightarrow> rl_port p (buf ! p) r = Next s' r' \<Longrightarrow> rl_inv buf (Suc p) s' r'"
  using rl_inv_host [of buf p "r\<lparr>host_start := Some p\<rparr>" s' r'] rl_inv_after_host [of buf p r s' r']
  by (auto simp: rl_host_start_def rl_host_ip_literal_def rl_port_def Let_def in_host_def version_ok_def
      split: if_splits intro: rl_inv_intros)

lemma uri_bytes_cases:
  "is_usual ch \<Longrightarrow> uri_byte ch" "\<not> (ch < 0x20 \<or> ch = 0x7f) \<Longrightarrow> ch \<noteq> 0x20 \<Longrightarrow> uri_byte ch"
  using is_usual_byte [of ch] by (auto simp: uri_byte_def)

lemma uri_byte_signs:
  "uri_byte 0x2e" "uri_byte 0x25" "uri_byte 0x2f" "uri_byte 0x3f" "uri_byte 0x23" "uri_byte 0x2b"
  by (simp_all add: uri_byte_def)

definition in_uri :: "u_char list \<Rightarrow> nat \<Rightarrow> rl_request \<Rightarrow> bool" where
  "in_uri buf p r \<longleftrightarrow> request_end r = None \<and> version_ok 0 0 r \<and> method_ok buf p r \<and> uri_open buf p r"

lemma in_uri_byte:
  assumes "in_uri buf p r" "uri_byte (buf ! p)"
  shows "method_ok buf (Suc p) r" "uri_open buf (Suc p) r" "request_end r = None" "http_major r = 0" "http_minor r = 0"
  using assms by (auto simp: in_uri_def version_ok_def intro: rl_inv_intros)

lemma in_uri_end:
  assumes "in_uri buf p r"
  shows "method_ok buf (Suc p) r" "uri_closed buf p (r\<lparr>uri_end := Some p\<rparr>)" "request_end r = None"
    "http_major r = 0" "http_minor r = 0"
  using assms by (auto simp: in_uri_def version_ok_def intro: rl_inv_intros)

lemma rl_inv_uri:
  "in_uri buf p r \<Longrightarrow> rl_after_slash_in_uri p (buf ! p) r = Next s' r' \<Longrightarrow> rl_inv buf (Suc p) s' r'"
  "in_uri buf p r \<Longrightarrow> rl_check_uri p (buf ! p) r = Next s' r' \<Longrightarrow> rl_inv buf (Suc p) s' r'"
  "in_uri buf p r \<Longrightarrow> rl_uri p (buf ! p) r = Next s' r' \<Longrightarrow> rl_inv buf (Suc p) s' r'"
  by (cases "uri_byte (buf ! p)"; force simp: rl_after_slash_in_uri_def rl_check_uri_def rl_uri_def version_ok_def
      in_uri_byte in_uri_end uri_byte_signs uri_bytes_cases split: if_splits)+

lemma rl_inv_version:
  "rl_inv buf p sw_http_09 r \<Longrightarrow> rl_http_09 p (buf ! p) r = Next s' r' \<Longrightarrow> rl_inv buf (Suc p) s' r'"
  "rl_inv buf p sw_first_major_digit r \<Longrightarrow> rl_first_major_digit (buf ! p) r = Next s' r' \<Longrightarrow> rl_inv buf (Suc p) s' r'"
  "rl_inv buf p sw_major_digit r \<Longrightarrow> rl_major_digit (buf ! p) r = Next s' r' \<Longrightarrow> rl_inv buf (Suc p) s' r'"
  "rl_inv buf p sw_spaces_after_digit r \<Longrightarrow> rl_spaces_after_digit (buf ! p) r = Next s' r' \<Longrightarrow> rl_inv buf (Suc p) s' r'"
  by (auto simp: rl_http_09_def rl_first_major_digit_def rl_major_digit_def rl_spaces_after_digit_def Let_def
      version_ok_def split: if_splits intro: rl_inv_intros)

lemma digit_le_9: "\<not> (ch < 0x30 \<or> ch > 0x39) \<Longrightarrow> unat (ch :: u_char) - 0x30 \<le> 9"
  by (auto simp: word_less_nat_alt)

lemma rl_inv_minor:
  "rl_inv buf p sw_first_minor_digit r \<Longrightarrow> rl_first_minor_digit (buf ! p) r = Next s' r' \<Longrightarrow> rl_inv buf (Suc p) s' r'"
  "rl_inv buf p sw_minor_digit r \<Longrightarrow> rl_minor_digit (buf ! p) r = Next s' r' \<Longrightarrow> rl_inv buf (Suc p) s' r'"
  using digit_le_9 [of "buf ! p"]
  by (auto simp: rl_first_minor_digit_def rl_minor_digit_def version_ok_def split: if_splits intro: rl_inv_intros)

lemma rl_step_inv:
  assumes "rl_inv buf p s r" "rl_step buf p s r = Next s' r'"
  shows "rl_inv buf (Suc p) s' r'"
proof -
  have host: "in_host buf p r" if "s \<in> {sw_host_start, sw_host, sw_host_end, sw_host_ip_literal, sw_port}"
    using that assms(1) by (auto simp: in_host_def)
  have uri: "in_uri buf p r" if "s \<in> {sw_after_slash_in_uri, sw_check_uri, sw_uri}"
    using that assms(1) by (auto simp: in_uri_def)
  show ?thesis
  proof (cases "s \<in> {sw_http_H, sw_http_HT, sw_http_HTT, sw_http_HTTP}")
    case True
    then show ?thesis
      using assms by (auto simp: rl_step_def rl_expect_def Let_def split: if_splits intro: rl_inv_intros)
  next
    case False
    then show ?thesis
      using assms rl_inv_start [of buf p r s' r'] rl_inv_method [of buf p r s' r'] rl_inv_schema [of buf p r s' r']
        rl_inv_host_end [of buf p r s' r'] rl_inv_host [of buf p r s' r'] rl_inv_hosts [of buf p r s' r']
        rl_inv_uri [of buf p r s' r'] rl_inv_version [of buf p r s' r'] rl_inv_minor [of buf p r s' r'] host uri
      by (cases s) (simp_all add: rl_step_def Let_def rl_almost_done_def split: if_splits del: rl_inv.simps)
  qed
qed

lemma rl_step_fin:
  assumes "rl_inv buf p s r" "rl_step buf p s r = Done r'"
  shows "rl_fin buf p r'"
proof -
  have uri: "in_uri buf p r" if "s \<in> {sw_after_slash_in_uri, sw_check_uri, sw_uri}"
    using that assms(1) by (auto simp: in_uri_def)
  have closed: "method_ok buf p r' \<and> version_ok 1 999 r' \<and> request_end r' = None \<and> uri_closed buf p r'"
    if "s \<in> {sw_after_slash_in_uri, sw_check_uri, sw_uri}" "buf ! p = LF" "r' = r\<lparr>uri_end := Some p, http_minor := 9\<rparr>"
    using uri [OF that(1)] that(3) by (auto simp: in_uri_def version_ok_def intro: uri_close)
  show ?thesis
  proof (cases "s \<in> {sw_after_slash_in_uri, sw_check_uri, sw_uri}")
    case True
    then have "buf ! p = LF" "r' = r\<lparr>uri_end := Some p, http_minor := 9\<rparr>"
      using assms(2) by (auto simp: rl_step_def rl_after_slash_in_uri_def rl_check_uri_def rl_uri_def Let_def split: if_splits)
    then show ?thesis using closed [OF True] by (simp add: rl_fin_def)
  next
    case False
    then show ?thesis
      using assms
      by (cases s) (auto simp: rl_step_def rl_step_defs Let_def rl_fin_def version_ok_def
          split: if_splits option.splits intro: uri_closed_pred, auto simp: method_ok_def split: option.splits)
  qed
qed

interpretation rlg: guarded_parser rl_step rl_inv rl_fin
  by unfold_locales (use rl_step_inv rl_step_fin in blast)+

text \<open>
  C17: when the parser accepts a request line, its pointers delimit the parts of the line in order
  within the buffer: the method, of method characters only, is followed by a space, the URI comes
  after it, begins with a slash or a question mark and contains no space and no control character,
  and the line ends with a line feed at the new position; the version is 0.9 with the method GET, or
  has a major number of at most 1 and a minor number of at most 999.
\<close>

theorem request_line_sound:
  assumes "ngx_http_parse_request_line buf pos sw_start rl_init = (RL_OK, q, s, r)" "pos \<le> length buf"
  shows "\<exists>m e u ue re. request_start r = Some m \<and> method_end r = Some e \<and> uri_start r = Some u \<and>
      uri_end r = Some ue \<and> request_end r = Some re \<and>
      m \<le> e \<and> Suc e < u \<and> u < ue \<and> ue \<le> re \<and> re < q \<and> q \<le> length buf \<and>
      bytes_in method_char buf m (Suc e) \<and> buf ! Suc e = 0x20 \<and>
      bytes_in uri_byte buf u ue \<and> (buf ! u = 0x2f \<or> buf ! u = 0x3f) \<and> buf ! (q - 1) = LF \<and>
      (http_version r = 9 \<longrightarrow> rl_method r = NGX_HTTP_GET) \<and> http_version r \<le> 1999"
proof -
  obtain p r' where run: "run_parser rl_step buf pos sw_start rl_init = Finished p r'"
    and fini: "rl_done p r' = (r, None)" and q: "q = p + 1"
    using assms(1) by (auto simp: ngx_http_parse_request_line_def split: presult.splits prod.splits option.splits)
  have "rl_inv buf pos sw_start rl_init" by (simp add: rl_init_def version_ok_def)
  from rlg.run_inv [OF this assms(2)] have p: "p < length buf" and fin: "rl_fin buf p r'" by (simp_all add: run)
  have r: "r = (if request_end r' = None then r'\<lparr>request_end := Some p\<rparr> else r')
      \<lparr>http_version := http_major r' * 1000 + http_minor r'\<rparr>"
    using fini by (auto simp: rl_done_def Let_def split: if_splits)
  have get: "http_version r = 9 \<longrightarrow> rl_method r = NGX_HTTP_GET"
    using fini by (auto simp: rl_done_def Let_def split: if_splits)
  show ?thesis
    using fin get p unfolding rl_fin_def method_ok_def uri_closed_def version_ok_def r q
    by (auto split: option.splits)
qed

section \<open>Well-formed request lines are accepted\<close>

definition method_value :: "u_char list \<Rightarrow> nat" where
  "method_value mth =
     (case map_of [(bytes ''GET'', NGX_HTTP_GET), (bytes ''PUT'', NGX_HTTP_PUT), (bytes ''POST'', NGX_HTTP_POST),
        (bytes ''COPY'', NGX_HTTP_COPY), (bytes ''MOVE'', NGX_HTTP_MOVE), (bytes ''LOCK'', NGX_HTTP_LOCK),
        (bytes ''HEAD'', NGX_HTTP_HEAD), (bytes ''MKCOL'', NGX_HTTP_MKCOL), (bytes ''PATCH'', NGX_HTTP_PATCH),
        (bytes ''TRACE'', NGX_HTTP_TRACE), (bytes ''DELETE'', NGX_HTTP_DELETE), (bytes ''UNLOCK'', NGX_HTTP_UNLOCK),
        (bytes ''CONNECT'', NGX_HTTP_CONNECT), (bytes ''OPTIONS'', NGX_HTTP_OPTIONS),
        (bytes ''PROPFIND'', NGX_HTTP_PROPFIND), (bytes ''PROPPATCH'', NGX_HTTP_PROPPATCH)] mth of
      None \<Rightarrow> NGX_HTTP_UNKNOWN | Some v \<Rightarrow> v)"

lemma length_neq_bytes: "length mth \<noteq> length s \<Longrightarrow> (mth = bytes s) = False"
  by auto

lemma method_lookup:
  assumes "sub buf m n = mth" "length mth = n" "n = 4 \<Longrightarrow> buf ! Suc m = mth ! 1"
  shows "rl_method_of buf m n NGX_HTTP_UNKNOWN = method_value mth"
proof -
  consider "n = 3" | "n = 4" | "n = 5" | "n = 6" | "n = 7" | "n = 8" | "n = 9" | "n \<notin> {3, 4, 5, 6, 7, 8, 9}"
    by auto
  then show ?thesis
  proof cases
    case 2
    have four: "sub buf m 4 = mth" "length mth = 4" "buf ! Suc m = mth ! 1" using 2 assms by auto
    show ?thesis
    proof (cases "mth ! 1 = 0x4f")
      case True
      then have "mth \<noteq> bytes ''HEAD''" by (auto simp: bytes_Cons)
      then show ?thesis using 2 four True
        by (simp add: rl_method_of_def method_value_def Let_def length_neq_bytes)
    next
      case False
      then have "mth \<noteq> bytes ''POST''" "mth \<noteq> bytes ''COPY''" "mth \<noteq> bytes ''MOVE''" "mth \<noteq> bytes ''LOCK''"
        by (auto simp: bytes_Cons)
      then show ?thesis using 2 four False
        by (simp add: rl_method_of_def method_value_def Let_def length_neq_bytes)
    qed
  qed (unfold rl_method_of_def method_value_def Let_def assms(1), simp_all add: length_neq_bytes assms(2))
qed

definition uri_states :: "rl_state set" where
  "uri_states = {sw_after_slash_in_uri, sw_check_uri, sw_uri}"

text \<open>What the bytes of a URI leave as it is.\<close>

definition rl_core :: "rl_request \<Rightarrow> nat \<times> nat option \<times> nat option \<times> nat option \<times> nat option \<times> nat \<times> nat" where
  "rl_core r = (rl_method r, request_start r, request_end r, method_end r, uri_start r, http_major r, http_minor r)"

lemma rl_step_uri_byte:
  assumes "s \<in> uri_states" "uri_byte (buf ! p)"
  shows "\<exists>s' r'. rl_step buf p s r = Next s' r' \<and> s' \<in> uri_states \<and> rl_core r' = rl_core r"
proof -
  have "\<not> (buf ! p < 0x20 \<or> buf ! p = 0x7f)" "buf ! p \<noteq> 0x20" "buf ! p \<noteq> LF" "buf ! p \<noteq> CR"
    using assms(2) by (auto simp: uri_byte_def)
  then show ?thesis
    using assms(1) unfolding uri_states_def rl_core_def
    by (auto simp: rl_step_def rl_after_slash_in_uri_def rl_check_uri_def rl_uri_def Let_def)
qed

lemma rl_step_uri_space:
  assumes "s \<in> uri_states" "buf ! p = 0x20"
  shows "rl_step buf p s r = Next sw_http_09 (r\<lparr>uri_end := Some p\<rparr>)"
proof -
  have "\<not> is_usual 0x20" using is_usual_byte [of "0x20"] by (auto simp: uri_byte_def)
  then show ?thesis
    using assms unfolding uri_states_def
    by (auto simp: rl_step_def rl_after_slash_in_uri_def rl_check_uri_def rl_uri_def Let_def)
qed

lemma rl_version_tail:
  assumes "p + 9 < length buf" "sub buf p 7 = bytes ''HTTP/1.''"
    and "digit_char (buf ! (p + 7))" "buf ! (p + 8) = CR" "buf ! (p + 9) = LF"
  shows "run_parser rl_step buf p sw_http_09 r =
    Finished (p + 9) (r\<lparr>http_protocol_data := Some p, http_major := 1, http_minor := unat (buf ! (p + 7)) - 0x30,
      request_end := Some (p + 8)\<rparr>)"
proof -
  have nth: "buf ! (p + i) = bytes ''HTTP/1.'' ! i" if "i < 7" for i
    using nth_sub [of i 7 p buf] that assms(1,2) by simp
  have b: "buf ! p = 0x48" "buf ! Suc p = 0x54" "buf ! Suc (Suc p) = 0x54" "buf ! Suc (Suc (Suc p)) = 0x50"
    "buf ! Suc (Suc (Suc (Suc p))) = 0x2f" "buf ! Suc (Suc (Suc (Suc (Suc p)))) = 0x31"
    "buf ! Suc (Suc (Suc (Suc (Suc (Suc p))))) = 0x2e"
    using nth [of 0] nth [of 1] nth [of 2] nth [of 3] nth [of 4] nth [of 5] nth [of 6]
    by (simp_all add: bytes_Cons numeral_eq_Suc)
  obtain d where d: "d = buf ! (p + 7)" "buf ! Suc (Suc (Suc (Suc (Suc (Suc (Suc p)))))) = d"
    by (simp add: numeral_eq_Suc)
  have e: "buf ! Suc (Suc (Suc (Suc (Suc (Suc (Suc (Suc p))))))) = CR"
    "buf ! Suc (Suc (Suc (Suc (Suc (Suc (Suc (Suc (Suc p)))))))) = LF"
    using assms(4,5) by (simp_all add: numeral_eq_Suc)
  have len: "Suc (Suc (Suc (Suc (Suc (Suc (Suc (Suc (Suc p)))))))) < length buf"
    using assms(1) by (simp add: numeral_eq_Suc)
  have dig: "\<not> d < 0x30" "\<not> d > 0x39" using assms(3) by (auto simp: digit_char_def d(1) [symmetric])
  have nine: "p + 9 = Suc (Suc (Suc (Suc (Suc (Suc (Suc (Suc (Suc p))))))))"
    "p + 8 = Suc (Suc (Suc (Suc (Suc (Suc (Suc (Suc p)))))))" by simp_all
  show ?thesis
    unfolding d(1) [symmetric] nine using len
    by (simp add: run_parser.simps [of rl_step buf] b d(2) e dig rl_step_def rl_http_09_def rl_expect_def
        rl_first_major_digit_def rl_major_digit_def rl_first_minor_digit_def rl_minor_digit_def
        rl_almost_done_def Let_def)
qed

text \<open>The method, and the first slash of the URI.\<close>

lemma rl_method_phase:
  assumes "mth \<noteq> []" "list_all method_char mth"
    and buf: "buf = mth @ 0x20 # 0x2f # tail"
  shows "run_parser rl_step buf 0 sw_start rl_init = run_parser rl_step buf (length mth + 2) sw_after_slash_in_uri
    (rl_init\<lparr>request_start := Some 0, method_end := Some (length mth - 1), rl_method := method_value mth,
       uri_start := Some (Suc (length mth))\<rparr>)"
proof -
  let ?n = "length mth"
  let ?r0 = "rl_init\<lparr>request_start := Some 0\<rparr>"
  let ?r1 = "?r0\<lparr>method_end := Some (?n - 1), rl_method := method_value mth\<rparr>"
  have m: "buf ! i = mth ! i" if "i < ?n" for i using that by (simp add: buf nth_append)
  have sp: "buf ! ?n = 0x20" "buf ! Suc ?n = 0x2f" and len: "?n + 2 \<le> length buf" by (simp_all add: buf nth_append)
  have mc: "method_char (buf ! i)" if "i < ?n" for i using m [OF that] assms(2) that by (simp add: list_all_length)
  have m0: "\<not> (buf ! 0 = CR \<or> buf ! 0 = LF)"
    using mc [of 0] assms(1) by (auto simp: method_char_def)
  have "run_parser rl_step buf 0 sw_start rl_init = run_parser rl_step buf (Suc 0) sw_method ?r0"
    using mc [of 0] m0 assms(1) len by (intro run_parser_next) (auto simp: rl_step_def rl_start_def)
  also have "\<dots> = run_parser rl_step buf ?n sw_method ?r0"
  proof -
    have "buf ! i \<noteq> 0x20" if "i < ?n" for i using mc [OF that] by (auto simp: method_char_def)
    then have "rl_step buf i sw_method ?r0 = Next sw_method ?r0" if "i < ?n" for i
      using mc [OF that] that by (simp add: rl_step_def rl_method_step_def Let_def)
    then have "\<exists>s' r'. run_parser rl_step buf 1 sw_method ?r0 = run_parser rl_step buf (1 + (?n - 1)) s' r' \<and>
        s' = sw_method \<and> r' = ?r0"
      using len assms(1) by (intro run_parser_while) (auto simp: less_diff_conv)
    then show ?thesis using assms(1) by simp
  qed
  also have "\<dots> = run_parser rl_step buf (Suc ?n) sw_spaces_before_uri ?r1"
  proof -
    have "sub buf 0 ?n = mth" by (simp add: sub_def buf)
    moreover have "?n = 4 \<Longrightarrow> buf ! Suc 0 = mth ! 1" using m [of 1] by simp
    ultimately have "rl_method_of buf 0 ?n NGX_HTTP_UNKNOWN = method_value mth" by (intro method_lookup) auto
    then show ?thesis
      using len sp by (intro run_parser_next) (simp_all add: rl_step_def rl_method_step_def rl_init_def)
  qed
  also have "\<dots> = run_parser rl_step buf (?n + 2) sw_after_slash_in_uri (?r1\<lparr>uri_start := Some (Suc ?n)\<rparr>)"
    using len sp run_parser_next [of "Suc ?n" buf rl_step sw_spaces_before_uri ?r1 sw_after_slash_in_uri "?r1\<lparr>uri_start := Some (Suc ?n)\<rparr>"]
    by (simp add: rl_step_def rl_spaces_before_uri_def)
  finally show ?thesis by simp
qed

text \<open>The bytes of the URI and the space after it.\<close>

lemma rl_uri_phase:
  assumes "s \<in> uri_states" "bytes_in uri_byte buf p (p + k)" "buf ! (p + k) = 0x20" "p + k < length buf"
  shows "\<exists>r'. run_parser rl_step buf p s r =
      run_parser rl_step buf (p + k + 1) sw_http_09 (r'\<lparr>uri_end := Some (p + k)\<rparr>) \<and> rl_core r' = rl_core r"
proof -
  have "\<exists>s' r'. run_parser rl_step buf p s r = run_parser rl_step buf (p + k) s' r' \<and>
      s' \<in> uri_states \<and> rl_core r' = rl_core r"
  proof (rule run_parser_while)
    fix i s' r'
    assume "p \<le> i" "i < p + k" and q: "s' \<in> uri_states \<and> rl_core r' = rl_core r"
    then have "uri_byte (buf ! i)" using assms(2) by (simp add: bytes_in_def)
    from rl_step_uri_byte [of s' buf i r', OF _ this] q
    show "\<exists>s'' r''. rl_step buf i s' r' = Next s'' r'' \<and> s'' \<in> uri_states \<and> rl_core r'' = rl_core r" by auto
  qed (use assms in auto)
  then obtain s' r' where "run_parser rl_step buf p s r = run_parser rl_step buf (p + k) s' r'"
    and s': "s' \<in> uri_states" and core: "rl_core r' = rl_core r" by blast
  moreover have "run_parser rl_step buf (p + k) s' r' =
      run_parser rl_step buf (Suc (p + k)) sw_http_09 (r'\<lparr>uri_end := Some (p + k)\<rparr>)"
    using assms(3,4) s' by (intro run_parser_next rl_step_uri_space) auto
  ultimately show ?thesis by auto
qed

text \<open>
  C18: a line of a method, a URI that begins with a slash, and the version 1.x is accepted: the method
  is recognised, the pointers delimit exactly the method, the URI and the line, and the parser stops
  after the line feed, whatever follows.
\<close>

theorem request_line_complete:
  assumes "mth \<noteq> []" "list_all method_char mth" "list_all uri_byte us" "digit_char d"
  shows "\<exists>r. ngx_http_parse_request_line
        (mth @ [0x20] @ (0x2f # us) @ [0x20] @ bytes ''HTTP/1.'' @ [d, CR, LF] @ rest) 0 sw_start rl_init =
      (RL_OK, length mth + length us + 13, sw_start, r) \<and>
    rl_method r = method_value mth \<and> request_start r = Some 0 \<and> method_end r = Some (length mth - 1) \<and>
    uri_start r = Some (length mth + 1) \<and> uri_end r = Some (length mth + 2 + length us) \<and>
    request_end r = Some (length mth + length us + 11) \<and> http_version r = 1000 + (unat d - 0x30)"
proof -
  let ?p = "length mth + 2" and ?k = "length us"
  let ?P = "?p + ?k + 1"
  define buf where "buf = mth @ [0x20] @ (0x2f # us) @ [0x20] @ bytes ''HTTP/1.'' @ [d, CR, LF] @ rest"
  have u: "buf ! (?p + i) = us ! i" if "i < ?k" for i using that by (simp add: buf_def nth_append)
  have t: "buf ! (?p + ?k + i) = (0x20 # bytes ''HTTP/1.'' @ [d, CR, LF] @ rest) ! i" for i
    by (simp add: buf_def nth_append)
  have len: "?P + 9 < length buf" by (simp add: buf_def)
  have uri: "bytes_in uri_byte buf ?p (?p + ?k)" unfolding bytes_in_def
  proof (intro allI impI)
    fix i assume "?p \<le> i \<and> i < ?p + ?k"
    then obtain j where j: "i = ?p + j" "j < ?k" by (metis le_Suc_ex nat_add_left_cancel_less)
    show "uri_byte (buf ! i)" unfolding j(1) u [OF j(2)] using assms(3) j(2) by (simp add: list_all_length)
  qed
  have e: "?P + 7 = ?p + ?k + 8" "?P + 8 = ?p + ?k + 9" "?P + 9 = ?p + ?k + 10" by simp_all
  have tail: "buf ! (?P + 7) = d" "buf ! (?P + 8) = CR" "buf ! (?P + 9) = LF"
    unfolding e t by (simp_all add: bytes_Cons)
  have sub: "sub buf ?P 7 = bytes ''HTTP/1.''" by (simp add: sub_def buf_def numeral_3_eq_3)
  have dig: "digit_char (buf ! (?P + 7))" unfolding tail(1) by (rule assms(4))
  let ?r = "rl_init\<lparr>request_start := Some 0, method_end := Some (length mth - 1), rl_method := method_value mth,
    uri_start := Some (Suc (length mth))\<rparr>"
  obtain r where "run_parser rl_step buf ?p sw_after_slash_in_uri ?r =
      run_parser rl_step buf ?P sw_http_09 (r\<lparr>uri_end := Some (?p + ?k)\<rparr>)" and core: "rl_core r = rl_core ?r"
    using rl_uri_phase [OF _ uri, of sw_after_slash_in_uri ?r] t [of 0] len by (auto simp: uri_states_def)
  moreover have "run_parser rl_step buf 0 sw_start rl_init = run_parser rl_step buf ?p sw_after_slash_in_uri ?r"
    by (rule rl_method_phase [OF assms(1,2)]) (simp add: buf_def)
  ultimately have C: "run_parser rl_step buf 0 sw_start rl_init = Finished (?P + 9)
      (r\<lparr>uri_end := Some (?p + ?k), http_protocol_data := Some ?P, http_major := 1,
         http_minor := unat d - 0x30, request_end := Some (?P + 8)\<rparr>)"
    using rl_version_tail [OF len sub dig tail(2,3)] unfolding tail(1) by (simp only:)
  show ?thesis
    using core unfolding buf_def [symmetric] ngx_http_parse_request_line_def C
    by (simp add: rl_done_def rl_core_def)
qed

theorem request_line_complete_witness:
  "\<exists>r. ngx_http_parse_request_line (bytes ''GET /a HTTP/1.1'' @ [CR, LF]) 0 sw_start rl_init =
      (RL_OK, 17, sw_start, r) \<and> rl_method r = NGX_HTTP_GET \<and> http_version r = 1001 \<and> uri_end r = Some 6"
proof -
  have "bytes ''GET /a HTTP/1.1'' @ [CR, LF] =
      bytes ''GET'' @ [0x20] @ (0x2f # bytes ''a'') @ [0x20] @ bytes ''HTTP/1.'' @ [0x31, CR, LF] @ []"
    by (simp add: bytes_Cons)
  moreover have "list_all method_char (bytes ''GET'')" "list_all uri_byte (bytes ''a'')" "digit_char 0x31"
    by (simp_all add: bytes_Cons method_char_def uri_byte_def digit_char_def)
  moreover have "method_value (bytes ''GET'') = NGX_HTTP_GET" by (simp add: method_value_def)
  ultimately show ?thesis
    using request_line_complete [of "bytes ''GET''" "bytes ''a''" "0x31" "[]"] by (auto simp: bytes_Cons)
qed

theorem request_line_sound_witness:
  "\<exists>q r m e. ngx_http_parse_request_line (bytes ''GET /a HTTP/1.1'' @ [CR, LF]) 0 sw_start rl_init =
      (RL_OK, q, sw_start, r) \<and> request_start r = Some m \<and> method_end r = Some e \<and> m \<le> e"
proof -
  let ?b = "bytes ''GET /a HTTP/1.1'' @ [CR, LF]"
  let ?x = "ngx_http_parse_request_line ?b 0 sw_start rl_init"
  have "fst ?x = RL_OK" "fst (snd (snd ?x)) = sw_start" by code_simp+
  then obtain q r where x: "?x = (RL_OK, q, sw_start, r)" by (metis prod.collapse)
  show ?thesis using request_line_sound [OF x] x by auto
qed

end
