(* ===== verification/Ngx_Header_Line.thy ===== *)
theory Ngx_Header_Line
  imports Ngx_Request_Line
begin

text \<open>
  One header line: \<^verbatim>\<open>ngx_http_parse_header_line\<close> (src/nginx/src/http/ngx_http_parse.c). The local
  variables of the function (the state, the hash and the index into the lower case name) are the
  state of the parser, the rest is the request. \<^verbatim>\<open>goto done\<close> and \<^verbatim>\<open>goto header_done\<close> finish with
  different return codes, kept in \<open>hl_rc\<close>.
\<close>

section \<open>State\<close>

datatype hl_sw =
    hl_start | hl_name | hl_space_before_value | hl_value | hl_space_after_value | hl_ignore_line
  | hl_almost_done | hl_header_almost_done

datatype hl_code = HL_OK | HL_HEADER_DONE

record hl_request =
  header_hash :: nat
  lowcase_index :: nat
  lowcase_header :: "u_char list"
  header_name_start :: "nat option"
  header_name_end :: "nat option"
  header_start :: "nat option"
  header_end :: "nat option"
  invalid_header :: bool
  hl_upstream :: bool
  hl_rc :: hl_code

type_synonym hl_state = "hl_sw \<times> nat \<times> nat"

type_synonym hl_result = "(hl_state, hl_request, parse_error) pstep"

definition NGX_HTTP_LC_HEADER_LEN :: nat where
  "NGX_HTTP_LC_HEADER_LEN = 32"

definition ngx_hash :: "nat \<Rightarrow> u_char \<Rightarrow> nat" where
  "ngx_hash key c = (key * 31 + unat c) mod 2 ^ 64"

definition lowcase :: "u_char list" where
  "lowcase = replicate 32 0 @ replicate 13 0 @ bytes ''-'' @ replicate 2 0 @ bytes ''0123456789'' @ replicate 6 0 @
     [0] @ bytes ''abcdefghijklmnopqrstuvwxyz'' @ replicate 5 0 @
     [0] @ bytes ''abcdefghijklmnopqrstuvwxyz'' @ replicate 5 0 @ replicate 128 0"

section \<open>Steps\<close>

definition hl_done :: "nat \<Rightarrow> nat \<Rightarrow> hl_request \<Rightarrow> hl_result" where
  "hl_done hash i r = Done (r\<lparr>header_hash := hash, lowcase_index := i, hl_rc := HL_OK\<rparr>)"

definition hl_header_done :: "hl_request \<Rightarrow> hl_result" where
  "hl_header_done r = Done (r\<lparr>hl_rc := HL_HEADER_DONE\<rparr>)"

definition hl_invalid :: "nat \<Rightarrow> hl_request \<Rightarrow> hl_result" where
  "hl_invalid p r = Fail NGX_HTTP_PARSE_INVALID_HEADER (r\<lparr>header_end := Some p\<rparr>)"

definition hl_start_step :: "bool \<Rightarrow> nat \<Rightarrow> u_char \<Rightarrow> nat \<Rightarrow> nat \<Rightarrow> hl_request \<Rightarrow> hl_result" where
  "hl_start_step allow_underscores p ch hash i r =
     (let r = r\<lparr>header_name_start := Some p, invalid_header := False\<rparr>
      in if ch = CR then Next (hl_header_almost_done, hash, i) (r\<lparr>header_end := Some p\<rparr>)
         else if ch = LF then hl_header_done (r\<lparr>header_end := Some p\<rparr>)
         else let c = lowcase ! unat ch
              in if c \<noteq> 0 then
                   Next (hl_name, ngx_hash 0 c, 1) (r\<lparr>lowcase_header := (lowcase_header r)[0 := c]\<rparr>)
                 else if ch = 0x5f then
                   (if allow_underscores then
                      Next (hl_name, ngx_hash 0 ch, 1) (r\<lparr>lowcase_header := (lowcase_header r)[0 := ch]\<rparr>)
                    else Next (hl_name, 0, 0) (r\<lparr>invalid_header := True\<rparr>))
                 else if ch \<le> 0x20 \<or> ch = 0x7f \<or> ch = 0x3a then hl_invalid p r
                 else Next (hl_name, 0, 0) (r\<lparr>invalid_header := True\<rparr>))"

definition hl_name_step :: "bool \<Rightarrow> u_char list \<Rightarrow> nat \<Rightarrow> u_char \<Rightarrow> nat \<Rightarrow> nat \<Rightarrow> hl_request \<Rightarrow> hl_result" where
  "hl_name_step allow_underscores buf p ch hash i r =
     (let c = lowcase ! unat ch
      in if c \<noteq> 0 then
           Next (hl_name, ngx_hash hash c, (i + 1) AND (NGX_HTTP_LC_HEADER_LEN - 1))
             (r\<lparr>lowcase_header := (lowcase_header r)[i := c]\<rparr>)
         else if ch = 0x5f then
           (if allow_underscores then
              Next (hl_name, ngx_hash hash ch, (i + 1) AND (NGX_HTTP_LC_HEADER_LEN - 1))
                (r\<lparr>lowcase_header := (lowcase_header r)[i := ch]\<rparr>)
            else Next (hl_name, hash, i) (r\<lparr>invalid_header := True\<rparr>))
         else if ch = 0x3a then Next (hl_space_before_value, hash, i) (r\<lparr>header_name_end := Some p\<rparr>)
         else if ch = CR then
           Next (hl_almost_done, hash, i)
             (r\<lparr>header_name_end := Some p, header_start := Some p, header_end := Some p\<rparr>)
         else if ch = LF then
           hl_done hash i (r\<lparr>header_name_end := Some p, header_start := Some p, header_end := Some p\<rparr>)
         else if ch = 0x2f \<and> hl_upstream r \<and>
             (case header_name_start r of None \<Rightarrow> False
              | Some s \<Rightarrow> p - s = 4 \<and> sub buf s 4 = bytes ''HTTP'')
           then Next (hl_ignore_line, hash, i) r
         else if ch \<le> 0x20 \<or> ch = 0x7f then hl_invalid p r
         else Next (hl_name, hash, i) (r\<lparr>invalid_header := True\<rparr>))"

definition hl_space_before_value_step :: "nat \<Rightarrow> u_char \<Rightarrow> nat \<Rightarrow> nat \<Rightarrow> hl_request \<Rightarrow> hl_result" where
  "hl_space_before_value_step p ch hash i r =
     (if ch = 0x20 then Next (hl_space_before_value, hash, i) r
      else if ch = CR then Next (hl_almost_done, hash, i) (r\<lparr>header_start := Some p, header_end := Some p\<rparr>)
      else if ch = LF then hl_done hash i (r\<lparr>header_start := Some p, header_end := Some p\<rparr>)
      else if ch = 0 then hl_invalid p r
      else Next (hl_value, hash, i) (r\<lparr>header_start := Some p\<rparr>))"

definition hl_value_step :: "nat \<Rightarrow> u_char \<Rightarrow> nat \<Rightarrow> nat \<Rightarrow> hl_request \<Rightarrow> hl_result" where
  "hl_value_step p ch hash i r =
     (if ch = 0x20 then Next (hl_space_after_value, hash, i) (r\<lparr>header_end := Some p\<rparr>)
      else if ch = CR then Next (hl_almost_done, hash, i) (r\<lparr>header_end := Some p\<rparr>)
      else if ch = LF then hl_done hash i (r\<lparr>header_end := Some p\<rparr>)
      else if ch = 0 then hl_invalid p r
      else Next (hl_value, hash, i) r)"

definition hl_space_after_value_step :: "nat \<Rightarrow> u_char \<Rightarrow> nat \<Rightarrow> nat \<Rightarrow> hl_request \<Rightarrow> hl_result" where
  "hl_space_after_value_step p ch hash i r =
     (if ch = 0x20 then Next (hl_space_after_value, hash, i) r
      else if ch = CR then Next (hl_almost_done, hash, i) r
      else if ch = LF then hl_done hash i r
      else if ch = 0 then hl_invalid p r
      else Next (hl_value, hash, i) r)"

definition hl_ignore_line_step :: "u_char \<Rightarrow> nat \<Rightarrow> nat \<Rightarrow> hl_request \<Rightarrow> hl_result" where
  "hl_ignore_line_step ch hash i r =
     (if ch = LF then Next (hl_start, hash, i) r else Next (hl_ignore_line, hash, i) r)"

definition hl_almost_done_step :: "u_char \<Rightarrow> nat \<Rightarrow> nat \<Rightarrow> hl_request \<Rightarrow> hl_result" where
  "hl_almost_done_step ch hash i r =
     (if ch = LF then hl_done hash i r
      else if ch = CR then Next (hl_almost_done, hash, i) r
      else Fail NGX_HTTP_PARSE_INVALID_HEADER r)"

definition hl_header_almost_done_step :: "u_char \<Rightarrow> hl_request \<Rightarrow> hl_result" where
  "hl_header_almost_done_step ch r =
     (if ch = LF then hl_header_done r else Fail NGX_HTTP_PARSE_INVALID_HEADER r)"

definition hl_step :: "bool \<Rightarrow> (hl_state, hl_request, parse_error) parser_step" where
  "hl_step allow_underscores buf p s r =
     (case s of (sw, hash, i) \<Rightarrow>
        let ch = buf ! p in
        case sw of
          hl_start \<Rightarrow> hl_start_step allow_underscores p ch hash i r
        | hl_name \<Rightarrow> hl_name_step allow_underscores buf p ch hash i r
        | hl_space_before_value \<Rightarrow> hl_space_before_value_step p ch hash i r
        | hl_value \<Rightarrow> hl_value_step p ch hash i r
        | hl_space_after_value \<Rightarrow> hl_space_after_value_step p ch hash i r
        | hl_ignore_line \<Rightarrow> hl_ignore_line_step ch hash i r
        | hl_almost_done \<Rightarrow> hl_almost_done_step ch hash i r
        | hl_header_almost_done \<Rightarrow> hl_header_almost_done_step ch r)"

datatype hl_return = HL_RC hl_code | HL_AGAIN | HL_ERROR parse_error

text \<open>The function: the return code, the new position and saved state, and the request.\<close>

definition ngx_http_parse_header_line ::
  "bool \<Rightarrow> u_char list \<Rightarrow> nat \<Rightarrow> hl_sw \<Rightarrow> hl_request \<Rightarrow> hl_return \<times> nat \<times> hl_sw \<times> hl_request" where
  "ngx_http_parse_header_line allow_underscores buf pos sw r =
     (case run_parser (hl_step allow_underscores) buf pos (sw, header_hash r, lowcase_index r) r of
        Again p (sw', hash, i) r' \<Rightarrow> (HL_AGAIN, p, sw', r'\<lparr>header_hash := hash, lowcase_index := i\<rparr>)
      | Finished p r' \<Rightarrow> (HL_RC (hl_rc r'), p + 1, hl_start, r')
      | Failed p e r' \<Rightarrow> (HL_ERROR e, pos, sw, r'))"

lemmas hl_step_defs = hl_done_def hl_header_done_def hl_invalid_def hl_start_step_def hl_name_step_def
  hl_space_before_value_step_def hl_value_step_def hl_space_after_value_step_def hl_ignore_line_step_def
  hl_almost_done_step_def hl_header_almost_done_step_def

section \<open>Reading in pieces\<close>

lemma hl_name_step_local:
  assumes "p < length buf"
  shows "hl_name_step au (buf @ rest) p ch hash i r = hl_name_step au buf p ch hash i r"
proof -
  have "(case header_name_start r of None \<Rightarrow> False | Some s \<Rightarrow> p - s = 4 \<and> sub (buf @ rest) s 4 = w) =
      (case header_name_start r of None \<Rightarrow> False | Some s \<Rightarrow> p - s = 4 \<and> sub buf s 4 = w)" for w
    using assms by (auto simp: sub_append split: option.splits)
  then show ?thesis by (simp add: hl_name_step_def Let_def)
qed

lemma hl_step_local: "p < length buf \<Longrightarrow> hl_step au (buf @ rest) p s r = hl_step au buf p s r"
  by (cases s) (simp add: hl_step_def hl_name_step_local nth_append Let_def split: hl_sw.split)

interpretation hl: incremental_parser "hl_step au" "\<lambda>p r. True" for au
  by unfold_locales (simp_all add: hl_step_local)

section \<open>What an accepted header line contains\<close>

definition name_byte :: "u_char \<Rightarrow> bool" where
  "name_byte ch \<longleftrightarrow> ch > 0x20 \<and> ch \<noteq> 0x7f \<and> ch \<noteq> 0x3a"

definition value_byte :: "u_char \<Rightarrow> bool" where
  "value_byte ch \<longleftrightarrow> ch \<noteq> CR \<and> ch \<noteq> LF \<and> ch \<noteq> 0"

definition lower :: "u_char \<Rightarrow> u_char" where
  "lower ch = (if 0x41 \<le> ch \<and> ch \<le> 0x5a then ch + 0x20 else ch)"

definition name_hash :: "u_char list \<Rightarrow> nat" where
  "name_hash name = foldl (\<lambda>h c. ngx_hash h (lower c)) 0 name"

definition lowcase_spec :: "u_char \<Rightarrow> u_char" where
  "lowcase_spec ch =
     (if ch = 0x2d \<or> digit_char ch \<or> 0x61 \<le> ch \<and> ch \<le> 0x7a then ch
      else if 0x41 \<le> ch \<and> ch \<le> 0x5a then ch + 0x20 else 0)"

lemma lowcase_nth: "lowcase ! unat ch = lowcase_spec ch"
  by (rule byte_table) code_simp

lemma lowcase_char: "lowcase_spec ch \<noteq> 0 \<longrightarrow> lowcase_spec ch = lower ch \<and> name_byte ch"
  by (rule byte_all [where c = ch]) code_simp

lemma underscore: "lower 0x5f = 0x5f" "name_byte 0x5f" "lowcase_spec 0x5f = 0"
  by code_simp+

text \<open>The name read so far, and the hash of it while it is valid.\<close>

definition hashed :: "u_char list \<Rightarrow> nat \<Rightarrow> nat \<Rightarrow> nat \<Rightarrow> hl_request \<Rightarrow> bool" where
  "hashed buf s e hash r \<longleftrightarrow> (invalid_header r \<or> hash = name_hash (sub buf s (e - s)))"

definition named :: "u_char list \<Rightarrow> nat \<Rightarrow> hl_request \<Rightarrow> nat \<Rightarrow> bool" where
  "named buf p r hash =
     (case (header_name_start r, header_name_end r) of
        (Some s, Some e) \<Rightarrow> s < e \<and> e \<le> p \<and> bytes_in name_byte buf s e \<and> hashed buf s e hash r
      | _ \<Rightarrow> False)"

fun hl_inv :: "u_char list \<Rightarrow> nat \<Rightarrow> hl_state \<Rightarrow> hl_request \<Rightarrow> bool" where
  "hl_inv buf p (sw, hash, i) r =
     (case sw of
        hl_name \<Rightarrow>
          (case header_name_start r of None \<Rightarrow> False
           | Some s \<Rightarrow> s < p \<and> bytes_in name_byte buf s p \<and> hashed buf s p hash r)
      | hl_space_before_value \<Rightarrow> named buf p r hash
      | hl_value \<Rightarrow> named buf p r hash \<and>
          (case (header_name_end r, header_start r) of
             (Some e, Some v) \<Rightarrow> e \<le> v \<and> v < p \<and> bytes_in value_byte buf v p | _ \<Rightarrow> False)
      | hl_space_after_value \<Rightarrow> named buf p r hash \<and>
          (case (header_name_end r, header_start r, header_end r) of
             (Some e, Some v, Some he) \<Rightarrow> e \<le> v \<and> v \<le> he \<and> he \<le> p \<and> v < p \<and> bytes_in value_byte buf v p | _ \<Rightarrow> False)
      | hl_almost_done \<Rightarrow> named buf p r hash \<and>
          (case (header_name_end r, header_start r, header_end r) of
             (Some e, Some v, Some he) \<Rightarrow> e \<le> v \<and> v \<le> he \<and> he \<le> p \<and> bytes_in value_byte buf v he | _ \<Rightarrow> False)
      | _ \<Rightarrow> True)"

definition hl_fin :: "u_char list \<Rightarrow> nat \<Rightarrow> hl_request \<Rightarrow> bool" where
  "hl_fin buf p r \<longleftrightarrow> buf ! p = LF \<and> (hl_rc r = HL_HEADER_DONE \<or>
     named buf p r (header_hash r) \<and>
     (case (header_name_end r, header_start r, header_end r) of
        (Some e, Some v, Some he) \<Rightarrow> e \<le> v \<and> v \<le> he \<and> he \<le> p \<and> bytes_in value_byte buf v he | _ \<Rightarrow> False))"

lemma sub_Suc: "s \<le> p \<Longrightarrow> p < length buf \<Longrightarrow> sub buf s (Suc p - s) = sub buf s (p - s) @ [buf ! p]"
  by (simp add: sub_def Suc_diff_le take_Suc_conv_app_nth)

lemma name_hash_snoc: "name_hash (name @ [c]) = ngx_hash (name_hash name) (lower c)"
  by (simp add: name_hash_def)

lemma hl_inv_start:
  assumes "hl_start_step au p (buf ! p) hash i r = Next s' r'" "p < length buf"
  shows "hl_inv buf (Suc p) s' r'"
  using assms lowcase_char [of "buf ! p"] sub_Suc [of p p buf]
  by (auto simp: hl_start_step_def Let_def lowcase_nth hl_header_done_def hl_invalid_def hashed_def bytes_in_Suc
      name_hash_snoc underscore name_byte_def sub_def name_hash_def not_le split: if_splits)

lemma hl_inv_name:
  assumes "hl_inv buf p (hl_name, hash, i) r" "hl_name_step au buf p (buf ! p) hash i r = Next s' r'" "p < length buf"
  shows "hl_inv buf (Suc p) s' r'"
proof -
  obtain s where s: "header_name_start r = Some s" "s < p" "bytes_in name_byte buf s p" "hashed buf s p hash r"
    using assms(1) by (auto split: option.splits)
  show ?thesis
    using assms(2) s lowcase_char [of "buf ! p"] sub_Suc [of s p buf] assms(3)
    by (auto simp: hl_name_step_def Let_def lowcase_nth hl_done_def hl_invalid_def hashed_def named_def bytes_in_Suc
        name_hash_snoc underscore name_byte_def not_le split: if_splits)
qed

lemma bytes_in_mono: "bytes_in P buf a b \<Longrightarrow> b' \<le> b \<Longrightarrow> bytes_in P buf a b'"
  by (auto simp: bytes_in_def)

lemma named_Suc: "named buf p r hash \<Longrightarrow> named buf (Suc p) r hash"
  by (auto simp: named_def split: option.splits)

lemma named_frame [simp]:
  "named buf p (r\<lparr>header_start := x\<rparr>) hash = named buf p r hash"
  "named buf p (r\<lparr>header_end := x\<rparr>) hash = named buf p r hash"
  "named buf p (r\<lparr>header_hash := h, lowcase_index := i, hl_rc := c\<rparr>) hash = named buf p r hash"
  by (simp_all add: named_def hashed_def split: option.split)

lemma named_le: "named buf p r hash \<Longrightarrow> \<exists>e. header_name_end r = Some e \<and> e \<le> p"
  by (auto simp: named_def split: option.splits)

lemma hl_step_inv:
  assumes "hl_inv buf p s r" "hl_step au buf p s r = Next s' r'" "p < length buf"
  shows "hl_inv buf (Suc p) s' r'"
proof -
  obtain sw hash i where s: "s = (sw, hash, i)" by (cases s)
  show ?thesis
  proof (cases sw)
    case hl_start
    then show ?thesis using assms(2,3) s hl_inv_start by (simp add: hl_step_def)
  next
    case hl_name
    then show ?thesis using assms s hl_inv_name by (simp add: hl_step_def del: hl_inv.simps)
  qed (use assms s named_le [of buf p r hash] in \<open>auto simp: hl_step_def Let_def hl_space_before_value_step_def hl_value_step_def
      hl_space_after_value_step_def hl_ignore_line_step_def hl_almost_done_step_def hl_header_almost_done_step_def
      hl_done_def hl_header_done_def hl_invalid_def bytes_in_Suc value_byte_def intro: named_Suc bytes_in_mono
      split: if_splits option.splits\<close>)
qed

lemma hl_step_fin:
  assumes "hl_inv buf p s r" "hl_step au buf p s r = Done r'" "p < length buf"
  shows "hl_fin buf p r'"
proof -
  obtain sw hash i where s: "s = (sw, hash, i)" by (cases s)
  show ?thesis
    using assms s named_le [of buf p r hash]
    by (cases sw) (auto simp: hl_step_def Let_def hl_step_defs hl_fin_def split: if_splits option.splits,
      auto simp: named_def hashed_def split: option.splits intro: bytes_in_mono)
qed

interpretation hlg: guarded_parser "hl_step au" hl_inv hl_fin for au
  by unfold_locales (use hl_step_inv hl_step_fin in blast)+

text \<open>
  C25: an accepted header line (return code \<^verbatim>\<open>NGX_OK\<close>) has a non-empty name without spaces, control
  characters and colons, and a value without carriage returns, line feeds and zero bytes, delimited
  in order within the buffer; the line ends with a line feed at the new position; and unless the
  name was marked invalid, the hash the request carries is the hash of the name in lower case.
\<close>

theorem header_line_sound:
  assumes "ngx_http_parse_header_line au buf pos hl_start r = (HL_RC HL_OK, q, sw, r')" "pos \<le> length buf"
  shows "\<exists>s e v he. header_name_start r' = Some s \<and> header_name_end r' = Some e \<and> header_start r' = Some v \<and>
      header_end r' = Some he \<and> s < e \<and> e \<le> v \<and> v \<le> he \<and> he < q \<and> q \<le> length buf \<and>
      bytes_in name_byte buf s e \<and> bytes_in value_byte buf v he \<and> buf ! (q - 1) = LF \<and>
      (\<not> invalid_header r' \<longrightarrow> header_hash r' = name_hash (sub buf s (e - s)))"
proof -
  obtain p where run: "run_parser (hl_step au) buf pos (hl_start, header_hash r, lowcase_index r) r = Finished p r'"
    and rc: "hl_rc r' = HL_OK" and q: "q = p + 1"
    using assms(1) by (auto simp: ngx_http_parse_header_line_def split: presult.splits prod.splits)
  have "hl_inv buf pos (hl_start, header_hash r, lowcase_index r) r" by simp
  from hlg.run_inv [OF this assms(2), of au] have p: "p < length buf" and fin: "hl_fin buf p r'" by (simp_all add: run)
  show ?thesis using fin rc p unfolding hl_fin_def named_def hashed_def q by (auto split: option.splits)
qed

definition hl_init :: hl_request where
  "hl_init = \<lparr>header_hash = 0, lowcase_index = 0, lowcase_header = replicate NGX_HTTP_LC_HEADER_LEN 0,
     header_name_start = None, header_name_end = None, header_start = None, header_end = None,
     invalid_header = False, hl_upstream = False, hl_rc = HL_OK\<rparr>"

theorem header_line_sound_witness:
  "\<exists>q r s e. ngx_http_parse_header_line False (bytes ''Host: a'' @ [CR, LF]) 0 hl_start hl_init = (HL_RC HL_OK, q, hl_start, r) \<and>
     header_name_start r = Some s \<and> header_name_end r = Some e \<and> s < e"
proof -
  let ?x = "ngx_http_parse_header_line False (bytes ''Host: a'' @ [CR, LF]) 0 hl_start hl_init"
  have "lowcase ! 72 = 104" "lowcase ! 111 = 111" "lowcase ! 115 = 115" "lowcase ! 116 = 116" "lowcase ! 58 = 0"
    using lowcase_nth [of 72] lowcase_nth [of 111] lowcase_nth [of 115] lowcase_nth [of 116] lowcase_nth [of 58]
    by (simp_all add: lowcase_spec_def digit_char_def)
  then have "fst ?x = HL_RC HL_OK" "fst (snd (snd ?x)) = hl_start"
    by (simp_all add: ngx_http_parse_header_line_def bytes_Cons run_parser.simps hl_step_def hl_step_defs Let_def
        hl_init_def NGX_HTTP_LC_HEADER_LEN_def)
  then obtain q r where x: "?x = (HL_RC HL_OK, q, hl_start, r)" by (metis prod.collapse)
  show ?thesis using header_line_sound [OF x] x by auto
qed

text \<open>
  The header line parser gives the same result however the bytes arrive.
\<close>

theorem header_line_pieces:
  "feed (hl_step au) [] pieces (Again 0 s r) = run_parser (hl_step au) (concat pieces) 0 s r"
  by (rule hl.feed_eq) simp

end
