(* ===== verification/Ngx_Chunked.thy ===== *)
theory Ngx_Chunked
  imports Ngx_Sprintf Ngx_Request_Line
begin

text \<open>
  The chunked transfer coding, from both ends: the parser \<^verbatim>\<open>ngx_http_parse_chunked\<close>
  (src/nginx/src/http/ngx_http_parse.c), the filter that takes a chunked request body apart,
  \<^verbatim>\<open>ngx_http_request_body_chunked_filter\<close> (src/nginx/src/http/ngx_http_request_body.c), and the filter that
  writes a chunked response, \<^verbatim>\<open>ngx_http_chunked_body_filter\<close>
  (src/nginx/src/http/modules/ngx_http_chunked_filter_module.c).

  The part of a buffer from \<^verbatim>\<open>pos\<close> to \<^verbatim>\<open>last\<close> is the list of its bytes. Allocation does not fail. The
  data buffers of the request body share the memory of the input buffer in the code; here they
  are the bytes they delimit. Sizes are the signed 64-bit integers of the code, with the wrap
  written out. The filters are shown to be inverse to each other, however the output of the one
  is divided into the reads of the other; and the length the parser reports is the least number
  of bytes that complete the body.
\<close>

section \<open>The parser\<close>

datatype ck_state =
    sw_chunk_start | sw_chunk_size | sw_chunk_extension | sw_chunk_extension_almost_done | sw_chunk_data
  | sw_after_data | sw_after_data_almost_done | sw_last_chunk_extension | sw_last_chunk_extension_almost_done
  | sw_trailer | sw_trailer_almost_done | sw_trailer_header | sw_trailer_header_almost_done

record ngx_http_chunked =
  ck_state :: ck_state
  ck_size :: int
  ck_length :: int

datatype ck_act = Ck_go ck_state int | Ck_data | Ck_done | Ck_invalid int

definition chunk_digit :: "u_char \<Rightarrow> int option" where
  "chunk_digit ch =
     (if ch \<ge> 0x30 \<and> ch \<le> 0x39 then Some (uint ch - 0x30)
      else let c = ch OR 0x20
           in if c \<ge> 0x61 \<and> c \<le> 0x66 then Some (uint c - 0x61 + 10) else None)"

definition chunk_start_step :: "int \<Rightarrow> u_char \<Rightarrow> ck_act" where
  "chunk_start_step sz ch =
     (case chunk_digit ch of Some d \<Rightarrow> Ck_go sw_chunk_size d | None \<Rightarrow> Ck_invalid sz)"

definition chunk_size_step :: "int \<Rightarrow> u_char \<Rightarrow> ck_act" where
  "chunk_size_step sz ch =
     (if sz > NGX_MAX_OFF_T_VALUE div 16 then Ck_invalid sz
      else case chunk_digit ch of
        Some d \<Rightarrow> Ck_go sw_chunk_size (i64 (sz * 16 + d))
      | None \<Rightarrow>
          if sz = 0 then
            (if ch = CR then Ck_go sw_last_chunk_extension_almost_done sz
             else if ch = LF then Ck_go sw_trailer sz
             else if ch = 0x3b \<or> ch = 0x20 \<or> ch = 0x09 then Ck_go sw_last_chunk_extension sz
             else Ck_invalid sz)
          else
            (if ch = CR then Ck_go sw_chunk_extension_almost_done sz
             else if ch = LF then Ck_go sw_chunk_data sz
             else if ch = 0x3b \<or> ch = 0x20 \<or> ch = 0x09 then Ck_go sw_chunk_extension sz
             else Ck_invalid sz))"

text \<open>A state that is left at a line feed for one state and at a carriage return for another, and a
  state that accepts a line feed only.\<close>

definition line_end_step :: "ck_state \<Rightarrow> ck_state \<Rightarrow> ck_act \<Rightarrow> int \<Rightarrow> u_char \<Rightarrow> ck_act" where
  "line_end_step cr lf other sz ch =
     (if ch = CR then Ck_go cr sz else if ch = LF then Ck_go lf sz else other)"

definition lf_step :: "ck_act \<Rightarrow> int \<Rightarrow> u_char \<Rightarrow> ck_act" where
  "lf_step act sz ch = (if ch = LF then act else Ck_invalid sz)"

definition chunked_step :: "ck_state \<Rightarrow> int \<Rightarrow> u_char \<Rightarrow> ck_act" where
  "chunked_step state sz ch =
     (case state of
        sw_chunk_start \<Rightarrow> chunk_start_step sz ch
      | sw_chunk_size \<Rightarrow> chunk_size_step sz ch
      | sw_chunk_extension \<Rightarrow>
          line_end_step sw_chunk_extension_almost_done sw_chunk_data (Ck_go sw_chunk_extension sz) sz ch
      | sw_chunk_extension_almost_done \<Rightarrow> lf_step (Ck_go sw_chunk_data sz) sz ch
      | sw_chunk_data \<Rightarrow> Ck_data
      | sw_after_data \<Rightarrow> line_end_step sw_after_data_almost_done sw_chunk_start (Ck_invalid sz) sz ch
      | sw_after_data_almost_done \<Rightarrow> lf_step (Ck_go sw_chunk_start sz) sz ch
      | sw_last_chunk_extension \<Rightarrow>
          line_end_step sw_last_chunk_extension_almost_done sw_trailer (Ck_go sw_last_chunk_extension sz) sz ch
      | sw_last_chunk_extension_almost_done \<Rightarrow> lf_step (Ck_go sw_trailer sz) sz ch
      | sw_trailer \<Rightarrow>
          (if ch = CR then Ck_go sw_trailer_almost_done sz
           else if ch = LF then Ck_done else Ck_go sw_trailer_header sz)
      | sw_trailer_almost_done \<Rightarrow> lf_step Ck_done sz ch
      | sw_trailer_header \<Rightarrow>
          line_end_step sw_trailer_header_almost_done sw_trailer (Ck_go sw_trailer_header sz) sz ch
      | sw_trailer_header_almost_done \<Rightarrow> lf_step (Ck_go sw_trailer sz) sz ch)"

text \<open>The end of the loop: at the label \<^verbatim>\<open>data\<close> with a return code, the state, the size and the bytes
  left, at \<^verbatim>\<open>done\<close>, or at \<^verbatim>\<open>invalid\<close>.\<close>

datatype ck_end = Ck_stop ngx_rc ck_state int "u_char list" | Ck_finished int "u_char list" | Ck_bad int

fun chunked_loop :: "ck_state \<Rightarrow> int \<Rightarrow> u_char list \<Rightarrow> ck_end" where
  "chunked_loop state sz [] = Ck_stop NGX_AGAIN state sz []"
| "chunked_loop state sz (ch # buf) =
     (case chunked_step state sz ch of
        Ck_go state' sz' \<Rightarrow> chunked_loop state' sz' buf
      | Ck_data \<Rightarrow> Ck_stop NGX_OK state sz (ch # buf)
      | Ck_done \<Rightarrow> Ck_finished sz buf
      | Ck_invalid sz' \<Rightarrow> Ck_bad sz')"

definition chunked_length :: "ck_state \<Rightarrow> int \<Rightarrow> int" where
  "chunked_length state sz =
     (case state of
        sw_chunk_start \<Rightarrow> 3
      | sw_chunk_size \<Rightarrow> 1 + (if sz \<noteq> 0 then sz + 4 else 1)
      | sw_chunk_extension \<Rightarrow> 1 + sz + 4
      | sw_chunk_extension_almost_done \<Rightarrow> 1 + sz + 4
      | sw_chunk_data \<Rightarrow> sz + 4
      | sw_after_data \<Rightarrow> 4
      | sw_after_data_almost_done \<Rightarrow> 4
      | sw_last_chunk_extension \<Rightarrow> 2
      | sw_last_chunk_extension_almost_done \<Rightarrow> 2
      | sw_trailer \<Rightarrow> 1
      | sw_trailer_almost_done \<Rightarrow> 1
      | sw_trailer_header \<Rightarrow> 2
      | sw_trailer_header_almost_done \<Rightarrow> 2)"

definition ngx_http_parse_chunked ::
  "ngx_http_chunked \<Rightarrow> u_char list \<Rightarrow> ngx_rc \<times> ngx_http_chunked \<times> u_char list" where
  "ngx_http_parse_chunked ctx buf =
     (let state = (if ck_state ctx = sw_chunk_data \<and> ck_size ctx = 0 then sw_after_data else ck_state ctx)
      in case chunked_loop state (ck_size ctx) buf of
           Ck_stop rc state sz rest \<Rightarrow>
             if sz > NGX_MAX_OFF_T_VALUE - 5 then (NGX_ERROR, ctx\<lparr>ck_state := state, ck_size := sz\<rparr>, rest)
             else (rc, ctx\<lparr>ck_state := state, ck_size := sz, ck_length := chunked_length state sz\<rparr>, rest)
         | Ck_finished sz rest \<Rightarrow> (NGX_DONE, ctx\<lparr>ck_state := sw_chunk_start, ck_size := sz\<rparr>, rest)
         | Ck_bad sz \<Rightarrow> (NGX_ERROR, ctx\<lparr>ck_size := sz\<rparr>, buf))"

section \<open>The request body filter\<close>

record body_conf =
  client_max_body_size :: int
  large_header_size :: int

record body_state =
  rb_rest :: int
  rb_chunked :: ngx_http_chunked
  content_length_n :: int
  lingering_close :: bool

datatype body_buf = Body_data "u_char list" | Body_last

datatype body_error = NGX_HTTP_BAD_REQUEST | NGX_HTTP_REQUEST_ENTITY_TOO_LARGE

type_synonym body_result = "(body_error \<times> body_state) + (body_state \<times> body_buf list)"

text \<open>A small chunk is moved behind the data of the buffer added last.\<close>

fun append_last :: "body_buf list \<Rightarrow> u_char list \<Rightarrow> body_buf list" where
  "append_last [] t = []"
| "append_last [Body_data d] t = [Body_data (d @ t)]"
| "append_last [Body_last] t = [Body_last]"
| "append_last (b # b' # out) t = b # append_last (b' # out) t"

lemma chunked_loop_stop:
  "chunked_loop s n buf = Ck_stop rc s' n' rest \<Longrightarrow>
     length rest \<le> length buf \<and> (rc = NGX_OK \<or> rc = NGX_AGAIN) \<and>
     (rc = NGX_OK \<longrightarrow> s' = sw_chunk_data \<and> rest \<noteq> [] \<and> (s \<noteq> sw_chunk_data \<longrightarrow> length rest < length buf))"
proof (induction s n buf rule: chunked_loop.induct)
  case (2 s n ch buf)
  show ?case
  proof (cases "chunked_step s n ch")
    case (Ck_go s1 n1)
    then show ?thesis using 2 by fastforce
  next
    case Ck_data
    then have "s = sw_chunk_data"
      by (cases s) (auto simp: chunked_step_def chunk_start_step_def chunk_size_step_def line_end_step_def lf_step_def
          split: option.splits if_splits)
    then show ?thesis using 2(2) Ck_data by auto
  qed (use 2 in auto)
qed auto

lemma parse_chunked_ok:
  "ngx_http_parse_chunked ctx buf = (NGX_OK, ctx', rest) \<Longrightarrow>
     ck_state ctx' = sw_chunk_data \<and> rest \<noteq> [] \<and> length rest \<le> length buf \<and>
     (ck_state ctx = sw_chunk_data \<and> ck_size ctx = 0 \<longrightarrow> length rest < length buf)"
  by (auto simp: ngx_http_parse_chunked_def Let_def split: ck_end.splits if_splits dest: chunked_loop_stop)

function body_chunked_loop ::
  "body_conf \<Rightarrow> body_state \<Rightarrow> bool \<Rightarrow> u_char list \<Rightarrow> body_buf list \<Rightarrow> body_result" where
  "body_chunked_loop conf rb has_b buf out =
     (case ngx_http_parse_chunked (rb_chunked rb) buf of (rc, ctx, rest) \<Rightarrow>
        let sz = ck_size ctx; n = int (length rest); clen = content_length_n rb in
        case rc of
          NGX_OK \<Rightarrow>
            if client_max_body_size conf \<noteq> 0 \<and> i64 (client_max_body_size conf - clen) < sz
            then Inl (NGX_HTTP_REQUEST_ENTITY_TOO_LARGE, rb\<lparr>rb_chunked := ctx, lingering_close := True\<rparr>)
            else if has_b \<and> sz \<le> 128 \<and> n \<ge> sz then
              body_chunked_loop conf (rb\<lparr>rb_chunked := ctx\<lparr>ck_size := 0\<rparr>, content_length_n := i64 (clen + sz)\<rparr>)
                True (drop (nat sz) rest) (append_last out (take (nat sz) rest))
            else if n > sz then
              body_chunked_loop conf (rb\<lparr>rb_chunked := ctx\<lparr>ck_size := 0\<rparr>, content_length_n := i64 (clen + sz)\<rparr>)
                True (drop (nat sz) rest) (out @ [Body_data (take (nat sz) rest)])
            else
              body_chunked_loop conf (rb\<lparr>rb_chunked := ctx\<lparr>ck_size := sz - n\<rparr>, content_length_n := i64 (clen + n)\<rparr>)
                True [] (out @ [Body_data rest])
        | NGX_DONE \<Rightarrow> Inr (rb\<lparr>rb_chunked := ctx, rb_rest := 0\<rparr>, out @ [Body_last])
        | NGX_AGAIN \<Rightarrow> Inr (rb\<lparr>rb_chunked := ctx, rb_rest := max (ck_length ctx) (large_header_size conf)\<rparr>, out)
        | _ \<Rightarrow> Inl (NGX_HTTP_BAD_REQUEST, rb\<lparr>rb_chunked := ctx\<rparr>))"
  by pat_completeness auto
termination
  by (relation "measure (\<lambda>(conf, rb, has_b, buf, out). 2 * length buf +
    (if ck_state (rb_chunked rb) = sw_chunk_data \<and> ck_size (rb_chunked rb) = 0 then 0 else 1))")
    (auto dest!: parse_chunked_ok [OF sym])

declare body_chunked_loop.simps [simp del]

fun body_chunked_chain ::
  "body_conf \<Rightarrow> body_state \<Rightarrow> u_char list list \<Rightarrow> body_buf list \<Rightarrow> body_result" where
  "body_chunked_chain conf rb [] out = Inr (rb, out)"
| "body_chunked_chain conf rb (buf # chain) out =
     (case body_chunked_loop conf rb False buf out of
        Inl e \<Rightarrow> Inl e
      | Inr (rb', out') \<Rightarrow> body_chunked_chain conf rb' chain out')"

text \<open>The chain the filter passes on to the next filter, with the new state of the request body.\<close>

definition ngx_http_request_body_chunked_filter ::
  "body_conf \<Rightarrow> body_state \<Rightarrow> u_char list list \<Rightarrow> body_result" where
  "ngx_http_request_body_chunked_filter conf rb chain =
     (let rb = (if rb_rest rb = -1 then
            rb\<lparr>rb_chunked := \<lparr>ck_state = sw_chunk_start, ck_size = 0, ck_length = 0\<rparr>, content_length_n := 0,
               rb_rest := large_header_size conf\<rparr>
          else rb)
      in body_chunked_chain conf rb chain [])"

section \<open>The response filter\<close>

record out_buf =
  ob_data :: "u_char list"
  ob_flush :: bool
  ob_sync :: bool
  ob_memory :: bool
  ob_file :: bool
  ob_last :: bool

text \<open>A trailer is a hash, which is zero for a deleted one, a name and a value.\<close>

type_synonym trailer = "nat \<times> u_char list \<times> u_char list"

definition CRLF :: "u_char list" where
  "CRLF = [CR, LF]"

definition memory_buf :: "u_char list \<Rightarrow> bool \<Rightarrow> out_buf" where
  "memory_buf data is_last =
     \<lparr>ob_data = data, ob_flush = False, ob_sync = False, ob_memory = True, ob_file = False, ob_last = is_last\<rparr>"

definition trailer_len :: "trailer list \<Rightarrow> nat" where
  "trailer_len ts = sum_list (map (\<lambda>(hash, key, value). if hash = 0 then 0 else length key + 2 + length value + 2) ts)"

definition trailer_lines :: "trailer list \<Rightarrow> u_char list" where
  "trailer_lines ts = concat (map (\<lambda>(hash, key, value). if hash = 0 then [] else key @ [0x3a, 0x20] @ value @ CRLF) ts)"

definition ngx_http_chunked_create_trailers :: "trailer list \<Rightarrow> out_buf" where
  "ngx_http_chunked_create_trailers ts =
     (if trailer_len ts = 0 then memory_buf (CRLF @ [0x30] @ CRLF @ CRLF) True
      else memory_buf (CRLF @ [0x30] @ CRLF @ trailer_lines ts @ CRLF) True)"

text \<open>The buffers of the chain that are passed on, the last one no longer marked as the last of the
  response.\<close>

definition chunk_links :: "out_buf list \<Rightarrow> out_buf list" where
  "chunk_links chain =
     filter (\<lambda>b. ob_flush b \<or> ob_sync b \<or> ob_memory b \<or> ob_file b) (butlast chain @ [(last chain)\<lparr>ob_last := False\<rparr>])"

text \<open>The chain passed on to the next filter; an empty chain and a request that is not chunked are
  passed on as they are.\<close>

definition ngx_http_chunked_body_filter :: "bool \<Rightarrow> bool \<Rightarrow> trailer list \<Rightarrow> out_buf list \<Rightarrow> out_buf list option" where
  "ngx_http_chunked_body_filter chunked header_only ts chain =
     (if chain = [] \<or> \<not> chunked \<or> header_only then Some chain
      else
        let sz = i64 (int (sum_list (map (length \<circ> ob_data) chain)));
            tail = (if ob_last (last chain) then
                [if sz = 0 then (ngx_http_chunked_create_trailers ts)\<lparr>ob_data := drop 2 (ob_data (ngx_http_chunked_create_trailers ts))\<rparr>
                 else ngx_http_chunked_create_trailers ts]
              else if sz > 0 then [memory_buf CRLF False] else [])
        in if sz \<noteq> 0 then
             map_option (\<lambda>t. memory_buf t False # chunk_links chain @ tail) (ngx_sprintf (bytes ''%xO'' @ CRLF) [VInt sz])
           else Some (chunk_links chain @ tail))"

section \<open>Decoding byte by byte\<close>

text \<open>The reference decoder takes the coding apart byte by byte: the data and the bytes after the end of
  the coding, or none when the coding is incomplete or invalid.\<close>

definition ck_enter :: "ck_state \<Rightarrow> int \<Rightarrow> ck_state" where
  "ck_enter s n = (if s = sw_chunk_data \<and> n = 0 then sw_after_data else s)"

fun decode :: "ck_state \<Rightarrow> int \<Rightarrow> u_char list \<Rightarrow> (u_char list \<times> u_char list) option" where
  "decode s n [] = None"
| "decode s n (c # cs) =
     (if s = sw_chunk_data \<and> 0 < n then map_option (apfst ((#) c)) (decode s (n - 1) cs)
      else case chunked_step (ck_enter s n) n c of
             Ck_go s' n' \<Rightarrow> decode s' n' cs
           | Ck_done \<Rightarrow> Some ([], cs)
           | _ \<Rightarrow> None)"

lemma decode_enter: "decode (ck_enter s n) n xs = decode s n xs"
  by (cases xs) (auto simp: ck_enter_def)

definition size_ok :: "ck_state \<Rightarrow> int \<Rightarrow> bool" where
  "size_ok s n \<longleftrightarrow> 0 \<le> n \<and> (s \<noteq> sw_chunk_size \<longrightarrow> n \<le> NGX_MAX_OFF_T_VALUE div 16) \<and>
     (s = sw_chunk_extension \<or> s = sw_chunk_extension_almost_done \<longrightarrow> n \<noteq> 0)"

lemmas chunked_step_defs = chunked_step_def chunk_start_step_def chunk_size_step_def line_end_step_def lf_step_def

lemma chunk_digit_range: "case chunk_digit ch of None \<Rightarrow> True | Some d \<Rightarrow> 0 \<le> d \<and> d < 16"
  by (rule byte_all [where c = ch]) code_simp

lemma size_step:
  assumes "size_ok s n" "chunked_step s n c = Ck_go s' n'"
  shows "size_ok s' n'"
proof -
  have "i64 (n * 16 + d) = n * 16 + d \<and> 0 \<le> n * 16 + d" if "n \<le> NGX_MAX_OFF_T_VALUE div 16" "0 \<le> n" "0 \<le> d" "d < 16" for d
    using that by (intro conjI i64_id) (auto simp: max_values)
  then show ?thesis using assms chunk_digit_range [of c]
    by (cases s) (auto simp: chunked_step_defs size_ok_def max_values split: if_splits option.splits)
qed

lemma data_nonzero: "size_ok s n \<Longrightarrow> chunked_step s n c = Ck_go s' n' \<Longrightarrow> ck_enter s' n' = s'"
  by (cases s) (auto simp: ck_enter_def chunked_step_defs size_ok_def split: if_splits option.splits)

lemma decode_size:
  assumes "decode s n xs = Some r" "size_ok s n"
  shows "n \<le> NGX_MAX_OFF_T_VALUE div 16"
proof (cases xs)
  case (Cons c cs)
  then show ?thesis using assms by (cases "s = sw_chunk_size") (auto simp: size_ok_def chunked_step_defs ck_enter_def split: if_splits)
qed (use assms in simp)

text \<open>The loop of the parser follows the decoder.\<close>

lemma chunked_loop_decode:
  assumes "decode s n (buf @ fut) = Some (data, r)" "size_ok s n" "ck_enter s n = s"
  shows "case chunked_loop s n buf of
      Ck_stop rc s' n' rest \<Rightarrow> size_ok s' n' \<and> n' \<le> NGX_MAX_OFF_T_VALUE div 16 \<and> decode s' n' (rest @ fut) = Some (data, r) \<and>
        (rc = NGX_OK \<and> s' = sw_chunk_data \<and> 0 < n' \<and> rest \<noteq> [] \<or> rc = NGX_AGAIN \<and> rest = [])
    | Ck_finished n' rest \<Rightarrow> data = [] \<and> r = rest @ fut
    | Ck_bad n' \<Rightarrow> False"
  using assms
proof (induction s n buf rule: chunked_loop.induct)
  case (1 s n)
  then show ?case using decode_size by auto
next
  case (2 s n c buf)
  show ?case
  proof (cases "s = sw_chunk_data")
    case True
    then have "0 < n" using 2(3,4) by (auto simp: ck_enter_def size_ok_def split: if_splits)
    then show ?thesis using 2(2,3) True decode_size [OF 2(2,3)] by (simp add: chunked_step_def)
  next
    case False
    show ?thesis
    proof (cases "chunked_step s n c")
      case (Ck_go s' n')
      then have d: "decode s' n' (buf @ fut) = Some (data, r)" using 2(2,4) False by simp
      have ok: "size_ok s' n'" using size_step [OF 2(3) Ck_go] .
      have "ck_enter s' n' = s'" by (rule data_nonzero [OF 2(3) Ck_go])
      then show ?thesis using 2(1) [OF Ck_go d ok] Ck_go by simp
    qed (use 2(2,4) False in auto)
  qed
qed

lemma parse_chunked_decode:
  assumes "decode (ck_state ctx) (ck_size ctx) (buf @ fut) = Some (data, r)" "size_ok (ck_state ctx) (ck_size ctx)"
  shows "case ngx_http_parse_chunked ctx buf of (rc, ctx', rest) \<Rightarrow>
      rc = NGX_DONE \<and> data = [] \<and> r = rest @ fut \<or>
      decode (ck_state ctx') (ck_size ctx') (rest @ fut) = Some (data, r) \<and> size_ok (ck_state ctx') (ck_size ctx') \<and>
      (rc = NGX_OK \<and> ck_state ctx' = sw_chunk_data \<and> 0 < ck_size ctx' \<and> rest \<noteq> [] \<or>
       rc = NGX_AGAIN \<and> rest = [] \<and> ck_length ctx' = chunked_length (ck_state ctx') (ck_size ctx'))"
proof -
  let ?s = "ck_enter (ck_state ctx) (ck_size ctx)" and ?n = "ck_size ctx"
  have "size_ok ?s ?n" "ck_enter ?s ?n = ?s" using assms(2) by (auto simp: ck_enter_def size_ok_def)
  then show ?thesis
    using chunked_loop_decode [of ?s ?n buf fut data r] assms(1)
    by (auto simp: ngx_http_parse_chunked_def Let_def ck_enter_def [symmetric] decode_enter max_values split: ck_end.splits)
qed

text \<open>Data of the decoder that is taken at once.\<close>

lemma decode_data:
  assumes "decode sw_chunk_data n xs = Some (data, r)" "int k \<le> n" "k \<le> length xs"
  shows "\<exists>d. data = take k xs @ d \<and> decode sw_chunk_data (n - int k) (drop k xs) = Some (d, r)"
  using assms
proof (induction k arbitrary: n xs data)
  case (Suc k)
  then obtain c cs where xs: "xs = c # cs" by (cases xs) auto
  then obtain d0 where d0: "data = c # d0" "decode sw_chunk_data (n - 1) cs = Some (d0, r)" using Suc.prems(1,2) by auto
  from Suc.IH [OF d0(2)] Suc.prems xs obtain d where "d0 = take k cs @ d" "decode sw_chunk_data (n - 1 - int k) (drop k cs) = Some (d, r)"
    by auto
  then show ?case using xs d0 by (auto simp: algebra_simps)
qed simp

lemma decode_data_size:
  assumes "decode sw_chunk_data n xs = Some (data, r)" "0 \<le> n"
  shows "n \<le> int (length data)"
  using assms
proof (induction xs arbitrary: n data)
  case (Cons c xs)
  show ?case
  proof (cases "0 < n")
    case True
    then obtain d where "data = c # d" "decode sw_chunk_data (n - 1) xs = Some (d, r)" using Cons.prems by auto
    then show ?thesis using Cons.IH [of "n - 1" d] True by simp
  qed (use Cons.prems in auto)
qed simp

fun body_bytes :: "body_buf list \<Rightarrow> u_char list" where
  "body_bytes [] = []"
| "body_bytes (Body_data d # out) = d @ body_bytes out"
| "body_bytes (Body_last # out) = body_bytes out"

lemma body_bytes_append [simp]: "body_bytes (a @ b) = body_bytes a @ body_bytes b"
  by (induction a rule: body_bytes.induct) auto

lemma body_bytes_append_last:
  "out \<noteq> [] \<Longrightarrow> Body_last \<notin> set out \<Longrightarrow>
     body_bytes (append_last out t) = body_bytes out @ t \<and> Body_last \<notin> set (append_last out t) \<and> append_last out t \<noteq> []"
proof (induction out t rule: append_last.induct)
  case (4 b b' out t)
  then show ?case by (cases b) auto
qed auto

definition body_fits :: "body_conf \<Rightarrow> body_state \<Rightarrow> u_char list \<Rightarrow> bool" where
  "body_fits conf rb data \<longleftrightarrow> 0 \<le> content_length_n rb \<and> content_length_n rb + int (length data) \<le> NGX_MAX_OFF_T_VALUE \<and>
     0 \<le> client_max_body_size conf \<and> client_max_body_size conf \<le> NGX_MAX_OFF_T_VALUE \<and>
     (client_max_body_size conf \<noteq> 0 \<longrightarrow> content_length_n rb + int (length data) \<le> client_max_body_size conf)"

definition body_decodes :: "body_state \<Rightarrow> u_char list \<Rightarrow> u_char list \<Rightarrow> u_char list \<Rightarrow> bool" where
  "body_decodes rb xs data r \<longleftrightarrow>
     decode (ck_state (rb_chunked rb)) (ck_size (rb_chunked rb)) xs = Some (data, r) \<and>
     size_ok (ck_state (rb_chunked rb)) (ck_size (rb_chunked rb))"

text \<open>One input buffer: the body is complete, or the rest of it decodes from the new state.\<close>

definition body_progress :: "body_conf \<Rightarrow> body_state \<Rightarrow> u_char list \<Rightarrow> u_char list \<Rightarrow> u_char list \<Rightarrow> body_buf list \<Rightarrow>
    body_result \<Rightarrow> bool" where
  "body_progress conf rb fut data r out res =
     (case res of Inl e \<Rightarrow> False
      | Inr (rb', out') \<Rightarrow>
          (\<exists>rest out1. r = rest @ fut \<and> rb_rest rb' = 0 \<and> out' = out1 @ [Body_last] \<and> Body_last \<notin> set out1 \<and>
             body_bytes out1 = body_bytes out @ data \<and> content_length_n rb' = content_length_n rb + int (length data)) \<or>
          (\<exists>d1 d2. data = d1 @ d2 \<and> body_decodes rb' fut d2 r \<and> body_fits conf rb' d2 \<and> Body_last \<notin> set out' \<and>
             body_bytes out' = body_bytes out @ d1 \<and> content_length_n rb' = content_length_n rb + int (length d1)))"

lemma body_progress_trans:
  assumes "body_progress conf rb' fut d r out' res" "data = t @ d" "body_bytes out' = body_bytes out @ t"
    "content_length_n rb' = content_length_n rb + int (length t)"
  shows "body_progress conf rb fut data r out res"
proof -
  obtain rb1 out1 where res: "res = Inr (rb1, out1)" using assms(1) by (auto simp: body_progress_def split: sum.splits)
  from assms(1) [unfolded body_progress_def res] consider
      (last) rest o2 where "r = rest @ fut" "rb_rest rb1 = 0" "out1 = o2 @ [Body_last]" "Body_last \<notin> set o2"
        "body_bytes o2 = body_bytes out' @ d" "content_length_n rb1 = content_length_n rb' + int (length d)"
    | (rest) d1 d2 where "d = d1 @ d2" "body_decodes rb1 fut d2 r" "body_fits conf rb1 d2" "Body_last \<notin> set out1"
        "body_bytes out1 = body_bytes out' @ d1" "content_length_n rb1 = content_length_n rb' + int (length d1)"
    by auto
  then show ?thesis
  proof cases
    case last
    then show ?thesis using assms(2-4) by (auto simp: body_progress_def res)
  next
    case rest
    have "data = (t @ d1) @ d2" "body_bytes out1 = body_bytes out @ t @ d1"
      "content_length_n rb1 = content_length_n rb + int (length (t @ d1))"
      using rest assms(2-4) by auto
    then show ?thesis using rest(2-4) unfolding body_progress_def res by auto
  qed
qed

lemma body_fits_step:
  assumes "body_fits conf rb (t @ d)" "content_length_n rb' = content_length_n rb + int (length t)"
  shows "body_fits conf rb' d"
  using assms by (auto simp: body_fits_def)

lemma i64_small: "0 \<le> x \<Longrightarrow> x \<le> NGX_MAX_OFF_T_VALUE \<Longrightarrow> i64 x = x"
  by (rule i64_id) (auto simp: max_values)

lemma body_loop_progress:
  assumes "body_decodes rb (buf @ fut) data r" "body_fits conf rb data" "Body_last \<notin> set out" "has_b \<longrightarrow> out \<noteq> []"
  shows "body_progress conf rb fut data r out (body_chunked_loop conf rb has_b buf out)"
  using assms
proof (induction conf rb has_b buf out arbitrary: data rule: body_chunked_loop.induct)
  case (1 conf rb has_b buf out)
  note prems = 1(4-7)
  obtain rc ctx rest where p: "ngx_http_parse_chunked (rb_chunked rb) buf = (rc, ctx, rest)" by (cases "ngx_http_parse_chunked (rb_chunked rb) buf")
  note IH = 1(1-3) [OF p [symmetric] refl refl refl refl]
  have dec: "rc = NGX_DONE \<and> data = [] \<and> r = rest @ fut \<or>
      decode (ck_state ctx) (ck_size ctx) (rest @ fut) = Some (data, r) \<and> size_ok (ck_state ctx) (ck_size ctx) \<and>
      (rc = NGX_OK \<and> ck_state ctx = sw_chunk_data \<and> 0 < ck_size ctx \<and> rest \<noteq> [] \<or> rc = NGX_AGAIN \<and> rest = [])"
    using parse_chunked_decode [of "rb_chunked rb" buf fut data r] prems(1) by (auto simp: body_decodes_def p)
  note unf = body_chunked_loop.simps [of conf rb has_b buf out, unfolded p prod.case Let_def]
  from dec consider (finished) "rc = NGX_DONE" "data = []" "r = rest @ fut"
    | (again) "rc = NGX_AGAIN" "rest = []" "decode (ck_state ctx) (ck_size ctx) fut = Some (data, r)" "size_ok (ck_state ctx) (ck_size ctx)"
    | (ok) "rc = NGX_OK" "ck_state ctx = sw_chunk_data" "0 < ck_size ctx" "rest \<noteq> []"
        "decode sw_chunk_data (ck_size ctx) (rest @ fut) = Some (data, r)" "size_ok sw_chunk_data (ck_size ctx)"
    by auto
  then show ?case
  proof cases
    case finished
    then show ?thesis using prems(3) unfolding unf by (auto simp: body_progress_def)
  next
    case again
    then show ?thesis using prems(2,3) unfolding unf
      by (auto simp: body_progress_def body_decodes_def body_fits_def)
  next
    case ok
    let ?n = "ck_size ctx"
    have "?n \<le> int (length data)" using decode_data_size [OF ok(5)] ok(3) by simp
    then have max_ok: "\<not> (client_max_body_size conf \<noteq> 0 \<and> i64 (client_max_body_size conf - content_length_n rb) < ?n)"
      using prems(2) i64_small [of "client_max_body_size conf - content_length_n rb"] by (auto simp: body_fits_def)
    have step: "body_progress conf rb fut data r out res"
      if k: "int k \<le> ?n" "k \<le> length rest"
        and rb': "rb_chunked rb' = ctx\<lparr>ck_size := ?n - int k\<rparr>" "content_length_n rb' = i64 (content_length_n rb + int k)"
        and out': "body_bytes out' = body_bytes out @ take k rest"
        and res: "\<And>d. body_decodes rb' (drop k rest @ fut) d r \<Longrightarrow> body_fits conf rb' d \<Longrightarrow> body_progress conf rb' fut d r out' res"
      for k rb' out' res
    proof -
      obtain d where d: "data = take k rest @ d" "decode sw_chunk_data (?n - int k) (drop k rest @ fut) = Some (d, r)"
        using decode_data [OF ok(5) k(1)] k(2) by auto
      have cl: "content_length_n rb' = content_length_n rb + int (length (take k rest))"
        using prems(2) d(1) k i64_small [of "content_length_n rb + int k"] by (auto simp: body_fits_def rb')
      have "body_decodes rb' (drop k rest @ fut) d r"
        using d(2) ok(2,6) k(1) by (auto simp: body_decodes_def rb' size_ok_def)
      moreover have "body_fits conf rb' d" using body_fits_step prems(2) d(1) cl by blast
      ultimately show ?thesis using body_progress_trans [OF res d(1) out' cl] by blast
    qed
    consider (move) "has_b \<and> ?n \<le> 128 \<and> ?n \<le> int (length rest)"
      | (all_) "\<not> (has_b \<and> ?n \<le> 128 \<and> ?n \<le> int (length rest))" "?n < int (length rest)"
      | (part) "\<not> (has_b \<and> ?n \<le> 128 \<and> ?n \<le> int (length rest))" "\<not> ?n < int (length rest)" by blast
    then show ?thesis
    proof cases
      case move
      have al: "body_bytes (append_last out (take (nat ?n) rest)) = body_bytes out @ take (nat ?n) rest"
        "Body_last \<notin> set (append_last out (take (nat ?n) rest))" "append_last out (take (nat ?n) rest) \<noteq> []"
        using body_bytes_append_last [of out "take (nat ?n) rest"] prems(3,4) move by auto
      show ?thesis unfolding unf ok(1) ngx_rc.case if_not_P [OF max_ok] if_P [OF move]
        by (rule step [of "nat ?n"]) (use ok(3) move al IH(1) [OF ok(1) max_ok move] in auto)
    next
      case all_
      show ?thesis unfolding unf ok(1) ngx_rc.case if_not_P [OF max_ok] if_not_P [OF all_(1)] if_P [OF all_(2)]
        by (rule step [of "nat ?n"]) (use ok(3) all_ prems(3) IH(2) [OF ok(1) max_ok all_] in auto)
    next
      case part
      show ?thesis unfolding unf ok(1) ngx_rc.case if_not_P [OF max_ok] if_not_P [OF part(1)] if_not_P [OF part(2)]
        by (rule step [of "length rest"]) (use ok(3) part prems(3) IH(3) [OF ok(1) max_ok part] in auto)
    qed
  qed
qed

lemma body_chain_complete:
  assumes "body_decodes rb (concat chain) data []" "body_fits conf rb data" "Body_last \<notin> set out" "[] \<notin> set chain"
  shows "\<exists>rb' out1. body_chunked_chain conf rb chain out = Inr (rb', out1 @ [Body_last]) \<and> rb_rest rb' = 0 \<and>
    Body_last \<notin> set out1 \<and> body_bytes out1 = body_bytes out @ data \<and>
    content_length_n rb' = content_length_n rb + int (length data)"
  using assms
proof (induction chain arbitrary: rb out data)
  case Nil
  then show ?case by (simp add: body_decodes_def)
next
  case (Cons buf chain)
  have "body_progress conf rb (concat chain) data [] out (body_chunked_loop conf rb False buf out)"
    using body_loop_progress [of rb buf "concat chain"] Cons.prems by simp
  then obtain rb1 o1 where loop: "body_chunked_loop conf rb False buf out = Inr (rb1, o1)"
    and prog: "body_progress conf rb (concat chain) data [] out (Inr (rb1, o1))"
    by (auto simp: body_progress_def split: sum.splits)
  from prog [unfolded body_progress_def] consider
      (last) rest o2 where "[] = rest @ concat chain" "rb_rest rb1 = 0" "o1 = o2 @ [Body_last]" "Body_last \<notin> set o2"
        "body_bytes o2 = body_bytes out @ data" "content_length_n rb1 = content_length_n rb + int (length data)"
    | (rest) d1 d2 where "data = d1 @ d2" "body_decodes rb1 (concat chain) d2 []" "body_fits conf rb1 d2" "Body_last \<notin> set o1"
        "body_bytes o1 = body_bytes out @ d1" "content_length_n rb1 = content_length_n rb + int (length d1)"
    by auto
  then show ?case
  proof cases
    case last
    then have "chain = []" using Cons.prems(4) by (cases chain) auto
    then show ?thesis using last loop by auto
  next
    case rest
    have "[] \<notin> set chain" using Cons.prems(4) by simp
    from Cons.IH [OF rest(2-4) this] show ?thesis using rest loop by auto
  qed
qed

section \<open>What the response filter writes\<close>

lemma sprintf_chunk:
  assumes "0 \<le> n" "n \<le> NGX_MAX_OFF_T_VALUE"
  shows "ngx_sprintf (bytes ''%xO'' @ CRLF) [VInt n] = Some (map (\<lambda>d. hex_lower ! d) (base_digits 16 (nat n)) @ CRLF)"
proof -
  have n: "nat n < 2 ^ 64" "i64 n = n" using assms i64_small by (auto simp: max_values)
  have num: "ngx_sprintf_num room (nat n) zero 1 0 = sprintf_num_text (nat n) 1" if "20 \<le> room" for room zero
    using sprintf_num_text_length [OF n(1), of 1] that by (simp add: ngx_sprintf_num_def)
  have "vsl_directive room (bytes ''xO'' @ CRLF) [VInt n] = Some (sprintf_num_text (nat n) 1, CRLF, [])" if "20 \<le> room" for room
    using num [OF that] assms(1) by (simp add: vsl_directive_def bytes_Cons conv_int_def n print_int_def CRLF_def)
  moreover have "length (sprintf_num_text (nat n) 1) < 100" using sprintf_num_text_length [OF n(1), of 1] by simp
  ultimately show ?thesis
    by (simp add: ngx_sprintf_def ngx_vslprintf_def bytes_Cons sprintf_num_text_digits CRLF_def)
qed

lemma chunk_digit_hex: "chunk_digit c = hex_digit c"
  by (rule byte_all [where c = c]) code_simp

lemma decode_digits:
  assumes "digits_val 16 hex_digit v ds = Some n" "0 \<le> v" "n \<le> NGX_MAX_OFF_T_VALUE div 16"
  shows "decode sw_chunk_size v (ds @ xs) = decode sw_chunk_size n xs"
  using assms
proof (induction ds arbitrary: v)
  case (Cons c ds)
  then obtain d where d: "hex_digit c = Some d" "digits_val 16 hex_digit (v * 16 + d) ds = Some n" by (auto split: option.splits)
  have r: "0 \<le> d" "d < 16" using chunk_digit_range [of c] d(1) by (simp_all add: chunk_digit_hex)
  have "v * 16 + d \<le> n"
    using digits_val_ge [OF _ _ _ d(2)] Cons.prems(2) r chunk_digit_range by (fastforce simp: chunk_digit_hex split: option.splits)
  then have "i64 (v * 16 + d) = v * 16 + d" "v \<le> NGX_MAX_OFF_T_VALUE div 16"
    using Cons.prems r by (auto intro!: i64_small simp: max_values)
  then show ?case using Cons.IH [OF d(2)] Cons.prems r d(1)
    by (simp add: chunked_step_def chunk_size_step_def chunk_digit_hex ck_enter_def)
qed simp

lemma decode_hex:
  assumes "0 \<le> n" "n \<le> NGX_MAX_OFF_T_VALUE div 16"
  shows "decode sw_chunk_start m (map (\<lambda>d. hex_lower ! d) (base_digits 16 (nat n)) @ xs) = decode sw_chunk_size n xs"
proof -
  obtain c cs where cs: "map (\<lambda>d. hex_lower ! d) (base_digits 16 (nat n)) = c # cs" by (cases "base_digits 16 (nat n)") auto
  have v: "digits_val 16 hex_digit 0 (c # cs) = Some n" using hexl.digits_val_printed [of "nat n"] assms(1) by (simp add: cs)
  then obtain d where d: "hex_digit c = Some d" "digits_val 16 hex_digit d cs = Some n" by (auto split: option.splits)
  then show ?thesis using decode_digits [OF d(2) _ assms(2)] chunk_digit_range [of c]
    by (simp add: cs chunked_step_def chunk_start_step_def chunk_digit_hex ck_enter_def)
qed

lemma decode_line:
  assumes "CR \<notin> set l" "LF \<notin> set l"
  shows "decode sw_trailer_header n (l @ CRLF @ xs) = decode sw_trailer n xs"
  using assms by (induction l) (auto simp: CRLF_def ck_enter_def chunked_step_defs)

lemma decode_take: "decode sw_chunk_data (int (length d)) (d @ xs) = map_option (apfst ((@) d)) (decode sw_chunk_data 0 xs)"
proof (induction d)
  case Nil
  show ?case by (cases "decode sw_chunk_data 0 xs") auto
next
  case (Cons c d)
  then show ?case by (cases "decode sw_chunk_data 0 xs") auto
qed

definition out_bytes :: "out_buf list \<Rightarrow> u_char list" where
  "out_bytes chain = concat (map ob_data chain)"

definition buf_ok :: "out_buf \<Rightarrow> bool" where
  "buf_ok b \<longleftrightarrow> ob_flush b \<or> ob_sync b \<or> ob_memory b \<or> ob_file b \<or> ob_data b = []"

definition chain_ok :: "out_buf list \<Rightarrow> bool" where
  "chain_ok chain \<longleftrightarrow> chain \<noteq> [] \<and> (\<forall>b\<in>set chain. buf_ok b) \<and> int (length (out_bytes chain)) \<le> NGX_MAX_OFF_T_VALUE div 16"

definition trailers_ok :: "trailer list \<Rightarrow> bool" where
  "trailers_ok ts \<longleftrightarrow> (\<forall>(hash, key, value)\<in>set ts. CR \<notin> set (key @ value) \<and> LF \<notin> set (key @ value))"

lemma out_bytes_simps [simp]:
  "out_bytes [] = []" "out_bytes (b # c) = ob_data b @ out_bytes c" "out_bytes (c @ c') = out_bytes c @ out_bytes c'"
  by (simp_all add: out_bytes_def)

lemma out_bytes_length: "sum_list (map (length \<circ> ob_data) chain) = length (out_bytes chain)"
  by (induction chain) simp_all

lemma out_bytes_filter:
  assumes "\<forall>b\<in>set chain. buf_ok b"
  shows "out_bytes (filter (\<lambda>b. ob_flush b \<or> ob_sync b \<or> ob_memory b \<or> ob_file b) chain) = out_bytes chain"
  using assms by (induction chain) (auto simp: buf_ok_def)

lemma out_bytes_kept:
  assumes "chain_ok chain"
  shows "out_bytes (chunk_links chain) = out_bytes chain"
proof -
  obtain c b where "chain = c @ [b]" using assms by (cases chain rule: rev_cases) (auto simp: chain_ok_def)
  then show ?thesis using out_bytes_filter [of c] assms by (auto simp: chunk_links_def chain_ok_def buf_ok_def)
qed

lemma decode_start: "decode sw_chunk_start n xs = decode sw_chunk_start 0 xs"
  by (cases xs) (auto simp: ck_enter_def chunked_step_def chunk_start_step_def split: option.split)

lemma decode_chunk:
  assumes "d \<noteq> []" "int (length d) \<le> NGX_MAX_OFF_T_VALUE div 16"
  shows "decode sw_chunk_start n (map (\<lambda>d. hex_lower ! d) (base_digits 16 (length d)) @ CRLF @ d @ CRLF @ xs) =
    map_option (apfst ((@) d)) (decode sw_chunk_start 0 xs)"
proof -
  have "decode sw_chunk_size (int (length d)) (CRLF @ d @ CRLF @ xs) = decode sw_chunk_data (int (length d)) (d @ CRLF @ xs)"
    using assms by (simp add: CRLF_def ck_enter_def chunked_step_defs chunk_digit_def)
  moreover have "decode sw_chunk_data 0 (CRLF @ xs) = decode sw_chunk_start 0 xs"
    by (simp add: CRLF_def ck_enter_def chunked_step_defs)
  ultimately show ?thesis using decode_hex [of "int (length d)"] assms(2) by (simp add: decode_take)
qed

lemma decode_trailer_lines:
  assumes "trailers_ok ts"
  shows "decode sw_trailer n (trailer_lines ts @ CRLF @ xs) = Some ([], xs)"
  using assms
proof (induction ts)
  case Nil
  show ?case by (simp add: trailer_lines_def CRLF_def ck_enter_def chunked_step_defs)
next
  case (Cons t ts)
  obtain hash key val where t: "t = (hash, key, val)" by (cases t)
  have ih: "decode sw_trailer n (trailer_lines ts @ CRLF @ xs) = Some ([], xs)" using Cons by (simp add: trailers_ok_def)
  obtain c l where l: "key @ [0x3a, 0x20] @ val = c # l" by (cases key) auto
  have "x \<in> set (c # l) \<Longrightarrow> x \<in> set key \<or> x = 0x3a \<or> x = 0x20 \<or> x \<in> set val" for x unfolding l [symmetric] by auto
  from this [of CR] this [of LF] have cl: "c \<noteq> CR" "c \<noteq> LF" "CR \<notin> set l" "LF \<notin> set l"
    using Cons.prems by (auto simp: trailers_ok_def t)
  show ?case
  proof (cases "hash = 0")
    case True
    then show ?thesis using ih by (simp add: trailer_lines_def t)
  next
    case False
    have "trailer_lines (t # ts) = (key @ [0x3a, 0x20] @ val) @ CRLF @ trailer_lines ts"
      using False by (simp add: trailer_lines_def t)
    then have "trailer_lines (t # ts) @ CRLF @ xs = c # l @ CRLF @ trailer_lines ts @ CRLF @ xs" unfolding l by simp
    then show ?thesis using ih decode_line [OF cl(3,4)] cl(1,2) by (simp add: ck_enter_def chunked_step_def)
  qed
qed

lemma trailer_lines_empty: "trailer_len ts = 0 \<Longrightarrow> trailer_lines ts = []"
  by (auto simp: trailer_len_def trailer_lines_def split: if_splits)

lemma decode_last_chunk:
  assumes "trailers_ok ts"
  shows "decode sw_chunk_start n (drop 2 (ob_data (ngx_http_chunked_create_trailers ts)) @ xs) = Some ([], xs)"
    "ob_data (ngx_http_chunked_create_trailers ts) = CRLF @ drop 2 (ob_data (ngx_http_chunked_create_trailers ts))"
proof -
  have data: "ob_data (ngx_http_chunked_create_trailers ts) = CRLF @ 0x30 # CRLF @ trailer_lines ts @ CRLF"
    by (simp add: ngx_http_chunked_create_trailers_def memory_buf_def trailer_lines_empty)
  show "ob_data (ngx_http_chunked_create_trailers ts) = CRLF @ drop 2 (ob_data (ngx_http_chunked_create_trailers ts))"
    unfolding data by (simp add: CRLF_def)
  have "decode sw_chunk_start n (0x30 # CRLF @ ys) = decode sw_trailer 0 ys" for ys
    by (simp add: CRLF_def ck_enter_def chunked_step_defs chunk_digit_def max_values)
  then show "decode sw_chunk_start n (drop 2 (ob_data (ngx_http_chunked_create_trailers ts)) @ xs) = Some ([], xs)"
    using decode_trailer_lines [OF assms, of 0 xs] unfolding data by (simp add: CRLF_def)
qed

text \<open>One call of the response filter, not the last one and the last one.\<close>

lemma filter_decodes:
  assumes "chain_ok chain" "trailers_ok ts"
  shows "\<exists>out. ngx_http_chunked_body_filter True False ts chain = Some out \<and>
    (\<forall>xs. decode sw_chunk_start 0 (out_bytes out @ xs) =
      (if ob_last (last chain) then Some (out_bytes chain, xs)
       else map_option (apfst ((@) (out_bytes chain))) (decode sw_chunk_start 0 xs)))"
proof -
  let ?d = "out_bytes chain" and ?t = "ngx_http_chunked_create_trailers ts"
  have ne: "chain \<noteq> []" and len: "int (length ?d) \<le> NGX_MAX_OFF_T_VALUE div 16" using assms(1) by (auto simp: chain_ok_def)
  have sz: "i64 (int (sum_list (map (length \<circ> ob_data) chain))) = int (length ?d)"
    unfolding out_bytes_length using len by (intro i64_small) (auto simp: max_values)
  have spr: "ngx_sprintf (bytes ''%xO'' @ CRLF) [VInt (int (length ?d))] =
      Some (map (\<lambda>d. hex_lower ! d) (base_digits 16 (length ?d)) @ CRLF)"
    using sprintf_chunk [of "int (length ?d)"] len by (simp add: max_values)
  note last = decode_last_chunk [OF assms(2)]
  note unf = ngx_http_chunked_body_filter_def Let_def sz
  show ?thesis
  proof (cases "?d = []")
    case True
    have "map_option (apfst ((@) [])) m = m" for m :: "(u_char list \<times> u_char list) option" by (cases m) auto
    then show ?thesis using ne True out_bytes_kept [OF assms(1)] last(1) by (auto simp: unf)
  next
    case False
    have "decode sw_chunk_start 0 (map (\<lambda>d. hex_lower ! d) (base_digits 16 (length ?d)) @ CRLF @ ?d @ CRLF @ xs) =
        map_option (apfst ((@) ?d)) (decode sw_chunk_start 0 xs)" for xs
      by (rule decode_chunk [OF False len])
    moreover have "decode sw_chunk_start 0 (map (\<lambda>d. hex_lower ! d) (base_digits 16 (length ?d)) @ CRLF @ ?d @ ob_data ?t @ xs) =
        Some (?d, xs)" for xs
      using decode_chunk [OF False len, of 0 "drop 2 (ob_data ?t) @ xs"] last(1) by (subst last(2)) simp
    ultimately show ?thesis using ne False out_bytes_kept [OF assms(1)] spr by (simp add: unf memory_buf_def)
  qed
qed

section \<open>The two filters are inverse\<close>

text \<open>The bytes of a response whose body is passed to the filter chain by chain.\<close>

fun chunked_response :: "trailer list \<Rightarrow> out_buf list list \<Rightarrow> u_char list option" where
  "chunked_response ts [] = Some []"
| "chunked_response ts (chain # calls) =
     (case ngx_http_chunked_body_filter True False ts chain of
        None \<Rightarrow> None
      | Some out \<Rightarrow> map_option ((@) (out_bytes out)) (chunked_response ts calls))"

lemma chunked_response_decodes:
  assumes "\<forall>chain\<in>set calls. chain_ok chain \<and> \<not> ob_last (last chain)" "chain_ok final" "ob_last (last final)" "trailers_ok ts"
  shows "\<exists>coded. chunked_response ts (calls @ [final]) = Some coded \<and>
    decode sw_chunk_start 0 coded = Some (out_bytes (concat calls @ final), [])"
  using assms(1)
proof (induction calls)
  case Nil
  obtain out where "ngx_http_chunked_body_filter True False ts final = Some out"
    "\<forall>xs. decode sw_chunk_start 0 (out_bytes out @ xs) = Some (out_bytes final, xs)"
    using filter_decodes [OF assms(2,4)] assms(3) by auto
  then show ?case by (simp, metis append_Nil2)
next
  case (Cons chain calls)
  then obtain coded where "chunked_response ts (calls @ [final]) = Some coded"
    "decode sw_chunk_start 0 coded = Some (out_bytes (concat calls @ final), [])" by auto
  moreover obtain out where "ngx_http_chunked_body_filter True False ts chain = Some out"
    "\<forall>xs. decode sw_chunk_start 0 (out_bytes out @ xs) = map_option (apfst ((@) (out_bytes chain))) (decode sw_chunk_start 0 xs)"
    using filter_decodes [OF _ assms(4), of chain] Cons.prems by auto
  ultimately show ?case by simp
qed

text \<open>
  C15: a body written by the chunked response filter, in any number of calls with chains of any
  buffers and with any trailers without line breaks, and divided into any non-empty reads, is
  taken apart by the chunked request body filter: it passes on exactly the bytes of the body
  followed by the mark of the last buffer, counts them, and asks for nothing more.
\<close>

theorem chunked_roundtrip:
  assumes "\<forall>chain\<in>set calls. chain_ok chain \<and> \<not> ob_last (last chain)" "chain_ok final" "ob_last (last final)" "trailers_ok ts"
    and "data = out_bytes (concat calls @ final)" "int (length data) \<le> NGX_MAX_OFF_T_VALUE"
    and "0 \<le> client_max_body_size conf" "client_max_body_size conf \<le> NGX_MAX_OFF_T_VALUE"
      "client_max_body_size conf \<noteq> 0 \<longrightarrow> int (length data) \<le> client_max_body_size conf"
    and "rb_rest rb = -1"
  shows "\<exists>coded. chunked_response ts (calls @ [final]) = Some coded \<and>
    (\<forall>pieces. concat pieces = coded \<and> [] \<notin> set pieces \<longrightarrow>
       (\<exists>rb' out. ngx_http_request_body_chunked_filter conf rb pieces = Inr (rb', out @ [Body_last]) \<and>
          Body_last \<notin> set out \<and> body_bytes out = data \<and> rb_rest rb' = 0 \<and> content_length_n rb' = int (length data)))"
proof -
  obtain coded where coded: "chunked_response ts (calls @ [final]) = Some coded" "decode sw_chunk_start 0 coded = Some (data, [])"
    using chunked_response_decodes [OF assms(1-4)] assms(5) by auto
  define rb0 where "rb0 = rb\<lparr>rb_chunked := \<lparr>ck_state = sw_chunk_start, ck_size = 0, ck_length = 0\<rparr>, content_length_n := 0,
    rb_rest := large_header_size conf\<rparr>"
  have "\<exists>rb' out1. body_chunked_chain conf rb0 pieces [] = Inr (rb', out1 @ [Body_last]) \<and> rb_rest rb' = 0 \<and>
      Body_last \<notin> set out1 \<and> body_bytes out1 = data \<and> content_length_n rb' = int (length data)"
    if "concat pieces = coded" "[] \<notin> set pieces" for pieces
    using body_chain_complete [of rb0 pieces data conf "[]"] coded(2) that assms(6-9)
    by (simp add: rb0_def body_decodes_def body_fits_def size_ok_def max_values)
  then show ?thesis using coded(1) assms(10) by (fastforce simp: ngx_http_request_body_chunked_filter_def rb0_def)
qed

definition test_buf :: "string \<Rightarrow> bool \<Rightarrow> out_buf" where
  "test_buf text is_last = memory_buf (bytes text) is_last"

theorem chunked_roundtrip_witness:
  "\<exists>coded. chunked_response [(1, bytes ''X-Sum'', bytes ''7'')] [[test_buf ''hello, '' False], [test_buf ''world'' True]] = Some coded \<and>
     (\<exists>rb' out. ngx_http_request_body_chunked_filter \<lparr>client_max_body_size = 100, large_header_size = 8192\<rparr>
        \<lparr>rb_rest = -1, rb_chunked = \<lparr>ck_state = sw_chunk_start, ck_size = 0, ck_length = 0\<rparr>, content_length_n = 0, lingering_close = False\<rparr>
        (map (\<lambda>c. [c]) coded) = Inr (rb', out @ [Body_last]) \<and> body_bytes out = bytes ''hello, world'')"
proof -
  let ?conf = "\<lparr>client_max_body_size = 100, large_header_size = 8192\<rparr>"
  let ?rb = "\<lparr>rb_rest = -1, rb_chunked = \<lparr>ck_state = sw_chunk_start, ck_size = 0, ck_length = 0\<rparr>, content_length_n = 0, lingering_close = False\<rparr>"
  let ?ts = "[(1, bytes ''X-Sum'', bytes ''7'')] :: trailer list"
  have "\<exists>coded. chunked_response ?ts ([[test_buf ''hello, '' False]] @ [[test_buf ''world'' True]]) = Some coded \<and>
    (\<forall>pieces. concat pieces = coded \<and> [] \<notin> set pieces \<longrightarrow>
       (\<exists>rb' out. ngx_http_request_body_chunked_filter ?conf ?rb pieces = Inr (rb', out @ [Body_last]) \<and>
          Body_last \<notin> set out \<and> body_bytes out = bytes ''hello, world'' \<and> rb_rest rb' = 0 \<and>
          content_length_n rb' = int (length (bytes ''hello, world''))))"
    by (rule chunked_roundtrip)
      (simp_all add: chain_ok_def buf_ok_def test_buf_def memory_buf_def out_bytes_def trailers_ok_def bytes_Cons max_values)
  then obtain coded where c: "chunked_response ?ts [[test_buf ''hello, '' False], [test_buf ''world'' True]] = Some coded"
    and all_: "\<forall>pieces. concat pieces = coded \<and> [] \<notin> set pieces \<longrightarrow>
       (\<exists>rb' out. ngx_http_request_body_chunked_filter ?conf ?rb pieces = Inr (rb', out @ [Body_last]) \<and>
          body_bytes out = bytes ''hello, world'')"
    unfolding append.simps by blast
  have "concat (map (\<lambda>c. [c]) xs) = xs" "[] \<notin> set (map (\<lambda>c. [c]) xs)" for xs :: "u_char list"
    by (induction xs) auto
  then show ?thesis using c all_ by blast
qed

section \<open>The length the parser reports\<close>

lemma chunked_length_pos: "0 \<le> n \<Longrightarrow> 1 \<le> chunked_length s n"
  by (cases s) (auto simp: chunked_length_def)

lemma chunked_length_enter [simp]: "chunked_length (ck_enter s n) n = chunked_length s n"
  by (auto simp: chunked_length_def ck_enter_def)

text \<open>A byte brings the end nearer by at most one.\<close>

lemma chunked_length_step:
  assumes "size_ok s n" "chunked_step s n c = Ck_go s' n'"
  shows "chunked_length s n \<le> 1 + chunked_length s' n'"
proof -
  have "0 \<le> n" using assms(1) by (simp add: size_ok_def)
  moreover have "i64 (n * 16 + d) = n * 16 + d" if "n \<le> NGX_MAX_OFF_T_VALUE div 16" "0 \<le> n" "0 \<le> d" "d < 16" for d
    using that by (intro i64_small) (auto simp: max_values)
  ultimately show ?thesis using assms(2) chunk_digit_range [of c]
    by (cases s) (auto simp: chunked_step_defs chunked_length_def split: if_splits option.splits)
qed

lemma chunked_length_done: "chunked_step s n c = Ck_done \<Longrightarrow> chunked_length s n = 1"
  by (cases s) (auto simp: chunked_step_defs chunked_length_def split: if_splits option.splits)

lemma chunked_loop_length:
  assumes "size_ok s n"
  shows "case chunked_loop s n buf of
      Ck_stop rc s' n' rest \<Rightarrow> size_ok s' n' \<and> chunked_length s n \<le> int (length buf - length rest) + chunked_length s' n' \<and>
        length rest \<le> length buf
    | Ck_finished n' rest \<Rightarrow> chunked_length s n \<le> int (length buf)
    | Ck_bad n' \<Rightarrow> True"
  using assms
proof (induction s n buf rule: chunked_loop.induct)
  case (2 s n c buf)
  show ?case
  proof (cases "chunked_step s n c")
    case (Ck_go s' n')
    from 2(1) [OF Ck_go size_step [OF 2(2) Ck_go]] chunked_length_step [OF 2(2) Ck_go] show ?thesis
      by (auto simp: Ck_go split: ck_end.splits)
  next
    case Ck_done
    then show ?thesis using chunked_length_done [OF Ck_done] by simp
  qed (use 2(2) in auto)
qed simp

lemma parse_chunked_length:
  assumes "size_ok (ck_state ctx) (ck_size ctx)" "ngx_http_parse_chunked ctx buf = (rc, ctx', rest)"
  shows "rc = NGX_DONE \<Longrightarrow> chunked_length (ck_state ctx) (ck_size ctx) \<le> int (length buf)"
    and "rc = NGX_OK \<or> rc = NGX_AGAIN \<Longrightarrow> size_ok (ck_state ctx') (ck_size ctx') \<and> length rest \<le> length buf \<and>
      chunked_length (ck_state ctx) (ck_size ctx) \<le> int (length buf - length rest) + chunked_length (ck_state ctx') (ck_size ctx')"
    and "rc = NGX_AGAIN \<Longrightarrow> ck_length ctx' = chunked_length (ck_state ctx') (ck_size ctx')"
proof -
  let ?s = "ck_enter (ck_state ctx) (ck_size ctx)"
  have "size_ok ?s (ck_size ctx)" using assms(1) by (auto simp: ck_enter_def size_ok_def)
  note len = chunked_loop_length [OF this, of buf, simplified]
  note unf = assms(2) [unfolded ngx_http_parse_chunked_def Let_def ck_enter_def [symmetric]]
  show "rc = NGX_DONE \<Longrightarrow> chunked_length (ck_state ctx) (ck_size ctx) \<le> int (length buf)"
    using len unf chunked_loop_stop [of ?s "ck_size ctx" buf rc] by (auto split: ck_end.splits if_splits)
  show "rc = NGX_OK \<or> rc = NGX_AGAIN \<Longrightarrow> size_ok (ck_state ctx') (ck_size ctx') \<and> length rest \<le> length buf \<and>
      chunked_length (ck_state ctx) (ck_size ctx) \<le> int (length buf - length rest) + chunked_length (ck_state ctx') (ck_size ctx')"
    using len unf by (auto split: ck_end.splits if_splits)
  show "rc = NGX_AGAIN \<Longrightarrow> ck_length ctx' = chunked_length (ck_state ctx') (ck_size ctx')"
    using unf by (auto split: ck_end.splits if_splits)
qed

lemma body_loop_length:
  assumes "body_chunked_loop conf rb has_b buf out = Inr (rb', out')" "rb_rest rb' = 0"
    "size_ok (ck_state (rb_chunked rb)) (ck_size (rb_chunked rb))"
  shows "chunked_length (ck_state (rb_chunked rb)) (ck_size (rb_chunked rb)) \<le> int (length buf)"
  using assms
proof (induction conf rb has_b buf out rule: body_chunked_loop.induct)
  case (1 conf rb has_b buf out)
  obtain rc ctx rest where p: "ngx_http_parse_chunked (rb_chunked rb) buf = (rc, ctx, rest)" by (cases "ngx_http_parse_chunked (rb_chunked rb) buf")
  note IH = 1(1-3) [OF p [symmetric] refl refl refl refl]
  note len = parse_chunked_length [OF 1(6) p]
  note unf = body_chunked_loop.simps [of conf rb has_b buf out, unfolded p prod.case Let_def]
  show ?case
  proof (cases rc)
    case NGX_DONE
    then show ?thesis using len(1) by simp
  next
    case NGX_AGAIN
    then have "1 \<le> ck_length ctx" using len(2,3) chunked_length_pos by (simp add: size_ok_def)
    moreover have "rb_rest rb' = max (ck_length ctx) (large_header_size conf)"
      using 1(4) NGX_AGAIN by (auto simp: unf)
    ultimately show ?thesis using 1(5) by simp
  next
    case NGX_OK
    let ?n = "ck_size ctx"
    have st: "ck_state ctx = sw_chunk_data" "size_ok sw_chunk_data ?n" "length rest \<le> length buf"
      "chunked_length (ck_state (rb_chunked rb)) (ck_size (rb_chunked rb)) \<le> int (length buf - length rest) + (?n + 4)"
      using len(2) parse_chunked_ok [of "rb_chunked rb" buf ctx rest] p NGX_OK by (auto simp: chunked_length_def)
    have ok: "size_ok sw_chunk_data m" if "0 \<le> m" "m \<le> ?n" for m using st(2) that by (auto simp: size_ok_def)
    have n: "0 \<le> ?n" using st(2) by (simp add: size_ok_def)
    have max_ok: "\<not> (client_max_body_size conf \<noteq> 0 \<and> i64 (client_max_body_size conf - content_length_n rb) < ?n)"
      using 1(4) NGX_OK by (auto simp: unf)
    have eq: "body_chunked_loop conf rb has_b buf out = (if has_b \<and> ?n \<le> 128 \<and> ?n \<le> int (length rest) then
        body_chunked_loop conf (rb\<lparr>rb_chunked := ctx\<lparr>ck_size := 0\<rparr>, content_length_n := i64 (content_length_n rb + ?n)\<rparr>)
          True (drop (nat ?n) rest) (append_last out (take (nat ?n) rest))
      else if ?n < int (length rest) then
        body_chunked_loop conf (rb\<lparr>rb_chunked := ctx\<lparr>ck_size := 0\<rparr>, content_length_n := i64 (content_length_n rb + ?n)\<rparr>)
          True (drop (nat ?n) rest) (out @ [Body_data (take (nat ?n) rest)])
      else body_chunked_loop conf (rb\<lparr>rb_chunked := ctx\<lparr>ck_size := ?n - int (length rest)\<rparr>,
          content_length_n := i64 (content_length_n rb + int (length rest))\<rparr>) True [] (out @ [Body_data rest]))"
      unfolding unf NGX_OK ngx_rc.case if_not_P [OF max_ok] by (rule refl)
    show ?thesis
      using 1(4,5) n st ok [of 0] ok [of "?n - int (length rest)"] IH(1) [OF NGX_OK max_ok] IH(2,3) [OF NGX_OK max_ok] unfolding eq
      by (auto simp: chunked_length_def split: if_splits)
  qed (use 1(4) in \<open>auto simp: unf\<close>)
qed

text \<open>The shortest completion.\<close>

definition last_chunk :: "u_char list" where
  "last_chunk = [LF, 0x30, LF, LF]"

fun completion :: "ck_state \<Rightarrow> int \<Rightarrow> u_char list" where
  "completion sw_chunk_start n = [0x30, LF, LF]"
| "completion sw_chunk_size n = (if n = 0 then [LF, LF] else LF # replicate (nat n) 0 @ last_chunk)"
| "completion sw_chunk_extension n = LF # replicate (nat n) 0 @ last_chunk"
| "completion sw_chunk_extension_almost_done n = LF # replicate (nat n) 0 @ last_chunk"
| "completion sw_chunk_data n = replicate (nat n) 0 @ last_chunk"
| "completion sw_after_data n = last_chunk"
| "completion sw_after_data_almost_done n = last_chunk"
| "completion sw_last_chunk_extension n = [LF, LF]"
| "completion sw_last_chunk_extension_almost_done n = [LF, LF]"
| "completion sw_trailer n = [LF]"
| "completion sw_trailer_almost_done n = [LF]"
| "completion sw_trailer_header n = [LF, LF]"
| "completion sw_trailer_header_almost_done n = [LF, LF]"

lemma completion_length: "0 \<le> n \<Longrightarrow> int (length (completion s n)) = chunked_length s n"
  by (cases s) (simp_all add: chunked_length_def last_chunk_def)

lemma decode_last: "decode sw_chunk_start n [0x30, LF, LF] = Some ([], [])"
  by (simp add: ck_enter_def chunked_step_defs chunk_digit_def max_values)

lemma completion_decodes:
  assumes "size_ok s n" "n \<le> NGX_MAX_OFF_T_VALUE div 16"
  shows "\<exists>d. decode s n (completion s n) = Some (d, []) \<and> int (length d) \<le> n"
proof -
  have d: "decode sw_chunk_data n (replicate (nat n) 0 @ last_chunk) = Some (replicate (nat n) 0, [])"
    using decode_take [of "replicate (nat n) 0" last_chunk] assms(1) decode_last [of 0]
    by (simp add: size_ok_def last_chunk_def ck_enter_def chunked_step_defs)
  have n: "0 \<le> n" using assms(1) by (simp add: size_ok_def)
  show ?thesis
  proof (cases s)
    case sw_chunk_size
    then show ?thesis using d n assms(2) by (cases "n = 0") (auto simp: ck_enter_def chunked_step_defs chunk_digit_def)
  next
    case sw_chunk_start
    then show ?thesis using decode_last [of n] n by (auto simp del: decode.simps)
  qed (use d n decode_last [of n] in \<open>auto simp: last_chunk_def ck_enter_def chunked_step_defs\<close>)
qed

text \<open>
  C16: when the parser has read its input and asks for more, the length it reports is exactly the
  least number of bytes that complete the body: no shorter input makes the request body filter
  report the end of the body, and some input of that length does. (A size with as many digits as
  to be rejected at the next byte cannot be completed at all.)
\<close>

theorem chunked_length_least:
  assumes "ngx_http_parse_chunked ctx buf = (NGX_AGAIN, ctx', rest)" "size_ok (ck_state ctx) (ck_size ctx)"
    and "rb_chunked rb = ctx'" "rb_rest rb \<noteq> -1" "client_max_body_size conf = 0" "0 \<le> content_length_n rb"
      "ck_size ctx' \<le> NGX_MAX_OFF_T_VALUE div 16" "content_length_n rb + ck_size ctx' \<le> NGX_MAX_OFF_T_VALUE"
  shows "(\<forall>xs rb' out. ngx_http_request_body_chunked_filter conf rb [xs] = Inr (rb', out) \<and> rb_rest rb' = 0 \<longrightarrow>
      ck_length ctx' \<le> int (length xs)) \<and>
    (\<exists>xs rb' out. ngx_http_request_body_chunked_filter conf rb [xs] = Inr (rb', out) \<and> rb_rest rb' = 0 \<and>
      int (length xs) = ck_length ctx')"
proof -
  let ?s = "ck_state ctx'" and ?n = "ck_size ctx'"
  have ok: "size_ok ?s ?n" and len: "ck_length ctx' = chunked_length ?s ?n"
    using parse_chunked_length(2,3) [OF assms(2,1)] by auto
  note filter_eq = ngx_http_request_body_chunked_filter_def Let_def if_not_P [OF assms(4)]
  have "ck_length ctx' \<le> int (length xs)"
    if "ngx_http_request_body_chunked_filter conf rb [xs] = Inr (rb', out)" "rb_rest rb' = 0" for xs rb' out
    using that body_loop_length [of conf rb False xs "[]" rb' out] ok len assms(3)
    by (auto simp: filter_eq split: sum.splits)
  moreover have "\<exists>rb' out. ngx_http_request_body_chunked_filter conf rb [completion ?s ?n] = Inr (rb', out) \<and> rb_rest rb' = 0"
  proof -
    obtain d where d: "decode ?s ?n (completion ?s ?n) = Some (d, [])" "int (length d) \<le> ?n"
      using completion_decodes [OF ok assms(7)] by auto
    have "completion ?s ?n \<noteq> []" using d(1) by auto
    then show ?thesis
      using body_chain_complete [of rb "[completion ?s ?n]" d conf "[]"] d ok assms(3-8)
      by (auto simp: filter_eq body_decodes_def body_fits_def max_values)
  qed
  moreover have "int (length (completion ?s ?n)) = ck_length ctx'" using completion_length ok len by (auto simp: size_ok_def)
  ultimately show ?thesis by blast
qed

theorem chunked_length_least_witness:
  "\<exists>ctx' xs rb' out. ngx_http_parse_chunked \<lparr>ck_state = sw_chunk_start, ck_size = 0, ck_length = 0\<rparr> (bytes ''5'') = (NGX_AGAIN, ctx', []) \<and>
     ck_length ctx' = 10 \<and> length xs = 10 \<and>
     ngx_http_request_body_chunked_filter \<lparr>client_max_body_size = 0, large_header_size = 8192\<rparr>
       \<lparr>rb_rest = 8192, rb_chunked = ctx', content_length_n = 0, lingering_close = False\<rparr> [xs] = Inr (rb', out) \<and> rb_rest rb' = 0"
proof -
  let ?c = "\<lparr>ck_state = sw_chunk_start, ck_size = 0, ck_length = 0\<rparr>"
  define ctx' where "ctx' = \<lparr>ck_state = sw_chunk_size, ck_size = 5, ck_length = 10\<rparr>"
  have p: "ngx_http_parse_chunked ?c (bytes ''5'') = (NGX_AGAIN, ctx', [])"
    by (simp add: ctx'_def ngx_http_parse_chunked_def bytes_Cons chunked_step_defs chunk_digit_def max_values chunked_length_def)
  have "\<exists>xs rb' out. ngx_http_request_body_chunked_filter \<lparr>client_max_body_size = 0, large_header_size = 8192\<rparr>
       \<lparr>rb_rest = 8192, rb_chunked = ctx', content_length_n = 0, lingering_close = False\<rparr> [xs] = Inr (rb', out) \<and> rb_rest rb' = 0 \<and>
      int (length xs) = ck_length ctx'"
    by (rule chunked_length_least [OF p, THEN conjunct2]) (simp_all add: size_ok_def max_values ctx'_def)
  then show ?thesis using p by (auto simp: ctx'_def)
qed

end
