(* ===== verification/Ngx_Status_Line.thy ===== *)
theory Ngx_Status_Line
  imports Ngx_Header_Line
begin

text \<open>
  The status line of an upstream response: \<^verbatim>\<open>ngx_http_parse_status_line\<close>
  (src/nginx/src/http/ngx_http_parse.c), with the fields of the request and of \<^verbatim>\<open>ngx_http_status_t\<close> it
  writes in one record. The version numbers are fields of 16 bits of the request.
\<close>

section \<open>The parser\<close>

datatype sl_state =
    sl_start | sl_H | sl_HT | sl_HTT | sl_HTTP | sl_first_major_digit | sl_major_digit | sl_first_minor_digit
  | sl_minor_digit | sl_status | sl_space_after_status | sl_status_text | sl_almost_done

record ngx_http_status =
  st_major :: nat
  st_minor :: nat
  st_version :: nat
  st_code :: nat
  st_count :: nat
  st_start :: "nat option"
  st_end :: "nat option"

type_synonym sl_result = "(sl_state, ngx_http_status, unit) pstep"

definition sl_expect :: "u_char \<Rightarrow> sl_state \<Rightarrow> u_char \<Rightarrow> ngx_http_status \<Rightarrow> sl_result" where
  "sl_expect c s' ch r = (if ch = c then Next s' r else Fail () r)"

definition sl_first_major_step :: "u_char \<Rightarrow> ngx_http_status \<Rightarrow> sl_result" where
  "sl_first_major_step ch r =
     (if ch < 0x31 \<or> ch > 0x39 then Fail () r
      else Next sl_major_digit (r\<lparr>st_major := unat ch - 0x30\<rparr>))"

definition sl_major_step :: "u_char \<Rightarrow> ngx_http_status \<Rightarrow> sl_result" where
  "sl_major_step ch r =
     (if ch = 0x2e then Next sl_first_minor_digit r
      else if ch < 0x30 \<or> ch > 0x39 then Fail () r
      else if st_major r > 99 then Fail () r
      else Next sl_major_digit (r\<lparr>st_major := (st_major r * 10 + (unat ch - 0x30)) mod 2 ^ 16\<rparr>))"

definition sl_first_minor_step :: "u_char \<Rightarrow> ngx_http_status \<Rightarrow> sl_result" where
  "sl_first_minor_step ch r =
     (if ch < 0x30 \<or> ch > 0x39 then Fail () r
      else Next sl_minor_digit (r\<lparr>st_minor := unat ch - 0x30\<rparr>))"

definition sl_minor_step :: "u_char \<Rightarrow> ngx_http_status \<Rightarrow> sl_result" where
  "sl_minor_step ch r =
     (if ch = 0x20 then Next sl_status r
      else if ch < 0x30 \<or> ch > 0x39 then Fail () r
      else if st_minor r > 99 then Fail () r
      else Next sl_minor_digit (r\<lparr>st_minor := (st_minor r * 10 + (unat ch - 0x30)) mod 2 ^ 16\<rparr>))"

definition sl_status_step :: "nat \<Rightarrow> u_char \<Rightarrow> ngx_http_status \<Rightarrow> sl_result" where
  "sl_status_step p ch r =
     (if ch = 0x20 then Next sl_status r
      else if ch < 0x30 \<or> ch > 0x39 then Fail () r
      else
        let r = r\<lparr>st_code := (st_code r * 10 + (unat ch - 0x30)) mod 2 ^ 64, st_count := (st_count r + 1) mod 2 ^ 64\<rparr>
        in if st_count r = 3 then Next sl_space_after_status (r\<lparr>st_start := Some (p - 2)\<rparr>)
           else Next sl_status r)"

definition sl_space_after_status_step :: "u_char \<Rightarrow> ngx_http_status \<Rightarrow> sl_result" where
  "sl_space_after_status_step ch r =
     (if ch = 0x20 \<or> ch = 0x2e then Next sl_status_text r
      else if ch = CR then Next sl_almost_done r
      else if ch = LF then Done r
      else Fail () r)"

definition sl_status_text_step :: "u_char \<Rightarrow> ngx_http_status \<Rightarrow> sl_result" where
  "sl_status_text_step ch r =
     (if ch = CR then Next sl_almost_done r else if ch = LF then Done r else Next sl_status_text r)"

definition sl_almost_done_step :: "nat \<Rightarrow> u_char \<Rightarrow> ngx_http_status \<Rightarrow> sl_result" where
  "sl_almost_done_step p ch r =
     (let r = r\<lparr>st_end := Some (p - 1)\<rparr> in if ch = LF then Done r else Fail () r)"

definition sl_step :: "(sl_state, ngx_http_status, unit) parser_step" where
  "sl_step buf p s r =
     (let ch = buf ! p in
      case s of
        sl_start \<Rightarrow> sl_expect 0x48 sl_H ch r
      | sl_H \<Rightarrow> sl_expect 0x54 sl_HT ch r
      | sl_HT \<Rightarrow> sl_expect 0x54 sl_HTT ch r
      | sl_HTT \<Rightarrow> sl_expect 0x50 sl_HTTP ch r
      | sl_HTTP \<Rightarrow> sl_expect 0x2f sl_first_major_digit ch r
      | sl_first_major_digit \<Rightarrow> sl_first_major_step ch r
      | sl_major_digit \<Rightarrow> sl_major_step ch r
      | sl_first_minor_digit \<Rightarrow> sl_first_minor_step ch r
      | sl_minor_digit \<Rightarrow> sl_minor_step ch r
      | sl_status \<Rightarrow> sl_status_step p ch r
      | sl_space_after_status \<Rightarrow> sl_space_after_status_step ch r
      | sl_status_text \<Rightarrow> sl_status_text_step ch r
      | sl_almost_done \<Rightarrow> sl_almost_done_step p ch r)"

definition sl_done :: "nat \<Rightarrow> ngx_http_status \<Rightarrow> ngx_http_status" where
  "sl_done p r =
     (let r = (if st_end r = None then r\<lparr>st_end := Some p\<rparr> else r)
      in r\<lparr>st_version := st_major r * 1000 + st_minor r\<rparr>)"

text \<open>The function: the return code, the new position and state, and the record.\<close>

definition ngx_http_parse_status_line ::
  "u_char list \<Rightarrow> nat \<Rightarrow> sl_state \<Rightarrow> ngx_http_status \<Rightarrow> ngx_rc \<times> nat \<times> sl_state \<times> ngx_http_status" where
  "ngx_http_parse_status_line buf pos s r =
     (case run_parser sl_step buf pos s r of
        Again p s' r' \<Rightarrow> (NGX_AGAIN, p, s', r')
      | Failed p e r' \<Rightarrow> (NGX_ERROR, pos, s, r')
      | Finished p r' \<Rightarrow> (NGX_OK, p + 1, sl_start, sl_done p r'))"

lemmas sl_step_defs = sl_expect_def sl_first_major_step_def sl_major_step_def sl_first_minor_step_def sl_minor_step_def
  sl_status_step_def sl_space_after_status_step_def sl_status_text_step_def sl_almost_done_step_def

interpretation sl: incremental_parser sl_step "\<lambda>p r. True"
  by unfold_locales (simp_all add: sl_step_def nth_append)

section \<open>The grammar of a status line\<close>

definition status_init :: ngx_http_status where
  "status_init = \<lparr>st_major = 0, st_minor = 0, st_version = 0, st_code = 0, st_count = 0, st_start = None, st_end = None\<rparr>"

definition text_byte :: "u_char \<Rightarrow> bool" where
  "text_byte ch \<longleftrightarrow> ch \<noteq> CR \<and> ch \<noteq> LF"

definition digit_value :: "u_char \<Rightarrow> nat" where
  "digit_value d = unat d - 0x30"

definition decimal :: "u_char list \<Rightarrow> nat" where
  "decimal ds = foldl (\<lambda>n d. n * 10 + digit_value d) 0 ds"

text \<open>A number of the version, and the spaces and digits of a status code.\<close>

definition version_number :: "u_char list \<Rightarrow> bool" where
  "version_number ds \<longleftrightarrow> ds \<noteq> [] \<and> list_all digit_char ds \<and> decimal ds \<le> 999"

definition code_bytes :: "u_char list \<Rightarrow> bool" where
  "code_bytes st \<longleftrightarrow> list_all (\<lambda>ch. digit_char ch \<or> ch = 0x20) st"

definition code_complete :: "u_char list \<Rightarrow> bool" where
  "code_complete st \<longleftrightarrow> code_bytes st \<and> length (filter digit_char st) = 3 \<and> digit_char (last st)"

text \<open>The text of a line starts with a space or, for codes such as \<^verbatim>\<open>403.1\<close>, with a dot.\<close>

definition reason_text :: "u_char list \<Rightarrow> bool" where
  "reason_text rs \<longleftrightarrow> list_all text_byte rs \<and> (rs = [] \<or> hd rs = 0x20 \<or> hd rs = 0x2e)"

definition status_prefix :: "u_char list \<Rightarrow> u_char list \<Rightarrow> u_char list \<Rightarrow> u_char list" where
  "status_prefix M m st = bytes ''HTTP/'' @ M @ [0x2e] @ m @ [0x20] @ st"

definition prefix_ok :: "u_char list \<Rightarrow> u_char list \<Rightarrow> bool" where
  "prefix_ok M m \<longleftrightarrow> version_number M \<and> hd M \<noteq> 0x30 \<and> version_number m"

definition status_line :: "u_char list \<Rightarrow> u_char list \<Rightarrow> u_char list \<Rightarrow> u_char list \<Rightarrow> u_char list \<Rightarrow> u_char list" where
  "status_line M m st rs eol = status_prefix M m st @ rs @ eol"

definition status_line_ok :: "u_char list \<Rightarrow> u_char list \<Rightarrow> u_char list \<Rightarrow> u_char list \<Rightarrow> u_char list \<Rightarrow> bool" where
  "status_line_ok M m st rs eol \<longleftrightarrow> prefix_ok M m \<and> code_complete st \<and> reason_text rs \<and> (eol = [LF] \<or> eol = [CR, LF])"

definition status_read :: "u_char list \<Rightarrow> u_char list \<Rightarrow> u_char list \<Rightarrow> ngx_http_status" where
  "status_read M m st = status_init\<lparr>st_major := decimal M, st_minor := decimal m,
     st_code := decimal (filter digit_char st), st_count := length (filter digit_char st)\<rparr>"

definition status_coded :: "u_char list \<Rightarrow> u_char list \<Rightarrow> u_char list \<Rightarrow> ngx_http_status" where
  "status_coded M m st = (status_read M m st)\<lparr>st_start := Some (length (status_prefix M m st) - 3)\<rparr>"

text \<open>What the parser should leave in the record for a line.\<close>

definition status_of :: "u_char list \<Rightarrow> u_char list \<Rightarrow> u_char list \<Rightarrow> u_char list \<Rightarrow> ngx_http_status" where
  "status_of M m st rs =
     \<lparr>st_major = decimal M, st_minor = decimal m, st_version = decimal M * 1000 + decimal m,
      st_code = decimal (filter digit_char st), st_count = 3,
      st_start = Some (length (status_prefix M m st) - 3), st_end = Some (length (status_prefix M m st) + length rs)\<rparr>"

lemma decimal_simps [simp]: "decimal [] = 0" "decimal (ds @ [d]) = decimal ds * 10 + digit_value d" "decimal [d] = digit_value d"
  by (simp_all add: decimal_def)

lemma decimal_mono: "decimal ds \<le> decimal (ds @ es)"
proof (induction es rule: rev_induct)
  case (snoc e es)
  then show ?case by (simp flip: append_assoc)
qed simp

lemma digit_value_le: "digit_char d \<Longrightarrow> digit_value d \<le> 9"
  by (auto simp: digit_char_def digit_value_def word_le_nat_alt)

lemma decimal_less: "list_all digit_char ds \<Longrightarrow> decimal ds < 10 ^ length ds"
proof (induction ds rule: rev_induct)
  case (snoc d ds)
  then show ?case using digit_value_le [of d] by simp
qed simp

lemma digit_tests: "\<not> (ch < 0x30 \<or> ch > 0x39) \<longleftrightarrow> digit_char ch"
  by (auto simp: digit_char_def not_less)

lemma digit_pos: "\<not> (ch < 0x31 \<or> ch > 0x39) \<longleftrightarrow> digit_char ch \<and> ch \<noteq> 0x30"
proof -
  have "(\<not> (ch < 0x31 \<or> ch > 0x39)) = (digit_char ch \<and> ch \<noteq> 0x30)"
    by (rule byte_all [where c = ch]) code_simp
  then show ?thesis .
qed

lemma digit_bytes [simp]: "\<not> digit_char 0x20" "\<not> digit_char 0x2e" "\<not> digit_char CR" "\<not> digit_char LF"
  by (simp_all add: digit_char_def)

text \<open>The steps on digits, with the tests of the code as character classes and without the reductions.\<close>

lemma sl_digit_steps:
  "sl_first_major_step ch r = (if digit_char ch \<and> ch \<noteq> 0x30 then Next sl_major_digit (r\<lparr>st_major := digit_value ch\<rparr>) else Fail () r)"
  "sl_first_minor_step ch r = (if digit_char ch then Next sl_minor_digit (r\<lparr>st_minor := digit_value ch\<rparr>) else Fail () r)"
  using digit_pos [of ch] digit_tests [of ch] by (auto simp: sl_first_major_step_def sl_first_minor_step_def digit_value_def)

lemma sl_version_steps:
  "sl_major_step ch r = (if ch = 0x2e then Next sl_first_minor_digit r
     else if digit_char ch \<and> st_major r \<le> 99 then Next sl_major_digit (r\<lparr>st_major := st_major r * 10 + digit_value ch\<rparr>) else Fail () r)"
  "sl_minor_step ch r = (if ch = 0x20 then Next sl_status r
     else if digit_char ch \<and> st_minor r \<le> 99 then Next sl_minor_digit (r\<lparr>st_minor := st_minor r * 10 + digit_value ch\<rparr>) else Fail () r)"
proof -
  have m: "(n * 10 + digit_value ch) mod 2 ^ 16 = n * 10 + digit_value ch" if "digit_char ch" "n \<le> 99" for n
    using digit_value_le [OF that(1)] that(2) by simp
  show "sl_major_step ch r = (if ch = 0x2e then Next sl_first_minor_digit r
     else if digit_char ch \<and> st_major r \<le> 99 then Next sl_major_digit (r\<lparr>st_major := st_major r * 10 + digit_value ch\<rparr>) else Fail () r)"
    using m [of "st_major r"] digit_tests [of ch] by (auto simp: sl_major_step_def digit_value_def)
  show "sl_minor_step ch r = (if ch = 0x20 then Next sl_status r
     else if digit_char ch \<and> st_minor r \<le> 99 then Next sl_minor_digit (r\<lparr>st_minor := st_minor r * 10 + digit_value ch\<rparr>) else Fail () r)"
    using m [of "st_minor r"] digit_tests [of ch] by (auto simp: sl_minor_step_def digit_value_def)
qed

lemma code_value:
  assumes "code_bytes st" "length (filter digit_char st) < 3"
  shows "decimal (filter digit_char st) \<le> 99"
proof -
  have "decimal (filter digit_char st) < 10 ^ length (filter digit_char st)" by (rule decimal_less) (simp add: list_all_iff)
  also have "\<dots> \<le> 10 ^ 2" using assms(2) by (intro power_increasing) auto
  finally show ?thesis by simp
qed

lemma sl_status_read:
  assumes "code_bytes st" "length (filter digit_char st) < 3"
  shows "sl_status_step p ch (status_read M m st) =
    (if ch = 0x20 then Next sl_status (status_read M m (st @ [ch]))
     else if \<not> digit_char ch then Fail () (status_read M m st)
     else if length (filter digit_char st) = 2
       then Next sl_space_after_status ((status_read M m (st @ [ch]))\<lparr>st_start := Some (p - 2)\<rparr>)
     else Next sl_status (status_read M m (st @ [ch])))"
proof (cases "digit_char ch")
  case True
  have "(decimal (filter digit_char st) * 10 + digit_value ch) mod 2 ^ 64 = decimal (filter digit_char st) * 10 + digit_value ch"
    using code_value [OF assms] digit_value_le [OF True] by simp
  moreover have "(length (filter digit_char st) + 1) mod 2 ^ 64 = Suc (length (filter digit_char st))" using assms(2) by simp
  moreover have "ch \<noteq> 0x20" "\<not> (ch < 0x30 \<or> ch > 0x39)" using True digit_tests [of ch] by auto
  ultimately show ?thesis using True by (simp add: sl_status_step_def status_read_def Let_def flip: digit_value_def)
qed (use digit_tests [of ch] in \<open>auto simp: sl_status_step_def status_read_def\<close>)

section \<open>What the parser has read\<close>

text \<open>For every state, the bytes read so far and the record they gave.\<close>

fun sl_seen :: "u_char list \<Rightarrow> sl_state \<Rightarrow> ngx_http_status \<Rightarrow> bool" where
  "sl_seen w sl_start r \<longleftrightarrow> w = [] \<and> r = status_init"
| "sl_seen w sl_H r \<longleftrightarrow> w = bytes ''H'' \<and> r = status_init"
| "sl_seen w sl_HT r \<longleftrightarrow> w = bytes ''HT'' \<and> r = status_init"
| "sl_seen w sl_HTT r \<longleftrightarrow> w = bytes ''HTT'' \<and> r = status_init"
| "sl_seen w sl_HTTP r \<longleftrightarrow> w = bytes ''HTTP'' \<and> r = status_init"
| "sl_seen w sl_first_major_digit r \<longleftrightarrow> w = bytes ''HTTP/'' \<and> r = status_init"
| "sl_seen w sl_major_digit r \<longleftrightarrow>
     (\<exists>M. w = bytes ''HTTP/'' @ M \<and> version_number M \<and> hd M \<noteq> 0x30 \<and> r = status_init\<lparr>st_major := decimal M\<rparr>)"
| "sl_seen w sl_first_minor_digit r \<longleftrightarrow>
     (\<exists>M. w = bytes ''HTTP/'' @ M @ [0x2e] \<and> version_number M \<and> hd M \<noteq> 0x30 \<and> r = status_init\<lparr>st_major := decimal M\<rparr>)"
| "sl_seen w sl_minor_digit r \<longleftrightarrow>
     (\<exists>M m. w = bytes ''HTTP/'' @ M @ [0x2e] @ m \<and> prefix_ok M m \<and> r = status_init\<lparr>st_major := decimal M, st_minor := decimal m\<rparr>)"
| "sl_seen w sl_status r \<longleftrightarrow>
     (\<exists>M m st. w = status_prefix M m st \<and> prefix_ok M m \<and> code_bytes st \<and> length (filter digit_char st) < 3 \<and> r = status_read M m st)"
| "sl_seen w sl_space_after_status r \<longleftrightarrow>
     (\<exists>M m st. w = status_prefix M m st \<and> prefix_ok M m \<and> code_complete st \<and> r = status_coded M m st)"
| "sl_seen w sl_status_text r \<longleftrightarrow>
     (\<exists>M m st rs. w = status_prefix M m st @ rs \<and> prefix_ok M m \<and> code_complete st \<and> reason_text rs \<and> rs \<noteq> [] \<and>
        r = status_coded M m st)"
| "sl_seen w sl_almost_done r \<longleftrightarrow>
     (\<exists>M m st rs. w = status_prefix M m st @ rs @ [CR] \<and> prefix_ok M m \<and> code_complete st \<and> reason_text rs \<and>
        r = status_coded M m st)"

definition sl_inv :: "u_char list \<Rightarrow> nat \<Rightarrow> sl_state \<Rightarrow> ngx_http_status \<Rightarrow> bool" where
  "sl_inv buf p s r \<longleftrightarrow> sl_seen (take p buf) s r"

definition sl_fin :: "u_char list \<Rightarrow> nat \<Rightarrow> ngx_http_status \<Rightarrow> bool" where
  "sl_fin buf p r \<longleftrightarrow> (\<exists>M m st rs eol. take (Suc p) buf = status_line M m st rs eol \<and> status_line_ok M m st rs eol \<and>
     sl_done p r = status_of M m st rs)"

lemma version_number_snoc:
  "version_number M \<Longrightarrow> digit_char d \<Longrightarrow> decimal M \<le> 99 \<Longrightarrow> version_number (M @ [d])"
  using digit_value_le [of d] by (simp add: version_number_def)

lemma hd_version: "version_number M \<Longrightarrow> hd (M @ xs) = hd M"
  by (simp add: version_number_def)

lemma sl_seen_number:
  "version_number M \<Longrightarrow> hd M \<noteq> 0x30 \<Longrightarrow> r = status_init\<lparr>st_major := decimal M\<rparr> \<Longrightarrow> sl_seen (bytes ''HTTP/'' @ M) sl_major_digit r"
  "prefix_ok M m \<Longrightarrow> r = status_init\<lparr>st_major := decimal M, st_minor := decimal m\<rparr> \<Longrightarrow>
     sl_seen (bytes ''HTTP/'' @ M @ [0x2e] @ m) sl_minor_digit r"
  by auto

lemma sl_seen_code:
  "prefix_ok M m \<Longrightarrow> code_bytes st \<Longrightarrow> length (filter digit_char st) < 3 \<Longrightarrow>
     sl_seen (status_prefix M m st) sl_status (status_read M m st)"
  "prefix_ok M m \<Longrightarrow> code_complete st \<Longrightarrow> sl_seen (status_prefix M m st) sl_space_after_status (status_coded M m st)"
  by auto

lemma sl_seen_major:
  assumes "s = sl_first_major_digit \<or> s = sl_major_digit" "sl_seen w s r" "p < length buf" "buf ! p = ch" "sl_step buf p s r = Next s' r'"
  shows "sl_seen (w @ [ch]) s' r'"
proof (cases "s = sl_first_major_digit")
  case True
  have "digit_char ch" "ch \<noteq> 0x30" "s' = sl_major_digit" "r' = r\<lparr>st_major := digit_value ch\<rparr>"
    using assms(4,5) True by (auto simp: sl_step_def sl_digit_steps Let_def split: if_splits)
  moreover have "w = bytes ''HTTP/''" "r = status_init" using assms(2) True by simp_all
  moreover have "version_number [ch]" if "digit_char ch" using that digit_value_le [of ch] by (simp add: version_number_def)
  ultimately show ?thesis using sl_seen_number(1) [of "[ch]" r'] by simp
next
  case False
  then have s: "s = sl_major_digit" using assms(1) by simp
  obtain M where M: "w = bytes ''HTTP/'' @ M" "version_number M" "hd M \<noteq> 0x30" "r = status_init\<lparr>st_major := decimal M\<rparr>"
    using assms(2) by (auto simp: s)
  consider "ch = 0x2e" "s' = sl_first_minor_digit" "r' = r"
    | "digit_char ch" "decimal M \<le> 99" "s' = sl_major_digit" "r' = status_init\<lparr>st_major := decimal M * 10 + digit_value ch\<rparr>"
    using assms(4,5) M(4) by (auto simp: s sl_step_def sl_version_steps Let_def split: if_splits)
  then show ?thesis
  proof cases
    case 2
    then show ?thesis using sl_seen_number(1) [of "M @ [ch]" r'] M version_number_snoc [OF M(2) 2(1,2)] hd_version [OF M(2), of "[ch]"] by simp
  qed (use M in auto)
qed

lemma sl_seen_minor:
  assumes "s = sl_first_minor_digit \<or> s = sl_minor_digit" "sl_seen w s r" "p < length buf" "buf ! p = ch" "sl_step buf p s r = Next s' r'"
  shows "sl_seen (w @ [ch]) s' r'"
proof (cases "s = sl_first_minor_digit")
  case True
  have "digit_char ch" "s' = sl_minor_digit" "r' = r\<lparr>st_minor := digit_value ch\<rparr>"
    using assms(4,5) True by (auto simp: sl_step_def sl_digit_steps Let_def split: if_splits)
  moreover obtain M where "w = bytes ''HTTP/'' @ M @ [0x2e]" "version_number M" "hd M \<noteq> 0x30" "r = status_init\<lparr>st_major := decimal M\<rparr>"
    using assms(2) True by auto
  moreover have "version_number [ch]" if "digit_char ch" using that digit_value_le [of ch] by (simp add: version_number_def)
  ultimately show ?thesis using sl_seen_number(2) [of M "[ch]" r'] by (simp add: prefix_ok_def)
next
  case False
  then have s: "s = sl_minor_digit" using assms(1) by simp
  obtain M m where M: "w = bytes ''HTTP/'' @ M @ [0x2e] @ m" "prefix_ok M m"
      "r = status_init\<lparr>st_major := decimal M, st_minor := decimal m\<rparr>" using assms(2) by (auto simp: s)
  then have m: "version_number m" by (simp add: prefix_ok_def)
  consider "ch = 0x20" "s' = sl_status" "r' = r"
    | "digit_char ch" "decimal m \<le> 99" "s' = sl_minor_digit" "r' = status_init\<lparr>st_major := decimal M, st_minor := decimal m * 10 + digit_value ch\<rparr>"
    using assms(4,5) M(3) by (auto simp: s sl_step_def sl_version_steps Let_def split: if_splits)
  then show ?thesis
  proof cases
    case 1
    then show ?thesis using sl_seen_code(1) [OF M(2), of "[]"] M by (simp add: status_prefix_def status_read_def status_init_def code_bytes_def)
  next
    case 2
    then show ?thesis using sl_seen_number(2) [of M "m @ [ch]" r'] M version_number_snoc [OF m 2(1,2)] by (simp add: prefix_ok_def)
  qed
qed

lemma sl_seen_status:
  assumes "sl_seen w sl_status r" "p = length w" "buf ! p = ch" "sl_step buf p sl_status r = Next s' r'"
  shows "sl_seen (w @ [ch]) s' r'"
proof -
  obtain M m st where M: "w = status_prefix M m st" "prefix_ok M m" "code_bytes st" "length (filter digit_char st) < 3"
      "r = status_read M m st" using assms(1) by auto
  have t: "w @ [ch] = status_prefix M m (st @ [ch])" using M(1) by (simp add: status_prefix_def)
  have st: "p - 2 = length (status_prefix M m (st @ [ch])) - 3" using assms(2) M(1) by (simp add: status_prefix_def)
  have eq: "sl_step buf p sl_status r = sl_status_step p ch (status_read M m st)" by (simp add: sl_step_def M(5) assms(3))
  consider "ch = 0x20" "s' = sl_status" "r' = status_read M m (st @ [ch])"
    | "digit_char ch" "length (filter digit_char st) = 2" "s' = sl_space_after_status" "r' = status_coded M m (st @ [ch])"
    | "digit_char ch" "length (filter digit_char st) < 2" "s' = sl_status" "r' = status_read M m (st @ [ch])"
    using assms(4) M(4) st unfolding eq sl_status_read [OF M(3,4)] status_coded_def by (auto split: if_splits)
  then show ?thesis unfolding t
    using M(3,4) sl_seen_code [OF M(2), of "st @ [ch]"] by cases (simp_all add: code_bytes_def code_complete_def)
qed

lemma sl_seen_text:
  assumes "s = sl_space_after_status \<or> s = sl_status_text" "sl_seen w s r" "buf ! p = ch" "sl_step buf p s r = Next s' r'"
  shows "sl_seen (w @ [ch]) s' r'"
proof -
  obtain M m st rs where M: "w = status_prefix M m st @ rs" "prefix_ok M m" "code_complete st" "reason_text rs"
      "r = status_coded M m st" "s = sl_space_after_status \<longleftrightarrow> rs = []"
  proof (cases "s = sl_space_after_status")
    case True
    then show ?thesis using assms(2) that [of _ _ _ "[]"] by (auto simp: reason_text_def)
  next
    case False
    then show ?thesis using assms(1,2) that by auto
  qed
  have "(reason_text (rs @ [ch]) \<and> s' = sl_status_text \<or> ch = CR \<and> s' = sl_almost_done) \<and> r' = r"
    using assms(1,3,4) M(4,6) by (cases rs) (auto simp: sl_step_def sl_space_after_status_step_def sl_status_text_step_def reason_text_def
      text_byte_def Let_def split: if_splits)
  then show ?thesis using M by fastforce
qed

lemma sl_step_inv:
  assumes "sl_inv buf p s r" "p < length buf" "sl_step buf p s r = Next s' r'"
  shows "sl_inv buf (Suc p) s' r'"
proof -
  have t: "take (Suc p) buf = take p buf @ [buf ! p]" using take_Suc_conv_app_nth [OF assms(2)] .
  have len: "p = length (take p buf)" using assms(2) by simp
  note seen = assms(1) [unfolded sl_inv_def]
  note facts = sl_seen_major [OF _ seen assms(2) refl assms(3)] sl_seen_minor [OF _ seen assms(2) refl assms(3)]
    sl_seen_status [OF _ len refl] sl_seen_text [OF _ seen refl assms(3)]
  show ?thesis
    using facts seen assms(3) unfolding sl_inv_def t
    by (cases s) (auto simp: sl_step_def sl_expect_def sl_almost_done_step_def Let_def bytes_Cons split: if_splits)
qed

lemma status_done:
  assumes "length (status_prefix M m st @ rs) = e" "code_complete st"
  shows "sl_done e (status_coded M m st) = status_of M m st rs"
    "sl_done (Suc e) ((status_coded M m st)\<lparr>st_end := Some e\<rparr>) = status_of M m st rs"
  using assms by (auto simp: sl_done_def status_coded_def status_read_def status_of_def status_init_def code_complete_def Let_def)

lemma sl_step_fin:
  assumes "sl_inv buf p s r" "p < length buf" "sl_step buf p s r = Done r'"
  shows "sl_fin buf p r'"
proof -
  have t: "take (Suc p) buf = take p buf @ [buf ! p]" using take_Suc_conv_app_nth [OF assms(2)] .
  have len: "length (take p buf) = p" using assms(2) by simp
  note seen = assms(1) [unfolded sl_inv_def]
  have lf: "buf ! p = LF" and s: "s = sl_space_after_status \<or> s = sl_status_text \<or> s = sl_almost_done"
    using assms(3) by (cases s; auto simp: sl_step_def sl_step_defs Let_def split: if_splits)+
  show ?thesis
  proof (cases "s = sl_almost_done")
    case True
    obtain M m st rs where M: "take p buf = status_prefix M m st @ rs @ [CR]" "prefix_ok M m" "code_complete st" "reason_text rs"
        "r = status_coded M m st" using seen by (auto simp: True)
    have r': "r' = r\<lparr>st_end := Some (p - 1)\<rparr>" using assms(3) by (auto simp: True sl_step_def sl_almost_done_step_def Let_def split: if_splits)
    have p: "p = Suc (length (status_prefix M m st @ rs))" using len unfolding M(1) by simp
    have "sl_done p r' = status_of M m st rs" using status_done(2) [OF refl M(3), of M m rs] unfolding r' M(5) p by simp
    moreover have "take (Suc p) buf = status_line M m st rs [CR, LF]" using t M(1) lf by (simp add: status_line_def)
    ultimately show ?thesis using M(2-4) unfolding sl_fin_def status_line_ok_def by blast
  next
    case False
    obtain M m st rs where M: "take p buf = status_prefix M m st @ rs" "prefix_ok M m" "code_complete st" "reason_text rs"
        "r = status_coded M m st"
    proof (cases "s = sl_space_after_status")
      case True
      then show ?thesis using seen that [of _ _ _ "[]"] by (auto simp: reason_text_def)
    next
      case 2: False
      then show ?thesis using s False seen that by auto
    qed
    have r': "r' = r" using assms(3) s False by (auto simp: sl_step_def sl_step_defs Let_def split: if_splits)
    have p: "p = length (status_prefix M m st @ rs)" using len unfolding M(1) by simp
    have "sl_done p r' = status_of M m st rs" using status_done(1) [OF refl M(3), of M m rs] unfolding r' M(5) p by simp
    moreover have "take (Suc p) buf = status_line M m st rs [LF]" using t M(1) lf by (simp add: status_line_def)
    ultimately show ?thesis using M(2-4) unfolding sl_fin_def status_line_ok_def by blast
  qed
qed

interpretation slg: guarded_parser sl_step sl_inv sl_fin
  by unfold_locales (use sl_step_inv sl_step_fin in blast)+

lemma status_line_accepted:
  assumes "ngx_http_parse_status_line buf 0 sl_start status_init = (NGX_OK, q, s, r)"
  shows "\<exists>M m st rs eol rest. buf = status_line M m st rs eol @ rest \<and> status_line_ok M m st rs eol \<and>
    q = length (status_line M m st rs eol) \<and> s = sl_start \<and> r = status_of M m st rs"
proof -
  obtain p r' where run: "run_parser sl_step buf 0 sl_start status_init = Finished p r'"
      and r: "r = sl_done p r'" "q = Suc p" "s = sl_start"
    using assms by (auto simp: ngx_http_parse_status_line_def split: presult.splits)
  have "sl_inv buf 0 sl_start status_init" by (simp add: sl_inv_def)
  from slg.run_inv [OF this] have p: "p < length buf" and fin: "sl_fin buf p r'" by (simp_all add: run)
  then obtain M m st rs eol where M: "take (Suc p) buf = status_line M m st rs eol" "status_line_ok M m st rs eol"
      "sl_done p r' = status_of M m st rs" unfolding sl_fin_def by blast
  have "length (take (Suc p) buf) = Suc p" using p by simp
  then show ?thesis using M r append_take_drop_id [of "Suc p" buf] by metis
qed

section \<open>Every such line is accepted\<close>

lemma status_same: "st_major r = x \<Longrightarrow> r\<lparr>st_major := x\<rparr> = r" "st_minor r = x \<Longrightarrow> r\<lparr>st_minor := x\<rparr> = r"
  by (cases r; simp)+

lemma run_major:
  "list_all digit_char ds \<Longrightarrow> decimal (M @ ds) \<le> 999 \<Longrightarrow> st_major r = decimal M \<Longrightarrow>
     run_parser sl_step (pre @ ds @ post) (length pre) sl_major_digit r =
     run_parser sl_step (pre @ ds @ post) (length (pre @ ds)) sl_major_digit (r\<lparr>st_major := decimal (M @ ds)\<rparr>)"
proof (induction ds arbitrary: pre M r)
  case (Cons d ds)
  let ?buf = "pre @ (d # ds) @ post"
  have "decimal (M @ [d]) \<le> 999" using Cons.prems(2) decimal_mono [of "M @ [d]" ds] by simp
  then have "st_major r \<le> 99" "digit_char d" "d \<noteq> 0x2e" using Cons.prems(1,3) by auto
  then have "sl_step ?buf (length pre) sl_major_digit r = Next sl_major_digit (r\<lparr>st_major := decimal (M @ [d])\<rparr>)"
    using Cons.prems(3) by (simp add: sl_step_def sl_version_steps nth_append)
  then have "run_parser sl_step ?buf (length pre) sl_major_digit r =
      run_parser sl_step ?buf (length (pre @ [d])) sl_major_digit (r\<lparr>st_major := decimal (M @ [d])\<rparr>)"
    by (simp add: run_parser_next)
  then show ?case using Cons.IH [of "M @ [d]" "r\<lparr>st_major := decimal (M @ [d])\<rparr>" "pre @ [d]"] Cons.prems by simp
qed (simp add: status_same)

lemma run_minor:
  "list_all digit_char ds \<Longrightarrow> decimal (m @ ds) \<le> 999 \<Longrightarrow> st_minor r = decimal m \<Longrightarrow>
     run_parser sl_step (pre @ ds @ post) (length pre) sl_minor_digit r =
     run_parser sl_step (pre @ ds @ post) (length (pre @ ds)) sl_minor_digit (r\<lparr>st_minor := decimal (m @ ds)\<rparr>)"
proof (induction ds arbitrary: pre m r)
  case (Cons d ds)
  let ?buf = "pre @ (d # ds) @ post"
  have "decimal (m @ [d]) \<le> 999" using Cons.prems(2) decimal_mono [of "m @ [d]" ds] by simp
  then have "st_minor r \<le> 99" "digit_char d" "d \<noteq> 0x20" using Cons.prems(1,3) by auto
  then have "sl_step ?buf (length pre) sl_minor_digit r = Next sl_minor_digit (r\<lparr>st_minor := decimal (m @ [d])\<rparr>)"
    using Cons.prems(3) by (simp add: sl_step_def sl_version_steps nth_append)
  then have "run_parser sl_step ?buf (length pre) sl_minor_digit r =
      run_parser sl_step ?buf (length (pre @ [d])) sl_minor_digit (r\<lparr>st_minor := decimal (m @ [d])\<rparr>)"
    by (simp add: run_parser_next)
  then show ?case using Cons.IH [of "m @ [d]" "r\<lparr>st_minor := decimal (m @ [d])\<rparr>" "pre @ [d]"] Cons.prems by simp
qed (simp add: status_same)

text \<open>The version, from the first byte to the space after it.\<close>

lemma run_version:
  assumes "prefix_ok M m" and buf: "buf = status_prefix M m [] @ post"
  shows "run_parser sl_step buf 0 sl_start status_init =
    run_parser sl_step buf (length (status_prefix M m [])) sl_status (status_read M m [])"
proof -
  obtain d M' e m' where M: "M = d # M'" "m = e # m'" using assms(1) by (auto simp: prefix_ok_def version_number_def neq_Nil_conv)
  have ds: "digit_char d" "d \<noteq> 0x30" "digit_char e" "list_all digit_char M'" "list_all digit_char m'" "decimal ([d] @ M') \<le> 999" "decimal ([e] @ m') \<le> 999"
    using assms(1) by (simp_all add: M prefix_ok_def version_number_def)
  let ?r1 = "status_init\<lparr>st_major := decimal [d]\<rparr>" and ?r2 = "status_init\<lparr>st_major := decimal M\<rparr>"
  let ?r3 = "?r2\<lparr>st_minor := decimal [e]\<rparr>" and ?r4 = "?r2\<lparr>st_minor := decimal m\<rparr>"
  let ?p1 = "bytes ''HTTP/'' @ [d]" and ?p3 = "bytes ''HTTP/'' @ M @ [0x2e, e]"
  have b1: "buf = ?p1 @ M' @ [0x2e, e] @ m' @ [0x20] @ post" and b3: "buf = ?p3 @ m' @ [0x20] @ post"
    by (simp_all add: buf status_prefix_def M)
  have "buf ! 0 = 0x48" "buf ! Suc 0 = 0x54" "buf ! Suc (Suc 0) = 0x54" "buf ! Suc (Suc (Suc 0)) = 0x50"
      "buf ! Suc (Suc (Suc (Suc 0))) = 0x2f" "buf ! Suc (Suc (Suc (Suc (Suc 0)))) = d" "Suc (Suc (Suc (Suc (Suc 0)))) < length buf" "buf \<noteq> []"
    by (simp_all add: b1 bytes_Cons)
  then have "run_parser sl_step buf 0 sl_start status_init = run_parser sl_step buf (length ?p1) sl_major_digit ?r1"
    using ds(1,2) by (simp add: run_parser_next sl_step_def sl_expect_def sl_digit_steps bytes_Cons)
  also have "\<dots> = run_parser sl_step buf (length (?p1 @ M')) sl_major_digit ?r2"
    using run_major [OF ds(4,6), of ?r1 ?p1 "[0x2e, e] @ m' @ [0x20] @ post"] unfolding b1 [symmetric] by (simp add: M)
  also have "\<dots> = run_parser sl_step buf (length ?p3) sl_minor_digit ?r3"
  proof -
    have "buf ! length (?p1 @ M') = 0x2e" "buf ! Suc (length (?p1 @ M')) = e" "Suc (length (?p1 @ M')) < length buf"
      by (simp_all add: b1 nth_append)
    then show ?thesis using ds(3) by (simp add: run_parser_next sl_step_def sl_version_steps sl_digit_steps M)
  qed
  also have "\<dots> = run_parser sl_step buf (length (?p3 @ m')) sl_minor_digit ?r4"
    using run_minor [OF ds(5,7), of ?r3 ?p3 "[0x20] @ post"] unfolding b3 [symmetric] by (simp add: M)
  also have "\<dots> = run_parser sl_step buf (length (status_prefix M m [])) sl_status ?r4"
  proof -
    have "buf ! length (?p3 @ m') = 0x20" "length (?p3 @ m') < length buf" by (simp_all add: b3 nth_append)
    then show ?thesis by (simp add: run_parser_next sl_step_def sl_version_steps status_prefix_def M)
  qed
  also have "?r4 = status_read M m []" by (simp add: status_read_def status_init_def)
  finally show ?thesis .
qed

lemma run_code:
  "code_bytes (st @ ds) \<Longrightarrow> length (filter digit_char (st @ ds)) < 3 \<Longrightarrow> buf = status_prefix M m (st @ ds) @ post \<Longrightarrow>
     run_parser sl_step buf (length (status_prefix M m st)) sl_status (status_read M m st) =
     run_parser sl_step buf (length (status_prefix M m (st @ ds))) sl_status (status_read M m (st @ ds))"
proof (induction ds arbitrary: st)
  case (Cons d ds)
  have st: "code_bytes st" "length (filter digit_char st) < 3" "digit_char d \<or> d = 0x20" using Cons.prems by (auto simp: code_bytes_def)
  let ?p = "length (status_prefix M m st)"
  have at: "buf ! ?p = d" "?p < length buf" using Cons.prems(3) by (simp_all add: status_prefix_def nth_append)
  have "digit_char d \<Longrightarrow> length (filter digit_char st) \<noteq> 2" using Cons.prems(2) by auto
  then have "sl_step buf ?p sl_status (status_read M m st) = Next sl_status (status_read M m (st @ [d]))"
    using st(3) at(1) by (auto simp: sl_step_def sl_status_read [OF st(1,2)])
  then have "run_parser sl_step buf ?p sl_status (status_read M m st) =
      run_parser sl_step buf (length (status_prefix M m (st @ [d]))) sl_status (status_read M m (st @ [d]))"
    using run_parser_next [OF at(2)] by (simp add: status_prefix_def)
  then show ?case using Cons.IH [of "st @ [d]"] Cons.prems by simp
qed simp

lemma run_reason:
  assumes "reason_text rs" "rs \<noteq> []" and buf: "buf = pre @ rs @ post"
  shows "run_parser sl_step buf (length pre) sl_space_after_status r = run_parser sl_step buf (length (pre @ rs)) sl_status_text r"
proof -
  obtain c cs where rs: "rs = c # cs" "c = 0x20 \<or> c = 0x2e" "list_all text_byte cs" using assms(1,2) by (cases rs) (auto simp: reason_text_def)
  have at: "buf ! length pre = c" "\<And>j. j < length cs \<Longrightarrow> buf ! (Suc (length pre) + j) = cs ! j" by (simp_all add: buf rs nth_append)
  have "run_parser sl_step buf (length pre) sl_space_after_status r = run_parser sl_step buf (Suc (length pre)) sl_status_text r"
    using rs(2) at(1) by (auto simp: run_parser_next sl_step_def sl_space_after_status_step_def buf rs(1))
  moreover have "\<exists>s' r'. run_parser sl_step buf (Suc (length pre)) sl_status_text r =
      run_parser sl_step buf (Suc (length pre) + length cs) s' r' \<and> (s' = sl_status_text \<and> r' = r)"
  proof (rule run_parser_while)
    fix i s r' assume i: "Suc (length pre) \<le> i" "i < Suc (length pre) + length cs" and sr: "s = sl_status_text \<and> r' = r"
    then obtain j where "i = Suc (length pre) + j" "j < length cs" by (metis le_Suc_ex nat_add_left_cancel_less)
    then have "text_byte (buf ! i)" using at(2) [of j] rs(3) by (simp add: list_all_length)
    then show "\<exists>s'' r''. sl_step buf i s r' = Next s'' r'' \<and> s'' = sl_status_text \<and> r'' = r"
      using sr by (simp add: sl_step_def sl_status_text_step_def text_byte_def Let_def)
  qed (simp_all add: buf rs(1))
  ultimately show ?thesis by (auto simp: rs(1))
qed

lemma run_line_end:
  assumes "s = sl_space_after_status \<or> s = sl_status_text" "eol = [LF] \<or> eol = [CR, LF]" and buf: "buf = pre @ eol @ post"
  shows "run_parser sl_step buf (length pre) s r = (if eol = [LF] then Finished (length pre) r
    else Finished (Suc (length pre)) (r\<lparr>st_end := Some (length pre)\<rparr>))"
  using assms by (auto simp: run_parser.simps [of sl_step] sl_step_def sl_space_after_status_step_def sl_status_text_step_def
      sl_almost_done_step_def Let_def nth_append)

lemma status_line_parses:
  assumes "status_line_ok M m st rs eol"
  shows "ngx_http_parse_status_line (status_line M m st rs eol @ rest) 0 sl_start status_init =
    (NGX_OK, length (status_line M m st rs eol), sl_start, status_of M m st rs)"
proof -
  define buf where "buf = status_line M m st rs eol @ rest"
  have ok: "prefix_ok M m" "code_complete st" "reason_text rs" "eol = [LF] \<or> eol = [CR, LF]" using assms by (simp_all add: status_line_ok_def)
  then obtain ds c where st: "st = ds @ [c]" by (cases st rule: rev_cases) (auto simp: code_complete_def)
  have c: "digit_char c" "code_bytes ds" "length (filter digit_char ds) = 2" using ok(2) by (auto simp: st code_complete_def code_bytes_def)
  have buf1: "buf = status_prefix M m [] @ st @ rs @ eol @ rest" "buf = status_prefix M m ds @ [c] @ rs @ eol @ rest"
      "buf = status_prefix M m st @ rs @ eol @ rest" by (simp_all add: buf_def status_line_def status_prefix_def st)
  have "run_parser sl_step buf 0 sl_start status_init = run_parser sl_step buf (length (status_prefix M m [])) sl_status (status_read M m [])"
    by (rule run_version [OF ok(1) buf1(1)])
  also have "\<dots> = run_parser sl_step buf (length (status_prefix M m ds)) sl_status (status_read M m ds)"
    using run_code [of "[]" ds buf M m] c buf1(2) by simp
  also have "\<dots> = run_parser sl_step buf (length (status_prefix M m st)) sl_space_after_status (status_coded M m st)"
  proof -
    have "buf ! length (status_prefix M m ds) = c" "length (status_prefix M m ds) < length buf" by (simp_all add: buf1(2) nth_append)
    moreover have "c \<noteq> 0x20" using c(1) by auto
    ultimately show ?thesis using c
      by (simp add: run_parser_next sl_step_def sl_status_read st status_coded_def status_prefix_def)
  qed
  also have "\<exists>s. \<dots> = run_parser sl_step buf (length (status_prefix M m st @ rs)) s (status_coded M m st) \<and>
      (s = sl_space_after_status \<or> s = sl_status_text)"
    using run_reason [OF ok(3) _ buf1(3)] by (cases "rs = []") auto
  finally obtain s where run: "run_parser sl_step buf 0 sl_start status_init =
      run_parser sl_step buf (length (status_prefix M m st @ rs)) s (status_coded M m st)" "s = sl_space_after_status \<or> s = sl_status_text" by blast
  show ?thesis
    using run(1) run_line_end [OF run(2) ok(4), of buf "status_prefix M m st @ rs" rest "status_coded M m st"] buf1(3) ok(4)
      status_done [OF refl ok(2), of M m rs]
    unfolding buf_def [symmetric] by (auto simp: ngx_http_parse_status_line_def status_line_def)
qed

text \<open>
  C26: a status line is accepted exactly when the buffer starts with one of the form: \<^verbatim>\<open>HTTP/\<close>, a major
  number that does not start with 0, a dot and a minor number, both at most 999; a space; three digits among
  any spaces; a line end at once, or text without line breaks that starts with a space or a dot and then the
  line end (LF, with or without CR). The record then has exactly the version and the code these digits denote,
  and the start and the end of the status text, and the parser stops right after the line.
\<close>

theorem status_line_correct:
  "ngx_http_parse_status_line buf 0 sl_start status_init = (NGX_OK, q, s, r) \<longleftrightarrow>
   (\<exists>M m st rs eol rest. buf = status_line M m st rs eol @ rest \<and> status_line_ok M m st rs eol \<and>
      q = length (status_line M m st rs eol) \<and> s = sl_start \<and> r = status_of M m st rs)"
  by (rule iffI, rule status_line_accepted) (use status_line_parses in auto)

theorem status_line_correct_witness:
  "ngx_http_parse_status_line (bytes ''HTTP/10.12 404 Not Found'' @ [CR, LF, 0x41]) 0 sl_start status_init =
     (NGX_OK, 26, sl_start, \<lparr>st_major = 10, st_minor = 12, st_version = 10012, st_code = 404, st_count = 3,
        st_start = Some 11, st_end = Some 24\<rparr>)"
proof -
  let ?M = "bytes ''10''" and ?m = "bytes ''12''" and ?st = "bytes ''404''" and ?rs = "bytes '' Not Found''"
  have "status_line_ok ?M ?m ?st ?rs [CR, LF]" "bytes ''HTTP/10.12 404 Not Found'' @ [CR, LF, 0x41] = status_line ?M ?m ?st ?rs [CR, LF] @ [0x41]"
    "length (status_line ?M ?m ?st ?rs [CR, LF]) = 26" by code_simp+
  moreover have "status_of ?M ?m ?st ?rs = \<lparr>st_major = 10, st_minor = 12, st_version = 10012, st_code = 404, st_count = 3,
        st_start = Some 11, st_end = Some 24\<rparr>" by code_simp
  ultimately show ?thesis using status_line_correct by metis
qed

end
