(* ===== verification/Ngx_Complex_Uri.thy ===== *)
theory Ngx_Complex_Uri
  imports Ngx_Request_Line
begin

text \<open>
  Normalisation of the path: \<^verbatim>\<open>ngx_http_parse_complex_uri\<close> (src/nginx/src/http/ngx_http_parse.c), which
  decodes quoted characters, merges slashes and resolves the segments \<^verbatim>\<open>.\<close> and \<^verbatim>\<open>..\<close> of a URI.

  The output buffer is the list \<open>cu_out\<close> of the bytes before \<^verbatim>\<open>u\<close>. The input is the list of the bytes
  of the URI; the loop works on the current character \<open>ch\<close>, the position \<open>p\<close> of the next byte and the
  bytes from there. After a quoted character the code goes round the loop with the decoded
  character in place of the current one, without reading.

  The security property is that no segment of the result is \<^verbatim>\<open>.\<close> or \<^verbatim>\<open>..\<close>; the functional one is that
  the result is the normal form a list of segments has by a recursive specification.
\<close>

section \<open>The parser\<close>

datatype cu_state = cu_usual | cu_slash | cu_dot | cu_dot_dot | cu_quoted | cu_quoted_second

record cu_request =
  cu_out :: "u_char list"
  cu_uri_ext :: "nat option"
  cu_args_start :: "nat option"
  cu_plus_in_uri :: bool
  cu_quoted_uri :: bool

text \<open>What one round of the loop does: go on with the next byte in a state, go on with another
  current character, leave to \<^verbatim>\<open>args\<close> or to \<^verbatim>\<open>done\<close>, or return an error.\<close>

datatype cu_next =
    CU_next cu_state cu_state u_char cu_request
  | CU_again cu_state u_char cu_request
  | CU_args cu_request
  | CU_done cu_request
  | CU_invalid

definition cu_put :: "u_char \<Rightarrow> cu_request \<Rightarrow> cu_request" where
  "cu_put ch r = r\<lparr>cu_out := cu_out r @ [ch]\<rparr>"

definition cu_drop :: "cu_request \<Rightarrow> cu_request" where
  "cu_drop r = r\<lparr>cu_out := butlast (cu_out r)\<rparr>"

text \<open>The search backwards for a slash, from position \<open>i\<close>.\<close>

fun cu_find :: "u_char list \<Rightarrow> nat \<Rightarrow> u_char list option" where
  "cu_find out i =
     (if out ! i = 0x2f then Some (take (i + 1) out)
      else case i of 0 \<Rightarrow> None | Suc j \<Rightarrow> cu_find out j)"

definition cu_up :: "cu_request \<Rightarrow> cu_request option" where
  "cu_up r =
     (if length (cu_out r) < 4 then None
      else map_option (\<lambda>out. r\<lparr>cu_out := out\<rparr>) (cu_find (cu_out r) (length (cu_out r) - 4)))"

definition cu_usual_step :: "nat \<Rightarrow> cu_state \<Rightarrow> u_char \<Rightarrow> u_char \<Rightarrow> cu_request \<Rightarrow> cu_next" where
  "cu_usual_step p q decoded ch r =
     (if is_usual ch then CU_next cu_usual q decoded (cu_put ch r)
      else if ch = 0x2f then CU_next cu_slash q decoded (cu_put ch (r\<lparr>cu_uri_ext := None\<rparr>))
      else if ch = 0x25 then CU_next cu_quoted cu_usual decoded r
      else if ch = 0x3f then CU_args (r\<lparr>cu_args_start := Some p\<rparr>)
      else if ch = 0x23 then CU_done r
      else if ch = 0x2e then
        CU_next cu_usual q decoded (cu_put ch (r\<lparr>cu_uri_ext := Some (length (cu_out r) + 1)\<rparr>))
      else if ch = 0x2b then CU_next cu_usual q decoded (cu_put ch (r\<lparr>cu_plus_in_uri := True\<rparr>))
      else CU_next cu_usual q decoded (cu_put ch r))"

definition cu_slash_step :: "bool \<Rightarrow> nat \<Rightarrow> cu_state \<Rightarrow> u_char \<Rightarrow> u_char \<Rightarrow> cu_request \<Rightarrow> cu_next" where
  "cu_slash_step merge_slashes p q decoded ch r =
     (if is_usual ch then CU_next cu_usual q decoded (cu_put ch r)
      else if ch = 0x2f then
        CU_next cu_slash q decoded (if \<not> merge_slashes then cu_put ch r else r)
      else if ch = 0x2e then CU_next cu_dot q decoded (cu_put ch r)
      else if ch = 0x25 then CU_next cu_quoted cu_slash decoded r
      else if ch = 0x3f then CU_args (r\<lparr>cu_args_start := Some p\<rparr>)
      else if ch = 0x23 then CU_done r
      else if ch = 0x2b then CU_next cu_usual q decoded (cu_put ch (r\<lparr>cu_plus_in_uri := True\<rparr>))
      else CU_next cu_usual q decoded (cu_put ch r))"

definition cu_dot_step :: "nat \<Rightarrow> cu_state \<Rightarrow> u_char \<Rightarrow> u_char \<Rightarrow> cu_request \<Rightarrow> cu_next" where
  "cu_dot_step p q decoded ch r =
     (if is_usual ch then CU_next cu_usual q decoded (cu_put ch r)
      else if ch = 0x2f then CU_next cu_slash q decoded (cu_drop r)
      else if ch = 0x2e then CU_next cu_dot_dot q decoded (cu_put ch r)
      else if ch = 0x25 then CU_next cu_quoted cu_dot decoded r
      else if ch = 0x3f then CU_args ((cu_drop r)\<lparr>cu_args_start := Some p\<rparr>)
      else if ch = 0x23 then CU_done (cu_drop r)
      else if ch = 0x2b then CU_next cu_usual q decoded (cu_put ch (r\<lparr>cu_plus_in_uri := True\<rparr>))
      else CU_next cu_usual q decoded (cu_put ch r))"

definition cu_dot_dot_step :: "nat \<Rightarrow> cu_state \<Rightarrow> u_char \<Rightarrow> u_char \<Rightarrow> cu_request \<Rightarrow> cu_next" where
  "cu_dot_dot_step p q decoded ch r =
     (if is_usual ch then CU_next cu_usual q decoded (cu_put ch r)
      else if ch = 0x2f \<or> ch = 0x3f \<or> ch = 0x23 then
        (case cu_up r of
           None \<Rightarrow> CU_invalid
         | Some r' \<Rightarrow>
             if ch = 0x3f then CU_args (r'\<lparr>cu_args_start := Some p\<rparr>)
             else if ch = 0x23 then CU_done r'
             else CU_next cu_slash q decoded r')
      else if ch = 0x25 then CU_next cu_quoted cu_dot_dot decoded r
      else if ch = 0x2b then CU_next cu_usual q decoded (cu_put ch (r\<lparr>cu_plus_in_uri := True\<rparr>))
      else CU_next cu_usual q decoded (cu_put ch r))"

definition cu_quoted_step :: "cu_state \<Rightarrow> u_char \<Rightarrow> cu_request \<Rightarrow> cu_next" where
  "cu_quoted_step q ch r =
     (let r = r\<lparr>cu_quoted_uri := True\<rparr>
      in if ch \<ge> 0x30 \<and> ch \<le> 0x39 then CU_next cu_quoted_second q (ch - 0x30) r
         else let c = ch OR 0x20
              in if c \<ge> 0x61 \<and> c \<le> 0x66 then CU_next cu_quoted_second q (c - 0x61 + 10) r
                 else CU_invalid)"

definition cu_quoted_second_step :: "cu_state \<Rightarrow> u_char \<Rightarrow> u_char \<Rightarrow> cu_request \<Rightarrow> cu_next" where
  "cu_quoted_second_step q decoded ch r =
     (if ch \<ge> 0x30 \<and> ch \<le> 0x39 then
        (let b = push_bit 4 decoded + (ch - 0x30)
         in if b = 0x25 \<or> b = 0x23 then CU_next cu_usual q decoded (cu_put b r)
            else if b = 0 then CU_invalid
            else CU_again q b r)
      else let c = ch OR 0x20
           in if c \<ge> 0x61 \<and> c \<le> 0x66 then
                (let b = push_bit 4 decoded + (c - 0x61) + 10
                 in if b = 0x3f then CU_next cu_usual q decoded (cu_put b r)
                    else CU_again q b (if b = 0x2b then r\<lparr>cu_plus_in_uri := True\<rparr> else r))
              else CU_invalid)"

definition cu_step :: "bool \<Rightarrow> nat \<Rightarrow> cu_state \<Rightarrow> cu_state \<Rightarrow> u_char \<Rightarrow> u_char \<Rightarrow> cu_request \<Rightarrow> cu_next" where
  "cu_step merge_slashes p s q decoded ch r =
     (case s of
        cu_usual \<Rightarrow> cu_usual_step p q decoded ch r
      | cu_slash \<Rightarrow> cu_slash_step merge_slashes p q decoded ch r
      | cu_dot \<Rightarrow> cu_dot_step p q decoded ch r
      | cu_dot_dot \<Rightarrow> cu_dot_dot_step p q decoded ch r
      | cu_quoted \<Rightarrow> cu_quoted_step q ch r
      | cu_quoted_second \<Rightarrow> cu_quoted_second_step q decoded ch r)"

text \<open>The end of the function. The extension is delimited by its start; the arguments are cut at a
  fragment: \<open>cu_args\<close> is their start and length, when the code has set it.\<close>

record cu_result =
  cr_uri :: "u_char list"
  cr_exten :: "u_char list option"
  cr_args_start :: "nat option"
  cr_args :: "(nat \<times> nat) option"
  cr_plus_in_uri :: bool
  cr_quoted_uri :: bool

definition cu_finish :: "cu_request \<Rightarrow> nat option \<Rightarrow> (nat \<times> nat) option \<Rightarrow> cu_result" where
  "cu_finish r astart args =
     \<lparr>cr_uri = cu_out r, cr_exten = map_option (\<lambda>e. drop e (cu_out r)) (cu_uri_ext r),
      cr_args_start = astart, cr_args = args, cr_plus_in_uri = cu_plus_in_uri r,
      cr_quoted_uri = cu_quoted_uri r\<rparr>"

fun cu_args_scan :: "nat \<Rightarrow> u_char list \<Rightarrow> nat option" where
  "cu_args_scan p [] = None"
| "cu_args_scan p (c # rest) = (if c \<noteq> 0x23 then cu_args_scan (p + 1) rest else Some p)"

definition cu_args_end :: "cu_request \<Rightarrow> nat \<Rightarrow> u_char list \<Rightarrow> cu_result" where
  "cu_args_end r p rest =
     (case cu_args_scan p rest of
        None \<Rightarrow> cu_finish r (cu_args_start r) None
      | Some q \<Rightarrow>
          (case cu_args_start r of None \<Rightarrow> cu_finish r None None
           | Some a \<Rightarrow> cu_finish r None (Some (a, q - a))))"

text \<open>After the loop: the URI ended inside a quoted character, or in a dot segment.\<close>

definition cu_end :: "cu_state \<Rightarrow> cu_request \<Rightarrow> cu_result option" where
  "cu_end s r =
     (case s of
        cu_quoted \<Rightarrow> None
      | cu_quoted_second \<Rightarrow> None
      | cu_dot \<Rightarrow> Some (cu_finish (cu_drop r) (cu_args_start r) None)
      | cu_dot_dot \<Rightarrow> map_option (\<lambda>r'. cu_finish r' (cu_args_start r') None) (cu_up r)
      | _ \<Rightarrow> Some (cu_finish r (cu_args_start r) None))"

text \<open>The loop, on the current character and the bytes from position \<open>p\<close> on.\<close>

function cu_loop ::
  "bool \<Rightarrow> nat \<Rightarrow> cu_state \<Rightarrow> cu_state \<Rightarrow> u_char \<Rightarrow> u_char \<Rightarrow> u_char list \<Rightarrow> cu_request \<Rightarrow> cu_result option" where
  "cu_loop merge_slashes p s q decoded ch rest r =
     (case cu_step merge_slashes p s q decoded ch r of
        CU_next s' q' d r' \<Rightarrow>
          (case rest of [] \<Rightarrow> cu_end s' r' | c # rest' \<Rightarrow> cu_loop merge_slashes (p + 1) s' q' d c rest' r')
      | CU_again s' c r' \<Rightarrow> (if s' = cu_quoted_second then None else cu_loop merge_slashes p s' q decoded c rest r')
      | CU_args r' \<Rightarrow> Some (cu_args_end r' p rest)
      | CU_done r' \<Rightarrow> Some (cu_finish r' (cu_args_start r') None)
      | CU_invalid \<Rightarrow> None)"
  by pat_completeness auto
termination
proof (relation "measure (\<lambda>(m, p, s, q, d, ch, rest, r). 2 * length rest + (if s = cu_quoted_second then 1 else 0))", goal_cases)
  case (3 m p s q d ch rest r s' c r')
  then have "s = cu_quoted_second"
    by (cases s) (auto simp: cu_step_def cu_usual_step_def cu_slash_step_def cu_dot_step_def cu_dot_dot_step_def
        cu_quoted_step_def Let_def split: if_splits option.splits)
  then show ?case using 3 by simp
qed auto

declare cu_loop.simps [simp del] cu_find.simps [simp del]

definition ngx_http_parse_complex_uri ::
  "bool \<Rightarrow> bool \<Rightarrow> bool \<Rightarrow> u_char list \<Rightarrow> cu_result option" where
  "ngx_http_parse_complex_uri merge_slashes empty_path plus_seen uri =
     (let r = \<lparr>cu_out = (if empty_path then [0x2f] else []), cu_uri_ext = None, cu_args_start = None,
               cu_plus_in_uri = plus_seen, cu_quoted_uri = False\<rparr>
      in case uri of
           [] \<Rightarrow> cu_end cu_usual r
         | ch # rest \<Rightarrow> cu_loop merge_slashes 1 cu_usual cu_usual 0 ch rest r)"

lemmas cu_step_defs = cu_step_def cu_usual_step_def cu_slash_step_def cu_dot_step_def cu_dot_dot_step_def
  cu_quoted_step_def cu_quoted_second_step_def

section \<open>Specification\<close>

text \<open>Percent decoding of a whole text; the zero byte is refused.\<close>

definition hex_val :: "u_char \<Rightarrow> u_char option" where
  "hex_val c =
     (if 0x30 \<le> c \<and> c \<le> 0x39 then Some (c - 0x30)
      else if 0x41 \<le> c \<and> c \<le> 0x46 then Some (c - 0x41 + 10)
      else if 0x61 \<le> c \<and> c \<le> 0x66 then Some (c - 0x61 + 10)
      else None)"

fun unquote :: "u_char list \<Rightarrow> u_char list option" where
  "unquote [] = Some []"
| "unquote (c # cs) =
     (if c = 0x25 then
        (case cs of
           a # b # rest \<Rightarrow>
             (case (hex_val a, hex_val b) of
                (Some x, Some y) \<Rightarrow>
                  if 16 * x + y = 0 then None else map_option ((#) (16 * x + y)) (unquote rest)
              | _ \<Rightarrow> None)
         | _ \<Rightarrow> None)
      else map_option ((#) c) (unquote cs))"

text \<open>The segments between slashes.\<close>

fun split_slash :: "u_char list \<Rightarrow> u_char list list" where
  "split_slash [] = [[]]"
| "split_slash (c # cs) =
     (if c = 0x2f then [] # split_slash cs
      else case split_slash cs of [] \<Rightarrow> [[c]] | s # ss \<Rightarrow> (c # s) # ss)"

text \<open>The normal form of a path given by its segments: a dot segment disappears, a segment of two dots
  removes the one before it and is an error at the root, an empty segment disappears when slashes
  are merged. The last segment stays open.\<close>

abbreviation (input) dot :: "u_char list" where "dot \<equiv> [0x2e]"

abbreviation (input) dot_dot :: "u_char list" where "dot_dot \<equiv> [0x2e, 0x2e]"

definition render :: "u_char list list \<Rightarrow> u_char list" where
  "render ss = concat (map (\<lambda>s. 0x2f # s) ss)"

fun normal :: "bool \<Rightarrow> u_char list list \<Rightarrow> u_char list list \<Rightarrow> u_char list list option" where
  "normal merge acc [] = Some acc"
| "normal merge acc [s] =
     (if s = dot then Some (acc @ [[]])
      else if s = dot_dot then (if acc = [] then None else Some (butlast acc @ [[]]))
      else Some (acc @ [s]))"
| "normal merge acc (s # t # ss) =
     (if s = dot \<or> s = [] \<and> merge then normal merge acc (t # ss)
      else if s = dot_dot then (if acc = [] then None else normal merge (butlast acc) (t # ss))
      else normal merge (acc @ [s]) (t # ss))"

section \<open>The automaton on decoded characters\<close>

fun cu_plain :: "bool \<Rightarrow> cu_state \<times> u_char list \<Rightarrow> u_char \<Rightarrow> (cu_state \<times> u_char list) option" where
  "cu_plain m (s, out) c =
     (if c = 0x2f then
        (case s of
           cu_slash \<Rightarrow> Some (cu_slash, if m then out else out @ [c])
         | cu_dot \<Rightarrow> Some (cu_slash, butlast out)
         | cu_dot_dot \<Rightarrow> (if length out < 4 then None else map_option (Pair cu_slash) (cu_find out (length out - 4)))
         | _ \<Rightarrow> Some (cu_slash, out @ [c]))
      else if c = 0x2e \<and> s = cu_slash then Some (cu_dot, out @ [c])
      else if c = 0x2e \<and> s = cu_dot then Some (cu_dot_dot, out @ [c])
      else Some (cu_usual, out @ [c]))"

fun cu_run :: "bool \<Rightarrow> cu_state \<times> u_char list \<Rightarrow> u_char list \<Rightarrow> (cu_state \<times> u_char list) option" where
  "cu_run m so [] = Some so"
| "cu_run m so (c # cs) = Option.bind (cu_plain m so c) (\<lambda>so'. cu_run m so' cs)"

fun cu_close :: "cu_state \<times> u_char list \<Rightarrow> u_char list option" where
  "cu_close (s, out) =
     (case s of cu_dot \<Rightarrow> Some (butlast out)
      | cu_dot_dot \<Rightarrow> (if length out < 4 then None else cu_find out (length out - 4))
      | _ \<Rightarrow> Some out)"

definition plain_state :: "cu_state \<Rightarrow> bool" where
  "plain_state s \<longleftrightarrow> s \<noteq> cu_quoted \<and> s \<noteq> cu_quoted_second"

lemma usual_char: "is_usual c \<longrightarrow> c \<notin> {0x2f, 0x2e, 0x25, 0x3f, 0x23, 0x2b}"
  by (rule byte_all [where c = c]) code_simp

lemma cu_step_plain:
  assumes "plain_state s" "c \<notin> {0x25, 0x3f, 0x23}"
  shows "case cu_plain m (s, cu_out r) c of None \<Rightarrow> cu_step m p s q d c r = CU_invalid
    | Some (s', out') \<Rightarrow> plain_state s' \<and> (\<exists>r'. cu_step m p s q d c r = CU_next s' q d r' \<and> cu_out r' = out')"
  using assms usual_char [of c]
  by (cases s; cases "is_usual c") (auto simp: plain_state_def cu_step_defs cu_put_def cu_drop_def cu_up_def split: option.splits)

lemma cu_step_percent: "plain_state s \<Longrightarrow> cu_step m p s q d 0x25 r = CU_next cu_quoted s d r"
  using usual_char [of "0x25"] by (cases s) (auto simp: plain_state_def cu_step_defs)

lemma cu_step_stop:
  assumes "plain_state s" "c = 0x3f \<or> c = 0x23"
  shows "case cu_close (s, cu_out r) of None \<Rightarrow> cu_step m p s q d c r = CU_invalid
    | Some out' \<Rightarrow> \<exists>r'. (cu_step m p s q d c r = CU_args r' \<or> cu_step m p s q d c r = CU_done r') \<and> cu_out r' = out'"
  using assms usual_char [of c]
  by (cases s) (auto simp: plain_state_def cu_step_defs cu_put_def cu_drop_def cu_up_def split: option.splits)

text \<open>The quoted states decode a character by \<open>hex_val\<close>.\<close>

lemma hex_val_fold:
  "hex_val c = (if 0x30 \<le> c \<and> c \<le> 0x39 then Some (c - 0x30)
     else if 0x61 \<le> c OR 0x20 \<and> c OR 0x20 \<le> 0x66 then Some ((c OR 0x20) - 0x61 + 10) else None)"
  by (rule byte_all [where c = c]) code_simp

lemma hex_val_range: "case hex_val c of None \<Rightarrow> True
    | Some x \<Rightarrow> x < 16 \<and> (x < 10 \<longleftrightarrow> 0x30 \<le> c \<and> c \<le> 0x39) \<and> c \<notin> {0x25, 0x3f, 0x23}"
  by (rule byte_all [where c = c]) code_simp

lemma hex_pair:
  fixes x y c :: u_char
  assumes "x < 16" "y < 16"
  shows "16 * x + y = c \<longleftrightarrow> 16 * unat x + unat y = unat c"
proof -
  have "unat x < 16" "unat y < 16" using assms by (simp_all add: word_less_nat_alt)
  then have "unat (16 * x + y) = 16 * unat x + unat y" by (simp add: unat_word_ariths)
  then show ?thesis by (metis unsigned_word_eqI)
qed

lemma hex_pair_special:
  fixes x y :: u_char
  assumes "x < 16" "y < 16"
  shows "y < 10 \<Longrightarrow> 16 * x + y \<noteq> 0x3f" "\<not> y < 10 \<Longrightarrow> 16 * x + y \<notin> {0x25, 0x23, 0}"
  using assms by (auto simp: hex_pair word_less_nat_alt) presburger+

lemma cu_quoted_decodes:
  "cu_step m p cu_quoted q d ch r =
     (case hex_val ch of None \<Rightarrow> CU_invalid | Some x \<Rightarrow> CU_next cu_quoted_second q x (r\<lparr>cu_quoted_uri := True\<rparr>))"
  by (simp add: cu_step_def cu_quoted_step_def hex_val_fold Let_def)

lemma push4: "push_bit 4 (x :: u_char) = 16 * x"
  by (simp add: push_bit_eq_mult)

lemma cu_quoted_second_decodes:
  assumes "x < 16"
  shows "case hex_val ch of None \<Rightarrow> cu_step m p cu_quoted_second q x ch r = CU_invalid
    | Some y \<Rightarrow>
        if 16 * x + y = 0 then cu_step m p cu_quoted_second q x ch r = CU_invalid
        else if 16 * x + y \<in> {0x25, 0x3f, 0x23}
          then cu_step m p cu_quoted_second q x ch r = CU_next cu_usual q x (cu_put (16 * x + y) r)
        else \<exists>r'. cu_step m p cu_quoted_second q x ch r = CU_again q (16 * x + y) r' \<and> cu_out r' = cu_out r"
proof (cases "hex_val ch")
  case None
  then show ?thesis by (auto simp: cu_step_def cu_quoted_second_step_def hex_val_fold Let_def split: if_splits)
next
  case (Some y)
  then have y: "y < 16" "y < 10 \<longleftrightarrow> 0x30 \<le> ch \<and> ch \<le> 0x39" using hex_val_range [of ch] by simp_all
  show ?thesis
  proof (cases "y < 10")
    case True
    then have "y = ch - 0x30" "0x30 \<le> ch \<and> ch \<le> 0x39" using Some y(2) by (simp_all add: hex_val_fold)
    then show ?thesis using Some hex_pair_special(1) [OF assms y(1) True]
      by (auto simp: cu_step_def cu_quoted_second_step_def Let_def push4)
  next
    case False
    then have *: "y = (ch OR 0x20) - 0x61 + 10" "0x61 \<le> ch OR 0x20 \<and> ch OR 0x20 \<le> 0x66" "\<not> (0x30 \<le> ch \<and> ch \<le> 0x39)"
      using Some y(2) by (auto simp: hex_val_fold split: if_splits)
    have b: "push_bit 4 x + ((ch OR 0x20) - 0x61) + 10 = 16 * x + y" unfolding push4 *(1) by simp
    show ?thesis using Some hex_pair_special(2) [OF assms y(1) False] *(2,3)
      by (auto simp: cu_step_def cu_quoted_second_step_def Let_def b)
  qed
qed

section \<open>The loop refines the specification\<close>

definition path_part :: "u_char list \<Rightarrow> u_char list" where
  "path_part uri = takeWhile (\<lambda>c. c \<noteq> 0x3f \<and> c \<noteq> 0x23) uri"

definition cu_spec :: "bool \<Rightarrow> cu_state \<Rightarrow> u_char list \<Rightarrow> u_char list \<Rightarrow> u_char list option" where
  "cu_spec m s out xs = Option.bind (unquote (path_part xs)) (\<lambda>t. Option.bind (cu_run m (s, out) t) cu_close)"

lemma cu_spec_Nil: "cu_spec m s out [] = cu_close (s, out)"
  by (simp add: cu_spec_def path_part_def)

lemma cu_spec_stop: "c = 0x3f \<or> c = 0x23 \<Longrightarrow> cu_spec m s out (c # xs) = cu_close (s, out)"
  by (auto simp: cu_spec_def path_part_def)

lemma cu_run_cons:
  "Option.bind (map_option ((#) c) u) (\<lambda>t. Option.bind (cu_run m (s, out) t) cu_close) =
     Option.bind (cu_plain m (s, out) c) (\<lambda>(s', out'). Option.bind u (\<lambda>t. Option.bind (cu_run m (s', out') t) cu_close))"
  by (cases u; cases "cu_plain m (s, out) c") (auto simp del: cu_plain.simps)

lemma cu_spec_plain:
  assumes "c \<notin> {0x25, 0x3f, 0x23}"
  shows "cu_spec m s out (c # xs) = Option.bind (cu_plain m (s, out) c) (\<lambda>(s', out'). cu_spec m s' out' xs)"
  using assms by (simp add: cu_spec_def path_part_def cu_run_cons del: cu_plain.simps)

lemma cu_spec_percent:
  "cu_spec m s out (0x25 # a # b # xs) =
     (case (hex_val a, hex_val b) of
        (Some x, Some y) \<Rightarrow>
          if 16 * x + y = 0 then None
          else Option.bind (cu_plain m (s, out) (16 * x + y)) (\<lambda>(s', out'). cu_spec m s' out' xs)
      | _ \<Rightarrow> None)"
proof (cases "hex_val a")
  case None
  then show ?thesis by (simp add: cu_spec_def path_part_def)
next
  case a: (Some x)
  then have na: "a \<notin> {0x3f, 0x23}" using hex_val_range [of a] by simp
  then have cut: "path_part (0x25 # a # b # xs) = 0x25 # a # path_part (b # xs)" by (simp add: path_part_def)
  show ?thesis
  proof (cases "hex_val b")
    case None
    then show ?thesis unfolding cu_spec_def cut using a by (simp add: path_part_def)
  next
    case b: (Some y)
    then have "b \<notin> {0x3f, 0x23}" using hex_val_range [of b] by simp
    then have cut: "path_part (0x25 # a # b # xs) = 0x25 # a # b # path_part xs" using na by (simp add: path_part_def)
    show ?thesis unfolding cu_spec_def cut using a b by (simp add: cu_run_cons del: cu_plain.simps)
  qed
qed

lemma cu_spec_percent_short: "cu_spec m s out [0x25] = None" "cu_spec m s out [0x25, a] = None"
  by (auto simp: cu_spec_def path_part_def)

lemma cu_end_close: "plain_state s \<Longrightarrow> map_option cr_uri (cu_end s r) = cu_close (s, cu_out r)"
  by (cases s) (auto simp: plain_state_def cu_end_def cu_finish_def cu_drop_def cu_up_def option.map_comp o_def
      option.map_ident split: option.split)

lemma cr_uri_args_end [simp]: "cr_uri (cu_args_end r p rest) = cu_out r"
  by (simp add: cu_args_end_def cu_finish_def split: option.split)

lemma cr_uri_finish [simp]: "cr_uri (cu_finish r a b) = cu_out r"
  by (simp add: cu_finish_def)

lemma cu_loop_step:
  assumes "plain_state s'"
    and "\<And>c rest'. rest = c # rest' \<Longrightarrow> map_option cr_uri (cu_loop m (p + 1) s' q' d' c rest' r') = cu_spec m s' (cu_out r') rest"
  shows "map_option cr_uri (case rest of [] \<Rightarrow> cu_end s' r' | c # rest' \<Rightarrow> cu_loop m (p + 1) s' q' d' c rest' r') =
    cu_spec m s' (cu_out r') rest"
  using assms by (cases rest) (simp_all add: cu_end_close cu_spec_Nil)

lemma cu_loop_plain:
  assumes s: "plain_state s" and c: "c \<notin> {0x25, 0x3f, 0x23}"
    and IH: "\<And>p s q d c rest' r. rest = c # rest' \<Longrightarrow> plain_state s \<Longrightarrow>
      map_option cr_uri (cu_loop m p s q d c rest' r) = cu_spec m s (cu_out r) rest"
  shows "map_option cr_uri (cu_loop m p s q d c rest r) = cu_spec m s (cu_out r) (c # rest)"
proof (cases "cu_plain m (s, cu_out r) c")
  case None
  then show ?thesis using cu_step_plain [OF s c, of m p q d r] cu_spec_plain [OF c, of m s "cu_out r" rest]
    by (simp add: cu_loop.simps [of m p s] del: cu_plain.simps)
next
  case (Some so)
  obtain s' out' where so: "so = (s', out')" by (cases so)
  then obtain r' where r': "plain_state s'" "cu_step m p s q d c r = CU_next s' q d r'" "cu_out r' = out'"
    using cu_step_plain [OF s c, of m p q d r] Some by (auto simp del: cu_plain.simps)
  have "map_option cr_uri (case rest of [] \<Rightarrow> cu_end s' r' | c # rest' \<Rightarrow> cu_loop m (p + 1) s' q d c rest' r') =
      cu_spec m s' (cu_out r') rest"
    by (rule cu_loop_step) (use r' IH in auto)
  then show ?thesis using r' Some so cu_spec_plain [OF c, of m s "cu_out r" rest]
    by (simp add: cu_loop.simps [of m p s] del: cu_plain.simps)
qed

lemma cu_loop_stop:
  assumes "plain_state s" "c = 0x3f \<or> c = 0x23"
  shows "map_option cr_uri (cu_loop m p s q d c rest r) = cu_spec m s (cu_out r) (c # rest)"
  using cu_step_stop [OF assms, of m p q d r] cu_spec_stop [OF assms(2), of m s "cu_out r" rest]
  by (auto simp: cu_loop.simps [of m p s] simp del: cu_close.simps split: option.splits)

lemma cu_loop_percent:
  assumes s: "plain_state s"
    and IH: "\<And>p s q d c rest' r. length rest' < length rest \<Longrightarrow> plain_state s \<Longrightarrow>
      map_option cr_uri (cu_loop m p s q d c rest' r) = cu_spec m s (cu_out r) (c # rest')"
  shows "map_option cr_uri (cu_loop m p s q d 0x25 rest r) = cu_spec m s (cu_out r) (0x25 # rest)"
proof -
  consider (short) "rest = [] \<or> (\<exists>a. rest = [a])" | (pair) a b xs where "rest = a # b # xs"
    by (cases rest) (auto, metis list.exhaust)
  then show ?thesis
  proof cases
    case short
    then show ?thesis
      by (auto simp: cu_loop.simps [of m p s] cu_loop.simps [of m _ cu_quoted] cu_step_percent [OF s] cu_quoted_decodes
          cu_end_def cu_spec_percent_short split: option.splits)
  next
    case (pair a b xs)
    show ?thesis
    proof (cases "hex_val a")
      case None
      then show ?thesis
        by (simp add: pair cu_loop.simps [of m p s] cu_loop.simps [of m _ cu_quoted] cu_step_percent [OF s] cu_quoted_decodes cu_spec_percent)
    next
      case (Some x)
      then have x: "x < 16" using hex_val_range [of a] by simp
      let ?r = "r\<lparr>cu_quoted_uri := True\<rparr>"
      let ?two = "cu_loop m (p + 1 + 1) cu_quoted_second s x b xs ?r"
      have two: "cu_loop m p s q d 0x25 rest r = ?two"
        by (simp add: pair cu_loop.simps [of m p s] cu_loop.simps [of m _ cu_quoted] cu_step_percent [OF s] cu_quoted_decodes Some)
      note dec = cu_quoted_second_decodes [OF x, of m "p + 1 + 1" s b ?r]
      show ?thesis
      proof (cases "hex_val b")
        case None
        then show ?thesis using dec unfolding two
          by (simp add: cu_loop.simps [of m _ cu_quoted_second] pair cu_spec_percent Some)
      next
        case b: (Some y)
        let ?c = "16 * x + y"
        consider (zero) "?c = 0" | (literal) "?c \<noteq> 0" "?c \<in> {0x25, 0x3f, 0x23}" | (char) "?c \<noteq> 0" "?c \<notin> {0x25, 0x3f, 0x23}"
          by blast
        then show ?thesis
        proof cases
          case zero
          then show ?thesis using dec b unfolding two
            by (simp add: cu_loop.simps [of m _ cu_quoted_second] pair cu_spec_percent Some)
        next
          case literal
          have plain: "cu_plain m (s, cu_out r) ?c = Some (cu_usual, cu_out r @ [?c])" using literal(2) by auto
          have "map_option cr_uri (case xs of [] \<Rightarrow> cu_end cu_usual (cu_put ?c ?r)
              | c # rest' \<Rightarrow> cu_loop m (p + 1 + 1 + 1) cu_usual s x c rest' (cu_put ?c ?r)) =
            cu_spec m cu_usual (cu_out (cu_put ?c ?r)) xs"
            by (rule cu_loop_step) (use IH pair in \<open>auto simp: plain_state_def\<close>)
          moreover have "cu_step m (p + 1 + 1) cu_quoted_second s x b ?r = CU_next cu_usual s x (cu_put ?c ?r)"
            using dec b literal by auto
          then have "?two = (case xs of [] \<Rightarrow> cu_end cu_usual (cu_put ?c ?r)
              | c # rest' \<Rightarrow> cu_loop m (p + 1 + 1 + 1) cu_usual s x c rest' (cu_put ?c ?r))"
            by (subst cu_loop.simps) (simp only: cu_next.case)
          moreover have "cu_out (cu_put ?c ?r) = cu_out r @ [?c]" by (simp add: cu_put_def)
          ultimately show ?thesis using b literal(1) plain unfolding two
            by (simp add: pair cu_spec_percent Some del: cu_plain.simps)
        next
          case char
          obtain r' where r': "cu_step m (p + 1 + 1) cu_quoted_second s x b ?r = CU_again s ?c r'" "cu_out r' = cu_out r"
            using dec b char by auto
          have "map_option cr_uri (cu_loop m (p + 1 + 1) s s x ?c xs r') = cu_spec m s (cu_out r') (?c # xs)"
            using IH [of xs s] s pair by simp
          then show ?thesis using r' b char s unfolding two
            by (simp add: cu_loop.simps [of m _ cu_quoted_second] pair cu_spec_percent cu_spec_plain Some plain_state_def del: cu_plain.simps)
        qed
      qed
    qed
  qed
qed

lemma cu_loop_refines:
  "plain_state s \<Longrightarrow> map_option cr_uri (cu_loop m p s q d ch rest r) = cu_spec m s (cu_out r) (ch # rest)"
proof (induction rest arbitrary: p s q d ch r rule: length_induct)
  case (1 rest)
  note IH = 1(1) [rule_format]
  consider "ch = 0x25" | "ch = 0x3f \<or> ch = 0x23" | "ch \<notin> {0x25, 0x3f, 0x23}" by blast
  then show ?case
  proof cases
    case 1
    show ?thesis unfolding 1 by (rule cu_loop_percent) (use IH \<open>plain_state s\<close> in auto)
  next
    case 2
    then show ?thesis using cu_loop_stop \<open>plain_state s\<close> by blast
  next
    case 3
    show ?thesis by (rule cu_loop_plain [OF \<open>plain_state s\<close> 3]) (use IH in auto)
  qed
qed

section \<open>The automaton computes the normal form\<close>

lemma split_slash_segment: "s \<in> set (split_slash x) \<Longrightarrow> 0x2f \<notin> set s"
  by (induction x arbitrary: s) (auto split: if_splits list.splits)

lemma split_slash_ne [simp]: "split_slash x \<noteq> []"
  by (cases x) (auto split: list.split)

fun join_slash :: "u_char list list \<Rightarrow> u_char list" where
  "join_slash [] = []"
| "join_slash [s] = s"
| "join_slash (s # t # ss) = s @ 0x2f # join_slash (t # ss)"

lemma join_slash_Cons: "join_slash ((c # s) # ss) = c # join_slash (s # ss)"
  by (cases ss) simp_all

lemma join_split [simp]: "join_slash (split_slash x) = x"
proof (induction x)
  case (Cons c x)
  obtain s ss where "split_slash x = s # ss" by (cases "split_slash x") auto
  then show ?case using Cons by (auto simp: join_slash_Cons)
qed simp

lemma split_slash_none [simp]: "0x2f \<notin> set s \<Longrightarrow> split_slash s = [s]"
  by (induction s) auto

lemma split_slash_append: "0x2f \<notin> set s \<Longrightarrow> split_slash (s @ 0x2f # x) = s # split_slash x"
  by (induction s) auto

lemma render_simps [simp]:
  "render [] = []" "render (s # ss) = 0x2f # s @ render ss" "render (xs @ ys) = render xs @ render ys"
  by (simp_all add: render_def)

lemma render_join: "ss \<noteq> [] \<Longrightarrow> render ss = 0x2f # join_slash ss"
  by (induction ss rule: join_slash.induct) auto

lemma split_render: "\<forall>s\<in>set ss. 0x2f \<notin> set s \<Longrightarrow> ss \<noteq> [] \<Longrightarrow> split_slash (render ss) = [] # ss"
proof (induction ss rule: join_slash.induct)
  case (3 s t ss)
  then show ?case using split_slash_append [of s "tl (render (t # ss))"] by simp
qed auto

definition seg_state :: "u_char list \<Rightarrow> cu_state" where
  "seg_state s = (if s = [] then cu_slash else if s = dot then cu_dot else if s = dot_dot then cu_dot_dot else cu_usual)"

lemma cu_run_append: "cu_run m so (xs @ ys) = Option.bind (cu_run m so xs) (\<lambda>so'. cu_run m so' ys)"
  by (induction xs arbitrary: so) (auto simp: Option.bind_assoc simp del: cu_plain.simps)

lemma cu_run_segment: "0x2f \<notin> set s \<Longrightarrow> cu_run m (cu_slash, out) s = Some (seg_state s, out @ s)"
proof (induction s rule: rev_induct)
  case (snoc c s)
  then have "cu_plain m (seg_state s, out @ s) c = Some (seg_state (s @ [c]), out @ s @ [c])"
    by (auto simp: seg_state_def append_eq_Cons_conv)
  then show ?case using snoc by (simp add: cu_run_append del: cu_plain.simps)
qed (simp add: seg_state_def)

lemma cu_find_slash: "0x2f \<notin> set s \<Longrightarrow> cu_find (w @ 0x2f # s @ t) (length w + length s) = Some (w @ [0x2f])"
proof (induction s arbitrary: t rule: rev_induct)
  case Nil
  then show ?case by (simp add: cu_find.simps [of _ "length w"] nth_append)
next
  case (snoc c s)
  then show ?case
    using snoc.IH [of "c # t"] by (subst cu_find.simps) (simp add: nth_append)
qed

text \<open>Going up from a segment of two dots.\<close>

definition up :: "u_char list list \<Rightarrow> u_char list option" where
  "up acc = (if acc = [] then None else Some (render (butlast acc) @ [0x2f]))"

lemma cu_find_up:
  assumes "\<forall>s\<in>set acc. 0x2f \<notin> set s"
  shows "(if length (render acc @ 0x2f # dot_dot) < 4 then None
    else cu_find (render acc @ 0x2f # dot_dot) (length (render acc @ 0x2f # dot_dot) - 4)) = up acc"
proof (cases acc rule: rev_cases)
  case (snoc ss s)
  then show ?thesis using assms cu_find_slash [of s "render ss" "0x2f # dot_dot"] by (simp add: up_def)
qed (simp add: up_def)

lemma cu_run_slash:
  assumes "\<forall>s\<in>set acc. 0x2f \<notin> set s"
  shows "cu_plain m (seg_state s, render acc @ 0x2f # s) 0x2f =
    (if s = dot \<or> s = [] \<and> m then Some (cu_slash, render acc @ [0x2f])
     else if s = dot_dot then map_option (Pair cu_slash) (up acc)
     else Some (cu_slash, render (acc @ [s]) @ [0x2f]))"
  using cu_find_up [OF assms] by (auto simp: seg_state_def up_def butlast_append split: if_splits)

lemma cu_close_segment:
  assumes "\<forall>s\<in>set acc. 0x2f \<notin> set s"
  shows "cu_close (seg_state s, render acc @ 0x2f # s) = map_option render (normal m acc [s])"
  using cu_find_up [OF assms] by (auto simp: seg_state_def up_def butlast_append)

lemma cu_run_normal:
  "\<lbrakk>\<forall>s\<in>set acc. 0x2f \<notin> set s; \<forall>s\<in>set segs. 0x2f \<notin> set s; segs \<noteq> []\<rbrakk> \<Longrightarrow>
   Option.bind (cu_run m (cu_slash, render acc @ [0x2f]) (join_slash segs)) cu_close = map_option render (normal m acc segs)"
proof (induction m acc segs rule: normal.induct)
  case (2 m acc s)
  then show ?case using cu_close_segment [of acc s m] by (simp add: cu_run_segment del: cu_close.simps normal.simps)
next
  case (3 m acc s t ss)
  have run: "Option.bind (cu_run m (cu_slash, render acc @ [0x2f]) (join_slash (s # t # ss))) cu_close =
      Option.bind (cu_plain m (seg_state s, render acc @ 0x2f # s) 0x2f)
        (\<lambda>so. Option.bind (cu_run m so (join_slash (t # ss))) cu_close)"
    using 3(5) by (simp add: cu_run_append cu_run_segment del: cu_close.simps cu_plain.simps)
  have but: "\<forall>s\<in>set (butlast acc). 0x2f \<notin> set s" using 3(4) by (meson in_set_butlastD)
  show ?case unfolding run cu_run_slash [OF 3(4)] using 3 but by (auto simp: up_def simp del: cu_close.simps)
qed simp

lemma complex_uri_normal:
  "map_option cr_uri (ngx_http_parse_complex_uri m False plus_seen (0x2f # x)) =
     Option.bind (unquote (path_part x)) (\<lambda>path. map_option render (normal m [] (split_slash path)))"
proof -
  have "map_option cr_uri (ngx_http_parse_complex_uri m False plus_seen (0x2f # x)) = cu_spec m cu_usual [] (0x2f # x)"
    by (simp add: ngx_http_parse_complex_uri_def cu_loop_refines plain_state_def)
  also have "\<dots> = cu_spec m cu_slash [0x2f] x" by (simp add: cu_spec_plain)
  also have "\<dots> = Option.bind (unquote (path_part x)) (\<lambda>path. map_option render (normal m [] (split_slash path)))"
  proof (cases "unquote (path_part x)")
    case (Some t)
    have "Option.bind (cu_run m (cu_slash, render [] @ [0x2f]) (join_slash (split_slash t))) cu_close =
        map_option render (normal m [] (split_slash t))"
      by (rule cu_run_normal) (use split_slash_segment in auto)
    then show ?thesis by (simp add: cu_spec_def Some del: cu_close.simps)
  qed (simp add: cu_spec_def)
  finally show ?thesis .
qed

text \<open>
  C14: the loop computes the normal form. The path is what precedes a question mark or a hash; it is
  percent decoded, an invalid sequence or a zero byte is an error; its segments are resolved from
  left to right, a reference above the root is an error; slashes are merged when configured.
\<close>

theorem complex_uri_normal_form:
  "map_option cr_uri (ngx_http_parse_complex_uri m False plus_seen (0x2f # x)) =
     Option.bind (unquote (path_part x)) (\<lambda>path. map_option render (normal m [] (split_slash path)))"
  by (rule complex_uri_normal)

section \<open>No segment of the result leads upwards\<close>

lemma ball_butlast: "\<forall>s\<in>set ss. P s \<Longrightarrow> \<forall>s\<in>set (butlast ss). P s"
  by (meson in_set_butlastD)

definition kept :: "bool \<Rightarrow> u_char list list \<Rightarrow> u_char list set" where
  "kept m segs = {s \<in> set segs. s \<noteq> dot \<and> s \<noteq> dot_dot \<and> (m \<longrightarrow> s \<noteq> [])}"

lemma normal_shape:
  "\<lbrakk>normal m acc segs = Some ss; segs \<noteq> []\<rbrakk> \<Longrightarrow>
   \<exists>acc' s. ss = acc' @ [s] \<and> set acc' \<subseteq> set acc \<union> kept m segs \<and> (s = [] \<or> s \<in> set segs \<and> s \<noteq> dot \<and> s \<noteq> dot_dot) \<and>
     length (render ss) \<le> length (render acc) + length (render segs)"
proof (induction m acc segs rule: normal.induct)
  case (2 m acc s)
  consider "s = dot" "ss = acc @ [[]]" | "s = dot_dot" "ss = butlast acc @ [[]]" | "s \<noteq> dot" "s \<noteq> dot_dot" "ss = acc @ [s]"
    using 2(1) by (auto split: if_splits)
  then show ?case
  proof cases
    case 2
    moreover have "set (butlast acc) \<subseteq> set acc" by (meson in_set_butlastD subsetI)
    moreover have "length (render (butlast acc)) \<le> length (render acc)" by (cases acc rule: rev_cases) simp_all
    ultimately show ?thesis by auto
  qed auto
next
  case (3 m acc s t ts)
  consider "s = dot \<or> s = [] \<and> m" | "s = dot_dot" "acc \<noteq> []" | "s \<noteq> dot" "s \<noteq> dot_dot" "\<not> (s = [] \<and> m)"
    using 3(4) by (auto split: if_splits)
  then show ?case
  proof cases
    case 1
    then have "normal m acc (t # ts) = Some ss" using 3(4) by auto
    from 3(1) [OF 1 this] show ?thesis by (auto simp: kept_def)
  next
    case 2
    then have "normal m (butlast acc) (t # ts) = Some ss" using 3(4) by auto
    moreover have "set (butlast acc) \<subseteq> set acc" by (meson in_set_butlastD subsetI)
    moreover have "length (render (butlast acc)) \<le> length (render acc)" by (cases acc rule: rev_cases) simp_all
    ultimately show ?thesis using 3(2) 2 by (fastforce simp: kept_def)
  next
    case alt: 3
    then have "normal m (acc @ [s]) (t # ts) = Some ss" using 3(4) by auto
    from 3(3) [OF _ _ this] show ?thesis using alt by (auto simp: kept_def)
  qed
qed simp

lemma unquote_bounds: "unquote x = Some t \<Longrightarrow> length t \<le> length x \<and> (0 \<notin> set x \<longrightarrow> 0 \<notin> set t)"
proof (induction x arbitrary: t rule: length_induct)
  case (1 x)
  note IH = 1(1) [rule_format]
  show ?case
  proof (cases x)
    case (Cons c cs)
    show ?thesis
    proof (cases "c = 0x25")
      case True
      then obtain a b rest v u where "cs = a # b # rest" "unquote rest = Some u" "t = v # u" "v \<noteq> 0"
        using 1(2) Cons by (auto split: list.splits option.splits if_splits)
      then show ?thesis using IH [of rest u] Cons by auto
    next
      case False
      then obtain u where "unquote cs = Some u" "t = c # u" using 1(2) Cons by auto
      then show ?thesis using IH [of cs u] Cons by auto
    qed
  qed (use 1 in simp)
qed

lemma split_slash_set: "s \<in> set (split_slash x) \<Longrightarrow> set s \<subseteq> set x"
  by (induction x arbitrary: s) (fastforce split: if_splits list.splits)+

text \<open>
  C13: whatever the encoding of the dots and slashes in the request, a normalised path begins with a
  slash and none of its segments is a single dot or two dots, so it cannot leave the document root;
  when slashes are merged no segment but the last is empty; it has no zero byte; and it is
  no longer than the path before decoding, so the buffer allocated for it is large enough.
\<close>

theorem complex_uri_no_traversal:
  assumes "ngx_http_parse_complex_uri m False plus_seen (0x2f # x) = Some r" "0 \<notin> set x"
  shows "\<exists>ss. cr_uri r = render ss \<and> split_slash (cr_uri r) = [] # ss \<and> ss \<noteq> [] \<and> dot \<notin> set ss \<and> dot_dot \<notin> set ss \<and>
      (m \<longrightarrow> [] \<notin> set (butlast ss)) \<and> 0 \<notin> set (cr_uri r) \<and> length (cr_uri r) \<le> length (path_part (0x2f # x))"
proof -
  obtain t ss where t: "unquote (path_part x) = Some t" and ss: "normal m [] (split_slash t) = Some ss" "cr_uri r = render ss"
    using complex_uri_normal [of m plus_seen x, symmetric] assms(1) by (auto simp: bind_eq_Some_conv)
  obtain acc' s where acc: "ss = acc' @ [s]" "set acc' \<subseteq> kept m (split_slash t)"
      "s = [] \<or> s \<in> set (split_slash t) \<and> s \<noteq> dot \<and> s \<noteq> dot_dot"
    and len: "length (render ss) \<le> Suc (length t)"
    using normal_shape [OF ss(1)] by (auto simp: render_join)
  have seg: "0x2f \<notin> set s'" "set s' \<subseteq> set t" if "s' \<in> set ss" for s'
    using that acc split_slash_segment [of s' t] split_slash_set [of s' t] by (auto simp: kept_def)
  have "set (path_part x) \<subseteq> set x" using set_takeWhileD by (fastforce simp: path_part_def)
  then have t': "length t \<le> length (path_part x)" "0 \<notin> set t" using unquote_bounds [OF t] assms(2) by auto
  then have "0 \<notin> set (render ss)" using seg by (auto simp: render_def)
  moreover have "split_slash (render ss) = [] # ss" using split_render [of ss] seg acc by auto
  moreover have "m \<longrightarrow> [] \<notin> set (butlast ss)" "dot \<notin> set ss" "dot_dot \<notin> set ss" using acc by (auto simp: kept_def)
  moreover have "path_part (0x2f # x) = 0x2f # path_part x" by (simp add: path_part_def)
  ultimately show ?thesis using ss(2) len t' acc(1) by (intro exI [of _ ss]) simp
qed

theorem complex_uri_no_traversal_witness:
  "\<exists>r ss. ngx_http_parse_complex_uri True False False (bytes ''/a/%2e%2E//b'') = Some r \<and>
     split_slash (cr_uri r) = [] # ss \<and> dot_dot \<notin> set ss \<and> cr_uri r = bytes ''/b''"
proof -
  let ?x = "bytes ''a/%2e%2E//b''"
  have b: "bytes ''/a/%2e%2E//b'' = 0x2f # ?x" by (simp add: bytes_Cons)
  have z: "0 \<notin> set ?x" by (simp add: bytes_Cons)
  have "map_option cr_uri (ngx_http_parse_complex_uri True False False (0x2f # ?x)) = Some (bytes ''/b'')" by code_simp
  then obtain r where r: "ngx_http_parse_complex_uri True False False (0x2f # ?x) = Some r" "cr_uri r = bytes ''/b''" by auto
  show ?thesis using complex_uri_no_traversal [OF r(1) z] r unfolding b by auto
qed

end
