(* ===== verification/Ngx_String.thy ===== *)
theory Ngx_String
  imports Ngx_Prelude "HOL-Library.Multiset"
begin

text \<open>
  Strings (src/nginx/src/core/ngx_string.c): copying, case folding, comparison, search, the stable sort
  and UTF-8.

  A pointer into a string is the list of the bytes that may be read from it; a function that would
  read past them gives none. Positions returned by the searches are offsets from the first
  argument. The order relations that the comparison functions define are stated by the locale
  \<open>comparator\<close>, of which the sort is a client.
\<close>

section \<open>Copying\<close>

definition ngx_tolower :: "u_char \<Rightarrow> u_char" where
  "ngx_tolower c = (if c \<ge> 0x41 \<and> c \<le> 0x5a then c OR 0x20 else c)"

fun ngx_strlow :: "u_char list \<Rightarrow> nat \<Rightarrow> u_char list option" where
  "ngx_strlow src 0 = Some []"
| "ngx_strlow [] (Suc n) = None"
| "ngx_strlow (c # src) (Suc n) = map_option ((#) (ngx_tolower c)) (ngx_strlow src n)"

fun ngx_strnlen :: "u_char list \<Rightarrow> nat \<Rightarrow> nat option" where
  "ngx_strnlen p 0 = Some 0"
| "ngx_strnlen [] (Suc n) = None"
| "ngx_strnlen (c # p) (Suc n) = (if c = 0 then Some 0 else map_option Suc (ngx_strnlen p n))"

text \<open>The bytes written, the terminating zero included.\<close>

fun ngx_cpystrn :: "u_char list \<Rightarrow> nat \<Rightarrow> u_char list option" where
  "ngx_cpystrn src 0 = Some []"
| "ngx_cpystrn src (Suc 0) = Some [0]"
| "ngx_cpystrn [] (Suc (Suc n)) = None"
| "ngx_cpystrn (c # src) (Suc (Suc n)) =
     (if c = 0 then Some [0] else map_option ((#) c) (ngx_cpystrn src (Suc n)))"

section \<open>Comparison\<close>

fun ngx_strcasecmp :: "u_char list \<Rightarrow> u_char list \<Rightarrow> int option" where
  "ngx_strcasecmp (c1 # s1) (c2 # s2) =
     (let c1 = ngx_tolower c1; c2 = ngx_tolower c2
      in if c1 = c2 then (if c1 \<noteq> 0 then ngx_strcasecmp s1 s2 else Some 0)
         else Some (uint c1 - uint c2))"
| "ngx_strcasecmp _ _ = None"

fun ngx_strncasecmp :: "u_char list \<Rightarrow> u_char list \<Rightarrow> nat \<Rightarrow> int option" where
  "ngx_strncasecmp s1 s2 0 = Some 0"
| "ngx_strncasecmp (c1 # s1) (c2 # s2) (Suc n) =
     (let c1 = ngx_tolower c1; c2 = ngx_tolower c2
      in if c1 = c2 then (if c1 \<noteq> 0 then ngx_strncasecmp s1 s2 n else Some 0)
         else Some (uint c1 - uint c2))"
| "ngx_strncasecmp _ _ (Suc n) = None"

fun ngx_strncmp :: "u_char list \<Rightarrow> u_char list \<Rightarrow> nat \<Rightarrow> int option" where
  "ngx_strncmp s1 s2 0 = Some 0"
| "ngx_strncmp (c1 # s1) (c2 # s2) (Suc n) =
     (if c1 = c2 then (if c1 \<noteq> 0 then ngx_strncmp s1 s2 n else Some 0) else Some (uint c1 - uint c2))"
| "ngx_strncmp _ _ (Suc n) = None"

fun ngx_rstrncmp :: "u_char list \<Rightarrow> u_char list \<Rightarrow> nat \<Rightarrow> int option" where
  "ngx_rstrncmp s1 s2 0 = Some 0"
| "ngx_rstrncmp s1 s2 (Suc n) =
     (if n < length s1 \<and> n < length s2 then
        (if s1 ! n \<noteq> s2 ! n then Some (uint (s1 ! n) - uint (s2 ! n)) else ngx_rstrncmp s1 s2 n)
      else None)"

definition upcase :: "u_char \<Rightarrow> u_char" where
  "upcase c = (if c \<ge> 0x61 \<and> c \<le> 0x7a then c - 0x20 else c)"

fun ngx_rstrncasecmp :: "u_char list \<Rightarrow> u_char list \<Rightarrow> nat \<Rightarrow> int option" where
  "ngx_rstrncasecmp s1 s2 0 = Some 0"
| "ngx_rstrncasecmp s1 s2 (Suc n) =
     (if n < length s1 \<and> n < length s2 then
        (let c1 = upcase (s1 ! n); c2 = upcase (s2 ! n)
         in if c1 \<noteq> c2 then Some (uint c1 - uint c2) else ngx_rstrncasecmp s1 s2 n)
      else None)"

text \<open>\<^verbatim>\<open>ngx_memcmp\<close> of the library, and the comparison of strings of different lengths.\<close>

fun ngx_memcmp :: "u_char list \<Rightarrow> u_char list \<Rightarrow> nat \<Rightarrow> int option" where
  "ngx_memcmp s1 s2 0 = Some 0"
| "ngx_memcmp (c1 # s1) (c2 # s2) (Suc n) =
     (if c1 = c2 then ngx_memcmp s1 s2 n else Some (uint c1 - uint c2))"
| "ngx_memcmp _ _ (Suc n) = None"

definition ngx_memn2cmp :: "u_char list \<Rightarrow> u_char list \<Rightarrow> nat \<Rightarrow> nat \<Rightarrow> int option" where
  "ngx_memn2cmp s1 s2 n1 n2 =
     (let (n, z) = (if n1 \<le> n2 then (n1, -1) else (n2, 1))
      in case ngx_memcmp s1 s2 n of
           None \<Rightarrow> None
         | Some m \<Rightarrow> if m \<noteq> 0 \<or> n1 = n2 then Some m else Some z)"

definition dns_char :: "u_char \<Rightarrow> u_char" where
  "dns_char c = (if c = 0x2e then 0x20 else c)"

fun ngx_dns_strcmp :: "u_char list \<Rightarrow> u_char list \<Rightarrow> int option" where
  "ngx_dns_strcmp (c1 # s1) (c2 # s2) =
     (let c1 = ngx_tolower c1; c2 = ngx_tolower c2
      in if c1 = c2 then (if c1 \<noteq> 0 then ngx_dns_strcmp s1 s2 else Some 0)
         else Some (uint (dns_char c1) - uint (dns_char c2)))"
| "ngx_dns_strcmp _ _ = None"

definition path_char :: "u_char \<Rightarrow> u_char" where
  "path_char c = (if c = 0x2f then 0 else c)"

fun ngx_filename_cmp :: "u_char list \<Rightarrow> u_char list \<Rightarrow> nat \<Rightarrow> int option" where
  "ngx_filename_cmp s1 s2 0 = Some 0"
| "ngx_filename_cmp (c1 # s1) (c2 # s2) (Suc n) =
     (if c1 = c2 then (if c1 \<noteq> 0 then ngx_filename_cmp s1 s2 n else Some 0)
      else if c1 = 0 \<or> c2 = 0 then Some (uint c1 - uint c2)
      else Some (uint (path_char c1) - uint (path_char c2)))"
| "ngx_filename_cmp _ _ (Suc n) = None"

section \<open>Search\<close>

fun ngx_strlchr :: "u_char list \<Rightarrow> u_char \<Rightarrow> nat option" where
  "ngx_strlchr [] c = None"
| "ngx_strlchr (d # p) c = (if d = c then Some 0 else map_option Suc (ngx_strlchr p c))"

text \<open>The result of a search is none for a read past the end, and otherwise \<^verbatim>\<open>NULL\<close> or an offset.\<close>

fun ngx_strnstr :: "u_char list \<Rightarrow> u_char \<Rightarrow> u_char list \<Rightarrow> nat \<Rightarrow> nat option option" where
  "ngx_strnstr s1 c2 s2 0 = Some None"
| "ngx_strnstr [] c2 s2 (Suc len) = None"
| "ngx_strnstr (c1 # s1) c2 s2 (Suc len) =
     (if c1 = 0 then Some None
      else if c1 \<noteq> c2 then map_option (map_option Suc) (ngx_strnstr s1 c2 s2 len)
      else if length s2 > len then Some None
      else case ngx_strncmp s1 s2 (length s2) of
             None \<Rightarrow> None
           | Some d \<Rightarrow> if d \<noteq> 0 then map_option (map_option Suc) (ngx_strnstr s1 c2 s2 len) else Some (Some 0))"

fun ngx_strstrn :: "u_char list \<Rightarrow> u_char \<Rightarrow> u_char list \<Rightarrow> nat \<Rightarrow> nat option option" where
  "ngx_strstrn [] c2 s2 n = None"
| "ngx_strstrn (c1 # s1) c2 s2 n =
     (if c1 = 0 then Some None
      else if c1 \<noteq> c2 then map_option (map_option Suc) (ngx_strstrn s1 c2 s2 n)
      else case ngx_strncmp s1 s2 n of
             None \<Rightarrow> None
           | Some d \<Rightarrow> if d \<noteq> 0 then map_option (map_option Suc) (ngx_strstrn s1 c2 s2 n) else Some (Some 0))"

fun ngx_strcasestrn :: "u_char list \<Rightarrow> u_char \<Rightarrow> u_char list \<Rightarrow> nat \<Rightarrow> nat option option" where
  "ngx_strcasestrn [] c2 s2 n = None"
| "ngx_strcasestrn (c1 # s1) c2 s2 n =
     (if c1 = 0 then Some None
      else if ngx_tolower c1 \<noteq> ngx_tolower c2 then map_option (map_option Suc) (ngx_strcasestrn s1 c2 s2 n)
      else case ngx_strncasecmp s1 s2 n of
             None \<Rightarrow> None
           | Some d \<Rightarrow> if d \<noteq> 0 then map_option (map_option Suc) (ngx_strcasestrn s1 c2 s2 n) else Some (Some 0))"

text \<open>The search up to \<open>lst\<close>, the number of bytes from the current position to the end.\<close>

fun ngx_strlcasestrn :: "u_char list \<Rightarrow> int \<Rightarrow> u_char \<Rightarrow> u_char list \<Rightarrow> nat \<Rightarrow> nat option option" where
  "ngx_strlcasestrn [] lst c2 s2 n = (if 0 \<ge> lst - int n then Some None else None)"
| "ngx_strlcasestrn (c1 # s1) lst c2 s2 n =
     (if 0 \<ge> lst - int n then Some None
      else if ngx_tolower c1 \<noteq> ngx_tolower c2 then map_option (map_option Suc) (ngx_strlcasestrn s1 (lst - 1) c2 s2 n)
      else case ngx_strncasecmp s1 s2 n of
             None \<Rightarrow> None
           | Some d \<Rightarrow> if d \<noteq> 0 then map_option (map_option Suc) (ngx_strlcasestrn s1 (lst - 1) c2 s2 n) else Some (Some 0))"

section \<open>Sorting\<close>

text \<open>The inner loop moves the elements greater than the saved one up by one; the sorted part is given
  as the reversed list of the elements before \<^verbatim>\<open>p1\<close>, whose head is the one compared first.\<close>

fun sort_insert :: "('a \<Rightarrow> 'a \<Rightarrow> int) \<Rightarrow> 'a \<Rightarrow> 'a list \<Rightarrow> 'a list" where
  "sort_insert cmp p [] = [p]"
| "sort_insert cmp p (x # xs) = (if cmp x p > 0 then x # sort_insert cmp p xs else p # x # xs)"

fun sort_loop :: "('a \<Rightarrow> 'a \<Rightarrow> int) \<Rightarrow> 'a list \<Rightarrow> 'a list \<Rightarrow> 'a list" where
  "sort_loop cmp before [] = rev before"
| "sort_loop cmp before (p # rest) = sort_loop cmp (sort_insert cmp p before) rest"

text \<open>The element that is moved is kept in memory of its own; \<open>alloc\<close> tells whether \<^verbatim>\<open>ngx_alloc\<close> gets it. Without it
  the function returns and leaves the array as it is.\<close>

definition ngx_sort :: "bool \<Rightarrow> ('a \<Rightarrow> 'a \<Rightarrow> int) \<Rightarrow> 'a list \<Rightarrow> 'a list" where
  "ngx_sort alloc cmp base =
     (if \<not> alloc then base else case base of [] \<Rightarrow> [] | x # rest \<Rightarrow> sort_loop cmp [x] rest)"

section \<open>UTF-8\<close>

definition utf8_error :: "32 word" where
  "utf8_error = 0xffffffff"

text \<open>The bytes that continue a sequence: the value and the bytes left.\<close>

fun utf8_rest :: "nat \<Rightarrow> 32 word \<Rightarrow> u_char list \<Rightarrow> (32 word option \<times> u_char list) option" where
  "utf8_rest 0 u p = Some (Some u, p)"
| "utf8_rest (Suc len) u [] = None"
| "utf8_rest (Suc len) u (i # p) =
     (if i < 0x80 then Some (None, p)
      else utf8_rest len (push_bit 6 u OR ucast (i AND 0x3f)) p)"

text \<open>What the first byte says: its bits of the value, the greatest value that is too small for the
  length, and the number of bytes that follow.\<close>

definition utf8_lead :: "u_char \<Rightarrow> (32 word \<times> 32 word \<times> nat) option" where
  "utf8_lead c =
     (if c \<ge> 0xf8 then None
      else if c \<ge> 0xf0 then Some (ucast c AND 0x07, 0xffff, 3)
      else if c \<ge> 0xe0 then Some (ucast c AND 0x0f, 0x7ff, 2)
      else if c \<ge> 0xc2 then Some (ucast c AND 0x1f, 0x7f, 1)
      else None)"

text \<open>The value returned and the string from the new position.\<close>

definition ngx_utf8_decode :: "u_char list \<Rightarrow> nat \<Rightarrow> (32 word \<times> u_char list) option" where
  "ngx_utf8_decode p n =
     (case p of
        [] \<Rightarrow> None
      | c # rest \<Rightarrow>
          (case utf8_lead c of
             None \<Rightarrow> Some (utf8_error, rest)
           | Some (u, valid, len) \<Rightarrow>
               if (int n - 1) mod 2 ^ 64 < int len then Some (0xfffffffe, p)
               else case utf8_rest len u rest of
                      None \<Rightarrow> None
                    | Some (None, p') \<Rightarrow> Some (utf8_error, p')
                    | Some (Some v, p') \<Rightarrow> Some (if v > valid then v else utf8_error, p')))"

lemma utf8_rest_length: "utf8_rest len u p = Some (v, p') \<Longrightarrow> length p' \<le> length p"
  by (induction len u p rule: utf8_rest.induct) (auto split: if_splits)

lemma utf8_decode_length:
  assumes "ngx_utf8_decode p n = Some (u, p')" "u \<noteq> 0xfffffffe"
  shows "length p' < length p"
proof (cases p)
  case (Cons c rest)
  then show ?thesis using assms
    by (auto simp: ngx_utf8_decode_def Let_def split: if_splits option.splits dest!: utf8_rest_length)
qed (use assms in \<open>simp add: ngx_utf8_decode_def\<close>)

function utf8_length_loop :: "nat \<Rightarrow> u_char list \<Rightarrow> nat \<Rightarrow> nat \<Rightarrow> nat option" where
  "utf8_length_loop n p left len =
     (if left = 0 then Some len
      else case p of
        [] \<Rightarrow> None
      | c # rest \<Rightarrow>
          if c < 0x80 then utf8_length_loop n rest (left - 1) (len + 1)
          else case ngx_utf8_decode p left of
                 None \<Rightarrow> None
               | Some (u, p') \<Rightarrow>
                   if u > 0x10ffff then Some n
                   else utf8_length_loop n p' (left - (length p - length p')) (len + 1))"
  by pat_completeness auto
termination
  by (relation "measure (\<lambda>(n, p, left, len). length p)") (auto dest!: utf8_decode_length)

declare utf8_length_loop.simps [simp del]

definition ngx_utf8_length :: "u_char list \<Rightarrow> nat \<Rightarrow> nat option" where
  "ngx_utf8_length p n = utf8_length_loop n p n 0"

definition size_minus :: "nat \<Rightarrow> nat \<Rightarrow> nat" where
  "size_minus len k = nat ((int len - int k) mod 2 ^ 64)"

text \<open>The bytes written; \<open>n\<close> counts characters.\<close>

fun ngx_utf8_cpystrn :: "u_char list \<Rightarrow> nat \<Rightarrow> nat \<Rightarrow> u_char list option" where
  "ngx_utf8_cpystrn src 0 len = Some []"
| "ngx_utf8_cpystrn src (Suc 0) len = Some [0]"
| "ngx_utf8_cpystrn src (Suc (Suc n)) len =
     (case src of
        [] \<Rightarrow> None
      | c # rest \<Rightarrow>
          if c < 0x80 then
            (if c \<noteq> 0 then map_option ((#) c) (ngx_utf8_cpystrn rest (Suc n) (size_minus len 1)) else Some [0])
          else case ngx_utf8_decode src len of
                 None \<Rightarrow> None
               | Some (u, next_) \<Rightarrow>
                   if u > 0x10ffff then Some [0]
                   else let k = length src - length next_
                        in map_option ((@) (take k src)) (ngx_utf8_cpystrn next_ (Suc n) (size_minus len k)))"

section \<open>The sort is stable\<close>

locale comparator =
  fixes cmp :: "'a \<Rightarrow> 'a \<Rightarrow> int" and ok :: "'a \<Rightarrow> bool"
  assumes cmp_antisym: "ok x \<Longrightarrow> ok y \<Longrightarrow> 0 < cmp x y \<longleftrightarrow> cmp y x < 0"
    and cmp_trans: "ok x \<Longrightarrow> ok y \<Longrightarrow> ok z \<Longrightarrow> cmp x y \<le> 0 \<Longrightarrow> cmp y z \<le> 0 \<Longrightarrow> cmp x z \<le> 0"
begin

lemma mset_insert [simp]: "mset (sort_insert cmp p xs) = add_mset p (mset xs)"
  by (induction xs) auto

lemma set_insert [simp]: "set (sort_insert cmp p xs) = insert p (set xs)"
  by (induction xs) auto

text \<open>The part before \<^verbatim>\<open>p1\<close>, read backwards.\<close>

definition desc :: "'a list \<Rightarrow> bool" where
  "desc xs \<longleftrightarrow> sorted_wrt (\<lambda>x y. cmp y x \<le> 0) xs \<and> (\<forall>x\<in>set xs. ok x)"

lemma desc_insert:
  assumes "desc xs" "ok p"
  shows "desc (sort_insert cmp p xs)"
  using assms
proof (induction xs)
  case (Cons x xs)
  have ok: "ok x" "\<forall>y\<in>set xs. ok y" and sorted: "\<forall>y\<in>set xs. cmp y x \<le> 0" and ih: "desc xs"
    using Cons.prems by (auto simp: desc_def)
  show ?case
  proof (cases "cmp x p > 0")
    case True
    then have "cmp p x < 0" using cmp_antisym ok(1) Cons.prems(2) by blast
    then show ?thesis using Cons.IH [OF ih Cons.prems(2)] True sorted ok by (auto simp: desc_def)
  next
    case False
    then have "cmp x p \<le> 0" by simp
    moreover have "cmp y p \<le> 0" if "y \<in> set xs" for y
      using cmp_trans [of y x p] that sorted ok Cons.prems(2) calculation by blast
    ultimately show ?thesis using False Cons.prems by (auto simp: desc_def)
  qed
qed (simp add: desc_def)

definition same :: "'a \<Rightarrow> 'a \<Rightarrow> bool" where
  "same k x \<longleftrightarrow> cmp k x = 0 \<and> cmp x k = 0"

lemma filter_insert:
  assumes "ok k" "ok p" "\<forall>x\<in>set xs. ok x"
  shows "filter (same k) (sort_insert cmp p xs) = filter (same k) (p # xs)"
  using assms(3)
proof (induction xs)
  case (Cons x xs)
  have "\<not> (same k p \<and> same k x)" if "cmp x p > 0"
    using that cmp_trans [of x k p] Cons.prems assms(1,2) by (auto simp: same_def)
  then show ?case using Cons by auto
qed simp

lemma sort_loop_correct:
  assumes "desc before" "\<forall>x\<in>set rest. ok x"
  shows "sorted_wrt (\<lambda>x y. cmp x y \<le> 0) (sort_loop cmp before rest) \<and>
    mset (sort_loop cmp before rest) = mset before + mset rest \<and>
    (\<forall>k. ok k \<longrightarrow> filter (same k) (sort_loop cmp before rest) = filter (same k) (rev before @ rest))"
  using assms
proof (induction rest arbitrary: before)
  case Nil
  then show ?case by (auto simp: desc_def sorted_wrt_rev)
next
  case (Cons p rest)
  have d: "desc (sort_insert cmp p before)" using Cons.prems by (intro desc_insert) auto
  have r: "\<forall>x\<in>set rest. ok x" using Cons.prems by simp
  have "filter (same k) (rev (sort_insert cmp p before)) = rev (filter (same k) (p # before))" if "ok k" for k
    using filter_insert [OF that, of p before] Cons.prems by (simp add: rev_filter [symmetric] desc_def)
  then show ?case using Cons.IH [OF d r] by (auto simp: rev_filter)
qed

lemma ngx_sort_stable:
  assumes "\<forall>x\<in>set base. ok x"
  shows "sorted_wrt (\<lambda>x y. cmp x y \<le> 0) (ngx_sort True cmp base) \<and> mset (ngx_sort True cmp base) = mset base \<and>
    (\<forall>k. ok k \<longrightarrow> filter (same k) (ngx_sort True cmp base) = filter (same k) base)"
proof (cases base)
  case (Cons x rest)
  then have "desc [x]" using assms by (simp add: desc_def)
  then show ?thesis using sort_loop_correct [of "[x]" rest] assms Cons by (simp add: ngx_sort_def)
qed (simp add: ngx_sort_def)

end

section \<open>The comparison functions are orders\<close>

fun lexcmp :: "int list \<Rightarrow> int list \<Rightarrow> int" where
  "lexcmp [] [] = 0"
| "lexcmp [] (y # ys) = -1"
| "lexcmp (x # xs) [] = 1"
| "lexcmp (x # xs) (y # ys) = (if x = y then lexcmp xs ys else x - y)"

lemma lexcmp_antisym: "0 < lexcmp xs ys \<longleftrightarrow> lexcmp ys xs < 0"
  by (induction xs ys rule: lexcmp.induct) auto

lemma lexcmp_eq: "lexcmp xs ys = 0 \<longleftrightarrow> xs = ys"
  by (induction xs ys rule: lexcmp.induct) auto

lemma lexcmp_self [simp]: "lexcmp xs xs = 0"
  by (simp add: lexcmp_eq)

lemma lexcmp_trans: "lexcmp xs ys \<le> 0 \<Longrightarrow> lexcmp ys zs \<le> 0 \<Longrightarrow> lexcmp xs zs \<le> 0"
proof (induction xs ys arbitrary: zs rule: lexcmp.induct)
  case (2 y ys)
  then show ?case by (cases zs) auto
next
  case (4 x xs y ys)
  then show ?case by (cases zs) (auto split: if_splits)
qed auto

text \<open>A comparison with the sign of the lexicographic one is a comparator.\<close>

lemma comparator_by_key:
  assumes "\<And>a b. ok a \<Longrightarrow> ok b \<Longrightarrow> sgn (cmp a b) = sgn (lexcmp (key a) (key b))"
  shows "comparator cmp ok"
proof
  have pos: "0 < cmp a b \<longleftrightarrow> 0 < lexcmp (key a) (key b)" "cmp a b < 0 \<longleftrightarrow> lexcmp (key a) (key b) < 0"
      "cmp a b \<le> 0 \<longleftrightarrow> lexcmp (key a) (key b) \<le> 0" if "ok a" "ok b" for a b
    using assms [OF that] by (auto simp: sgn_if split: if_splits)
  show "0 < cmp x y \<longleftrightarrow> cmp y x < 0" if "ok x" "ok y" for x y
    using that lexcmp_antisym [of "key x" "key y"] by (simp add: pos)
  show "cmp x z \<le> 0" if "ok x" "ok y" "ok z" "cmp x y \<le> 0" "cmp y z \<le> 0" for x y z
    using that lexcmp_trans [of "key x" "key y" "key z"] by (simp add: pos)
qed

lemma uint_byte_eq [simp]: "uint x = uint y \<longleftrightarrow> x = y" "uint x = 0 \<longleftrightarrow> x = 0" for x y :: u_char
  by (simp_all add: word_uint_eq_iff)

lemma uint_0_less: "c \<noteq> 0 \<Longrightarrow> 0 < uint (c :: u_char)"
  by (metis uint_0_iff uint_ge_0 order_less_le)

definition path_key :: "u_char \<Rightarrow> int" where
  "path_key c = uint (path_char c)"

lemma filename_lex:
  assumes "0 \<notin> set a" "0 \<notin> set b" "min (length a) (length b) < n"
  shows "\<exists>d. ngx_filename_cmp (a @ [0]) (b @ [0]) n = Some d \<and> sgn d = sgn (lexcmp (map path_key a) (map path_key b))"
  using assms
proof (induction a arbitrary: b n)
  case Nil
  then obtain n' where n: "n = Suc n'" by (cases n) auto
  then show ?case using Nil uint_0_less [of "hd b"] by (cases b) auto
next
  case (Cons x a)
  then obtain n' where n: "n = Suc n'" by (cases n) auto
  show ?case
  proof (cases b)
    case Nil
    then show ?thesis using n Cons.prems uint_0_less [of x] by auto
  next
    case (Cons y b')
    have "path_key x = path_key y \<longleftrightarrow> x = y" if "x \<noteq> 0" "y \<noteq> 0"
      using that by (auto simp: path_key_def path_char_def split: if_splits)
    then show ?thesis using Cons.IH [of b' n'] Cons.prems \<open>b = y # b'\<close> n by (auto simp: path_key_def)
  qed
qed

text \<open>Names compared as \<^verbatim>\<open>ngx_http_cmp_locations\<close> compares them, up to the zero of the shorter one.\<close>

definition name_cmp :: "u_char list \<Rightarrow> u_char list \<Rightarrow> int" where
  "name_cmp a b = the (ngx_filename_cmp (a @ [0]) (b @ [0]) (min (length a) (length b) + 1))"

interpretation names: comparator name_cmp "\<lambda>a. 0 \<notin> set a"
proof (rule comparator_by_key [where key = "map path_key"])
  fix a b :: "u_char list" assume "0 \<notin> set a" "0 \<notin> set b"
  then show "sgn (name_cmp a b) = sgn (lexcmp (map path_key a) (map path_key b))"
    using filename_lex [of a b "min (length a) (length b) + 1"] by (auto simp: name_cmp_def)
qed

definition dns_key :: "u_char \<Rightarrow> int" where
  "dns_key c = uint (dns_char (ngx_tolower c))"

lemma tolower_zero: "ngx_tolower c = 0 \<longleftrightarrow> c = 0"
  by (rule byte_all [where c = c]) code_simp

lemma uint_space: "uint c = 32 \<longleftrightarrow> c = 0x20" for c :: u_char
  by (auto simp: word_uint_eq_iff)

lemma dns_key_inj:
  assumes "x \<noteq> 0x20" "y \<noteq> 0x20"
  shows "dns_key x = dns_key y \<longleftrightarrow> ngx_tolower x = ngx_tolower y"
proof -
  have lower: "ngx_tolower c = 0x20 \<longleftrightarrow> c = 0x20" for c by (rule byte_all [where c = c]) code_simp
  show ?thesis using assms lower [of x] lower [of y] unfolding dns_key_def dns_char_def 
    by (cases "ngx_tolower x = 0x2e"; cases "ngx_tolower y = 0x2e") (simp_all add: uint_space)
qed

lemma dns_key_pos: "c \<noteq> 0 \<longrightarrow> 0 < dns_key c"
  by (rule byte_all [where c = c]) code_simp

lemma dns_lex:
  assumes "0 \<notin> set a" "0 \<notin> set b" "0x20 \<notin> set a" "0x20 \<notin> set b"
  shows "\<exists>d. ngx_dns_strcmp (a @ [0]) (b @ [0]) = Some d \<and> sgn d = sgn (lexcmp (map dns_key a) (map dns_key b))"
  using assms
proof (induction a arbitrary: b)
  case Nil
  have "ngx_tolower 0 = 0" "dns_char 0 = 0" by (simp_all add: ngx_tolower_def dns_char_def)
  then show ?case using Nil dns_key_pos [of "hd b"] tolower_zero [of "hd b"]
    by (cases b) (auto simp: Let_def dns_key_def sgn_if)
next
  case (Cons x a)
  have z: "ngx_tolower 0 = 0" "dns_char 0 = 0" by (simp_all add: ngx_tolower_def dns_char_def)
  show ?case
  proof (cases b)
    case Nil
    then show ?thesis using Cons.prems z dns_key_pos [of x] tolower_zero [of x] by (auto simp: Let_def dns_key_def sgn_if)
  next
    case (Cons y b')
    then show ?thesis using Cons.IH [of b'] Cons.prems dns_key_inj [of x y] tolower_zero [of x] \<open>b = y # b'\<close>
      by (auto simp: Let_def dns_key_def)
  qed
qed

definition dns_cmp :: "u_char list \<Rightarrow> u_char list \<Rightarrow> int" where
  "dns_cmp a b = the (ngx_dns_strcmp (a @ [0]) (b @ [0]))"

interpretation dns: comparator dns_cmp "\<lambda>a. 0 \<notin> set a \<and> 0x20 \<notin> set a"
proof (rule comparator_by_key [where key = "map dns_key"])
  fix a b :: "u_char list" assume "0 \<notin> set a \<and> 0x20 \<notin> set a" "0 \<notin> set b \<and> 0x20 \<notin> set b"
  then show "sgn (dns_cmp a b) = sgn (lexcmp (map dns_key a) (map dns_key b))"
    using dns_lex [of a b] by (auto simp: dns_cmp_def)
qed

lemma memcmp_lex:
  "\<exists>d. ngx_memcmp a b (min (length a) (length b)) = Some d \<and>
     (d = 0 \<longrightarrow> take (min (length a) (length b)) a = take (min (length a) (length b)) b) \<and>
     (d \<noteq> 0 \<longrightarrow> sgn d = sgn (lexcmp (map uint a) (map uint b)))"
proof (induction a arbitrary: b)
  case (Cons x a)
  show ?case
  proof (cases b)
    case (Cons y b')
    then show ?thesis using Cons.IH [of b'] by auto
  qed simp
qed simp

lemma lexcmp_prefix: "lexcmp xs (xs @ y # ys) = -1" "lexcmp (xs @ y # ys) xs = 1"
  by (induction xs) auto

lemma memn2cmp_lex: "\<exists>d. ngx_memn2cmp a b (length a) (length b) = Some d \<and> sgn d = sgn (lexcmp (map uint a) (map uint b))"
proof -
  obtain d where d: "ngx_memcmp a b (min (length a) (length b)) = Some d"
    "d = 0 \<longrightarrow> take (min (length a) (length b)) a = take (min (length a) (length b)) b"
    "d \<noteq> 0 \<longrightarrow> sgn d = sgn (lexcmp (map uint a) (map uint b))" using memcmp_lex [of a b] by blast
  consider "length a = length b" | "length a < length b" | "length b < length a" by linarith
  then show ?thesis
  proof cases
    case 1
    then show ?thesis using d by (cases "d = 0") (auto simp: ngx_memn2cmp_def lexcmp_eq)
  next
    case 2
    have "b = a @ drop (length a) b" if "d = 0" using d(2) that 2 by (metis append_take_drop_id min.absorb3 take_all_iff order_refl)
    moreover obtain y ys where "drop (length a) b = y # ys" using 2 by (cases "drop (length a) b") auto
    ultimately have "lexcmp (map uint a) (map uint b) = -1" if "d = 0" using that lexcmp_prefix(1) by (metis list.simps(9) map_append)
    then show ?thesis using d 2 by (cases "d = 0") (auto simp: ngx_memn2cmp_def)
  next
    case 3
    have "a = b @ drop (length b) a" if "d = 0" using d(2) that 3 by (metis append_take_drop_id min.absorb4 take_all_iff order_refl)
    moreover obtain y ys where "drop (length b) a = y # ys" using 3 by (cases "drop (length b) a") auto
    ultimately have "lexcmp (map uint a) (map uint b) = 1" if "d = 0" using that lexcmp_prefix(2) by (metis list.simps(9) map_append)
    then show ?thesis using d 3 by (cases "d = 0") (auto simp: ngx_memn2cmp_def)
  qed
qed

definition bytes_cmp :: "u_char list \<Rightarrow> u_char list \<Rightarrow> int" where
  "bytes_cmp a b = the (ngx_memn2cmp a b (length a) (length b))"

interpretation mem2: comparator bytes_cmp "\<lambda>a. True"
  by (rule comparator_by_key [where key = "map uint"]) (metis bytes_cmp_def memn2cmp_lex option.sel)

text \<open>
  C27: With a comparator that is a total preorder, and the memory for one element, the sort gives a sorted
  permutation of its input in which elements that compare equal keep their order; without the memory it
  leaves the array as it was.
\<close>

theorem ngx_sort_correct:
  assumes "\<And>x y. 0 < cmp x y \<longleftrightarrow> cmp y x < 0" "\<And>x y z. cmp x y \<le> 0 \<Longrightarrow> cmp y z \<le> 0 \<Longrightarrow> cmp x z \<le> 0"
  shows "sorted_wrt (\<lambda>x y. cmp x y \<le> 0) (ngx_sort True cmp base) \<and> mset (ngx_sort True cmp base) = mset base \<and>
    filter (\<lambda>x. cmp k x = 0 \<and> cmp x k = 0) (ngx_sort True cmp base) = filter (\<lambda>x. cmp k x = 0 \<and> cmp x k = 0) base \<and>
    ngx_sort False cmp base = base"
proof -
  have c: "comparator cmp (\<lambda>x. True)" using assms by unfold_locales blast+
  have "comparator.same cmp k = (\<lambda>x. cmp k x = 0 \<and> cmp x k = 0)" by (rule ext) (simp add: comparator.same_def [OF c])
  moreover have "ngx_sort False cmp base = base" by (simp add: ngx_sort_def)
  ultimately show ?thesis using comparator.ngx_sort_stable [OF c, of base] by metis
qed

theorem ngx_sort_correct_witness:
  "sorted_wrt (\<lambda>x y. bytes_cmp x y \<le> 0) (ngx_sort True bytes_cmp [bytes ''b'', bytes ''ab'', bytes ''a'']) \<and>
     mset (ngx_sort True bytes_cmp [bytes ''b'', bytes ''ab'', bytes ''a'']) = mset [bytes ''a'', bytes ''ab'', bytes ''b''] \<and>
     ngx_sort False bytes_cmp [bytes ''b'', bytes ''a''] = [bytes ''b'', bytes ''a'']"
proof -
  let ?l = "[bytes ''b'', bytes ''ab'', bytes ''a'']" and ?same = "\<lambda>x. bytes_cmp [] x = 0 \<and> bytes_cmp x [] = 0"
  have "sorted_wrt (\<lambda>x y. bytes_cmp x y \<le> 0) (ngx_sort True bytes_cmp l) \<and> mset (ngx_sort True bytes_cmp l) = mset l \<and>
      filter ?same (ngx_sort True bytes_cmp l) = filter ?same l \<and> ngx_sort False bytes_cmp l = l" for l
    by (rule ngx_sort_correct) (use mem2.cmp_antisym mem2.cmp_trans in blast)+
  from this [of ?l] this [of "[bytes ''b'', bytes ''a'']"] show ?thesis by simp
qed

section \<open>Searching\<close>

lemma strncasecmp_equal:
  assumes "length s2 = n" "n \<le> length s1" "0 \<notin> set s2"
  shows "\<exists>d. ngx_strncasecmp s1 s2 n = Some d \<and> (d = 0 \<longleftrightarrow> map ngx_tolower (take n s1) = map ngx_tolower s2)"
  using assms
proof (induction s1 s2 n rule: ngx_strncasecmp.induct)
  case (2 c1 s1 c2 s2 n)
  then show ?case using tolower_zero [of c2] by (auto simp: Let_def)
qed auto

definition occurs :: "u_char list \<Rightarrow> u_char list \<Rightarrow> nat \<Rightarrow> bool" where
  "occurs s w i \<longleftrightarrow> map ngx_tolower (take (length w) (drop i s)) = map ngx_tolower w"

lemma find_upt_Suc: "List.find P [0..<Suc k] = (if P 0 then Some 0 else map_option Suc (List.find (\<lambda>i. P (Suc i)) [0..<k]))"
proof -
  have "[0..<Suc k] = 0 # map Suc [0..<k]" by (simp only: map_Suc_upt upt_conv_Cons [OF zero_less_Suc])
  moreover have "List.find P (map Suc xs) = map_option Suc (List.find (\<lambda>i. P (Suc i)) xs)" for xs
    by (induction xs) auto
  ultimately show ?thesis by simp
qed

text \<open>The search gives the first place before \<open>lst\<close> where the word occurs, the case ignored.\<close>

lemma strlcasestrn_first:
  assumes "length s2 = n" "0 \<notin> set s2" "lst \<le> int (length s)"
  shows "ngx_strlcasestrn s lst c2 s2 n = Some (List.find (occurs s (c2 # s2)) [0..<nat (lst - int n)])"
  using assms(3)
proof (induction s arbitrary: lst)
  case Nil
  then show ?case by simp
next
  case (Cons c s)
  show ?case
  proof (cases "0 \<ge> lst - int n")
    case False
    define k where "k = nat (lst - 1 - int n)"
    have k: "nat (lst - int n) = Suc k" using False by (simp add: k_def)
    have "n \<le> length s" using False Cons.prems by simp
    then obtain d where d: "ngx_strncasecmp s s2 n = Some d" "d = 0 \<longleftrightarrow> map ngx_tolower (take n s) = map ngx_tolower s2"
      using strncasecmp_equal [OF assms(1) _ assms(2)] by blast
    have occ: "occurs (c # s) (c2 # s2) 0 \<longleftrightarrow> ngx_tolower c = ngx_tolower c2 \<and> d = 0"
      using d(2) assms(1) by (auto simp: occurs_def)
    have shift: "occurs (c # s) (c2 # s2) (Suc i) = occurs s (c2 # s2) i" for i by (simp add: occurs_def)
    have ih: "ngx_strlcasestrn s (lst - 1) c2 s2 n = Some (List.find (occurs s (c2 # s2)) [0..<k])"
      using Cons.IH [of "lst - 1"] Cons.prems by (simp add: k_def)
    show ?thesis unfolding k find_upt_Suc occ shift using False ih d(1) by simp
  qed simp
qed

section \<open>UTF-8 sequences\<close>

text \<open>The encoding of a character of two, three and four bytes.\<close>

definition utf8_encode :: "32 word \<Rightarrow> u_char list" where
  "utf8_encode u =
     (if u < 0x800 then [ucast (0xc0 OR drop_bit 6 u), ucast (0x80 OR (u AND 0x3f))]
      else if u < 0x10000 then
        [ucast (0xe0 OR drop_bit 12 u), ucast (0x80 OR (drop_bit 6 u AND 0x3f)), ucast (0x80 OR (u AND 0x3f))]
      else
        [ucast (0xf0 OR drop_bit 18 u), ucast (0x80 OR (drop_bit 12 u AND 0x3f)),
         ucast (0x80 OR (drop_bit 6 u AND 0x3f)), ucast (0x80 OR (u AND 0x3f))])"

lemma utf8_tail: "ucast ((ucast (0x80 OR (w AND 0x3f)) :: u_char) AND 0x3f) = w AND (0x3f :: 32 word)" for w :: "32 word"
proof -
  have "(0x3f :: u_char) = mask 6" "(0x80 :: 32 word) = push_bit 7 (mask 1)" "(0x3f :: 32 word) = mask 6"
    by (simp_all add: mask_eq_exp_minus_1)
  then show ?thesis by (intro bit_word_eqI) (auto simp only: bit_simps, auto)
qed

lemma utf8_tail_high: "\<not> ucast (0x80 OR (w AND 0x3f)) < (0x80 :: u_char)" for w :: "32 word"
proof -
  have "\<not> c < 0x80 \<longleftrightarrow> bit c 7" for c :: u_char by (rule byte_all [where c = c]) code_simp
  moreover have "bit (0x80 :: 32 word) 7" by simp
  ultimately show ?thesis by (simp add: bit_simps)
qed

lemma utf8_join: "push_bit 6 (drop_bit 6 w) OR (w AND 0x3f) = (w :: 32 word)"
proof -
  have "(0x3f :: 32 word) = mask 6" by (simp add: mask_eq_exp_minus_1)
  then show ?thesis by (intro bit_word_eqI) (auto simp only: bit_simps, auto)
qed

lemma utf8_rest_encoded: "utf8_rest (Suc len) (drop_bit 6 w) (ucast (0x80 OR (w AND 0x3f)) # p) = utf8_rest len w p"
  using utf8_tail_high [of w] by (simp add: utf8_tail utf8_join)

lemma byte_of_small:
  assumes "x < (0x100 :: 32 word)"
  obtains b :: u_char where "x = ucast b"
proof -
  have "unat (ucast (ucast x :: u_char) :: 32 word) = unat x"
    using assms by (simp add: unsigned_ucast_eq take_bit_eq_mod unat_mod_distrib word_less_nat_alt)
  then have "x = ucast (ucast x :: u_char)" by (metis unsigned_word_eqI)
  then show ?thesis using that by blast
qed

lemma ucast_or: "(ucast ((c :: 32 word) OR ucast (b :: u_char)) :: u_char) = ucast c OR b"
  by (intro bit_word_eqI) (auto simp: bit_simps)

text \<open>The first bytes.\<close>

lemma utf8_lead2: "2 \<le> b \<and> b < 32 \<longrightarrow> utf8_lead (0xc0 OR b) = Some (ucast b, 0x7f, 1)"
  by (rule byte_all [where c = b]) code_simp

lemma utf8_lead3: "b < 16 \<longrightarrow> utf8_lead (0xe0 OR b) = Some (ucast b, 0x7ff, 2)"
  by (rule byte_all [where c = b]) code_simp

lemma utf8_lead4: "b < 8 \<longrightarrow> utf8_lead (0xf0 OR b) = Some (ucast b, 0xffff, 3)"
  by (rule byte_all [where c = b]) code_simp

lemma unat_drop_bit: "unat (drop_bit n u) = unat u div 2 ^ n" for u :: "32 word"
  unfolding unat_drop_bit_eq by (simp add: drop_bit_eq_div)

text \<open>The number of bytes is compared with the length as an unsigned number.\<close>

lemma enough_bytes: "0 < n \<Longrightarrow> n < 2 ^ 64 \<Longrightarrow> (int n - 1) mod 2 ^ 64 < int k \<longleftrightarrow> n < Suc k"
  by (simp add: of_nat_diff [symmetric]) auto

lemma utf8_decode_encoded:
  assumes "utf8_lead c = Some (w, valid, len)" "utf8_rest len w p = Some (Some u, rest)" "valid < u" "0 < n" "n < 2 ^ 64"
  shows "ngx_utf8_decode (c # p) n = (if Suc len \<le> n then Some (u, rest) else Some (0xfffffffe, c # p))"
proof -
  have cond: "((int n - 1) mod 2 ^ 64 < int len) = (\<not> Suc len \<le> n)" 
    unfolding enough_bytes [OF assms(4,5)] by (rule not_le [symmetric])
  show ?thesis unfolding ngx_utf8_decode_def list.case assms(1) option.case prod.case assms(2) cond using assms(3) by simp
qed

lemma lead_byte:
  fixes x c :: "32 word"
  assumes "x < 0x100"
  obtains b :: u_char where "x = ucast b" "unat b = unat x" "ucast (c OR x) = (ucast c OR b :: u_char)"
proof -
  obtain b :: u_char where b: "x = ucast b" using byte_of_small [OF assms] by blast
  have "unat (ucast b :: 32 word) = unat b" 
    using unsigned_less [of b, where ?'a = nat] by (simp add: unsigned_ucast_eq take_bit_nat_eq_self)
  then show ?thesis using that [of b] b ucast_or [of c b] by simp
qed

lemma utf8_encoded_decodes:
  assumes "0x80 \<le> u" "u \<le> 0x10ffff" "0 < n" "n < 2 ^ 64"
  shows "ngx_utf8_decode (utf8_encode u @ rest) n =
    (if length (utf8_encode u) \<le> n then Some (u, rest) else Some (0xfffffffe, utf8_encode u @ rest))"
proof -
  have un: "0x80 \<le> unat u" "unat u \<le> 0x10ffff" using assms(1,2) by (simp_all add: word_le_nat_alt)
  have drop6: "drop_bit 6 (drop_bit k u) = drop_bit (k + 6) u" for k by (simp add: drop_bit_drop_bit add.commute)
  consider "u < 0x800" | "\<not> u < 0x800" "u < 0x10000" | "\<not> u < 0x800" "\<not> u < 0x10000" by blast
  then show ?thesis
  proof cases
    case 1
    then have lt: "unat (drop_bit 6 u) < 32" "2 \<le> unat (drop_bit 6 u)" using un by (simp_all add: word_less_nat_alt unat_drop_bit)
    obtain b :: u_char where b: "drop_bit 6 u = ucast b" "unat b = unat (drop_bit 6 u)" "ucast (0xc0 OR drop_bit 6 u) = (0xc0 OR b :: u_char)"
      using lead_byte [of "drop_bit 6 u" "0xc0"] lt(1) by (auto simp: word_less_nat_alt)
    have "utf8_lead (0xc0 OR b) = Some (drop_bit 6 u, 0x7f, 1)" using utf8_lead2 [of b] b lt by (simp add: word_less_nat_alt word_le_nat_alt)
    moreover have "utf8_rest 1 (drop_bit 6 u) (ucast (0x80 OR (u AND 0x3f)) # rest) = Some (Some u, rest)"
      using utf8_rest_encoded [of 0 u rest] by simp
    moreover have "0x7f < u" using un by (simp add: word_less_nat_alt)
    ultimately show ?thesis using utf8_decode_encoded [OF _ _ _ assms(3,4)] 1 b(3) by (simp add: utf8_encode_def numeral_2_eq_2)
  next
    case 2
    then have lt: "unat (drop_bit 12 u) < 16" by (simp add: word_less_nat_alt unat_drop_bit)
    obtain b :: u_char where b: "drop_bit 12 u = ucast b" "unat b = unat (drop_bit 12 u)" "ucast (0xe0 OR drop_bit 12 u) = (0xe0 OR b :: u_char)"
      using lead_byte [of "drop_bit 12 u" "0xe0"] lt by (auto simp: word_less_nat_alt)
    have "utf8_lead (0xe0 OR b) = Some (drop_bit 12 u, 0x7ff, 2)" using utf8_lead3 [of b] b lt by (simp add: word_less_nat_alt)
    moreover have "utf8_rest 2 (drop_bit 12 u) (ucast (0x80 OR (drop_bit 6 u AND 0x3f)) # ucast (0x80 OR (u AND 0x3f)) # rest) = Some (Some u, rest)"
      using utf8_rest_encoded [of 1 "drop_bit 6 u" "ucast (0x80 OR (u AND 0x3f)) # rest"] utf8_rest_encoded [of 0 u rest]
      by (simp add: drop6 numeral_2_eq_2 del: utf8_rest.simps(3))
    moreover have "0x7ff < u" using 2 by (simp add: word_less_nat_alt)
    ultimately show ?thesis using utf8_decode_encoded [OF _ _ _ assms(3,4)] 2 b(3) by (simp add: utf8_encode_def numeral_3_eq_3)
  next
    case 3
    then have lt: "unat (drop_bit 18 u) < 8" using un by (simp add: word_less_nat_alt unat_drop_bit)
    obtain b :: u_char where b: "drop_bit 18 u = ucast b" "unat b = unat (drop_bit 18 u)" "ucast (0xf0 OR drop_bit 18 u) = (0xf0 OR b :: u_char)"
      using lead_byte [of "drop_bit 18 u" "0xf0"] lt by (auto simp: word_less_nat_alt)
    have "utf8_lead (0xf0 OR b) = Some (drop_bit 18 u, 0xffff, 3)" using utf8_lead4 [of b] b lt by (simp add: word_less_nat_alt)
    moreover have "utf8_rest 3 (drop_bit 18 u) (ucast (0x80 OR (drop_bit 12 u AND 0x3f)) # ucast (0x80 OR (drop_bit 6 u AND 0x3f)) #
        ucast (0x80 OR (u AND 0x3f)) # rest) = Some (Some u, rest)"
      using utf8_rest_encoded [of 2 "drop_bit 12 u" "ucast (0x80 OR (drop_bit 6 u AND 0x3f)) # ucast (0x80 OR (u AND 0x3f)) # rest"]
        utf8_rest_encoded [of 1 "drop_bit 6 u" "ucast (0x80 OR (u AND 0x3f)) # rest"] utf8_rest_encoded [of 0 u rest]
      by (simp add: drop6 numeral_3_eq_3 numeral_2_eq_2 del: utf8_rest.simps(3))
    moreover have "0xffff < u" using 3 by (simp add: word_less_nat_alt)
    ultimately show ?thesis using utf8_decode_encoded [OF _ _ _ assms(3,4)] 3 b(3) by (simp add: utf8_encode_def)
  qed
qed

text \<open>
  C28: decoding the encoding of any character from 0x80 to 0x10ffff gives the character and the position
  after it, when the whole sequence is within the bytes available; when it is not, the decoder
  says so without moving.
\<close>

theorem utf8_roundtrip:
  assumes "0x80 \<le> u" "u \<le> 0x10ffff" "0 < n" "n < 2 ^ 64"
  shows "ngx_utf8_decode (utf8_encode u @ rest) n =
    (if length (utf8_encode u) \<le> n then Some (u, rest) else Some (0xfffffffe, utf8_encode u @ rest))"
  by (rule utf8_encoded_decodes [OF assms])

theorem utf8_roundtrip_witness:
  "ngx_utf8_decode [0xe2, 0x82, 0xac, 0x21] 4 = Some (0x20ac, [0x21])"
proof -
  have "utf8_encode 0x20ac = [0xe2, 0x82, 0xac]" by code_simp
  then show ?thesis using utf8_roundtrip [of "0x20ac" 4 "[0x21]"] by simp
qed

text \<open>
  The decoder does not check that the bytes that follow have the form of continuation bytes: a byte
  of 0xc0 or more is taken for one, and the same character is obtained from a sequence that is not
  valid UTF-8.
\<close>

theorem utf8_accepts_bad_continuation:
  "ngx_utf8_decode [0xc3, 0xff] 2 = Some (0xff, []) \<and> utf8_encode 0xff = [0xc3, 0xbf] \<and>
   ngx_utf8_decode [0xc3, 0xbf] 2 = Some (0xff, [])"
  by code_simp

end
