(* ===== verification/Ngx_Request_Uri.thy ===== *)
theory Ngx_Request_Uri
  imports Ngx_Complex_Uri Ngx_Escape Ngx_String
begin

text \<open>
  The URI of a request and its arguments: the check of a URI that comes without a request line
  (\<^verbatim>\<open>ngx_http_parse_uri\<close>), the decision whether it has to be normalised
  (\<^verbatim>\<open>ngx_http_process_request_uri\<close> of src/nginx/src/http/ngx_http_request.c), and the test of URIs from
  other sources (\<^verbatim>\<open>ngx_http_parse_unsafe_uri\<close>), all but the second of src/nginx/src/http/ngx_http_parse.c.

  A URI is the list of its bytes, pointers into it are offsets.
\<close>

section \<open>Checking a URI\<close>

datatype pu_state = pu_start | pu_after_slash_in_uri | pu_check_uri | pu_uri

record uri_request =
  ur_complex :: bool
  ur_quoted :: bool
  ur_plus :: bool
  ur_ext :: "nat option"
  ur_args_start :: "nat option"

definition pu_other :: "pu_state \<Rightarrow> u_char \<Rightarrow> uri_request \<Rightarrow> (pu_state \<times> uri_request) option" where
  "pu_other s ch r = (if ch \<le> 0x20 \<or> ch = 0x7f then None else Some (s, r))"

definition pu_after_slash_step :: "nat \<Rightarrow> u_char \<Rightarrow> uri_request \<Rightarrow> (pu_state \<times> uri_request) option" where
  "pu_after_slash_step p ch r =
     (if is_usual ch then Some (pu_check_uri, r)
      else if ch = 0x2e then Some (pu_uri, r\<lparr>ur_complex := True\<rparr>)
      else if ch = 0x25 then Some (pu_uri, r\<lparr>ur_quoted := True\<rparr>)
      else if ch = 0x2f then Some (pu_uri, r\<lparr>ur_complex := True\<rparr>)
      else if ch = 0x3f then Some (pu_uri, r\<lparr>ur_args_start := Some (p + 1)\<rparr>)
      else if ch = 0x23 then Some (pu_uri, r\<lparr>ur_complex := True\<rparr>)
      else if ch = 0x2b then Some (pu_after_slash_in_uri, r\<lparr>ur_plus := True\<rparr>)
      else pu_other pu_check_uri ch r)"

definition pu_check_step :: "nat \<Rightarrow> u_char \<Rightarrow> uri_request \<Rightarrow> (pu_state \<times> uri_request) option" where
  "pu_check_step p ch r =
     (if is_usual ch then Some (pu_check_uri, r)
      else if ch = 0x2f then Some (pu_after_slash_in_uri, r\<lparr>ur_ext := None\<rparr>)
      else if ch = 0x2e then Some (pu_check_uri, r\<lparr>ur_ext := Some (p + 1)\<rparr>)
      else if ch = 0x25 then Some (pu_uri, r\<lparr>ur_quoted := True\<rparr>)
      else if ch = 0x3f then Some (pu_uri, r\<lparr>ur_args_start := Some (p + 1)\<rparr>)
      else if ch = 0x23 then Some (pu_uri, r\<lparr>ur_complex := True\<rparr>)
      else if ch = 0x2b then Some (pu_check_uri, r\<lparr>ur_plus := True\<rparr>)
      else pu_other pu_check_uri ch r)"

definition pu_uri_step :: "u_char \<Rightarrow> uri_request \<Rightarrow> (pu_state \<times> uri_request) option" where
  "pu_uri_step ch r =
     (if is_usual ch then Some (pu_uri, r)
      else if ch = 0x23 then Some (pu_uri, r\<lparr>ur_complex := True\<rparr>)
      else pu_other pu_uri ch r)"

definition pu_step :: "nat \<Rightarrow> pu_state \<Rightarrow> u_char \<Rightarrow> uri_request \<Rightarrow> (pu_state \<times> uri_request) option" where
  "pu_step p s ch r =
     (case s of
        pu_start \<Rightarrow> (if ch \<noteq> 0x2f then None else Some (pu_after_slash_in_uri, r))
      | pu_after_slash_in_uri \<Rightarrow> pu_after_slash_step p ch r
      | pu_check_uri \<Rightarrow> pu_check_step p ch r
      | pu_uri \<Rightarrow> pu_uri_step ch r)"

fun parse_uri_loop :: "nat \<Rightarrow> pu_state \<Rightarrow> u_char list \<Rightarrow> uri_request \<Rightarrow> uri_request option" where
  "parse_uri_loop p s [] r = Some r"
| "parse_uri_loop p s (ch # uri) r =
     (case pu_step p s ch r of None \<Rightarrow> None | Some (s', r') \<Rightarrow> parse_uri_loop (p + 1) s' uri r')"

definition ngx_http_parse_uri :: "u_char list \<Rightarrow> uri_request \<Rightarrow> uri_request option" where
  "ngx_http_parse_uri uri r = parse_uri_loop 0 pu_start uri r"

definition uri_init :: uri_request where
  "uri_init = \<lparr>ur_complex = False, ur_quoted = False, ur_plus = False, ur_ext = None, ur_args_start = None\<rparr>"

section \<open>Processing the URI\<close>

record processed_uri =
  pr_uri :: "u_char list"
  pr_exten :: "u_char list option"
  pr_args :: "u_char list"
  pr_unparsed :: "u_char list"
  pr_valid_unparsed :: bool
  pr_quoted :: bool
  pr_plus :: bool

definition process_args :: "u_char list \<Rightarrow> nat option \<Rightarrow> u_char list" where
  "process_args uri astart = (case astart of None \<Rightarrow> [] | Some a \<Rightarrow> if length uri > a then drop a uri else [])"

text \<open>None is an error; \<open>alloc\<close> tells whether \<^verbatim>\<open>ngx_pnalloc\<close> gets the memory for the normalised URI.\<close>

definition ngx_http_process_request_uri ::
    "bool \<Rightarrow> bool \<Rightarrow> bool \<Rightarrow> u_char list \<Rightarrow> uri_request \<Rightarrow> processed_uri option" where
  "ngx_http_process_request_uri alloc merge_slashes empty_path uri r =
     (if ur_complex r \<or> ur_quoted r \<or> empty_path then
        if \<not> alloc then None else
        (case ngx_http_parse_complex_uri merge_slashes empty_path (ur_plus r) uri of
           None \<Rightarrow> None
         | Some c \<Rightarrow>
             Some \<lparr>pr_uri = cr_uri c, pr_exten = cr_exten c,
                   pr_args = (case cr_args c of Some (a, len) \<Rightarrow> take len (drop a uri) | None \<Rightarrow> process_args uri (cr_args_start c)),
                   pr_unparsed = uri, pr_valid_unparsed = \<not> empty_path, pr_quoted = ur_quoted r \<or> cr_quoted_uri c,
                   pr_plus = cr_plus_in_uri c\<rparr>)
      else
        let len = (case ur_args_start r of Some a \<Rightarrow> a - 1 | None \<Rightarrow> length uri)
        in Some \<lparr>pr_uri = take len uri,
                 pr_exten = map_option (\<lambda>e. take (len - e) (drop e uri)) (ur_ext r),
                 pr_args = process_args uri (ur_args_start r),
                 pr_unparsed = uri, pr_valid_unparsed = True, pr_quoted = ur_quoted r, pr_plus = ur_plus r\<rparr>)"

section \<open>The fast path agrees with normalisation\<close>

lemma pu_flags_mono:
  "pu_step p s ch r = Some (s', r') \<Longrightarrow> (ur_complex r \<longrightarrow> ur_complex r') \<and> (ur_quoted r \<longrightarrow> ur_quoted r')"
  by (cases s) (auto simp: pu_step_def pu_after_slash_step_def pu_check_step_def pu_uri_step_def pu_other_def split: if_splits)

lemma parse_uri_flags_mono:
  "parse_uri_loop p s uri r = Some r' \<Longrightarrow> (ur_complex r \<longrightarrow> ur_complex r') \<and> (ur_quoted r \<longrightarrow> ur_quoted r')"
proof (induction p s uri r rule: parse_uri_loop.induct)
  case (2 p s ch uri r)
  then obtain s1 r1 where st: "pu_step p s ch r = Some (s1, r1)" "parse_uri_loop (p + 1) s1 uri r1 = Some r'"
    by (auto split: option.splits)
  then show ?case using 2(1) [OF st(1) refl st(2)] pu_flags_mono [OF st(1)] by auto
qed simp

text \<open>Arguments: nothing changes, and there is no fragment.\<close>

lemma parse_uri_args:
  assumes "parse_uri_loop p pu_uri uri r = Some r'" "\<not> ur_complex r'"
  shows "ur_ext r' = ur_ext r \<and> ur_args_start r' = ur_args_start r \<and> ur_plus r' = ur_plus r \<and> 0x23 \<notin> set uri"
  using assms
proof (induction uri arbitrary: p r)
  case (Cons ch uri)
  then obtain s1 r1 where st: "pu_step p pu_uri ch r = Some (s1, r1)" "parse_uri_loop (p + 1) s1 uri r1 = Some r'"
    by (auto split: option.splits)
  have "\<not> ur_complex r1" using parse_uri_flags_mono [OF st(2)] Cons.prems(2) by blast
  then have "s1 = pu_uri" "r1 = r" "ch \<noteq> 0x23"
    using st(1) usual_char [of ch] by (auto simp: pu_step_def pu_uri_step_def pu_other_def split: if_splits)
  then show ?case using Cons.IH [OF st(2) [unfolded \<open>s1 = pu_uri\<close>] Cons.prems(2)] by simp
qed simp

lemma args_scan_none: "0x23 \<notin> set rest \<Longrightarrow> cu_args_scan p rest = None"
  by (induction p rest rule: cu_args_scan.induct) auto

text \<open>The two automata side by side: after the prefix \<open>w\<close> the normalisation has copied it.\<close>

definition corr :: "bool \<Rightarrow> u_char list \<Rightarrow> uri_request \<Rightarrow> cu_request \<Rightarrow> bool" where
  "corr b w r c \<longleftrightarrow> cu_out c = w \<and> cu_uri_ext c = ur_ext r \<and> cu_plus_in_uri c = (ur_plus r \<or> b) \<and> cu_args_start c = None \<and> ur_args_start r = None \<and>
     \<not> cu_quoted_uri c"

definition corr_state :: "pu_state \<Rightarrow> cu_state \<Rightarrow> bool" where
  "corr_state s cs \<longleftrightarrow> s = pu_check_uri \<and> cs = cu_usual \<or> s = pu_after_slash_in_uri \<and> (cs = cu_slash \<or> cs = cu_usual)"

lemma corr_step:
  assumes "pu_step p s ch r = Some (s', r')" "\<not> ur_complex r'" "\<not> ur_quoted r'" "corr_state s cs" "corr b w r c" "length w = p"
  shows "ch = 0x3f \<and> s' = pu_uri \<and> r' = r\<lparr>ur_args_start := Some (p + 1)\<rparr> \<and>
      cu_step m (p + 1) cs q d ch c = CU_args (c\<lparr>cu_args_start := Some (p + 1)\<rparr>) \<or>
    ch \<noteq> 0x3f \<and> ch \<noteq> 0x23 \<and> (\<exists>cs' c'. cu_step m (p + 1) cs q d ch c = CU_next cs' q d c' \<and> corr_state s' cs' \<and> corr b (w @ [ch]) r' c')"
proof -
  have u: "\<not> is_usual 0x3f" "\<not> is_usual 0x23" "\<not> is_usual 0x2f" "\<not> is_usual 0x2e" "\<not> is_usual 0x2b" "\<not> is_usual 0x25"
    using usual_char by auto
  show ?thesis using assms usual_char [of ch] u
    by (cases "is_usual ch") (auto simp: pu_step_def pu_after_slash_step_def pu_check_step_def pu_other_def corr_state_def corr_def
      cu_step_def cu_usual_step_def cu_slash_step_def cu_put_def split: if_splits)
qed

definition agrees :: "bool \<Rightarrow> nat \<Rightarrow> u_char list \<Rightarrow> u_char list \<Rightarrow> uri_request \<Rightarrow> cu_result \<Rightarrow> bool" where
  "agrees b p w xs r res \<longleftrightarrow> cr_uri res = w @ path_part xs \<and> cr_exten res = map_option (\<lambda>e. drop e (w @ path_part xs)) (ur_ext r) \<and>
     cr_args res = None \<and> cr_args_start res = ur_args_start r \<and> cr_plus_in_uri res = (ur_plus r \<or> b) \<and> \<not> cr_quoted_uri res \<and>
     (case ur_args_start r of None \<Rightarrow> path_part xs = xs | Some a \<Rightarrow> a = p + length (path_part xs) + 1 \<and> path_part xs \<noteq> xs)"

lemma lockstep:
  assumes "parse_uri_loop p s (ch # rest) r = Some r'" "\<not> ur_complex r'" "\<not> ur_quoted r'"
    "corr_state s cs" "corr b w r c" "length w = p"
  shows "\<exists>res. cu_loop m (p + 1) cs q d ch rest c = Some res \<and> agrees b p w (ch # rest) r' res"
  using assms
proof (induction rest arbitrary: p s ch r cs w c)
  case Nil
  obtain s1 r1 where st: "pu_step p s ch r = Some (s1, r1)" "parse_uri_loop (p + 1) s1 [] r1 = Some r'"
    using Nil.prems(1) by (auto split: option.splits)
  then have r1: "r1 = r'" by simp
  have fl: "\<not> ur_complex r1" "\<not> ur_quoted r1" using Nil.prems(2,3) r1 by auto
  from corr_step [OF st(1) fl Nil.prems(4-6), of m q d] show ?case
  proof (elim disjE conjE exE)
    fix cs' c' assume "cu_step m (p + 1) cs q d ch c = CU_next cs' q d c'" "corr_state s1 cs'" "corr b (w @ [ch]) r1 c'" "ch \<noteq> 0x3f" "ch \<noteq> 0x23"
    then show ?thesis using r1
      by (subst cu_loop.simps) (auto simp: corr_state_def cu_end_def cu_finish_def corr_def agrees_def path_part_def)
  qed (use Nil.prems(5) r1 in \<open>subst cu_loop.simps, auto simp: cu_args_end_def cu_finish_def corr_def agrees_def path_part_def\<close>)
next
  case (Cons c1 rest)
  obtain s1 r1 where st: "pu_step p s ch r = Some (s1, r1)" "parse_uri_loop (p + 1) s1 (c1 # rest) r1 = Some r'"
    using Cons.prems(1) by (auto split: option.splits)
  have fl: "\<not> ur_complex r1" "\<not> ur_quoted r1" using parse_uri_flags_mono [OF st(2)] Cons.prems(2,3) by auto
  from corr_step [OF st(1) fl Cons.prems(4-6), of m q d] show ?case
  proof (elim disjE conjE exE)
    assume a: "ch = 0x3f" "s1 = pu_uri" "r1 = r\<lparr>ur_args_start := Some (p + 1)\<rparr>"
      "cu_step m (p + 1) cs q d ch c = CU_args (c\<lparr>cu_args_start := Some (p + 1)\<rparr>)"
    have "ur_ext r' = ur_ext r1" "ur_args_start r' = ur_args_start r1" "ur_plus r' = ur_plus r1" "0x23 \<notin> set (c1 # rest)"
      using parse_uri_args [OF st(2) [unfolded a(2)] Cons.prems(2)] by auto
    then show ?thesis using a Cons.prems(5) args_scan_none [of "c1 # rest"]
      by (subst cu_loop.simps) (auto simp: cu_args_end_def cu_finish_def corr_def agrees_def path_part_def)
  next
    fix cs' c' assume n: "cu_step m (p + 1) cs q d ch c = CU_next cs' q d c'" "corr_state s1 cs'" "corr b (w @ [ch]) r1 c'" "ch \<noteq> 0x3f" "ch \<noteq> 0x23"
    from Cons.IH [OF st(2) Cons.prems(2,3) n(2,3)] Cons.prems(6)
    obtain res where "cu_loop m (p + 1 + 1) cs' q d c1 rest c' = Some res" "agrees b (p + 1) (w @ [ch]) (c1 # rest) r' res" by auto
    then show ?thesis using n(1,4,5)
      by (subst cu_loop.simps) (auto simp: agrees_def path_part_def split: option.splits)
  qed
qed

text \<open>
  C21: a URI that the check accepts and does not mark as complex or quoted is used as it is; the
  normalisation would have given the same path, extension, arguments and flags (with the memory it needs, while
  the URI itself needs none).
\<close>

theorem fast_path_agrees:
  assumes "ngx_http_parse_uri uri uri_init = Some r" "\<not> ur_complex r" "\<not> ur_quoted r" "uri \<noteq> []"
  shows "ngx_http_process_request_uri alloc merge_slashes False uri r =
    ngx_http_process_request_uri True merge_slashes False uri (r\<lparr>ur_complex := True\<rparr>)"
proof -
  obtain x where uri: "uri = 0x2f # x" and loop: "parse_uri_loop 1 pu_after_slash_in_uri x uri_init = Some r"
    using assms(1,4) by (cases uri) (auto simp: ngx_http_parse_uri_def pu_step_def split: if_splits)
  let ?c0 = "\<lparr>cu_out = [], cu_uri_ext = None, cu_args_start = None, cu_plus_in_uri = ur_plus r, cu_quoted_uri = False\<rparr>"
  let ?c = "\<lparr>cu_out = [0x2f], cu_uri_ext = None, cu_args_start = None, cu_plus_in_uri = ur_plus r, cu_quoted_uri = False\<rparr>"
  let ?first = "ngx_http_parse_complex_uri merge_slashes False (ur_plus r) uri"
  have first: "?first = (case x of [] \<Rightarrow> cu_end cu_slash ?c | ch # rest \<Rightarrow> cu_loop merge_slashes 2 cu_slash cu_usual 0 ch rest ?c)"
    using usual_char [of "0x2f"]
    by (cases x) (simp_all add: ngx_http_parse_complex_uri_def uri cu_loop.simps [of _ _ cu_usual] cu_step_def cu_usual_step_def
        cu_put_def Let_def numeral_2_eq_2)
  have "\<exists>res. ?first = Some res \<and> agrees (ur_plus r) 1 [0x2f] x r res"
  proof (cases x)
    case Nil
    then show ?thesis using loop
      by (auto simp: first cu_end_def cu_finish_def agrees_def path_part_def uri_init_def)
  next
    case (Cons ch rest)
    have "corr (ur_plus r) [0x2f] uri_init ?c" by (simp add: corr_def uri_init_def)
    from lockstep [OF loop [unfolded Cons] assms(2,3) _ this, of cu_slash merge_slashes cu_usual 0] Cons show ?thesis
      by (auto simp: first corr_state_def numeral_2_eq_2)
  qed
  then obtain res where "?first = Some res" "agrees (ur_plus r) 1 [0x2f] x r res" by blast
  moreover have tk: "take (Suc (length (path_part x))) uri = 0x2f # path_part x"
    by (simp add: uri path_part_def) (metis takeWhile_eq_take)
  moreover have "take (Suc (length (path_part x)) - e) (drop e uri) = drop e (0x2f # path_part x)" for e
    using tk by (metis drop_take)
  moreover have "length uri = Suc (length x)" by (simp add: uri)
  ultimately show ?thesis using assms(2,3)
    by (cases "ur_args_start r") (auto simp: ngx_http_process_request_uri_def agrees_def Let_def)
qed

theorem fast_path_agrees_witness:
  "\<exists>r. ngx_http_parse_uri (bytes ''/a.b?c'') uri_init = Some r \<and>
     ngx_http_process_request_uri False True False (bytes ''/a.b?c'') r =
       ngx_http_process_request_uri True True False (bytes ''/a.b?c'') (r\<lparr>ur_complex := True\<rparr>) \<and>
     map_option pr_uri (ngx_http_process_request_uri False True False (bytes ''/a.b?c'') r) = Some (bytes ''/a.b'')"
proof -
  let ?u = "bytes ''/a.b?c''"
  let ?r = "uri_init\<lparr>ur_ext := Some 3, ur_args_start := Some 5\<rparr>"
  have r: "ngx_http_parse_uri ?u uri_init = Some ?r" by code_simp
  have "ngx_http_process_request_uri False True False ?u ?r = ngx_http_process_request_uri True True False ?u (?r\<lparr>ur_complex := True\<rparr>)"
    by (rule fast_path_agrees [OF r]) (simp_all add: uri_init_def bytes_Cons)
  moreover have "map_option pr_uri (ngx_http_process_request_uri False True False ?u ?r) = Some (bytes ''/a.b'')" by code_simp
  ultimately show ?thesis using r by blast
qed

section \<open>URIs from other sources\<close>

definition ngx_path_separator :: "u_char \<Rightarrow> bool" where
  "ngx_path_separator c \<longleftrightarrow> c = 0x2f"

text \<open>A reference to the parent at the beginning of the text.\<close>

definition leading_dots :: "u_char list \<Rightarrow> bool" where
  "leading_dots p = (case p of a # b # rest \<Rightarrow>
     a = 0x2e \<and> b = 0x2e \<and> (rest = [] \<or> ngx_path_separator (hd rest)) | _ \<Rightarrow> False)"

datatype unsafe_scan = Unsafe | Scanned bool "u_char list option"

text \<open>The loop over the URI as it was given; the arguments end it.\<close>

fun unsafe_loop :: "bool \<Rightarrow> u_char list \<Rightarrow> unsafe_scan" where
  "unsafe_loop quoted [] = Scanned quoted None"
| "unsafe_loop quoted (ch # p) =
     (if ch = 0x25 then unsafe_loop True p
      else if is_usual ch then unsafe_loop quoted p
      else if ch = 0x3f then Scanned quoted (Some p)
      else if ch = 0 then Unsafe
      else if ngx_path_separator ch \<and> leading_dots p then Unsafe
      else unsafe_loop quoted p)"

text \<open>The loop over the unescaped URI.\<close>

fun unsafe_loop2 :: "u_char list \<Rightarrow> bool" where
  "unsafe_loop2 [] = False"
| "unsafe_loop2 (ch # p) = (ch = 0 \<or> ngx_path_separator ch \<and> leading_dots p \<or> unsafe_loop2 p)"

text \<open>The function: an error, or the path and the arguments if there are any. \<open>alloc\<close> tells whether
  \<^verbatim>\<open>ngx_pnalloc\<close> gets the memory for the unescaped path.\<close>

definition ngx_http_parse_unsafe_uri :: "bool \<Rightarrow> u_char list \<Rightarrow> (u_char list \<times> u_char list option) option" where
  "ngx_http_parse_unsafe_uri alloc uri =
     (if uri = [] \<or> hd uri = 0x3f \<or> leading_dots uri then None
      else case unsafe_loop False uri of
             Unsafe \<Rightarrow> None
           | Scanned quoted args \<Rightarrow>
               let path = (case args of None \<Rightarrow> uri | Some a \<Rightarrow> take (length uri - length a - 1) uri)
               in if quoted then
                    if \<not> alloc then None else
                    (let path = fst (ngx_unescape_uri 0 path)
                     in if leading_dots path \<or> unsafe_loop2 path then None else Some (path, args))
                  else Some (path, args))"

lemma leading_dots_segment: "leading_dots p \<longleftrightarrow> hd (split_slash p) = dot_dot"
proof -
  consider "p = []" | a where "p = [a]" | a b rest where "p = a # b # rest" by (metis list.exhaust)
  then show ?thesis
  proof cases
    case 3
    show ?thesis
    proof (cases rest)
      case Nil
      then show ?thesis using 3 by (auto simp: leading_dots_def)
    next
      case (Cons c cs)
      obtain s ss where "split_slash cs = s # ss" by (cases "split_slash cs") auto
      then show ?thesis using 3 Cons by (auto simp: leading_dots_def ngx_path_separator_def)
    qed
  qed (auto simp: leading_dots_def)
qed

lemma split_slash_hd_tl: "split_slash (c # p) = (if c = 0x2f then [] # split_slash p else (c # hd (split_slash p)) # tl (split_slash p))"
  by (cases "split_slash p") auto

lemma split_slash_hd_append: "tl (split_slash w) \<noteq> [] \<Longrightarrow> hd (split_slash (w @ z)) = hd (split_slash w)"
proof (induction w)
  case (Cons c w)
  then show ?case unfolding append_Cons split_slash_hd_tl by (auto split: if_splits)
qed simp

text \<open>The segments of a path that are tested: with arguments behind it, all but the last one.\<close>

definition args_tail :: "u_char list option \<Rightarrow> u_char list" where
  "args_tail args = (case args of None \<Rightarrow> [] | Some a \<Rightarrow> 0x3f # a)"

definition tested :: "u_char list option \<Rightarrow> u_char list list \<Rightarrow> u_char list list" where
  "tested args segs = (if args = None then segs else butlast segs)"

lemma one_segment: "tl (split_slash w) = [] \<Longrightarrow> 0x2f \<notin> set w"
proof (induction w)
  case (Cons c w)
  then show ?case unfolding split_slash_hd_tl by (auto split: if_splits)
qed simp

lemma leading_dots_args:
  assumes "0x3f \<notin> set w"
  shows "leading_dots (w @ args_tail args) \<longleftrightarrow> hd (split_slash w) = dot_dot \<and> (args = None \<or> tl (split_slash w) \<noteq> [])"
proof (cases "args = None \<or> tl (split_slash w) \<noteq> []")
  case True
  then show ?thesis using split_slash_hd_append [of w "args_tail args"] by (auto simp: leading_dots_segment args_tail_def)
next
  case False
  then obtain a where a: "args = Some a" "0x2f \<notin> set w" using one_segment [of w] by auto
  moreover have "hd (z @ 0x3f # a) \<noteq> 0x2f" if "0x2f \<notin> set z" for z using that by (cases z) auto
  ultimately show ?thesis using False
    by (auto simp: leading_dots_def ngx_path_separator_def args_tail_def split: list.splits simp: append_eq_Cons_conv)
qed

lemma tested_Cons: "segs \<noteq> [] \<Longrightarrow>
    x \<in> set (tested args segs) \<longleftrightarrow> hd segs = x \<and> (args = None \<or> tl segs \<noteq> []) \<or> x \<in> set (tested args (tl segs))"
  by (cases segs) (auto simp: tested_def)

text \<open>The first loop, for a path \<open>w\<close> and what follows it.\<close>

lemma unsafe_loop_path:
  "0x3f \<notin> set w \<Longrightarrow> unsafe_loop quoted (w @ args_tail args) =
     (if 0 \<in> set w \<or> dot_dot \<in> set (tested args (tl (split_slash w))) then Unsafe else Scanned (quoted \<or> 0x25 \<in> set w) args)"
proof (induction w arbitrary: quoted)
  case Nil
  have "\<not> is_usual 0x3f" by code_simp
  then show ?case by (cases args) (auto simp: args_tail_def tested_def)
next
  case (Cons ch w)
  have u: "is_usual ch \<longrightarrow> ch \<noteq> 0x2f \<and> ch \<noteq> 0x3f \<and> ch \<noteq> 0 \<and> ch \<noteq> 0x25"
    by (rule byte_all [where c = ch]) code_simp
  have dots: "leading_dots (w @ args_tail args) \<longleftrightarrow> hd (split_slash w) = dot_dot \<and> (args = None \<or> tl (split_slash w) \<noteq> [])"
    using Cons.prems by (intro leading_dots_args) simp
  show ?case
    using Cons.prems u Cons.IH dots tested_Cons [of "split_slash w" dot_dot args] split_slash_hd_tl [of ch w]
    by (auto simp: ngx_path_separator_def simp del: split_slash.simps)
qed

lemma unsafe_loop2_exact: "leading_dots p \<or> unsafe_loop2 p \<longleftrightarrow> 0 \<in> set p \<or> dot_dot \<in> set (split_slash p)"
proof -
  have "unsafe_loop2 p \<longleftrightarrow> 0 \<in> set p \<or> dot_dot \<in> set (tl (split_slash p))"
  proof (induction p)
    case (Cons ch p)
    then show ?case using tested_Cons [of "split_slash p" dot_dot None] split_slash_hd_tl [of ch p]
      by (auto simp: leading_dots_segment ngx_path_separator_def tested_def simp del: split_slash.simps)
  qed simp
  then show ?thesis using tested_Cons [of "split_slash p" dot_dot None] by (auto simp: leading_dots_segment tested_def)
qed

text \<open>
  C29: the test of a URI from a header or a subrequest, for a path \<open>w\<close> (up to the first question mark, if any)
  and the arguments after it. It fails when the path is empty or has a zero byte, or has a segment of two
  dots, the last segment counting only if there are no arguments. Otherwise a path without a percent sign is
  returned as it is; one with a percent sign is unescaped and refused if the result has a zero byte or any
  segment of two dots (or no memory is left for it), else the result is returned, in both cases with the
  arguments.
\<close>

theorem unsafe_uri_exact:
  assumes "0x3f \<notin> set w"
  shows "ngx_http_parse_unsafe_uri alloc (w @ args_tail args) =
    (if w = [] \<or> 0 \<in> set w \<or> dot_dot \<in> set (tested args (split_slash w)) then None
     else if 0x25 \<notin> set w then Some (w, args)
     else let path = fst (ngx_unescape_uri 0 w)
          in if \<not> alloc \<or> 0 \<in> set path \<or> dot_dot \<in> set (split_slash path) then None else Some (path, args))"
proof -
  have empty: "w @ args_tail args = [] \<or> hd (w @ args_tail args) = 0x3f \<longleftrightarrow> w = []"
    using assms by (cases w) (auto simp: args_tail_def split: option.split)
  have path: "(case args of None \<Rightarrow> w @ args_tail args | Some a \<Rightarrow> take (length (w @ args_tail args) - length a - 1) (w @ args_tail args)) = w"
    by (simp add: args_tail_def split: option.split)
  have dots: "leading_dots (w @ args_tail args) \<or> 0 \<in> set w \<or> dot_dot \<in> set (tested args (tl (split_slash w))) \<longleftrightarrow>
      0 \<in> set w \<or> dot_dot \<in> set (tested args (split_slash w))"
    using tested_Cons [of "split_slash w" dot_dot args] leading_dots_args [OF assms] by auto
  show ?thesis
  proof (cases "w = [] \<or> 0 \<in> set w \<or> dot_dot \<in> set (tested args (split_slash w))")
    case True
    then have "w @ args_tail args = [] \<or> hd (w @ args_tail args) = 0x3f \<or> leading_dots (w @ args_tail args) \<or>
        unsafe_loop False (w @ args_tail args) = Unsafe"
      using empty dots by (auto simp: unsafe_loop_path [OF assms])
    then have "ngx_http_parse_unsafe_uri alloc (w @ args_tail args) = None" unfolding ngx_http_parse_unsafe_uri_def by auto
    then show ?thesis using True by simp
  next
    case False
    then have good: "(w @ args_tail args = [] \<or> hd (w @ args_tail args) = 0x3f \<or> leading_dots (w @ args_tail args)) = False"
      and loop: "unsafe_loop False (w @ args_tail args) = Scanned (0x25 \<in> set w) args"
      using empty dots by (auto simp: unsafe_loop_path [OF assms])
    show ?thesis using False unsafe_loop2_exact [of "fst (ngx_unescape_uri 0 w)"]
      unfolding ngx_http_parse_unsafe_uri_def good loop unsafe_scan.case path by (simp add: Let_def)
  qed
qed

theorem unsafe_uri_exact_witness:
  "ngx_http_parse_unsafe_uri True (bytes ''/a%2fb?c'') = Some (bytes ''/a/b'', Some (bytes ''c'')) \<and>
   ngx_http_parse_unsafe_uri True (bytes ''/a%2f../b'') = None"
proof -
  have w: "0x3f \<notin> set (bytes ''/a%2fb'')" "0x3f \<notin> set (bytes ''/a%2f../b'')"
      "bytes ''/a%2fb?c'' = bytes ''/a%2fb'' @ args_tail (Some (bytes ''c''))" "bytes ''/a%2f../b'' = bytes ''/a%2f../b'' @ args_tail None"
    by code_simp+
  have "ngx_http_parse_unsafe_uri True (bytes ''/a%2fb'' @ args_tail (Some (bytes ''c''))) = Some (bytes ''/a/b'', Some (bytes ''c''))"
    unfolding unsafe_uri_exact [OF w(1)] by code_simp
  moreover have "ngx_http_parse_unsafe_uri True (bytes ''/a%2f../b'' @ args_tail None) = None"
    unfolding unsafe_uri_exact [OF w(2)] by code_simp
  ultimately show ?thesis using w(3,4) by metis
qed

text \<open>
  The test looks for a slash after the two dots but not for the beginning of the arguments: a URI
  whose path ends with a segment of two dots is refused, but accepted with this very
  path as soon as arguments follow.
\<close>

theorem unsafe_uri_parent_with_args:
  "ngx_http_parse_unsafe_uri True (bytes ''/a/..'') = None \<and>
   ngx_http_parse_unsafe_uri True (bytes ''/a/..?x'') = Some (bytes ''/a/..'', Some (bytes ''x''))"
  by code_simp

end
