(* ===== verification/Ngx_Http_Args.thy ===== *)
theory Ngx_Http_Args
  imports Ngx_String Ngx_Request_Line
begin

text \<open>
  Arguments and header values (src/nginx/src/http/ngx_http_parse.c): the value of an argument
  (\<^verbatim>\<open>ngx_http_arg\<close>), the separation of the arguments from a URI (\<^verbatim>\<open>ngx_http_split_args\<close>), and the search of
  named values in header lines (\<^verbatim>\<open>ngx_http_parse_multi_header_lines\<close>, \<^verbatim>\<open>ngx_http_parse_set_cookie_lines\<close>).
  The text of the arguments and of a header value is the list of its bytes.
\<close>

section \<open>Arguments\<close>

definition ngx_http_split_args :: "u_char list \<Rightarrow> u_char list \<times> u_char list" where
  "ngx_http_split_args uri =
     (case ngx_strlchr uri 0x3f of
        Some p \<Rightarrow> (take p uri, drop (p + 1) uri)
      | None \<Rightarrow> (uri, []))"

text \<open>The value of the argument whose name begins at \<open>i\<close>. The end is searched from the beginning of the name: for a
  name that contains an ampersand it lies before the value, the length wraps, and the result, none here,
  is a string that reaches beyond the arguments.\<close>

definition arg_value :: "u_char list \<Rightarrow> nat \<Rightarrow> nat \<Rightarrow> u_char list option" where
  "arg_value args len i =
     (let start = i + len + 1;
          stop = (case ngx_strlchr (drop i args) 0x26 of Some k \<Rightarrow> i + k | None \<Rightarrow> length args)
      in if start \<le> stop then Some (take (stop - start) (drop start args)) else None)"

text \<open>The loop; none is a read out of bounds, \<open>Some None\<close> is \<^verbatim>\<open>NGX_DECLINED\<close>.\<close>

function arg_loop :: "u_char list \<Rightarrow> u_char list \<Rightarrow> nat \<Rightarrow> u_char list option option" where
  "arg_loop args name p =
     (if p < length args then
        (case ngx_strlcasestrn (drop p args) (int (length args) - 1 - int p) (hd name) (tl name) (length name - 1) of
           None \<Rightarrow> None
         | Some None \<Rightarrow> Some None
         | Some (Some k) \<Rightarrow>
             let i = p + k
             in if (i = 0 \<or> args ! (i - 1) = 0x26) \<and> args ! (i + length name) = 0x3d
                then map_option Some (arg_value args (length name) i)
                else arg_loop args name (i + 1))
      else Some None)"
  by pat_completeness auto
termination by (relation "measure (\<lambda>(args, name, p). length args - p)") auto

declare arg_loop.simps [simp del]

definition ngx_http_arg :: "u_char list \<Rightarrow> u_char list \<Rightarrow> u_char list option option" where
  "ngx_http_arg args name = (if args = [] then Some None else arg_loop args name 0)"

section \<open>Header values\<close>

fun skip_spaces :: "u_char list \<Rightarrow> u_char list" where
  "skip_spaces [] = []"
| "skip_spaces (c # s) = (if c = 0x20 then skip_spaces s else c # s)"

text \<open>The code at the label \<^verbatim>\<open>skip\<close>: past the next semicolon or comma, and the spaces after it.\<close>

fun skip_value :: "u_char list \<Rightarrow> u_char list" where
  "skip_value [] = []"
| "skip_value (c # s) = (if c = 0x3b \<or> c = 0x2c then skip_spaces s else skip_value s)"

lemma skip_spaces_length: "length (skip_spaces s) \<le> length s"
  by (induction s) auto

lemma skip_value_length: "s \<noteq> [] \<Longrightarrow> length (skip_value s) < length s"
proof (induction s)
  case (Cons c s)
  then show ?case using skip_spaces_length [of s] by (cases s) (auto simp: less_Suc_eq_le)
qed simp

lemma skip_value_le: "length (skip_value s) \<le> length s"
  using skip_value_length [of s] by (cases s) auto

datatype value_match = M_found "u_char list" | M_skip "u_char list"

text \<open>A name at \<open>start\<close> followed by a value up to the next semicolon, or the position where the code goes to
  \<^verbatim>\<open>skip\<close>; \<open>want\<close> is whether a value is asked for. The header value is terminated by a zero in memory.\<close>

definition match_value :: "u_char list \<Rightarrow> bool \<Rightarrow> u_char list \<Rightarrow> value_match option" where
  "match_value name want start =
     (case ngx_strncasecmp (start @ [0]) name (length name) of
        None \<Rightarrow> None
      | Some d \<Rightarrow>
          Some (if d \<noteq> 0 then M_skip start
            else
              let s = skip_spaces (drop (length name) start) in
              if \<not> want then (if s = [] \<or> hd s = 0x2c then M_found [] else M_skip s)
              else if s = [] then M_skip s
              else if hd s \<noteq> 0x3d then M_skip (tl s)
              else M_found (takeWhile (\<lambda>c. c \<noteq> 0x3b) (skip_spaces (tl s)))))"

lemma match_value_skip: "match_value name want start = Some (M_skip s) \<Longrightarrow> length s \<le> length start"
proof -
  have "length (skip_spaces (drop (length name) start)) \<le> length start"
    using skip_spaces_length [of "drop (length name) start"] by simp
  then show "match_value name want start = Some (M_skip s) \<Longrightarrow> length s \<le> length start"
    by (auto simp: match_value_def Let_def split: option.splits if_splits)
qed

function header_value_loop :: "u_char list \<Rightarrow> bool \<Rightarrow> u_char list \<Rightarrow> u_char list option option" where
  "header_value_loop name want start =
     (if start = [] then Some None
      else case match_value name want start of
             None \<Rightarrow> None
           | Some (M_found v) \<Rightarrow> Some (Some v)
           | Some (M_skip s) \<Rightarrow> header_value_loop name want (skip_value s))"
  by pat_completeness auto
termination
proof (relation "measure (\<lambda>(name, want, start). length start)", goal_cases)
  case (2 name want start m s)
  then have "length s \<le> length start" using match_value_skip by simp
  then show ?case using 2(1) skip_value_length [of s] by (cases s) auto
qed simp

declare header_value_loop.simps [simp del]

text \<open>The header lines: the number of the line and the value found.\<close>

fun ngx_http_parse_multi_header_lines ::
  "u_char list list \<Rightarrow> u_char list \<Rightarrow> bool \<Rightarrow> (nat \<times> u_char list) option option" where
  "ngx_http_parse_multi_header_lines [] name want = Some None"
| "ngx_http_parse_multi_header_lines (h # headers) name want =
     (let others = map_option (map_option (apfst Suc)) (ngx_http_parse_multi_header_lines headers name want)
      in if length name > length h then others
         else case header_value_loop name want h of
                None \<Rightarrow> None
              | Some (Some v) \<Rightarrow> Some (Some (0, v))
              | Some None \<Rightarrow> others)"

fun ngx_http_parse_set_cookie_lines :: "u_char list list \<Rightarrow> u_char list \<Rightarrow> (nat \<times> u_char list) option option" where
  "ngx_http_parse_set_cookie_lines [] name = Some None"
| "ngx_http_parse_set_cookie_lines (h # headers) name =
     (let others = map_option (map_option (apfst Suc)) (ngx_http_parse_set_cookie_lines headers name)
      in if length name \<ge> length h then others
         else case match_value name True h of
                None \<Rightarrow> None
              | Some (M_found v) \<Rightarrow> Some (Some (0, v))
              | Some (M_skip s) \<Rightarrow> others)"

section \<open>The first argument of a name is found\<close>

definition first_nat :: "(nat \<Rightarrow> bool) \<Rightarrow> nat option" where
  "first_nat P = (if \<exists>i. P i then Some (LEAST i. P i) else None)"

lemma first_natI: "P i \<Longrightarrow> (\<And>j. j < i \<Longrightarrow> \<not> P j) \<Longrightarrow> first_nat P = Some i"
  unfolding first_nat_def by (metis (no_types, lifting) LeastI Least_le linorder_neqE_nat not_less)

lemma first_nat_SomeD: "first_nat P = Some i \<Longrightarrow> P i \<and> (\<forall>j<i. \<not> P j)"
  unfolding first_nat_def by (auto split: if_splits intro: LeastI dest: not_less_Least)

lemma first_nat_NoneD: "first_nat P = None \<Longrightarrow> \<not> P i"
  by (auto simp: first_nat_def split: if_splits)

lemma find_first: "List.find P [0..<n] = first_nat (\<lambda>i. i < n \<and> P i)"
proof (cases "List.find P [0..<n]")
  case None
  then show ?thesis by (auto simp: find_None_iff first_nat_def)
next
  case (Some i)
  then obtain k where "k < n" "P k" "i = k" "\<forall>j<k. \<not> P j" by (auto simp: find_Some_iff)
  then show ?thesis using Some first_natI [of "\<lambda>i. i < n \<and> P i" k] by auto
qed

definition arg_at :: "u_char list \<Rightarrow> u_char list \<Rightarrow> nat \<Rightarrow> bool" where
  "arg_at args name i \<longleftrightarrow> i + length name < length args \<and> occurs args name i \<and> (i = 0 \<or> args ! (i - 1) = 0x26) \<and>
     args ! (i + length name) = 0x3d"

definition arg_text :: "u_char list \<Rightarrow> nat \<Rightarrow> nat \<Rightarrow> u_char list" where
  "arg_text args len i =
     (let stop = (case ngx_strlchr (drop i args) 0x26 of Some k \<Rightarrow> i + k | None \<Rightarrow> length args)
      in take (stop - (i + len + 1)) (drop (i + len + 1) args))"

lemma strlchr_at: "ngx_strlchr s c = Some k \<Longrightarrow> k < length s \<and> s ! k = c"
  by (induction s arbitrary: k) (auto split: if_splits simp: less_Suc_eq_0_disj)

lemma tolower_amp: "ngx_tolower c = 0x26 \<longleftrightarrow> c = 0x26"
  by (rule byte_all [where c = c]) code_simp

lemma arg_value_text:
  assumes "arg_at args name i" "0x26 \<notin> set name"
  shows "arg_value args (length name) i = Some (arg_text args (length name) i)"
proof (cases "ngx_strlchr (drop i args) 0x26")
  case (Some k)
  then have k: "args ! (i + k) = 0x26" "i + k < length args" using strlchr_at [OF Some] by auto
  have "length name < k"
  proof (rule ccontr)
    assume "\<not> length name < k"
    moreover have "k \<noteq> length name" using assms(1) k(1) by (auto simp: arg_at_def)
    ultimately have lt: "k < length name" by simp
    have "map ngx_tolower (take (length name) (drop i args)) ! k = map ngx_tolower name ! k" using assms(1) by (simp add: arg_at_def occurs_def)
    then have "ngx_tolower (name ! k) = 0x26" using lt k assms(1) tolower_amp [of "0x26"] by (simp add: arg_at_def)
    then show False using tolower_amp lt assms(2) nth_mem by metis
  qed
  then show ?thesis using Some by (simp add: arg_value_def arg_text_def Let_def)
qed (use assms(1) in \<open>simp add: arg_value_def arg_text_def arg_at_def Let_def\<close>)

lemma arg_loop_first:
  assumes "name \<noteq> []" "0 \<notin> set name" "0x26 \<notin> set name"
  shows "arg_loop args name p = Some (map_option (arg_text args (length name)) (first_nat (\<lambda>i. p \<le> i \<and> arg_at args name i)))"
  using assms
proof (induction args name p rule: arg_loop.induct)
  case (1 args name p)
  have z: "0 \<notin> set (tl name)" and name: "hd name # tl name = name" "length (tl name) = length name - 1"
    using 1(2,3) by (cases name; simp)+
  let ?n = "length args - p - length name"
  let ?P = "\<lambda>k. k < ?n \<and> occurs args name (p + k)"
  show ?case
  proof (cases "p < length args")
    case False
    then have "\<not> (p \<le> i \<and> arg_at args name i)" for i by (auto simp: arg_at_def)
    then have "first_nat (\<lambda>i. p \<le> i \<and> arg_at args name i) = None" by (auto simp: first_nat_def)
    then show ?thesis using False by (subst arg_loop.simps) simp
  next
    case p: True
    have n: "nat (int (length args) - 1 - int p - int (length name - 1)) = ?n" using 1(2) by (cases name) auto
    have occ: "occurs (drop p args) name = (\<lambda>k. occurs args name (p + k))" by (auto simp: occurs_def add.commute fun_eq_iff)
    have "int (length args) - 1 - int p \<le> int (length (drop p args))" using p by simp
    from strlcasestrn_first [OF name(2) z this, of "hd name"]
    have search: "ngx_strlcasestrn (drop p args) (int (length args) - 1 - int p) (hd name) (tl name) (length name - 1) = Some (first_nat ?P)"
      unfolding n name occ find_first .
    have at: "?P (i - p)" if "p \<le> i" "arg_at args name i" for i using that by (auto simp: arg_at_def)
    show ?thesis
    proof (cases "first_nat ?P")
      case None
      then have "\<not> (p \<le> i \<and> arg_at args name i)" for i using at [of i] first_nat_NoneD by blast
      then have "first_nat (\<lambda>i. p \<le> i \<and> arg_at args name i) = None" by (auto simp: first_nat_def)
      then show ?thesis using p None search by (subst arg_loop.simps) simp
    next
      case (Some k)
      then have k: "k < ?n" "occurs args name (p + k)" "\<And>j. j < k \<Longrightarrow> \<not> ?P j" using first_nat_SomeD [OF Some] by auto
      have before: "\<not> (p \<le> i \<and> arg_at args name i)" if "i < p + k" for i
      proof
        assume i: "p \<le> i \<and> arg_at args name i"
        then have "i - p < k" using that by linarith
        then show False using k(3) at i by blast
      qed
      let ?c = "(p + k = 0 \<or> args ! (p + k - 1) = 0x26) \<and> args ! (p + k + length name) = 0x3d"
      have eq: "arg_loop args name p = (if ?c then map_option Some (arg_value args (length name) (p + k)) else arg_loop args name (p + k + 1))"
        using p search Some by (subst arg_loop.simps) (simp add: Let_def)
      have "?c \<longleftrightarrow> arg_at args name (p + k)" using k(1,2) by (auto simp: arg_at_def)
      then consider (hit) "?c" "arg_at args name (p + k)" | (miss) "\<not> ?c" "\<not> arg_at args name (p + k)" by blast
      then show ?thesis
      proof cases
        case hit
        have "first_nat (\<lambda>i. p \<le> i \<and> arg_at args name i) = Some (p + k)"
          by (rule first_natI) (use hit before in auto)
        then show ?thesis unfolding eq using hit(1) arg_value_text [OF hit(2) 1(4)] by simp
      next
        case miss
        have "(\<lambda>i. p \<le> i \<and> arg_at args name i) = (\<lambda>i. p + k + 1 \<le> i \<and> arg_at args name i)"
          using before miss(2) by (auto simp: fun_eq_iff) (metis le_eq_less_or_eq not_less_eq_eq)
        then show ?thesis unfolding eq if_not_P [OF miss(1)] using 1(1) [OF p search Some refl miss(1) 1(2-4)] by simp
      qed
    qed
  qed
qed

fun split_amp :: "u_char list \<Rightarrow> u_char list list" where
  "split_amp [] = [[]]"
| "split_amp (c # cs) =
     (if c = 0x26 then [] # split_amp cs
      else case split_amp cs of [] \<Rightarrow> [[c]] | s # ss \<Rightarrow> (c # s) # ss)"

lemma split_amp_ne [simp]: "split_amp x \<noteq> []"
  by (cases x) (auto split: list.split)

lemma split_amp_none [simp]: "0x26 \<notin> set s \<Longrightarrow> split_amp s = [s]"
  by (induction s) auto

lemma split_amp_append: "0x26 \<notin> set s \<Longrightarrow> split_amp (s @ 0x26 # x) = s # split_amp x"
  by (induction s) auto

definition named_arg :: "u_char list \<Rightarrow> u_char list \<Rightarrow> bool" where
  "named_arg name s \<longleftrightarrow> length name < length s \<and> occurs s name 0 \<and> s ! length name = 0x3d"

lemma strlchr_append: "c \<notin> set s \<Longrightarrow> ngx_strlchr (s @ c # x) c = Some (length s)"
  by (induction s) auto

lemma strlchr_none: "c \<notin> set s \<Longrightarrow> ngx_strlchr s c = None"
  by (induction s) auto

text \<open>A name that occurs at the beginning of the arguments lies within the first of them.\<close>

lemma named_first:
  assumes "0x26 \<notin> set name" "0x26 \<notin> set s"
  shows "arg_at (s @ 0x26 # x) name 0 \<longleftrightarrow> named_arg name s"
proof -
  have "length name < length s" if "arg_at (s @ 0x26 # x) name 0"
  proof (rule ccontr)
    assume "\<not> length name < length s"
    then have le: "length s \<le> length name" by simp
    show False
    proof (cases "length s = length name")
      case True
      then show False using that by (simp add: arg_at_def nth_append)
    next
      case False
      then have lt: "length s < length name" using le by simp
      have "map ngx_tolower (take (length name) (s @ 0x26 # x)) ! length s = map ngx_tolower name ! length s"
        using that by (simp add: arg_at_def occurs_def)
      then have "ngx_tolower (name ! length s) = ngx_tolower 0x26" using lt that by (simp add: arg_at_def nth_append)
      then have "name ! length s = 0x26" using tolower_amp by (metis tolower_amp)
      then show False using assms(1) lt nth_mem by metis
    qed
  qed
  then show ?thesis by (auto simp: arg_at_def named_arg_def occurs_def nth_append)
qed

lemma arg_at_rest:
  assumes "0x26 \<notin> set s" "name \<noteq> []" "0x26 \<notin> set name"
  shows "arg_at (s @ 0x26 # x) name (Suc (length s) + j) \<longleftrightarrow> arg_at x name j"
    "0 < i \<Longrightarrow> i \<le> length s \<Longrightarrow> \<not> arg_at (s @ 0x26 # x) name i"
proof -
  show "arg_at (s @ 0x26 # x) name (Suc (length s) + j) \<longleftrightarrow> arg_at x name j"
    by (cases j) (auto simp: arg_at_def occurs_def nth_append)
  show "\<not> arg_at (s @ 0x26 # x) name i" if "0 < i" "i \<le> length s"
  proof -
    have "s ! (i - 1) \<in> set s" using that by (intro nth_mem) auto
    then have "s ! (i - 1) \<noteq> 0x26" using assms(1) by metis
    then have "(s @ 0x26 # x) ! (i - 1) \<noteq> 0x26" using that by (simp add: nth_append)
    then show ?thesis using that by (simp add: arg_at_def)
  qed
qed

lemma arg_text_first:
  assumes "0x26 \<notin> set s" "length n < length s"
  shows "arg_text (s @ 0x26 # x) (length n) 0 = drop (Suc (length n)) s" "arg_text s (length n) 0 = drop (Suc (length n)) s"
  using assms by (simp_all add: arg_text_def strlchr_append strlchr_none)

lemma arg_text_rest:
  "arg_text (s @ 0x26 # x) n (Suc (length s) + j) = arg_text x n j"
  by (simp add: arg_text_def split: option.split)

lemma first_arg:
  assumes "name \<noteq> []" "0x26 \<notin> set name"
  shows "map_option (arg_text args (length name)) (first_nat (arg_at args name)) =
    map_option (drop (Suc (length name))) (List.find (named_arg name) (split_amp args))"
proof (induction args rule: length_induct)
  case (1 args)
  show ?case
  proof (cases "0x26 \<in> set args")
    case False
    have only: "i = 0" if "arg_at args name i" for i
    proof (rule ccontr)
      assume "i \<noteq> 0"
      then have "args ! (i - 1) = 0x26" "i - 1 < length args" using that by (auto simp: arg_at_def)
      then show False using False nth_mem by metis
    qed
    have zero: "arg_at args name 0 \<longleftrightarrow> named_arg name args" by (auto simp: arg_at_def named_arg_def)
    show ?thesis
    proof (cases "named_arg name args")
      case True
      then have "first_nat (arg_at args name) = Some 0" using zero by (intro first_natI) auto
      then show ?thesis using True False arg_text_first(2) [of args name] by (simp add: named_arg_def)
    next
      case False
      then have "first_nat (arg_at args name) = None" using only zero by (auto simp: first_nat_def)
      then show ?thesis using False \<open>0x26 \<notin> set args\<close> by simp
    qed
  next
    case True
    then obtain s x where args: "args = s @ 0x26 # x" "0x26 \<notin> set s" by (metis split_list_first)
    have ih: "map_option (arg_text x (length name)) (first_nat (arg_at x name)) =
        map_option (drop (Suc (length name))) (List.find (named_arg name) (split_amp x))"
      using 1 by (simp add: args(1))
    note rest = arg_at_rest [OF args(2) assms, where x = x, folded args(1)]
    note zero = named_first [OF assms(2) args(2), where x = x, folded args(1)]
    have split: "split_amp args = s # split_amp x" using args by (simp add: split_amp_append)
    show ?thesis
    proof (cases "named_arg name s")
      case True
      then have "first_nat (arg_at args name) = Some 0" using zero by (intro first_natI) auto
      then show ?thesis using True split args(2) arg_text_first(1) [of s name x] by (simp add: named_arg_def args(1))
    next
      case no: False
      have pos: "\<exists>j. i = Suc (length s) + j \<and> arg_at x name j" if "arg_at args name i" for i
      proof -
        have "\<not> i \<le> length s" using rest(2) [of i] zero no that by (cases "i = 0") auto
        then obtain j where "i = Suc (length s) + j" by (metis le_Suc_ex not_less_eq_eq)
        then show ?thesis using rest(1) that by blast
      qed
      show ?thesis
      proof (cases "first_nat (arg_at x name)")
        case None
        then have "\<not> arg_at x name j" for j using first_nat_NoneD by blast
        then have "first_nat (arg_at args name) = None" using pos by (auto simp: first_nat_def)
        then show ?thesis using ih None no by (simp add: split)
      next
        case (Some j)
        then have j: "arg_at x name j" "\<forall>k<j. \<not> arg_at x name k" using first_nat_SomeD by blast+
        have "first_nat (arg_at args name) = Some (Suc (length s) + j)"
        proof (rule first_natI)
          show "arg_at args name (Suc (length s) + j)" using rest(1) j(1) by blast
          show "\<not> arg_at args name i" if "i < Suc (length s) + j" for i using pos [of i] j(2) that by auto
        qed
        then show ?thesis using ih Some no arg_text_rest [of s x "length name" j, folded args(1)] by (simp add: split)
      qed
    qed
  qed
qed

text \<open>
  C30: the value of an argument is that of the first one of its name, the case ignored: the text after the
  equals sign of the first ampersand-separated part that is the name followed by an equals sign;
  the search declines exactly when there is none, and never reads out of bounds.
\<close>

theorem http_arg_correct:
  assumes "name \<noteq> []" "0x26 \<notin> set name" "0 \<notin> set name"
  shows "ngx_http_arg args name = Some (map_option (drop (Suc (length name))) (List.find (named_arg name) (split_amp args)))"
proof -
  have "arg_loop args name 0 = Some (map_option (arg_text args (length name)) (first_nat (arg_at args name)))"
    using arg_loop_first [OF assms(1,3,2), of args 0] by simp
  then show ?thesis using first_arg [OF assms(1,2), of args] assms(1) by (auto simp: ngx_http_arg_def named_arg_def)
qed

theorem http_arg_correct_witness:
  "ngx_http_arg (bytes ''xa=1&A=2&a=3'') (bytes ''a'') = Some (Some (bytes ''2''))"
proof -
  have "ngx_http_arg (bytes ''xa=1&A=2&a=3'') (bytes ''a'') =
      Some (map_option (drop (Suc (length (bytes ''a'')))) (List.find (named_arg (bytes ''a'')) (split_amp (bytes ''xa=1&A=2&a=3''))))"
    by (rule http_arg_correct) (simp_all add: bytes_Cons)
  also have "\<dots> = Some (Some (bytes ''2''))" by code_simp
  finally show ?thesis .
qed

text \<open>
  A name without a value swallows the separator after it, so that the value of the same name in the
  next part is not found, while it is found after a part with another name.
\<close>

theorem header_lines_swallow_separator:
  "ngx_http_parse_multi_header_lines [bytes ''a; a=1''] (bytes ''a'') True = Some None \<and>
   ngx_http_parse_multi_header_lines [bytes ''b; a=1''] (bytes ''a'') True = Some (Some (0, bytes ''1''))"
  by code_simp

end
