(* ===== verification/Ngx_Times.thy ===== *)
theory Ngx_Times
  imports Ngx_Sprintf
begin

text \<open>
  Calendar time (src/nginx/src/core/ngx_times.c and src/nginx/src/core/ngx_parse_time.c):
  \<^verbatim>\<open>ngx_gmtime\<close>, the textual forms \<^verbatim>\<open>ngx_http_time\<close> and \<^verbatim>\<open>ngx_http_cookie_time\<close>, the parser
  \<^verbatim>\<open>ngx_parse_http_time\<close>.

  The calendar computations are compared with a reference that counts days one by one with the
  Gregorian leap year rule, the printed forms are shown to be read back, and the parser is shown to
  read no byte outside of its input.
\<close>

section \<open>Broken-down time\<close>

record ngx_tm =
  ngx_tm_sec :: int
  ngx_tm_min :: int
  ngx_tm_hour :: int
  ngx_tm_mday :: int
  ngx_tm_mon :: int
  ngx_tm_year :: int
  ngx_tm_wday :: int

text \<open>The number of days before the year that begins on March 1, and the days in it before a month
  counted from March (Gauss' formula).\<close>

definition gauss_year :: "int \<Rightarrow> int" where
  "gauss_year year = 365 * year + year div 4 - year div 100 + year div 400"

definition gauss_month :: "int \<Rightarrow> int" where
  "gauss_month mon = 367 * mon div 12 - 30"

definition gm_year :: "int \<Rightarrow> int \<times> int" where
  "gm_year days =
     (let year = (days + 2) * 400 div (365 * 400 + 100 - 4 + 1);
          yday = i64 (days - gauss_year year)
      in if yday < 0 then
           let leap = (if year mod 4 = 0 \<and> (year mod 100 \<noteq> 0 \<or> year mod 400 = 0) then 1 else 0)
           in (year - 1, 365 + leap + yday)
         else (year, yday))"

definition ngx_gmtime :: "int \<Rightarrow> ngx_tm" where
  "ngx_gmtime t =
     (let t = (if t < 0 then 0 else t);
          (days, sec) = (if t div 86400 > 2932896 then (2932896, 86399) else (t div 86400, t mod 86400));
          wday = (4 + days) mod 7;
          hour = sec div 3600; sec = sec mod 3600; minute = sec div 60; sec = sec mod 60;
          days = u64 (days - (31 + 28) + 719527);
          (year, yday) = gm_year days;
          mon = (yday + 31) * 10 div 306;
          mday = u64 (yday - gauss_month mon + 1);
          (year, mon) = (if yday \<ge> 306 then (year + 1, mon - 10) else (year, mon + 2))
      in \<lparr>ngx_tm_sec = sec, ngx_tm_min = minute, ngx_tm_hour = hour, ngx_tm_mday = mday,
          ngx_tm_mon = mon, ngx_tm_year = year, ngx_tm_wday = wday\<rparr>)"

section \<open>Printed times\<close>

definition week :: "u_char list list" where
  "week = map (\<lambda>s. bytes s @ [0]) [''Sun'', ''Mon'', ''Tue'', ''Wed'', ''Thu'', ''Fri'', ''Sat'']"

definition months :: "u_char list list" where
  "months = map (\<lambda>s. bytes s @ [0])
     [''Jan'', ''Feb'', ''Mar'', ''Apr'', ''May'', ''Jun'', ''Jul'', ''Aug'', ''Sep'', ''Oct'', ''Nov'', ''Dec'']"

definition ngx_http_time :: "int \<Rightarrow> u_char list option" where
  "ngx_http_time t =
     (let tm = ngx_gmtime t in
      ngx_sprintf (bytes ''%s, %02d %s %4d %02d:%02d:%02d GMT'')
        [VPtr (week ! nat (ngx_tm_wday tm)), VInt (ngx_tm_mday tm), VPtr (months ! nat (ngx_tm_mon tm - 1)),
         VInt (ngx_tm_year tm), VInt (ngx_tm_hour tm), VInt (ngx_tm_min tm), VInt (ngx_tm_sec tm)])"

definition ngx_http_cookie_time :: "int \<Rightarrow> u_char list option" where
  "ngx_http_cookie_time t =
     (let tm = ngx_gmtime t in
      ngx_sprintf (if ngx_tm_year tm > 2037 then bytes ''%s, %02d-%s-%d %02d:%02d:%02d GMT''
                   else bytes ''%s, %02d-%s-%02d %02d:%02d:%02d GMT'')
        [VPtr (week ! nat (ngx_tm_wday tm)), VInt (ngx_tm_mday tm), VPtr (months ! nat (ngx_tm_mon tm - 1)),
         VInt (if ngx_tm_year tm > 2037 then ngx_tm_year tm else ngx_tm_year tm mod 100),
         VInt (ngx_tm_hour tm), VInt (ngx_tm_min tm), VInt (ngx_tm_sec tm)])"

section \<open>Parsed times\<close>

text \<open>A scan of the value yields a result, an error, or has read past the end of the value. A
  pointer into the value is the list of the bytes from there to its end.\<close>

datatype 'a scan = Val 'a | Err | Overrun

fun scan_bind :: "'a scan \<Rightarrow> ('a \<Rightarrow> 'b scan) \<Rightarrow> 'b scan" where
  "scan_bind (Val x) f = f x"
| "scan_bind Err f = Err"
| "scan_bind Overrun f = Overrun"

definition peek :: "u_char list \<Rightarrow> nat \<Rightarrow> u_char scan" where
  "peek p k = (if k < length p then Val (p ! k) else Overrun)"

definition scan_digit :: "u_char list \<Rightarrow> nat \<Rightarrow> int scan" where
  "scan_digit p k = scan_bind (peek p k) (\<lambda>c. if c < 0x30 \<or> c > 0x39 then Err else Val (uint c - 0x30))"

definition scan_two :: "u_char list \<Rightarrow> int scan" where
  "scan_two p = scan_bind (scan_digit p 0) (\<lambda>a. scan_bind (scan_digit p 1) (\<lambda>b. Val (a * 10 + b)))"

definition scan_four :: "u_char list \<Rightarrow> int scan" where
  "scan_four p =
     scan_bind (scan_digit p 0) (\<lambda>a. scan_bind (scan_digit p 1) (\<lambda>b.
     scan_bind (scan_digit p 2) (\<lambda>c. scan_bind (scan_digit p 3) (\<lambda>d.
     Val (a * 1000 + b * 100 + c * 10 + d)))))"

definition scan_skip :: "u_char \<Rightarrow> u_char list \<Rightarrow> u_char list scan" where
  "scan_skip ch p = scan_bind (peek p 0) (\<lambda>c. if c \<noteq> ch then Err else Val (drop 1 p))"

datatype http_time_fmt = no | rfc822 | rfc850 | isoc

text \<open>The first loop: the format is the one of \<^verbatim>\<open>asctime\<close> when a space comes before any comma. What
  is left begins at the byte the loop stopped at.\<close>

fun time_weekday :: "u_char list \<Rightarrow> http_time_fmt \<times> u_char list" where
  "time_weekday [] = (no, [])"
| "time_weekday (c # p) =
     (if c = 0x2c then (no, c # p) else if c = 0x20 then (isoc, c # p) else time_weekday p)"

definition time_day :: "http_time_fmt \<Rightarrow> u_char list \<Rightarrow> (http_time_fmt \<times> int \<times> u_char list) scan" where
  "time_day fmt p =
     (if fmt \<noteq> isoc then
        scan_bind (scan_two p) (\<lambda>day.
        let p = drop 2 p in
        scan_bind (peek p 0) (\<lambda>c.
          if c = 0x20 then if length p < 18 then Err else Val (rfc822, day, drop 1 p)
          else if c = 0x2d then Val (rfc850, day, drop 1 p)
          else Err))
      else Val (fmt, 0, p))"

definition time_month :: "u_char list \<Rightarrow> int scan" where
  "time_month p =
     scan_bind (peek p 0) (\<lambda>c.
       if c = 0x4a then
         scan_bind (peek p 1) (\<lambda>a. if a = 0x61 then Val 0
           else scan_bind (peek p 2) (\<lambda>b. Val (if b = 0x6e then 5 else 6)))
       else if c = 0x46 then Val 1
       else if c = 0x4d then scan_bind (peek p 2) (\<lambda>b. Val (if b = 0x72 then 2 else 4))
       else if c = 0x41 then scan_bind (peek p 1) (\<lambda>a. Val (if a = 0x70 then 3 else 7))
       else if c = 0x53 then Val 8
       else if c = 0x4f then Val 9
       else if c = 0x4e then Val 10
       else if c = 0x44 then Val 11
       else Err)"

text \<open>The month separator and, but for the format of \<^verbatim>\<open>asctime\<close>, the year.\<close>

definition time_separator :: "http_time_fmt \<Rightarrow> u_char list \<Rightarrow> u_char list scan" where
  "time_separator fmt p =
     (if fmt = rfc822 then scan_skip 0x20 p
      else if fmt = rfc850 then scan_skip 0x2d p
      else Val (drop 1 p))"

definition time_year :: "http_time_fmt \<Rightarrow> u_char list \<Rightarrow> (int \<times> u_char list) scan" where
  "time_year fmt p =
     (if fmt = rfc822 then scan_bind (scan_four p) (\<lambda>year. Val (year, drop 4 p))
      else if fmt = rfc850 then
        scan_bind (scan_two p) (\<lambda>year. Val (year + (if year < 70 then 2000 else 1900), drop 2 p))
      else Val (0, p))"

text \<open>The day in the format of \<^verbatim>\<open>asctime\<close>: one digit, possibly after a space, or two.\<close>

definition time_isoc_day :: "http_time_fmt \<Rightarrow> int \<Rightarrow> u_char list \<Rightarrow> (int \<times> u_char list) scan" where
  "time_isoc_day fmt day p =
     (if fmt = isoc then
        scan_bind (peek p 0) (\<lambda>c.
        let p = (if c = 0x20 then drop 1 p else p) in
        scan_bind (scan_digit p 0) (\<lambda>day.
        let p = drop 1 p in
        scan_bind (peek p 0) (\<lambda>c.
        scan_bind (if c \<noteq> 0x20 then scan_bind (scan_digit p 0) (\<lambda>d. Val (day * 10 + d, drop 1 p))
                   else Val (day, p)) (\<lambda>(day, p).
        if length p < 14 then Err else Val (day, p)))))
      else Val (day, p))"

definition time_clock :: "u_char list \<Rightarrow> (int \<times> int \<times> int \<times> u_char list) scan" where
  "time_clock p =
     scan_bind (scan_skip 0x20 p) (\<lambda>p.
     scan_bind (scan_two p) (\<lambda>hour.
     scan_bind (scan_skip 0x3a (drop 2 p)) (\<lambda>p.
     scan_bind (scan_two p) (\<lambda>minute.
     scan_bind (scan_skip 0x3a (drop 2 p)) (\<lambda>p.
     scan_bind (scan_two p) (\<lambda>sec. Val (hour, minute, sec, p)))))))"

definition time_isoc_year :: "http_time_fmt \<Rightarrow> int \<Rightarrow> u_char list \<Rightarrow> int scan" where
  "time_isoc_year fmt year p =
     (if fmt = isoc then scan_bind (scan_skip 0x20 (drop 2 p)) scan_four else Val year)"

definition mday :: "int list" where
  "mday = [31, 28, 31, 30, 31, 30, 31, 31, 30, 31, 30, 31]"

definition time_valid :: "int \<Rightarrow> int \<Rightarrow> int \<Rightarrow> int \<Rightarrow> int \<Rightarrow> int \<Rightarrow> bool" where
  "time_valid year month day hour minute sec \<longleftrightarrow>
     \<not> (hour > 23 \<or> minute > 59 \<or> sec > 59) \<and>
     (if day = 29 \<and> month = 1 then \<not> (year mod 4 \<noteq> 0 \<or> year mod 100 = 0 \<and> year mod 400 \<noteq> 0)
      else \<not> day > mday ! nat month)"

definition time_seconds :: "int \<Rightarrow> int \<Rightarrow> int \<Rightarrow> int \<Rightarrow> int \<Rightarrow> int \<Rightarrow> int" where
  "time_seconds year month day hour minute sec =
     (let (month, year) = (if month - 1 \<le> 0 then (month - 1 + 12, u64 (year - 1)) else (month - 1, year))
      in i64 (u64 (gauss_year year + gauss_month month + day - 1 - 719527 + 31 + 28) * 86400
              + hour * 3600 + minute * 60 + sec))"

definition http_time_scan :: "u_char list \<Rightarrow> int scan" where
  "http_time_scan v =
     (let (fmt, p) = time_weekday v;
          p = dropWhile (\<lambda>c. c = 0x20) (drop 1 p)
      in if length p < 18 then Err
         else
           scan_bind (time_day fmt p) (\<lambda>(fmt, day, p).
           scan_bind (time_month p) (\<lambda>month.
           scan_bind (time_separator fmt (drop 3 p)) (\<lambda>p.
           scan_bind (time_year fmt p) (\<lambda>(year, p).
           scan_bind (time_isoc_day fmt day p) (\<lambda>(day, p).
           scan_bind (time_clock p) (\<lambda>(hour, minute, sec, p).
           scan_bind (time_isoc_year fmt year p) (\<lambda>year.
             if time_valid year month day hour minute sec
             then Val (time_seconds year month day hour minute sec) else Err))))))))"

text \<open>The error is the value \<^verbatim>\<open>NGX_ERROR\<close>, -1.\<close>

definition ngx_parse_http_time :: "u_char list \<Rightarrow> int option" where
  "ngx_parse_http_time v =
     (case http_time_scan v of Val t \<Rightarrow> Some t | Err \<Rightarrow> Some (-1) | Overrun \<Rightarrow> None)"

section \<open>The reference calendar\<close>

definition leap_year :: "int \<Rightarrow> bool" where
  "leap_year y \<longleftrightarrow> 4 dvd y \<and> (\<not> 100 dvd y \<or> 400 dvd y)"

definition month_days :: "int \<Rightarrow> int \<Rightarrow> int" where
  "month_days y m =
     (if m = 2 then if leap_year y then 29 else 28 else if m \<in> {4, 6, 9, 11} then 30 else 31)"

fun next_day :: "int \<times> int \<times> int \<Rightarrow> int \<times> int \<times> int" where
  "next_day (y, m, d) =
     (if d < month_days y m then (y, m, d + 1) else if m < 12 then (y, m + 1, 1) else (y + 1, 1, 1))"

definition date_of :: "nat \<Rightarrow> int \<times> int \<times> int" where
  "date_of n = (next_day ^^ n) (1970, 1, 1)"

definition valid_date :: "int \<times> int \<times> int \<Rightarrow> bool" where
  "valid_date = (\<lambda>(y, m, d). 1 \<le> m \<and> m \<le> 12 \<and> 1 \<le> d \<and> d \<le> month_days y m)"

text \<open>The day number of a date, by Gauss' formula.\<close>

definition day_number :: "int \<times> int \<times> int \<Rightarrow> int" where
  "day_number = (\<lambda>(y, m, d).
     if m \<le> 2 then gauss_year (y - 1) + gauss_month (m + 10) + d - 1
     else gauss_year y + gauss_month (m - 2) + d - 1)"

lemma div_Suc_int: "0 < k \<Longrightarrow> (y + 1) div k = y div k + (if k dvd y + 1 then 1 else 0)" for k y :: int
proof -
  assume k: "0 < k"
  define c r where "c = (y + 1) div k" and "r = (y + 1) mod k"
  then have y: "y + 1 = k * c + r" and r: "0 \<le> r" "r < k" "k dvd y + 1 \<longleftrightarrow> r = 0"
    using k by (simp_all add: mod_eq_0_iff_dvd [symmetric])
  have "y div k = (if r = 0 then c - 1 else c)"
  proof (cases "r = 0")
    case True
    then have "y = k * (c - 1) + (k - 1)" using y by (simp add: algebra_simps)
    then have "y div k = c - 1" using k by (intro int_div_pos_eq [where r = "k - 1"]) auto
    then show ?thesis using True by simp
  next
    case False
    then have "y div k = c" using y r by (intro int_div_pos_eq [where r = "r - 1"]) auto
    then show ?thesis using False by simp
  qed
  then show ?thesis using r(3) unfolding c_def [symmetric] by simp
qed

lemma gauss_year_Suc: "gauss_year (y + 1) = gauss_year y + 365 + (if leap_year (y + 1) then 1 else 0)"
proof -
  have "100 dvd y + 1 \<Longrightarrow> 4 dvd y + 1" using dvd_trans [of 4 100 "y + 1"] by simp
  moreover have "400 dvd y + 1 \<Longrightarrow> 100 dvd y + 1" using dvd_trans [of 100 400 "y + 1"] by simp
  ultimately show ?thesis unfolding gauss_year_def leap_year_def
    by (cases "4 dvd y + 1"; cases "100 dvd y + 1"; cases "400 dvd y + 1") (simp_all add: div_Suc_int)
qed

lemma gauss_year_shift: "gauss_year (400 * q + r) = 146097 * q + gauss_year r"
proof -
  have "(400 * q + r) div 4 = 100 * q + r div 4" "(400 * q + r) div 100 = 4 * q + r div 100"
    "(400 * q + r) div 400 = q + r div 400"
    by simp_all
  then show ?thesis by (simp add: gauss_year_def)
qed

text \<open>The estimate of the year is at most one too large, checked over one cycle of 400 years.\<close>

definition year_estimate_ok :: "int \<Rightarrow> bool" where
  "year_estimate_ok r \<longleftrightarrow>
     146097 * r \<le> (gauss_year r + 2) * 400 \<and> (gauss_year (r + 1) + 1) * 400 < 146097 * (r + 2)"

lemma year_estimate_cycle: "list_all year_estimate_ok [0..399]"
  by code_simp

lemma year_estimate:
  fixes y yd :: int
  assumes "0 \<le> yd" "yd < gauss_year (y + 1) - gauss_year y"
  shows "(gauss_year y + yd + 2) * 400 div 146097 \<in> {y, y + 1}"
proof -
  define q r where "q = y div 400" and "r = y mod 400"
  then have y: "y = 400 * q + r" and r: "r \<in> set [0..399]" by simp_all
  have "year_estimate_ok r" using year_estimate_cycle r by (simp only: list_all_iff)
  then have ok: "146097 * r \<le> (gauss_year r + 2) * 400" "(gauss_year (r + 1) + 1) * 400 < 146097 * (r + 2)"
    by (simp_all add: year_estimate_ok_def)
  have F: "gauss_year y = 146097 * q + gauss_year r" "gauss_year (y + 1) = 146097 * q + gauss_year (r + 1)"
    using gauss_year_shift [of q r] gauss_year_shift [of q "r + 1"] by (simp_all add: y add.assoc)
  define a where "a = (gauss_year r + yd + 2) * 400"
  have "146097 * r \<le> a" "a < 146097 * (r + 2)"
    using ok assms unfolding F a_def by (simp_all add: algebra_simps)
  then have "a div 146097 \<in> {r, r + 1}" by auto
  moreover have "(gauss_year y + yd + 2) * 400 = a + 146097 * (400 * q)"
    unfolding F a_def by (simp add: algebra_simps)
  then have "(gauss_year y + yd + 2) * 400 div 146097 = a div 146097 + 400 * q" by simp
  ultimately show ?thesis by (auto simp: y)
qed

lemma gm_year_correct:
  assumes "0 \<le> yd" "yd < gauss_year (y + 1) - gauss_year y"
  shows "gm_year (gauss_year y + yd) = (y, yd)"
proof -
  let ?e = "(gauss_year y + yd + 2) * 400 div (365 * 400 + 100 - 4 + 1)"
  have len: "gauss_year (y + 1) - gauss_year y = 365 + (if leap_year (y + 1) then 1 else 0)"
    using gauss_year_Suc [of y] by simp
  have small: "i64 x = x" if "- 400 < x" "x < 400" for x
    using that by (intro i64_id) auto
  have "?e = y \<or> ?e = y + 1" using year_estimate [OF assms] by simp
  then show ?thesis
  proof
    assume e: "?e = y"
    then show ?thesis using assms len by (simp add: gm_year_def Let_def small split: if_splits)
  next
    assume e: "?e = y + 1"
    have lt: "yd - (gauss_year (y + 1) - gauss_year y) < 0" using assms by simp
    have yd: "i64 (gauss_year y + yd - gauss_year (y + 1)) = yd - (gauss_year (y + 1) - gauss_year y)"
      using assms len by (subst small) (auto split: if_splits)
    show ?thesis unfolding gm_year_def e Let_def yd using lt len
      by (auto simp: leap_year_def mod_eq_0_iff_dvd split: if_splits)
  qed
qed

text \<open>Months counted from March, checked over all days of a year.\<close>

definition march_days :: "int \<Rightarrow> int" where
  "march_days m = [31, 30, 31, 30, 31, 31, 30, 31, 30, 31, 31, 29] ! nat (m - 1)"

definition march_ok :: "int \<Rightarrow> int \<Rightarrow> bool" where
  "march_ok m d \<longleftrightarrow> d \<le> march_days m \<longrightarrow>
     (let yd = gauss_month m + d - 1 in
      (yd + 31) * 10 div 306 = m \<and> (yd \<ge> 306 \<longleftrightarrow> m \<ge> 11) \<and> 0 \<le> yd \<and> yd \<le> 365 \<and>
      (yd = 365 \<longrightarrow> m = 12 \<and> d = 29))"

lemma march_year: "list_all (\<lambda>m. list_all (march_ok m) [1..31]) [1..12]"
  by code_simp

lemma march_day:
  assumes "1 \<le> m" "m \<le> 12" "1 \<le> d" "d \<le> march_days m"
  shows "(gauss_month m + d - 1 + 31) * 10 div 306 = m" "gauss_month m + d - 1 \<ge> 306 \<longleftrightarrow> m \<ge> 11"
    "0 \<le> gauss_month m + d - 1" "gauss_month m + d - 1 \<le> 365"
    "gauss_month m + d - 1 = 365 \<Longrightarrow> m = 12 \<and> d = 29"
proof -
  have "\<forall>k \<in> set [1..12]. march_days k \<le> 31" by code_simp
  then have "d \<in> set [1..31]" "m \<in> set [1..12]" using assms by force+
  then have "march_ok m d" using march_year unfolding list_all_iff by blast
  then show "(gauss_month m + d - 1 + 31) * 10 div 306 = m" "gauss_month m + d - 1 \<ge> 306 \<longleftrightarrow> m \<ge> 11"
    "0 \<le> gauss_month m + d - 1" "gauss_month m + d - 1 \<le> 365"
    "gauss_month m + d - 1 = 365 \<Longrightarrow> m = 12 \<and> d = 29"
    using assms(4) unfolding march_ok_def Let_def by simp_all
qed

definition gm_date :: "int \<Rightarrow> int \<times> int \<times> int" where
  "gm_date days =
     (let (year, yday) = gm_year days; mon = (yday + 31) * 10 div 306; mday = u64 (yday - gauss_month mon + 1)
      in if yday \<ge> 306 then (year + 1, mon - 10, mday) else (year, mon + 2, mday))"

lemma month_cases: "1 \<le> m \<Longrightarrow> m \<le> 12 \<Longrightarrow>
    m = 1 \<or> m = 2 \<or> m = 3 \<or> m = 4 \<or> m = 5 \<or> m = 6 \<or> m = 7 \<or> m = 8 \<or> m = 9 \<or> m = 10 \<or> m = 11 \<or> m = 12"
  for m :: int
  by presburger

lemma gm_date_march:
  assumes m: "1 \<le> m" "m \<le> 12" "1 \<le> d" "d \<le> march_days m" and feb: "m = 12 \<Longrightarrow> d = 29 \<Longrightarrow> leap_year (y + 1)"
  shows "gm_date (gauss_year y + gauss_month m + d - 1) = (if m \<ge> 11 then (y + 1, m - 10, d) else (y, m + 2, d))"
proof -
  define yd where "yd = gauss_month m + d - 1"
  note day = march_day [OF m, folded yd_def]
  have "yd < gauss_year (y + 1) - gauss_year y"
    using day(4,5) feb gauss_year_Suc [of y] by (cases "yd = 365") auto
  then have gm: "gm_year (gauss_year y + yd) = (y, yd)" by (rule gm_year_correct [OF day(3)])
  have "\<forall>k \<in> set [1..12]. march_days k \<le> 31" by code_simp
  then have "march_days m \<le> 31" using m by force
  then have "u64 (yd - gauss_month m + 1) = d" using m(3,4) by (subst u64_id) (auto simp: yd_def)
  then have "gm_date (gauss_year y + yd) = (if m \<ge> 11 then (y + 1, m - 10, d) else (y, m + 2, d))"
    unfolding gm_date_def gm Let_def prod.case day(1) day(2) by simp
  then show ?thesis by (simp add: yd_def algebra_simps)
qed

lemma gm_date_day_number:
  assumes "valid_date x" shows "gm_date (day_number x) = x"
proof -
  obtain y m d where x: "x = (y, m, d)" by (cases x)
  have md: "1 \<le> m" "m \<le> 12" "1 \<le> d" "d \<le> month_days y m" using assms by (auto simp: x valid_date_def)
  show ?thesis
  proof (cases "m \<le> 2")
    case True
    then have "d \<le> march_days (m + 10)" "m + 10 = 12 \<Longrightarrow> d = 29 \<Longrightarrow> leap_year y"
      using md by (cases "m = 1"; auto simp: month_days_def march_days_def split: if_splits)+
    then show ?thesis using True md gm_date_march [of "m + 10" d "y - 1"] by (simp add: x day_number_def)
  next
    case False
    have "d \<le> march_days (m - 2)"
      using False month_cases [OF md(1,2)] md(4) by (auto simp: month_days_def march_days_def)
    then show ?thesis using False md gm_date_march [of "m - 2" d y] by (simp add: x day_number_def)
  qed
qed

lemma next_day_valid: "valid_date x \<Longrightarrow> valid_date (next_day x)"
  by (cases x) (auto simp: valid_date_def month_days_def)

lemma day_number_next: "valid_date x \<Longrightarrow> day_number (next_day x) = day_number x + 1"
proof -
  assume v: "valid_date x"
  obtain y m d where x: "x = (y, m, d)" by (cases x)
  have md: "1 \<le> m" "m \<le> 12" "d \<le> month_days y m" using v by (auto simp: x valid_date_def)
  have g: "gauss_month 1 = 0" "gauss_month 2 = 31" "gauss_month 3 = 61" "gauss_month 4 = 92" "gauss_month 5 = 122"
    "gauss_month 6 = 153" "gauss_month 7 = 184" "gauss_month 8 = 214" "gauss_month 9 = 245" "gauss_month 10 = 275"
    "gauss_month 11 = 306" "gauss_month 12 = 337"
    by (simp_all add: gauss_month_def)
  show ?thesis
    using month_cases [OF md(1,2)] md(3) gauss_year_Suc [of "y - 1"]
    by (auto simp: x day_number_def month_days_def g)
qed

lemma date_of_number: "valid_date (date_of n) \<and> day_number (date_of n) = int n + 719468"
proof (induction n)
  case 0
  show ?case by code_simp
next
  case (Suc n)
  then show ?case using next_day_valid day_number_next by (simp add: date_of_def)
qed

lemma gm_date_of: "gm_date (int n + 719468) = date_of n"
  using date_of_number [of n] gm_date_day_number [of "date_of n"] by simp

lemma ngx_gmtime_fields:
  fixes t :: int
  defines "T \<equiv> max 0 (min t 253402300799)"
  shows "(ngx_tm_year (ngx_gmtime t), ngx_tm_mon (ngx_gmtime t), ngx_tm_mday (ngx_gmtime t)) = date_of (nat (T div 86400))"
    and "ngx_tm_hour (ngx_gmtime t) = T mod 86400 div 3600"
    and "ngx_tm_min (ngx_gmtime t) = T mod 3600 div 60"
    and "ngx_tm_sec (ngx_gmtime t) = T mod 60"
    and "ngx_tm_wday (ngx_gmtime t) = (4 + T div 86400) mod 7"
proof -
  define t' where "t' = (if t < 0 then 0 else t)"
  have clamp: "(if t' div 86400 > 2932896 then (2932896, 86399) else (t' div 86400, t' mod 86400)) = (T div 86400, T mod 86400)"
  proof (cases "t' div 86400 > 2932896")
    case True
    then have "T = 253402300799" by (auto simp: t'_def T_def split: if_splits)
    then show ?thesis using True by simp
  next
    case False
    then have "T = t'" by (auto simp: t'_def T_def)
    then show ?thesis using False by simp
  qed
  have T: "0 \<le> T div 86400" "T div 86400 \<le> 2932896" unfolding T_def by (auto simp: pos_imp_zdiv_nonneg_iff) 
  then have u: "u64 (T div 86400 - (31 + 28) + 719527) = int (nat (T div 86400)) + 719468"
    by (subst u64_id) auto
  obtain year yday where gy: "gm_year (int (nat (T div 86400)) + 719468) = (year, yday)" by fastforce
  note gm = ngx_gmtime_def [of t] Let_def t'_def [symmetric] clamp prod.case u gy
  show "(ngx_tm_year (ngx_gmtime t), ngx_tm_mon (ngx_gmtime t), ngx_tm_mday (ngx_gmtime t)) = date_of (nat (T div 86400))"
    unfolding gm_date_of [symmetric] gm_date_def gm by (cases "yday \<ge> 306") (simp_all only: if_True if_False prod.case ngx_tm.select_convs)
  have "T mod 86400 mod 3600 = T mod 3600" "T mod 3600 mod 60 = T mod 60" by (rule mod_mod_cancel; simp)+
  then show "ngx_tm_hour (ngx_gmtime t) = T mod 86400 div 3600"
    "ngx_tm_min (ngx_gmtime t) = T mod 3600 div 60" "ngx_tm_sec (ngx_gmtime t) = T mod 60"
    "ngx_tm_wday (ngx_gmtime t) = (4 + T div 86400) mod 7"
    unfolding gm by (cases "yday \<ge> 306"; simp only: if_True if_False prod.case ngx_tm.select_convs)+
qed

section \<open>Printed fields\<close>

definition digit_text :: "nat \<Rightarrow> u_char" where
  "digit_text d = of_nat (d + 0x30)"

definition two_text :: "nat \<Rightarrow> u_char list" where
  "two_text n = [digit_text (n div 10), digit_text (n mod 10)]"

definition four_text :: "nat \<Rightarrow> u_char list" where
  "four_text n = two_text (n div 100) @ two_text (n mod 100)"

lemma base_digits_one: "n < 10 \<Longrightarrow> base_digits 10 n = [n]"
  by (subst base_digits.simps) simp

lemma base_digits_step: "10 \<le> n \<Longrightarrow> base_digits 10 n = base_digits 10 (n div 10) @ [n mod 10]"
  by (subst base_digits.simps) simp

lemma num_text_two:
  assumes "n < 100"
  shows "replicate (2 - length (sprintf_num_text n 0)) 0x30 @ sprintf_num_text n 0 = two_text n"
proof (cases "n < 10")
  case True
  then show ?thesis by (simp add: sprintf_num_text_digits base_digits_one two_text_def digit_text_def)
next
  case False
  then show ?thesis using assms
    by (simp add: sprintf_num_text_digits base_digits_step base_digits_one two_text_def digit_text_def)
qed

lemma num_text_four:
  assumes "1000 \<le> k" "k \<le> 9999" shows "sprintf_num_text k 0 = four_text k"
proof -
  have "base_digits 10 k = [k div 1000, k div 100 mod 10, k div 10 mod 10, k mod 10]"
    using assms base_digits_step [of k] base_digits_step [of "k div 10"] base_digits_step [of "k div 100"]
      base_digits_one [of "k div 1000"]
    by (simp add: div_mult2_eq [symmetric])
  moreover have "k div 1000 = k div 100 div 10" "k div 10 mod 10 = k mod 100 div 10" "k mod 10 = k mod 100 mod 10"
    by (simp_all add: div_mult2_eq [symmetric] mod_mult2_eq [of k 10 10, simplified] mod_mod_cancel)
  ultimately show ?thesis
    by (simp add: sprintf_num_text_digits four_text_def two_text_def digit_text_def)
qed

lemma directive_two:
  assumes "n < 100" "100 \<le> room"
  shows "vsl_directive room (0x30 # 0x32 # 0x64 # fmt) (VInt (int n) # args) = Some (two_text n, fmt, args)"
proof -
  have "ngx_sprintf_num room n 0x30 0 (Suc (Suc 0)) = two_text n"
    using assms num_text_two [of n] sprintf_num_full [of n room "Suc (Suc 0)"]
    by (simp add: numeral_2_eq_2 [symmetric])
  moreover have "i32 (int n) = int n" using assms by (simp add: i32_def)
  ultimately show ?thesis using assms by (simp add: vsl_directive_def conv_int_def print_int_def)
qed

lemma directive_four:
  assumes "1000 \<le> n" "n \<le> 9999" "100 \<le> room"
  shows "vsl_directive room (0x34 # 0x64 # fmt) (VInt (int n) # args) = Some (four_text n, fmt, args)"
    and "vsl_directive room (0x64 # fmt) (VInt (int n) # args) = Some (four_text n, fmt, args)"
proof -
  have "ngx_sprintf_num room n z 0 w = four_text n" if "w \<le> 4" for z w
    using assms num_text_four [OF assms(1,2)] that
    by (subst sprintf_num_full) (auto simp: four_text_def two_text_def)
  moreover have "i32 (int n) = int n" using assms by (simp add: i32_def)
  ultimately show "vsl_directive room (0x34 # 0x64 # fmt) (VInt (int n) # args) = Some (four_text n, fmt, args)"
    "vsl_directive room (0x64 # fmt) (VInt (int n) # args) = Some (four_text n, fmt, args)"
    using assms by (simp_all add: vsl_directive_def conv_int_def print_int_def)
qed

lemma directive_str:
  assumes "0 \<notin> set p" "length p \<le> room"
  shows "vsl_directive room (0x73 # fmt) (VPtr (p @ [0]) # args) = Some (p, fmt, args)"
proof -
  have "copy_cstr room (p @ [0]) = Some p" using assms by (induction p arbitrary: room) auto
  then show ?thesis by (simp add: vsl_directive_def ngx_sprintf_str_def)
qed

lemma http_time_text:
  assumes w: "0 \<notin> set w" "length w = 3" and m: "0 \<notin> set m" "length m = 3"
    and n: "d < 100" "1000 \<le> y" "y \<le> 9999" "h < 100" "mi < 100" "s < 100"
  shows "ngx_sprintf (bytes ''%s, %02d %s %4d %02d:%02d:%02d GMT'')
      [VPtr (w @ [0]), VInt (int d), VPtr (m @ [0]), VInt (int y), VInt (int h), VInt (int mi), VInt (int s)] =
    Some (w @ [0x2c, 0x20] @ two_text d @ [0x20] @ m @ [0x20] @ four_text y @ [0x20] @ two_text h @ [0x3a] @
      two_text mi @ [0x3a] @ two_text s @ bytes '' GMT'')"
  using assms
  by (simp add: ngx_sprintf_def ngx_vslprintf_def bytes_Cons directive_two directive_four directive_str
      two_text_def [THEN arg_cong, of length] four_text_def [THEN arg_cong, of length])

lemma cookie_time_text:
  assumes w: "0 \<notin> set w" "length w = 3" and m: "0 \<notin> set m" "length m = 3"
    and n: "d < 100" "y < 100" "h < 100" "mi < 100" "s < 100"
  shows "ngx_sprintf (bytes ''%s, %02d-%s-%02d %02d:%02d:%02d GMT'')
      [VPtr (w @ [0]), VInt (int d), VPtr (m @ [0]), VInt (int y), VInt (int h), VInt (int mi), VInt (int s)] =
    Some (w @ [0x2c, 0x20] @ two_text d @ [0x2d] @ m @ [0x2d] @ two_text y @ [0x20] @ two_text h @ [0x3a] @
      two_text mi @ [0x3a] @ two_text s @ bytes '' GMT'')"
  using assms
  by (simp add: ngx_sprintf_def ngx_vslprintf_def bytes_Cons directive_two directive_str
      two_text_def [THEN arg_cong, of length])

section \<open>Printed times are read back\<close>

lemma digit_text_value: "d < 10 \<Longrightarrow> uint (digit_text d) = int d + 0x30"
proof -
  assume "d < 10"
  then have "unat (of_nat (d + 0x30) :: u_char) = d + 0x30" by (simp only: unsigned_of_nat) (simp add: take_bit_nat_eq_self)
  then show ?thesis unfolding digit_text_def by (metis of_nat_add of_nat_numeral uint_nat)
qed

lemma digit_text_not_space: "d < 10 \<Longrightarrow> digit_text d \<noteq> 0x20"
  using digit_text_value [of d] by auto

lemma scan_digit_text:
  assumes "d < 10" "k < length p" "p ! k = digit_text d" shows "scan_digit p k = Val (int d)"
  using assms digit_text_value [OF assms(1)] by (simp add: scan_digit_def peek_def word_less_def)

lemma two_text_length [simp]: "length (two_text n) = 2" by (simp add: two_text_def)

lemma four_text_length [simp]: "length (four_text n) = 4" by (simp add: four_text_def)

lemma scan_two_text: "n < 100 \<Longrightarrow> scan_two (two_text n @ p) = Val (int n)"
proof -
  assume "n < 100"
  then have "scan_digit (two_text n @ p) 0 = Val (int (n div 10))" "scan_digit (two_text n @ p) 1 = Val (int (n mod 10))"
    by (intro scan_digit_text; simp add: two_text_def)+
  moreover have "int (n div 10) * 10 + int (n mod 10) = int n" by presburger
  ultimately show ?thesis unfolding scan_two_def by (simp only: scan_bind.simps)
qed

lemma scan_four_text: "n < 10000 \<Longrightarrow> scan_four (four_text n @ p) = Val (int n)"
proof -
  assume n: "n < 10000"
  define a b c d where abcd: "a = n div 100 div 10" "b = n div 100 mod 10" "c = n mod 100 div 10" "d = n mod 100 mod 10"
  have t: "four_text n = [digit_text a, digit_text b, digit_text c, digit_text d]"
    by (simp add: four_text_def two_text_def abcd)
  have "a < 10" "b < 10" "c < 10" "d < 10" using n unfolding abcd by (auto simp: less_mult_imp_div_less)
  then have "scan_digit (four_text n @ p) 0 = Val (int a)" "scan_digit (four_text n @ p) 1 = Val (int b)"
    "scan_digit (four_text n @ p) 2 = Val (int c)" "scan_digit (four_text n @ p) 3 = Val (int d)"
    by (intro scan_digit_text; simp add: t)+
  moreover have "a * 1000 + b * 100 + c * 10 + d = n"
    using div_mult_mod_eq [of n 100] div_mult_mod_eq [of "n div 100" 10] div_mult_mod_eq [of "n mod 100" 10]
    unfolding abcd by linarith
  then have "int a * 1000 + int b * 100 + int c * 10 + int d = int n" by linarith
  ultimately show ?thesis unfolding scan_four_def by (simp only: scan_bind.simps)
qed

lemma time_weekday_text:
  "0x2c \<notin> set w \<Longrightarrow> 0x20 \<notin> set w \<Longrightarrow> time_weekday (w @ 0x2c # p) = (no, 0x2c # p)"
  by (induction w) auto

definition month_text :: "nat \<Rightarrow> u_char list" where
  "month_text k = butlast (months ! k)"

definition weekday_text :: "nat \<Rightarrow> u_char list" where
  "weekday_text k = butlast (week ! k)"

lemma scan_skip_simp [simp]: "scan_skip c (c # p) = Val p"
  by (simp add: scan_skip_def peek_def)

lemma time_clock_text:
  "h < 100 \<Longrightarrow> mi < 100 \<Longrightarrow> s < 100 \<Longrightarrow>
     time_clock (0x20 # two_text h @ 0x3a # two_text mi @ 0x3a # two_text s @ p) = Val (int h, int mi, int s, two_text s @ p)"
  by (simp add: time_clock_def scan_two_text)

lemma parse_rfc822:
  assumes w: "0x2c \<notin> set w" "0x20 \<notin> set w" and m: "\<And>p. time_month (m @ p) = Val k" "length m = 3"
    and n: "d < 100" "y < 10000" "h < 100" "mi < 100" "s < 100"
  shows "http_time_scan (w @ [0x2c, 0x20] @ two_text d @ [0x20] @ m @ [0x20] @ four_text y @ [0x20] @ two_text h @ [0x3a] @
      two_text mi @ [0x3a] @ two_text s @ z) =
    (if time_valid (int y) k (int d) (int h) (int mi) (int s)
     then Val (time_seconds (int y) k (int d) (int h) (int mi) (int s)) else Err)"
proof -
  let ?c = "0x20 # two_text h @ 0x3a # two_text mi @ 0x3a # two_text s @ z"
  let ?p = "two_text d @ 0x20 # m @ 0x20 # four_text y @ ?c"
  have "digit_text (d div 10) \<noteq> 0x20" using n(1) by (intro digit_text_not_space) simp
  then have d: "dropWhile (\<lambda>c. c = 0x20) ?p = ?p" by (simp add: two_text_def)
  have day: "time_day no ?p = Val (rfc822, int d, m @ 0x20 # four_text y @ ?c)"
    using n m by (simp add: time_day_def scan_two_text peek_def Let_def)
  show ?thesis
    using w m n d
    by (simp add: http_time_scan_def time_weekday_text day time_separator_def time_year_def scan_four_text
        time_isoc_day_def time_clock_text time_isoc_year_def)
qed

lemma parse_rfc850:
  assumes w: "0x2c \<notin> set w" "0x20 \<notin> set w" and m: "\<And>p. time_month (m @ p) = Val k" "length m = 3"
    and n: "d < 100" "y < 100" "h < 100" "mi < 100" "s < 100"
  shows "http_time_scan (w @ [0x2c, 0x20] @ two_text d @ [0x2d] @ m @ [0x2d] @ two_text y @ [0x20] @ two_text h @ [0x3a] @
      two_text mi @ [0x3a] @ two_text s @ z) =
    (let year = int y + (if y < 70 then 2000 else 1900) in
     if time_valid year k (int d) (int h) (int mi) (int s)
     then Val (time_seconds year k (int d) (int h) (int mi) (int s)) else Err)"
proof -
  let ?c = "0x20 # two_text h @ 0x3a # two_text mi @ 0x3a # two_text s @ z"
  let ?p = "two_text d @ 0x2d # m @ 0x2d # two_text y @ ?c"
  have "digit_text (d div 10) \<noteq> 0x20" using n(1) by (intro digit_text_not_space) simp
  then have d: "dropWhile (\<lambda>c. c = 0x20) ?p = ?p" by (simp add: two_text_def)
  have day: "time_day no ?p = Val (rfc850, int d, m @ 0x2d # two_text y @ ?c)"
    using n m by (simp add: time_day_def scan_two_text peek_def Let_def)
  show ?thesis
    using w m n d
    by (simp add: http_time_scan_def time_weekday_text day time_separator_def time_year_def scan_two_text
        time_isoc_day_def time_clock_text time_isoc_year_def)
qed

lemma month_text:
  assumes "k < 12"
  shows "months ! k = month_text k @ [0]" "0 \<notin> set (month_text k)" "length (month_text k) = 3"
    "time_month (month_text k @ p) = Val (int k)"
proof -
  have k: "k = 0 \<or> k = 1 \<or> k = 2 \<or> k = 3 \<or> k = 4 \<or> k = 5 \<or> k = 6 \<or> k = 7 \<or> k = 8 \<or> k = 9 \<or> k = 10 \<or> k = 11"
    using assms by presburger
  show "months ! k = month_text k @ [0]" "0 \<notin> set (month_text k)" "length (month_text k) = 3"
    "time_month (month_text k @ p) = Val (int k)"
    using k by (elim disjE; simp add: month_text_def months_def bytes_Cons time_month_def peek_def)+
qed

lemma weekday_text:
  assumes "k < 7"
  shows "week ! k = weekday_text k @ [0]" "0 \<notin> set (weekday_text k)" "length (weekday_text k) = 3"
    "0x2c \<notin> set (weekday_text k)" "0x20 \<notin> set (weekday_text k)"
proof -
  have k: "k = 0 \<or> k = 1 \<or> k = 2 \<or> k = 3 \<or> k = 4 \<or> k = 5 \<or> k = 6" using assms by presburger
  show "week ! k = weekday_text k @ [0]" "0 \<notin> set (weekday_text k)" "length (weekday_text k) = 3"
    "0x2c \<notin> set (weekday_text k)" "0x20 \<notin> set (weekday_text k)"
    using k by (elim disjE; simp add: weekday_text_def week_def bytes_Cons)+
qed

lemma date_of_year_mono: "n \<le> k \<Longrightarrow> fst (date_of n) \<le> fst (date_of k)"
proof (induction k rule: dec_induct)
  case (step k)
  have "fst x \<le> fst (next_day x)" for x by (cases x) auto
  then have "fst (date_of k) \<le> fst (date_of (Suc k))" by (simp add: date_of_def)
  then show ?case using step.IH by (rule order_trans [rotated])
qed simp

lemma time_valid_date:
  assumes "valid_date (y, m, d)" "h \<le> 23" "mi \<le> 59" "s \<le> 59"
  shows "time_valid y (m - 1) d h mi s"
proof -
  have md: "1 \<le> m" "m \<le> 12" "d \<le> month_days y m" using assms(1) by (auto simp: valid_date_def)
  have "leap_year y \<longleftrightarrow> \<not> (y mod 4 \<noteq> 0 \<or> y mod 100 = 0 \<and> y mod 400 \<noteq> 0)"
    by (auto simp: leap_year_def mod_eq_0_iff_dvd)
  then show ?thesis using month_cases [OF md(1,2)] md(3) assms(2-4)
    by (auto simp: time_valid_def month_days_def mday_def split: if_splits)
qed

lemma time_seconds_number:
  assumes "1 \<le> y" "y \<le> 9999" "719468 \<le> day_number (y, m, d)" "day_number (y, m, d) \<le> 719468 + 2932896"
    and "0 \<le> c" "c < 86400" "h * 3600 + mi * 60 + s = c"
  shows "time_seconds y (m - 1) d h mi s = (day_number (y, m, d) - 719468) * 86400 + c"
proof -
  define n where "n = day_number (y, m, d) - 719468"
  have n: "0 \<le> n" "n \<le> 2932896" using assms(3,4) by (simp_all add: n_def)
  have un: "u64 n = n" using n by (intro u64_id) auto
  have uy: "u64 (y - 1) = y - 1" using assms(1,2) by (intro u64_id) auto
  have "time_seconds y (m - 1) d h mi s = i64 (u64 n * 86400 + h * 3600 + mi * 60 + s)"
    by (cases "m \<le> 2") (simp_all add: time_seconds_def Let_def n_def day_number_def uy add.commute [of 10])
  moreover have "n * 86400 + h * 3600 + mi * 60 + s = n * 86400 + c" using assms(7) by simp
  moreover have "i64 (n * 86400 + c) = n * 86400 + c" using n assms(5,6) by (intro i64_id) auto
  ultimately show ?thesis using un by (simp only: n_def)
qed

lemma div_bounds: "0 \<le> x \<Longrightarrow> x < k * c \<Longrightarrow> 0 < k \<Longrightarrow> 0 \<le> x div k \<and> x div k < c" for x k c :: int
proof (intro conjI)
  assume x: "0 \<le> x" "x < k * c" and k: "0 < k"
  show "0 \<le> x div k" using x k by (simp add: pos_imp_zdiv_nonneg_iff)
  have "k * (x div k) \<le> x" using mult_div_mod_eq [of k x] pos_mod_sign [OF k, of x] by linarith
  then have "k * (x div k) < k * c" using x by linarith
  then show "x div k < c" using k by simp
qed

text \<open>The fields of a time within the supported range.\<close>

lemma gmtime_range:
  fixes t :: int
  assumes "0 \<le> t" "t \<le> 253402300799"
  obtains y m d h mi s w where
    "ngx_gmtime t = \<lparr>ngx_tm_sec = int s, ngx_tm_min = int mi, ngx_tm_hour = int h, ngx_tm_mday = int d,
       ngx_tm_mon = int m + 1, ngx_tm_year = int y, ngx_tm_wday = int w\<rparr>"
    "1970 \<le> y" "y \<le> 9999" "m < 12" "d < 100" "h < 100" "mi < 100" "s < 100" "w < 7"
    "time_valid (int y) (int m) (int d) (int h) (int mi) (int s)"
    "time_seconds (int y) (int m) (int d) (int h) (int mi) (int s) = t"
proof -
  let ?tm = "ngx_gmtime t" and ?n = "nat (t div 86400)"
  have T: "max 0 (min t 253402300799) = t" using assms by simp
  note f = ngx_gmtime_fields [of t, unfolded T]
  obtain y m d where date: "date_of ?n = (y, m, d)" by (cases "date_of ?n")
  then have fy: "ngx_tm_year ?tm = y" "ngx_tm_mon ?tm = m" "ngx_tm_mday ?tm = d" using f(1) by simp_all
  have n: "?n \<le> 2932896" "int ?n = t div 86400" using assms by (simp_all add: nat_le_iff pos_imp_zdiv_nonneg_iff)
  have valid: "valid_date (y, m, d)" and num: "day_number (y, m, d) = int ?n + 719468"
    using date_of_number [of ?n] by (simp_all add: date)
  have "gm_date 3652364 = (9999, 12, 31)" by code_simp
  then have "date_of 2932896 = (9999, 12, 31)" using gm_date_of [of 2932896] by simp
  then have y: "1970 \<le> y" "y \<le> 9999"
    using date_of_year_mono [of 0 ?n] date_of_year_mono [OF n(1)] date by (simp_all add: date_of_def)
  have md: "1 \<le> m" "m \<le> 12" "1 \<le> d" "d \<le> 31"
    using valid by (auto simp: valid_date_def month_days_def split: if_splits)
  define h mi sec w where hms: "h = t mod 86400 div 3600" "mi = t mod 3600 div 60" "sec = t mod 60" "w = (4 + t div 86400) mod 7"
  have clock: "0 \<le> h" "h \<le> 23" "0 \<le> mi" "mi \<le> 59" "0 \<le> sec" "sec \<le> 59" "0 \<le> w" "w < 7"
    using div_bounds [of "t mod 86400" 3600 24] div_bounds [of "t mod 3600" 60 60] pos_mod_bound [of 60 t]
    unfolding hms by simp_all
  have "t mod 86400 = 3600 * h + t mod 3600" "t mod 3600 = 60 * mi + sec"
    using mult_div_mod_eq [of 3600 "t mod 86400"] mult_div_mod_eq [of 60 "t mod 3600"]
    by (simp_all add: mod_mod_cancel hms)
  then have c: "h * 3600 + mi * 60 + sec = t mod 86400" by simp
  have secs: "time_seconds y (m - 1) d h mi sec = t"
    using time_seconds_number [of y m d "t mod 86400" h mi sec] y n c unfolding num by simp
  have tm: "ngx_gmtime t = \<lparr>ngx_tm_sec = sec, ngx_tm_min = mi, ngx_tm_hour = h, ngx_tm_mday = d,
      ngx_tm_mon = m, ngx_tm_year = y, ngx_tm_wday = w\<rparr>"
    by (rule ngx_tm.equality) (simp_all add: f fy hms)
  have nats: "int (nat sec) = sec" "int (nat mi) = mi" "int (nat h) = h" "int (nat d) = d" "int (nat (m - 1)) = m - 1"
    "int (nat y) = y" "int (nat w) = w"
    using md y clock by simp_all
  show thesis
    by (rule that [of "nat sec" "nat mi" "nat h" "nat d" "nat (m - 1)" "nat y" "nat w"], unfold nats)
      (use y md clock secs tm time_valid_date [OF valid clock(2,4,6)] in \<open>simp_all only:, simp_all\<close>)
qed

lemma http_time_read_back:
  assumes "0 \<le> t" "t \<le> 253402300799"
  shows "\<exists>s. ngx_http_time t = Some s \<and> length s = 29 \<and> ngx_parse_http_time s = Some t"
proof -
  obtain y m d h mi s w where tm: "ngx_gmtime t = \<lparr>ngx_tm_sec = int s, ngx_tm_min = int mi, ngx_tm_hour = int h,
      ngx_tm_mday = int d, ngx_tm_mon = int m + 1, ngx_tm_year = int y, ngx_tm_wday = int w\<rparr>"
    and r: "1970 \<le> y" "y \<le> 9999" "m < 12" "d < 100" "h < 100" "mi < 100" "s < 100" "w < 7"
    and v: "time_valid (int y) (int m) (int d) (int h) (int mi) (int s)"
      "time_seconds (int y) (int m) (int d) (int h) (int mi) (int s) = t"
    using gmtime_range [OF assms] .
  let ?s = "weekday_text w @ [0x2c, 0x20] @ two_text d @ [0x20] @ month_text m @ [0x20] @ four_text y @ [0x20] @
      two_text h @ [0x3a] @ two_text mi @ [0x3a] @ two_text s @ bytes '' GMT''"
  have "ngx_http_time t = Some ?s"
    using r http_time_text [OF weekday_text(2,3) [OF r(8)] month_text(2,3) [OF r(3)], of d y h mi s]
    by (simp add: ngx_http_time_def Let_def tm weekday_text(1) month_text(1))
  moreover have "http_time_scan ?s = Val t"
    using r v parse_rfc822 [OF weekday_text(4,5) [OF r(8)] month_text(4) [OF r(3)] month_text(3) [OF r(3)], of d y h mi s]
    by simp
  ultimately show ?thesis using r by (simp add: ngx_parse_http_time_def weekday_text(3) month_text(3))
qed

lemma two_digit_year:
  assumes "1970 \<le> y" "y \<le> 2037" shows "int (y mod 100) + (if y mod 100 < 70 then 2000 else 1900) = int y"
proof -
  have "y mod 100 = (if y < 2000 then y - 1900 else y - 2000)"
    using assms mod_mult_self1 [of "y - 1900" 19 100] mod_mult_self1 [of "y - 2000" 20 100]
    by auto
  then show ?thesis using assms by auto
qed

lemma cookie_time_read_back:
  assumes "0 \<le> t" "t < 2145916800"
  shows "\<exists>s. ngx_http_cookie_time t = Some s \<and> ngx_parse_http_time s = Some t"
proof -
  have T: "0 \<le> t" "t \<le> 253402300799" using assms by simp_all
  obtain y m d h mi s w where tm: "ngx_gmtime t = \<lparr>ngx_tm_sec = int s, ngx_tm_min = int mi, ngx_tm_hour = int h,
      ngx_tm_mday = int d, ngx_tm_mon = int m + 1, ngx_tm_year = int y, ngx_tm_wday = int w\<rparr>"
    and r: "1970 \<le> y" "y \<le> 9999" "m < 12" "d < 100" "h < 100" "mi < 100" "s < 100" "w < 7"
    and v: "time_valid (int y) (int m) (int d) (int h) (int mi) (int s)"
      "time_seconds (int y) (int m) (int d) (int h) (int mi) (int s) = t"
    using gmtime_range [OF T] .
  have "nat (t div 86400) \<le> 24836" using assms by (simp add: nat_le_iff)
  moreover have "gm_date 744304 = (2037, 12, 31)" by code_simp
  then have "date_of 24836 = (2037, 12, 31)" using gm_date_of [of 24836] by simp
  moreover have "(int y, int m + 1, int d) = date_of (nat (t div 86400))"
    using ngx_gmtime_fields(1) [of t] T by (simp add: tm)
  ultimately have y: "y \<le> 2037" using date_of_year_mono [of "nat (t div 86400)" 24836] by (metis fst_conv of_nat_le_iff of_nat_numeral)
  define z where "z = y mod 100"
  have z: "z < 100" "int z = int y mod 100" "int z + (if z < 70 then 2000 else 1900) = int y"
    using two_digit_year [OF r(1) y] unfolding z_def by (simp_all add: zmod_int)
  let ?s = "weekday_text w @ [0x2c, 0x20] @ two_text d @ [0x2d] @ month_text m @ [0x2d] @ two_text z @ [0x20] @
      two_text h @ [0x3a] @ two_text mi @ [0x3a] @ two_text s @ bytes '' GMT''"
  have "ngx_http_cookie_time t = Some ?s"
    using r y z(1) cookie_time_text [OF weekday_text(2,3) [OF r(8)] month_text(2,3) [OF r(3)], of d z h mi s]
    by (simp add: ngx_http_cookie_time_def Let_def tm weekday_text(1) month_text(1) flip: z(2))
  moreover have "http_time_scan ?s = Val t"
    using r z v parse_rfc850 [OF weekday_text(4,5) [OF r(8)] month_text(4) [OF r(3)] month_text(3) [OF r(3)], of d z h mi s]
    by (simp add: Let_def)
  ultimately show ?thesis by (simp add: ngx_parse_http_time_def)
qed

section \<open>The parser stays within its input\<close>

definition within :: "('a \<Rightarrow> bool) \<Rightarrow> 'a scan \<Rightarrow> bool" where
  "within P m = (case m of Val x \<Rightarrow> P x | Err \<Rightarrow> True | Overrun \<Rightarrow> False)"

lemma within_simps [simp]: "within P (Val x) = P x" "within P Err" "\<not> within P Overrun"
  by (simp_all add: within_def)

lemma within_bind: "within P m \<Longrightarrow> (\<And>x. P x \<Longrightarrow> within Q (f x)) \<Longrightarrow> within Q (scan_bind m f)"
  by (cases m) simp_all

lemma within_peek: "k < length p \<Longrightarrow> within (\<lambda>_. True) (peek p k)"
  by (simp add: peek_def)

lemma within_digits:
  "k < length p \<Longrightarrow> within (\<lambda>_. True) (scan_digit p k)"
  "2 \<le> length p \<Longrightarrow> within (\<lambda>_. True) (scan_two p)"
  "4 \<le> length p \<Longrightarrow> within (\<lambda>_. True) (scan_four p)"
proof -
  show d: "k < length p \<Longrightarrow> within (\<lambda>_. True) (scan_digit p k)" for p k
    unfolding scan_digit_def by (rule within_bind [OF within_peek]) simp_all
  show "2 \<le> length p \<Longrightarrow> within (\<lambda>_. True) (scan_two p)"
    unfolding scan_two_def by (intro within_bind [OF d]) auto
  show "4 \<le> length p \<Longrightarrow> within (\<lambda>_. True) (scan_four p)"
    unfolding scan_four_def by (intro within_bind [OF d]) auto
qed

lemma within_skip: "k < length p \<Longrightarrow> within (\<lambda>q. k \<le> length q) (scan_skip c p)"
  by (cases p) (auto simp: scan_skip_def peek_def)

lemma within_month: "3 \<le> length p \<Longrightarrow> within (\<lambda>_. True) (time_month p)"
  by (auto simp: time_month_def peek_def)

lemma within_clock: "k + 9 \<le> length p \<Longrightarrow> within (\<lambda>(_, _, _, q). k + 2 \<le> length q) (time_clock p)"
  unfolding time_clock_def
  by (rule within_bind [OF within_skip [of "k + 8"]], simp, rule within_bind [OF within_digits(2)], simp,
      rule within_bind [OF within_skip [of "k + 5"]], simp, rule within_bind [OF within_digits(2)], simp,
      rule within_bind [OF within_skip [of "k + 2"]], simp, rule within_bind [OF within_digits(2)]) simp_all

lemma within_day:
  "18 \<le> length p \<Longrightarrow> fmt \<in> {no, isoc} \<Longrightarrow> within (\<lambda>(fmt, _, q). case fmt of rfc822 \<Rightarrow> 17 \<le> length q |
     rfc850 \<Rightarrow> 15 \<le> length q | isoc \<Rightarrow> 18 \<le> length q | no \<Rightarrow> False) (time_day fmt p)"
  unfolding time_day_def Let_def
  by (auto intro!: within_bind [OF within_digits(2)] within_bind [OF within_peek] split: if_splits)

lemma scan_bind_assoc: "scan_bind (scan_bind m f) g = scan_bind m (\<lambda>x. scan_bind (f x) g)"
  by (cases m) simp_all

lemma within_isoc_day:
  "14 \<le> length p \<Longrightarrow> within (\<lambda>(_, q). 14 \<le> length q) (time_isoc_day isoc day p)"
  unfolding time_isoc_day_def Let_def
  by (auto intro!: within_bind [OF within_digits(1)] within_bind [OF within_peek] simp: scan_bind_assoc split: if_splits)

lemma time_weekday_fmt: "fst (time_weekday v) \<in> {no, isoc}"
  by (induction v) auto

text \<open>After the day each format has enough bytes for what is left of it: the fixed tail of the date
  is as long as the checks of the length require.\<close>

lemma http_time_scan_within: "within (\<lambda>_. True) (http_time_scan v)"
proof -
  have tail: "within (\<lambda>_. True) (scan_bind (time_month p) (\<lambda>month. scan_bind (time_separator fmt (drop 3 p)) (\<lambda>p.
      scan_bind (time_year fmt p) (\<lambda>(year, p). scan_bind (time_isoc_day fmt day p) (\<lambda>(day, p).
      scan_bind (time_clock p) (\<lambda>(hour, minute, sec, p). scan_bind (time_isoc_year fmt year p) (\<lambda>year.
        if time_valid year month day hour minute sec
        then Val (time_seconds year month day hour minute sec) else Err)))))))"
    if "case fmt of rfc822 \<Rightarrow> 17 \<le> length p | rfc850 \<Rightarrow> 15 \<le> length p | isoc \<Rightarrow> 18 \<le> length p | no \<Rightarrow> False" for fmt day p
  proof -
    have sep: "within (\<lambda>q. case fmt of rfc822 \<Rightarrow> 13 \<le> length q | rfc850 \<Rightarrow> 11 \<le> length q | isoc \<Rightarrow> 14 \<le> length q | no \<Rightarrow> False)
        (time_separator fmt (drop 3 p))"
      using that within_skip [of 13 "drop 3 p" "0x20"] within_skip [of 11 "drop 3 p" "0x2d"]
      by (cases fmt) (auto simp: time_separator_def)
    have year: "within (\<lambda>(_, q). if fmt = isoc then 14 \<le> length q else 9 \<le> length q) (time_year fmt q)"
      if "case fmt of rfc822 \<Rightarrow> 13 \<le> length q | rfc850 \<Rightarrow> 11 \<le> length q | isoc \<Rightarrow> 14 \<le> length q | no \<Rightarrow> False" for q
      using that by (cases fmt) (auto simp: time_year_def intro!: within_bind [OF within_digits(3)] within_bind [OF within_digits(2)])
    have day: "within (\<lambda>(_, q). if fmt = isoc then 14 \<le> length q else 9 \<le> length q) (time_isoc_day fmt day q)"
      if "if fmt = isoc then 14 \<le> length q else 9 \<le> length q" for day q
      using that within_isoc_day [of q day] by (cases "fmt = isoc") (auto simp: time_isoc_day_def)
    have clock: "within (\<lambda>(_, _, _, q). if fmt = isoc then 7 \<le> length q else True) (time_clock q)"
      if "if fmt = isoc then 14 \<le> length q else 9 \<le> length q" for q
      using that within_clock [of 5 q] within_clock [of 0 q] by (cases "fmt = isoc") (auto simp: within_def split: scan.splits)
    have last: "within (\<lambda>_. True) (time_isoc_year fmt year q)" if "if fmt = isoc then 7 \<le> length q else True" for year q
      using that within_bind [OF within_skip [of 4 "drop 2 q" "0x20"], where Q = "\<lambda>_. True" and f = scan_four] within_digits(3)
      by (cases "fmt = isoc") (simp_all add: time_isoc_year_def)
    have "3 \<le> length p" using that by (cases fmt) auto
    then show ?thesis
      by (rule within_bind [OF within_month]) (rule within_bind [OF sep], rule within_bind [OF year], assumption,
        clarify, rule within_bind [OF day], assumption, clarify, rule within_bind [OF clock], assumption,
        clarify, rule within_bind [OF last], simp_all)
  qed
  obtain fmt p where w: "time_weekday v = (fmt, p)" by fastforce
  show ?thesis
    unfolding http_time_scan_def w Let_def prod.case
    using time_weekday_fmt [of v] by (auto simp: w intro!: within_bind [OF within_day] tail)
qed

section \<open>Properties\<close>

text \<open>
  C22: the broken-down time is the one of the calendar. For every time, clamped to the years 1970 to
  9999, the year, month and day \<^verbatim>\<open>ngx_gmtime\<close> computes with Gauss' formula are the date reached
  from January 1, 1970 by going on one day after the other with the Gregorian leap year rule, the
  clock is the rest of the day, and the day of the week advances with the days from a Thursday.
\<close>

theorem gmtime_calendar:
  fixes t :: int
  defines "T \<equiv> max 0 (min t 253402300799)"
  shows "(ngx_tm_year (ngx_gmtime t), ngx_tm_mon (ngx_gmtime t), ngx_tm_mday (ngx_gmtime t)) = date_of (nat (T div 86400)) \<and>
    ngx_tm_hour (ngx_gmtime t) * 3600 + ngx_tm_min (ngx_gmtime t) * 60 + ngx_tm_sec (ngx_gmtime t) = T mod 86400 \<and>
    0 \<le> ngx_tm_hour (ngx_gmtime t) \<and> 0 \<le> ngx_tm_min (ngx_gmtime t) \<and> ngx_tm_min (ngx_gmtime t) < 60 \<and>
    0 \<le> ngx_tm_sec (ngx_gmtime t) \<and> ngx_tm_sec (ngx_gmtime t) < 60 \<and>
    ngx_tm_wday (ngx_gmtime t) = (4 + T div 86400) mod 7"
proof -
  note f = ngx_gmtime_fields [of t, folded T_def]
  have "T mod 86400 = 3600 * (T mod 86400 div 3600) + T mod 3600" "T mod 3600 = 60 * (T mod 3600 div 60) + T mod 60"
    using mult_div_mod_eq [of 3600 "T mod 86400"] mult_div_mod_eq [of 60 "T mod 3600"] by (simp_all add: mod_mod_cancel)
  then have "T mod 86400 div 3600 * 3600 + T mod 3600 div 60 * 60 + T mod 60 = T mod 86400" by simp
  then show ?thesis
    unfolding f using div_bounds [of "T mod 86400" 3600 24] div_bounds [of "T mod 3600" 60 60] pos_mod_bound [of 60 T] by simp
qed

text \<open>
  C23: dates are read back. The date of HTTP headers that \<^verbatim>\<open>ngx_http_time\<close> prints for any second of
  the years 1970 to 9999 has 29 bytes and is parsed back to that second by \<^verbatim>\<open>ngx_parse_http_time\<close>,
  and so is the date of cookies up to the end of 2037; and on any input whatsoever the parser
  returns a result, without reading a byte past the end of its input.
\<close>

theorem http_time_roundtrip:
  assumes "0 \<le> t" and "t \<le> 253402300799"
  shows "(\<exists>s. ngx_http_time t = Some s \<and> length s = 29 \<and> ngx_parse_http_time s = Some t) \<and>
    (t < 2145916800 \<longrightarrow> (\<exists>s. ngx_http_cookie_time t = Some s \<and> ngx_parse_http_time s = Some t)) \<and>
    (\<forall>v. ngx_parse_http_time v \<noteq> None)"
proof -
  have "ngx_parse_http_time v \<noteq> None" for v
    using http_time_scan_within [of v] by (auto simp: ngx_parse_http_time_def split: scan.splits)
  then show ?thesis using http_time_read_back [OF assms] cookie_time_read_back [OF assms(1)] by blast
qed

theorem http_time_roundtrip_witness:
  "(\<exists>s. ngx_http_time 951782399 = Some s \<and> length s = 29 \<and> ngx_parse_http_time s = Some 951782399) \<and>
   (\<exists>s. ngx_http_cookie_time 951782399 = Some s \<and> ngx_parse_http_time s = Some 951782399)"
  using http_time_roundtrip [of 951782399] by simp

text \<open>The parser accepts the day 0, and a January or February of the year 0 whose year before
  wraps around.\<close>

lemma http_time_day_zero:
  "ngx_parse_http_time (bytes ''Sun, 00 Nov 2002 23:50:13 GMT'') =
   ngx_parse_http_time (bytes ''Thu, 31 Oct 2002 23:50:13 GMT'')"
  by code_simp

end
