(* ===== verification/Ngx_Time_Cache.thy ===== *)
theory Ngx_Time_Cache
  imports Ngx_Times
begin

text \<open>
  The cache of formatted times (src/nginx/src/core/ngx_times.c): \<^verbatim>\<open>ngx_time_init\<close>,
  \<^verbatim>\<open>ngx_time_update\<close> and its signal safe variant. The formatted times are shown to fit their
  buffers, and the slots that readers use without a lock to stay intact until the ring of slots has
  gone round.
\<close>

section \<open>The cache\<close>

text \<open>The cache has 64 slots. Readers follow the published pointers (modelled by the number of the
  slot they point into) without taking the lock; an update prepares the next slot and then publishes
  it. \<open>ngx_trylock\<close> is the argument \<open>locked\<close>: an update that finds the lock taken returns at once.
  The system clock, the monotonic clock and the local time of the C library are arguments. Writing a
  formatted time leaves the bytes of the buffer behind its end as they are, and is undefined when it
  is longer than the buffer. The configuration is the one of Linux (\<^verbatim>\<open>NGX_HAVE_GMTOFF\<close>, the
  monotonic clock).\<close>

definition NGX_TIME_SLOTS :: nat where
  "NGX_TIME_SLOTS = 64"

record ngx_time =
  t_sec :: int
  t_msec :: int
  t_gmtoff :: int

record time_cache =
  slot :: nat
  cached_gmtoff :: int
  cached_time :: "ngx_time list"
  cached_err_log_time :: "u_char list list"
  cached_http_time :: "u_char list list"
  cached_http_log_time :: "u_char list list"
  cached_http_log_iso8601 :: "u_char list list"
  cached_syslog_time :: "u_char list list"
  ngx_current_msec :: int
  ngx_cached_time :: nat
  ngx_cached_err_log_time :: nat
  ngx_cached_http_time :: nat
  ngx_cached_http_log_time :: nat
  ngx_cached_http_log_iso8601 :: nat
  ngx_cached_syslog_time :: nat

definition time_write :: "u_char list list \<Rightarrow> nat \<Rightarrow> u_char list option \<Rightarrow> u_char list list option" where
  "time_write bufs k s =
     (case s of
        None \<Rightarrow> None
      | Some t \<Rightarrow>
          if k < length bufs \<and> length t \<le> length (bufs ! k)
          then Some (bufs[k := t @ drop (length t) (bufs ! k)]) else None)"

definition ngx_abs :: "int \<Rightarrow> int" where
  "ngx_abs v = (if v \<ge> 0 then v else - v)"

text \<open>Division and remainder of C, which truncate.\<close>

definition c_div :: "int \<Rightarrow> int \<Rightarrow> int" where
  "c_div a b = sgn a * sgn b * (\<bar>a\<bar> div \<bar>b\<bar>)"

definition c_mod :: "int \<Rightarrow> int \<Rightarrow> int" where
  "c_mod a b = a - c_div a b * b"

definition err_log_time :: "ngx_tm \<Rightarrow> u_char list option" where
  "err_log_time tm = ngx_sprintf (bytes ''%4d/%02d/%02d %02d:%02d:%02d'')
     [VInt (ngx_tm_year tm), VInt (ngx_tm_mon tm), VInt (ngx_tm_mday tm), VInt (ngx_tm_hour tm),
      VInt (ngx_tm_min tm), VInt (ngx_tm_sec tm)]"

definition http_log_time :: "ngx_tm \<Rightarrow> int \<Rightarrow> u_char list option" where
  "http_log_time tm gmtoff = ngx_sprintf (bytes ''%02d/%s/%d:%02d:%02d:%02d %c%02i%02i'')
     [VInt (ngx_tm_mday tm), VPtr (months ! nat (ngx_tm_mon tm - 1)), VInt (ngx_tm_year tm), VInt (ngx_tm_hour tm),
      VInt (ngx_tm_min tm), VInt (ngx_tm_sec tm), VInt (if gmtoff < 0 then 0x2d else 0x2b),
      VInt (ngx_abs (c_div gmtoff 60)), VInt (ngx_abs (c_mod gmtoff 60))]"

definition http_log_iso8601 :: "ngx_tm \<Rightarrow> int \<Rightarrow> u_char list option" where
  "http_log_iso8601 tm gmtoff = ngx_sprintf (bytes ''%4d-%02d-%02dT%02d:%02d:%02d%c%02i:%02i'')
     [VInt (ngx_tm_year tm), VInt (ngx_tm_mon tm), VInt (ngx_tm_mday tm), VInt (ngx_tm_hour tm),
      VInt (ngx_tm_min tm), VInt (ngx_tm_sec tm), VInt (if gmtoff < 0 then 0x2d else 0x2b),
      VInt (ngx_abs (c_div gmtoff 60)), VInt (ngx_abs (c_mod gmtoff 60))]"

definition syslog_time :: "ngx_tm \<Rightarrow> u_char list option" where
  "syslog_time tm = ngx_sprintf (bytes ''%s %2d %02d:%02d:%02d'')
     [VPtr (months ! nat (ngx_tm_mon tm - 1)), VInt (ngx_tm_mday tm), VInt (ngx_tm_hour tm), VInt (ngx_tm_min tm),
      VInt (ngx_tm_sec tm)]"

definition next_slot :: "nat \<Rightarrow> nat" where
  "next_slot k = (if k = NGX_TIME_SLOTS - 1 then 0 else k + 1)"

text \<open>\<^verbatim>\<open>localtime\<close>: the broken-down local time of a second, with the month counted from 0 and the year
  from 1900, and its offset from GMT in seconds.\<close>

definition ngx_localtime :: "(int \<Rightarrow> ngx_tm \<times> int) \<Rightarrow> int \<Rightarrow> ngx_tm \<times> int" where
  "ngx_localtime localtime s = (case localtime s of (tm, off) \<Rightarrow>
     (tm\<lparr>ngx_tm_mon := ngx_tm_mon tm + 1, ngx_tm_year := ngx_tm_year tm + 1900\<rparr>, off))"

definition ngx_monotonic_time :: "int \<Rightarrow> int \<Rightarrow> int" where
  "ngx_monotonic_time tv_sec tv_nsec = u64 (tv_sec * 1000 + tv_nsec div 1000000)"

definition ngx_time_update ::
  "(int \<Rightarrow> ngx_tm \<times> int) \<Rightarrow> bool \<Rightarrow> int \<times> int \<Rightarrow> int \<times> int \<Rightarrow> time_cache \<Rightarrow> time_cache option" where
  "ngx_time_update localtime locked tv ts st =
     (if locked then Some st
      else
        let sec = fst tv; msec = snd tv div 1000;
            st = st\<lparr>ngx_current_msec := ngx_monotonic_time (fst ts) (snd ts)\<rparr>;
            tp = cached_time st ! slot st
        in if t_sec tp = sec then Some (st\<lparr>cached_time := (cached_time st)[slot st := tp\<lparr>t_msec := msec\<rparr>]\<rparr>)
        else
          let k = next_slot (slot st);
              (tm, off) = ngx_localtime localtime sec;
              gmtoff = c_div off 60
          in case (time_write (cached_http_time st) k (ngx_http_time sec),
                   time_write (cached_err_log_time st) k (err_log_time tm),
                   time_write (cached_http_log_time st) k (http_log_time tm gmtoff),
                   time_write (cached_http_log_iso8601 st) k (http_log_iso8601 tm gmtoff),
                   time_write (cached_syslog_time st) k (syslog_time tm)) of
               (Some p0, Some p1, Some p2, Some p3, Some p4) \<Rightarrow>
                 Some (st\<lparr>slot := k, cached_gmtoff := gmtoff,
                         cached_time := (cached_time st)[k := \<lparr>t_sec = sec, t_msec = msec, t_gmtoff = gmtoff\<rparr>],
                         cached_http_time := p0, cached_err_log_time := p1, cached_http_log_time := p2,
                         cached_http_log_iso8601 := p3, cached_syslog_time := p4,
                         ngx_cached_time := k, ngx_cached_http_time := k, ngx_cached_err_log_time := k,
                         ngx_cached_http_log_time := k, ngx_cached_http_log_iso8601 := k,
                         ngx_cached_syslog_time := k\<rparr>)
             | _ \<Rightarrow> None)"

definition ngx_time_sigsafe_update :: "bool \<Rightarrow> int \<times> int \<Rightarrow> time_cache \<Rightarrow> time_cache option" where
  "ngx_time_sigsafe_update locked tv st =
     (if locked then Some st
      else
        let sec = fst tv
        in if t_sec (cached_time st ! slot st) = sec then Some st
        else
          let k = next_slot (slot st); tm = ngx_gmtime (sec + cached_gmtoff st * 60)
          in case (time_write (cached_err_log_time st) k (err_log_time tm),
                   time_write (cached_syslog_time st) k (syslog_time tm)) of
               (Some p, Some p2) \<Rightarrow>
                 Some (st\<lparr>slot := k, cached_time := (cached_time st)[k := (cached_time st ! k)\<lparr>t_sec := 0\<rparr>],
                         cached_err_log_time := p, cached_syslog_time := p2,
                         ngx_cached_err_log_time := k, ngx_cached_syslog_time := k\<rparr>)
             | _ \<Rightarrow> None)"

definition time_cache_zero :: time_cache where
  "time_cache_zero =
     \<lparr>slot = 0, cached_gmtoff = 0, cached_time = replicate NGX_TIME_SLOTS \<lparr>t_sec = 0, t_msec = 0, t_gmtoff = 0\<rparr>,
      cached_err_log_time = replicate NGX_TIME_SLOTS (replicate (length ''1970/09/28 12:00:00'' + 1) 0),
      cached_http_time = replicate NGX_TIME_SLOTS (replicate (length ''Mon, 28 Sep 1970 06:00:00 GMT'' + 1) 0),
      cached_http_log_time = replicate NGX_TIME_SLOTS (replicate (length ''28/Sep/1970:12:00:00 +0600'' + 1) 0),
      cached_http_log_iso8601 = replicate NGX_TIME_SLOTS (replicate (length ''1970-09-28T12:00:00+06:00'' + 1) 0),
      cached_syslog_time = replicate NGX_TIME_SLOTS (replicate (length ''Sep 28 12:00:00'' + 1) 0),
      ngx_current_msec = 0, ngx_cached_time = 0, ngx_cached_err_log_time = 0, ngx_cached_http_time = 0,
      ngx_cached_http_log_time = 0, ngx_cached_http_log_iso8601 = 0, ngx_cached_syslog_time = 0\<rparr>"

definition ngx_time_init :: "(int \<Rightarrow> ngx_tm \<times> int) \<Rightarrow> int \<times> int \<Rightarrow> int \<times> int \<Rightarrow> time_cache option" where
  "ngx_time_init localtime tv ts = ngx_time_update localtime False tv ts time_cache_zero"

section \<open>The formatted times fill their buffers\<close>

text \<open>What the formats need of a broken-down time: a year of four digits and fields of two.\<close>

definition tm_fits :: "ngx_tm \<Rightarrow> bool" where
  "tm_fits tm \<longleftrightarrow> 1000 \<le> ngx_tm_year tm \<and> ngx_tm_year tm \<le> 9999 \<and> 1 \<le> ngx_tm_mon tm \<and> ngx_tm_mon tm \<le> 12 \<and>
     0 \<le> ngx_tm_mday tm \<and> ngx_tm_mday tm \<le> 99 \<and> 0 \<le> ngx_tm_hour tm \<and> ngx_tm_hour tm \<le> 99 \<and>
     0 \<le> ngx_tm_min tm \<and> ngx_tm_min tm \<le> 99 \<and> 0 \<le> ngx_tm_sec tm \<and> ngx_tm_sec tm \<le> 99"

lemma directive_two_int:
  assumes "0 \<le> v" "v \<le> 99" "100 \<le> room"
  shows "vsl_directive room (0x30 # 0x32 # 0x64 # fmt) (VInt v # args) = Some (two_text (nat v), fmt, args)"
    and "vsl_directive room (0x30 # 0x32 # 0x69 # fmt) (VInt v # args) = Some (two_text (nat v), fmt, args)"
proof -
  have n: "nat v < 100" "VInt v = VInt (int (nat v))" using assms by simp_all
  show "vsl_directive room (0x30 # 0x32 # 0x64 # fmt) (VInt v # args) = Some (two_text (nat v), fmt, args)"
    using directive_two [OF n(1) assms(3)] n(2) by simp
  have "ngx_sprintf_num room (nat v) 0x30 0 (Suc (Suc 0)) = two_text (nat v)"
    using n(1) assms(3) num_text_two [OF n(1)] sprintf_num_full [of "nat v" room "Suc (Suc 0)"]
    by (simp add: numeral_2_eq_2 [symmetric])
  moreover have "i64 v = v" using assms by (intro i64_id) auto
  ultimately show "vsl_directive room (0x30 # 0x32 # 0x69 # fmt) (VInt v # args) = Some (two_text (nat v), fmt, args)"
    using assms by (simp add: vsl_directive_def conv_int_def print_int_def)
qed

lemma directive_year:
  assumes "1000 \<le> v" "v \<le> 9999" "100 \<le> room"
  shows "vsl_directive room (0x34 # 0x64 # fmt) (VInt v # args) = Some (four_text (nat v), fmt, args)"
    and "vsl_directive room (0x64 # fmt) (VInt v # args) = Some (four_text (nat v), fmt, args)"
  using directive_four [of "nat v" room fmt args] assms by simp_all

lemma directive_char: "vsl_directive room (0x63 # fmt) (VInt v # args) = Some ([word_of_int (v AND 0xff)], fmt, args)"
  by (simp add: vsl_directive_def)

text \<open>The day of the month in the form for syslog, padded with a space.\<close>

definition day_text :: "nat \<Rightarrow> u_char list" where
  "day_text n = (if n < 10 then [0x20, digit_text n] else two_text n)"

lemma day_text_length [simp]: "length (day_text n) = 2"
  by (simp add: day_text_def)

lemma directive_day:
  assumes "0 \<le> v" "v \<le> 99" "100 \<le> room"
  shows "vsl_directive room (0x32 # 0x64 # fmt) (VInt v # args) = Some (day_text (nat v), fmt, args)"
proof -
  have "replicate (2 - length (sprintf_num_text (nat v) 0)) 0x20 @ sprintf_num_text (nat v) 0 = day_text (nat v)"
    using assms
    by (cases "nat v < 10") (simp_all add: sprintf_num_text_digits base_digits_step base_digits_one day_text_def two_text_def digit_text_def)
  then have "ngx_sprintf_num room (nat v) 0x20 0 (Suc (Suc 0)) = day_text (nat v)"
    using assms sprintf_num_full [of "nat v" room "Suc (Suc 0)"] by (simp add: numeral_2_eq_2 [symmetric])
  moreover have "i32 v = v" using assms by (simp add: i32_def)
  ultimately show ?thesis using assms by (simp add: vsl_directive_def conv_int_def print_int_def)
qed

lemmas time_directives = directive_two_int directive_year directive_char directive_day directive_str
  ngx_sprintf_def ngx_vslprintf_def bytes_Cons

lemma offset_digits:
  assumes "\<bar>off\<bar> < 6000"
  shows "0 \<le> ngx_abs (c_div off 60)" "ngx_abs (c_div off 60) \<le> 99" "0 \<le> ngx_abs (c_mod off 60)" "ngx_abs (c_mod off 60) \<le> 99"
proof -
  have q: "\<bar>c_div off 60\<bar> = \<bar>off\<bar> div 60" by (auto simp: c_div_def abs_mult sgn_if)
  have r: "\<bar>c_mod off 60\<bar> = \<bar>off\<bar> mod 60"
    by (auto simp: c_mod_def c_div_def sgn_if minus_mult_div_eq_mod mult.commute [of _ 60])
  have a: "ngx_abs v = \<bar>v\<bar>" for v by (simp add: ngx_abs_def)
  have "\<bar>off\<bar> div 60 < 100" using div_bounds [of "\<bar>off\<bar>" 60 100] assms by simp
  then show "0 \<le> ngx_abs (c_div off 60)" "ngx_abs (c_div off 60) \<le> 99" "0 \<le> ngx_abs (c_mod off 60)" "ngx_abs (c_mod off 60) \<le> 99"
    unfolding a q r using pos_mod_bound [of 60 "\<bar>off\<bar>"] by simp_all
qed

definition sized :: "nat \<Rightarrow> u_char list option \<Rightarrow> bool" where
  "sized n s = (case s of Some t \<Rightarrow> length t = n | None \<Rightarrow> False)"

lemma formatted_sizes:
  assumes "tm_fits tm" "\<bar>off\<bar> < 6000"
  shows "sized 19 (err_log_time tm)" "sized 26 (http_log_time tm off)" "sized 25 (http_log_iso8601 tm off)"
    "sized 15 (syslog_time tm)"
proof -
  have "nat (ngx_tm_mon tm - 1) < 12" using assms by (auto simp: tm_fits_def)
  note mon = month_text(1-3) [OF this]
  note fits = assms(1) [unfolded tm_fits_def] offset_digits [OF assms(2)]
  show "sized 19 (err_log_time tm)"
    using fits by (simp add: err_log_time_def time_directives sized_def)
  show "sized 26 (http_log_time tm off)"
    using fits mon by (simp add: http_log_time_def time_directives sized_def)
  show "sized 25 (http_log_iso8601 tm off)"
    using fits by (simp add: http_log_iso8601_def time_directives sized_def)
  show "sized 15 (syslog_time tm)"
    using fits mon by (simp add: syslog_time_def time_directives sized_def)
qed

lemma gmtime_clamped: "ngx_gmtime t = ngx_gmtime (max 0 (min t 253402300799))"
proof -
  define T where "T = max 0 (min t 253402300799)"
  have T: "max 0 (min T 253402300799) = T" by (simp add: T_def)
  note f = ngx_gmtime_fields [of t, folded T_def] and g = ngx_gmtime_fields [of T, unfolded T]
  have "(ngx_tm_year (ngx_gmtime t), ngx_tm_mon (ngx_gmtime t), ngx_tm_mday (ngx_gmtime t)) =
      (ngx_tm_year (ngx_gmtime T), ngx_tm_mon (ngx_gmtime T), ngx_tm_mday (ngx_gmtime T))"
    by (simp only: f(1) g(1))
  then show ?thesis unfolding T_def [symmetric]
    by (intro ngx_tm.equality) (simp_all add: f(2-5) g(2-5))
qed

lemma gmtime_fits: "tm_fits (ngx_gmtime t)"
proof -
  have "0 \<le> max 0 (min t 253402300799)" "max 0 (min t 253402300799) \<le> 253402300799" by simp_all
  then obtain y m d h mi s w where tm: "ngx_gmtime (max 0 (min t 253402300799)) =
      \<lparr>ngx_tm_sec = int s, ngx_tm_min = int mi, ngx_tm_hour = int h, ngx_tm_mday = int d,
       ngx_tm_mon = int m + 1, ngx_tm_year = int y, ngx_tm_wday = int w\<rparr>"
    and "1970 \<le> y" "y \<le> 9999" "m < 12" "d < 100" "h < 100" "mi < 100" "s < 100"
    by (rule gmtime_range)
  then show ?thesis by (simp add: gmtime_clamped [of t] tm tm_fits_def)
qed

lemma http_time_sized: "sized 29 (ngx_http_time t)"
proof -
  have "0 \<le> max 0 (min t 253402300799)" "max 0 (min t 253402300799) \<le> 253402300799" by simp_all
  then obtain s where "ngx_http_time (max 0 (min t 253402300799)) = Some s" "length s = 29"
    using http_time_read_back by blast
  then show ?thesis by (simp add: ngx_http_time_def sized_def flip: gmtime_clamped [of t])
qed

section \<open>The slots\<close>

definition buffers :: "nat \<Rightarrow> u_char list list \<Rightarrow> bool" where
  "buffers n bs \<longleftrightarrow> length bs = NGX_TIME_SLOTS \<and> (\<forall>k < NGX_TIME_SLOTS. length (bs ! k) = n)"

definition cache_wf :: "time_cache \<Rightarrow> bool" where
  "cache_wf st \<longleftrightarrow> slot st < NGX_TIME_SLOTS \<and> length (cached_time st) = NGX_TIME_SLOTS \<and>
     buffers 20 (cached_err_log_time st) \<and> buffers 30 (cached_http_time st) \<and> buffers 27 (cached_http_log_time st) \<and>
     buffers 26 (cached_http_log_iso8601 st) \<and> buffers 16 (cached_syslog_time st)"

text \<open>The texts of a slot, without the terminating byte of the buffers.\<close>

definition slot_texts :: "time_cache \<Rightarrow> nat \<Rightarrow> u_char list list" where
  "slot_texts st k = map butlast [cached_err_log_time st ! k, cached_http_time st ! k, cached_http_log_time st ! k,
     cached_http_log_iso8601 st ! k, cached_syslog_time st ! k]"

lemma cache_zero_wf: "cache_wf time_cache_zero"
  by (simp add: cache_wf_def time_cache_zero_def buffers_def NGX_TIME_SLOTS_def)

lemma next_slot_less: "k < NGX_TIME_SLOTS \<Longrightarrow> next_slot k < NGX_TIME_SLOTS"
  by (auto simp: next_slot_def NGX_TIME_SLOTS_def)

lemma next_slot_mod: "k < NGX_TIME_SLOTS \<Longrightarrow> next_slot k = (k + 1) mod NGX_TIME_SLOTS"
  by (auto simp: next_slot_def NGX_TIME_SLOTS_def)

lemma time_write_sized:
  assumes "sized n s" "buffers (Suc n) bs" "k < NGX_TIME_SLOTS"
  obtains t b where "s = Some t" "length t = n" "time_write bs k s = Some (bs[k := t @ b])" "length b = 1"
    "buffers (Suc n) (bs[k := t @ b])"
proof -
  obtain t where t: "s = Some t" "length t = n" using assms(1) by (auto simp: sized_def split: option.splits)
  let ?b = "drop n (bs ! k)"
  have b: "length ?b = 1" "k < length bs" "length (bs ! k) = Suc n" using assms(2,3) by (auto simp: buffers_def)
  then have "time_write bs k s = Some (bs[k := t @ ?b])" by (simp add: time_write_def t)
  moreover have "buffers (Suc n) (bs[k := t @ ?b])"
    using assms(2) b t by (auto simp: buffers_def nth_list_update_if)
  ultimately show thesis using that t b by blast
qed

datatype time_op = Update bool "int \<times> int" "int \<times> int" | Sigsafe bool "int \<times> int"

fun time_step :: "(int \<Rightarrow> ngx_tm \<times> int) \<Rightarrow> time_op \<Rightarrow> time_cache \<Rightarrow> time_cache option" where
  "time_step localtime (Update locked tv ts) st = ngx_time_update localtime locked tv ts st"
| "time_step localtime (Sigsafe locked tv) st = ngx_time_sigsafe_update locked tv st"

fun time_run :: "(int \<Rightarrow> ngx_tm \<times> int) \<Rightarrow> time_op list \<Rightarrow> time_cache \<Rightarrow> time_cache option" where
  "time_run localtime [] st = Some st"
| "time_run localtime (op # ops) st = Option.bind (time_step localtime op st) (time_run localtime ops)"

text \<open>The local time has a year of four digits, a month and two-digit fields, and is less than a
  hundred hours from GMT.\<close>

definition local_fits :: "(int \<Rightarrow> ngx_tm \<times> int) \<Rightarrow> int \<Rightarrow> bool" where
  "local_fits localtime s = (case ngx_localtime localtime s of (tm, off) \<Rightarrow> tm_fits tm \<and> \<bar>c_div off 60\<bar> < 6000)"

lemma update_new_second:
  assumes wf: "cache_wf st" and "local_fits localtime (fst tv)" and new: "t_sec (cached_time st ! slot st) \<noteq> fst tv"
    and lt: "ngx_localtime localtime (fst tv) = (tm, off)"
  obtains st' where "ngx_time_update localtime False tv ts st = Some st'" "cache_wf st'" "slot st' = next_slot (slot st)"
    "ngx_cached_http_time st' = slot st'" "ngx_cached_err_log_time st' = slot st'" "ngx_cached_http_log_time st' = slot st'"
    "ngx_cached_http_log_iso8601 st' = slot st'" "ngx_cached_syslog_time st' = slot st'" "ngx_cached_time st' = slot st'"
    "\<And>k. k \<noteq> slot st' \<Longrightarrow> slot_texts st' k = slot_texts st k"
    "map Some (slot_texts st' (slot st')) = [err_log_time tm, ngx_http_time (fst tv), http_log_time tm (c_div off 60),
         http_log_iso8601 tm (c_div off 60), syslog_time tm]"
proof -
  let ?k = "next_slot (slot st)"
  have fits: "tm_fits tm" "\<bar>c_div off 60\<bar> < 6000" using assms(2) lt by (simp_all add: local_fits_def)
  have k: "?k < NGX_TIME_SLOTS" using wf by (simp add: cache_wf_def next_slot_less)
  note sizes = formatted_sizes [OF fits] http_time_sized [of "fst tv"]
  have bufs: "buffers (Suc 19) (cached_err_log_time st)" "buffers (Suc 29) (cached_http_time st)"
    "buffers (Suc 26) (cached_http_log_time st)" "buffers (Suc 25) (cached_http_log_iso8601 st)"
    "buffers (Suc 15) (cached_syslog_time st)" "length (cached_time st) = NGX_TIME_SLOTS"
    using wf by (simp_all add: cache_wf_def)
  obtain t1 b1 where w1: "err_log_time tm = Some t1" "length b1 = 1"
    "time_write (cached_err_log_time st) ?k (err_log_time tm) = Some ((cached_err_log_time st)[?k := t1 @ b1])"
    "buffers (Suc 19) ((cached_err_log_time st)[?k := t1 @ b1])"
    using time_write_sized [OF sizes(1) bufs(1) k] by blast
  obtain t0 b0 where w0: "ngx_http_time (fst tv) = Some t0" "length b0 = 1"
    "time_write (cached_http_time st) ?k (ngx_http_time (fst tv)) = Some ((cached_http_time st)[?k := t0 @ b0])"
    "buffers (Suc 29) ((cached_http_time st)[?k := t0 @ b0])"
    using time_write_sized [OF sizes(5) bufs(2) k] by blast
  obtain t2 b2 where w2: "http_log_time tm (c_div off 60) = Some t2" "length b2 = 1"
    "time_write (cached_http_log_time st) ?k (http_log_time tm (c_div off 60)) = Some ((cached_http_log_time st)[?k := t2 @ b2])"
    "buffers (Suc 26) ((cached_http_log_time st)[?k := t2 @ b2])"
    using time_write_sized [OF sizes(2) bufs(3) k] by blast
  obtain t3 b3 where w3: "http_log_iso8601 tm (c_div off 60) = Some t3" "length b3 = 1"
    "time_write (cached_http_log_iso8601 st) ?k (http_log_iso8601 tm (c_div off 60)) = Some ((cached_http_log_iso8601 st)[?k := t3 @ b3])"
    "buffers (Suc 25) ((cached_http_log_iso8601 st)[?k := t3 @ b3])"
    using time_write_sized [OF sizes(3) bufs(4) k] by blast
  obtain t4 b4 where w4: "syslog_time tm = Some t4" "length b4 = 1"
    "time_write (cached_syslog_time st) ?k (syslog_time tm) = Some ((cached_syslog_time st)[?k := t4 @ b4])"
    "buffers (Suc 15) ((cached_syslog_time st)[?k := t4 @ b4])"
    using time_write_sized [OF sizes(4) bufs(5) k] by blast
  have last: "butlast (t @ b) = t" if "length b = 1" for t b :: "u_char list"
    using that by (auto simp: length_Suc_conv butlast_append)
  have len: "length bs = NGX_TIME_SLOTS" if "buffers n bs" for n bs using that by (simp add: buffers_def)
  let ?msec = "snd tv div 1000"
  define st' where "st' = st\<lparr>ngx_current_msec := ngx_monotonic_time (fst ts) (snd ts), slot := ?k, cached_gmtoff := c_div off 60,
     cached_time := (cached_time st)[?k := \<lparr>t_sec = fst tv, t_msec = ?msec, t_gmtoff = c_div off 60\<rparr>],
     cached_http_time := (cached_http_time st)[?k := t0 @ b0], cached_err_log_time := (cached_err_log_time st)[?k := t1 @ b1],
     cached_http_log_time := (cached_http_log_time st)[?k := t2 @ b2],
     cached_http_log_iso8601 := (cached_http_log_iso8601 st)[?k := t3 @ b3],
     cached_syslog_time := (cached_syslog_time st)[?k := t4 @ b4],
     ngx_cached_time := ?k, ngx_cached_http_time := ?k, ngx_cached_err_log_time := ?k, ngx_cached_http_log_time := ?k,
     ngx_cached_http_log_iso8601 := ?k, ngx_cached_syslog_time := ?k\<rparr>"
  have "ngx_time_update localtime False tv ts st = Some st'"
    using new by (simp add: ngx_time_update_def Let_def lt w0(3) w1(3) w2(3) w3(3) w4(3) st'_def)
  moreover have "cache_wf st'"
    using k w0(4) w1(4) w2(4) w3(4) w4(4) bufs(6) by (simp add: cache_wf_def st'_def)
  moreover have "slot_texts st' j = slot_texts st j" if "j \<noteq> slot st'" for j
    using that by (simp add: slot_texts_def st'_def)
  moreover have "slot_texts st' (slot st') = [t1, t0, t2, t3, t4]"
    using k bufs by (simp add: slot_texts_def st'_def len last w0(2) w1(2) w2(2) w3(2) w4(2))
  ultimately show thesis by (intro that [of st']) (simp_all add: st'_def w0(1) w1(1) w2(1) w3(1) w4(1))
qed

lemma sigsafe_new_second:
  assumes wf: "cache_wf st" and new: "t_sec (cached_time st ! slot st) \<noteq> fst tv"
  obtains st' where "ngx_time_sigsafe_update False tv st = Some st'" "cache_wf st'" "slot st' = next_slot (slot st)"
    "\<And>k. k \<noteq> slot st' \<Longrightarrow> slot_texts st' k = slot_texts st k"
proof -
  let ?k = "next_slot (slot st)" and ?tm = "ngx_gmtime (fst tv + cached_gmtoff st * 60)"
  have k: "?k < NGX_TIME_SLOTS" using wf by (simp add: cache_wf_def next_slot_less)
  have sizes: "sized 19 (err_log_time ?tm)" "sized 15 (syslog_time ?tm)"
    using formatted_sizes [OF gmtime_fits, of 0] by simp_all
  have bufs: "buffers (Suc 19) (cached_err_log_time st)" "buffers (Suc 15) (cached_syslog_time st)"
    using wf by (simp_all add: cache_wf_def)
  obtain t1 b1 where w1: "time_write (cached_err_log_time st) ?k (err_log_time ?tm) = Some ((cached_err_log_time st)[?k := t1 @ b1])"
    "buffers (Suc 19) ((cached_err_log_time st)[?k := t1 @ b1])"
    using time_write_sized [OF sizes(1) bufs(1) k] by blast
  obtain t4 b4 where w4: "time_write (cached_syslog_time st) ?k (syslog_time ?tm) = Some ((cached_syslog_time st)[?k := t4 @ b4])"
    "buffers (Suc 15) ((cached_syslog_time st)[?k := t4 @ b4])"
    using time_write_sized [OF sizes(2) bufs(2) k] by blast
  define st' where "st' = st\<lparr>slot := ?k, cached_time := (cached_time st)[?k := (cached_time st ! ?k)\<lparr>t_sec := 0\<rparr>],
     cached_err_log_time := (cached_err_log_time st)[?k := t1 @ b1], cached_syslog_time := (cached_syslog_time st)[?k := t4 @ b4],
     ngx_cached_err_log_time := ?k, ngx_cached_syslog_time := ?k\<rparr>"
  have "ngx_time_sigsafe_update False tv st = Some st'"
    using new by (simp add: ngx_time_sigsafe_update_def Let_def w1(1) w4(1) st'_def)
  moreover have "cache_wf st'" using wf k w1(2) w4(2) by (simp add: cache_wf_def st'_def)
  moreover have "slot_texts st' j = slot_texts st j" if "j \<noteq> slot st'" for j
    using that by (simp add: slot_texts_def st'_def)
  ultimately show thesis by (intro that [of st']) (simp_all add: st'_def)
qed

fun op_fits :: "(int \<Rightarrow> ngx_tm \<times> int) \<Rightarrow> time_op \<Rightarrow> bool" where
  "op_fits localtime (Update locked tv ts) = local_fits localtime (fst tv)"
| "op_fits localtime (Sigsafe locked tv) = True"

text \<open>A step keeps the cache well-formed, moves the slot by at most one, and writes into no other slot
  than the next one.\<close>

lemma time_step_ok:
  assumes wf: "cache_wf st" and ok: "op_fits localtime op"
  shows "\<exists>st'. time_step localtime op st = Some st' \<and> cache_wf st' \<and> slot st' \<in> {slot st, next_slot (slot st)} \<and>
    (\<forall>k. k \<noteq> next_slot (slot st) \<longrightarrow> slot_texts st' k = slot_texts st k)"
proof (cases op)
  case (Update locked tv ts)
  show ?thesis
  proof (cases "locked \<or> t_sec (cached_time st ! slot st) = fst tv")
    case True
    then show ?thesis using wf
      by (auto simp: Update ngx_time_update_def Let_def cache_wf_def slot_texts_def)
  next
    case False
    then have "\<not> locked" and new: "t_sec (cached_time st ! slot st) \<noteq> fst tv" by simp_all
    obtain st' where "ngx_time_update localtime locked tv ts st = Some st'" "cache_wf st'" "slot st' = next_slot (slot st)"
      "\<And>k. k \<noteq> slot st' \<Longrightarrow> slot_texts st' k = slot_texts st k"
    proof -
      obtain tm off where lt: "ngx_localtime localtime (fst tv) = (tm, off)" by fastforce
      have "local_fits localtime (fst tv)" using ok by (simp add: Update)
      then show thesis
        using update_new_second [OF wf _ new lt, of ts] that \<open>\<not> locked\<close> by (metis (full_types))
    qed
    then show ?thesis by (simp add: Update)
  qed
next
  case (Sigsafe locked tv)
  show ?thesis
  proof (cases "locked \<or> t_sec (cached_time st ! slot st) = fst tv")
    case True
    then show ?thesis using wf by (auto simp: Sigsafe ngx_time_sigsafe_update_def Let_def)
  next
    case False
    then have l: "\<not> locked" and new: "t_sec (cached_time st ! slot st) \<noteq> fst tv" by simp_all
    obtain st' where "ngx_time_sigsafe_update False tv st = Some st'" "cache_wf st'" "slot st' = next_slot (slot st)"
      "\<And>k. k \<noteq> slot st' \<Longrightarrow> slot_texts st' k = slot_texts st k"
      using sigsafe_new_second [OF wf new] by blast
    then show ?thesis using l by (simp add: Sigsafe)
  qed
qed

text \<open>A slot at distance \<open>d\<close> ahead of the current one stays intact during fewer than \<open>d\<close> steps.\<close>

lemma time_run_keeps:
  assumes "cache_wf st" "list_all (op_fits localtime) ops" "slot st + d < 2 * NGX_TIME_SLOTS" "length ops < d" "d \<le> NGX_TIME_SLOTS"
  shows "\<exists>st'. time_run localtime ops st = Some st' \<and> cache_wf st' \<and>
    slot_texts st' ((slot st + d) mod NGX_TIME_SLOTS) = slot_texts st ((slot st + d) mod NGX_TIME_SLOTS)"
  using assms
proof (induction ops arbitrary: st d)
  case (Cons op ops)
  obtain st1 where st1: "time_step localtime op st = Some st1" "cache_wf st1" "slot st1 \<in> {slot st, next_slot (slot st)}"
    and keep: "\<And>k. k \<noteq> next_slot (slot st) \<Longrightarrow> slot_texts st1 k = slot_texts st k"
    using time_step_ok [of st localtime op] Cons.prems by auto
  let ?k = "(slot st + d) mod NGX_TIME_SLOTS"
  have s: "slot st < NGX_TIME_SLOTS" "slot st1 < NGX_TIME_SLOTS" using Cons.prems(1) st1(2) by (simp_all add: cache_wf_def)
  have "?k \<noteq> next_slot (slot st)"
    using s Cons.prems(3-5) by (auto simp: next_slot_def NGX_TIME_SLOTS_def mod_if split: if_splits)
  then have k1: "slot_texts st1 ?k = slot_texts st ?k" by (rule keep)
  obtain d' where d': "(slot st1 + d') mod NGX_TIME_SLOTS = ?k" "length ops < d'" "d' \<le> NGX_TIME_SLOTS"
    "slot st1 + d' < 2 * NGX_TIME_SLOTS"
  proof (cases "slot st1 = slot st")
    case True
    then show ?thesis using that [of d] Cons.prems by simp
  next
    case False
    then have "slot st1 = next_slot (slot st)" using st1(3) by simp
    then show ?thesis using that [of "d - 1"] Cons.prems(3-5) s
      by (auto simp: next_slot_def NGX_TIME_SLOTS_def mod_if split: if_splits)
  qed
  then obtain st' where "time_run localtime ops st1 = Some st'" "cache_wf st'" "slot_texts st' ?k = slot_texts st1 ?k"
    using Cons.IH [of st1 d'] st1(2) Cons.prems(2) by auto
  then show ?case using k1 st1(1) by simp
qed simp

lemma time_run_current:
  assumes "cache_wf st" "list_all (op_fits localtime) ops" "length ops < NGX_TIME_SLOTS"
  shows "\<exists>st'. time_run localtime ops st = Some st' \<and> cache_wf st' \<and> slot_texts st' (slot st) = slot_texts st (slot st)"
  using time_run_keeps [of st localtime ops NGX_TIME_SLOTS] assms by (simp add: cache_wf_def)

text \<open>
  C24: what readers find behind the published pointers. When an update finds a new second, it fills the
  next slot with the five formatted times of that second, none of which overflows its buffer, and
  publishes them; and during any 63 further updates, by the event loop or by a signal handler, whether
  or not they get the lock, these texts stay byte for byte the same, so that a reader without the lock
  that holds a published pointer that long still reads the time it was published for. The local time
  the C library returns is assumed to have a year of four digits and two-digit fields.
\<close>

theorem time_cache_stable:
  assumes "cache_wf st" and "t_sec (cached_time st ! slot st) \<noteq> fst tv"
    and "ngx_localtime localtime (fst tv) = (tm, off)" and "local_fits localtime (fst tv)"
    and "list_all (op_fits localtime) ops" and "length ops < NGX_TIME_SLOTS"
  shows "\<exists>st1 st2. ngx_time_update localtime False tv ts st = Some st1 \<and> time_run localtime ops st1 = Some st2 \<and> cache_wf st2 \<and>
    err_log_time tm = Some (butlast (cached_err_log_time st2 ! ngx_cached_err_log_time st1)) \<and>
    ngx_http_time (fst tv) = Some (butlast (cached_http_time st2 ! ngx_cached_http_time st1)) \<and>
    http_log_time tm (c_div off 60) = Some (butlast (cached_http_log_time st2 ! ngx_cached_http_log_time st1)) \<and>
    http_log_iso8601 tm (c_div off 60) = Some (butlast (cached_http_log_iso8601 st2 ! ngx_cached_http_log_iso8601 st1)) \<and>
    syslog_time tm = Some (butlast (cached_syslog_time st2 ! ngx_cached_syslog_time st1))"
proof -
  obtain st1 where up: "ngx_time_update localtime False tv ts st = Some st1" and wf1: "cache_wf st1"
    and pub: "ngx_cached_http_time st1 = slot st1" "ngx_cached_err_log_time st1 = slot st1" "ngx_cached_http_log_time st1 = slot st1"
      "ngx_cached_http_log_iso8601 st1 = slot st1" "ngx_cached_syslog_time st1 = slot st1"
    and texts: "map Some (slot_texts st1 (slot st1)) = [err_log_time tm, ngx_http_time (fst tv), http_log_time tm (c_div off 60),
         http_log_iso8601 tm (c_div off 60), syslog_time tm]"
    by (rule update_new_second [OF assms(1,4,2,3), of ts])
  obtain st2 where "time_run localtime ops st1 = Some st2" "cache_wf st2" "slot_texts st2 (slot st1) = slot_texts st1 (slot st1)"
    using time_run_current [OF wf1 assms(5,6)] by blast
  then show ?thesis using up texts by (auto simp: slot_texts_def pub)
qed

theorem time_cache_stable_witness:
  "\<exists>st1 st2. ngx_time_update (\<lambda>s. (ngx_gmtime s\<lparr>ngx_tm_mon := 0, ngx_tm_year := 70\<rparr>, 3600)) False (7, 5000) (1, 0) time_cache_zero = Some st1 \<and>
    time_run (\<lambda>s. (ngx_gmtime s\<lparr>ngx_tm_mon := 0, ngx_tm_year := 70\<rparr>, 3600)) [Sigsafe False (8, 0)] st1 = Some st2 \<and>
    ngx_http_time 7 = Some (butlast (cached_http_time st2 ! ngx_cached_http_time st1))"
proof -
  let ?lt = "\<lambda>s. (ngx_gmtime s\<lparr>ngx_tm_mon := 0, ngx_tm_year := 70\<rparr>, 3600)"
  have l: "ngx_localtime ?lt 7 = (ngx_gmtime 7\<lparr>ngx_tm_mon := 1, ngx_tm_year := 1970\<rparr>, 3600)"
    by (simp add: ngx_localtime_def)
  have "tm_fits (ngx_gmtime 7)" by (rule gmtime_fits)
  then have f: "local_fits ?lt (fst (7, 5000))" by (simp add: local_fits_def l tm_fits_def c_div_def)
  have "t_sec (cached_time time_cache_zero ! slot time_cache_zero) \<noteq> fst (7, 5000 :: int)"
    by (simp add: time_cache_zero_def NGX_TIME_SLOTS_def)
  from time_cache_stable [OF cache_zero_wf this, of ?lt _ _ "[Sigsafe False (8, 0)]" "(1, 0)", OF _ f] l
  show ?thesis by (auto simp: NGX_TIME_SLOTS_def)
qed

end
