(* ===== verification/Ngx_Rbtree.thy ===== *)
theory Ngx_Rbtree
  imports Ngx_Prelude
begin

text \<open>
  Red-black trees (src/nginx/src/core/ngx_rbtree.c and src/nginx/src/core/ngx_rbtree.h): insertion
  with its two comparison callbacks, deletion, the minimum and the successor.

  The model works on pointers, as the code does. A node is a record with the fields of
  \<^verbatim>\<open>ngx_rbtree_node_s\<close>, the memory maps addresses to nodes, and 0 is the null pointer. The second
  half of each rebalancing loop is the mirror image of the first with left and right exchanged, as
  are the two rotations; such a pair is one definition with the side as an argument. The loops may
  run forever on memory that is no tree, so they are partial functions into the option type; that
  they return on every tree is part of what is proved.
\<close>

section \<open>Nodes and trees\<close>

datatype rb_side = Lft | Rgt

fun opp :: "rb_side \<Rightarrow> rb_side" where
  "opp Lft = Rgt"
| "opp Rgt = Lft"

record ngx_rbtree_node =
  nkey :: int
  nleft :: nat
  nright :: nat
  nparent :: nat
  ncolor :: bool        \<comment> \<open>red\<close>

record ngx_rbtree =
  rb_root :: nat
  rb_sentinel :: nat
  rb_mem :: "nat \<Rightarrow> ngx_rbtree_node"

definition NULL :: nat where
  "NULL = 0"

fun child :: "rb_side \<Rightarrow> ngx_rbtree_node \<Rightarrow> nat" where
  "child Lft n = nleft n"
| "child Rgt n = nright n"

fun set_child :: "rb_side \<Rightarrow> nat \<Rightarrow> ngx_rbtree_node \<Rightarrow> ngx_rbtree_node" where
  "set_child Lft v n = n\<lparr>nleft := v\<rparr>"
| "set_child Rgt v n = n\<lparr>nright := v\<rparr>"

definition node_upd :: "nat \<Rightarrow> (ngx_rbtree_node \<Rightarrow> ngx_rbtree_node) \<Rightarrow> ngx_rbtree \<Rightarrow> ngx_rbtree" where
  "node_upd x f s = s\<lparr>rb_mem := (rb_mem s)(x := f (rb_mem s x))\<rparr>"

definition child_of :: "ngx_rbtree \<Rightarrow> rb_side \<Rightarrow> nat \<Rightarrow> nat" where
  "child_of s d x = child d (rb_mem s x)"

definition parent_of :: "ngx_rbtree \<Rightarrow> nat \<Rightarrow> nat" where
  "parent_of s x = nparent (rb_mem s x)"

definition ngx_rbt_is_red :: "ngx_rbtree \<Rightarrow> nat \<Rightarrow> bool" where
  "ngx_rbt_is_red s x = ncolor (rb_mem s x)"

definition ngx_rbt_red :: "nat \<Rightarrow> ngx_rbtree \<Rightarrow> ngx_rbtree" where
  "ngx_rbt_red x = node_upd x (ncolor_update (\<lambda>_. True))"

definition ngx_rbt_black :: "nat \<Rightarrow> ngx_rbtree \<Rightarrow> ngx_rbtree" where
  "ngx_rbt_black x = node_upd x (ncolor_update (\<lambda>_. False))"

definition ngx_rbt_copy_color :: "nat \<Rightarrow> nat \<Rightarrow> ngx_rbtree \<Rightarrow> ngx_rbtree" where
  "ngx_rbt_copy_color n1 n2 s = node_upd n1 (ncolor_update (\<lambda>_. ngx_rbt_is_red s n2)) s"

definition set_child_of :: "rb_side \<Rightarrow> nat \<Rightarrow> nat \<Rightarrow> ngx_rbtree \<Rightarrow> ngx_rbtree" where
  "set_child_of d x v = node_upd x (set_child d v)"

definition set_parent :: "nat \<Rightarrow> nat \<Rightarrow> ngx_rbtree \<Rightarrow> ngx_rbtree" where
  "set_parent x v = node_upd x (nparent_update (\<lambda>_. v))"

definition ngx_rbtree_init :: "nat \<Rightarrow> (nat \<Rightarrow> ngx_rbtree_node) \<Rightarrow> ngx_rbtree" where
  "ngx_rbtree_init snt mem = ngx_rbt_black snt \<lparr>rb_root = snt, rb_sentinel = snt, rb_mem = mem\<rparr>"

section \<open>Rotation\<close>

text \<open>The left rotation for the side \<open>Lft\<close>, the right rotation for \<open>Rgt\<close>.\<close>

definition replace_child :: "rb_side \<Rightarrow> nat \<Rightarrow> nat \<Rightarrow> ngx_rbtree \<Rightarrow> ngx_rbtree" where
  "replace_child d node temp s =
     (if node = rb_root s then s\<lparr>rb_root := temp\<rparr>
      else if node = child_of s d (parent_of s node) then set_child_of d (parent_of s node) temp s
      else set_child_of (opp d) (parent_of s node) temp s)"

definition ngx_rbtree_rotate :: "rb_side \<Rightarrow> nat \<Rightarrow> ngx_rbtree \<Rightarrow> ngx_rbtree" where
  "ngx_rbtree_rotate d node s =
     (let temp = child_of s (opp d) node;
          s = set_child_of (opp d) node (child_of s d temp) s;
          s = (if child_of s d temp \<noteq> rb_sentinel s then set_parent (child_of s d temp) node s else s);
          s = set_parent temp (parent_of s node) s;
          s = replace_child d node temp s;
          s = set_child_of d temp node s
      in set_parent node temp s)"

section \<open>Insertion\<close>

text \<open>The loop of the insert callbacks, for a comparison \<open>lt\<close> of the new node with a node of the
  tree.\<close>

partial_function (option) insert_descend ::
  "(ngx_rbtree_node \<Rightarrow> ngx_rbtree_node \<Rightarrow> bool) \<Rightarrow> nat \<Rightarrow> nat \<Rightarrow> ngx_rbtree \<Rightarrow> ngx_rbtree option" where
  "insert_descend lt temp node s =
     (let d = (if lt (rb_mem s node) (rb_mem s temp) then Lft else Rgt)
      in if child_of s d temp = rb_sentinel s then
           Some (ngx_rbt_red node (set_child_of Rgt node (rb_sentinel s) (set_child_of Lft node (rb_sentinel s)
                  (set_parent node temp (set_child_of d temp node s)))))
         else insert_descend lt (child_of s d temp) node s)"

definition key_less :: "ngx_rbtree_node \<Rightarrow> ngx_rbtree_node \<Rightarrow> bool" where
  "key_less n t \<longleftrightarrow> nkey n < nkey t"

definition timer_less :: "ngx_rbtree_node \<Rightarrow> ngx_rbtree_node \<Rightarrow> bool" where
  "timer_less n t \<longleftrightarrow> i64 (nkey n - nkey t) < 0"

definition ngx_rbtree_insert_value :: "nat \<Rightarrow> nat \<Rightarrow> ngx_rbtree \<Rightarrow> ngx_rbtree option" where
  "ngx_rbtree_insert_value temp node s = insert_descend key_less temp node s"

definition ngx_rbtree_insert_timer_value :: "nat \<Rightarrow> nat \<Rightarrow> ngx_rbtree \<Rightarrow> ngx_rbtree option" where
  "ngx_rbtree_insert_timer_value temp node s = insert_descend timer_less temp node s"

text \<open>The body of the loop that rebalances, where the parent of the node is on the side \<open>d\<close> of the
  grandparent.\<close>

definition insert_fix_body :: "rb_side \<Rightarrow> nat \<Rightarrow> ngx_rbtree \<Rightarrow> nat \<times> ngx_rbtree" where
  "insert_fix_body d node s =
     (let temp = child_of s (opp d) (parent_of s (parent_of s node))
      in if ngx_rbt_is_red s temp then
           let s = ngx_rbt_black (parent_of s node) s;
               s = ngx_rbt_black temp s;
               s = ngx_rbt_red (parent_of s (parent_of s node)) s
           in (parent_of s (parent_of s node), s)
         else
           let (node, s) = (if node = child_of s (opp d) (parent_of s node)
                            then (parent_of s node, ngx_rbtree_rotate d (parent_of s node) s) else (node, s));
               s = ngx_rbt_black (parent_of s node) s;
               s = ngx_rbt_red (parent_of s (parent_of s node)) s
           in (node, ngx_rbtree_rotate (opp d) (parent_of s (parent_of s node)) s))"

partial_function (option) insert_fix :: "nat \<Rightarrow> ngx_rbtree \<Rightarrow> ngx_rbtree option" where
  "insert_fix node s =
     (if node \<noteq> rb_root s \<and> ngx_rbt_is_red s (parent_of s node) then
        let d = (if parent_of s node = child_of s Lft (parent_of s (parent_of s node)) then Lft else Rgt);
            (node', s') = insert_fix_body d node s
        in insert_fix node' s'
      else Some (ngx_rbt_black (rb_root s) s))"

definition ngx_rbtree_insert ::
  "(nat \<Rightarrow> nat \<Rightarrow> ngx_rbtree \<Rightarrow> ngx_rbtree option) \<Rightarrow> nat \<Rightarrow> ngx_rbtree \<Rightarrow> ngx_rbtree option" where
  "ngx_rbtree_insert ins node s =
     (if rb_root s = rb_sentinel s then
        let s = set_parent node NULL s;
            s = set_child_of Lft node (rb_sentinel s) s;
            s = set_child_of Rgt node (rb_sentinel s) s;
            s = ngx_rbt_black node s
        in Some (s\<lparr>rb_root := node\<rparr>)
      else case ins (rb_root s) node s of None \<Rightarrow> None | Some s \<Rightarrow> insert_fix node s)"

section \<open>Deletion\<close>

partial_function (option) ngx_rbtree_min :: "nat \<Rightarrow> ngx_rbtree \<Rightarrow> nat option" where
  "ngx_rbtree_min node s =
     (if child_of s Lft node \<noteq> rb_sentinel s then ngx_rbtree_min (child_of s Lft node) s else Some node)"

definition clear_node :: "nat \<Rightarrow> ngx_rbtree \<Rightarrow> ngx_rbtree" where
  "clear_node node s =
     node_upd node (\<lambda>n. n\<lparr>nleft := NULL, nright := NULL, nparent := NULL, nkey := 0\<rparr>) s"

text \<open>The node that takes the place of the deleted one, and the child that takes its place in turn.\<close>

definition delete_subst :: "nat \<Rightarrow> ngx_rbtree \<Rightarrow> (nat \<times> nat) option" where
  "delete_subst node s =
     (if child_of s Lft node = rb_sentinel s then Some (node, child_of s Rgt node)
      else if child_of s Rgt node = rb_sentinel s then Some (node, child_of s Lft node)
      else map_option (\<lambda>subst. (subst, child_of s Rgt subst)) (ngx_rbtree_min (child_of s Rgt node) s))"

definition delete_move :: "nat \<Rightarrow> nat \<Rightarrow> nat \<Rightarrow> ngx_rbtree \<Rightarrow> ngx_rbtree" where
  "delete_move node subst temp s =
     (let s = (if parent_of s subst = node then set_parent temp subst s
               else set_parent temp (parent_of s subst) s);
          s = set_child_of Lft subst (child_of s Lft node) s;
          s = set_child_of Rgt subst (child_of s Rgt node) s;
          s = set_parent subst (parent_of s node) s;
          s = ngx_rbt_copy_color subst node s;
          s = (if node = rb_root s then s\<lparr>rb_root := subst\<rparr>
               else if node = child_of s Lft (parent_of s node) then set_child_of Lft (parent_of s node) subst s
               else set_child_of Rgt (parent_of s node) subst s);
          s = (if child_of s Lft subst \<noteq> rb_sentinel s then set_parent (child_of s Lft subst) subst s else s)
      in if child_of s Rgt subst \<noteq> rb_sentinel s then set_parent (child_of s Rgt subst) subst s else s)"

text \<open>The body of the loop after a deletion, where \<open>temp\<close> is on the side \<open>d\<close> of its parent: first
  what is done with a black sibling \<open>w\<close>, then the whole.\<close>

definition delete_fix_black :: "rb_side \<Rightarrow> nat \<Rightarrow> nat \<Rightarrow> ngx_rbtree \<Rightarrow> nat \<times> ngx_rbtree" where
  "delete_fix_black d temp w s =
     (if \<not> ngx_rbt_is_red s (child_of s Lft w) \<and> \<not> ngx_rbt_is_red s (child_of s Rgt w) then
        (parent_of s temp, ngx_rbt_red w s)
      else
        let (w, s) = (if \<not> ngx_rbt_is_red s (child_of s (opp d) w) then
                        let s = ngx_rbt_black (child_of s d w) s;
                            s = ngx_rbt_red w s;
                            s = ngx_rbtree_rotate (opp d) w s
                        in (child_of s (opp d) (parent_of s temp), s)
                      else (w, s));
            s = ngx_rbt_copy_color w (parent_of s temp) s;
            s = ngx_rbt_black (parent_of s temp) s;
            s = ngx_rbt_black (child_of s (opp d) w) s;
            s = ngx_rbtree_rotate d (parent_of s temp) s
        in (rb_root s, s))"

definition delete_fix_body :: "rb_side \<Rightarrow> nat \<Rightarrow> ngx_rbtree \<Rightarrow> nat \<times> ngx_rbtree" where
  "delete_fix_body d temp s =
     (let w = child_of s (opp d) (parent_of s temp);
          (w, s) = (if ngx_rbt_is_red s w then
                      let s = ngx_rbt_black w s;
                          s = ngx_rbt_red (parent_of s temp) s;
                          s = ngx_rbtree_rotate d (parent_of s temp) s
                      in (child_of s (opp d) (parent_of s temp), s)
                    else (w, s))
      in delete_fix_black d temp w s)"

partial_function (option) delete_fix :: "nat \<Rightarrow> ngx_rbtree \<Rightarrow> ngx_rbtree option" where
  "delete_fix temp s =
     (if temp \<noteq> rb_root s \<and> \<not> ngx_rbt_is_red s temp then
        let d = (if temp = child_of s Lft (parent_of s temp) then Lft else Rgt);
            (temp', s') = delete_fix_body d temp s
        in delete_fix temp' s'
      else Some (ngx_rbt_black temp s))"

definition ngx_rbtree_delete :: "nat \<Rightarrow> ngx_rbtree \<Rightarrow> ngx_rbtree option" where
  "ngx_rbtree_delete node s =
     (case delete_subst node s of
        None \<Rightarrow> None
      | Some (subst, temp) \<Rightarrow>
          if subst = rb_root s then Some (clear_node node (ngx_rbt_black temp (s\<lparr>rb_root := temp\<rparr>)))
          else
            let red = ngx_rbt_is_red s subst;
                s = (if subst = child_of s Lft (parent_of s subst) then set_child_of Lft (parent_of s subst) temp s
                     else set_child_of Rgt (parent_of s subst) temp s);
                s = (if subst = node then set_parent temp (parent_of s subst) s else delete_move node subst temp s);
                s = clear_node node s
            in if red then Some s else delete_fix temp s)"

partial_function (option) next_up :: "nat \<Rightarrow> ngx_rbtree \<Rightarrow> nat option" where
  "next_up node s =
     (if node = rb_root s then Some NULL
      else if node = child_of s Lft (parent_of s node) then Some (parent_of s node)
      else next_up (parent_of s node) s)"

definition ngx_rbtree_next :: "nat \<Rightarrow> ngx_rbtree \<Rightarrow> nat option" where
  "ngx_rbtree_next node s =
     (if child_of s Rgt node \<noteq> rb_sentinel s then ngx_rbtree_min (child_of s Rgt node) s
      else next_up node s)"

end
