(* ===== verification/Ngx_Rbtree_Rep.thy ===== *)
theory Ngx_Rbtree_Rep
  imports Ngx_Rbtree
begin

text \<open>
  The trees that the memory of \<open>Ngx_Rbtree\<close> represents. A tree of addresses is seen as a subtree in
  a context, the path from the subtree up to the root, so that one step of the rebalancing loops
  changes the end of the path only. The colour and the black height conditions are split between the
  subtree and the context in the same way.
\<close>

section \<open>Trees of addresses\<close>

datatype ptree = Tip | Nd bool ptree nat ptree

fun ids :: "ptree \<Rightarrow> nat list" where
  "ids Tip = []"
| "ids (Nd c l x r) = ids l @ x # ids r"

text \<open>A node whose subtree on the side \<open>d\<close> is given first.\<close>

fun nd :: "rb_side \<Rightarrow> bool \<Rightarrow> ptree \<Rightarrow> nat \<Rightarrow> ptree \<Rightarrow> ptree" where
  "nd Lft c a x b = Nd c a x b"
| "nd Rgt c a x b = Nd c b x a"

lemma nd_cases: "t \<noteq> Tip \<Longrightarrow> \<exists>c a x b. t = nd d c a x b"
  by (cases t; cases d) auto

lemma nd_Tip [simp]: "nd d c a x b \<noteq> Tip" "Tip \<noteq> nd d c a x b"
  by (cases d; simp)+

lemma opp_opp [simp]: "opp (opp d) = d"
  by (cases d) simp_all

lemma opp_neq [simp]: "opp d \<noteq> d" "d \<noteq> opp d"
  by (cases d; simp)+

lemma side_cases: "e = d \<or> e = opp d" for d e :: rb_side
  by (cases d; cases e) simp_all

lemma nd_opp: "nd (opp d) c a x b = nd d c b x a"
  by (cases d) simp_all

fun red :: "ptree \<Rightarrow> bool" where
  "red Tip = False"
| "red (Nd c l x r) = c"

fun paint :: "bool \<Rightarrow> ptree \<Rightarrow> ptree" where
  "paint c Tip = Tip"
| "paint c (Nd c' l x r) = Nd c l x r"

fun bheight :: "ptree \<Rightarrow> nat" where
  "bheight Tip = 0"
| "bheight (Nd c l x r) = (if c then bheight l else bheight l + 1)"

fun invc :: "ptree \<Rightarrow> bool" where
  "invc Tip = True"
| "invc (Nd c l x r) = ((c \<longrightarrow> \<not> red l \<and> \<not> red r) \<and> invc l \<and> invc r)"

fun invh :: "ptree \<Rightarrow> bool" where
  "invh Tip = True"
| "invh (Nd c l x r) = (bheight l = bheight r \<and> invh l \<and> invh r)"

definition rbt :: "ptree \<Rightarrow> bool" where
  "rbt t \<longleftrightarrow> invc t \<and> invh t \<and> \<not> red t"

fun root_id :: "nat \<Rightarrow> ptree \<Rightarrow> nat" where
  "root_id snt Tip = snt"
| "root_id snt (Nd c l x r) = x"

lemma nd_simps [simp]:
  "red (nd d c a x b) = c" "paint c' (nd d c a x b) = nd d c' a x b" "root_id snt (nd d c a x b) = x"
  "invc (nd d c a x b) = ((c \<longrightarrow> \<not> red a \<and> \<not> red b) \<and> invc a \<and> invc b)"
  "invh (nd d c a x b) = (bheight a = bheight b \<and> invh a \<and> invh b)"
  "set (ids (nd d c a x b)) = insert x (set (ids a) \<union> set (ids b))"
  by (cases d; auto)+

lemma bheight_nd: "bheight a = bheight b \<Longrightarrow> bheight (nd d c a x b) = (if c then bheight b else bheight b + 1)"
  by (cases d) auto

lemma distinct_nd: "distinct (ids (nd d c a x b)) \<longleftrightarrow>
    distinct (ids a) \<and> distinct (ids b) \<and> x \<notin> set (ids a) \<and> x \<notin> set (ids b) \<and> set (ids a) \<inter> set (ids b) = {}"
  by (cases d) auto

lemma paint_simps [simp]: "ids (paint c t) = ids t" "red (paint False t) = False" "invh (paint c t) = invh t"
    "root_id snt (paint c t) = root_id snt t" "paint c t = Tip \<longleftrightarrow> t = Tip"
  by (cases t; simp)+

lemma invc_paint: "invc t \<Longrightarrow> invc (paint False t)"
  by (cases t) simp_all

lemma paint_black [simp]: "\<not> red t \<Longrightarrow> paint False t = t"
  by (cases t) simp_all

lemma bheight_paint: "bheight (paint False t) = (if red t then bheight t + 1 else bheight t)"
  by (cases t) simp_all

lemma red_not_Tip: "red t \<Longrightarrow> t \<noteq> Tip"
  by auto

lemma root_id_in: "t \<noteq> Tip \<Longrightarrow> root_id snt t \<in> set (ids t)"
  by (cases t) simp_all

section \<open>Contexts\<close>

text \<open>A frame is the side the subtree is on, and the colour, the address and the other subtree of the
  parent.\<close>

type_synonym frame = "rb_side \<times> bool \<times> nat \<times> ptree"

fun plug :: "frame list \<Rightarrow> ptree \<Rightarrow> ptree" where
  "plug [] t = t"
| "plug ((d, c, x, b) # k) t = plug k (nd d c t x b)"

lemma plug_append: "plug (k @ k') t = plug k' (plug k t)"
  by (induction k t rule: plug.induct) simp_all

fun ctx_ids :: "frame list \<Rightarrow> nat set" where
  "ctx_ids [] = {}"
| "ctx_ids ((d, c, x, b) # k) = insert x (set (ids b)) \<union> ctx_ids k"

lemma set_ids_plug: "set (ids (plug k t)) = set (ids t) \<union> ctx_ids k"
  by (induction k t rule: plug.induct) auto

text \<open>What comes before and after the subtree in order.\<close>

fun before :: "frame list \<Rightarrow> nat list" where
  "before [] = []"
| "before ((d, c, x, b) # k) = before k @ (case d of Lft \<Rightarrow> [] | Rgt \<Rightarrow> ids b @ [x])"

fun after :: "frame list \<Rightarrow> nat list" where
  "after [] = []"
| "after ((d, c, x, b) # k) = (case d of Lft \<Rightarrow> x # ids b | Rgt \<Rightarrow> []) @ after k"

lemma ids_plug: "ids (plug k t) = before k @ ids t @ after k"
proof (induction k t rule: plug.induct)
  case (2 d c x b k t)
  then show ?case by (cases d) simp_all
qed simp

lemma ids_plug_cong: "ids t' = ids t \<Longrightarrow> ids (plug k t') = ids (plug k t)"
  by (simp add: ids_plug)

fun distinct_ctx :: "frame list \<Rightarrow> bool" where
  "distinct_ctx [] = True"
| "distinct_ctx ((d, c, x, b) # k) =
     (distinct (ids b) \<and> x \<notin> set (ids b) \<and> insert x (set (ids b)) \<inter> ctx_ids k = {} \<and> distinct_ctx k)"

lemma distinct_plug:
  "distinct (ids (plug k t)) \<longleftrightarrow> distinct (ids t) \<and> distinct_ctx k \<and> set (ids t) \<inter> ctx_ids k = {}"
  by (induction k t rule: plug.induct) (auto simp: distinct_nd)

text \<open>The conditions of red-black trees on a context: the black height it expects of the subtree, and
  whether the subtree may be red.\<close>

fun cinvh :: "frame list \<Rightarrow> nat \<Rightarrow> bool" where
  "cinvh [] n = True"
| "cinvh ((d, c, x, b) # k) n = (invh b \<and> bheight b = n \<and> cinvh k (if c then n else n + 1))"

fun cinvc :: "frame list \<Rightarrow> bool \<Rightarrow> bool" where
  "cinvc [] r = (\<not> r)"
| "cinvc ((d, c, x, b) # k) r = (invc b \<and> (c \<longrightarrow> \<not> r \<and> \<not> red b) \<and> cinvc k c)"

lemma invh_plug: "invh (plug k t) \<longleftrightarrow> invh t \<and> cinvh k (bheight t)"
proof (induction k t rule: plug.induct)
  case (2 d c x b k t)
  then show ?case by (cases "bheight t = bheight b") (auto simp: bheight_nd)
qed simp

lemma invc_plug: "invc (plug k t) \<and> \<not> red (plug k t) \<longleftrightarrow> invc t \<and> cinvc k (red t)"
  by (induction k t rule: plug.induct) auto

lemma rbt_plug: "rbt (plug k t) \<longleftrightarrow> invc t \<and> invh t \<and> cinvc k (red t) \<and> cinvh k (bheight t)"
  using invc_plug [of k t] invh_plug [of k t] by (auto simp: rbt_def)

lemma cinvc_black: "cinvc k r \<Longrightarrow> cinvc k False"
  by (cases k) auto

lemma red_plug: "k \<noteq> [] \<Longrightarrow> red (plug k t) = red (plug k t')"
proof (induction k arbitrary: t t')
  case (Cons f k)
  obtain d c x b where f: "f = (d, c, x, b)" by (cases f)
  show ?case using Cons.IH by (cases "k = []") (simp_all add: f)
qed simp

section \<open>Representation\<close>

text \<open>The parent of the root of a subtree is stated apart, since the root of the whole tree may have
  any.\<close>

definition linked :: "ngx_rbtree \<Rightarrow> nat \<Rightarrow> ptree \<Rightarrow> bool" where
  "linked s x t = (case t of Tip \<Rightarrow> True | Nd c l y r \<Rightarrow> parent_of s y = x)"

fun tree_at :: "ngx_rbtree \<Rightarrow> nat \<Rightarrow> ptree \<Rightarrow> bool" where
  "tree_at s p Tip = (p = rb_sentinel s)"
| "tree_at s p (Nd c l x r) =
     (p = x \<and> x \<noteq> rb_sentinel s \<and> ngx_rbt_is_red s x = c \<and> tree_at s (child_of s Lft x) l \<and>
      tree_at s (child_of s Rgt x) r \<and> linked s x l \<and> linked s x r)"

lemma linked_simps [simp]: "linked s x Tip" "linked s x (nd d c a y b) = (parent_of s y = x)"
    "linked s x (paint c t) = linked s x t"
proof -
  show "linked s x Tip" by (simp add: linked_def)
  show "linked s x (nd d c a y b) = (parent_of s y = x)" by (cases d) (simp_all add: linked_def)
  show "linked s x (paint c t) = linked s x t" by (cases t) (simp_all add: linked_def)
qed

lemma tree_at_nd [simp]:
  "tree_at s p (nd d c a x b) =
     (p = x \<and> x \<noteq> rb_sentinel s \<and> ngx_rbt_is_red s x = c \<and> tree_at s (child_of s d x) a \<and>
      tree_at s (child_of s (opp d) x) b \<and> linked s x a \<and> linked s x b)"
  by (cases d) auto

lemma tree_at_root: "tree_at s p t \<Longrightarrow> p = root_id (rb_sentinel s) t"
  by (cases t) simp_all

lemma tree_at_sentinel: "tree_at s p t \<Longrightarrow> rb_sentinel s \<notin> set (ids t)"
  by (induction t arbitrary: p) auto

lemma tree_at_Tip: "tree_at s p t \<Longrightarrow> p = rb_sentinel s \<longleftrightarrow> t = Tip"
  by (cases t) auto

lemma linked_def2: "linked s x t \<longleftrightarrow> (t \<noteq> Tip \<longrightarrow> parent_of s (root_id (rb_sentinel s) t) = x)"
  by (cases t) (simp_all add: linked_def)

definition same_but_parent :: "ngx_rbtree_node \<Rightarrow> ngx_rbtree_node \<Rightarrow> bool" where
  "same_but_parent m n \<longleftrightarrow> nleft m = nleft n \<and> nright m = nright n \<and> ncolor m = ncolor n"

lemma tree_at_frame:
  assumes "tree_at s p t" "distinct (ids t)" "rb_sentinel s' = rb_sentinel s"
    and "\<And>v. v \<in> set (ids t) \<Longrightarrow> same_but_parent (rb_mem s' v) (rb_mem s v)"
    and "\<And>v. v \<in> set (ids t) \<Longrightarrow> v \<noteq> p \<Longrightarrow> parent_of s' v = parent_of s v"
  shows "tree_at s' p t"
  using assms
proof (induction t arbitrary: p)
  case (Nd c l x r)
  have x: "p = x" using Nd.prems(1) by simp
  have fields: "child_of s' d x = child_of s d x" "ngx_rbt_is_red s' x = ngx_rbt_is_red s x" for d
    using Nd.prems(4) [of x] by (cases d; simp add: child_of_def ngx_rbt_is_red_def same_but_parent_def)+
  have "tree_at s' (child_of s Lft x) l"
    using Nd.prems x by (intro Nd.IH(1)) auto
  moreover have "tree_at s' (child_of s Rgt x) r"
    using Nd.prems x by (intro Nd.IH(2)) auto
  moreover have "linked s' x l" "linked s' x r"
    using Nd.prems x by (cases l; cases r; auto simp: linked_def)+
  ultimately show ?case using Nd.prems by (simp add: fields)
qed simp

definition hole_parent :: "ngx_rbtree \<Rightarrow> nat \<Rightarrow> frame list \<Rightarrow> bool" where
  "hole_parent s p k = (case k of [] \<Rightarrow> True | (d, c, x, b) # k' \<Rightarrow> parent_of s p = x)"

lemma hole_parent_simps [simp]: "hole_parent s p []" "hole_parent s p ((d, c, x, b) # k) = (parent_of s p = x)"
  by (simp_all add: hole_parent_def)

fun ctx_at :: "ngx_rbtree \<Rightarrow> frame list \<Rightarrow> nat \<Rightarrow> bool" where
  "ctx_at s [] p = (rb_root s = p)"
| "ctx_at s ((d, c, x, b) # k) p =
     (x \<noteq> rb_sentinel s \<and> ngx_rbt_is_red s x = c \<and> child_of s d x = p \<and> tree_at s (child_of s (opp d) x) b \<and>
      linked s x b \<and> hole_parent s x k \<and> ctx_at s k x)"

lemma ctx_at_frame:
  assumes "ctx_at s k p" "distinct_ctx k" "rb_sentinel s' = rb_sentinel s" "rb_root s' = rb_root s"
    and "\<And>v. v \<in> ctx_ids k \<Longrightarrow> rb_mem s' v = rb_mem s v"
  shows "ctx_at s' k p"
  using assms
proof (induction k arbitrary: p)
  case (Cons f k)
  obtain d c x b where f: "f = (d, c, x, b)" by (cases f)
  have mem: "rb_mem s' v = rb_mem s v" if "v \<in> insert x (set (ids b)) \<union> ctx_ids k" for v
    using Cons.prems(5) [of v] that by (simp add: f)
  have "tree_at s' (child_of s (opp d) x) b"
  proof (rule tree_at_frame)
    show "tree_at s (child_of s (opp d) x) b" "distinct (ids b)" "rb_sentinel s' = rb_sentinel s"
      using Cons.prems(1-3) by (simp_all add: f)
  qed (use mem in \<open>simp_all add: same_but_parent_def parent_of_def\<close>)
  moreover have "linked s' x b"
    using Cons.prems(1,3) mem by (cases b) (auto simp: f linked_def parent_of_def)
  moreover have "ctx_at s' k x" using Cons.prems mem by (intro Cons.IH) (auto simp: f)
  moreover have "hole_parent s' x k"
    using Cons.prems(1) mem [of x] by (auto simp: f hole_parent_def parent_of_def split: list.splits)
  ultimately show ?case
    using Cons.prems(1,3) mem [of x] by (simp add: f child_of_def ngx_rbt_is_red_def)
qed simp

text \<open>A subtree in its context. The parent pointer is right even when the subtree is the sentinel.\<close>

definition zip_at :: "ngx_rbtree \<Rightarrow> frame list \<Rightarrow> nat \<Rightarrow> ptree \<Rightarrow> bool" where
  "zip_at s k p t \<longleftrightarrow> ctx_at s k p \<and> tree_at s p t \<and> hole_parent s p k \<and> distinct (ids (plug k t))"

lemma zip_plug:
  "ctx_at s k p \<Longrightarrow> tree_at s p t \<Longrightarrow> (t \<noteq> Tip \<Longrightarrow> hole_parent s p k) \<Longrightarrow> tree_at s (rb_root s) (plug k t)"
proof (induction k arbitrary: p t)
  case (Cons f k)
  obtain d c x b where f: "f = (d, c, x, b)" by (cases f)
  have "linked s x t"
    using Cons.prems tree_at_root [OF Cons.prems(2)] by (auto simp: f linked_def2)
  then show ?case using Cons.prems Cons.IH [of x "nd d c t x b"] by (simp add: f)
qed simp

lemma unzip:
  assumes "tree_at s (rb_root s) (plug k t)"
  obtains p where "ctx_at s k p" "tree_at s p t" "t \<noteq> Tip \<Longrightarrow> hole_parent s p k"
  using assms
proof (induction k t arbitrary: thesis rule: plug.induct)
  case (2 d c x b k t)
  obtain p where p: "ctx_at s k p" "tree_at s p (nd d c t x b)" "hole_parent s p k"
    using 2 by (metis nd_Tip(1) plug.simps(2))
  have "linked s x t" "tree_at s (child_of s d x) t" using p(2) by simp_all
  then have "t \<noteq> Tip \<Longrightarrow> hole_parent s (child_of s d x) ((d, c, x, b) # k)"
    by (metis hole_parent_simps(2) linked_def2 tree_at_root)
  then show ?case using p by (intro "2.prems"(1) [of "child_of s d x"]) auto
qed (auto intro: that)

lemma zip_at_plug: "zip_at s k p t \<Longrightarrow> tree_at s (rb_root s) (plug k t)"
  by (auto simp: zip_at_def intro: zip_plug)

lemma zip_atI: "t \<noteq> Tip \<Longrightarrow> tree_at s (rb_root s) (plug k t) \<Longrightarrow> distinct (ids (plug k t)) \<Longrightarrow>
    zip_at s k (root_id (rb_sentinel s) t) t"
  by (metis unzip tree_at_root zip_at_def)

lemma zip_at_frame: "zip_at s ((d, c, x, b) # k) p t \<Longrightarrow> t \<noteq> Tip \<Longrightarrow> zip_at s k x (nd d c t x b)"
  using zip_at_plug [of s "(d, c, x, b) # k" p t] zip_atI [of "nd d c t x b" s k]
  by (auto simp: zip_at_def)

section \<open>Recolouring\<close>

definition set_color :: "bool \<Rightarrow> nat \<Rightarrow> ngx_rbtree \<Rightarrow> ngx_rbtree" where
  "set_color c x = node_upd x (ncolor_update (\<lambda>_. c))"

lemma color_ops: "ngx_rbt_red x s = set_color True x s" "ngx_rbt_black x s = set_color False x s"
    "ngx_rbt_copy_color x y s = set_color (ngx_rbt_is_red s y) x s"
  by (simp_all add: ngx_rbt_red_def ngx_rbt_black_def ngx_rbt_copy_color_def set_color_def)

lemma set_color_simps [simp]:
  "child_of (set_color c x s) d v = child_of s d v" "parent_of (set_color c x s) v = parent_of s v"
  "rb_root (set_color c x s) = rb_root s" "rb_sentinel (set_color c x s) = rb_sentinel s"
  "ngx_rbt_is_red (set_color c x s) v = (if v = x then c else ngx_rbt_is_red s v)"
  "linked (set_color c x s) v t = linked s v t" "hole_parent (set_color c x s) v k = hole_parent s v k"
  "nkey (rb_mem (set_color c x s) v) = nkey (rb_mem s v)"
proof -
  show par: "parent_of (set_color c x s) v = parent_of s v" for v
    by (simp add: parent_of_def set_color_def node_upd_def)
  show "child_of (set_color c x s) d v = child_of s d v"
    by (cases d) (simp_all add: child_of_def set_color_def node_upd_def)
  show "linked (set_color c x s) v t = linked s v t" by (simp add: linked_def par split: ptree.splits)
  show "hole_parent (set_color c x s) v k = hole_parent s v k" by (simp add: hole_parent_def par split: list.splits)
qed (simp_all add: ngx_rbt_is_red_def set_color_def node_upd_def)

lemma tree_at_color [simp]: "x \<notin> set (ids t) \<Longrightarrow> tree_at (set_color c x s) p t = tree_at s p t"
  by (induction t arbitrary: p) auto

lemma ctx_at_color [simp]: "x \<notin> ctx_ids k \<Longrightarrow> ctx_at (set_color c x s) k p = ctx_at s k p"
  by (induction s k p rule: ctx_at.induct) auto

section \<open>Rotation\<close>

text \<open>The fields of every node after a rotation at \<open>x\<close>, whose child on the other side is \<open>y\<close>, where \<open>bp\<close> is
  the subtree that changes sides and \<open>q\<close> the parent.\<close>

lemma set_child_mem:
  "rb_mem (set_child_of d x v s) = (rb_mem s)(x := set_child d v (rb_mem s x))"
  "rb_mem (set_parent x v s) = (rb_mem s)(x := (rb_mem s x)\<lparr>nparent := v\<rparr>)"
  "rb_root (set_child_of d x v s) = rb_root s" "rb_sentinel (set_child_of d x v s) = rb_sentinel s"
  "rb_root (set_parent x v s) = rb_root s" "rb_sentinel (set_parent x v s) = rb_sentinel s"
  by (simp_all add: set_child_of_def set_parent_def node_upd_def)

lemma child_set_child [simp]:
  "child d (set_child e v n) = (if e = d then v else child d n)" "child d (n\<lparr>nparent := v\<rparr>) = child d n"
  "nparent (set_child d v n) = nparent n" "ncolor (set_child d v n) = ncolor n" "nkey (set_child d v n) = nkey n"
  by (cases d; cases e; simp)+

lemma field_upds [simp]:
  "child_of (set_child_of d x v s) e z = (if z = x \<and> e = d then v else child_of s e z)"
  "parent_of (set_child_of d x v s) z = parent_of s z"
  "child_of (set_parent x v s) e z = child_of s e z"
  "parent_of (set_parent x v s) z = (if z = x then v else parent_of s z)"
  by (auto simp: child_of_def parent_of_def set_child_mem)

lemma rotate_mem:
  assumes y: "child_of s (opp d) x = y" and bp: "child_of s d y = bp" and q: "parent_of s x = q"
    and neq: "x \<noteq> y" "bp \<noteq> x" "bp \<noteq> y" "x \<noteq> rb_root s \<longrightarrow> q \<noteq> x \<and> q \<noteq> y \<and> (bp \<noteq> rb_sentinel s \<longrightarrow> q \<noteq> bp)"
  shows "rb_mem (ngx_rbtree_rotate d x s) v =
      (if v = x then (set_child (opp d) bp (rb_mem s x))\<lparr>nparent := y\<rparr>
       else if v = y then set_child d x ((rb_mem s y)\<lparr>nparent := q\<rparr>)
       else if v = bp \<and> bp \<noteq> rb_sentinel s then (rb_mem s v)\<lparr>nparent := x\<rparr>
       else if v = q \<and> x \<noteq> rb_root s then set_child (if child_of s d q = x then d else opp d) y (rb_mem s v)
       else rb_mem s v)"
    and "rb_root (ngx_rbtree_rotate d x s) = (if x = rb_root s then y else rb_root s)"
    and "rb_sentinel (ngx_rbtree_rotate d x s) = rb_sentinel s"
proof -
  define s1 where "s1 = set_child_of (opp d) x bp s"
  define s2 where "s2 = (if bp \<noteq> rb_sentinel s then set_parent bp x s1 else s1)"
  define s3 where "s3 = set_parent y q s2"
  define s4 where "s4 = replace_child d x y s3"
  have f1: "child_of s1 d y = bp" "rb_sentinel s1 = rb_sentinel s" "rb_root s1 = rb_root s"
    using bp neq by (simp_all add: s1_def set_child_mem)
  have f2: "parent_of s2 x = q" "rb_sentinel s2 = rb_sentinel s" "rb_root s2 = rb_root s"
    using q neq f1 by (simp_all add: s2_def s1_def set_child_mem)
  have f3: "parent_of s3 x = q" "rb_sentinel s3 = rb_sentinel s" "rb_root s3 = rb_root s"
    "child_of s3 d q = child_of s d q"
    using f2 neq by (simp_all add: s3_def s2_def s1_def set_child_mem)
  have rot: "ngx_rbtree_rotate d x s = set_parent x y (set_child_of d y x s4)"
    unfolding ngx_rbtree_rotate_def y bp Let_def s1_def [symmetric] f1 s2_def [symmetric] f2(1) s3_def [symmetric] s4_def ..
  have s4: "s4 = (if x = rb_root s then s3\<lparr>rb_root := y\<rparr> else set_child_of (if child_of s d q = x then d else opp d) q y s3)"
    unfolding s4_def replace_child_def f3 by auto
  show "rb_root (ngx_rbtree_rotate d x s) = (if x = rb_root s then y else rb_root s)"
    "rb_sentinel (ngx_rbtree_rotate d x s) = rb_sentinel s"
    unfolding rot s4 using f3 by (simp_all add: set_child_mem)
  have m3: "rb_mem s3 v = (if v = y then (rb_mem s y)\<lparr>nparent := q\<rparr> else if v = bp \<and> bp \<noteq> rb_sentinel s then
      (if v = x then set_child (opp d) bp (rb_mem s x) else rb_mem s v)\<lparr>nparent := x\<rparr>
      else if v = x then set_child (opp d) bp (rb_mem s x) else rb_mem s v)" for v
    using neq by (simp add: s3_def s2_def s1_def set_child_mem)
  show "rb_mem (ngx_rbtree_rotate d x s) v =
      (if v = x then (set_child (opp d) bp (rb_mem s x))\<lparr>nparent := y\<rparr>
       else if v = y then set_child d x ((rb_mem s y)\<lparr>nparent := q\<rparr>)
       else if v = bp \<and> bp \<noteq> rb_sentinel s then (rb_mem s v)\<lparr>nparent := x\<rparr>
       else if v = q \<and> x \<noteq> rb_root s then set_child (if child_of s d q = x then d else opp d) y (rb_mem s v)
       else rb_mem s v)"
    unfolding rot s4 using neq
    by (cases "v = x"; cases "v = y"; cases "v = bp"; cases "x = rb_root s"; cases "v = q") (simp_all add: set_child_mem m3)
qed

lemma ctx_root_in: "ctx_at s k p \<Longrightarrow> k \<noteq> [] \<Longrightarrow> rb_root s \<in> ctx_ids k"
  by (induction s k p rule: ctx_at.induct) (auto, metis ctx_at.simps(1) list.exhaust)

lemma ctx_at_sentinel: "ctx_at s k p \<Longrightarrow> rb_sentinel s \<notin> ctx_ids k"
  by (induction s k p rule: ctx_at.induct) (auto dest: tree_at_sentinel)

text \<open>The pointer from the context into the subtree is redirected, and nothing else changes in it.\<close>

lemma ctx_at_redirect:
  assumes "ctx_at s k p" "distinct_ctx k" "rb_sentinel s' = rb_sentinel s" "p \<notin> ctx_ids k"
    and mem: "\<And>v. v \<in> ctx_ids k \<Longrightarrow> \<not> (k \<noteq> [] \<and> v = fst (snd (snd (hd k)))) \<Longrightarrow> rb_mem s' v = rb_mem s v"
    and top: "\<And>d c x b k'. k = (d, c, x, b) # k' \<Longrightarrow> rb_mem s' x = set_child d p' (rb_mem s x) \<and> rb_root s' = rb_root s"
    and root: "k = [] \<Longrightarrow> rb_root s' = p'"
  shows "ctx_at s' k p'"
proof (cases k)
  case (Cons f k')
  obtain d c x b where f: "f = (d, c, x, b)" by (cases f)
  have rest: "rb_mem s' v = rb_mem s v" if "v \<in> set (ids b) \<union> ctx_ids k'" for v
    using mem [of v] that assms(2) by (auto simp: Cons f)
  have x: "rb_mem s' x = set_child d p' (rb_mem s x)" "rb_root s' = rb_root s" using top [of d c x b k'] by (simp_all add: Cons f)
  have c: "child_of s' d x = p'" "child_of s' (opp d) x = child_of s (opp d) x" "ngx_rbt_is_red s' x = ngx_rbt_is_red s x"
    "parent_of s' x = parent_of s x"
    using x by (simp_all add: child_of_def ngx_rbt_is_red_def parent_of_def)
  have "tree_at s' (child_of s (opp d) x) b"
  proof (rule tree_at_frame)
    show "tree_at s (child_of s (opp d) x) b" "distinct (ids b)" "rb_sentinel s' = rb_sentinel s"
      using assms(1-3) by (simp_all add: Cons f)
  qed (use rest in \<open>simp_all add: same_but_parent_def parent_of_def\<close>)
  moreover have "linked s' x b"
    using assms(1,3) rest by (cases b) (auto simp: Cons f linked_def parent_of_def)
  moreover have "ctx_at s' k' x"
  proof (rule ctx_at_frame)
    show "ctx_at s k' x" "distinct_ctx k'" "rb_sentinel s' = rb_sentinel s" using assms(1-3) by (simp_all add: Cons f)
  qed (use x(2) rest in simp_all)
  moreover have "hole_parent s' x k'"
    using assms(1) c(4) by (auto simp: Cons f hole_parent_def split: list.splits)
  ultimately show ?thesis using assms(1,3) c by (simp add: Cons f)
qed (use root in simp)

lemma ids_rotate: "ids (nd d e (nd d c a x b) y g) = ids (nd d c' a x (nd d e' b y g))"
  by (cases d) simp_all

lemma root_iff: "ctx_at s k p \<Longrightarrow> p \<notin> ctx_ids k \<Longrightarrow> p = rb_root s \<longleftrightarrow> k = []"
  using ctx_root_in by (cases "k = []") auto

lemma rotate_zip:
  assumes z: "zip_at s k x (nd d c a x (nd d e b y g))"
  shows "zip_at (ngx_rbtree_rotate d x s) k y (nd d e (nd d c a x b) y g)"
    and "rb_sentinel (ngx_rbtree_rotate d x s) = rb_sentinel s"
    and "nkey (rb_mem (ngx_rbtree_rotate d x s) v) = nkey (rb_mem s v)"
    and "v \<notin> set (ids (plug k (nd d c a x (nd d e b y g)))) \<Longrightarrow> rb_mem (ngx_rbtree_rotate d x s) v = rb_mem s v"
proof -
  let ?s = "ngx_rbtree_rotate d x s" and ?q = "parent_of s x" and ?bp = "child_of s d y"
  have ctx: "ctx_at s k x" and hole: "hole_parent s x k" and xs: "x \<noteq> rb_sentinel s" "ngx_rbt_is_red s x = c"
    and ta: "tree_at s (child_of s d x) a" and la: "linked s x a" and y: "child_of s (opp d) x = y" "parent_of s y = x"
    and ys: "y \<noteq> rb_sentinel s" "ngx_rbt_is_red s y = e" and tb: "tree_at s ?bp b" and lb: "linked s y b"
    and tg: "tree_at s (child_of s (opp d) y) g" and lg: "linked s y g"
    using z by (simp_all add: zip_at_def)
  have dist: "distinct_ctx k" "distinct (ids a)" "distinct (ids b)" "distinct (ids g)" "x \<noteq> y" "x \<notin> ctx_ids k" "y \<notin> ctx_ids k"
    "x \<notin> set (ids a)" "x \<notin> set (ids b)" "x \<notin> set (ids g)" "y \<notin> set (ids a)" "y \<notin> set (ids b)" "y \<notin> set (ids g)"
    "set (ids a) \<inter> set (ids b) = {}" "set (ids a) \<inter> set (ids g) = {}" "set (ids b) \<inter> set (ids g) = {}"
    "set (ids a) \<inter> ctx_ids k = {}" "set (ids b) \<inter> ctx_ids k = {}" "set (ids g) \<inter> ctx_ids k = {}"
    using z by (auto simp: zip_at_def distinct_plug distinct_nd)
  have bp: "?bp \<in> set (ids b)" if "?bp \<noteq> rb_sentinel s"
    using tb that tree_at_Tip [OF tb] tree_at_root [OF tb] root_id_in [of b "rb_sentinel s"] by auto
  have bpn: "?bp \<noteq> x" "?bp \<noteq> y" using bp xs ys dist by auto
  have root: "x = rb_root s \<longleftrightarrow> k = []" using ctx dist(6) by (rule root_iff)
  have q: "?q \<in> ctx_ids k" if "k \<noteq> []"
    using that hole by (cases k) (auto simp: hole_parent_def)
  have qn: "x \<noteq> rb_root s \<longrightarrow> ?q \<noteq> x \<and> ?q \<noteq> y \<and> (?bp \<noteq> rb_sentinel s \<longrightarrow> ?q \<noteq> ?bp)"
    using q root dist bp by auto
  note mem = rotate_mem [OF y(1) refl refl dist(5) bpn qn]
  show "rb_sentinel ?s = rb_sentinel s" by (rule mem(3))
  show "nkey (rb_mem ?s v) = nkey (rb_mem s v)" by (simp add: mem(1))
  show "rb_mem ?s v = rb_mem s v" if "v \<notin> set (ids (plug k (nd d c a x (nd d e b y g))))"
  proof -
    have "v \<noteq> x" "v \<noteq> y" "v \<noteq> ?bp \<or> ?bp = rb_sentinel s" "v \<noteq> ?q \<or> k = []"
      using that bp q by (auto simp: set_ids_plug)
    then show ?thesis unfolding mem(1) using root by auto
  qed
  have out: "rb_mem ?s v = rb_mem s v" if "v \<in> set (ids a) \<union> set (ids g)" for v
    using that dist bp q root by (auto simp: mem(1))
  have inb: "same_but_parent (rb_mem ?s v) (rb_mem s v)" "v \<noteq> ?bp \<Longrightarrow> parent_of ?s v = parent_of s v" if "v \<in> set (ids b)" for v
    using that dist q root by (auto simp: mem(1) same_but_parent_def parent_of_def)
  have xf: "child_of ?s d x = child_of s d x" "child_of ?s (opp d) x = ?bp" "parent_of ?s x = y" "ngx_rbt_is_red ?s x = c"
    using xs by (simp_all add: mem(1) child_of_def parent_of_def ngx_rbt_is_red_def)
  have yf: "child_of ?s d y = x" "child_of ?s (opp d) y = child_of s (opp d) y" "parent_of ?s y = ?q" "ngx_rbt_is_red ?s y = e"
    using ys dist(5) by (simp_all add: mem(1) child_of_def parent_of_def ngx_rbt_is_red_def)
  have "tree_at ?s (child_of s d x) a"
    by (rule tree_at_frame [OF ta dist(2) mem(3)]) (simp_all add: out same_but_parent_def parent_of_def)
  moreover have "tree_at ?s (child_of s (opp d) y) g"
    by (rule tree_at_frame [OF tg dist(4) mem(3)]) (simp_all add: out same_but_parent_def parent_of_def)
  moreover have "tree_at ?s ?bp b"
    by (rule tree_at_frame [OF tb dist(3) mem(3)]) (use inb in auto)
  moreover have "linked ?s x a" "linked ?s y g"
    using la lg out by (cases a; cases g; auto simp: linked_def parent_of_def)+
  moreover have "linked ?s x b"
    using tree_at_root [OF tb] tree_at_Tip [OF tb] bpn by (auto simp: linked_def2 mem(1,3) parent_of_def)
  moreover have "ctx_at ?s k y"
  proof (rule ctx_at_redirect [OF ctx dist(1) mem(3) dist(6)])
    fix v assume v: "v \<in> ctx_ids k" "\<not> (k \<noteq> [] \<and> v = fst (snd (snd (hd k))))"
    then have "v \<noteq> ?q \<or> k = []" using hole by (cases k) (auto simp: hole_parent_def)
    moreover have "v \<noteq> x" "v \<noteq> y" "v \<noteq> ?bp \<or> ?bp = rb_sentinel s" using v(1) dist bp by auto
    ultimately show "rb_mem ?s v = rb_mem s v" using root by (auto simp: mem(1))
  next
    fix dk ck qk sb k' assume k: "k = (dk, ck, qk, sb) # k'"
    then have f: "qk = ?q" "child_of s dk ?q = x" "tree_at s (child_of s (opp dk) ?q) sb" "x \<noteq> rb_root s"
      using ctx hole root by auto
    have "child_of s (opp dk) ?q \<noteq> x"
      using tree_at_root [OF f(3)] xs(1) dist(6) root_id_in [of sb "rb_sentinel s"] k by (cases "sb = Tip") auto
    then have "(if child_of s d ?q = x then d else opp d) = dk" using f(2) side_cases [of dk d] by auto
    then show "rb_mem ?s qk = set_child dk y (rb_mem s qk) \<and> rb_root ?s = rb_root s"
      using f(1,4) qn bp q root k dist by (auto simp: mem)
  qed (use root mem(2) in simp)
  moreover have "hole_parent ?s y k" using hole yf(3) by (auto simp: hole_parent_def split: list.splits)
  moreover have "distinct (ids (plug k (nd d e (nd d c a x b) y g)))"
    using z ids_plug_cong [OF ids_rotate] by (metis zip_at_def)
  ultimately show "zip_at ?s k y (nd d e (nd d c a x b) y g)"
    using xs ys xf yf mem(3) by (simp add: zip_at_def)
qed

end
