(* ===== verification/Ngx_Rbtree_Insert.thy ===== *)
theory Ngx_Rbtree_Insert
  imports Ngx_Rbtree_Rep
begin

text \<open>
  Insertion into a red-black tree: the rebalancing loop restores the colour condition and returns,
  and the new node comes into the order at the place the comparison of the insert callback gives it.
\<close>

section \<open>States that represent a tree\<close>

definition keeps :: "nat set \<Rightarrow> ngx_rbtree \<Rightarrow> ngx_rbtree \<Rightarrow> bool" where
  "keeps A s s' \<longleftrightarrow> rb_sentinel s' = rb_sentinel s \<and> (\<forall>v. nkey (rb_mem s' v) = nkey (rb_mem s v)) \<and>
     (\<forall>v. v \<notin> A \<longrightarrow> rb_mem s' v = rb_mem s v)"

lemma keeps_refl [simp]: "keeps A s s"
  by (simp add: keeps_def)

lemma keeps_trans: "keeps A s s' \<Longrightarrow> keeps A s' s'' \<Longrightarrow> keeps A s s''"
  by (simp add: keeps_def)

lemma keeps_color: "x \<in> A \<Longrightarrow> keeps A s (set_color c x s)"
  by (auto simp: keeps_def) (auto simp: set_color_def node_upd_def)

lemma keeps_rotate:
  "zip_at s k x (nd d c a x (nd d e b y g)) \<Longrightarrow> set (ids (plug k (nd d c a x (nd d e b y g)))) \<subseteq> A \<Longrightarrow>
     keeps A s (ngx_rbtree_rotate d x s)"
  using rotate_zip(2,3,4) [of s k x d c a e b y g] by (auto simp: keeps_def)

lemma is_red_tree: "tree_at s p t \<Longrightarrow> \<not> ngx_rbt_is_red s (rb_sentinel s) \<Longrightarrow> ngx_rbt_is_red s p = red t"
  by (cases t) simp_all

lemma keeps_sentinel: "keeps A s s' \<Longrightarrow> rb_sentinel s \<notin> A \<Longrightarrow>
    ngx_rbt_is_red s' (rb_sentinel s') = ngx_rbt_is_red s (rb_sentinel s)"
  by (simp add: keeps_def ngx_rbt_is_red_def)

lemma zip_sentinel: "zip_at s k p t \<Longrightarrow> rb_sentinel s \<notin> set (ids (plug k t))"
  by (metis tree_at_sentinel zip_at_plug)

definition rb_rep :: "ngx_rbtree \<Rightarrow> ptree \<Rightarrow> bool" where
  "rb_rep s T \<longleftrightarrow> tree_at s (rb_root s) T \<and> distinct (ids T) \<and> rbt T \<and> \<not> ngx_rbt_is_red s (rb_sentinel s)"

text \<open>Painting the root black, as the last line of both loops does.\<close>

lemma paint_root:
  assumes "tree_at s p t" "distinct (ids t)" shows "tree_at (set_color False p s) p (paint False t)"
  using assms by (cases t) (auto simp: distinct_nd)

lemma finish_insert:
  assumes "zip_at s k p t" "\<not> ngx_rbt_is_red s (rb_sentinel s)" "rbt (paint False (plug k t))" "t \<noteq> Tip"
  shows "rb_rep (set_color False (rb_root s) s) (paint False (plug k t)) \<and>
    keeps (set (ids (plug k t))) s (set_color False (rb_root s) s)"
proof -
  have T: "tree_at s (rb_root s) (plug k t)" "distinct (ids (plug k t))"
    using assms(1) zip_at_plug by (auto simp: zip_at_def)
  have ne: "plug k t \<noteq> Tip" using assms(4) by (metis ids.simps(1) ids_plug append_is_Nil_conv ids.elims list.distinct(1))
  then have "rb_root s \<in> set (ids (plug k t))"
    using tree_at_root [OF T(1)] root_id_in by metis
  then show ?thesis
    using paint_root [OF T] T assms(2,3) by (auto simp: rb_rep_def keeps_color)
qed

section \<open>One round of the loop\<close>

lemma other_child:
  assumes "zip_at s ((d, c, g, u) # k) p t" "t \<noteq> Tip"
  shows "child_of s d g = p" "child_of s (opp d) g \<noteq> p"
proof -
  show c1: "child_of s d g = p" using assms by (simp add: zip_at_def)
  have c: "tree_at s (child_of s (opp d) g) u" "tree_at s p t" using assms by (auto simp: zip_at_def)
  have "set (ids u) \<inter> set (ids t) = {}" using assms by (auto simp: zip_at_def distinct_nd distinct_plug)
  moreover have "p \<in> set (ids t)" using assms(2) c(2) tree_at_root root_id_in by metis
  moreover have "child_of s (opp d) g \<in> insert (rb_sentinel s) (set (ids u))"
    using tree_at_root [OF c(1)] root_id_in [of u "rb_sentinel s"] by (cases "u = Tip") auto
  ultimately show "child_of s (opp d) g \<noteq> p" using tree_at_sentinel [OF c(2)] by auto
qed

lemma side_of_hole:
  assumes "zip_at s ((d, c, g, u) # k) p t" "t \<noteq> Tip"
  shows "(if p = child_of s Lft g then Lft else Rgt) = d"
  using other_child [OF assms] by (cases d) auto

lemma zip_fields:
  assumes "zip_at s ((d, c, p, b) # k) x t"
  shows "parent_of s x = p" "ngx_rbt_is_red s p = c" "tree_at s (child_of s (opp d) p) b" "x \<noteq> rb_root s" "p \<noteq> rb_sentinel s"
proof -
  show "parent_of s x = p" "ngx_rbt_is_red s p = c" "tree_at s (child_of s (opp d) p) b" "p \<noteq> rb_sentinel s"
    using assms by (auto simp: zip_at_def)
  have "rb_root s \<in> ctx_ids ((d, c, p, b) # k)"
    using assms by (intro ctx_root_in [of s _ x]) (simp_all add: zip_at_def)
  then have r: "rb_root s \<in> set (ids (plug ((d, c, p, b) # k) t)) - set (ids t)"
    using assms by (auto simp: set_ids_plug zip_at_def distinct_plug distinct_nd)
  then have "rb_root s \<noteq> rb_sentinel s" using zip_sentinel [OF assms] by auto
  then show "x \<noteq> rb_root s"
    using r assms tree_at_root [of s x t] root_id_in [of t "rb_sentinel s"] by (cases "t = Tip") (auto simp: zip_at_def)
qed

text \<open>The uncle is red: the colours of the parent, the uncle and the grandparent change, and the
  grandparent is the next node to look at.\<close>

lemma insert_red_uncle:
  assumes z: "zip_at s ((d1, True, p, s1) # (d, False, g, u) # k) x t" and t: "t \<noteq> Tip" and u: "red u"
    and snt: "\<not> ngx_rbt_is_red s (rb_sentinel s)"
  obtains s' where "insert_fix_body d x s = (g, s')" "zip_at s' k g (nd d True (nd d1 False t p s1) g (paint False u))"
    "keeps (set (ids (plug ((d1, True, p, s1) # (d, False, g, u) # k) t))) s s'"
proof -
  have zp: "zip_at s ((d, False, g, u) # k) p (nd d1 True t p s1)" using z t by (rule zip_at_frame)
  note f = zip_fields [OF z] zip_fields [OF zp]
  have lt: "linked s p t" using zp by (simp add: zip_at_def)
  let ?up = "child_of s (opp d) g"
  have up: "?up = root_id (rb_sentinel s) u" "ngx_rbt_is_red s ?up" "?up \<in> set (ids u)"
    using f(8) u is_red_tree [OF f(8) snt] tree_at_root [OF f(8)] root_id_in red_not_Tip by metis+
  have dist: "distinct (ids u)" "p \<noteq> g" "?up \<noteq> p" "?up \<noteq> g" "p \<notin> set (ids t)" "p \<notin> set (ids s1)" "g \<notin> set (ids t)" "g \<notin> set (ids s1)"
    "g \<notin> set (ids u)" "p \<notin> set (ids u)" "?up \<notin> set (ids t)" "?up \<notin> set (ids s1)" "p \<notin> ctx_ids k" "g \<notin> ctx_ids k" "?up \<notin> ctx_ids k"
    using z up(3) by (auto simp: zip_at_def distinct_plug distinct_nd)
  define s' where "s' = set_color True g (set_color False ?up (set_color False p s))"
  have "insert_fix_body d x s = (g, s')"
    unfolding insert_fix_body_def Let_def by (simp add: f up(2) color_ops s'_def)
  moreover have "tree_at s' ?up (paint False u)"
    using paint_root [of "set_color False p s" ?up u] f(8) dist by (simp add: s'_def)
  then have "zip_at s' k g (nd d True (nd d1 False t p s1) g (paint False u))"
    using z lt dist by (simp add: zip_at_def s'_def distinct_plug distinct_nd Int_insert_left)
  moreover have "keeps (set (ids (plug ((d1, True, p, s1) # (d, False, g, u) # k) t))) s s'"
    unfolding s'_def using up(3) by (intro keeps_trans [OF keeps_color keeps_trans [OF keeps_color keeps_color]]) (auto simp: set_ids_plug)
  ultimately show thesis by (rule that)
qed

text \<open>The uncle is black and the node is on the outer side: one rotation at the grandparent.\<close>

lemma insert_outer:
  assumes z: "zip_at s ((d, True, p, s1) # (d, False, g, u) # k) x t" and t: "t \<noteq> Tip" and u: "\<not> red u"
    and snt: "\<not> ngx_rbt_is_red s (rb_sentinel s)"
  obtains s' where "insert_fix_body d x s = (x, s')" "zip_at s' k p (nd d False t p (nd d True s1 g u))"
    "keeps (set (ids (plug ((d, True, p, s1) # (d, False, g, u) # k) t))) s s'"
proof -
  have zp: "zip_at s ((d, False, g, u) # k) p (nd d True t p s1)" using z t by (rule zip_at_frame)
  note f = zip_fields [OF z] zip_fields [OF zp]
  have lt: "linked s p t" using zp by (simp add: zip_at_def)
  let ?A = "set (ids (plug ((d, True, p, s1) # (d, False, g, u) # k) t))"
  have up: "\<not> ngx_rbt_is_red s (child_of s (opp d) g)" using is_red_tree [OF f(8) snt] u by simp
  have dist: "p \<noteq> g" "p \<notin> set (ids t)" "p \<notin> set (ids s1)" "g \<notin> set (ids t)" "g \<notin> set (ids s1)"
    "g \<notin> set (ids u)" "p \<notin> set (ids u)" "p \<notin> ctx_ids k" "g \<notin> ctx_ids k"
    using z by (auto simp: zip_at_def distinct_plug distinct_nd)
  define s1' where "s1' = set_color True g (set_color False p s)"
  have z1: "zip_at s1' k g (nd (opp d) True u g (nd (opp d) False s1 p t))"
    using z lt dist by (simp add: zip_at_def s1'_def distinct_plug distinct_nd Int_insert_left nd_opp)
  have "zip_at (ngx_rbtree_rotate (opp d) g s1') k p (nd d False t p (nd d True s1 g u))"
    using rotate_zip(1) [OF z1] by (simp add: nd_opp)
  moreover have "insert_fix_body d x s = (x, ngx_rbtree_rotate (opp d) g s1')"
    unfolding insert_fix_body_def Let_def using other_child [OF z t] by (auto simp: f up color_ops s1'_def)
  moreover have "keeps ?A s (ngx_rbtree_rotate (opp d) g s1')"
    unfolding s1'_def [symmetric]
    by (rule keeps_trans [of _ _ s1'])
      (use z1 in \<open>auto simp: s1'_def set_ids_plug intro: keeps_trans [OF keeps_color keeps_color] keeps_rotate\<close>)
  ultimately show thesis using that by blast
qed

text \<open>The uncle is black and the node is on the inner side: a rotation at the parent comes first.\<close>

lemma insert_inner:
  assumes z: "zip_at s ((opp d, True, p, s1) # (d, False, g, u) # k) x (nd d True a x b)" and u: "\<not> red u"
    and snt: "\<not> ngx_rbt_is_red s (rb_sentinel s)"
  obtains s' where "insert_fix_body d x s = (p, s')" "zip_at s' k x (nd d False (nd d True s1 p a) x (nd d True b g u))"
    "keeps (set (ids (plug ((opp d, True, p, s1) # (d, False, g, u) # k) (nd d True a x b)))) s s'"
proof -
  have t: "nd d True a x b \<noteq> Tip" by simp
  let ?A = "set (ids (plug ((opp d, True, p, s1) # (d, False, g, u) # k) (nd d True a x b)))"
  have zp: "zip_at s ((d, False, g, u) # k) p (nd d True s1 p (nd d True a x b))"
    using zip_at_frame [OF z t] by (simp add: nd_opp)
  note f = zip_fields [OF z] zip_fields [OF zp]
  have up: "\<not> ngx_rbt_is_red s (child_of s (opp d) g)" using is_red_tree [OF f(8) snt] u by simp
  define s1' where "s1' = ngx_rbtree_rotate d p s"
  have z1: "zip_at s1' ((d, False, g, u) # k) x (nd d True (nd d True s1 p a) x b)"
    unfolding s1'_def by (rule rotate_zip(1) [OF zp])
  have k1: "keeps ?A s s1'" unfolding s1'_def by (rule keeps_rotate [OF zp]) (auto simp: set_ids_plug)
  have f1: "parent_of s1' p = x" "parent_of s1' x = g" using z1 by (simp_all add: zip_at_def)
  have dist: "x \<noteq> g" "x \<notin> set (ids s1)" "x \<notin> set (ids a)" "x \<notin> set (ids b)" "x \<notin> set (ids u)" "x \<notin> ctx_ids k" "p \<noteq> x" "p \<noteq> g"
    "g \<notin> set (ids s1)" "g \<notin> set (ids a)" "g \<notin> set (ids b)" "g \<notin> set (ids u)" "g \<notin> ctx_ids k"
    using z1 by (auto simp: zip_at_def distinct_plug distinct_nd)
  define s2 where "s2 = set_color True g (set_color False x s1')"
  have z2: "zip_at s2 k g (nd (opp d) True u g (nd (opp d) False b x (nd d True s1 p a)))"
    using z1 dist by (simp add: zip_at_def s2_def distinct_plug distinct_nd Int_insert_left nd_opp)
  have "zip_at (ngx_rbtree_rotate (opp d) g s2) k x (nd d False (nd d True s1 p a) x (nd d True b g u))"
    using rotate_zip(1) [OF z2] by (simp add: nd_opp)
  moreover have "insert_fix_body d x s = (p, ngx_rbtree_rotate (opp d) g s2)"
    unfolding insert_fix_body_def Let_def using other_child(1) [OF z t]
    by (simp add: f up color_ops s2_def f1 s1'_def [symmetric] dist)
  moreover have "keeps ?A s (ngx_rbtree_rotate (opp d) g s2)"
  proof (rule keeps_trans [OF k1], rule keeps_trans)
    show "keeps ?A s1' s2" unfolding s2_def
      by (intro keeps_trans [OF keeps_color keeps_color]) (auto simp: set_ids_plug)
    show "keeps ?A s2 (ngx_rbtree_rotate (opp d) g s2)" by (rule keeps_rotate [OF z2]) (auto simp: set_ids_plug)
  qed
  ultimately show thesis using that by blast
qed

section \<open>The loop\<close>

lemma insert_fix_stop:
  assumes z: "zip_at s k p t" and stop: "x = rb_root s \<or> \<not> ngx_rbt_is_red s (parent_of s x)"
    and "\<not> ngx_rbt_is_red s (rb_sentinel s)" "rbt (paint False (plug k t))" "t \<noteq> Tip"
  shows "\<exists>s' T. insert_fix x s = Some s' \<and> rb_rep s' T \<and> ids T = ids (plug k t) \<and> keeps (set (ids (plug k t))) s s'"
proof -
  have "insert_fix x s = Some (set_color False (rb_root s) s)"
    using stop by (subst insert_fix.simps) (auto simp: color_ops)
  then show ?thesis
    using finish_insert [OF z assms(3-5)]
    by (intro exI [of _ "set_color False (rb_root s) s"] exI [of _ "paint False (plug k t)"]) simp
qed

lemma insert_fix_correct:
  assumes "zip_at s k x t" "t \<noteq> Tip" "red t" "invc t" "invh t" "cinvc k False" "cinvh k (bheight t)"
    and "\<not> ngx_rbt_is_red s (rb_sentinel s)"
  shows "\<exists>s' T. insert_fix x s = Some s' \<and> rb_rep s' T \<and> ids T = ids (plug k t) \<and> keeps (set (ids (plug k t))) s s'"
  using assms
proof (induction "length k" arbitrary: s k x t rule: less_induct)
  case less
  note z = less.prems(1) and t = less.prems(2-5) and k = less.prems(6,7) and snt = less.prems(8)
  have snt': "rb_sentinel s \<notin> set (ids (plug k t))" using z by (rule zip_sentinel)
  show ?case
  proof (cases k)
    case Nil
    then have "x = rb_root s" "rbt (paint False t)" using z t by (auto simp: zip_at_def rbt_def invc_paint)
    then show ?thesis using insert_fix_stop [OF z _ snt] t Nil by simp
  next
    case (Cons f1 k1)
    obtain d1 c1 p s1 where f1: "f1 = (d1, c1, p, s1)" by (cases f1)
    note z1 = z [unfolded Cons f1]
    note fp = zip_fields [OF z1]
    show ?thesis
    proof (cases c1)
      case False
      then have "rbt (plug k t)" using t k by (simp add: rbt_plug Cons f1 bheight_nd)
      then show ?thesis using insert_fix_stop [OF z _ snt] t False fp by (simp add: rbt_def)
    next
      case True
      then obtain d g u k2 where k1: "k1 = (d, False, g, u) # k2"
        using k(1) by (cases k1) (auto simp: Cons f1)
      have z2: "zip_at s ((d1, True, p, s1) # (d, False, g, u) # k2) x t" using z1 True by (simp add: k1)
      have zp: "zip_at s ((d, False, g, u) # k2) p (nd d1 True t p s1)" using z2 t(1) by (rule zip_at_frame)
      note fg = zip_fields [OF zp]
      have inv: "invc s1" "\<not> red s1" "invh s1" "bheight s1 = bheight t" "invc u" "invh u" "bheight u = bheight t"
        "cinvc k2 False" "cinvh k2 (bheight t + 1)"
        using k by (simp_all add: Cons f1 k1 True)
      let ?A = "set (ids (plug k t))"
      have red: "x \<noteq> rb_root s \<and> ngx_rbt_is_red s (parent_of s x)" using fp True by simp
      have side: "(if parent_of s x = child_of s Lft (parent_of s (parent_of s x)) then Lft else Rgt) = d"
        using side_of_hole [OF zp] fp fg by simp
      have step: "insert_fix x s = (case insert_fix_body d x s of (y, s') \<Rightarrow> insert_fix y s')"
        by (subst insert_fix.simps) (simp add: red side Let_def)
      have next_snt: "\<not> ngx_rbt_is_red s' (rb_sentinel s')" if "keeps ?A s s'" for s'
        using keeps_sentinel [OF that snt'] snt by simp
      have A: "set (ids (plug ((d1, True, p, s1) # (d, False, g, u) # k2) t)) = ?A" by (simp add: Cons f1 k1 True)
      have "d1 = d \<or> d1 = opp d" by (rule side_cases)
      then consider "red u" | "\<not> red u" "d1 = d" | "\<not> red u" "d1 = opp d" by blast
      then show ?thesis
      proof cases
        case 1
        let ?t = "nd d True (nd d1 False t p s1) g (paint False u)"
        obtain s' where b: "insert_fix_body d x s = (g, s')" "zip_at s' k2 g ?t" "keeps ?A s s'"
          using insert_red_uncle [OF z2 t(1) 1 snt] A by metis
        have h: "bheight (nd d1 False t p s1) = bheight (paint False u)"
          using inv 1 by (simp add: bheight_nd bheight_paint)
        then have "bheight ?t = bheight t + 1" using inv 1 by (simp add: bheight_nd bheight_paint)
        then have "\<exists>s'' T. insert_fix g s' = Some s'' \<and> rb_rep s'' T \<and> ids T = ids (plug k2 ?t) \<and> keeps (set (ids (plug k2 ?t))) s' s''"
          using b(2,3) inv t h next_snt
          by (intro less.hyps) (simp_all add: Cons f1 k1 invc_paint)
        moreover have "ids (plug k2 ?t) = ids (plug k t)"
          by (simp add: Cons f1 k1 ids_plug) (cases d; cases d1; simp)
        ultimately show ?thesis using b keeps_trans [OF b(3)] step by auto
      next
        case 2
        let ?t = "nd d False t p (nd d True s1 g u)"
        obtain s' where b: "insert_fix_body d x s = (x, s')" "zip_at s' k2 p ?t" "keeps ?A s s'"
          using insert_outer [OF z2 [unfolded 2(2)] t(1) 2(1) snt] A 2(2) by metis
        have "rbt (plug k2 ?t)" using inv t 2(1) by (simp add: rbt_plug bheight_nd)
        moreover have "parent_of s' x = p" "\<not> ngx_rbt_is_red s' p"
          using b(2) tree_at_root [of s x t] t(1) z by (auto simp: zip_at_def linked_def2 b(3) [unfolded keeps_def])
        moreover have "ids (plug k2 ?t) = ids (plug k t)"
          by (simp add: Cons f1 k1 2(2) ids_plug) (cases d; simp)
        ultimately show ?thesis
          using insert_fix_stop [OF b(2), of x] next_snt [OF b(3)] b(1) keeps_trans [OF b(3)] step by (fastforce simp: rbt_def)
      next
        case 3
        obtain a b' where tx: "t = nd d True a x b'"
          using nd_cases [OF t(1), of d] t(2) z tree_at_root [of s x t] by (auto simp: zip_at_def)
        let ?t = "nd d False (nd d True s1 p a) x (nd d True b' g u)"
        obtain s' where b: "insert_fix_body d x s = (p, s')" "zip_at s' k2 x ?t" "keeps ?A s s'"
          using insert_inner [OF z2 [unfolded 3(2) tx] 3(1) snt] A 3(2) tx by metis
        have "rbt (plug k2 ?t)" using inv t 3(1) tx by (auto simp: rbt_plug bheight_nd)
        moreover have "parent_of s' p = x" "\<not> ngx_rbt_is_red s' x" using b(2) by (simp_all add: zip_at_def)
        moreover have "ids (plug k2 ?t) = ids (plug k t)"
          by (simp add: Cons f1 k1 3(2) tx ids_plug) (cases d; simp)
        ultimately show ?thesis
          using insert_fix_stop [OF b(2), of p] next_snt [OF b(3)] b(1) keeps_trans [OF b(3)] step by (fastforce simp: rbt_def)
      qed
    qed
  qed
qed

section \<open>The place of a new node\<close>

text \<open>What the tree relies on in an insert callback: it compares the keys of nodes, and the comparison
  is a strict weak order on the keys in use.\<close>

locale key_order =
  fixes less :: "int \<Rightarrow> int \<Rightarrow> bool" and P :: "int \<Rightarrow> bool"
  assumes asym: "P a \<Longrightarrow> P b \<Longrightarrow> less a b \<Longrightarrow> \<not> less b a"
    and negtrans: "P a \<Longrightarrow> P b \<Longrightarrow> P c \<Longrightarrow> \<not> less a b \<Longrightarrow> \<not> less b c \<Longrightarrow> \<not> less a c"
begin

definition lt :: "ngx_rbtree_node \<Rightarrow> ngx_rbtree_node \<Rightarrow> bool" where
  "lt m n \<longleftrightarrow> less (nkey m) (nkey n)"

definition keys_sorted :: "int list \<Rightarrow> bool" where
  "keys_sorted ks \<longleftrightarrow> list_all P ks \<and> sorted_wrt (\<lambda>a b. \<not> less b a) ks"

lemma keys_sorted_insert:
  assumes "keys_sorted (as @ bs)" "P k" "\<forall>a \<in> set as. \<not> less k a" "\<forall>b \<in> set bs. less k b"
  shows "keys_sorted (as @ k # bs)"
  using assms asym by (auto simp: keys_sorted_def sorted_wrt_append list_all_iff)

lemma keys_sorted_subseq: "keys_sorted (as @ k # bs) \<Longrightarrow> keys_sorted (as @ bs)"
  by (auto simp: keys_sorted_def sorted_wrt_append list_all_iff)

text \<open>The keys on the path are compared with the new one, the others are bounded by those.\<close>

lemma less_left: "keys_sorted (as @ t # bs) \<Longrightarrow> P k \<Longrightarrow> less k t \<Longrightarrow> b \<in> set bs \<Longrightarrow> less k b"
  using negtrans [of k b t] by (auto simp: keys_sorted_def sorted_wrt_append list_all_iff)

lemma less_right: "keys_sorted (as @ t # bs) \<Longrightarrow> P k \<Longrightarrow> \<not> less k t \<Longrightarrow> a \<in> set as \<Longrightarrow> \<not> less k a"
  using negtrans [of k t a] by (auto simp: keys_sorted_def sorted_wrt_append list_all_iff)

end

definition keys :: "ngx_rbtree \<Rightarrow> nat list \<Rightarrow> int list" where
  "keys s xs = map (\<lambda>x. nkey (rb_mem s x)) xs"

lemma keys_simps [simp]: "keys s [] = []" "keys s (x # xs) = nkey (rb_mem s x) # keys s xs"
    "keys s (xs @ ys) = keys s xs @ keys s ys" "set (keys s xs) = (\<lambda>x. nkey (rb_mem s x)) ` set xs"
  by (simp_all add: keys_def)

lemma keeps_keys: "keeps A s s' \<Longrightarrow> keys s' xs = keys s xs"
  by (simp add: keeps_def keys_def)

text \<open>Attaching a new red leaf.\<close>

definition attach :: "rb_side \<Rightarrow> nat \<Rightarrow> nat \<Rightarrow> ngx_rbtree \<Rightarrow> ngx_rbtree" where
  "attach d temp node s = ngx_rbt_red node (set_child_of Rgt node (rb_sentinel s) (set_child_of Lft node (rb_sentinel s)
     (set_parent node temp (set_child_of d temp node s))))"

lemma attach_mem:
  "temp \<noteq> node \<Longrightarrow> rb_mem (attach d temp node s) v =
     (if v = node then (rb_mem s node)\<lparr>nleft := rb_sentinel s, nright := rb_sentinel s, nparent := temp, ncolor := True\<rparr>
      else if v = temp then set_child d node (rb_mem s v) else rb_mem s v)"
  "rb_root (attach d temp node s) = rb_root s" "rb_sentinel (attach d temp node s) = rb_sentinel s"
  by (auto simp: attach_def ngx_rbt_red_def node_upd_def set_child_mem)

lemma attach_zip:
  assumes z: "zip_at s k temp (nd d c Tip temp b)" and x: "x \<notin> set (ids (plug k (nd d c Tip temp b)))" "x \<noteq> rb_sentinel s"
  shows "zip_at (attach d temp x s) ((d, c, temp, b) # k) x (nd Lft True Tip x Tip)"
    and "keeps (insert x (set (ids (plug k (nd d c Tip temp b))))) s (attach d temp x s)"
proof -
  let ?s = "attach d temp x s"
  have tx: "temp \<noteq> x" using x by (auto simp: set_ids_plug)
  note mem = attach_mem(1) [OF tx] attach_mem(2,3)
  show "keeps (insert x (set (ids (plug k (nd d c Tip temp b))))) s ?s"
    by (auto simp: keeps_def mem set_ids_plug)
  have dist: "distinct (ids b)" "distinct_ctx k" "temp \<notin> set (ids b)" "temp \<notin> ctx_ids k" "x \<notin> set (ids b)" "x \<notin> ctx_ids k"
    using z x by (auto simp: zip_at_def distinct_plug distinct_nd set_ids_plug)
  have tb: "tree_at s (child_of s (opp d) temp) b" "linked s temp b" "ctx_at s k temp" "hole_parent s temp k"
    using z by (auto simp: zip_at_def)
  have rest: "rb_mem ?s v = rb_mem s v" if "v \<in> set (ids b) \<union> ctx_ids k" for v using that dist by (auto simp: mem)
  have "tree_at ?s (child_of s (opp d) temp) b"
    by (rule tree_at_frame [OF tb(1) dist(1)]) (simp_all add: mem(3) rest same_but_parent_def parent_of_def)
  moreover have "linked ?s temp b" using tb(2) rest by (cases b) (auto simp: linked_def parent_of_def)
  moreover have "ctx_at ?s k temp" by (rule ctx_at_frame [OF tb(3) dist(2)]) (simp_all add: mem(2,3) rest)
  moreover have "hole_parent ?s temp k" using tb(4) tx by (auto simp: hole_parent_def parent_of_def mem split: list.splits)
  moreover have "child_of ?s d temp = x" "child_of ?s (opp d) temp = child_of s (opp d) temp" "ngx_rbt_is_red ?s temp = ngx_rbt_is_red s temp"
    "parent_of ?s x = temp" "ngx_rbt_is_red ?s x" "child_of ?s e x = rb_sentinel s" for e
    using tx by (cases e; simp add: child_of_def ngx_rbt_is_red_def parent_of_def mem)+
  moreover have "distinct (ids (plug ((d, c, temp, b) # k) (nd Lft True Tip x Tip)))"
    using z x by (auto simp: zip_at_def distinct_plug distinct_nd set_ids_plug)
  ultimately show "zip_at ?s ((d, c, temp, b) # k) x (nd Lft True Tip x Tip)"
    using z x(2) tx by (simp add: zip_at_def mem(3))
qed

lemma zip_down:
  assumes "zip_at s k x (nd d c a x b)" "a \<noteq> Tip" shows "zip_at s ((d, c, x, b) # k) (child_of s d x) a"
  using assms tree_at_root [of s "child_of s d x" a] by (auto simp: zip_at_def linked_def2)

lemma attach_descend:
  "insert_descend lt temp node s =
     (let d = (if lt (rb_mem s node) (rb_mem s temp) then Lft else Rgt)
      in if child_of s d temp = rb_sentinel s then Some (attach d temp node s)
         else insert_descend lt (child_of s d temp) node s)"
  by (subst insert_descend.simps) (simp add: attach_def)

context key_order
begin

lemma descend:
  assumes "zip_at s k temp t" "t \<noteq> Tip" "x \<notin> set (ids (plug k t))" "x \<noteq> rb_sentinel s" "P (nkey (rb_mem s x))"
    and "keys_sorted (keys s (ids (plug k t)))"
    and "\<forall>v \<in> set (before k). \<not> less (nkey (rb_mem s x)) (nkey (rb_mem s v))"
    and "\<forall>v \<in> set (after k). less (nkey (rb_mem s x)) (nkey (rb_mem s v))"
  shows "\<exists>k' s'. insert_descend lt temp x s = Some s' \<and> zip_at s' k' x (nd Lft True Tip x Tip) \<and> plug k' Tip = plug k t \<and>
    keeps (insert x (set (ids (plug k t)))) s s' \<and>
    (\<forall>v \<in> set (before k'). \<not> less (nkey (rb_mem s x)) (nkey (rb_mem s v))) \<and>
    (\<forall>v \<in> set (after k'). less (nkey (rb_mem s x)) (nkey (rb_mem s v)))"
  using assms
proof (induction "size t" arbitrary: t k temp rule: less_induct)
  case less
  note z = less.prems(1) and prems = less.prems(3-8)
  let ?x = "nkey (rb_mem s x)" and ?t = "nkey (rb_mem s temp)"
  define d where "d = (if lt (rb_mem s x) (rb_mem s temp) then Lft else Rgt)"
  obtain c a b where t: "t = nd d c a temp b"
    using nd_cases [OF less.prems(2), of d] z tree_at_root [of s temp t] by (auto simp: zip_at_def)
  let ?k = "(d, c, temp, b) # k"
  have sz: "size a < size t" by (cases d) (simp_all add: t)
  have ta: "tree_at s (child_of s d temp) a" using z by (simp add: zip_at_def t)
  have bounds: "(\<forall>v \<in> set (before ?k). \<not> less ?x (nkey (rb_mem s v))) \<and> (\<forall>v \<in> set (after ?k). less ?x (nkey (rb_mem s v)))"
  proof (cases "less ?x ?t")
    case True
    then have d: "d = Lft" by (simp add: d_def lt_def)
    have "keys_sorted ((keys s (before k) @ keys s (ids a)) @ ?t # keys s (ids b) @ keys s (after k))"
      using prems(4) by (simp add: t d ids_plug)
    from less_left [OF this prems(3) True] have "less ?x (nkey (rb_mem s v))" if "v \<in> set (ids b)" for v
      using that by simp
    then show ?thesis using prems(5,6) True by (auto simp: d)
  next
    case False
    then have d: "d = Rgt" by (simp add: d_def lt_def)
    have "keys_sorted ((keys s (before k) @ keys s (ids b)) @ ?t # keys s (ids a) @ keys s (after k))"
      using prems(4) by (simp add: t d ids_plug)
    from less_right [OF this prems(3) False] have "\<not> less ?x (nkey (rb_mem s v))" if "v \<in> set (ids b)" for v
      using that by simp
    then show ?thesis using prems(5,6) False by (auto simp: d)
  qed
  show ?case
  proof (cases "a = Tip")
    case True
    then have "insert_descend lt temp x s = Some (attach d temp x s)"
      using ta by (subst attach_descend) (simp add: d_def [symmetric] Let_def)
    moreover have "zip_at s k temp (nd d c Tip temp b)" "x \<notin> set (ids (plug k (nd d c Tip temp b)))"
      using z prems(1) by (simp_all add: t True)
    ultimately show ?thesis
      using attach_zip [of s k temp d c b x] prems(2) bounds
      by (intro exI [of _ ?k] exI [of _ "attach d temp x s"]) (simp add: t True)
  next
    case False
    then have "insert_descend lt temp x s = insert_descend lt (child_of s d temp) x s"
      using tree_at_Tip [OF ta] by (subst attach_descend) (simp add: d_def [symmetric] Let_def)
    moreover have "zip_at s ?k (child_of s d temp) a" using zip_down z False by (simp add: t)
    ultimately show ?thesis
      using less.hyps [OF sz _ False, of ?k "child_of s d temp"] prems bounds by (simp add: t)
  qed
qed

theorem insert_correct:
  assumes rep: "rb_rep s T" and x: "x \<notin> set (ids T)" "x \<noteq> rb_sentinel s" "P (nkey (rb_mem s x))"
    and sorted: "keys_sorted (keys s (ids T))"
  shows "\<exists>s' T' as bs. ngx_rbtree_insert (insert_descend lt) x s = Some s' \<and> rb_rep s' T' \<and>
    ids T = as @ bs \<and> ids T' = as @ x # bs \<and> keys_sorted (keys s' (ids T')) \<and>
    (\<forall>v \<in> set as. \<not> less (nkey (rb_mem s x)) (nkey (rb_mem s v))) \<and>
    (\<forall>v \<in> set bs. less (nkey (rb_mem s x)) (nkey (rb_mem s v))) \<and>
    keeps (insert x (set (ids T))) s s'"
proof (cases T)
  case Tip
  define s' where "s' = (ngx_rbt_black x (set_child_of Rgt x (rb_sentinel s) (set_child_of Lft x (rb_sentinel s)
      (set_parent x NULL s))))\<lparr>rb_root := x\<rparr>"
  have "rb_root s = rb_sentinel s" using rep by (simp add: rb_rep_def Tip)
  then have "ngx_rbtree_insert (insert_descend lt) x s = Some s'"
    by (simp add: ngx_rbtree_insert_def s'_def Let_def set_child_mem)
  moreover have f: "rb_mem s' v = (if v = x then (rb_mem s x)\<lparr>nleft := rb_sentinel s, nright := rb_sentinel s, nparent := NULL, ncolor := False\<rparr>
      else rb_mem s v)" "rb_root s' = x" "rb_sentinel s' = rb_sentinel s" for v
    by (simp_all add: s'_def color_ops set_color_def node_upd_def set_child_mem)
  have "rb_rep s' (Nd False Tip x Tip)"
    using rep x(2) by (simp add: rb_rep_def f rbt_def child_of_def ngx_rbt_is_red_def)
  moreover have "keys_sorted (keys s' [x])" using x(3) by (simp add: keys_sorted_def f)
  moreover have "keeps {x} s s'" by (simp add: keeps_def f)
  ultimately show ?thesis
    by (intro exI [of _ s'] exI [of _ "Nd False Tip x Tip"] exI [of _ "[]"]) (simp add: Tip)
next
  case (Nd c l r0 r)
  then have T: "T \<noteq> Tip" by simp
  have tree: "tree_at s (rb_root s) T" "distinct (ids T)" "rbt T" "\<not> ngx_rbt_is_red s (rb_sentinel s)"
    using rep by (simp_all add: rb_rep_def)
  have z: "zip_at s [] (rb_root s) T" using tree by (simp add: zip_at_def)
  obtain k s1 where d: "insert_descend lt (rb_root s) x s = Some s1" "zip_at s1 k x (nd Lft True Tip x Tip)" "plug k Tip = T"
    "keeps (insert x (set (ids T))) s s1" "\<forall>v \<in> set (before k). \<not> less (nkey (rb_mem s x)) (nkey (rb_mem s v))"
    "\<forall>v \<in> set (after k). less (nkey (rb_mem s x)) (nkey (rb_mem s v))"
    using descend [OF z T, of x] x sorted by auto
  have "rb_sentinel s \<notin> insert x (set (ids T))" using tree_at_sentinel [OF tree(1)] x(2) by simp
  then have snt: "\<not> ngx_rbt_is_red s1 (rb_sentinel s1)" using keeps_sentinel [OF d(4)] tree(4) by simp
  have "cinvc k False" "cinvh k 0" using tree(3) by (simp_all add: d(3) [symmetric] rbt_plug)
  then obtain s' T' where f: "insert_fix x s1 = Some s'" "rb_rep s' T'" "ids T' = ids (plug k (nd Lft True Tip x Tip))"
    "keeps (set (ids (plug k (nd Lft True Tip x Tip)))) s1 s'"
    using insert_fix_correct [OF d(2)] snt by auto
  have "rb_root s \<noteq> rb_sentinel s" using tree_at_Tip [OF tree(1)] T by simp
  then have "ngx_rbtree_insert (insert_descend lt) x s = Some s'" by (simp add: ngx_rbtree_insert_def d(1) f(1))
  moreover have ids: "ids T = before k @ after k" "ids T' = before k @ x # after k"
    using d(3) f(3) by (auto simp: ids_plug)
  moreover have k: "keeps (insert x (set (ids T))) s s'"
    by (rule keeps_trans [OF d(4)]) (use f(4) ids in \<open>simp add: set_ids_plug keeps_def ids_plug Un_commute\<close>)
  moreover have "keys_sorted (keys s' (ids T'))"
    unfolding keeps_keys [OF k] unfolding ids keys_simps
    by (rule keys_sorted_insert) (use sorted x(3) d(5,6) ids in auto)
  ultimately show ?thesis using f(2) d(5,6) by blast
qed

end

end
