(* ===== verification/Ngx_Rbtree_Fix.thy ===== *)
theory Ngx_Rbtree_Fix
  imports Ngx_Rbtree_Insert
begin

text \<open>
  The rebalancing loop of a deletion: it makes up for the black node that is missing on the path to
  the subtree it starts at, and returns.
\<close>

section \<open>Moving in the tree\<close>

lemma zip_up: "zip_at s ((d, c, x, b) # k) p t \<Longrightarrow> zip_at s k x (nd d c t x b)"
  using tree_at_root [of s p t] by (auto simp: zip_at_def linked_def2)

lemma zip_downI: "zip_at s k x (nd d c a x b) \<Longrightarrow> parent_of s (child_of s d x) = x \<Longrightarrow>
    zip_at s ((d, c, x, b) # k) (child_of s d x) a"
  by (auto simp: zip_at_def)

text \<open>The sibling of the subtree at the hole.\<close>

lemma zip_sibling:
  assumes "zip_at s ((d, c, q, w) # k) p t" "w \<noteq> Tip"
  shows "zip_at s ((opp d, c, q, t) # k) (child_of s (opp d) q) w" "child_of s (opp d) q = root_id (rb_sentinel s) w"
    "child_of s (opp d) q \<noteq> p" "child_of s d q = p" "parent_of s p = q" "linked s q t"
proof -
  have z: "zip_at s k q (nd (opp d) c w q t)" using zip_up [OF assms(1)] by (simp add: nd_opp)
  show "zip_at s ((opp d, c, q, t) # k) (child_of s (opp d) q) w" by (rule zip_down [OF z assms(2)])
  show c: "child_of s (opp d) q = root_id (rb_sentinel s) w" using assms(1) tree_at_root by (auto simp: zip_at_def)
  show p: "child_of s d q = p" "parent_of s p = q" using assms(1) by (simp_all add: zip_at_def)
  show "linked s q t" using zip_up [OF assms(1)] by (simp add: zip_at_def)
  have "p \<in> insert (rb_sentinel s) (set (ids t))"
    using assms(1) tree_at_root [of s p t] root_id_in [of t "rb_sentinel s"] by (cases "t = Tip") (auto simp: zip_at_def)
  moreover have "root_id (rb_sentinel s) w \<in> set (ids w)" by (rule root_id_in [OF assms(2)])
  moreover have "rb_sentinel s \<notin> set (ids w)" "set (ids w) \<inter> set (ids t) = {}"
    using assms(1) tree_at_sentinel by (auto simp: zip_at_def distinct_plug distinct_nd)
  ultimately show "child_of s (opp d) q \<noteq> p" using c by auto
qed

lemma zip_sibling_side:
  assumes "zip_at s ((d, c, q, w) # k) p t" "w \<noteq> Tip"
  shows "(if p = child_of s Lft q then Lft else Rgt) = d"
  using zip_sibling(3,4) [OF assms] by (cases d) auto

lemma black_children:
  "(\<not> ngx_rbt_is_red s (child_of s Lft w) \<and> \<not> ngx_rbt_is_red s (child_of s Rgt w)) \<longleftrightarrow>
   (\<not> ngx_rbt_is_red s (child_of s d w) \<and> \<not> ngx_rbt_is_red s (child_of s (opp d) w))"
  by (cases d) auto

lemma keeps_parent_Tip: "keeps A s s' \<Longrightarrow> v \<notin> A \<Longrightarrow> parent_of s' v = parent_of s v"
  by (simp add: keeps_def parent_of_def)

section \<open>The cases of the loop\<close>

text \<open>A rotation at the parent of the hole moves the sibling up.\<close>

lemma rotate_sibling:
  assumes z: "zip_at s ((d, c, q, nd d e a y b) # k) p t"
  shows "zip_at (ngx_rbtree_rotate d q s) ((d, c, q, a) # (d, e, y, b) # k) p t"
    and "zip_at (ngx_rbtree_rotate d q s) k y (nd d e (nd d c t q a) y b)"
    and "keeps (set (ids (plug ((d, c, q, nd d e a y b) # k) t))) s (ngx_rbtree_rotate d q s)"
proof -
  let ?s = "ngx_rbtree_rotate d q s"
  have z0: "zip_at s k q (nd d c t q (nd d e a y b))" by (rule zip_up [OF z])
  show z1: "zip_at ?s k y (nd d e (nd d c t q a) y b)" by (rule rotate_zip(1) [OF z0])
  show k: "keeps (set (ids (plug ((d, c, q, nd d e a y b) # k) t))) s ?s" using keeps_rotate [OF z0] by simp
  have z2: "zip_at ?s ((d, e, y, b) # k) q (nd d c t q a)" using zip_down [OF z1] z1 by (simp add: zip_at_def)
  have snt: "rb_sentinel ?s = rb_sentinel s" by (rule rotate_zip(2) [OF z0])
  have p: "p = root_id (rb_sentinel s) t" "parent_of s p = q" using z tree_at_root by (auto simp: zip_at_def)
  have ch: "child_of ?s d q = p" using z2 tree_at_root [of ?s "child_of ?s d q" t] p snt by (simp add: zip_at_def)
  have "parent_of ?s p = q"
  proof (cases "t = Tip")
    case True
    then have "p \<notin> set (ids (plug ((d, c, q, nd d e a y b) # k) t))" using p zip_sentinel [OF z] by simp
    then show ?thesis using keeps_parent_Tip [OF k] p by simp
  next
    case False
    then show ?thesis using z2 p snt by (simp add: zip_at_def linked_def2)
  qed
  then show "zip_at ?s ((d, c, q, a) # (d, e, y, b) # k) p t" using zip_downI [OF z2] ch by simp
qed

lemma recolor_sibling:
  assumes z: "zip_at s ((d, c, q, nd d e a y b) # k) p t"
  shows "zip_at (set_color e' y s) ((d, c, q, nd d e' a y b) # k) p t"
    and "zip_at (set_color c' q s) ((d, c', q, nd d e a y b) # k) p t"
  using z by (auto simp: zip_at_def distinct_plug distinct_nd)

text \<open>A red sibling becomes the grandparent.\<close>

lemma delete_red_sibling:
  assumes z: "zip_at s ((d, False, q, nd d True wl y wr) # k) p t"
  obtains s' where "delete_fix_body d p s = delete_fix_black d p (child_of s' (opp d) q) s'"
    "zip_at s' ((d, True, q, wl) # (d, False, y, wr) # k) p t"
    "keeps (set (ids (plug ((d, False, q, nd d True wl y wr) # k) t))) s s'"
proof -
  let ?A = "set (ids (plug ((d, False, q, nd d True wl y wr) # k) t))"
  define s1 where "s1 = set_color True q (set_color False y s)"
  have z1: "zip_at s1 ((d, True, q, nd d False wl y wr) # k) p t"
    unfolding s1_def by (intro recolor_sibling [OF recolor_sibling(1) [OF z]])
  have k1: "keeps ?A s s1"
    unfolding s1_def by (intro keeps_trans [OF keeps_color keeps_color]) (auto simp: set_ids_plug)
  have f: "child_of s (opp d) q = y" "parent_of s p = q" "ngx_rbt_is_red s y"
    using zip_sibling(2,5) [OF z] z by (auto simp: zip_at_def)
  note r = rotate_sibling [OF z1]
  have "parent_of (ngx_rbtree_rotate d q s1) p = q" using r(1) by (simp add: zip_at_def)
  then have "delete_fix_body d p s = delete_fix_black d p (child_of (ngx_rbtree_rotate d q s1) (opp d) q) (ngx_rbtree_rotate d q s1)"
    unfolding delete_fix_body_def Let_def by (simp add: f color_ops s1_def [symmetric])
      (simp add: s1_def f)
  moreover have "keeps ?A s (ngx_rbtree_rotate d q s1)" using k1 r(3) by (auto simp: set_ids_plug intro: keeps_trans)
  ultimately show thesis using r(1) that by blast
qed

text \<open>A black sibling with black children becomes red, and the parent is the next to look at.\<close>

lemma delete_black_children:
  assumes z: "zip_at s ((d, c, q, nd d False wl y wr) # k) p t" and "\<not> red wl" "\<not> red wr"
    and snt: "\<not> ngx_rbt_is_red s (rb_sentinel s)"
  shows "delete_fix_black d p y s = (q, set_color True y s)"
    and "zip_at (set_color True y s) k q (nd d c t q (nd d True wl y wr))"
    and "keeps (set (ids (plug ((d, c, q, nd d False wl y wr) # k) t))) s (set_color True y s)"
proof -
  have ch: "tree_at s (child_of s d y) wl" "tree_at s (child_of s (opp d) y) wr" "parent_of s p = q"
    using z by (auto simp: zip_at_def)
  then have "\<not> ngx_rbt_is_red s (child_of s d y)" "\<not> ngx_rbt_is_red s (child_of s (opp d) y)"
    using is_red_tree [OF _ snt] assms(2,3) by auto
  then show "delete_fix_black d p y s = (q, set_color True y s)"
    unfolding delete_fix_black_def using black_children [of s y d] ch(3) by (simp add: color_ops)
  show "zip_at (set_color True y s) k q (nd d c t q (nd d True wl y wr))"
    by (rule zip_up [OF recolor_sibling(1) [OF z]])
  show "keeps (set (ids (plug ((d, c, q, nd d False wl y wr) # k) t))) s (set_color True y s)"
    by (rule keeps_color) (simp add: set_ids_plug)
qed

text \<open>The two parts of the round for a black sibling with a red child.\<close>

definition near_part :: "rb_side \<Rightarrow> nat \<Rightarrow> nat \<Rightarrow> ngx_rbtree \<Rightarrow> nat \<times> ngx_rbtree" where
  "near_part d temp w s =
     (let s = ngx_rbt_black (child_of s d w) s; s = ngx_rbt_red w s; s = ngx_rbtree_rotate (opp d) w s
      in (child_of s (opp d) (parent_of s temp), s))"

definition far_part :: "rb_side \<Rightarrow> nat \<Rightarrow> nat \<Rightarrow> ngx_rbtree \<Rightarrow> nat \<times> ngx_rbtree" where
  "far_part d temp w s =
     (let s = ngx_rbt_copy_color w (parent_of s temp) s; s = ngx_rbt_black (parent_of s temp) s;
          s = ngx_rbt_black (child_of s (opp d) w) s; s = ngx_rbtree_rotate d (parent_of s temp) s
      in (rb_root s, s))"

lemma delete_fix_black_red:
  "\<not> (\<not> ngx_rbt_is_red s (child_of s Lft w) \<and> \<not> ngx_rbt_is_red s (child_of s Rgt w)) \<Longrightarrow>
     delete_fix_black d temp w s =
       (case (if \<not> ngx_rbt_is_red s (child_of s (opp d) w) then near_part d temp w s else (w, s)) of
          (w, s) \<Rightarrow> far_part d temp w s)"
  unfolding delete_fix_black_def far_part_def near_part_def Let_def by (simp only: if_False)

text \<open>The far child of the sibling is red: a rotation at the parent ends the loop.\<close>

lemma delete_far_red:
  assumes z: "zip_at s ((d, c, q, nd d False wl y wr) # k) p t" and wr: "red wr"
    and snt: "\<not> ngx_rbt_is_red s (rb_sentinel s)"
  obtains s' where "far_part d p y s = (rb_root s', s')"
    "zip_at s' k y (nd d c (nd d False t q wl) y (paint False wr))"
    "keeps (set (ids (plug ((d, c, q, nd d False wl y wr) # k) t))) s s'"
proof -
  let ?A = "set (ids (plug ((d, c, q, nd d False wl y wr) # k) t))"
  let ?v = "child_of s (opp d) y"
  have f: "parent_of s p = q" "ngx_rbt_is_red s q = c" "tree_at s ?v wr" "distinct (ids wr)"
    using z by (auto simp: zip_at_def distinct_plug distinct_nd)
  have v: "?v \<in> set (ids wr)" using tree_at_root [OF f(3)] root_id_in [OF red_not_Tip [OF wr]] by simp
  have dist: "q \<noteq> y" "q \<notin> set (ids wr)" "y \<notin> set (ids wr)" "?v \<noteq> q" "?v \<noteq> y" "?v \<notin> set (ids wl)" "?v \<notin> set (ids t)" "?v \<notin> ctx_ids k"
    "q \<notin> set (ids wl)" "q \<notin> set (ids t)" "q \<notin> ctx_ids k" "y \<notin> set (ids wl)" "y \<notin> set (ids t)" "y \<notin> ctx_ids k"
    using z v by (auto simp: zip_at_def distinct_plug distinct_nd)
  define s1 where "s1 = set_color False ?v (set_color False q (set_color c y s))"
  have "tree_at s1 ?v (paint False wr)"
    using paint_root [of "set_color False q (set_color c y s)" ?v wr] f dist by (simp add: s1_def)
  then have z1: "zip_at s1 ((d, False, q, nd d c wl y (paint False wr)) # k) p t"
    using z dist by (simp add: zip_at_def s1_def distinct_plug distinct_nd)
  have k1: "keeps ?A s s1"
    unfolding s1_def using v by (intro keeps_trans [OF keeps_color keeps_trans [OF keeps_color keeps_color]]) (auto simp: set_ids_plug)
  note r = rotate_sibling [OF z1]
  have "keeps ?A s (ngx_rbtree_rotate d q s1)" using k1 r(3) by (auto simp: set_ids_plug intro: keeps_trans)
  then show thesis using r(2) by (intro that [of "ngx_rbtree_rotate d q s1"]) (simp_all add: far_part_def Let_def f color_ops s1_def)
qed

text \<open>Only the near child is red: a rotation at the sibling comes first.\<close>

lemma delete_near_red:
  assumes z: "zip_at s ((d, c, q, nd d False (nd d True a v b) y wr) # k) p t"
  obtains s' where "near_part d p y s = (v, s')"
    "zip_at s' ((d, c, q, nd d False a v (nd d True b y wr)) # k) p t"
    "keeps (set (ids (plug ((d, c, q, nd d False (nd d True a v b) y wr) # k) t))) s s'"
proof -
  let ?A = "set (ids (plug ((d, c, q, nd d False (nd d True a v b) y wr) # k) t))"
  have f: "child_of s d y = v" "parent_of s p = q" "child_of s (opp d) q = y" using z by (auto simp: zip_at_def)
  define s1 where "s1 = set_color True y (set_color False v s)"
  have z1: "zip_at s1 ((d, c, q, nd d True (nd d False a v b) y wr) # k) p t"
    using z by (auto simp: zip_at_def s1_def distinct_plug distinct_nd)
  have k1: "keeps ?A s s1"
    unfolding s1_def by (intro keeps_trans [OF keeps_color keeps_color]) (auto simp: set_ids_plug)
  have "zip_at s1 ((opp d, c, q, t) # k) y (nd (opp d) True wr y (nd (opp d) False b v a))"
    using zip_sibling(1,2) [OF z1] by (simp add: nd_opp)
  note r = rotate_zip(1) [OF this] keeps_rotate [OF this]
  let ?s = "ngx_rbtree_rotate (opp d) y s1"
  have k2: "keeps ?A s1 ?s" by (rule r(2)) (auto simp: set_ids_plug)
  have z2: "zip_at ?s ((opp d, c, q, t) # k) v (nd d False a v (nd d True b y wr))" using r(1) by (simp add: nd_opp)
  have z3: "zip_at ?s k q (nd d c t q (nd d False a v (nd d True b y wr)))" using zip_up [OF z2] by (simp add: nd_opp)
  have p: "p = root_id (rb_sentinel s1) t" using z1 tree_at_root by (auto simp: zip_at_def)
  have snt: "rb_sentinel ?s = rb_sentinel s1" using k2 by (simp add: keeps_def)
  then have ch: "child_of ?s d q = p" using z3 tree_at_root [of ?s "child_of ?s d q" t] p by (simp add: zip_at_def)
  have par: "parent_of ?s p = q"
  proof (cases "t = Tip")
    case True
    then have "p \<notin> ?A" using p zip_sentinel [OF z1] by (simp add: set_ids_plug)
    then show ?thesis using keeps_parent_Tip [OF k2] z1 by (simp add: zip_at_def)
  next
    case False
    then show ?thesis using z3 p snt by (simp add: zip_at_def linked_def2)
  qed
  have z4: "zip_at ?s ((d, c, q, nd d False a v (nd d True b y wr)) # k) p t"
    using zip_downI [OF z3] ch par by simp
  moreover have "child_of ?s (opp d) q = v" using z4 by (simp add: zip_at_def)
  ultimately show thesis using keeps_trans [OF k1 k2] par
    by (intro that [of ?s]) (simp_all add: near_part_def Let_def f color_ops s1_def)
qed

lemma delete_red_child:
  assumes z: "zip_at s ((d, c, q, nd d False wl y wr) # k) p t" and red: "red wl \<or> red wr"
    and inv: "invc wl" "invc wr" "invh wl" "invh wr" "bheight wl = n" "bheight wr = n"
    and snt: "\<not> ngx_rbt_is_red s (rb_sentinel s)"
  obtains s' x u where "delete_fix_black d p y s = (rb_root s', s')" "zip_at s' k x u" "u \<noteq> Tip"
    "red u = c" "invc t \<Longrightarrow> \<not> red t \<Longrightarrow> invc u" "invh t \<Longrightarrow> bheight t = n \<Longrightarrow> invh u \<and> bheight u = (if c then n + 1 else n + 2)"
    "ids (plug k u) = ids (plug ((d, c, q, nd d False wl y wr) # k) t)"
    "keeps (set (ids (plug ((d, c, q, nd d False wl y wr) # k) t))) s s'"
proof -
  let ?A = "set (ids (plug ((d, c, q, nd d False wl y wr) # k) t))"
  have ch: "tree_at s (child_of s d y) wl" "tree_at s (child_of s (opp d) y) wr"
    using z by (auto simp: zip_at_def)
  then have rd: "ngx_rbt_is_red s (child_of s d y) = red wl" "ngx_rbt_is_red s (child_of s (opp d) y) = red wr"
    using is_red_tree [OF _ snt] by auto
  have nb: "\<not> (\<not> ngx_rbt_is_red s (child_of s Lft y) \<and> \<not> ngx_rbt_is_red s (child_of s Rgt y))"
    using black_children [of s y d] rd red by simp
  show thesis
  proof (cases "red wr")
    case True
    obtain s' where s': "far_part d p y s = (rb_root s', s')"
      "zip_at s' k y (nd d c (nd d False t q wl) y (paint False wr))" "keeps ?A s s'"
      using delete_far_red [OF z True snt] by blast
    have "delete_fix_black d p y s = (rb_root s', s')"
      using delete_fix_black_red [OF nb] rd(2) True s'(1) by simp
    moreover have "ids (plug k (nd d c (nd d False t q wl) y (paint False wr))) = ids (plug ((d, c, q, nd d False wl y wr) # k) t)"
      unfolding plug.simps by (rule ids_plug_cong) (cases d; simp)
    ultimately show thesis
      using s'(2,3) inv True
      by (intro that [of s' y "nd d c (nd d False t q wl) y (paint False wr)"])
        (simp_all add: bheight_nd bheight_paint invc_paint)
  next
    case False
    then obtain a v b where wl: "wl = nd d True a v b"
      using red nd_cases [of wl d] red_not_Tip [of wl] by fastforce
    obtain s1 where s1: "near_part d p y s = (v, s1)"
      "zip_at s1 ((d, c, q, nd d False a v (nd d True b y wr)) # k) p t" "keeps ?A s s1"
      using delete_near_red [OF z [unfolded wl]] wl by blast
    have snt1: "\<not> ngx_rbt_is_red s1 (rb_sentinel s1)"
      using keeps_sentinel [OF s1(3)] zip_sentinel [OF z] snt by simp
    have A: "set (ids (plug ((d, c, q, nd d False a v (nd d True b y wr)) # k) t)) = ?A" by (auto simp: set_ids_plug wl)
    have "red (nd d True b y wr)" by simp
    from delete_far_red [OF s1(2) this snt1] obtain s' where s': "far_part d p v s1 = (rb_root s', s')"
      "zip_at s' k v (nd d c (nd d False t q a) v (nd d False b y wr))" "keeps ?A s1 s'"
      unfolding A nd_simps(2) by blast
    have "delete_fix_black d p y s = (rb_root s', s')"
      using delete_fix_black_red [OF nb] rd(2) False s1(1) s'(1) by simp
    moreover have "ids (plug k (nd d c (nd d False t q a) v (nd d False b y wr))) = ids (plug ((d, c, q, nd d False wl y wr) # k) t)"
      unfolding plug.simps wl by (rule ids_plug_cong) (cases d; simp)
    moreover have "bheight a = bheight b" "bheight b = n" using inv wl by (auto simp: bheight_nd)
    ultimately show thesis
      using s'(2) keeps_trans [OF s1(3) s'(3)] inv False
      by (intro that [of s' v "nd d c (nd d False t q a) v (nd d False b y wr)"])
        (simp_all add: wl bheight_nd)
  qed
qed

section \<open>The loop\<close>

lemma delete_fix_stop:
  assumes z: "zip_at s k p t" and stop: "p = rb_root s \<or> ngx_rbt_is_red s p" and snt: "\<not> ngx_rbt_is_red s (rb_sentinel s)"
    and inv: "invc (paint False t)" "invh t" "cinvh k (bheight t + 1)" "cinvc k False"
  shows "\<exists>s' T. delete_fix p s = Some s' \<and> rb_rep s' T \<and> ids T = ids (plug k t) \<and>
    keeps (insert (rb_sentinel s) (set (ids (plug k t)))) s s'"
proof -
  let ?s = "set_color False p s" and ?A = "insert (rb_sentinel s) (set (ids (plug k t)))"
  have df: "delete_fix p s = Some ?s" using stop by (subst delete_fix.simps) (auto simp: color_ops)
  have p: "tree_at s p t" "distinct (ids t)" using z by (auto simp: zip_at_def distinct_plug)
  have pA: "p \<in> ?A"
    using tree_at_root [OF p(1)] root_id_in [of t "rb_sentinel s"] by (cases "t = Tip") (auto simp: set_ids_plug)
  have "p \<notin> ctx_ids k"
  proof (cases "t = Tip")
    case True
    then show ?thesis using p(1) ctx_at_sentinel z by (auto simp: zip_at_def)
  next
    case False
    then show ?thesis using tree_at_root [OF p(1)] root_id_in [OF False, of "rb_sentinel s"] z by (auto simp: zip_at_def distinct_plug)
  qed
  then have z': "zip_at ?s k p (paint False t)"
    using z paint_root [OF p] by (auto simp: zip_at_def distinct_plug)
  have "k = [] \<or> red t"
    using stop zip_fields(4) [of s _ _ _ _ _ p t] z is_red_tree [OF p(1) snt] by (cases k) auto
  then have "rbt (plug k (paint False t))"
    using inv by (auto simp: rbt_plug bheight_paint)
  then have "rb_rep ?s (plug k (paint False t))"
    using zip_at_plug [OF z'] z' snt by (simp add: rb_rep_def zip_at_def)
  then show ?thesis using df keeps_color [OF pA] by (intro exI [of _ ?s] exI [of _ "plug k (paint False t)"]) (simp add: ids_plug)
qed

lemma delete_fix_root:
  assumes "zip_at s k x u" "u \<noteq> Tip" "rbt (plug k u)" "\<not> ngx_rbt_is_red s (rb_sentinel s)"
  shows "\<exists>s' T. delete_fix (rb_root s) s = Some s' \<and> rb_rep s' T \<and> ids T = ids (plug k u) \<and> keeps (set (ids (plug k u))) s s'"
proof -
  have "paint False (plug k u) = plug k u" using assms(3) by (simp add: rbt_def)
  moreover have "delete_fix (rb_root s) s = Some (set_color False (rb_root s) s)"
    by (subst delete_fix.simps) (simp add: color_ops)
  ultimately show ?thesis using finish_insert [OF assms(1,4) _ assms(2)] assms(3) by metis
qed

lemma delete_fix_step:
  assumes "zip_at s ((d, c, q, w) # k) p t" "w \<noteq> Tip" "\<not> ngx_rbt_is_red s p"
  shows "delete_fix p s = (case delete_fix_body d p s of (p', s') \<Rightarrow> delete_fix p' s')"
  using zip_fields [OF assms(1)] zip_sibling_side [OF assms(1,2)] assms(3)
  by (subst delete_fix.simps) (simp add: Let_def)

lemma keeps_mono: "keeps A s s' \<Longrightarrow> A \<subseteq> B \<Longrightarrow> keeps B s s'"
  by (auto simp: keeps_def)

text \<open>A black sibling with a red child ends the loop.\<close>

lemma delete_fix_red_child:
  assumes z: "zip_at s ((d, c, q, nd d False wl y wr) # k) p t" and red: "red wl \<or> red wr"
    and inv: "invc wl" "invc wr" "invh wl" "invh wr" "bheight wl = bheight t" "bheight wr = bheight t"
    and t: "invc t" "\<not> red t" "invh t" and k: "cinvc k c" "cinvh k (if c then bheight t + 1 else bheight t + 2)"
    and snt: "\<not> ngx_rbt_is_red s (rb_sentinel s)"
  shows "\<exists>s' T. (case delete_fix_black d p y s of (p', s') \<Rightarrow> delete_fix p' s') = Some s' \<and> rb_rep s' T \<and>
    ids T = ids (plug ((d, c, q, nd d False wl y wr) # k) t) \<and> keeps (set (ids (plug ((d, c, q, nd d False wl y wr) # k) t))) s s'"
proof -
  let ?T = "plug ((d, c, q, nd d False wl y wr) # k) t"
  obtain s' x u where b: "delete_fix_black d p y s = (rb_root s', s')" "zip_at s' k x u" "u \<noteq> Tip" "red u = c" "invc u"
    "invh u \<and> bheight u = (if c then bheight t + 1 else bheight t + 2)" "ids (plug k u) = ids ?T" "keeps (set (ids ?T)) s s'"
    using delete_red_child [OF z red inv snt] t by metis
  have "rbt (plug k u)" using b(4-6) k by (simp add: rbt_plug)
  moreover have "\<not> ngx_rbt_is_red s' (rb_sentinel s')" using keeps_sentinel [OF b(8)] zip_sentinel [OF z] snt by simp
  ultimately obtain s'' T where "delete_fix (rb_root s') s' = Some s''" "rb_rep s'' T" "ids T = ids (plug k u)" "keeps (set (ids (plug k u))) s' s''"
    using delete_fix_root [OF b(2,3)] by blast
  then show ?thesis using b(1,7) keeps_trans [OF b(8)] by auto
qed

lemma delete_fix_correct:
  assumes "zip_at s k p t" "invc (paint False t)" "invh t" "cinvh k (bheight t + 1)" "cinvc k False"
    and "\<not> ngx_rbt_is_red s (rb_sentinel s)"
  shows "\<exists>s' T. delete_fix p s = Some s' \<and> rb_rep s' T \<and> ids T = ids (plug k t) \<and>
    keeps (insert (rb_sentinel s) (set (ids (plug k t)))) s s'"
  using assms
proof (induction "length k" arbitrary: s k p t rule: less_induct)
  case less
  note z = less.prems(1) and inv = less.prems(2-5) and snt = less.prems(6)
  let ?A = "insert (rb_sentinel s) (set (ids (plug k t)))"
  have pt: "tree_at s p t" using z by (simp add: zip_at_def)
  show ?case
  proof (cases "k = [] \<or> red t")
    case True
    then have "p = rb_root s \<or> ngx_rbt_is_red s p" using z is_red_tree [OF pt snt] by (auto simp: zip_at_def)
    then show ?thesis using delete_fix_stop [OF z _ snt inv] by blast
  next
    case False
    then obtain d c q w k' where k: "k = (d, c, q, w) # k'" by (cases k) auto
    have t: "\<not> red t" "invc t" "\<not> ngx_rbt_is_red s p" using False inv(1) is_red_tree [OF pt snt] by auto
    note zk = z [unfolded k]
    have w: "invc w" "invh w" "bheight w = bheight t + 1" "w \<noteq> Tip" "c \<Longrightarrow> \<not> red w" "cinvc k' c"
      "cinvh k' (if c then bheight t + 1 else bheight t + 2)"
      using inv(3,4) by (auto simp: k)
    obtain e wl y wr where we: "w = nd d e wl y wr" using nd_cases [OF w(4)] by blast
    have bw: "invc wl" "invc wr" "invh wl" "invh wr" "bheight wl = bheight wr" "e \<Longrightarrow> \<not> red wl \<and> \<not> red wr"
      "bheight wr = (if e then bheight t + 1 else bheight t)"
      using w(1-3) by (auto simp: we bheight_nd split: if_splits)
    note step = delete_fix_step [OF zk w(4) t(3)]
    show ?thesis
    proof (cases e)
      case False
      note zw = zk [unfolded we] 
      have ze: "zip_at s ((d, c, q, nd d False wl y wr) # k') p t" using zw False by simp
      have body: "delete_fix_body d p s = delete_fix_black d p y s"
        using zip_sibling(2,5) [OF ze] ze False unfolding delete_fix_body_def Let_def by (simp add: zip_at_def)
      show ?thesis
      proof (cases "red wl \<or> red wr")
        case True
        then show ?thesis
          using delete_fix_red_child [OF ze True] bw w(6,7) t inv(2) snt False step body keeps_mono [of "set (ids (plug k t))" _ _ ?A]
          by (fastforce simp: k we)
      next
        case False
        then have nr: "\<not> red wl" "\<not> red wr" by simp_all
        note b = delete_black_children [OF ze nr snt]
        let ?t = "nd d c t q (nd d True wl y wr)"
        have h: "bheight t = bheight (nd d True wl y wr)" using bw \<open>\<not> e\<close> by (simp add: bheight_nd)
        have "\<exists>s' T. delete_fix q (set_color True y s) = Some s' \<and> rb_rep s' T \<and> ids T = ids (plug k' ?t) \<and>
            keeps (insert (rb_sentinel (set_color True y s)) (set (ids (plug k' ?t)))) (set_color True y s) s'"
        proof (rule less.hyps)
          show "\<not> ngx_rbt_is_red (set_color True y s) (rb_sentinel (set_color True y s))"
            using keeps_sentinel [OF b(3)] zip_sentinel [OF ze] snt by simp
          show "cinvh k' (bheight ?t + 1)" using w(7) h bw \<open>\<not> e\<close> by (simp add: bheight_nd split: if_splits)
        qed (use b(2) w(6) cinvc_black bw t inv(2) nr h in \<open>auto simp: k\<close>)
        moreover have "plug k' ?t = plug k' ?t" ..
        moreover have "ids (plug k' ?t) = ids (plug k t)" unfolding k we plug.simps by (rule ids_plug_cong) (cases d; simp)
        moreover have "keeps ?A s (set_color True y s)" using b(3) keeps_mono [of _ s _ ?A] by (fastforce simp: k we \<open>\<not> e\<close> set_ids_plug)
        ultimately show ?thesis using step body b(1) keeps_trans by fastforce
      qed
    next
      case True
      then have c: "\<not> c" using w(5) by (auto simp: we)
      have ze: "zip_at s ((d, False, q, nd d True wl y wr) # k') p t" using zk True c by (simp add: we)
      obtain s1 where b: "delete_fix_body d p s = delete_fix_black d p (child_of s1 (opp d) q) s1"
        "zip_at s1 ((d, True, q, wl) # (d, False, y, wr) # k') p t"
        "keeps (set (ids (plug ((d, False, q, nd d True wl y wr) # k') t))) s s1"
        using delete_red_sibling [OF ze] by blast
      have ids1: "ids (plug ((d, True, q, wl) # (d, False, y, wr) # k') t) = ids (plug k t)"
        unfolding k we plug.simps by (rule ids_plug_cong) (cases d; simp)
      have k1: "keeps ?A s s1" using b(3) keeps_mono [of _ s _ ?A] by (fastforce simp: k we set_ids_plug)
      have snt1: "\<not> ngx_rbt_is_red s1 (rb_sentinel s1)" "rb_sentinel s1 = rb_sentinel s"
        using keeps_sentinel [OF b(3)] zip_sentinel [OF ze] snt b(3) by (simp_all add: keeps_def)
      have "wl \<noteq> Tip" "\<not> red wl" using bw True by auto
      then obtain a z b' where wl: "wl = nd d False a z b'" using nd_cases [of wl d] by fastforce
      note zl = b(2) [unfolded wl]
      have y: "child_of s1 (opp d) q = z" using zip_sibling(2) [OF zl] by simp
      have bz: "invc a" "invc b'" "invh a" "invh b'" "bheight a = bheight t" "bheight b' = bheight t"
        using bw True by (auto simp: wl bheight_nd)
      have ck: "cinvc ((d, False, y, wr) # k') True" "cinvh ((d, False, y, wr) # k') (bheight t + 1)"
        using bw True w(6,7) c by simp_all
      show ?thesis
      proof (cases "red a \<or> red b'")
        case red: True
        show ?thesis
          using delete_fix_red_child [OF zl red bz t(2,1) inv(2) ck(1) _ snt1(1)] ck(2) ids1 step b(1) y
            keeps_trans [OF k1] keeps_mono [of "set (ids (plug k t))" _ _ ?A] by (fastforce simp: wl)
      next
        case False
        then have nr: "\<not> red a" "\<not> red b'" by simp_all
        note c2 = delete_black_children [OF zl nr snt1(1)]
        let ?t = "nd d True t q (nd d True a z b')"
        let ?s = "set_color True z s1"
        have h: "bheight t = bheight (nd d True a z b')" using bz by (simp add: bheight_nd)
        have snt2: "\<not> ngx_rbt_is_red ?s (rb_sentinel ?s)"
          using keeps_sentinel [OF c2(3)] zip_sentinel [OF zl] snt1 by simp
        have "\<exists>s' T. delete_fix q ?s = Some s' \<and> rb_rep s' T \<and> ids T = ids (plug ((d, False, y, wr) # k') ?t) \<and>
            keeps (insert (rb_sentinel ?s) (set (ids (plug ((d, False, y, wr) # k') ?t)))) ?s s'"
        proof (rule delete_fix_stop [OF c2(2) _ snt2])
          show "q = rb_root ?s \<or> ngx_rbt_is_red ?s q" using c2(2) by (simp add: zip_at_def)
          show "cinvh ((d, False, y, wr) # k') (bheight ?t + 1)"
            using ck(2) unfolding bheight_nd [OF h] if_True h [symmetric] .
          show "cinvc ((d, False, y, wr) # k') False" using ck(1) by (rule cinvc_black)
        qed (use bz t inv(2) nr h in auto)
        moreover have "ids (plug ((d, False, y, wr) # k') ?t) = ids (plug k t)"
          unfolding ids1 [symmetric] wl plug.simps by (rule ids_plug_cong) (cases d; simp)
        moreover have "keeps ?A s ?s"
          by (rule keeps_trans [OF k1 keeps_mono [OF c2(3)]]) (use ids1 [unfolded wl] in auto)
        ultimately show ?thesis using step b(1) y c2(1) keeps_trans snt1(2) by fastforce
      qed
    qed
  qed
qed

end
