(* ===== verification/Ngx_Rbtree_Delete.thy ===== *)
theory Ngx_Rbtree_Delete
  imports Ngx_Rbtree_Fix
begin

text \<open>
  Deletion from a red-black tree: a node with at most one child is taken out, a node with two is
  replaced by its successor, and the rebalancing loop restores the colours. The order of the other
  nodes does not change. Then the minimum and the successor of a node, and the properties of the
  trees as their clients use them.
\<close>

section \<open>Taking out a node with at most one child\<close>

lemma zip_cong:
  assumes z: "zip_at s k p t" and "rb_sentinel s' = rb_sentinel s" "rb_root s' = rb_root s"
    and mem: "\<And>v. v \<in> insert p (set (ids (plug k t))) \<Longrightarrow> rb_mem s' v = rb_mem s v"
  shows "zip_at s' k p t"
proof -
  have dist: "distinct (ids t)" "distinct_ctx k" using z by (auto simp: zip_at_def distinct_plug)
  have same: "rb_mem s' v = rb_mem s v" if "v \<in> set (ids t) \<union> ctx_ids k \<union> {p}" for v
    using mem that by (auto simp: set_ids_plug)
  have "tree_at s' p t"
    by (rule tree_at_frame [of s]) (use z dist assms(2) same in \<open>simp_all add: zip_at_def same_but_parent_def parent_of_def\<close>)
  moreover have "ctx_at s' k p"
    by (rule ctx_at_frame [of s]) (use z dist assms(2,3) same in \<open>simp_all add: zip_at_def\<close>)
  moreover have "hole_parent s' p k"
    using z same [of p] by (auto simp: zip_at_def hole_parent_def parent_of_def split: list.splits)
  ultimately show ?thesis using z by (simp add: zip_at_def)
qed

lemma splice:
  assumes z: "zip_at s ((dk, ck, q, sb) # k) x (nd d c Tip x t)" and temp: "temp = child_of s (opp d) x"
  defines "s' \<equiv> set_parent temp q (set_child_of dk q temp s)"
  shows "zip_at s' ((dk, ck, q, sb) # k) temp t"
    and "\<And>v. rb_mem s' v = (if v = temp then (rb_mem s v)\<lparr>nparent := q\<rparr> else if v = q then set_child dk temp (rb_mem s v) else rb_mem s v)"
    and "temp = root_id (rb_sentinel s) t"
proof -
  let ?k = "(dk, ck, q, sb) # k"
  have t: "tree_at s temp t" "ctx_at s ?k x" and dist: "distinct (ids t)" "distinct_ctx ?k" "x \<notin> ctx_ids ?k" "set (ids t) \<inter> ctx_ids ?k = {}"
    using z by (auto simp: zip_at_def temp distinct_plug distinct_nd)
  show root: "temp = root_id (rb_sentinel s) t" by (rule tree_at_root [OF t(1)])
  have out: "temp \<notin> ctx_ids ?k"
    using ctx_at_sentinel [OF t(2)] root root_id_in [of t "rb_sentinel s"] dist(4) by (cases "t = Tip") auto
  then have "temp \<noteq> q" by auto
  then show mem: "rb_mem s' v = (if v = temp then (rb_mem s v)\<lparr>nparent := q\<rparr> else if v = q then set_child dk temp (rb_mem s v) else rb_mem s v)" for v
    by (simp add: s'_def set_child_mem)
  have snt: "rb_sentinel s' = rb_sentinel s" "rb_root s' = rb_root s" by (simp_all add: s'_def set_child_mem)
  have "q \<notin> set (ids t)" using dist(4) by auto
  then have "tree_at s' temp t"
    by (intro tree_at_frame [OF t(1) dist(1) snt(1)]) (auto simp: mem same_but_parent_def parent_of_def)
  moreover have "ctx_at s' ?k temp"
    by (rule ctx_at_redirect [OF t(2) dist(2) snt(1) dist(3)]) (use out mem snt(2) in auto)
  moreover have "hole_parent s' temp ?k" by (simp add: parent_of_def mem)
  moreover have "distinct (ids (plug ?k t))" using dist by (auto simp: distinct_plug distinct_nd)
  ultimately show "zip_at s' ?k temp t" by (simp add: zip_at_def)
qed

lemma clear_node_mem:
  "rb_mem (clear_node x s) v = (if v = x then (rb_mem s x)\<lparr>nleft := NULL, nright := NULL, nparent := NULL, nkey := 0\<rparr> else rb_mem s v)"
  "rb_root (clear_node x s) = rb_root s" "rb_sentinel (clear_node x s) = rb_sentinel s"
  by (simp_all add: clear_node_def node_upd_def)

lemma zip_clear: "zip_at s k p t \<Longrightarrow> x \<notin> set (ids (plug k t)) \<Longrightarrow> x \<noteq> p \<Longrightarrow> zip_at (clear_node x s) k p t"
  by (rule zip_cong) (auto simp: clear_node_mem)

text \<open>What a deletion keeps: the keys of the other nodes, and all memory outside of the tree and the
  sentinel.\<close>

definition keeps_but :: "nat \<Rightarrow> nat set \<Rightarrow> ngx_rbtree \<Rightarrow> ngx_rbtree \<Rightarrow> bool" where
  "keeps_but x A s s' \<longleftrightarrow> rb_sentinel s' = rb_sentinel s \<and> (\<forall>v. v \<noteq> x \<longrightarrow> nkey (rb_mem s' v) = nkey (rb_mem s v)) \<and>
     (\<forall>v. v \<notin> insert (rb_sentinel s) A \<longrightarrow> rb_mem s' v = rb_mem s v) \<and>
     (ngx_rbt_is_red s' (rb_sentinel s) = ngx_rbt_is_red s (rb_sentinel s))"

text \<open>From a subtree one black node short, or none when the node taken out was red, to the end of the
  deletion.\<close>

lemma delete_finish:
  assumes z: "zip_at s1 k p t" and inv: "invc t" "invh t" "cinvc k (if r then red t else False)" "cinvh k (if r then bheight t else bheight t + 1)"
    and keep: "keeps_but x A s s1" and snt: "\<not> ngx_rbt_is_red s (rb_sentinel s)" and A: "set (ids (plug k t)) \<subseteq> A"
  shows "\<exists>s' T. (if r then Some s1 else delete_fix p s1) = Some s' \<and> rb_rep s' T \<and> ids T = ids (plug k t) \<and> keeps_but x A s s'"
proof (cases r)
  case True
  then have "rbt (plug k t)" using inv by (simp add: rbt_plug)
  then have "rb_rep s1 (plug k t)"
    using zip_at_plug [OF z] z snt keep by (simp add: rb_rep_def zip_at_def keeps_but_def)
  then show ?thesis using True keep by auto
next
  case False
  have snt1: "\<not> ngx_rbt_is_red s1 (rb_sentinel s1)" using keep snt by (simp add: keeps_but_def)
  obtain s' T where d: "delete_fix p s1 = Some s'" "rb_rep s' T" "ids T = ids (plug k t)"
    "keeps (insert (rb_sentinel s1) (set (ids (plug k t)))) s1 s'"
    using delete_fix_correct [OF z _ inv(2) _ _ snt1] inv False invc_paint by auto
  have "keeps_but x A s s'" using keep d(2,4) A snt by (auto simp: keeps_but_def keeps_def rb_rep_def)
  then show ?thesis using d False by auto
qed

section \<open>Replacing a node by its successor\<close>

lemma let_eq: "a = b \<Longrightarrow> f b = c \<Longrightarrow> Let a f = c"
  by simp

lemma delete_move_mem:
  assumes neq: "x \<noteq> y" "temp \<noteq> x" "temp \<noteq> y" "lp \<noteq> x" "lp \<noteq> y" "rp \<noteq> x" "rp \<noteq> y" "temp \<noteq> lp" "lp \<noteq> rp" "lp \<noteq> rb_sentinel s"
    and q: "x \<noteq> rb_root s \<longrightarrow> q \<noteq> x \<and> q \<noteq> y \<and> q \<noteq> temp \<and> q \<noteq> lp \<and> q \<noteq> rp"
    and f: "child_of s Lft x = lp" "child_of s Rgt x = rp" "parent_of s x = q" "parent_of s y = py"
  shows "rb_mem (delete_move x y temp s) v =
     (if v = y then (rb_mem s y)\<lparr>nleft := lp, nright := rp, nparent := q, ncolor := ngx_rbt_is_red s x\<rparr>
      else if v = lp then (rb_mem s v)\<lparr>nparent := y\<rparr>
      else if v = rp \<and> rp \<noteq> rb_sentinel s then (rb_mem s v)\<lparr>nparent := y\<rparr>
      else if v = temp then (rb_mem s v)\<lparr>nparent := if py = x then y else py\<rparr>
      else if v = q \<and> x \<noteq> rb_root s then set_child (if x = child_of s Lft q then Lft else Rgt) y (rb_mem s v)
      else rb_mem s v)"
    and "rb_root (delete_move x y temp s) = (if x = rb_root s then y else rb_root s)"
    and "rb_sentinel (delete_move x y temp s) = rb_sentinel s"
proof -
  define s1 where "s1 = set_parent temp (if py = x then y else py) s"
  define s1a where "s1a = set_child_of Lft y lp s1"
  define s1b where "s1b = set_child_of Rgt y rp s1a"
  define s1c where "s1c = set_parent y q s1b"
  define s2 where "s2 = set_color (ngx_rbt_is_red s x) y s1c"
  define s3 where "s3 = (if x = rb_root s then s2\<lparr>rb_root := y\<rparr> else set_child_of (if x = child_of s Lft q then Lft else Rgt) q y s2)"
  define s4 where "s4 = set_parent lp y s3"
  define s5 where "s5 = (if rp \<noteq> rb_sentinel s then set_parent rp y s4 else s4)"
  have a1: "(if parent_of s y = x then set_parent temp y s else set_parent temp (parent_of s y) s) = s1"
    by (simp add: s1_def f)
  have r1: "child_of s1 d x = child_of s d x" "parent_of s1 x = q" "ngx_rbt_is_red s1 x = ngx_rbt_is_red s x" "rb_root s1 = rb_root s"
    "rb_sentinel s1 = rb_sentinel s" for d
    using neq f by (simp_all add: s1_def set_child_mem ngx_rbt_is_red_def)
  have a2: "set_child_of Lft y (child_of s1 Lft x) s1 = s1a" "set_child_of Rgt y (child_of s1a Rgt x) s1a = s1b"
      "set_parent y (parent_of s1b x) s1b = s1c" "ngx_rbt_copy_color y x s1c = s2"
    using neq r1 f by (simp_all add: s1a_def s1b_def s1c_def s2_def set_child_mem color_ops ngx_rbt_is_red_def)
  have m2: "rb_mem s2 v = (if v = y then (rb_mem s y)\<lparr>nleft := lp, nright := rp, nparent := q, ncolor := ngx_rbt_is_red s x\<rparr>
      else if v = temp then (rb_mem s v)\<lparr>nparent := if py = x then y else py\<rparr> else rb_mem s v)" for v
    using neq by (simp add: s2_def s1c_def s1b_def s1a_def s1_def set_child_mem set_color_def node_upd_def)
  have r2: "rb_root s2 = rb_root s" "rb_sentinel s2 = rb_sentinel s" "parent_of s2 x = q" "x \<noteq> rb_root s \<Longrightarrow> child_of s2 Lft q = child_of s Lft q"
    using neq q f r1 by (auto simp: m2 child_of_def parent_of_def) (simp_all add: s2_def s1a_def s1b_def s1c_def s1_def set_child_mem set_color_def node_upd_def)
  have a3: "(if x = rb_root s2 then s2\<lparr>rb_root := y\<rparr> else if x = child_of s2 Lft (parent_of s2 x)
      then set_child_of Lft (parent_of s2 x) y s2 else set_child_of Rgt (parent_of s2 x) y s2) = s3"
    unfolding s3_def r2(1,3) using r2(4) by auto
  have m3: "rb_mem s3 v = (if v = q \<and> x \<noteq> rb_root s then set_child (if x = child_of s Lft q then Lft else Rgt) y (rb_mem s v) else rb_mem s2 v)" for v
    using q by (auto simp: s3_def set_child_mem m2)
  have r3: "child_of s3 Lft y = lp" "child_of s3 Rgt y = rp" "rb_sentinel s3 = rb_sentinel s"
    "rb_root s3 = (if x = rb_root s then y else rb_root s)"
    using q r2 by (auto simp: m3 m2 child_of_def) (simp_all add: s3_def set_child_mem)
  have a4: "(if child_of s3 Lft y \<noteq> rb_sentinel s3 then set_parent (child_of s3 Lft y) y s3 else s3) = s4"
    unfolding r3 s4_def using neq by simp
  have a5: "(if child_of s4 Rgt y \<noteq> rb_sentinel s4 then set_parent (child_of s4 Rgt y) y s4 else s4) = s5"
    using r3 neq by (simp add: s5_def s4_def set_child_mem)
  have m5: "rb_mem s5 v = (if v = rp \<and> rp \<noteq> rb_sentinel s then (rb_mem s4 v)\<lparr>nparent := y\<rparr> else rb_mem s4 v)"
      "rb_mem s4 v = (if v = lp then (rb_mem s3 v)\<lparr>nparent := y\<rparr> else rb_mem s3 v)" for v
    by (simp_all add: s5_def s4_def set_child_mem)
  have move: "delete_move x y temp s = s5"
    unfolding delete_move_def
    by (rule let_eq [OF a1], rule let_eq [OF a2(1)], rule let_eq [OF a2(2)], rule let_eq [OF a2(3)],
        rule let_eq [OF a2(4)], rule let_eq [OF a3], rule let_eq [OF a4], rule a5)
  show "rb_root (delete_move x y temp s) = (if x = rb_root s then y else rb_root s)"
    "rb_sentinel (delete_move x y temp s) = rb_sentinel s"
    unfolding move s5_def s4_def using r3 by (simp_all add: set_child_mem)
  show "rb_mem (delete_move x y temp s) v =
     (if v = y then (rb_mem s y)\<lparr>nleft := lp, nright := rp, nparent := q, ncolor := ngx_rbt_is_red s x\<rparr>
      else if v = lp then (rb_mem s v)\<lparr>nparent := y\<rparr>
      else if v = rp \<and> rp \<noteq> rb_sentinel s then (rb_mem s v)\<lparr>nparent := y\<rparr>
      else if v = temp then (rb_mem s v)\<lparr>nparent := if py = x then y else py\<rparr>
      else if v = q \<and> x \<noteq> rb_root s then set_child (if x = child_of s Lft q then Lft else Rgt) y (rb_mem s v)
      else rb_mem s v)"
  proof -
    consider "v = q" "x \<noteq> rb_root s" "v \<noteq> y" "v \<noteq> temp" "v \<noteq> lp" "v \<noteq> rp" | "v = y" "\<not> (v = q \<and> x \<noteq> rb_root s)"
      | "v \<noteq> y" "\<not> (v = q \<and> x \<noteq> rb_root s)" "v = lp" | "v \<noteq> y" "\<not> (v = q \<and> x \<noteq> rb_root s)" "v \<noteq> lp"
      using q by blast
    then show ?thesis
    proof cases
      case 1
      then show ?thesis unfolding move m5 m3 m2 by simp
    next
      case 2
      then show ?thesis unfolding move m5 m3 m2 using neq(5,7) by auto
    next
      case 3
      then show ?thesis unfolding move m5 m3 m2 using neq(8,9) by auto
    next
      case 4
      then show ?thesis unfolding move m5 m3 m2 by (simp only: if_False simp_thms) (cases "v = temp"; simp)
    qed
  qed
qed

text \<open>A node of the tree is renamed: another node has taken over its fields and the pointers to it.\<close>

lemma rename:
  assumes z: "zip_at s k x (Nd c l x r)" and y: "y \<notin> set (ids (plug k (Nd c l x r)))" "y \<noteq> rb_sentinel s"
    and snt: "rb_sentinel s' = rb_sentinel s" and root: "k = [] \<Longrightarrow> rb_root s' = y"
    and yf: "child_of s' Lft y = child_of s Lft x" "child_of s' Rgt y = child_of s Rgt x" "parent_of s' y = parent_of s x"
      "ngx_rbt_is_red s' y = c"
    and sub: "\<And>v. v \<in> set (ids l) \<union> set (ids r) \<Longrightarrow> same_but_parent (rb_mem s' v) (rb_mem s v)"
    and par: "\<And>v. v \<in> set (ids l) \<union> set (ids r) \<Longrightarrow> v \<noteq> child_of s Lft x \<Longrightarrow> v \<noteq> child_of s Rgt x \<Longrightarrow> parent_of s' v = parent_of s v"
    and lk: "linked s' y l" "linked s' y r"
    and ctx: "\<And>v. v \<in> ctx_ids k \<Longrightarrow> v \<noteq> parent_of s x \<Longrightarrow> rb_mem s' v = rb_mem s v"
    and top: "\<And>d c q b k'. k = (d, c, q, b) # k' \<Longrightarrow> rb_mem s' q = set_child d y (rb_mem s q) \<and> rb_root s' = rb_root s"
  shows "zip_at s' k y (Nd c l y r)"
proof -
  have t: "tree_at s (child_of s Lft x) l" "tree_at s (child_of s Rgt x) r" "ctx_at s k x" "hole_parent s x k"
    and dist: "distinct (ids l)" "distinct (ids r)" "set (ids l) \<inter> set (ids r) = {}" "x \<notin> ctx_ids k" "distinct_ctx k"
    using z by (auto simp: zip_at_def distinct_plug)
  have lid: "child_of s Lft x \<notin> set (ids r)"
    using tree_at_root [OF t(1)] root_id_in [of l "rb_sentinel s"] dist(3) tree_at_sentinel [OF t(2)] by (cases "l = Tip") auto
  have rid: "child_of s Rgt x \<notin> set (ids l)"
    using tree_at_root [OF t(2)] root_id_in [of r "rb_sentinel s"] dist(3) tree_at_sentinel [OF t(1)] by (cases "r = Tip") auto
  have "tree_at s' (child_of s Lft x) l"
    by (rule tree_at_frame [OF t(1) dist(1) snt]) (use sub par rid in auto)
  moreover have "tree_at s' (child_of s Rgt x) r"
    by (rule tree_at_frame [OF t(2) dist(2) snt]) (use sub par lid in auto)
  moreover have "ctx_at s' k y"
  proof (rule ctx_at_redirect [OF t(3) dist(5) snt dist(4)])
    fix v assume v: "v \<in> ctx_ids k" "\<not> (k \<noteq> [] \<and> v = fst (snd (snd (hd k))))"
    then have "v \<noteq> parent_of s x" using t(4) by (cases k) auto
    then show "rb_mem s' v = rb_mem s v" by (rule ctx [OF v(1)])
  qed (use top root in auto)
  moreover have "hole_parent s' y k" using t(4) yf(3) by (auto simp: hole_parent_def split: list.splits)
  moreover have "distinct (ids (plug k (Nd c l y r)))"
    using z y by (auto simp: zip_at_def distinct_plug set_ids_plug)
  ultimately show ?thesis using yf lk y(2) snt by (simp add: zip_at_def)
qed

lemma before_append: "before (k @ k') = before k' @ before k" "after (k @ k') = after k @ after k'"
  by (induction k rule: before.induct) simp_all

lemma min_plug:
  "tree_at s p t \<Longrightarrow> t \<noteq> Tip \<Longrightarrow>
     \<exists>k c y r. t = plug k (Nd c Tip y r) \<and> (\<forall>f \<in> set k. fst f = Lft) \<and> before k = [] \<and> ngx_rbtree_min p s = Some y"
proof (induction t arbitrary: p)
  case (Nd c l x r)
  show ?case
  proof (cases "l = Tip")
    case True
    then show ?thesis
      using Nd.prems by (intro exI [of _ "[]"]) (simp, subst ngx_rbtree_min.simps, simp)
  next
    case False
    then obtain k cy y ry where l: "l = plug k (Nd cy Tip y ry)" "\<forall>f \<in> set k. fst f = Lft" "before k = []"
      "ngx_rbtree_min (child_of s Lft x) s = Some y"
      using Nd.IH(1) [of "child_of s Lft x"] Nd.prems by auto
    have "ngx_rbtree_min p s = Some y"
      using Nd.prems False l(4) tree_at_Tip [of s "child_of s Lft x" l] by (subst ngx_rbtree_min.simps) auto
    moreover have "before (k @ [(Lft, c, x, r)]) = []" using l(3) by (simp add: before_append)
    ultimately show ?thesis
      using l by (intro exI [of _ "k @ [(Lft, c, x, r)]"] exI [of _ cy] exI [of _ y] exI [of _ ry]) (simp add: plug_append)
  qed
qed simp

lemma root_id_cases: "root_id snt t = snt \<and> t = Tip \<or> root_id snt t \<in> set (ids t) \<and> t \<noteq> Tip"
  using root_id_in [of t snt] by (cases "t = Tip") auto

lemma nparent_twice: "n\<lparr>nparent := a, nparent := b\<rparr> = n\<lparr>nparent := b\<rparr>"
  by simp

lemma delete_successor:
  assumes z: "zip_at s k x (Nd c l x (plug kr (Nd cy Tip y ry)))" and l: "l \<noteq> Tip"
  defines "temp \<equiv> child_of s Rgt y"
  defines "s1 \<equiv> (if y = child_of s Lft (parent_of s y) then set_child_of Lft (parent_of s y) temp s else set_child_of Rgt (parent_of s y) temp s)"
  shows "zip_at (clear_node x (delete_move x y temp s1)) (kr @ (Rgt, c, y, l) # k) temp ry"
    and "keeps_but x (set (ids (plug k (Nd c l x (plug kr (Nd cy Tip y ry)))))) s (clear_node x (delete_move x y temp s1))"
proof -
  define kk where "kk = kr @ (Rgt, c, x, l) # k"
  have plug: "plug kk t = plug k (Nd c l x (plug kr t))" for t by (simp add: kk_def plug_append)
  have zy: "zip_at s kk y (Nd cy Tip y ry)"
    using zip_atI [of "Nd cy Tip y ry" s kk] zip_at_plug [OF z] z by (simp add: plug zip_at_def)
  obtain dk ck py sb k0 where kk: "kk = (dk, ck, py, sb) # k0" by (cases kk) (auto simp: kk_def)
  have py: "parent_of s y = py" using zy by (simp add: zip_at_def kk)
  have "(if y = child_of s Lft py then Lft else Rgt) = dk" using side_of_hole [of s dk ck py sb k0 y] zy by (simp add: kk)
  then have s1: "s1 = set_child_of dk py temp s" unfolding s1_def py by auto
  define s2 where "s2 = set_parent temp py s1"
  have zs: "zip_at s ((dk, ck, py, sb) # k0) y (nd Lft cy Tip y ry)" using zy by (simp add: kk)
  note sp = splice [OF zs, of temp, folded s1 s2_def kk, unfolded opp.simps, OF temp_def [THEN meta_eq_to_obj_eq]]
  have z2: "zip_at s2 kk temp ry" by (rule sp(1))
  have zx: "zip_at s2 k x (Nd c l x (plug kr ry))"
    using zip_atI [of "Nd c l x (plug kr ry)" s2 k] zip_at_plug [OF z2] z2 by (simp add: plug zip_at_def)
  have snt: "rb_sentinel s1 = rb_sentinel s" "rb_root s1 = rb_root s" "rb_sentinel s2 = rb_sentinel s" "rb_root s2 = rb_root s"
    by (simp_all add: s2_def s1 set_child_mem)
  have py_in: "py = x \<and> kr = [] \<or> py \<noteq> x \<and> kr \<noteq> [] \<and> py \<in> ctx_ids kr"
    using z kk by (cases kr) (auto simp: kk_def zip_at_def distinct_plug set_ids_plug)
  have dist: "distinct (ids (plug kk (Nd cy Tip y ry)))" using zy by (simp add: zip_at_def)
  have ids: "x \<noteq> y" "x \<notin> ctx_ids k" "y \<notin> ctx_ids k" "y \<notin> set (ids l)" "x \<notin> set (ids l)" "y \<notin> set (ids (plug kr ry))" "x \<notin> set (ids (plug kr ry))"
     "set (ids l) \<inter> set (ids (plug kr ry)) = {}" "set (ids l) \<inter> ctx_ids k = {}" "set (ids (plug kr ry)) \<inter> ctx_ids k = {}"
     "y \<noteq> py" "set (ids ry) \<subseteq> set (ids (plug kr ry))"
    using dist py_in unfolding plug by (auto simp: distinct_plug set_ids_plug)
  have sn: "x \<noteq> rb_sentinel s" "y \<noteq> rb_sentinel s" "rb_sentinel s \<notin> ctx_ids k" "rb_sentinel s \<notin> set (ids l)" "rb_sentinel s \<notin> set (ids (plug kr ry))"
    using zip_sentinel [OF zy] unfolding plug by (auto simp: set_ids_plug)
  define lp rp q where "lp = child_of s2 Lft x" and "rp = child_of s2 Rgt x" and "q = parent_of s2 x"
  have tl: "tree_at s2 lp l" and tr: "tree_at s2 rp (plug kr ry)" using zx by (simp_all add: zip_at_def lp_def rp_def)
  have lp: "lp \<in> set (ids l)" using tree_at_root [OF tl] root_id_cases [of "rb_sentinel s" l] l snt(3) by auto
  have rp: "rp = rb_sentinel s \<or> rp \<in> set (ids (plug kr ry))"
    using tree_at_root [OF tr] root_id_cases [of "rb_sentinel s" "plug kr ry"] snt(3) by auto
  have temp: "temp = rb_sentinel s \<or> temp \<in> set (ids (plug kr ry))"
    using sp(3) root_id_cases [of "rb_sentinel s" ry] ids(12) by auto
  have rpk: "rp = temp" if "kr = []" using that tree_at_root [OF tr] sp(3) snt(3) by simp
  have root: "x = rb_root s \<longleftrightarrow> k = []" using root_iff [of s2 k x] zx ids(2) snt(4) by (simp add: zip_at_def)
  have q: "q \<in> ctx_ids k" if "k \<noteq> []"
    using that zx by (cases k) (auto simp: zip_at_def q_def)
  have neq: "x \<noteq> y" "temp \<noteq> x" "temp \<noteq> y" "lp \<noteq> x" "lp \<noteq> y" "rp \<noteq> x" "rp \<noteq> y" "temp \<noteq> lp" "lp \<noteq> rp" "lp \<noteq> rb_sentinel s1"
    using ids sn temp lp rp snt(1) by auto
  have qn: "x \<noteq> rb_root s1 \<longrightarrow> q \<noteq> x \<and> q \<noteq> y \<and> q \<noteq> temp \<and> q \<noteq> lp \<and> q \<noteq> rp"
    unfolding snt(2) root using q ids sn temp lp rp by auto
  have s1f: "child_of s1 Lft x = lp" "child_of s1 Rgt x = rp" "parent_of s1 x = q" "parent_of s1 y = py"
    using neq(2,3) py ids(11) by (simp_all add: lp_def rp_def q_def s2_def set_child_mem) (simp add: s1 set_child_mem parent_of_def)
  note mv = delete_move_mem [OF neq qn s1f, unfolded snt root]
  define s' where "s' = clear_node x (delete_move x y temp s1)"
  have s': "rb_sentinel s' = rb_sentinel s" "rb_root s' = (if k = [] then y else rb_root s)"
    using mv(2,3) by (simp_all add: s'_def clear_node_mem)
  have s2m: "rb_mem s2 v = (if v = temp then (rb_mem s1 v)\<lparr>nparent := py\<rparr> else rb_mem s1 v)" for v
    by (simp add: s2_def set_child_mem)
  have my: "rb_mem s' y = (rb_mem s1 y)\<lparr>nleft := lp, nright := rp, nparent := q, ncolor := ngx_rbt_is_red s1 x\<rparr>"
    using neq(1) by (simp add: s'_def clear_node_mem mv(1))
  have ml: "rb_mem s' v = (if v = lp then (rb_mem s2 v)\<lparr>nparent := y\<rparr> else rb_mem s2 v)" if "v \<in> set (ids l)" for v
  proof -
    have "v \<noteq> x" "v \<noteq> y" "v \<noteq> rp" "v \<noteq> temp" "\<not> (v = q \<and> k \<noteq> [])" using that ids sn temp rp q by auto
    then show ?thesis unfolding s'_def clear_node_mem mv(1) s2m by (simp only: if_False simp_thms)
  qed
  have mr: "rb_mem s' v = (if v = rp then (rb_mem s2 v)\<lparr>nparent := y\<rparr> else rb_mem s2 v)" if "v \<in> set (ids (plug kr ry))" for v
  proof -
    have v: "v \<noteq> x" "v \<noteq> y" "v \<noteq> lp" "v \<noteq> rb_sentinel s" "\<not> (v = q \<and> k \<noteq> [])" using that ids sn lp q by auto
    consider "v = rp" "rp \<noteq> rb_sentinel s" | "v \<noteq> rp" "v = temp" "py \<noteq> x" | "v \<noteq> rp" "v \<noteq> temp" using v(4) rpk py_in by blast
    then show ?thesis
    proof cases
      case 1
      show ?thesis unfolding s'_def clear_node_mem mv(1) s2m if_not_P [OF v(1)] if_not_P [OF v(2)] if_not_P [OF v(3)]
        using 1 by (cases "v = temp") (simp_all only: if_True if_False simp_thms nparent_twice)
    next
      case 2
      then show ?thesis using v unfolding s'_def clear_node_mem mv(1) s2m by (simp only: if_True if_False simp_thms)
    next
      case 3
      then show ?thesis using v unfolding s'_def clear_node_mem mv(1) s2m by (simp only: if_True if_False simp_thms)
    qed
  qed
  have mk: "rb_mem s' v = (if v = q then set_child (if x = child_of s1 Lft q then Lft else Rgt) y (rb_mem s2 v) else rb_mem s2 v)"
    if "v \<in> ctx_ids k" for v
  proof -
    have v: "v \<noteq> x" "v \<noteq> y" "v \<noteq> lp" "v \<noteq> rp" "v \<noteq> temp" "k \<noteq> []" using that ids sn lp rp temp by auto
    then show ?thesis unfolding s'_def clear_node_mem mv(1) s2m by (simp only: if_False simp_thms)
  qed
  have side: "k = (d, c', q', b) # k' \<Longrightarrow> q' = q \<and> (if x = child_of s1 Lft q then Lft else Rgt) = d" for d c' q' b k'
    using side_of_hole [of s2 d c' q' b k' x "Nd c l x (plug kr ry)"] zx q qn
    by (auto simp: q_def zip_at_def s2_def set_child_mem)
  have red: "ngx_rbt_is_red s1 x = c" using zx neq(2) by (simp add: zip_at_def s2_def set_child_mem ngx_rbt_is_red_def)
  have lr: "linked s' y l" "linked s' y (plug kr ry)"
    using tree_at_root [OF tl] tree_at_root [OF tr] root_id_cases [of "rb_sentinel s" l] root_id_cases [of "rb_sentinel s" "plug kr ry"] ml mr
    by (auto simp: linked_def2 s' snt parent_of_def)
  have z3: "zip_at s' k y (Nd c l y (plug kr ry))"
  proof (rule rename [OF zx])
    show "y \<notin> set (ids (plug k (Nd c l x (plug kr ry))))" "y \<noteq> rb_sentinel s2" using ids sn snt(3) by (auto simp: set_ids_plug)
    show "child_of s' Lft y = child_of s2 Lft x" "child_of s' Rgt y = child_of s2 Rgt x" "parent_of s' y = parent_of s2 x" "ngx_rbt_is_red s' y = c"
      using red by (simp_all add: child_of_def parent_of_def ngx_rbt_is_red_def my lp_def rp_def q_def)
    fix v assume "v \<in> set (ids l) \<union> set (ids (plug kr ry))"
    then show "same_but_parent (rb_mem s' v) (rb_mem s2 v)"
      "v \<noteq> child_of s2 Lft x \<Longrightarrow> v \<noteq> child_of s2 Rgt x \<Longrightarrow> parent_of s' v = parent_of s2 v"
      using ml mr by (auto simp: same_but_parent_def lp_def [symmetric] rp_def [symmetric] parent_of_def split: if_splits)
  next
    fix d c' q' b k' assume k: "k = (d, c', q', b) # k'"
    then have "q' = q" "(if x = child_of s1 Lft q then Lft else Rgt) = d" "q \<in> ctx_ids k" using side [OF k] q by auto
    then show "rb_mem s' q' = set_child d y (rb_mem s2 q') \<and> rb_root s' = rb_root s2"
      using mk [of q] k by (simp only: s' snt if_True list.distinct if_False simp_thms)
  qed (use snt s' lr mk in \<open>simp_all add: q_def\<close>)
  obtain p where p: "ctx_at s' (kr @ (Rgt, c, y, l) # k) p" "tree_at s' p ry" "ry \<noteq> Tip \<Longrightarrow> hole_parent s' p (kr @ (Rgt, c, y, l) # k)"
    using unzip [of s' "kr @ (Rgt, c, y, l) # k" ry] zip_at_plug [OF z3] by (auto simp: plug_append)
  have "p = temp" using tree_at_root [OF p(2)] sp(3) s'(1) by simp
  moreover have "parent_of s' temp = (if py = x then y else py)" if "ry = Tip"
  proof -
    have "temp = rb_sentinel s" using sp(3) that by simp
    then have "temp \<noteq> x" "temp \<noteq> y" "temp \<noteq> lp" "\<not> (temp = rp \<and> rp \<noteq> rb_sentinel s)" "\<not> (temp = q \<and> k \<noteq> [])"
      using sn lp q by auto
    then have "rb_mem s' temp = (rb_mem s1 temp)\<lparr>nparent := if py = x then y else py\<rparr>"
      unfolding s'_def clear_node_mem mv(1) by (simp only: if_False if_True simp_thms)
    then show ?thesis by (simp add: parent_of_def)
  qed
  then have "hole_parent s' temp (kr @ (Rgt, c, y, l) # k)" if "ry = Tip"
    using that py_in kk by (cases kr) (auto simp: kk_def)
  moreover have "distinct (ids (plug (kr @ (Rgt, c, y, l) # k) ry))" using z3 by (simp add: zip_at_def plug_append)
  ultimately show "zip_at (clear_node x (delete_move x y temp s1)) (kr @ (Rgt, c, y, l) # k) temp ry"
    using p by (auto simp: zip_at_def s'_def [symmetric])
  have s1m: "rb_mem s1 v = (if v = py then set_child dk temp (rb_mem s v) else rb_mem s v)" for v
    by (simp add: s1 set_child_mem)
  have "nkey (rb_mem s1 v) = nkey (rb_mem s v)" for v by (simp add: s1m)
  then have key: "nkey (rb_mem s' v) = nkey (rb_mem s v)" if "v \<noteq> x" for v
    using that unfolding s'_def clear_node_mem mv(1)
    by (simp only: if_False if_distrib [of nkey] ngx_rbtree_node.simps child_set_child(5) if_cancel) simp
  have out: "rb_mem s' v = rb_mem s v" if "v \<notin> insert (rb_sentinel s) (set (ids (plug k (Nd c l x (plug kr (Nd cy Tip y ry))))))" for v
  proof -
    have v: "v \<noteq> x" "v \<noteq> y" "v \<noteq> lp" "v \<noteq> rp" "v \<noteq> temp" "\<not> (v = q \<and> k \<noteq> [])" "v \<noteq> py"
      using that lp rp temp q py_in by (auto simp: set_ids_plug)
    then show ?thesis unfolding s'_def clear_node_mem mv(1) s1m by (simp only: if_False simp_thms)
  qed
  have "rb_sentinel s \<noteq> x" "rb_sentinel s \<noteq> y" "rb_sentinel s \<noteq> lp" "\<not> (rb_sentinel s = q \<and> k \<noteq> [])" "rb_sentinel s \<noteq> py"
    using sn lp q py_in by (auto simp: set_ids_plug)
  then have "ncolor (rb_mem s' (rb_sentinel s)) = ncolor (rb_mem s (rb_sentinel s))"
    unfolding s'_def clear_node_mem mv(1) s1m
    by (cases "rb_sentinel s = temp") (simp_all only: if_True if_False if_distrib [of ncolor] simp_thms, simp_all)
  then show "keeps_but x (set (ids (plug k (Nd c l x (plug kr (Nd cy Tip y ry)))))) s (clear_node x (delete_move x y temp s1))"
    using s'(1) key out by (simp add: keeps_but_def ngx_rbt_is_red_def s'_def [symmetric])
qed

section \<open>Deletion\<close>

lemma find_node: "x \<in> set (ids T) \<Longrightarrow> \<exists>k c l r. T = plug k (Nd c l x r)"
proof (induction T)
  case (Nd c l y r)
  show ?case
  proof (cases "x = y")
    case True
    then show ?thesis by (metis plug.simps(1))
  next
    case False
    then consider "x \<in> set (ids l)" | "x \<in> set (ids r)" using Nd.prems by auto
    then show ?thesis
    proof cases
      case 1
      then obtain k c' l' r' where "l = plug k (Nd c' l' x r')" using Nd.IH(1) by blast
      then have "Nd c l y r = plug (k @ [(Lft, c, y, r)]) (Nd c' l' x r')" by (simp add: plug_append)
      then show ?thesis by blast
    next
      case 2
      then obtain k c' l' r' where "r = plug k (Nd c' l' x r')" using Nd.IH(2) by blast
      then have "Nd c l y r = plug (k @ [(Rgt, c, y, l)]) (Nd c' l' x r')" by (simp add: plug_append)
      then show ?thesis by blast
    qed
  qed
qed simp

lemma cinv_rename:
  "cinvc (kr @ (d, c, x, l) # k) r \<longleftrightarrow> cinvc (kr @ (d, c, y, l) # k) r"
  "cinvh (kr @ (d, c, x, l) # k) n \<longleftrightarrow> cinvh (kr @ (d, c, y, l) # k) n"
  by (induction kr arbitrary: r n) (auto split: prod.splits)

text \<open>The node to delete is the root and has at most one child.\<close>

lemma delete_root:
  assumes rep: "rb_rep s (nd d c Tip x t)" and temp: "temp = child_of s (opp d) x"
  shows "rb_rep (clear_node x (ngx_rbt_black temp (s\<lparr>rb_root := temp\<rparr>))) (paint False t) \<and>
    keeps_but x (insert x (set (ids t))) s (clear_node x (ngx_rbt_black temp (s\<lparr>rb_root := temp\<rparr>)))"
proof -
  let ?s = "clear_node x (ngx_rbt_black temp (s\<lparr>rb_root := temp\<rparr>))"
  have t: "tree_at s temp t" "distinct (ids t)" "x \<notin> set (ids t)" "x \<noteq> rb_sentinel s" "\<not> ngx_rbt_is_red s (rb_sentinel s)"
    "invc t" "invh t"
    using rep by (auto simp: rb_rep_def temp distinct_nd rbt_def)
  have root: "temp = rb_sentinel s \<or> temp \<in> set (ids t)" "temp \<noteq> x"
    using tree_at_root [OF t(1)] root_id_cases [of "rb_sentinel s" t] t(3,4) by auto
  have mem: "rb_mem ?s v = (if v = x then (rb_mem s x)\<lparr>nleft := NULL, nright := NULL, nparent := NULL, nkey := 0\<rparr>
      else if v = temp then (rb_mem s temp)\<lparr>ncolor := False\<rparr> else rb_mem s v)" "rb_root ?s = temp" "rb_sentinel ?s = rb_sentinel s" for v
    using root(2) by (simp_all add: clear_node_mem color_ops set_color_def node_upd_def)
  have "tree_at (set_color False temp s) temp (paint False t)" by (rule paint_root [OF t(1,2)])
  then have "tree_at ?s temp (paint False t)"
    by (rule tree_at_frame) (use t mem root in \<open>auto simp: same_but_parent_def parent_of_def set_color_def node_upd_def\<close>)
  moreover have "rbt (paint False t)" using t(6,7) invc_paint by (simp add: rbt_def)
  ultimately show ?thesis
    using t root by (auto simp: rb_rep_def keeps_but_def mem ngx_rbt_is_red_def)
qed

text \<open>The node has a parent and at most one child.\<close>

lemma delete_single:
  assumes rep: "rb_rep s (plug ((dk, ck, q, sb) # k) (nd d c Tip x t))" and temp: "temp = child_of s (opp d) x"
    and sub: "delete_subst x s = Some (x, temp)"
  shows "\<exists>s' T. ngx_rbtree_delete x s = Some s' \<and> rb_rep s' T \<and> ids T = ids (plug ((dk, ck, q, sb) # k) t) \<and>
    keeps_but x (set (ids (plug ((dk, ck, q, sb) # k) (nd d c Tip x t)))) s s'"
proof -
  let ?k = "(dk, ck, q, sb) # k" and ?A = "set (ids (plug ((dk, ck, q, sb) # k) (nd d c Tip x t)))"
  have z: "zip_at s ?k x (nd d c Tip x t)" using rep zip_atI [of "nd d c Tip x t" s ?k] by (simp add: rb_rep_def)
  have f: "x \<noteq> rb_root s" "parent_of s x = q" "ngx_rbt_is_red s x = c" "(if x = child_of s Lft q then Lft else Rgt) = dk"
    using zip_fields [OF z] side_of_hole [OF z] z by (simp_all add: zip_at_def)
  define s0 where "s0 = set_child_of dk q temp s"
  define s1 where "s1 = set_parent temp q s0"
  note sp = splice [OF z temp, folded s0_def s1_def]
  have ids: "x \<notin> set (ids (plug ?k t))" "x \<noteq> q" "x \<noteq> rb_sentinel s" "q \<in> ?A" "set (ids (plug ?k t)) \<subseteq> ?A" "x \<in> ?A"
    "rb_sentinel s \<noteq> q"
    using z zip_sentinel [OF z] by (auto simp: zip_at_def distinct_plug distinct_nd set_ids_plug)
  have tmp: "temp \<noteq> x" "temp \<in> insert (rb_sentinel s) ?A"
    using sp(3) root_id_cases [of "rb_sentinel s" t] ids by (auto simp: set_ids_plug)
  have z2: "zip_at (clear_node x s1) ?k temp t" using zip_clear [OF sp(1) ids(1)] tmp by simp
  have keep: "keeps_but x ?A s (clear_node x s1)"
    using ids tmp sp(2) by (auto simp: keeps_but_def clear_node_mem ngx_rbt_is_red_def s1_def s0_def set_child_mem)
  have inv: "invc t" "invh t" "cinvc ?k (if c then red t else False)" "cinvh ?k (if c then bheight t else bheight t + 1)"
    using rep by (auto simp: rb_rep_def rbt_plug bheight_nd simp del: plug.simps cinvc.simps cinvh.simps dest: cinvc_black split: if_splits)
  have "(if x = child_of s Lft (parent_of s x) then set_child_of Lft (parent_of s x) temp s
      else set_child_of Rgt (parent_of s x) temp s) = s0"
    using f(2,4) by (auto simp: s0_def)
  moreover have "parent_of s0 x = q" using ids(2) f(2) by (simp add: s0_def set_child_mem parent_of_def)
  ultimately have "ngx_rbtree_delete x s = (if c then Some (clear_node x s1) else delete_fix temp (clear_node x s1))"
    using f(1,3) by (simp add: ngx_rbtree_delete_def sub Let_def s1_def)
  moreover have "\<not> ngx_rbt_is_red s (rb_sentinel s)" using rep by (simp add: rb_rep_def)
  ultimately show ?thesis using delete_finish [OF z2 inv keep _ ids(5)] by simp
qed

text \<open>The node has two children.\<close>

lemma delete_double:
  assumes rep: "rb_rep s (plug k (Nd c l x (plug kr (Nd cy Tip y ry))))" and l: "l \<noteq> Tip"
    and sub: "delete_subst x s = Some (y, child_of s Rgt y)"
  shows "\<exists>s' T. ngx_rbtree_delete x s = Some s' \<and> rb_rep s' T \<and> ids T = ids (plug (kr @ (Rgt, c, y, l) # k) ry) \<and>
    keeps_but x (set (ids (plug k (Nd c l x (plug kr (Nd cy Tip y ry)))))) s s'"
proof -
  let ?A = "set (ids (plug k (Nd c l x (plug kr (Nd cy Tip y ry)))))" and ?k = "kr @ (Rgt, c, y, l) # k" and ?kx = "kr @ (Rgt, c, x, l) # k"
  have T: "plug k (Nd c l x (plug kr (Nd cy Tip y ry))) = plug ?kx (Nd cy Tip y ry)" by (simp add: plug_append)
  have z: "zip_at s k x (Nd c l x (plug kr (Nd cy Tip y ry)))"
    using rep zip_atI [of "Nd c l x (plug kr (Nd cy Tip y ry))" s k] by (simp add: rb_rep_def)
  have zy: "zip_at s ?kx y (Nd cy Tip y ry)" using rep zip_atI [of "Nd cy Tip y ry" s ?kx] unfolding T by (simp add: rb_rep_def)
  have y: "y \<noteq> rb_root s" "ngx_rbt_is_red s y = cy" "y \<noteq> x"
    using zip_fields(4) [of s _ _ _ _ _ y "Nd cy Tip y ry"] zy z
    by (cases ?kx; auto simp: zip_at_def distinct_plug set_ids_plug)+
  note suc = delete_successor [OF z l]
  have inv: "invc ry" "invh ry" "cinvc ?k (if cy then red ry else False)" "cinvh ?k (if cy then bheight ry else bheight ry + 1)"
    using rep unfolding T cinv_rename [of kr Rgt c y l k _ x]
    by (auto simp: rb_rep_def rbt_plug dest: cinvc_black split: if_splits)
  have "set (ids (plug ?k ry)) \<subseteq> ?A" by (auto simp: set_ids_plug plug_append)
  moreover have "\<not> ngx_rbt_is_red s (rb_sentinel s)" using rep by (simp add: rb_rep_def)
  ultimately show ?thesis
    using delete_finish [OF suc(1) inv suc(2)] y by (simp add: ngx_rbtree_delete_def sub Let_def)
qed

theorem delete_correct:
  assumes rep: "rb_rep s T" and x: "x \<in> set (ids T)"
  shows "\<exists>s' T' as bs. ngx_rbtree_delete x s = Some s' \<and> rb_rep s' T' \<and> ids T = as @ x # bs \<and> ids T' = as @ bs \<and>
    keeps_but x (set (ids T)) s s'"
proof -
  obtain k c l r where T: "T = plug k (Nd c l x r)" using find_node [OF x] by blast
  have z: "zip_at s k x (Nd c l x r)" using rep zip_atI [of "Nd c l x r" s k] by (simp add: rb_rep_def T)
  have t: "tree_at s (child_of s Lft x) l" "tree_at s (child_of s Rgt x) r" using z by (simp_all add: zip_at_def)
  show ?thesis
  proof (cases "l = Tip \<or> r = Tip")
    case True
    then obtain d t' where d: "Nd c l x r = nd d c Tip x t'" "delete_subst x s = Some (x, child_of s (opp d) x)"
      using t tree_at_Tip [OF t(1)] tree_at_Tip [OF t(2)] that [of Lft r] that [of Rgt l]
      by (cases "l = Tip") (auto simp: delete_subst_def)
    have ids: "ids T = before k @ ids l @ x # ids r @ after k" "ids t' = ids l @ ids r"
    proof -
      show "ids T = before k @ ids l @ x # ids r @ after k" by (simp add: T ids_plug)
      show "ids t' = ids l @ ids r" using d(1) by (cases d) auto
    qed
    show ?thesis
    proof (cases k)
      case Nil
      let ?s = "clear_node x (ngx_rbt_black (child_of s (opp d) x) (s\<lparr>rb_root := child_of s (opp d) x\<rparr>))"
      have "rb_root s = x" using z by (simp add: zip_at_def Nil)
      then have del: "ngx_rbtree_delete x s = Some ?s" by (simp add: ngx_rbtree_delete_def d(2))
      have "rb_rep ?s (paint False t') \<and> keeps_but x (insert x (set (ids t'))) s ?s"
        using rep by (intro delete_root [of s d c x t']) (simp_all add: T Nil d(1))
      then show ?thesis using del ids Nil
        by (intro exI [of _ ?s] exI [of _ "paint False t'"] exI [of _ "ids l"] exI [of _ "ids r"]) simp
    next
      case (Cons f k')
      obtain dk ck q sb where f: "f = (dk, ck, q, sb)" by (cases f)
      have T': "T = plug ((dk, ck, q, sb) # k') (nd d c Tip x t')" using T d(1) Cons f by simp
      obtain s' T2 where s': "ngx_rbtree_delete x s = Some s'" "rb_rep s' T2" "ids T2 = ids (plug k t')" "keeps_but x (set (ids T)) s s'"
        using delete_single [OF rep [unfolded T'] refl d(2)] T' Cons f by auto
      then show ?thesis using ids
        by (intro exI [of _ s'] exI [of _ T2] exI [of _ "before k @ ids l"] exI [of _ "ids r @ after k"]) (simp add: ids_plug)
    qed
  next
    case False
    then obtain kr cy y ry where r: "r = plug kr (Nd cy Tip y ry)" "before kr = []" "ngx_rbtree_min (child_of s Rgt x) s = Some y"
      using min_plug [OF t(2)] by blast
    have "delete_subst x s = Some (y, child_of s Rgt y)"
      using False tree_at_Tip [OF t(1)] tree_at_Tip [OF t(2)] r(3) by (simp add: delete_subst_def)
    then obtain s' T2 where s': "ngx_rbtree_delete x s = Some s'" "rb_rep s' T2" "ids T2 = ids (plug (kr @ (Rgt, c, y, l) # k) ry)"
      "keeps_but x (set (ids T)) s s'"
      using delete_double [of s k c l x kr cy y ry] rep False by (auto simp: T r(1))
    then show ?thesis using r(2)
      by (intro exI [of _ s'] exI [of _ T2] exI [of _ "before k @ ids l"] exI [of _ "y # ids ry @ after kr @ after k"])
        (simp add: T r(1) ids_plug before_append)
  qed
qed

section \<open>The minimum and the successor\<close>

lemma min_first: "rb_rep s T \<Longrightarrow> ids T = x # xs \<Longrightarrow> ngx_rbtree_min (rb_root s) s = Some x"
  using min_plug [of s "rb_root s" T] by (cases "T = Tip") (auto simp: rb_rep_def ids_plug)

lemma next_up_ctx:
  "zip_at s k p t \<Longrightarrow> t \<noteq> Tip \<Longrightarrow> next_up p s = Some (if after k = [] then NULL else hd (after k))"
proof (induction k arbitrary: p t)
  case Nil
  then show ?case by (subst next_up.simps) (simp add: zip_at_def)
next
  case (Cons f k)
  obtain d c x b where f: "f = (d, c, x, b)" by (cases f)
  have z: "zip_at s ((d, c, x, b) # k) p t" using Cons.prems(1) by (simp add: f)
  have "next_up x s = Some (if after k = [] then NULL else hd (after k))" by (rule Cons.IH [OF zip_up [OF z]]) simp
  then show ?case
    using zip_fields(1,4) [OF z] side_of_hole [OF z Cons.prems(2)] by (subst next_up.simps) (cases d; auto simp: f split: if_splits)
qed

lemma next_successor:
  assumes rep: "rb_rep s T" and ids: "ids T = as @ x # bs"
  shows "ngx_rbtree_next x s = Some (if bs = [] then NULL else hd bs)"
proof -
  obtain k c l r where T: "T = plug k (Nd c l x r)" using find_node [of x T] ids by auto
  have z: "zip_at s k x (Nd c l x r)" using rep zip_atI [of "Nd c l x r" s k] by (simp add: rb_rep_def T)
  have t: "tree_at s (child_of s Rgt x) r" using z by (simp add: zip_at_def)
  have "as @ x # bs = (before k @ ids l) @ x # ids r @ after k" "x \<notin> set as" "x \<notin> set bs"
    using ids rep by (auto simp: T ids_plug rb_rep_def)
  then have bs: "bs = ids r @ after k" by (metis append_Cons_eq_iff)
  show ?thesis
  proof (cases "r = Tip")
    case True
    then show ?thesis using next_up_ctx [OF z] tree_at_Tip [OF t] by (simp add: ngx_rbtree_next_def bs)
  next
    case False
    then show ?thesis using min_plug [OF t False] tree_at_Tip [OF t] by (auto simp: ngx_rbtree_next_def bs ids_plug)
  qed
qed

end
