(* ===== verification/Ngx_Rbtree_Order.thy ===== *)
theory Ngx_Rbtree_Order
  imports Ngx_Rbtree_Delete
begin

text \<open>
  The red-black trees as their clients use them: the two insert callbacks are interpretations of the
  interface \<open>key_order\<close>, the depth is logarithmic in the number of nodes, and the properties of
  insertion, deletion and iteration.
\<close>

section \<open>The insert callbacks\<close>

interpretation kv: key_order "(<)" "\<lambda>_. True"
  by unfold_locales auto

lemma kv_lt: "kv.lt = key_less"
  by (simp add: kv.lt_def key_less_def fun_eq_iff)

lemma kv_sorted: "kv.keys_sorted ks \<longleftrightarrow> sorted ks"
  by (simp add: kv.keys_sorted_def not_less list.pred_True)

text \<open>Timers are compared by the sign of the wrapped difference of their keys. This is an order as long
  as no two keys are more than half of the range apart, which is stated of their distance from the
  current time: a key may have wrapped around while another has not.\<close>

definition near :: "int \<Rightarrow> int \<Rightarrow> bool" where
  "near now k \<longleftrightarrow> \<bar>i64 (k - now)\<bar> < 2 ^ 62"

lemma i64_mod: "u64 a = u64 b \<Longrightarrow> i64 a = i64 b"
  unfolding i64_def u64_def by (metis mod_add_left_eq)

lemma near_diff: "near now a \<Longrightarrow> near now b \<Longrightarrow> i64 (a - b) = i64 (a - now) - i64 (b - now)"
proof -
  assume n: "near now a" "near now b"
  have "(i64 (a - now) - i64 (b - now)) mod 2 ^ 64 = ((a - now) - (b - now)) mod 2 ^ 64"
    by (rule mod_diff_cong) (simp_all only: u64_i64 [unfolded u64_def])
  then have "u64 (a - b) = u64 (i64 (a - now) - i64 (b - now))" by (simp add: u64_def)
  then have "i64 (a - b) = i64 (i64 (a - now) - i64 (b - now))" by (rule i64_mod)
  also have "\<dots> = i64 (a - now) - i64 (b - now)" by (rule i64_id) (use n in \<open>simp_all add: near_def abs_less_iff\<close>)
  finally show ?thesis .
qed

interpretation tm: key_order "\<lambda>a b. i64 (a - b) < 0" "near now" for now
  by unfold_locales (auto simp: near_diff [of now])

lemma tm_lt: "tm.lt = timer_less"
  by (simp add: tm.lt_def timer_less_def fun_eq_iff)

lemma tm_sorted: "tm.keys_sorted now ks \<longleftrightarrow> list_all (near now) ks \<and> sorted (map (\<lambda>k. i64 (k - now)) ks)"
proof (cases "list_all (near now) ks")
  case True
  then have "sorted_wrt (\<lambda>a b. \<not> i64 (b - a) < 0) ks \<longleftrightarrow> sorted_wrt (\<lambda>a b. i64 (a - now) \<le> i64 (b - now)) ks"
    by (intro iffI; elim sorted_wrt_mono_rel [rotated]) (auto simp: list_all_iff near_diff [of now])
  then show ?thesis using True by (simp add: tm.keys_sorted_def sorted_map)
qed (simp add: tm.keys_sorted_def)

section \<open>The depth of the tree\<close>

fun depth :: "ptree \<Rightarrow> nat" where
  "depth Tip = 0"
| "depth (Nd c l x r) = max (depth l) (depth r) + 1"

lemma depth_bheight: "invc t \<Longrightarrow> invh t \<Longrightarrow> depth t \<le> 2 * bheight t + (if red t then 1 else 0)"
proof (induction t)
  case (Nd c l x r)
  then show ?case by (cases c; cases "red l"; cases "red r") auto
qed simp

lemma bheight_size: "invh t \<Longrightarrow> 2 ^ bheight t \<le> length (ids t) + 1"
proof (induction t)
  case (Nd c l x r)
  then have "2 ^ bheight l \<le> length (ids l) + 1" "2 ^ bheight l \<le> length (ids r) + 1" by auto
  then show ?case by (cases c) auto
qed simp

lemma depth_log: "rbt t \<Longrightarrow> 2 ^ depth t \<le> (length (ids t) + 1)\<^sup>2"
proof -
  assume t: "rbt t"
  have "(2::nat) ^ depth t \<le> 2 ^ (2 * bheight t)"
    using depth_bheight [of t] t by (intro power_increasing) (auto simp: rbt_def)
  also have "\<dots> = (2 ^ bheight t)\<^sup>2" by (simp add: power_mult mult.commute)
  also have "\<dots> \<le> (length (ids t) + 1)\<^sup>2" using bheight_size [of t] t by (intro power_mono) (auto simp: rbt_def)
  finally show ?thesis .
qed

section \<open>Properties\<close>

definition sample_tree :: ngx_rbtree where
  "sample_tree = \<lparr>rb_root = 1, rb_sentinel = 9, rb_mem = (\<lambda>_. \<lparr>nkey = 0, nleft = 0, nright = 0, nparent = 0, ncolor = False\<rparr>)
     (1 := \<lparr>nkey = 20, nleft = 2, nright = 3, nparent = 0, ncolor = False\<rparr>,
      2 := \<lparr>nkey = 10, nleft = 9, nright = 9, nparent = 1, ncolor = True\<rparr>,
      3 := \<lparr>nkey = 30, nleft = 9, nright = 9, nparent = 1, ncolor = True\<rparr>, 4 := \<lparr>nkey = 20, nleft = 0, nright = 0, nparent = 0, ncolor = False\<rparr>)\<rparr>"

lemma sample_rep: "rb_rep sample_tree (Nd False (Nd True Tip 2 Tip) 1 (Nd True Tip 3 Tip))"
  by (simp add: rb_rep_def rbt_def sample_tree_def child_of_def parent_of_def ngx_rbt_is_red_def linked_def)

text \<open>C5: inserting a new node into a red-black tree with \<^verbatim>\<open>ngx_rbtree_insert\<close> returns, the memory then
  represents a red-black tree again (no red node has a red child, all paths have the same number of
  black nodes, the root and the sentinel are black, the parent pointers are right), its depth is
  logarithmic, and the new node comes after all nodes whose key is at most its own and before all
  others. The order of the other nodes, all keys, and the memory outside of the tree are unchanged.\<close>

theorem rbtree_insert_correct:
  assumes "rb_rep s T" "x \<notin> set (ids T)" "x \<noteq> rb_sentinel s" "sorted (keys s (ids T))"
  shows "\<exists>s' T' as bs. ngx_rbtree_insert ngx_rbtree_insert_value x s = Some s' \<and> rb_rep s' T' \<and>
    2 ^ depth T' \<le> (length (ids T') + 1)\<^sup>2 \<and> ids T = as @ bs \<and> ids T' = as @ x # bs \<and> sorted (keys s' (ids T')) \<and>
    (\<forall>v \<in> set as. nkey (rb_mem s v) \<le> nkey (rb_mem s x)) \<and> (\<forall>v \<in> set bs. nkey (rb_mem s x) < nkey (rb_mem s v)) \<and>
    keeps (insert x (set (ids T))) s s'"
proof -
  have "ngx_rbtree_insert_value = insert_descend kv.lt" by (simp add: fun_eq_iff ngx_rbtree_insert_value_def kv_lt)
  then show ?thesis
    using kv.insert_correct [OF assms(1-3)] assms(4) depth_log unfolding kv_sorted not_less rb_rep_def by metis
qed

theorem rbtree_insert_correct_witness:
  "\<exists>s' T' as bs. ngx_rbtree_insert ngx_rbtree_insert_value 4 sample_tree = Some s' \<and> rb_rep s' T' \<and>
    2 ^ depth T' \<le> (length (ids T') + 1)\<^sup>2 \<and> [2, 1, 3] = as @ bs \<and> ids T' = as @ 4 # bs \<and> sorted (keys s' (ids T')) \<and>
    (\<forall>v \<in> set as. nkey (rb_mem sample_tree v) \<le> nkey (rb_mem sample_tree 4)) \<and>
    (\<forall>v \<in> set bs. nkey (rb_mem sample_tree 4) < nkey (rb_mem sample_tree v)) \<and>
    keeps (insert 4 {2, 1, 3}) sample_tree s'"
  using rbtree_insert_correct [OF sample_rep, of 4] by (simp add: sample_tree_def keys_def)

text \<open>C6: deleting a node of a red-black tree with \<^verbatim>\<open>ngx_rbtree_delete\<close> returns, the memory then
  represents a red-black tree of logarithmic depth with the other nodes in the same order, and their
  keys, as the memory outside of the tree and the sentinel, are unchanged.\<close>

theorem rbtree_delete_correct:
  assumes "rb_rep s T" "x \<in> set (ids T)"
  shows "\<exists>s' T' as bs. ngx_rbtree_delete x s = Some s' \<and> rb_rep s' T' \<and> 2 ^ depth T' \<le> (length (ids T') + 1)\<^sup>2 \<and>
    ids T = as @ x # bs \<and> ids T' = as @ bs \<and> keys s' (ids T') = keys s (as @ bs) \<and>
    (\<forall>v. v \<noteq> rb_sentinel s \<longrightarrow> v \<notin> set (ids T) \<longrightarrow> rb_mem s' v = rb_mem s v)"
proof -
  obtain s' T' as bs where d: "ngx_rbtree_delete x s = Some s'" "rb_rep s' T'" "ids T = as @ x # bs" "ids T' = as @ bs"
    "keeps_but x (set (ids T)) s s'"
    using delete_correct [OF assms] by blast
  have "x \<notin> set (as @ bs)" using assms(1) d(3) by (simp add: rb_rep_def)
  then have "keys s' (as @ bs) = keys s (as @ bs)" using d(5) unfolding keys_def keeps_but_def by (intro map_cong) auto
  moreover have "2 ^ depth T' \<le> (length (ids T') + 1)\<^sup>2" using d(2) by (intro depth_log) (simp add: rb_rep_def)
  moreover have "\<forall>v. v \<noteq> rb_sentinel s \<longrightarrow> v \<notin> set (ids T) \<longrightarrow> rb_mem s' v = rb_mem s v" using d(5) by (simp add: keeps_but_def)
  ultimately show ?thesis using d by metis
qed

theorem rbtree_delete_correct_witness:
  "\<exists>s' T' as bs. ngx_rbtree_delete 1 sample_tree = Some s' \<and> rb_rep s' T' \<and> 2 ^ depth T' \<le> (length (ids T') + 1)\<^sup>2 \<and>
    [2, 1, 3] = as @ 1 # bs \<and> ids T' = as @ bs \<and> keys s' (ids T') = keys sample_tree (as @ bs) \<and> rb_mem s' 4 = rb_mem sample_tree 4"
proof -
  have "1 \<in> set (ids (Nd False (Nd True Tip 2 Tip) 1 (Nd True Tip 3 Tip)))" by simp
  from rbtree_delete_correct [OF sample_rep this] obtain s' T' as bs where
    "ngx_rbtree_delete 1 sample_tree = Some s'" "rb_rep s' T'" "2 ^ depth T' \<le> (length (ids T') + 1)\<^sup>2"
    "[2, 1, 3] = as @ 1 # bs" "ids T' = as @ bs" "keys s' (ids T') = keys sample_tree (as @ bs)"
    "\<forall>v. v \<noteq> rb_sentinel sample_tree \<longrightarrow> v \<notin> {2, 1, 3} \<longrightarrow> rb_mem s' v = rb_mem sample_tree v"
    by auto
  moreover have "rb_sentinel sample_tree = 9" by (simp add: sample_tree_def)
  ultimately show ?thesis by (intro exI [of _ s'] exI [of _ T'] exI [of _ as] exI [of _ bs]) simp
qed

end
