(* ===== verification/Ngx_Event_Timer.thy ===== *)
theory Ngx_Event_Timer
  imports Ngx_Rbtree_Order
begin

text \<open>
  Event timers (src/nginx/src/event/ngx_event_timer.c and src/nginx/src/event/ngx_event_timer.h):
  adding and deleting a timer, the time until the next one, running the handlers of those that have
  expired, and whether only cancelable ones are left.

  An event is named by the address of the timer node in it, so that \<^verbatim>\<open>ngx_rbtree_data\<close> is the
  identity. The state has the tree of timers, the flags of the events that the code reads or writes
  here, and the current time in milliseconds, which wraps around at 64 bits as the keys of the tree
  do. Handlers are a parameter; what the loop over the expired timers relies on in a handler is the
  interface \<open>timer_handler\<close>, and the handler that cleans up old cycles
  (src/nginx/src/core/ngx_cycle.c) provides it.
\<close>

section \<open>Events and timers\<close>

record ngx_event =
  timer_set :: bool
  timedout :: bool
  cancelable :: bool

record ngx_timers =
  ngx_event_timer_rbtree :: ngx_rbtree
  events :: "nat \<Rightarrow> ngx_event"
  ngx_current_msec :: int

definition NGX_TIMER_INFINITE :: int where
  "NGX_TIMER_INFINITE = u64 (- 1)"

definition NGX_TIMER_LAZY_DELAY :: int where
  "NGX_TIMER_LAZY_DELAY = 300"

definition event_upd :: "nat \<Rightarrow> (ngx_event \<Rightarrow> ngx_event) \<Rightarrow> 'a ngx_timers_scheme \<Rightarrow> 'a ngx_timers_scheme" where
  "event_upd ev f st = st\<lparr>events := (events st)(ev := f (events st ev))\<rparr>"

definition timer_key :: "'a ngx_timers_scheme \<Rightarrow> nat \<Rightarrow> int" where
  "timer_key st ev = nkey (rb_mem (ngx_event_timer_rbtree st) ev)"

definition ngx_event_timer_init :: "nat \<Rightarrow> (nat \<Rightarrow> ngx_rbtree_node) \<Rightarrow> 'a ngx_timers_scheme \<Rightarrow> ngx_rc \<times> 'a ngx_timers_scheme" where
  "ngx_event_timer_init snt mem st = (NGX_OK, st\<lparr>ngx_event_timer_rbtree := ngx_rbtree_init snt mem\<rparr>)"

definition ngx_event_find_timer :: "'a ngx_timers_scheme \<Rightarrow> int option" where
  "ngx_event_find_timer st =
     (let tree = ngx_event_timer_rbtree st
      in if rb_root tree = rb_sentinel tree then Some NGX_TIMER_INFINITE
         else case ngx_rbtree_min (rb_root tree) tree of
                None \<Rightarrow> None
              | Some node \<Rightarrow> let timer = i64 (timer_key st node - ngx_current_msec st)
                             in Some (u64 (if timer > 0 then timer else 0)))"

definition ngx_event_del_timer :: "nat \<Rightarrow> 'a ngx_timers_scheme \<Rightarrow> 'a ngx_timers_scheme option" where
  "ngx_event_del_timer ev st =
     (case ngx_rbtree_delete ev (ngx_event_timer_rbtree st) of
        None \<Rightarrow> None
      | Some tree \<Rightarrow> Some (event_upd ev (timer_set_update (\<lambda>_. False)) (st\<lparr>ngx_event_timer_rbtree := tree\<rparr>)))"

text \<open>The second part of \<^verbatim>\<open>ngx_event_add_timer\<close>: the timer is not set, or not any more.\<close>

definition add_timer_key :: "nat \<Rightarrow> int \<Rightarrow> 'a ngx_timers_scheme \<Rightarrow> 'a ngx_timers_scheme option" where
  "add_timer_key ev key st =
     (case ngx_rbtree_insert ngx_rbtree_insert_timer_value ev
             (node_upd ev (nkey_update (\<lambda>_. key)) (ngx_event_timer_rbtree st)) of
        None \<Rightarrow> None
      | Some tree \<Rightarrow> Some (event_upd ev (timer_set_update (\<lambda>_. True)) (st\<lparr>ngx_event_timer_rbtree := tree\<rparr>)))"

definition ngx_event_add_timer :: "nat \<Rightarrow> int \<Rightarrow> 'a ngx_timers_scheme \<Rightarrow> 'a ngx_timers_scheme option" where
  "ngx_event_add_timer ev timer st =
     (let key = u64 (ngx_current_msec st + timer)
      in if timer_set (events st ev) then
           let diff = i64 (key - timer_key st ev)
           in if i64 \<bar>diff\<bar> < NGX_TIMER_LAZY_DELAY then Some st
              else case ngx_event_del_timer ev st of None \<Rightarrow> None | Some st \<Rightarrow> add_timer_key ev key st
         else add_timer_key ev key st)"

partial_function (option) ngx_event_expire_timers ::
  "(nat \<Rightarrow> 'a ngx_timers_scheme \<Rightarrow> 'a ngx_timers_scheme option) \<Rightarrow> 'a ngx_timers_scheme \<Rightarrow> 'a ngx_timers_scheme option" where
  "ngx_event_expire_timers handler st =
     (let tree = ngx_event_timer_rbtree st
      in if rb_root tree = rb_sentinel tree then Some st
         else Option.bind (ngx_rbtree_min (rb_root tree) tree) (\<lambda>node.
           if i64 (timer_key st node - ngx_current_msec st) > 0 then Some st
           else Option.bind (ngx_rbtree_delete node tree) (\<lambda>tree.
             Option.bind (handler node (event_upd node (\<lambda>e. e\<lparr>timer_set := False, timedout := True\<rparr>)
                           (st\<lparr>ngx_event_timer_rbtree := tree\<rparr>))) (\<lambda>st.
               ngx_event_expire_timers handler st))))"

partial_function (option) no_timers_left_loop :: "nat \<Rightarrow> 'a ngx_timers_scheme \<Rightarrow> ngx_rc option" where
  "no_timers_left_loop node st =
     (if node = NULL then Some NGX_OK
      else if \<not> cancelable (events st node) then Some NGX_AGAIN
      else Option.bind (ngx_rbtree_next node (ngx_event_timer_rbtree st)) (\<lambda>node. no_timers_left_loop node st))"

definition ngx_event_no_timers_left :: "'a ngx_timers_scheme \<Rightarrow> ngx_rc option" where
  "ngx_event_no_timers_left st =
     (let tree = ngx_event_timer_rbtree st
      in if rb_root tree = rb_sentinel tree then Some NGX_OK
         else Option.bind (ngx_rbtree_min (rb_root tree) tree) (\<lambda>node. no_timers_left_loop node st))"

text \<open>The handler of the timer that waits for the connections of old cycles to close. A cycle is the
  list of the file descriptors of its connections.\<close>

record ngx_cleaner = ngx_timers +
  ngx_old_cycles :: "int list option list"
  ngx_temp_pool :: bool

definition clean_cycle :: "int list option \<Rightarrow> int list option" where
  "clean_cycle c = (case c of None \<Rightarrow> None | Some fds \<Rightarrow> if list_ex (\<lambda>fd. fd \<noteq> - 1) fds then Some fds else None)"

definition ngx_clean_old_cycles :: "nat \<Rightarrow> 'a ngx_cleaner_scheme \<Rightarrow> 'a ngx_cleaner_scheme option" where
  "ngx_clean_old_cycles ev st =
     (let cycles = map clean_cycle (ngx_old_cycles st)
      in if list_ex (\<lambda>c. c \<noteq> None) cycles then ngx_event_add_timer ev 30000 (st\<lparr>ngx_old_cycles := cycles\<rparr>)
         else Some (st\<lparr>ngx_old_cycles := [], ngx_temp_pool := False\<rparr>))"

section \<open>The invariant\<close>

text \<open>The time until a timer expires, as the code computes it, and the timers in the tree: they are
  sorted by that time, and the events whose timers are in the tree are those with the flag set.\<close>

definition wait :: "'a ngx_timers_scheme \<Rightarrow> nat \<Rightarrow> int" where
  "wait st ev = i64 (timer_key st ev - ngx_current_msec st)"

definition due :: "'a ngx_timers_scheme \<Rightarrow> nat \<Rightarrow> bool" where
  "due st ev \<longleftrightarrow> timer_set (events st ev) \<and> wait st ev \<le> 0"

definition timers_ok :: "'a ngx_timers_scheme \<Rightarrow> ptree \<Rightarrow> bool" where
  "timers_ok st T \<longleftrightarrow> rb_rep (ngx_event_timer_rbtree st) T \<and> NULL \<notin> set (ids T) \<and>
     (\<forall>ev. timer_set (events st ev) \<longleftrightarrow> ev \<in> set (ids T)) \<and>
     (\<forall>ev \<in> set (ids T). \<bar>wait st ev\<bar> < 2 ^ 62) \<and> sorted (map (wait st) (ids T))"

lemma timers_ok_tree:
  "timers_ok st T \<longleftrightarrow> rb_rep (ngx_event_timer_rbtree st) T \<and> NULL \<notin> set (ids T) \<and>
     (\<forall>ev. timer_set (events st ev) \<longleftrightarrow> ev \<in> set (ids T)) \<and>
     tm.keys_sorted (ngx_current_msec st) (keys (ngx_event_timer_rbtree st) (ids T))"
  by (auto simp: timers_ok_def tm_sorted list_all_iff near_def wait_def timer_key_def keys_def sorted_map comp_def)

lemma ids_Nil: "ids T = [] \<longleftrightarrow> T = Tip"
  by (cases T) simp_all

lemma timers_empty: "timers_ok st T \<Longrightarrow> rb_root (ngx_event_timer_rbtree st) = rb_sentinel (ngx_event_timer_rbtree st) \<longleftrightarrow> T = Tip"
  unfolding timers_ok_def rb_rep_def using tree_at_Tip by blast

lemma timers_first: "timers_ok st T \<Longrightarrow> T \<noteq> Tip \<Longrightarrow> \<exists>x xs. ids T = x # xs \<and>
    ngx_rbtree_min (rb_root (ngx_event_timer_rbtree st)) (ngx_event_timer_rbtree st) = Some x"
  using min_first by (cases "ids T") (auto simp: timers_ok_def ids_Nil)

section \<open>Adding and deleting\<close>

text \<open>What the state after an operation on one timer has in common with the state before.\<close>

definition same_timers :: "nat \<Rightarrow> 'a ngx_timers_scheme \<Rightarrow> 'a ngx_timers_scheme \<Rightarrow> bool" where
  "same_timers ev st st' \<longleftrightarrow> ngx_current_msec st' = ngx_current_msec st \<and>
     rb_sentinel (ngx_event_timer_rbtree st') = rb_sentinel (ngx_event_timer_rbtree st) \<and>
     (\<forall>v. v \<noteq> ev \<longrightarrow> events st' v = events st v \<and> timer_key st' v = timer_key st v)"

lemma same_wait: "same_timers ev st st' \<Longrightarrow> v \<noteq> ev \<Longrightarrow> wait st' v = wait st v"
  by (simp add: same_timers_def wait_def)

lemma same_map_wait: "same_timers ev st st' \<Longrightarrow> ev \<notin> set xs \<Longrightarrow> map (wait st') xs = map (wait st) xs"
  by (intro map_cong) (auto dest: same_wait)

lemma same_timers_trans: "same_timers ev st st' \<Longrightarrow> same_timers ev st' st'' \<Longrightarrow> same_timers ev st st''"
  by (simp add: same_timers_def)

lemma delete_timer_ok:
  assumes ok: "timers_ok st T" and ids: "ids T = as @ ev # bs" and f: "\<not> timer_set (f (events st ev))"
  shows "\<exists>tree T'. ngx_rbtree_delete ev (ngx_event_timer_rbtree st) = Some tree \<and>
    timers_ok (event_upd ev f (st\<lparr>ngx_event_timer_rbtree := tree\<rparr>)) T' \<and> ids T' = as @ bs \<and>
    same_timers ev st (event_upd ev f (st\<lparr>ngx_event_timer_rbtree := tree\<rparr>))"
proof -
  have rep: "rb_rep (ngx_event_timer_rbtree st) T" using ok by (simp add: timers_ok_def)
  obtain tree T' as' bs' where d: "ngx_rbtree_delete ev (ngx_event_timer_rbtree st) = Some tree" "rb_rep tree T'"
    "ids T = as' @ ev # bs'" "ids T' = as' @ bs'" "keeps_but ev (set (ids T)) (ngx_event_timer_rbtree st) tree"
    using delete_correct [OF rep, of ev] by (metis ids in_set_conv_decomp)
  have dist: "distinct (as @ ev # bs)" using rep ids by (simp add: rb_rep_def)
  then have "as' = as" "bs' = bs" using ids d(3) append_Cons_eq_iff [of ev as bs as' bs'] by auto
  then have T': "ids T' = as @ bs" using d(4) by simp
  let ?st = "event_upd ev f (st\<lparr>ngx_event_timer_rbtree := tree\<rparr>)"
  have same: "same_timers ev st ?st"
    using d(5) by (simp add: same_timers_def event_upd_def timer_key_def keeps_but_def)
  have "sorted (map (wait st) (as @ bs))" using ok unfolding timers_ok_def ids by (auto simp: sorted_append)
  then have "sorted (map (wait ?st) (as @ bs))" by (subst same_map_wait [OF same]) (use dist in auto)
  moreover have "\<forall>v. timer_set (events ?st v) \<longleftrightarrow> v \<in> set (as @ bs)"
    using ok f dist by (auto simp: timers_ok_def ids event_upd_def)
  moreover have "\<forall>v \<in> set (as @ bs). \<bar>wait ?st v\<bar> < 2 ^ 62"
  proof
    fix v assume v: "v \<in> set (as @ bs)"
    then have "wait ?st v = wait st v" using dist by (intro same_wait [OF same]) auto
    then show "\<bar>wait ?st v\<bar> < 2 ^ 62" using ok v by (simp add: timers_ok_def ids)
  qed
  moreover have "ngx_event_timer_rbtree ?st = tree" by (simp add: event_upd_def)
  moreover have "NULL \<notin> set (as @ bs)" using ok by (simp add: timers_ok_def ids)
  ultimately have "timers_ok ?st T'" using d(2) unfolding timers_ok_def T' by simp
  then show ?thesis using d(1) T' same by blast
qed

lemma del_timer_ok:
  assumes "timers_ok st T" "ids T = as @ ev # bs"
  shows "\<exists>st' T'. ngx_event_del_timer ev st = Some st' \<and> timers_ok st' T' \<and> ids T' = as @ bs \<and> same_timers ev st st' \<and>
    events st' ev = (events st ev)\<lparr>timer_set := False\<rparr>"
  using delete_timer_ok [OF assms, of "timer_set_update (\<lambda>_. False)"]
  by (auto simp: ngx_event_del_timer_def) (auto simp: event_upd_def)

lemma wait_new: "\<bar>timer\<bar> < 2 ^ 62 \<Longrightarrow> i64 (u64 (now + timer) - now) = timer"
proof -
  assume t: "\<bar>timer\<bar> < 2 ^ 62"
  have "u64 (u64 (now + timer) - now) = u64 timer" by (simp add: u64_def mod_diff_left_eq)
  then have "i64 (u64 (now + timer) - now) = i64 timer" by (rule i64_mod)
  then show ?thesis using i64_id [of timer] t by (simp add: abs_less_iff)
qed

text \<open>A timer that is not set is put into the tree behind those that expire no later.\<close>

lemma add_timer_key_ok:
  assumes ok: "timers_ok st T" and ev: "ev \<notin> set (ids T)" "ev \<noteq> NULL" "ev \<noteq> rb_sentinel (ngx_event_timer_rbtree st)"
    and key: "near (ngx_current_msec st) key"
  shows "\<exists>st' T' as bs. add_timer_key ev key st = Some st' \<and> timers_ok st' T' \<and> ids T = as @ bs \<and> ids T' = as @ ev # bs \<and>
    same_timers ev st st' \<and> timer_key st' ev = key \<and> events st' ev = (events st ev)\<lparr>timer_set := True\<rparr>"
proof -
  let ?t = "ngx_event_timer_rbtree st" and ?now = "ngx_current_msec st"
  define s where "s = node_upd ev (nkey_update (\<lambda>_. key)) ?t"
  have s: "rb_root s = rb_root ?t" "rb_sentinel s = rb_sentinel ?t" "rb_mem s v = (if v = ev then (rb_mem ?t ev)\<lparr>nkey := key\<rparr> else rb_mem ?t v)" for v
    by (simp_all add: s_def node_upd_def)
  have rep: "rb_rep ?t T" using ok by (simp add: timers_ok_def)
  have z: "zip_at ?t [] (rb_root ?t) T" using rep by (simp add: rb_rep_def zip_at_def)
  have "rb_root ?t \<noteq> ev" using rep ev tree_at_root [of ?t _ T] root_id_cases [of "rb_sentinel ?t" T] by (auto simp: rb_rep_def)
  then have "zip_at s [] (rb_root ?t) T" by (intro zip_cong [OF z]) (use s ev in auto)
  then have rep': "rb_rep s T" using rep ev s by (simp add: rb_rep_def zip_at_def ngx_rbt_is_red_def)
  have "keys s (ids T) = keys ?t (ids T)" using ev s(3) by (auto simp: keys_def)
  then have "tm.keys_sorted ?now (keys s (ids T))" using ok by (simp add: timers_ok_tree)
  moreover have "near ?now (nkey (rb_mem s ev))" using key s(3) by simp
  ultimately obtain tree T' as bs where i: "ngx_rbtree_insert (insert_descend timer_less) ev s = Some tree" "rb_rep tree T'"
    "ids T = as @ bs" "ids T' = as @ ev # bs" "tm.keys_sorted ?now (keys tree (ids T'))" "keeps (insert ev (set (ids T))) s tree"
    using tm.insert_correct [OF rep' ev(1), of ?now] ev(3) s(2) unfolding tm_lt by blast
  have ins: "ngx_rbtree_insert_timer_value = insert_descend timer_less" by (simp add: fun_eq_iff ngx_rbtree_insert_timer_value_def)
  let ?st = "event_upd ev (timer_set_update (\<lambda>_. True)) (st\<lparr>ngx_event_timer_rbtree := tree\<rparr>)"
  have "timers_ok ?st T'" using ok i ev(2) by (auto simp: timers_ok_tree event_upd_def)
  moreover have "same_timers ev st ?st" "timer_key ?st ev = key"
    using i(6) s by (simp_all add: same_timers_def event_upd_def timer_key_def keeps_def)
  ultimately show ?thesis using i
    by (intro exI [of _ ?st] exI [of _ T'] exI [of _ as] exI [of _ bs]) (simp add: add_timer_key_def ins s_def event_upd_def)
qed

lemma add_timer_ok:
  assumes ok: "timers_ok st T" and ev: "ev \<noteq> NULL" "ev \<noteq> rb_sentinel (ngx_event_timer_rbtree st)" and t: "0 \<le> timer" "timer < 2 ^ 62"
  shows "\<exists>st' T'. ngx_event_add_timer ev timer st = Some st' \<and> timers_ok st' T' \<and> set (ids T') = insert ev (set (ids T)) \<and>
    same_timers ev st st' \<and> (wait st' ev = timer \<or> st' = st \<and> timer_set (events st ev) \<and> \<bar>timer - wait st ev\<bar> < NGX_TIMER_LAZY_DELAY)"
proof -
  let ?key = "u64 (ngx_current_msec st + timer)"
  have key: "i64 (?key - ngx_current_msec st) = timer" using t by (intro wait_new) simp
  then have near: "near (ngx_current_msec st) ?key" using t by (simp add: near_def)
  have wait: "same_timers ev st st' \<Longrightarrow> timer_key st' ev = ?key \<Longrightarrow> wait st' ev = timer" for st' :: "'a ngx_timers_scheme"
    using key by (simp add: wait_def same_timers_def)
  show ?thesis
  proof (cases "timer_set (events st ev)")
    case False
    then have "ev \<notin> set (ids T)" using ok by (simp add: timers_ok_def)
    then obtain st' T' as bs where a: "add_timer_key ev ?key st = Some st'" "timers_ok st' T'" "ids T = as @ bs" "ids T' = as @ ev # bs"
      "same_timers ev st st'" "timer_key st' ev = ?key"
      using add_timer_key_ok [OF ok _ ev near] by blast
    then show ?thesis using wait [OF a(5,6)] False
      by (intro exI [of _ st'] exI [of _ T']) (simp add: ngx_event_add_timer_def Let_def)
  next
    case True
    then obtain as bs where ids: "ids T = as @ ev # bs" using ok in_set_conv_decomp [of ev "ids T"] by (auto simp: timers_ok_def)
    have w: "\<bar>wait st ev\<bar> < 2 ^ 62" "near (ngx_current_msec st) (timer_key st ev)"
      using ok by (simp_all add: timers_ok_def ids near_def wait_def)
    have diff: "i64 (?key - timer_key st ev) = timer - wait st ev" using near_diff [OF near w(2)] key by (simp add: wait_def)
    have abs: "i64 \<bar>timer - wait st ev\<bar> = \<bar>timer - wait st ev\<bar>" using w(1) t by (intro i64_id) (auto simp: abs_le_iff)
    show ?thesis
    proof (cases "\<bar>timer - wait st ev\<bar> < NGX_TIMER_LAZY_DELAY")
      case lazy: True
      then have "ngx_event_add_timer ev timer st = Some st" using True by (simp add: ngx_event_add_timer_def Let_def diff abs)
      then show ?thesis using ok lazy True by (intro exI [of _ st] exI [of _ T]) (auto simp: ids same_timers_def)
    next
      case False
      obtain st1 T1 where d: "ngx_event_del_timer ev st = Some st1" "timers_ok st1 T1" "ids T1 = as @ bs" "same_timers ev st st1"
        "events st1 ev = (events st ev)\<lparr>timer_set := False\<rparr>"
        using del_timer_ok [OF ok ids] by blast
      have "\<not> timer_set (events st1 ev)" by (simp add: d(5))
      then have "ev \<notin> set (ids T1)" using d(2) by (simp add: timers_ok_def)
      moreover have "ev \<noteq> rb_sentinel (ngx_event_timer_rbtree st1)" "near (ngx_current_msec st1) ?key"
        using d(4) ev near by (simp_all add: same_timers_def)
      ultimately obtain st2 T2 as' bs' where a: "add_timer_key ev ?key st1 = Some st2" "timers_ok st2 T2" "ids T1 = as' @ bs'"
        "ids T2 = as' @ ev # bs'" "same_timers ev st1 st2" "timer_key st2 ev = ?key"
        using add_timer_key_ok [OF d(2), of ev ?key] ev(1) by blast
      have "set (as' @ bs') = set (as @ bs)" using a(3) d(3) by simp
      then have "set (ids T2) = insert ev (set (ids T))" using a(4) ids by auto
      moreover have "same_timers ev st st2" by (rule same_timers_trans [OF d(4) a(5)])
      moreover have "ngx_event_add_timer ev timer st = Some st2"
        using True False d(1) a(1) by (simp add: ngx_event_add_timer_def Let_def diff abs)
      ultimately show ?thesis using a(2) wait [OF _ a(6)] by blast
    qed
  qed
qed

section \<open>Expiring timers\<close>

lemma due_timers: "timers_ok st T \<Longrightarrow> Collect (due st) \<subseteq> set (ids T)"
  by (auto simp: timers_ok_def due_def)

lemma none_due: "timers_ok st T \<Longrightarrow> ids T = x # xs \<Longrightarrow> wait st x > 0 \<Longrightarrow> \<not> due st v"
  by (fastforce simp: timers_ok_def due_def)

text \<open>One round of the loop.\<close>

lemma expire_step:
  assumes ok: "timers_ok st T" and ids: "ids T = x # xs" and x: "wait st x \<le> 0"
  shows "\<exists>st1 T1. ngx_event_expire_timers h st = Option.bind (h x st1) (ngx_event_expire_timers h) \<and> timers_ok st1 T1 \<and> ids T1 = xs \<and>
    same_timers x st st1 \<and> events st1 x = (events st x)\<lparr>timer_set := False, timedout := True\<rparr> \<and> ngx_timers.more st1 = ngx_timers.more st"
proof -
  let ?f = "\<lambda>e. e\<lparr>timer_set := False, timedout := True\<rparr>" and ?t = "ngx_event_timer_rbtree st"
  obtain tree T1 where d: "ngx_rbtree_delete x ?t = Some tree" "timers_ok (event_upd x ?f (st\<lparr>ngx_event_timer_rbtree := tree\<rparr>)) T1"
    "ids T1 = xs" "same_timers x st (event_upd x ?f (st\<lparr>ngx_event_timer_rbtree := tree\<rparr>))"
    using delete_timer_ok [OF ok, of "[]" x xs ?f] ids by auto
  have "T \<noteq> Tip" using ids by auto
  then have "rb_root ?t \<noteq> rb_sentinel ?t" "ngx_rbtree_min (rb_root ?t) ?t = Some x"
    using timers_empty [OF ok] timers_first [OF ok] ids by auto
  then have "ngx_event_expire_timers h st = Option.bind (h x (event_upd x ?f (st\<lparr>ngx_event_timer_rbtree := tree\<rparr>))) (ngx_event_expire_timers h)"
    using x d(1) by (subst ngx_event_expire_timers.simps) (simp add: Let_def wait_def not_less [symmetric])
  then show ?thesis using d by (intro exI [of _ "event_upd x ?f (st\<lparr>ngx_event_timer_rbtree := tree\<rparr>)"] exI [of _ T1]) (simp add: event_upd_def)
qed

lemma expire_stop:
  assumes ok: "timers_ok st T" and none: "\<forall>x xs. ids T = x # xs \<longrightarrow> wait st x > 0"
  shows "ngx_event_expire_timers h st = Some st" "\<not> due st v"
proof -
  show "ngx_event_expire_timers h st = Some st"
    using timers_empty [OF ok] timers_first [OF ok] none
    by (subst ngx_event_expire_timers.simps) (cases "T = Tip"; auto simp: Let_def wait_def)
  show "\<not> due st v" using none none_due [OF ok] due_timers [OF ok] by (cases "ids T") auto
qed

text \<open>What the loop relies on in a handler: given a state with the invariant, in which its own timer is
  not set any more, it returns such a state, and the timers it sets are in the future.\<close>

locale timer_handler =
  fixes h :: "nat \<Rightarrow> 'a ngx_timers_scheme \<Rightarrow> 'a ngx_timers_scheme option"
  assumes handler: "timers_ok st T \<Longrightarrow> ev \<notin> set (ids T) \<Longrightarrow> ev \<noteq> NULL \<Longrightarrow> ev \<noteq> rb_sentinel (ngx_event_timer_rbtree st) \<Longrightarrow>
    \<exists>st' T'. h ev st = Some st' \<and> timers_ok st' T' \<and> (\<forall>v. due st' v \<longrightarrow> due st v)"
begin

lemma expire_returns:
  "timers_ok st T \<Longrightarrow> \<exists>st' T'. ngx_event_expire_timers h st = Some st' \<and> timers_ok st' T' \<and> (\<forall>v. \<not> due st' v)"
proof (induction "card (Collect (due st))" arbitrary: st T rule: less_induct)
  case less
  note ok = less.prems
  show ?case
  proof (cases "\<exists>x xs. ids T = x # xs \<and> wait st x \<le> 0")
    case False
    then show ?thesis using expire_stop [OF ok] ok by (metis not_less)
  next
    case True
    then obtain x xs where x: "ids T = x # xs" "wait st x \<le> 0" by blast
    obtain st1 T1 where s: "ngx_event_expire_timers h st = Option.bind (h x st1) (ngx_event_expire_timers h)" "timers_ok st1 T1" "ids T1 = xs"
      "same_timers x st st1" "events st1 x = (events st x)\<lparr>timer_set := False, timedout := True\<rparr>"
      using expire_step [OF ok x] by blast
    have dist: "x \<notin> set xs" "x \<noteq> NULL" "x \<noteq> rb_sentinel (ngx_event_timer_rbtree st)"
      using ok tree_at_sentinel by (fastforce simp: timers_ok_def rb_rep_def x(1))+
    then obtain st2 T2 where h: "h x st1 = Some st2" "timers_ok st2 T2" "\<forall>v. due st2 v \<longrightarrow> due st1 v"
      using handler [OF s(2), of x] s(3,4) by (auto simp: same_timers_def)
    have due: "due st1 v \<longrightarrow> due st v \<and> v \<noteq> x" for v
      using s(4,5) by (cases "v = x") (auto simp: due_def same_wait same_timers_def)
    have "x \<in> Collect (due st)" using ok x by (simp add: due_def timers_ok_def)
    then have "Collect (due st2) \<subset> Collect (due st)" using h(3) due by auto
    moreover have "finite (Collect (due st))" using due_timers [OF ok] finite_subset by blast
    ultimately have "card (Collect (due st2)) < card (Collect (due st))" by (rule psubset_card_mono [rotated])
    then show ?thesis using less.hyps [OF _ h(2)] s(1) h(1) by simp
  qed
qed

end

text \<open>The handler that waits for the connections of old cycles sets its own timer again, thirty seconds
  later.\<close>

lemma timers_ok_more: "timers_ok (st\<lparr>ngx_old_cycles := c, ngx_temp_pool := p\<rparr>) T \<longleftrightarrow> timers_ok st T"
  "timers_ok (st\<lparr>ngx_old_cycles := c\<rparr>) T \<longleftrightarrow> timers_ok st T" "due (st\<lparr>ngx_old_cycles := c, ngx_temp_pool := p\<rparr>) v = due st v"
  "due (st\<lparr>ngx_old_cycles := c\<rparr>) v = due st v"
  by (simp_all add: timers_ok_def due_def wait_def [abs_def] timer_key_def)

interpretation old_cycles: timer_handler ngx_clean_old_cycles
proof
  fix st :: "'a ngx_cleaner_scheme" and T ev
  assume ok: "timers_ok st T" and ev: "ev \<notin> set (ids T)" "ev \<noteq> NULL" "ev \<noteq> rb_sentinel (ngx_event_timer_rbtree st)"
  let ?c = "map clean_cycle (ngx_old_cycles st)"
  show "\<exists>st' T'. ngx_clean_old_cycles ev st = Some st' \<and> timers_ok st' T' \<and> (\<forall>v. due st' v \<longrightarrow> due st v)"
  proof (cases "list_ex (\<lambda>c. c \<noteq> None) ?c")
    case False
    then have "ngx_clean_old_cycles ev st = Some (st\<lparr>ngx_old_cycles := [], ngx_temp_pool := False\<rparr>)"
      unfolding ngx_clean_old_cycles_def Let_def by (rule if_not_P)
    then show ?thesis using ok timers_ok_more by blast
  next
    case True
    let ?st = "st\<lparr>ngx_old_cycles := ?c\<rparr>"
    have ok': "timers_ok ?st T" using ok by (simp only: timers_ok_more)
    have ev': "ev \<noteq> rb_sentinel (ngx_event_timer_rbtree ?st)" using ev(3) by simp
    obtain st' T' where a: "ngx_event_add_timer ev 30000 ?st = Some st'" "timers_ok st' T'" "same_timers ev ?st st'" "wait st' ev = 30000 \<or>
        st' = ?st \<and> timer_set (events ?st ev)"
      using add_timer_ok [OF ok' ev(2) ev', of 30000] by auto
    have "\<not> timer_set (events ?st ev)" using ok ev by (simp add: timers_ok_def)
    then have w: "wait st' ev = 30000" using a(4) by auto
    have "due st' v \<longrightarrow> due st v" for v
      using same_wait [OF a(3)] w a(3) by (cases "v = ev") (auto simp: due_def same_timers_def wait_def timer_key_def)
    moreover have "ngx_clean_old_cycles ev st = Some st'"
      using True a(1) unfolding ngx_clean_old_cycles_def Let_def by (simp only: if_True)
    ultimately show ?thesis using a(2) by blast
  qed
qed

text \<open>Handlers that leave the timers alone are run once each, in the order in which the timers expire.\<close>

lemma more_fields [simp]:
  "ngx_event_timer_rbtree (ngx_timers.more_update f st) = ngx_event_timer_rbtree st" "events (ngx_timers.more_update f st) = events st"
  "ngx_current_msec (ngx_timers.more_update f st) = ngx_current_msec st"
  "ngx_timers.more (ngx_timers.more_update f st) = f (ngx_timers.more st)"
  by simp_all

lemma wait_more:
  "wait (ngx_timers.more_update f st) = wait st" "due (ngx_timers.more_update f st) = due st"
  "timers_ok (ngx_timers.more_update f st) T = timers_ok st T"
proof -
  show w: "wait (ngx_timers.more_update f st) = wait st" by (simp add: wait_def timer_key_def fun_eq_iff)
  then show "due (ngx_timers.more_update f st) = due st" by (simp add: due_def fun_eq_iff)
  show "timers_ok (ngx_timers.more_update f st) T = timers_ok st T" unfolding timers_ok_def w by simp
qed

lemma expire_each:
  "timers_ok st T \<Longrightarrow> \<exists>st' T'. ngx_event_expire_timers (\<lambda>ev st. Some (ngx_timers.more_update (g ev) st)) st = Some st' \<and> timers_ok st' T' \<and>
     ids T' = dropWhile (due st) (ids T) \<and> ngx_timers.more st' = fold g (takeWhile (due st) (ids T)) (ngx_timers.more st) \<and>
     (\<forall>v. events st' v = (if due st v then (events st v)\<lparr>timer_set := False, timedout := True\<rparr> else events st v))"
proof (induction "length (ids T)" arbitrary: st T rule: less_induct)
  case less
  note ok = less.prems
  let ?h = "\<lambda>ev st. Some (ngx_timers.more_update (g ev) st)"
  show ?case
  proof (cases "\<exists>x xs. ids T = x # xs \<and> wait st x \<le> 0")
    case False
    then have s: "ngx_event_expire_timers ?h st = Some st" "\<not> due st v" for v using expire_stop [OF ok] by (metis not_less)+
    have "takeWhile (due st) (ids T) = []" "dropWhile (due st) (ids T) = ids T" using s(2) by (cases "ids T"; simp)+
    then show ?thesis using s ok by (intro exI [of _ st] exI [of _ T]) simp
  next
    case True
    then obtain x xs where x: "ids T = x # xs" "wait st x \<le> 0" by blast
    obtain st1 T1 where s: "ngx_event_expire_timers ?h st = Option.bind (?h x st1) (ngx_event_expire_timers ?h)" "timers_ok st1 T1"
      "ids T1 = xs" "same_timers x st st1" "events st1 x = (events st x)\<lparr>timer_set := False, timedout := True\<rparr>"
      "ngx_timers.more st1 = ngx_timers.more st"
      using expire_step [OF ok x, of ?h] by blast
    let ?st = "ngx_timers.more_update (g x) st1"
    have dist: "x \<notin> set xs" using ok by (simp add: timers_ok_def rb_rep_def x(1))
    have due: "due ?st v \<longleftrightarrow> due st v \<and> v \<noteq> x" "due st x" for v
      using s(4,5) ok x by (cases "v = x"; auto simp: due_def wait_more same_wait same_timers_def timers_ok_def)+
    have tw: "takeWhile (due ?st) xs = takeWhile (due st) xs" "dropWhile (due ?st) xs = dropWhile (due st) xs"
      using dist due by (auto intro!: takeWhile_cong dropWhile_cong)
    obtain st' T' where r: "ngx_event_expire_timers ?h ?st = Some st'" "timers_ok st' T'" "ids T' = dropWhile (due ?st) (ids T1)"
      "ngx_timers.more st' = fold g (takeWhile (due ?st) (ids T1)) (ngx_timers.more ?st)"
      "\<forall>v. events st' v = (if due ?st v then (events ?st v)\<lparr>timer_set := False, timedout := True\<rparr> else events ?st v)"
    proof -
      have "length (ids T1) < length (ids T)" "timers_ok ?st T1" using s(2,3) x(1) wait_more(3) by auto
      from less.hyps [OF this] that show ?thesis by blast
    qed
    have ev: "events st' v = (if due st v then (events st v)\<lparr>timer_set := False, timedout := True\<rparr> else events st v)" for v
      using r(5) due s(4,5) by (cases "v = x") (simp_all add: same_timers_def)
    have "ids T' = dropWhile (due st) (ids T)" "ngx_timers.more st' = fold g (takeWhile (due st) (ids T)) (ngx_timers.more st)"
      using r(3,4) s(3,6) due(2) x(1) tw by simp_all
    moreover have "ngx_event_expire_timers ?h st = Some st'" using s(1) r(1) by simp
    ultimately show ?thesis using r(2) ev by blast
  qed
qed

section \<open>Looking at the timers\<close>

lemma find_timer_ok:
  assumes ok: "timers_ok st T" and ids: "ids T = x # xs"
  shows "ngx_event_find_timer st = Some (max 0 (wait st x))"
proof -
  have "T \<noteq> Tip" using ids by auto
  then have "ngx_event_find_timer st = Some (u64 (max 0 (wait st x)))"
    using timers_empty [OF ok] timers_first [OF ok] ids
    by (auto simp: ngx_event_find_timer_def Let_def wait_def max_def simp del: u64_i64)
  moreover have "\<bar>wait st x\<bar> < 2 ^ 62" using ok ids by (simp add: timers_ok_def)
  ultimately show ?thesis by (simp add: u64_id)
qed

lemma first_Min:
  assumes ok: "timers_ok st T" and ids: "ids T = x # xs"
  shows "Min (wait st ` {ev. timer_set (events st ev)}) = wait st x"
proof -
  have "{ev. timer_set (events st ev)} = set (x # xs)" using ok ids by (auto simp: timers_ok_def)
  moreover have "\<forall>v \<in> set xs. wait st x \<le> wait st v" using ok ids by (simp add: timers_ok_def)
  ultimately show ?thesis by (intro Min_eqI) auto
qed

lemma no_timers_left_loop_ok:
  "timers_ok st T \<Longrightarrow> ids T = as @ x # bs \<Longrightarrow>
     no_timers_left_loop x st = Some (if \<forall>v \<in> set (x # bs). cancelable (events st v) then NGX_OK else NGX_AGAIN)"
proof (induction bs arbitrary: as x)
  case Nil
  then have "ngx_rbtree_next x (ngx_event_timer_rbtree st) = Some NULL" "x \<noteq> NULL"
    using next_successor [of "ngx_event_timer_rbtree st" T as x "[]"] by (auto simp: timers_ok_def)
  then show ?case
    by (subst no_timers_left_loop.simps) (simp, subst no_timers_left_loop.simps, simp)
next
  case (Cons y bs)
  have "ngx_rbtree_next x (ngx_event_timer_rbtree st) = Some y" "x \<noteq> NULL"
    using next_successor [of "ngx_event_timer_rbtree st" T as x "y # bs"] Cons.prems by (auto simp: timers_ok_def)
  moreover have "no_timers_left_loop y st = Some (if \<forall>v \<in> set (y # bs). cancelable (events st v) then NGX_OK else NGX_AGAIN)"
    using Cons.IH [of "as @ [x]" y] Cons.prems by simp
  ultimately show ?case by (subst no_timers_left_loop.simps) simp
qed

section \<open>Properties\<close>

text \<open>Two timers, the second of which was set before the clock of the machine wrapped around.\<close>

definition sample_timers :: ngx_timers where
  "sample_timers = \<lparr>ngx_event_timer_rbtree = \<lparr>rb_root = 1, rb_sentinel = 9, rb_mem = (\<lambda>_. \<lparr>nkey = 0, nleft = 9, nright = 9, nparent = 0, ncolor = False\<rparr>)
     (1 := \<lparr>nkey = 700, nleft = 2, nright = 9, nparent = 0, ncolor = False\<rparr>,
      2 := \<lparr>nkey = 18446744073709551000, nleft = 9, nright = 9, nparent = 1, ncolor = True\<rparr>)\<rparr>,
     events = (\<lambda>_. \<lparr>timer_set = False, timedout = False, cancelable = False\<rparr>)
       (1 := \<lparr>timer_set = True, timedout = False, cancelable = True\<rparr>, 2 := \<lparr>timer_set = True, timedout = False, cancelable = False\<rparr>),
     ngx_current_msec = 100\<rparr>"

lemma sample_timers_ok: "timers_ok sample_timers (Nd False (Nd True Tip 2 Tip) 1 Tip)"
  by (simp add: timers_ok_def rb_rep_def rbt_def sample_timers_def child_of_def parent_of_def ngx_rbt_is_red_def linked_def NULL_def
      wait_def timer_key_def i64_def)

lemma extend_ok: "wait (ngx_timers.extend st m) = wait st" "timers_ok (ngx_timers.extend st m) T \<longleftrightarrow> timers_ok st T"
    "events (ngx_timers.extend st m) = events st" "ngx_timers.more (ngx_timers.extend st m) = m"
proof -
  show w: "wait (ngx_timers.extend st m) = wait st" by (simp add: wait_def timer_key_def ngx_timers.extend_def fun_eq_iff)
  show "timers_ok (ngx_timers.extend st m) T \<longleftrightarrow> timers_ok st T" unfolding timers_ok_def w by (simp add: ngx_timers.extend_def)
qed (simp_all add: ngx_timers.extend_def)

lemma sample_wait: "wait sample_timers 2 = - 716" "wait sample_timers 1 = 600"
  by (simp_all add: wait_def timer_key_def sample_timers_def i64_def)

text \<open>C12: setting a timer returns and keeps the invariant of the timers; the set of timers then has the
  event, the other events and timers are unchanged, and the event expires after the time asked for,
  unless it had a timer already that is less than \<^verbatim>\<open>NGX_TIMER_LAZY_DELAY\<close> milliseconds off, in which
  case nothing changes. This holds also when the clock wraps around.\<close>

theorem add_timer_correct:
  assumes "timers_ok st T" "ev \<noteq> NULL" "ev \<noteq> rb_sentinel (ngx_event_timer_rbtree st)" "0 \<le> timer" "timer < 2 ^ 62"
  shows "\<exists>st' T'. ngx_event_add_timer ev timer st = Some st' \<and> timers_ok st' T' \<and> set (ids T') = insert ev (set (ids T)) \<and>
    (\<forall>v. v \<noteq> ev \<longrightarrow> events st' v = events st v \<and> timer_key st' v = timer_key st v) \<and>
    (wait st' ev = timer \<or> st' = st \<and> timer_set (events st ev) \<and> \<bar>timer - wait st ev\<bar> < NGX_TIMER_LAZY_DELAY)"
  using add_timer_ok [OF assms] unfolding same_timers_def by blast

theorem add_timer_correct_witness:
  "\<exists>st' T'. ngx_event_add_timer 2 60000 sample_timers = Some st' \<and> timers_ok st' T' \<and> set (ids T') = {2, 1} \<and>
    timer_key st' 1 = timer_key sample_timers 1 \<and> wait st' 2 = 60000"
proof -
  have "(2::nat) \<noteq> NULL" "2 \<noteq> rb_sentinel (ngx_event_timer_rbtree sample_timers)"
    by (simp_all add: NULL_def sample_timers_def)
  from add_timer_correct [OF sample_timers_ok this, of 60000] obtain st' T' where
    a: "ngx_event_add_timer 2 60000 sample_timers = Some st'" "timers_ok st' T'" "set (ids T') = {2, 1}"
      "timer_key st' 1 = timer_key sample_timers 1"
      "wait st' 2 = 60000 \<or> \<bar>60000 - wait sample_timers 2\<bar> < NGX_TIMER_LAZY_DELAY"
    by auto
  then have "wait st' 2 = 60000" using sample_wait by (simp add: NGX_TIMER_LAZY_DELAY_def)
  then show ?thesis using a by blast
qed

text \<open>C10: the loop of \<^verbatim>\<open>ngx_event_expire_timers\<close> ends, with every handler that keeps the invariant of the
  timers and sets timers in the future only, its own among them; it may delete any timer. When the
  loop has ended, no timer that is set has expired.\<close>

theorem expire_timers_returns:
  assumes "\<And>st T ev. timers_ok st T \<Longrightarrow> ev \<notin> set (ids T) \<Longrightarrow> ev \<noteq> NULL \<Longrightarrow> ev \<noteq> rb_sentinel (ngx_event_timer_rbtree st) \<Longrightarrow>
      \<exists>st' T'. handler ev st = Some st' \<and> timers_ok st' T' \<and> (\<forall>v. due st' v \<longrightarrow> due st v)"
    and "timers_ok st T"
  shows "\<exists>st' T'. ngx_event_expire_timers handler st = Some st' \<and> timers_ok st' T' \<and>
    (\<forall>ev. timer_set (events st' ev) \<longrightarrow> wait st' ev > 0)"
proof -
  have "timer_handler handler" by (rule timer_handler.intro) (use assms(1) in blast)
  from timer_handler.expire_returns [OF this assms(2)] show ?thesis by (auto simp: due_def not_le)
qed

theorem expire_timers_returns_witness:
  "\<exists>st' T'. ngx_event_expire_timers ngx_clean_old_cycles (ngx_timers.extend sample_timers (ngx_cleaner.fields [Some [5, - 1]] True)) = Some st' \<and>
    timers_ok st' T' \<and> (\<forall>ev. timer_set (events st' ev) \<longrightarrow> wait st' ev > 0)"
proof (rule expire_timers_returns [where T = "Nd False (Nd True Tip 2 Tip) 1 Tip"])
  show "timers_ok (ngx_timers.extend sample_timers (ngx_cleaner.fields [Some [5, - 1]] True)) (Nd False (Nd True Tip 2 Tip) 1 Tip)"
    unfolding extend_ok by (rule sample_timers_ok)
qed (rule old_cycles.handler)

text \<open>C11: when the handlers leave the timers alone, \<^verbatim>\<open>ngx_event_expire_timers\<close> runs the handlers of exactly the
  timers that have expired, once each and in the order in which they expire; those events are marked
  as timed out with their timers not set, and the other timers stay, in the same order.\<close>

theorem expire_timers_in_order:
  assumes "timers_ok st T"
  shows "\<exists>st' T'. ngx_event_expire_timers (\<lambda>ev st. Some (ngx_timers.more_update (g ev) st)) st = Some st' \<and> timers_ok st' T' \<and>
    ids T' = filter (\<lambda>ev. wait st ev > 0) (ids T) \<and> ngx_timers.more st' = fold g (filter (\<lambda>ev. wait st ev \<le> 0) (ids T)) (ngx_timers.more st) \<and>
    (\<forall>ev. events st' ev = (if timer_set (events st ev) \<and> wait st ev \<le> 0
       then (events st ev)\<lparr>timer_set := False, timedout := True\<rparr> else events st ev))"
proof -
  have srt: "sorted (map (wait st) (ids T))" "\<forall>ev \<in> set (ids T). due st ev \<longleftrightarrow> wait st ev \<le> 0"
    using assms by (auto simp: timers_ok_def due_def)
  have "takeWhile (due st) xs = filter (\<lambda>ev. wait st ev \<le> 0) xs \<and> dropWhile (due st) xs = filter (\<lambda>ev. wait st ev > 0) xs"
    if "sorted (map (wait st) xs)" "\<forall>ev \<in> set xs. due st ev \<longleftrightarrow> wait st ev \<le> 0" for xs
    using that
  proof (induction xs)
    case (Cons x xs)
    show ?case
    proof (cases "wait st x \<le> 0")
      case False
      then have "\<forall>v \<in> set xs. wait st v > 0" using Cons.prems(1) by auto
      then have "filter (\<lambda>ev. wait st ev \<le> 0) xs = []" "filter (\<lambda>ev. wait st ev > 0) xs = xs" by (auto simp: filter_empty_conv filter_id_conv)
      then show ?thesis using False Cons.prems(2) by simp
    qed (use Cons in simp)
  qed simp
  from this [OF srt] show ?thesis using expire_each [OF assms, of g] by (simp add: due_def)
qed

theorem expire_timers_in_order_witness:
  "\<exists>st' T'. ngx_event_expire_timers (\<lambda>ev st. Some (ngx_timers.more_update (\<lambda>fired. fired @ [ev]) st)) (ngx_timers.extend sample_timers []) = Some st' \<and>
    timers_ok st' T' \<and> ids T' = [1] \<and> ngx_timers.more st' = [2] \<and> timedout (events st' 2) \<and> \<not> timedout (events st' 1)"
proof -
  have "timers_ok (ngx_timers.extend sample_timers []) (Nd False (Nd True Tip 2 Tip) 1 Tip)" unfolding extend_ok by (rule sample_timers_ok)
  from expire_timers_in_order [OF this, of "\<lambda>ev fired. fired @ [ev]", unfolded extend_ok] obtain st' T' where
    e: "ngx_event_expire_timers (\<lambda>ev st. Some (ngx_timers.more_update (\<lambda>fired. fired @ [ev]) st)) (ngx_timers.extend sample_timers []) = Some st'"
      "timers_ok st' T'" "ids T' = filter (\<lambda>ev. wait sample_timers ev > 0) [2, 1]"
      "ngx_timers.more st' = fold (\<lambda>ev fired. fired @ [ev]) (filter (\<lambda>ev. wait sample_timers ev \<le> 0) [2, 1]) []"
      "\<forall>ev. events st' ev = (if timer_set (events sample_timers ev) \<and> wait sample_timers ev \<le> 0
         then (events sample_timers ev)\<lparr>timer_set := False, timedout := True\<rparr> else events sample_timers ev)"
    by auto
  have "ids T' = [1]" "ngx_timers.more st' = [2]" using e(3,4) sample_wait by simp_all
  moreover have "timedout (events st' 2)" "\<not> timedout (events st' 1)"
    using e(5) sample_wait by (simp_all add: sample_timers_def)
  ultimately show ?thesis using e(1,2) by blast
qed

text \<open>\<^verbatim>\<open>ngx_event_find_timer\<close> gives the time until the next timer expires, 0 when one has expired
  already and infinity when none is set; \<^verbatim>\<open>ngx_event_no_timers_left\<close> answers \<^verbatim>\<open>NGX_OK\<close> exactly when all
  timers that are set can be cancelled.\<close>

theorem timer_queries_correct:
  assumes "timers_ok st T"
  shows "ngx_event_find_timer st = Some (if \<exists>ev. timer_set (events st ev) then max 0 (Min (wait st ` {ev. timer_set (events st ev)}))
      else NGX_TIMER_INFINITE) \<and>
    ngx_event_no_timers_left st = Some (if \<forall>ev. timer_set (events st ev) \<longrightarrow> cancelable (events st ev) then NGX_OK else NGX_AGAIN)"
proof (cases "ids T")
  case Nil
  then have "T = Tip" "\<not> timer_set (events st ev)" for ev using assms by (auto simp: timers_ok_def ids_Nil)
  then show ?thesis using timers_empty [OF assms]
    by (simp add: ngx_event_find_timer_def ngx_event_no_timers_left_def)
next
  case (Cons x xs)
  have set: "timer_set (events st ev) \<longleftrightarrow> ev \<in> set (x # xs)" for ev using assms Cons by (simp add: timers_ok_def)
  have "T \<noteq> Tip" using Cons by auto
  then have "ngx_event_no_timers_left st = no_timers_left_loop x st"
    using timers_empty [OF assms] timers_first [OF assms] Cons by (auto simp: ngx_event_no_timers_left_def Let_def)
  moreover have "timer_set (events st x)" using set by simp
  ultimately show ?thesis
    using find_timer_ok [OF assms Cons] first_Min [OF assms Cons] no_timers_left_loop_ok [OF assms, of "[]" x xs] Cons set by auto
qed

theorem timer_queries_correct_witness:
  "ngx_event_find_timer sample_timers = Some 0 \<and> ngx_event_no_timers_left sample_timers = Some NGX_AGAIN"
proof -
  have s: "{ev. timer_set (events sample_timers ev)} = {1, 2}" by (auto simp: sample_timers_def)
  have "timer_set (events sample_timers 2)" "\<not> cancelable (events sample_timers 2)" by (simp_all add: sample_timers_def)
  then show ?thesis using timer_queries_correct [OF sample_timers_ok] sample_wait unfolding s by (auto split: if_splits)
qed

end
