(* ===== verification/Ngx_Crc32.thy ===== *)
theory Ngx_Crc32
  imports Ngx_Prelude
begin

text \<open>
  CRC-32 (src/nginx/src/core/ngx_crc32.c and src/nginx/src/core/ngx_crc32.h), which the hash balancers
  use: the two tables, the loop over bytes with the large one and the loop over half bytes with the
  small one. Both are shown to compute the remainder that dividing bit by bit gives.
\<close>

unbundle bit_operations_syntax

section \<open>Tables and loops\<close>

definition ngx_crc32_table16 :: "32 word list" where
  "ngx_crc32_table16 =
    [0x00000000, 0x1db71064, 0x3b6e20c8, 0x26d930ac, 0x76dc4190, 0x6b6b51f4, 0x4db26158, 0x5005713c,
     0xedb88320, 0xf00f9344, 0xd6d6a3e8, 0xcb61b38c, 0x9b64c2b0, 0x86d3d2d4, 0xa00ae278, 0xbdbdf21c]"

definition ngx_crc32_table256 :: "32 word list" where
  "ngx_crc32_table256 =
    [0x00000000, 0x77073096, 0xee0e612c, 0x990951ba, 0x076dc419, 0x706af48f, 0xe963a535, 0x9e6495a3,
     0x0edb8832, 0x79dcb8a4, 0xe0d5e91e, 0x97d2d988, 0x09b64c2b, 0x7eb17cbd, 0xe7b82d07, 0x90bf1d91,
     0x1db71064, 0x6ab020f2, 0xf3b97148, 0x84be41de, 0x1adad47d, 0x6ddde4eb, 0xf4d4b551, 0x83d385c7,
     0x136c9856, 0x646ba8c0, 0xfd62f97a, 0x8a65c9ec, 0x14015c4f, 0x63066cd9, 0xfa0f3d63, 0x8d080df5,
     0x3b6e20c8, 0x4c69105e, 0xd56041e4, 0xa2677172, 0x3c03e4d1, 0x4b04d447, 0xd20d85fd, 0xa50ab56b,
     0x35b5a8fa, 0x42b2986c, 0xdbbbc9d6, 0xacbcf940, 0x32d86ce3, 0x45df5c75, 0xdcd60dcf, 0xabd13d59,
     0x26d930ac, 0x51de003a, 0xc8d75180, 0xbfd06116, 0x21b4f4b5, 0x56b3c423, 0xcfba9599, 0xb8bda50f,
     0x2802b89e, 0x5f058808, 0xc60cd9b2, 0xb10be924, 0x2f6f7c87, 0x58684c11, 0xc1611dab, 0xb6662d3d,
     0x76dc4190, 0x01db7106, 0x98d220bc, 0xefd5102a, 0x71b18589, 0x06b6b51f, 0x9fbfe4a5, 0xe8b8d433,
     0x7807c9a2, 0x0f00f934, 0x9609a88e, 0xe10e9818, 0x7f6a0dbb, 0x086d3d2d, 0x91646c97, 0xe6635c01,
     0x6b6b51f4, 0x1c6c6162, 0x856530d8, 0xf262004e, 0x6c0695ed, 0x1b01a57b, 0x8208f4c1, 0xf50fc457,
     0x65b0d9c6, 0x12b7e950, 0x8bbeb8ea, 0xfcb9887c, 0x62dd1ddf, 0x15da2d49, 0x8cd37cf3, 0xfbd44c65,
     0x4db26158, 0x3ab551ce, 0xa3bc0074, 0xd4bb30e2, 0x4adfa541, 0x3dd895d7, 0xa4d1c46d, 0xd3d6f4fb,
     0x4369e96a, 0x346ed9fc, 0xad678846, 0xda60b8d0, 0x44042d73, 0x33031de5, 0xaa0a4c5f, 0xdd0d7cc9,
     0x5005713c, 0x270241aa, 0xbe0b1010, 0xc90c2086, 0x5768b525, 0x206f85b3, 0xb966d409, 0xce61e49f,
     0x5edef90e, 0x29d9c998, 0xb0d09822, 0xc7d7a8b4, 0x59b33d17, 0x2eb40d81, 0xb7bd5c3b, 0xc0ba6cad,
     0xedb88320, 0x9abfb3b6, 0x03b6e20c, 0x74b1d29a, 0xead54739, 0x9dd277af, 0x04db2615, 0x73dc1683,
     0xe3630b12, 0x94643b84, 0x0d6d6a3e, 0x7a6a5aa8, 0xe40ecf0b, 0x9309ff9d, 0x0a00ae27, 0x7d079eb1,
     0xf00f9344, 0x8708a3d2, 0x1e01f268, 0x6906c2fe, 0xf762575d, 0x806567cb, 0x196c3671, 0x6e6b06e7,
     0xfed41b76, 0x89d32be0, 0x10da7a5a, 0x67dd4acc, 0xf9b9df6f, 0x8ebeeff9, 0x17b7be43, 0x60b08ed5,
     0xd6d6a3e8, 0xa1d1937e, 0x38d8c2c4, 0x4fdff252, 0xd1bb67f1, 0xa6bc5767, 0x3fb506dd, 0x48b2364b,
     0xd80d2bda, 0xaf0a1b4c, 0x36034af6, 0x41047a60, 0xdf60efc3, 0xa867df55, 0x316e8eef, 0x4669be79,
     0xcb61b38c, 0xbc66831a, 0x256fd2a0, 0x5268e236, 0xcc0c7795, 0xbb0b4703, 0x220216b9, 0x5505262f,
     0xc5ba3bbe, 0xb2bd0b28, 0x2bb45a92, 0x5cb36a04, 0xc2d7ffa7, 0xb5d0cf31, 0x2cd99e8b, 0x5bdeae1d,
     0x9b64c2b0, 0xec63f226, 0x756aa39c, 0x026d930a, 0x9c0906a9, 0xeb0e363f, 0x72076785, 0x05005713,
     0x95bf4a82, 0xe2b87a14, 0x7bb12bae, 0x0cb61b38, 0x92d28e9b, 0xe5d5be0d, 0x7cdcefb7, 0x0bdbdf21,
     0x86d3d2d4, 0xf1d4e242, 0x68ddb3f8, 0x1fda836e, 0x81be16cd, 0xf6b9265b, 0x6fb077e1, 0x18b74777,
     0x88085ae6, 0xff0f6a70, 0x66063bca, 0x11010b5c, 0x8f659eff, 0xf862ae69, 0x616bffd3, 0x166ccf45,
     0xa00ae278, 0xd70dd2ee, 0x4e048354, 0x3903b3c2, 0xa7672661, 0xd06016f7, 0x4969474d, 0x3e6e77db,
     0xaed16a4a, 0xd9d65adc, 0x40df0b66, 0x37d83bf0, 0xa9bcae53, 0xdebb9ec5, 0x47b2cf7f, 0x30b5ffe9,
     0xbdbdf21c, 0xcabac28a, 0x53b39330, 0x24b4a3a6, 0xbad03605, 0xcdd70693, 0x54de5729, 0x23d967bf,
     0xb3667a2e, 0xc4614ab8, 0x5d681b02, 0x2a6f2b94, 0xb40bbe37, 0xc30c8ea1, 0x5a05df1b, 0x2d02ef8d]"

definition crc32_short_step :: "32 word \<Rightarrow> u_char \<Rightarrow> 32 word" where
  "crc32_short_step crc c =
     (let crc = ngx_crc32_table16 ! unat ((crc XOR (ucast c AND 0xf)) AND 0xf) XOR drop_bit 4 crc
      in ngx_crc32_table16 ! unat ((crc XOR drop_bit 4 (ucast c)) AND 0xf) XOR drop_bit 4 crc)"

definition ngx_crc32_short :: "u_char list \<Rightarrow> 32 word" where
  "ngx_crc32_short p = foldl crc32_short_step 0xffffffff p XOR 0xffffffff"

definition crc32_step :: "32 word \<Rightarrow> u_char \<Rightarrow> 32 word" where
  "crc32_step crc c = ngx_crc32_table256 ! unat ((crc XOR ucast c) AND 0xff) XOR drop_bit 8 crc"

definition ngx_crc32_long :: "u_char list \<Rightarrow> 32 word" where
  "ngx_crc32_long p = foldl crc32_step 0xffffffff p XOR 0xffffffff"

definition ngx_crc32_init :: "32 word" where
  "ngx_crc32_init = 0xffffffff"

definition ngx_crc32_update :: "32 word \<Rightarrow> u_char list \<Rightarrow> 32 word" where
  "ngx_crc32_update crc p = foldl crc32_step crc p"

definition ngx_crc32_final :: "32 word \<Rightarrow> 32 word" where
  "ngx_crc32_final crc = crc XOR 0xffffffff"

section \<open>Division bit by bit\<close>

text \<open>The polynomial of CRC-32 with its bits reversed, and the division of one bit.\<close>

definition crc_bit :: "32 word \<Rightarrow> 32 word" where
  "crc_bit r = drop_bit 1 r XOR (if bit r 0 then 0xedb88320 else 0)"

definition crc_byte :: "32 word \<Rightarrow> u_char \<Rightarrow> 32 word" where
  "crc_byte r c = (crc_bit ^^ 8) (r XOR ucast c)"

lemma crc_bit_xor: "crc_bit (a XOR b) = crc_bit a XOR crc_bit b"
  by (cases "bit a 0"; cases "bit b 0") (simp_all add: crc_bit_def bit_xor_iff xor.assoc xor.left_commute xor.commute)

lemma crc_bits_xor: "(crc_bit ^^ n) (a XOR b) = (crc_bit ^^ n) a XOR (crc_bit ^^ n) b"
  by (induction n) (simp_all add: crc_bit_xor)

text \<open>Bits above the ones divided are only shifted.\<close>

lemma crc_bits_high: "a AND mask n = 0 \<Longrightarrow> (crc_bit ^^ n) a = drop_bit n a"
proof (induction n arbitrary: a)
  case (Suc n)
  have "bit (a AND mask (Suc n)) 0 = bit (0 :: 32 word) 0" by (simp only: Suc.prems)
  then have "\<not> bit a 0" by (simp add: bit_and_iff bit_mask_iff)
  then have "crc_bit a = drop_bit 1 a" by (simp add: crc_bit_def)
  moreover have "drop_bit 1 a AND mask n = 0"
  proof (rule bit_word_eqI)
    fix k assume "k < LENGTH(32)"
    have "bit (a AND mask (Suc n)) (Suc k) = bit (0 :: 32 word) (Suc k)" by (simp only: Suc.prems)
    then show "bit (drop_bit 1 a AND mask n) k = bit (0 :: 32 word) k"
      using bit_imp_le_length [of a "Suc k"] by (auto simp: bit_simps)
  qed
  ultimately show ?case using Suc.IH [of "drop_bit 1 a"] by (simp add: funpow_Suc_right del: funpow.simps)
qed simp

lemma crc_bits_table: "(crc_bit ^^ n) a = (crc_bit ^^ n) (a AND mask n) XOR drop_bit n a"
proof -
  have "a = (a AND mask n) XOR (a AND NOT (mask n))" by (rule bit_eqI) (auto simp: bit_simps)
  then have "(crc_bit ^^ n) a = (crc_bit ^^ n) (a AND mask n) XOR (crc_bit ^^ n) (a AND NOT (mask n))"
    by (metis crc_bits_xor)
  moreover have "(crc_bit ^^ n) (a AND NOT (mask n)) = drop_bit n (a AND NOT (mask n))"
    by (rule crc_bits_high) (rule bit_eqI, auto simp: bit_simps)
  moreover have "drop_bit n (a AND NOT (mask n)) = drop_bit n a"
    by (rule bit_eqI) (auto simp: bit_simps dest: bit_imp_le_length)
  ultimately show ?thesis by simp
qed

text \<open>A table of a function that distributes over exclusive or is built from its values at the powers of
  two, each of which doubles the length of the table.\<close>

fun crc_build :: "32 word list \<Rightarrow> 32 word list \<Rightarrow> 32 word list" where
  "crc_build t [] = t"
| "crc_build t (b # bs) = crc_build (t @ map (\<lambda>x. b XOR x) t) bs"

lemma crc_build_snoc: "crc_build t (bs @ [b]) = crc_build t bs @ map (\<lambda>x. b XOR x) (crc_build t bs)"
  by (induction bs arbitrary: t) simp_all

lemma length_crc_build: "length (crc_build t bs) = 2 ^ length bs * length t"
  by (induction bs arbitrary: t) (simp_all add: algebra_simps)

lemma add_xor: "j < 2 ^ n \<Longrightarrow> n < 32 \<Longrightarrow> (of_nat (2 ^ n + j) :: 32 word) = 2 ^ n XOR of_nat j"
proof -
  assume j: "j < 2 ^ n" "n < 32"
  have "\<not> bit (of_nat j :: 32 word) n"
    using j by (simp add: bit_of_nat_iff) (metis bit_iff_odd div_less dvd_0_right)
  then have "(2 ^ n :: 32 word) AND of_nat j = 0" by (simp add: and_exp_eq_0_iff_not_bit and.commute)
  then show ?thesis by (simp add: disjunctive_add_eq_or disjunctive_xor_eq_or)
qed

lemma crc_build_nth:
  fixes g :: "32 word \<Rightarrow> 32 word"
  assumes "\<And>a b. g (a XOR b) = g a XOR g b" and "\<forall>k < length bs. bs ! k = g (2 ^ k)" and "length bs < 32"
    and "i < 2 ^ length bs"
  shows "crc_build [0] bs ! i = g (of_nat i)"
  using assms(2-4)
proof (induction bs arbitrary: i rule: rev_induct)
  case Nil
  have "g 0 = 0" using assms(1) [of 0 0] by simp
  then show ?case using Nil by simp
next
  case (snoc b bs)
  have b: "b = g (2 ^ length bs)" using snoc.prems(1) by (metis length_append_singleton lessI nth_append_length)
  have bs: "\<forall>k < length bs. bs ! k = g (2 ^ k)"
    using snoc.prems(1) by (metis length_append_singleton less_Suc_eq nth_append)
  show ?case
  proof (cases "i < 2 ^ length bs")
    case True
    then show ?thesis using snoc.IH [OF bs _ True] snoc.prems(2) by (simp add: crc_build_snoc nth_append length_crc_build)
  next
    case False
    define j where "j = i - 2 ^ length bs"
    have j: "i = 2 ^ length bs + j" "j < 2 ^ length bs" using False snoc.prems(3) by (auto simp: j_def)
    have "crc_build [0] bs ! j = g (of_nat j)" using snoc.IH [OF bs _ j(2)] snoc.prems(2) by simp
    then have "crc_build [0] (bs @ [b]) ! i = b XOR g (of_nat j)"
      using j by (simp add: crc_build_snoc nth_append length_crc_build)
    also have "\<dots> = g (of_nat i)" unfolding j(1) using snoc.prems(2) j(2) add_xor [of j "length bs"] by (simp only: assms(1) b length_append list.size)
    finally show ?thesis .
  qed
qed

lemma crc_bits_power: "k \<le> n \<Longrightarrow> n < 32 \<Longrightarrow> (crc_bit ^^ n) (2 ^ k) = (crc_bit ^^ (n - k)) 1"
proof -
  assume k: "k \<le> n" "n < 32"
  have "(2 ^ k :: 32 word) AND mask k = 0" by (rule bit_eqI) (auto simp: bit_simps)
  then have "(crc_bit ^^ k) (2 ^ k) = drop_bit k (2 ^ k)" by (rule crc_bits_high)
  also have "\<dots> = 1" using k by (simp add: drop_bit_exp_eq)
  finally show ?thesis using funpow_add [of "n - k" k crc_bit] k by simp
qed

lemma crc_chain:
  "crc_bit 1 = 0xedb88320" "crc_bit 0xedb88320 = 0x76dc4190" "crc_bit 0x76dc4190 = 0x3b6e20c8"
  "crc_bit 0x3b6e20c8 = 0x1db71064" "crc_bit 0x1db71064 = 0x0edb8832" "crc_bit 0x0edb8832 = 0x076dc419"
  "crc_bit 0x076dc419 = 0xee0e612c" "crc_bit 0xee0e612c = 0x77073096"
  by (simp_all add: crc_bit_def)

lemma build256: "crc_build [0] [0x77073096, 0xee0e612c, 0x076dc419, 0x0edb8832, 0x1db71064, 0x3b6e20c8, 0x76dc4190, 0xedb88320] = ngx_crc32_table256"
  by (simp add: ngx_crc32_table256_def)

lemma build16: "crc_build [0] [0x1db71064, 0x3b6e20c8, 0x76dc4190, 0xedb88320] = ngx_crc32_table16"
  by (simp add: ngx_crc32_table16_def)

lemma crc_basis:
  assumes "n < 32" shows "\<forall>k < length (map (\<lambda>k. (crc_bit ^^ (n - k)) 1) [0..<n]).
      map (\<lambda>k. (crc_bit ^^ (n - k)) 1) [0..<n] ! k = (crc_bit ^^ n) (2 ^ k)"
  using crc_bits_power [OF _ assms] by simp

lemma crc_chain_upto:
  "(crc_bit ^^ 1) 1 = 0xedb88320" "(crc_bit ^^ 2) 1 = 0x76dc4190" "(crc_bit ^^ 3) 1 = 0x3b6e20c8" "(crc_bit ^^ 4) 1 = 0x1db71064"
  "(crc_bit ^^ 5) 1 = 0x0edb8832" "(crc_bit ^^ 6) 1 = 0x076dc419" "(crc_bit ^^ 7) 1 = 0xee0e612c" "(crc_bit ^^ 8) 1 = 0x77073096"
  by (simp_all add: numeral_eq_Suc crc_chain)

lemma table256_nth: "i < 256 \<Longrightarrow> ngx_crc32_table256 ! i = (crc_bit ^^ 8) (of_nat i)"
proof -
  assume i: "i < 256"
  have "map (\<lambda>k. (crc_bit ^^ (8 - k)) 1) [0..<8] =
      [0x77073096, 0xee0e612c, 0x076dc419, 0x0edb8832, 0x1db71064, 0x3b6e20c8, 0x76dc4190, 0xedb88320]"
    by (simp add: upt_rec crc_chain_upto crc_chain_upto(1) [unfolded One_nat_def] del: funpow.simps)
  then have "ngx_crc32_table256 = crc_build [0] (map (\<lambda>k. (crc_bit ^^ (8 - k)) 1) [0..<8])"
    by (simp only: build256)
  then show ?thesis using crc_build_nth [OF crc_bits_xor crc_basis, of 8 i] i by simp
qed

lemma table16_nth: "i < 16 \<Longrightarrow> ngx_crc32_table16 ! i = (crc_bit ^^ 4) (of_nat i)"
proof -
  assume i: "i < 16"
  have "map (\<lambda>k. (crc_bit ^^ (4 - k)) 1) [0..<4] = [0x1db71064, 0x3b6e20c8, 0x76dc4190, 0xedb88320]"
    by (simp add: upt_rec crc_chain_upto crc_chain_upto(1) [unfolded One_nat_def] del: funpow.simps)
  then have "ngx_crc32_table16 = crc_build [0] (map (\<lambda>k. (crc_bit ^^ (4 - k)) 1) [0..<4])"
    by (simp only: build16)
  then show ?thesis using crc_build_nth [OF crc_bits_xor crc_basis, of 4 i] i by simp
qed

section \<open>The loops\<close>

lemma unat_mask: "unat (a AND mask n :: 32 word) < 2 ^ n"
  unfolding take_bit_eq_mask [symmetric] unsigned_take_bit_eq by (rule take_bit_nat_less_exp)

lemma crc32_step_eq: "crc32_step crc c = crc_byte crc c"
proof -
  let ?a = "crc XOR ucast c"
  have "unat (?a AND 0xff) < 256" using unat_mask [of ?a 8] by (simp add: mask_eq_exp_minus_1)
  then have "ngx_crc32_table256 ! unat (?a AND 0xff) = (crc_bit ^^ 8) (?a AND mask 8)"
    by (simp add: table256_nth mask_eq_exp_minus_1)
  moreover have "drop_bit 8 ?a = drop_bit 8 crc"
    by (rule bit_eqI) (auto simp: bit_simps dest: bit_imp_le_length)
  ultimately show ?thesis using crc_bits_table [of 8 ?a] by (simp add: crc32_step_def crc_byte_def)
qed

lemma table16_mask: "ngx_crc32_table16 ! unat (a AND 0xf) XOR drop_bit 4 a = (crc_bit ^^ 4) a"
proof -
  have "unat (a AND 0xf) < 16" using unat_mask [of a 4] by (simp add: mask_eq_exp_minus_1)
  then show ?thesis using crc_bits_table [of 4 a] by (simp add: table16_nth mask_eq_exp_minus_1)
qed

lemma crc32_short_step_eq: "crc32_short_step crc c = crc_byte crc c"
proof -
  define y where "y = (crc_bit ^^ 4) (crc XOR ucast c)"
  have idx: "(crc XOR (ucast c AND 0xf)) AND 0xf = (crc XOR ucast c) AND 0xf"
    by (rule bit_eqI) (auto simp: bit_simps)
  have first: "ngx_crc32_table16 ! unat ((crc XOR (ucast c AND 0xf)) AND 0xf) XOR drop_bit 4 crc = y XOR drop_bit 4 (ucast c)"
    unfolding idx y_def table16_mask [symmetric] by (rule bit_eqI) (auto simp: bit_xor_iff bit_drop_bit_eq)
  have "drop_bit 4 (y XOR drop_bit 4 (ucast c)) = drop_bit 4 y"
    by (rule bit_eqI) (auto simp: bit_simps dest: bit_imp_le_length)
  then have "crc32_short_step crc c = (crc_bit ^^ 4) y"
    unfolding crc32_short_step_def Let_def first using table16_mask [of y] by (simp add: xor.assoc)
  then show ?thesis by (simp add: crc_byte_def y_def numeral_eq_Suc)
qed

section \<open>Properties\<close>

text \<open>C31: the loop over half bytes with the table of 16 entries and the loop over bytes with the table of
  256 entries compute the same check sum, the remainder of the division by the polynomial of CRC-32
  bit by bit; and the sum of a text given in two pieces is that of the whole.\<close>

theorem crc32_equivalence:
  "ngx_crc32_short p = ngx_crc32_long p \<and> ngx_crc32_long p = foldl crc_byte 0xffffffff p XOR 0xffffffff \<and>
   ngx_crc32_final (ngx_crc32_update (ngx_crc32_update ngx_crc32_init p) q) = ngx_crc32_long (p @ q)"
proof -
  have "crc32_step = crc_byte" "crc32_short_step = crc_byte" by (simp_all add: fun_eq_iff crc32_step_eq crc32_short_step_eq)
  then show ?thesis
    by (simp add: ngx_crc32_short_def ngx_crc32_long_def ngx_crc32_final_def ngx_crc32_update_def ngx_crc32_init_def)
qed

end
