(* ===== verification/Ngx_Hash_Balancer.thy ===== *)
theory Ngx_Hash_Balancer
  imports Ngx_Upstream_RR Ngx_Crc32 Ngx_Sprintf
begin

text \<open>
  The balancers that choose a peer by a hash: of the client address
  (src/nginx/src/http/modules/ngx_http_upstream_ip_hash_module.c) and of a configured key
  (src/nginx/src/http/modules/ngx_http_upstream_hash_module.c, without the consistent method, which
  \<open>Ngx_Chash\<close> has). Both map the hash to a peer by the weights; when that peer cannot be used they
  hash again, up to twenty times, and then fall back to round robin.

  A handler returns none where the C code would follow the null pointer at the end of the list of
  peers. The data of a request extend those of round robin by the state of the hash.
\<close>

section \<open>From a hash to a peer\<close>

text \<open>The loop \<^verbatim>\<open>while (w >= peer->weight)\<close>.\<close>

fun weight_walk :: "int \<Rightarrow> ngx_http_upstream_rr_peer_t list \<Rightarrow> nat \<Rightarrow> nat option" where
  "weight_walk w [] p = None"
| "weight_walk w (x # xs) p =
     (if w \<ge> weight x then weight_walk (i64 (w - weight x)) xs (Suc p) else Some p)"

text \<open>\<^verbatim>\<open>w = hash % peers->total_weight\<close> and the loop; the division by zero, which no configured group has,
  is none too.\<close>

definition hash_peer :: "ngx_http_upstream_rr_peers_t \<Rightarrow> int \<Rightarrow> nat option" where
  "hash_peer peers hash =
     (if total_weight peers = 0 then None
      else weight_walk (i64 (hash mod total_weight peers)) (peer peers) 0)"

text \<open>What all handlers do with the peer \<open>p\<close> they have found: the current peer, the connection, the time it
  was checked and the bit \<open>i\<close> of the bitmap.\<close>

definition use_peer ::
    "int \<Rightarrow> rr_chain \<Rightarrow> ngx_peer_connection_t \<Rightarrow> ngx_http_upstream_rr_peer_data_t \<Rightarrow> nat \<Rightarrow> nat
       \<Rightarrow> rr_chain \<times> ngx_peer_connection_t \<times> ngx_http_upstream_rr_peer_data_t" where
  "use_peer now ups pc rrp p i =
     (let g = rrp_peers rrp; peers = ups ! g; x = peer peers ! p
      in (ups[g := peers\<lparr>peer := (peer peers)[p := peer_touch now (peer_acquire x)]\<rparr>], pc_use_peer x pc,
          rrp\<lparr>current := Some p, tried := tried_set (tried rrp) i\<rparr>))"

section \<open>Hash of the client address\<close>

record ngx_http_upstream_ip_hash_peer_data_t =
  iphp_rrp :: ngx_http_upstream_rr_peer_data_t
  iphp_hash :: int
  iphp_addr :: "u_char list"
  iphp_tries :: nat

datatype client_addr = AF_INET "u_char list" | AF_INET6 "u_char list" | AF_UNIX

definition ngx_http_upstream_ip_hash_pseudo_addr :: "u_char list" where
  "ngx_http_upstream_ip_hash_pseudo_addr = [0, 0, 0]"

text \<open>Of an IPv4 address the first three bytes are hashed, of an IPv6 address all sixteen.\<close>

definition iphp_addr_of :: "client_addr \<Rightarrow> u_char list" where
  "iphp_addr_of a =
     (case a of AF_INET s_addr \<Rightarrow> take 3 s_addr | AF_INET6 s6_addr \<Rightarrow> take 16 s6_addr
      | AF_UNIX \<Rightarrow> ngx_http_upstream_ip_hash_pseudo_addr)"

definition ngx_http_upstream_init_ip_hash ::
    "(nat \<Rightarrow> bool) \<Rightarrow> (string \<Rightarrow> nat \<Rightarrow> ngx_addr_t list option) \<Rightarrow> ngx_http_upstream_srv_conf_t
       \<Rightarrow> ngx_rc \<times> ngx_http_upstream_srv_conf_t" where
  "ngx_http_upstream_init_ip_hash alloc resolve us =
     (case ngx_http_upstream_init_round_robin alloc resolve us of
        (rc, us') \<Rightarrow> if rc \<noteq> NGX_OK then (NGX_ERROR, us') else (NGX_OK, us'))"

definition ngx_http_upstream_init_ip_hash_peer ::
    "(nat \<Rightarrow> bool) \<Rightarrow> client_addr \<Rightarrow> ngx_http_upstream_srv_conf_t \<Rightarrow> ngx_peer_connection_t
       \<Rightarrow> ngx_rc \<times> ngx_peer_connection_t \<times> ngx_http_upstream_ip_hash_peer_data_t option" where
  "ngx_http_upstream_init_ip_hash_peer alloc addr us pc =
     (if \<not> alloc 0 then (NGX_ERROR, pc, None)
      else
        case ngx_http_upstream_init_round_robin_peer (\<lambda>k. alloc (Suc k)) True us pc of
          (NGX_OK, pc', Some rrp) \<Rightarrow>
            (NGX_OK, pc', Some \<lparr>iphp_rrp = rrp, iphp_hash = 89, iphp_addr = iphp_addr_of addr, iphp_tries = 0\<rparr>)
        | (rc, pc', rrp) \<Rightarrow> (NGX_ERROR, pc', None))"

definition ip_hash_mix :: "u_char list \<Rightarrow> int \<Rightarrow> int" where
  "ip_hash_mix addr hash = foldl (\<lambda>hash c. u64 (hash * 113 + uint c) mod 6271) hash addr"

text \<open>The loop: the new hash, the number of tries, and the peer unless there were too many.\<close>

function ip_hash_loop ::
    "int \<Rightarrow> ngx_http_upstream_rr_peers_t \<Rightarrow> 64 word list \<Rightarrow> u_char list \<Rightarrow> int \<Rightarrow> nat \<Rightarrow> (int \<times> nat \<times> nat option) option" where
  "ip_hash_loop now peers t addr hash tr =
     (let hash = ip_hash_mix addr hash
      in case hash_peer peers hash of
           None \<Rightarrow> None
         | Some p \<Rightarrow>
             if rr_eligible now t p (peer peers ! p) then Some (hash, tr, Some p)
             else if Suc tr > 20 then Some (hash, Suc tr, None)
             else ip_hash_loop now peers t addr hash (Suc tr))"
  by pat_completeness auto
termination
  by (relation "measure (\<lambda>(now, peers, t, addr, hash, tr). 21 - tr)") auto

declare ip_hash_loop.simps [simp del]

definition ip_hash_rr ::
    "int \<Rightarrow> rr_chain \<Rightarrow> ngx_peer_connection_t \<Rightarrow> ngx_http_upstream_ip_hash_peer_data_t
       \<Rightarrow> ngx_rc \<times> rr_chain \<times> ngx_peer_connection_t \<times> ngx_http_upstream_ip_hash_peer_data_t" where
  "ip_hash_rr now ups pc iphp =
     (case ngx_http_upstream_get_round_robin_peer now ups pc (iphp_rrp iphp) of
        (rc, ups', pc', rrp) \<Rightarrow> (rc, ups', pc', iphp\<lparr>iphp_rrp := rrp\<rparr>))"

definition ngx_http_upstream_get_ip_hash_peer ::
    "int \<Rightarrow> rr_chain \<Rightarrow> ngx_peer_connection_t \<Rightarrow> ngx_http_upstream_ip_hash_peer_data_t
       \<Rightarrow> (ngx_rc \<times> rr_chain \<times> ngx_peer_connection_t \<times> ngx_http_upstream_ip_hash_peer_data_t) option" where
  "ngx_http_upstream_get_ip_hash_peer now ups pc iphp =
     (let rrp = iphp_rrp iphp; peers = ups ! rrp_peers rrp
      in if iphp_tries iphp > 20 \<or> single peers then Some (ip_hash_rr now ups pc iphp)
         else
           let pc = pc\<lparr>pc_cached := False, pc_connection := False\<rparr>
           in case ip_hash_loop now peers (tried rrp) (iphp_addr iphp) (iphp_hash iphp) (iphp_tries iphp) of
                None \<Rightarrow> None
              | Some (hash, tr, None) \<Rightarrow> Some (ip_hash_rr now ups pc (iphp\<lparr>iphp_tries := tr\<rparr>))
              | Some (hash, tr, Some p) \<Rightarrow>
                  (case use_peer now ups pc rrp p p of
                     (ups', pc', rrp') \<Rightarrow>
                       Some (NGX_OK, ups', pc', iphp\<lparr>iphp_rrp := rrp', iphp_hash := hash, iphp_tries := tr\<rparr>)))"

section \<open>Hash of a key\<close>

record ngx_http_upstream_hash_peer_data_t =
  hp_rrp :: ngx_http_upstream_rr_peer_data_t
  hp_key :: "u_char list"
  hp_tries :: nat
  hp_rehash :: int
  hp_hash :: int

definition ngx_http_upstream_init_hash ::
    "(nat \<Rightarrow> bool) \<Rightarrow> (string \<Rightarrow> nat \<Rightarrow> ngx_addr_t list option) \<Rightarrow> ngx_http_upstream_srv_conf_t
       \<Rightarrow> ngx_rc \<times> ngx_http_upstream_srv_conf_t" where
  "ngx_http_upstream_init_hash alloc resolve us =
     (case ngx_http_upstream_init_round_robin alloc resolve us of
        (rc, us') \<Rightarrow> if rc \<noteq> NGX_OK then (NGX_ERROR, us') else (NGX_OK, us'))"

text \<open>The value of the key, which \<^verbatim>\<open>ngx_http_complex_value\<close> evaluates for the request, is an argument; none
  is an error.\<close>

definition ngx_http_upstream_init_hash_peer ::
    "(nat \<Rightarrow> bool) \<Rightarrow> u_char list option \<Rightarrow> ngx_http_upstream_srv_conf_t \<Rightarrow> ngx_peer_connection_t
       \<Rightarrow> ngx_rc \<times> ngx_peer_connection_t \<times> ngx_http_upstream_hash_peer_data_t option" where
  "ngx_http_upstream_init_hash_peer alloc key us pc =
     (if \<not> alloc 0 then (NGX_ERROR, pc, None)
      else
        case ngx_http_upstream_init_round_robin_peer (\<lambda>k. alloc (Suc k)) True us pc of
          (NGX_OK, pc', Some rrp) \<Rightarrow>
            (case key of
               None \<Rightarrow> (NGX_ERROR, pc', None)
             | Some k \<Rightarrow> (NGX_OK, pc', Some \<lparr>hp_rrp = rrp, hp_key = k, hp_tries = 0, hp_rehash = 0, hp_hash = 0\<rparr>))
        | (rc, pc', rrp) \<Rightarrow> (NGX_ERROR, pc', None))"

text \<open>\<^verbatim>\<open>((crc32([REHASH] KEY) >> 16) & 0x7fff)\<close>.\<close>

definition hash_value :: "int \<Rightarrow> u_char list \<Rightarrow> int option" where
  "hash_value rehash key =
     (case (if rehash > 0 then ngx_sprintf (bytes ''%ui'') [VInt rehash] else Some []) of
        None \<Rightarrow> None
      | Some buf \<Rightarrow>
          let hash = ngx_crc32_init;
              hash = (if rehash > 0 then ngx_crc32_update hash buf else hash);
              hash = ngx_crc32_update hash key;
              hash = ngx_crc32_final hash
          in Some (uint (drop_bit 16 hash AND 0x7fff)))"

function hash_loop ::
    "int \<Rightarrow> ngx_http_upstream_rr_peers_t \<Rightarrow> ngx_http_upstream_hash_peer_data_t
       \<Rightarrow> (ngx_http_upstream_hash_peer_data_t \<times> nat option) option" where
  "hash_loop now peers hp =
     (case hash_value (hp_rehash hp) (hp_key hp) of
        None \<Rightarrow> None
      | Some hash \<Rightarrow>
          let hp = hp\<lparr>hp_hash := (hp_hash hp + hash) mod 2 ^ 32, hp_rehash := u64 (hp_rehash hp + 1)\<rparr>
          in case hash_peer peers (hp_hash hp) of
               None \<Rightarrow> None
             | Some p \<Rightarrow>
                 if rr_eligible now (tried (hp_rrp hp)) p (peer peers ! p) then Some (hp, Some p)
                 else
                   let hp = hp\<lparr>hp_tries := Suc (hp_tries hp)\<rparr>
                   in if hp_tries hp > 20 then Some (hp, None) else hash_loop now peers hp)"
  by pat_completeness auto
termination
  by (relation "measure (\<lambda>(now, peers, hp). 21 - hp_tries hp)") auto

declare hash_loop.simps [simp del]

definition hash_rr ::
    "int \<Rightarrow> rr_chain \<Rightarrow> ngx_peer_connection_t \<Rightarrow> ngx_http_upstream_hash_peer_data_t
       \<Rightarrow> ngx_rc \<times> rr_chain \<times> ngx_peer_connection_t \<times> ngx_http_upstream_hash_peer_data_t" where
  "hash_rr now ups pc hp =
     (case ngx_http_upstream_get_round_robin_peer now ups pc (hp_rrp hp) of
        (rc, ups', pc', rrp) \<Rightarrow> (rc, ups', pc', hp\<lparr>hp_rrp := rrp\<rparr>))"

definition ngx_http_upstream_get_hash_peer ::
    "int \<Rightarrow> rr_chain \<Rightarrow> ngx_peer_connection_t \<Rightarrow> ngx_http_upstream_hash_peer_data_t
       \<Rightarrow> (ngx_rc \<times> rr_chain \<times> ngx_peer_connection_t \<times> ngx_http_upstream_hash_peer_data_t) option" where
  "ngx_http_upstream_get_hash_peer now ups pc hp =
     (let peers = ups ! rrp_peers (hp_rrp hp)
      in if hp_tries hp > 20 \<or> single peers \<or> hp_key hp = [] then Some (hash_rr now ups pc hp)
         else
           let pc = pc\<lparr>pc_cached := False, pc_connection := False\<rparr>
           in case hash_loop now peers hp of
                None \<Rightarrow> None
              | Some (hp, None) \<Rightarrow> Some (hash_rr now ups pc hp)
              | Some (hp, Some p) \<Rightarrow>
                  (case use_peer now ups pc (hp_rrp hp) p p of
                     (ups', pc', rrp') \<Rightarrow> Some (NGX_OK, ups', pc', hp\<lparr>hp_rrp := rrp'\<rparr>)))"

section \<open>The balancer contract\<close>

text \<open>A handler seen as a handler on the data of round robin, with the rest of the data of the request
  given. Where the code would follow a wrong pointer, the view is an error that changes nothing.\<close>

definition handler_view ::
    "('d \<Rightarrow> ngx_http_upstream_rr_peer_data_t)
       \<Rightarrow> (int \<Rightarrow> rr_chain \<Rightarrow> ngx_peer_connection_t \<Rightarrow> ngx_http_upstream_rr_peer_data_t
             \<Rightarrow> (ngx_rc \<times> rr_chain \<times> ngx_peer_connection_t \<times> 'd) option)
       \<Rightarrow> get_handler" where
  "handler_view proj get now ups pc rrp =
     (case (if rrp_peers rrp < length ups then get now ups pc rrp else None) of
        None \<Rightarrow> (NGX_ERROR, ups, pc, rrp)
      | Some (rc, ups', pc', d) \<Rightarrow> (rc, ups', pc', proj d))"

definition ip_hash_handler :: "ngx_http_upstream_ip_hash_peer_data_t \<Rightarrow> get_handler" where
  "ip_hash_handler iphp =
     handler_view iphp_rrp (\<lambda>now ups pc rrp. ngx_http_upstream_get_ip_hash_peer now ups pc (iphp\<lparr>iphp_rrp := rrp\<rparr>))"

definition hash_handler :: "ngx_http_upstream_hash_peer_data_t \<Rightarrow> get_handler" where
  "hash_handler hp =
     handler_view hp_rrp (\<lambda>now ups pc rrp. ngx_http_upstream_get_hash_peer now ups pc (hp\<lparr>hp_rrp := rrp\<rparr>))"

lemma weight_walk_bound: "weight_walk w ps p = Some k \<Longrightarrow> p \<le> k \<and> k < p + length ps"
  by (induction w ps p rule: weight_walk.induct) (auto split: if_splits)

lemma hash_peer_bound: "hash_peer peers h = Some k \<Longrightarrow> k < length (peer peers)"
  using weight_walk_bound [of _ "peer peers" 0 k] by (auto simp: hash_peer_def split: if_splits)

text \<open>
  What a handler of this kind does: it faults, it falls back to round robin, or it takes a peer of the
  group the request is at, after a choice that respects the counters and the limits.
\<close>

definition taken ::
    "rr_chain \<Rightarrow> nat \<Rightarrow> ngx_http_upstream_rr_peer_t list \<Rightarrow> nat \<Rightarrow> rr_chain" where
  "taken ups g ps p = ups[g := (ups ! g)\<lparr>peer := ps[p := peer_acquire (ps ! p)]\<rparr>]"

definition handler_result ::
    "int \<Rightarrow> rr_chain \<Rightarrow> ngx_http_upstream_rr_peer_data_t
       \<Rightarrow> (ngx_rc \<times> rr_chain \<times> ngx_peer_connection_t \<times> ngx_http_upstream_rr_peer_data_t) option \<Rightarrow> bool" where
  "handler_result now ups rrp q \<longleftrightarrow> q = None \<or>
     (\<exists>pc'. q = Some (ngx_http_upstream_get_round_robin_peer now ups pc' rrp)) \<or>
     (\<exists>p ps pc' rrp'. choice_ok (peer (ups ! rrp_peers rrp)) rrp (Some p, ps, rrp') \<and>
        q = Some (NGX_OK, taken ups (rrp_peers rrp) ps p, pc', rrp'))"

lemma taken_law:
  assumes "choice_ok (peer (ups ! rrp_peers rrp)) rrp (Some p, ps, rrp')" and g: "rrp_peers rrp < length ups"
  shows "get_law 0 ups (NGX_OK, taken ups (rrp_peers rrp) ps p, pc', rrp')"
proof -
  let ?g = "rrp_peers rrp"
  have "drop ?g ups = ups ! ?g # drop (Suc ?g) ups" using g by (simp add: Cons_nth_drop_Suc)
  moreover have "taken ups ?g ps p = take ?g ups @ (ups ! ?g)\<lparr>peer := ps[p := peer_acquire (ps ! p)]\<rparr> # drop (Suc ?g) ups"
    using g by (simp add: taken_def upd_conv_take_nth_drop)
  ultimately show ?thesis
    using get_law_splice [of ?g ups NGX_OK] get_law_chosen [OF assms(1), of "drop (Suc ?g) ups" pc']
    by (simp del: get_law.simps choice_ok.simps)
qed

lemma handler_view_law:
  assumes "rrp_peers rrp < length ups \<Longrightarrow>
    handler_result now ups rrp (map_option (\<lambda>(rc, ups', pc', d). (rc, ups', pc', proj d)) (get now ups pc rrp))"
  shows "get_law 0 ups (handler_view proj get now ups pc rrp)"
proof (cases "rrp_peers rrp < length ups")
  case True
  define q where "q = map_option (\<lambda>(rc, ups', pc', d). (rc, ups', pc', proj d)) (get now ups pc rrp)"
  have v: "handler_view proj get now ups pc rrp = (case q of None \<Rightarrow> (NGX_ERROR, ups, pc, rrp) | Some r \<Rightarrow> r)"
    using True by (auto simp: handler_view_def q_def split: option.splits)
  have "handler_result now ups rrp q" using assms [OF True] by (simp add: q_def)
  then consider "q = None" | pc' where "q = Some (ngx_http_upstream_get_round_robin_peer now ups pc' rrp)"
    | p ps pc' rrp' where "choice_ok (peer (ups ! rrp_peers rrp)) rrp (Some p, ps, rrp')"
        "q = Some (NGX_OK, taken ups (rrp_peers rrp) ps p, pc', rrp')"
    unfolding handler_result_def by blast
  then show ?thesis
    by cases (simp_all add: v round_robin_law taken_law [OF _ True] del: get_law.simps choice_ok.simps, simp)
qed (simp add: handler_view_def)

text \<open>Taking an eligible peer of the group.\<close>

lemma use_peer_result:
  assumes "p < length (peer (ups ! rrp_peers rrp))" "rr_eligible now t j (peer (ups ! rrp_peers rrp) ! p)"
  shows "handler_result now ups rrp (Some (NGX_OK, use_peer now ups pc rrp p i))"
proof -
  let ?ps = "peer (ups ! rrp_peers rrp)"
  let ?qs = "?ps[p := peer_touch now (?ps ! p)]" and ?rrp = "rrp\<lparr>current := Some p, tried := tried_set (tried rrp) i\<rparr>"
  have "choice_ok ?ps rrp (Some p, ?qs, ?rrp)"
    using assms(1,2) ball_update [of ?ps peer_weights_ok "peer_touch now (?ps ! p)" p]
    by (simp add: map_update_same rr_eligible_def)
  moreover have "peer_touch now (peer_acquire x) = peer_acquire (peer_touch now x)" for x
    by (simp add: peer_touch_def peer_acquire_def)
  then have "use_peer now ups pc rrp p i = (taken ups (rrp_peers rrp) ?qs p, pc_use_peer (?ps ! p) pc, ?rrp)"
    using assms(1) by (simp add: use_peer_def taken_def Let_def)
  ultimately show ?thesis unfolding handler_result_def by blast
qed

lemma ip_hash_loop_eligible:
  "ip_hash_loop now peers t addr hash tr = Some (h, n, Some p) \<Longrightarrow>
     p < length (peer peers) \<and> rr_eligible now t p (peer peers ! p)"
proof (induction now peers t addr hash tr rule: ip_hash_loop.induct)
  case (1 now peers t addr hash tr)
  show ?case using "1.prems" "1.IH"
    by (subst (asm) ip_hash_loop.simps) (auto simp: Let_def split: option.splits if_splits dest: hash_peer_bound)
qed

lemma hash_loop_step:
  assumes "hash_loop now peers hp = Some r"
  obtains hp1 k where "hp_rrp hp1 = hp_rrp hp" "hp_tries hp1 = hp_tries hp" "k < length (peer peers)"
    "if rr_eligible now (tried (hp_rrp hp)) k (peer peers ! k) then r = (hp1, Some k)
     else if hp_tries hp \<ge> 20 then r = (hp1\<lparr>hp_tries := Suc (hp_tries hp)\<rparr>, None)
     else hash_loop now peers (hp1\<lparr>hp_tries := Suc (hp_tries hp)\<rparr>) = Some r"
proof -
  obtain hash where h: "hash_value (hp_rehash hp) (hp_key hp) = Some hash"
    using assms by (subst (asm) hash_loop.simps) (auto split: option.splits)
  define hp1 where "hp1 = hp\<lparr>hp_hash := (hp_hash hp + hash) mod 2 ^ 32, hp_rehash := u64 (hp_rehash hp + 1)\<rparr>"
  have f: "hp_rrp hp1 = hp_rrp hp" "hp_tries hp1 = hp_tries hp" by (simp_all add: hp1_def)
  have eq: "hash_loop now peers hp =
      (case hash_peer peers (hp_hash hp1) of
         None \<Rightarrow> None
       | Some p \<Rightarrow>
           if rr_eligible now (tried (hp_rrp hp)) p (peer peers ! p) then Some (hp1, Some p)
           else if hp_tries hp \<ge> 20 then Some (hp1\<lparr>hp_tries := Suc (hp_tries hp)\<rparr>, None)
           else hash_loop now peers (hp1\<lparr>hp_tries := Suc (hp_tries hp)\<rparr>))"
    by (subst hash_loop.simps) (simp add: h Let_def hp1_def less_Suc_eq_le split: option.split)
  then obtain k where k: "hash_peer peers (hp_hash hp1) = Some k"
    using assms by (auto split: option.splits)
  show thesis using that [OF f, of k] hash_peer_bound [OF k] eq assms k by (auto split: if_splits)
qed

lemma hash_loop_result:
  "hash_loop now peers hp = Some (hp', r) \<Longrightarrow> hp_rrp hp' = hp_rrp hp \<and>
     (\<forall>p. r = Some p \<longrightarrow> p < length (peer peers) \<and> rr_eligible now (tried (hp_rrp hp)) p (peer peers ! p))"
proof (induction "21 - hp_tries hp" arbitrary: hp rule: less_induct)
  case less
  obtain hp1 k where s: "hp_rrp hp1 = hp_rrp hp" "hp_tries hp1 = hp_tries hp" "k < length (peer peers)"
    "if rr_eligible now (tried (hp_rrp hp)) k (peer peers ! k) then (hp', r) = (hp1, Some k)
     else if hp_tries hp \<ge> 20 then (hp', r) = (hp1\<lparr>hp_tries := Suc (hp_tries hp)\<rparr>, None)
     else hash_loop now peers (hp1\<lparr>hp_tries := Suc (hp_tries hp)\<rparr>) = Some (hp', r)"
    using hash_loop_step [OF less.prems] by blast
  show ?case
    using s less.hyps [of "hp1\<lparr>hp_tries := Suc (hp_tries hp)\<rparr>"] by (auto split: if_splits)
qed

lemma handler_result_rr: "handler_result now ups rrp (Some (ngx_http_upstream_get_round_robin_peer now ups pc rrp))"
  unfolding handler_result_def by blast

lemma handler_result_fault: "handler_result now ups rrp None"
  by (simp add: handler_result_def)

lemma ip_hash_law: "get_law 0 ups (ip_hash_handler iphp now ups pc rrp)"
  unfolding ip_hash_handler_def
proof (rule handler_view_law)
  let ?l = "ip_hash_loop now (ups ! rrp_peers rrp) (tried rrp) (iphp_addr iphp) (iphp_hash iphp) (iphp_tries iphp)"
  note defs = ngx_http_upstream_get_ip_hash_peer_def ip_hash_rr_def Let_def case_prod_beta
  consider "iphp_tries iphp > 20 \<or> single (ups ! rrp_peers rrp)" | "?l = None" | h n where "?l = Some (h, n, None)"
    | h n p where "?l = Some (h, n, Some p)"
    by (metis option.exhaust prod_cases3)
  then show "handler_result now ups rrp (map_option (\<lambda>(rc, ups', pc', d). (rc, ups', pc', iphp_rrp d))
     (ngx_http_upstream_get_ip_hash_peer now ups pc (iphp\<lparr>iphp_rrp := rrp\<rparr>)))"
  proof cases
    case 4
    then show ?thesis using use_peer_result [OF ip_hash_loop_eligible [OF 4, THEN conjunct1] ip_hash_loop_eligible [OF 4, THEN conjunct2]]
      by (simp add: defs handler_result_rr)
  qed (simp_all add: defs handler_result_rr handler_result_fault)
qed

lemma hash_law: "get_law 0 ups (hash_handler hp now ups pc rrp)"
  unfolding hash_handler_def
proof (rule handler_view_law)
  let ?l = "hash_loop now (ups ! rrp_peers rrp) (hp\<lparr>hp_rrp := rrp\<rparr>)"
  note defs = ngx_http_upstream_get_hash_peer_def hash_rr_def Let_def case_prod_beta
  consider "hp_tries hp > 20 \<or> single (ups ! rrp_peers rrp) \<or> hp_key hp = []" | "?l = None" | h where "?l = Some (h, None)"
    | h p where "?l = Some (h, Some p)"
    by (metis option.exhaust surj_pair)
  then show "handler_result now ups rrp (map_option (\<lambda>(rc, ups', pc', d). (rc, ups', pc', hp_rrp d))
     (ngx_http_upstream_get_hash_peer now ups pc (hp\<lparr>hp_rrp := rrp\<rparr>)))"
  proof cases
    case 3
    then show ?thesis using hash_loop_result [OF 3] by (simp add: defs handler_result_rr)
  next
    case 4
    have r: "hp_rrp h = rrp" "p < length (peer (ups ! rrp_peers rrp))" "rr_eligible now (tried rrp) p (peer (ups ! rrp_peers rrp) ! p)"
      using hash_loop_result [OF 4] by simp_all
    show ?thesis using use_peer_result [OF r(2,3)] 4 r(1) by (simp add: defs handler_result_rr)
  qed (simp_all add: defs handler_result_rr handler_result_fault)
qed

interpretation ih: peer_balancer "ip_hash_handler iphp" for iphp
  by (rule peer_balancer_of_law) (rule ip_hash_law)

interpretation hs: peer_balancer "hash_handler hp" for hp
  by (rule peer_balancer_of_law) (rule hash_law)

section \<open>Shares\<close>

text \<open>The peer in whose interval of weights a number falls.\<close>

definition weight_before :: "ngx_http_upstream_rr_peer_t list \<Rightarrow> nat \<Rightarrow> int" where
  "weight_before ps k = sum_list (map weight (take k ps))"

lemma weight_before_simps [simp]:
  "weight_before ps 0 = 0" "weight_before (x # xs) (Suc k) = weight x + weight_before xs k"
  by (simp_all add: weight_before_def)

lemma weight_before_mono:
  assumes "\<forall>p \<in> set ps. 0 < weight p" "i \<le> j" "j \<le> length ps"
  shows "weight_before ps i \<le> weight_before ps j"
proof -
  have "weight_before ps j = weight_before ps i + sum_list (map weight (take (j - i) (drop i ps)))"
    using assms by (simp add: weight_before_def flip: take_add sum_list_append map_append)
  moreover have "0 \<le> sum_list (map weight (take (j - i) (drop i ps)))"
    using assms(1) by (intro sum_list_nonneg) (auto dest!: in_set_takeD in_set_dropD intro: less_imp_le)
  ultimately show ?thesis by simp
qed

lemma weight_walk_interval:
  assumes "\<forall>p \<in> set ps. 0 < weight p" "0 \<le> w" "w < sum_list (map weight ps)" "w < 2 ^ 63"
  shows "\<exists>k < length ps. weight_walk w ps n = Some (n + k) \<and> weight_before ps k \<le> w \<and> w < weight_before ps (Suc k)"
  using assms
proof (induction ps arbitrary: w n)
  case (Cons x xs)
  show ?case
  proof (cases "weight x \<le> w")
    case True
    have x: "0 < weight x" using Cons.prems(1) by simp
    have "i64 (w - weight x) = w - weight x" using x True Cons.prems(4) by (intro i64_id) auto
    moreover obtain k where "k < length xs" "weight_walk (w - weight x) xs (Suc n) = Some (Suc n + k)"
      "weight_before xs k \<le> w - weight x" "w - weight x < weight_before xs (Suc k)"
      using Cons.IH [of "w - weight x" "Suc n"] Cons.prems True x by auto
    ultimately show ?thesis using True by (intro exI [of _ "Suc k"]) auto
  next
    case False
    then show ?thesis using Cons.prems by (intro exI [of _ 0]) (simp add: weight_before_def)
  qed
qed simp

lemma sum_fill_weights:
  "\<forall>s \<in> set ss. server_ok s \<Longrightarrow> sum_list (map weight (rr_fill b (s # ss))) = (if server_backup s = b then int (length (server_addrs s)) * i64 (server_weight s) else 0) + sum_list (map weight (rr_fill b ss))"
  by (simp add: rr_fill_Cons rr_peer_of_server_def comp_def sum_list_triv)

lemma rr_count_weight:
  "\<forall>s \<in> set ss. server_ok s \<Longrightarrow> 0 \<le> w \<Longrightarrow> w < 2 ^ 64 \<Longrightarrow>
     fst (snd (rr_count b ss n w t)) = u64 (w + sum_list (map weight (rr_fill b ss)))"
proof (induction ss arbitrary: n w t)
  case Nil
  then show ?case by (simp add: rr_fill_def u64_id)
next
  case (Cons s ss)
  have w: "i64 (server_weight s) = server_weight s" using Cons.prems(1) by (intro i64_id) (auto simp: server_ok_def)
  have "u64 (u64 a + c) = u64 (a + c)" for a c by (simp add: u64_def mod_add_left_eq)
  then show ?case
    using Cons.IH [of "u64 (w + int (length (server_addrs s)) * server_weight s)"] Cons.IH [of w] Cons.prems u64_bounds
    by (simp add: Let_def sum_fill_weights w add.assoc)
qed

definition weights_fit :: "ngx_http_upstream_rr_peers_t \<Rightarrow> bool" where
  "weights_fit g \<longleftrightarrow> (\<forall>p \<in> set (peer g). 0 < weight p) \<and> peer g \<noteq> [] \<and>
     total_weight g = sum_list (map weight (peer g)) \<and> total_weight g < 2 ^ 63"

lemma walk_weights:
  assumes "weights_fit g" "0 \<le> h"
  obtains k where "k < length (peer g)" "hash_peer g h = Some k"
    "weight_before (peer g) k \<le> h mod total_weight g" "h mod total_weight g < weight_before (peer g) (Suc k)"
proof -
  have pos: "0 < total_weight g" using assms(1) sum_list_pos [of "map weight (peer g)"] by (auto simp: weights_fit_def)
  then have m: "0 \<le> h mod total_weight g" "h mod total_weight g < total_weight g" by simp_all
  moreover have w: "total_weight g < 2 ^ 63" "total_weight g = sum_list (map weight (peer g))" "\<forall>p \<in> set (peer g). 0 < weight p"
    using assms(1) by (simp_all add: weights_fit_def)
  ultimately obtain k where "k < length (peer g)" "weight_walk (h mod total_weight g) (peer g) 0 = Some k"
    "weight_before (peer g) k \<le> h mod total_weight g" "h mod total_weight g < weight_before (peer g) (Suc k)"
    using weight_walk_interval [of "peer g" "h mod total_weight g" 0] by auto
  moreover have "i64 (h mod total_weight g) = h mod total_weight g"
    using m w(1) by (intro i64_id) auto
  ultimately show thesis using that [of k] pos by (simp add: hash_peer_def)
qed

text \<open>A group as the configuration makes it.\<close>

lemma configured_group:
  assumes "us_servers us = Some ss" "\<forall>s \<in> set ss. server_ok s" "ngx_http_upstream_init_round_robin alloc resolve us = (NGX_OK, us1)"
    and "2 \<le> length (rr_fill False ss)" "sum_list (map weight (rr_fill False ss)) < 2 ^ 63"
  obtains g rest where "us_peer_data us1 = g # rest" "peer g = rr_fill False ss" "number g = length (rr_fill False ss)"
    "\<not> single g" "weights_fit g"
proof -
  have i: "rr_init_servers alloc us ss = (NGX_OK, us1)" using assms(1,3) by (simp add: ngx_http_upstream_init_round_robin_def)
  obtain g rest where g: "us_peer_data us1 = g # rest" "peer g = rr_fill False ss" "number g = length (rr_fill False ss)"
    "single g \<Longrightarrow> length (rr_fill False ss) = 1"
    using init_servers_group [OF i] by metis
  have pos: "\<forall>p \<in> set (rr_fill False ss). 0 < weight p" using rr_fill_peers [OF assms(2)] by (auto simp: peer_healthy_def)
  have sum: "0 \<le> sum_list (map weight (rr_fill False ss))" using pos by (intro sum_list_nonneg) force
  have "total_weight g = fst (snd (rr_count False ss 0 0 0))"
    using i g(1) by (auto simp: rr_init_servers_def rr_group_def Let_def split: if_splits prod.splits)
  then have "total_weight g = sum_list (map weight (rr_fill False ss))"
    using rr_count_weight [OF assms(2), of 0 False 0 0] sum assms(5) by (simp add: u64_id)
  then have "weights_fit g" using g(2) pos assms(4,5) by (auto simp: weights_fit_def)
  then show thesis using that g assms(4) by auto
qed

lemma fresh_request:
  assumes "us_peer_data us = g # rest" "ngx_http_upstream_init_round_robin_peer alloc h us pc = (NGX_OK, pc', r)"
  obtains rrp where "r = Some rrp" "rrp_peers rrp = 0" "\<And>i. i < number g \<Longrightarrow> \<not> tried_bit (tried rrp) i"
proof -
  define n where "n = (case rest of [] \<Rightarrow> number g | b # _ \<Rightarrow> max (number g) (number b))"
  have n: "number g \<le> n" by (simp add: n_def split: list.split)
  have r: "r = Some \<lparr>config = 0, rrp_peers = 0, current = None, tried = (if n \<le> 64 then [0] else replicate (tried_words n) 0)\<rparr>"
    using assms by (auto simp: ngx_http_upstream_init_round_robin_peer_def n_def Let_def max_def split: list.splits if_splits)
  have "\<not> tried_bit (if n \<le> 64 then [0] else replicate (tried_words n) 0) i" if "i < number g" for i
    using that n by (auto simp: tried_bit_one tried_bit_fresh)
  then show thesis using that r by simp
qed

section \<open>Properties\<close>

text \<open>The peer that a hash designates in a group, and that it is taken when it can be used.\<close>

definition designated :: "ngx_http_upstream_rr_peer_t list \<Rightarrow> int \<Rightarrow> nat \<Rightarrow> bool" where
  "designated ps h k \<longleftrightarrow> k < length ps \<and> weight_before ps k \<le> h mod sum_list (map weight ps) \<and>
     h mod sum_list (map weight ps) < weight_before ps (Suc k)"

lemma designated_unique:
  assumes "designated ps h k" "designated ps h k'" "\<forall>p \<in> set ps. 0 < weight p" shows "k = k'"
proof (rule ccontr)
  assume "k \<noteq> k'"
  then consider "Suc k \<le> k'" | "Suc k' \<le> k" by linarith
  then show False
    using assms(1,2) weight_before_mono [OF assms(3), of "Suc k" k'] weight_before_mono [OF assms(3), of "Suc k'" k] by cases (auto simp: designated_def)
qed

lemma ip_hash_nonneg: "0 \<le> h \<Longrightarrow> 0 \<le> ip_hash_mix addr h"
  unfolding ip_hash_mix_def by (induction addr arbitrary: h) simp_all

lemma get_ip_hash_designated:
  assumes g: "ups = g # rest" "\<not> single g" "weights_fit g" and d: "rrp_peers (iphp_rrp iphp) = 0" "iphp_tries iphp \<le> 20" "0 \<le> iphp_hash iphp"
    and e: "\<And>k. k < length (peer g) \<Longrightarrow> rr_eligible now (tried (iphp_rrp iphp)) k (peer g ! k)"
  shows "\<exists>k ups' pc' iphp'. ngx_http_upstream_get_ip_hash_peer now ups pc iphp = Some (NGX_OK, ups', pc', iphp') \<and>
    current (iphp_rrp iphp') = Some k \<and> designated (peer g) (ip_hash_mix (iphp_addr iphp) (iphp_hash iphp)) k \<and>
    pc_sockaddr pc' = Some (peer_sockaddr (peer g ! k))"
proof -
  let ?h = "ip_hash_mix (iphp_addr iphp) (iphp_hash iphp)"
  obtain k where k: "k < length (peer g)" "hash_peer g ?h = Some k"
    "weight_before (peer g) k \<le> ?h mod total_weight g" "?h mod total_weight g < weight_before (peer g) (Suc k)"
    using walk_weights [OF g(3) ip_hash_nonneg [OF d(3)]] by metis
  have "ip_hash_loop now g (tried (iphp_rrp iphp)) (iphp_addr iphp) (iphp_hash iphp) (iphp_tries iphp) = Some (?h, iphp_tries iphp, Some k)"
    using k e by (subst ip_hash_loop.simps) (simp add: Let_def)
  moreover have "total_weight g = sum_list (map weight (peer g))" using g(3) by (simp add: weights_fit_def)
  ultimately show ?thesis
    using k g d by (simp add: ngx_http_upstream_get_ip_hash_peer_def Let_def use_peer_def designated_def pc_use_peer_def)
qed

lemma get_hash_designated:
  assumes g: "ups = g # rest" "\<not> single g" "weights_fit g" and d: "rrp_peers (hp_rrp hp) = 0" "hp_tries hp \<le> 20" "hp_key hp \<noteq> []"
      "hp_rehash hp = 0" "hp_hash hp = 0"
    and e: "\<And>k. k < length (peer g) \<Longrightarrow> rr_eligible now (tried (hp_rrp hp)) k (peer g ! k)"
  shows "\<exists>k ups' pc' hp'. ngx_http_upstream_get_hash_peer now ups pc hp = Some (NGX_OK, ups', pc', hp') \<and>
    current (hp_rrp hp') = Some k \<and> designated (peer g) (uint (drop_bit 16 (ngx_crc32_long (hp_key hp)) AND 0x7fff)) k \<and>
    pc_sockaddr pc' = Some (peer_sockaddr (peer g ! k))"
proof -
  let ?w = "drop_bit 16 (ngx_crc32_long (hp_key hp)) AND 0x7fff"
  have v: "hash_value 0 (hp_key hp) = Some (uint ?w)"
    by (simp add: hash_value_def ngx_crc32_long_def ngx_crc32_final_def ngx_crc32_update_def ngx_crc32_init_def)
  have m: "uint ?w mod 4294967296 = uint ?w" using uint_lt2p [of ?w] by simp
  obtain k where k: "k < length (peer g)" "hash_peer g (uint ?w) = Some k"
    "weight_before (peer g) k \<le> uint ?w mod total_weight g" "uint ?w mod total_weight g < weight_before (peer g) (Suc k)"
    using walk_weights [OF g(3), of "uint ?w"] by auto
  have "hash_loop now g hp = Some (hp\<lparr>hp_hash := uint ?w, hp_rehash := u64 1\<rparr>, Some k)"
    using k e d by (subst hash_loop.simps) (simp add: Let_def v m)
  moreover have "total_weight g = sum_list (map weight (peer g))" using g(3) by (simp add: weights_fit_def)
  ultimately show ?thesis
    using k g d by (simp add: ngx_http_upstream_get_hash_peer_def Let_def use_peer_def designated_def pc_use_peer_def)
qed

text \<open>A new request of an upstream as the configuration makes it, all of whose servers are up and
  unlimited.\<close>

lemma configured_request:
  assumes "us_servers us = Some ss" "\<forall>s \<in> set ss. server_ok s" "ps = rr_fill False ss" "2 \<le> length ps" "sum_list (map weight ps) < 2 ^ 63"
    and i: "ngx_http_upstream_init_round_robin alloc resolve us = (NGX_OK, us1)"
    and p: "ngx_http_upstream_init_round_robin_peer alloc' h us1 pc = (NGX_OK, pc1, Some rrp)"
  obtains g rest where "us_peer_data us1 = g # rest" "peer g = ps" "\<not> single g" "weights_fit g" "rrp_peers rrp = 0"
    "\<And>k. k < length ps \<Longrightarrow> rr_eligible now (tried rrp) k (ps ! k)"
proof -
  obtain g rest where g: "us_peer_data us1 = g # rest" "peer g = ps" "number g = length ps" "\<not> single g" "weights_fit g"
    using configured_group [OF assms(1,2) i] assms(3-5) by metis
  obtain "rrp_peers rrp = 0" "\<And>i. i < number g \<Longrightarrow> \<not> tried_bit (tried rrp) i"
    using fresh_request [OF g(1) p] by (metis option.inject)
  moreover have "peer_healthy (ps ! k)" if "k < length ps" for k
    using rr_fill_peers [OF assms(2), of "ps ! k" False] assms(3) that by simp
  ultimately show thesis using that g peer_healthy_eligible by metis
qed

text \<open>A later state of the same upstream: requests have changed the counters, the current weights and the
  times of the peers, but not what the configuration fixes.\<close>

definition running :: "rr_chain \<Rightarrow> rr_chain \<Rightarrow> bool" where
  "running conf ups \<longleftrightarrow> static_tab ups = static_tab conf \<and> map total_weight ups = map total_weight conf"

definition none_failing :: "int \<Rightarrow> rr_chain \<Rightarrow> bool" where
  "none_failing now ups \<longleftrightarrow> (\<forall>p \<in> set (peer (hd ups)). \<not> peer_failing now p)"

lemma peer_static_weights: "map peer_static ps = map peer_static qs \<Longrightarrow> map weight ps = map weight qs"
  by (induction ps qs rule: list_induct2') (auto simp: peer_static_def)

lemma designated_static: "map peer_static ps = map peer_static qs \<Longrightarrow> designated ps h k = designated qs h k"
  using peer_static_weights [of ps qs] map_eq_imp_length_eq [of peer_static ps peer_static qs]
  by (simp add: designated_def weight_before_def take_map [symmetric])

lemma static_sockaddr: "map peer_static ps = map peer_static qs \<Longrightarrow> k < length qs \<Longrightarrow> peer_sockaddr (ps ! k) = peer_sockaddr (qs ! k)"
proof (induction ps qs arbitrary: k rule: list_induct2')
  case (4 p ps q qs)
  then show ?case by (cases k) (auto simp: peer_static_def)
qed auto

lemma designated_sockaddr: "map peer_static ps = map peer_static qs \<Longrightarrow> designated qs h k \<Longrightarrow> peer_sockaddr (ps ! k) = peer_sockaddr (qs ! k)"
  by (rule static_sockaddr) (simp_all add: designated_def)

lemma running_request:
  assumes "us_servers us = Some ss" "\<forall>s \<in> set ss. server_ok s" "ps = rr_fill False ss" "2 \<le> length ps" "sum_list (map weight ps) < 2 ^ 63"
    and i: "ngx_http_upstream_init_round_robin alloc resolve us = (NGX_OK, us1)"
    and run: "running (us_peer_data us1) ups" "none_failing now ups"
    and p: "ngx_http_upstream_init_round_robin_peer alloc' h (us1\<lparr>us_peer_data := ups\<rparr>) pc = (NGX_OK, pc1, Some rrp)"
  obtains g rest where "ups = g # rest" "map peer_static (peer g) = map peer_static ps" "\<not> single g" "weights_fit g" "rrp_peers rrp = 0"
    "\<And>k. k < length (peer g) \<Longrightarrow> rr_eligible now (tried rrp) k (peer g ! k)"
proof -
  obtain g0 rest0 where g0: "us_peer_data us1 = g0 # rest0" "peer g0 = ps" "number g0 = length ps" "\<not> single g0" "weights_fit g0"
    using configured_group [OF assms(1,2) i] assms(3-5) by metis
  then obtain g rest where g: "ups = g # rest" "number g = number g0" "single g = single g0" "map peer_static (peer g) = map peer_static ps"
    "total_weight g = total_weight g0" using run(1) by (cases ups) (auto simp: running_def static_tab_def)
  obtain "rrp_peers rrp = 0" "\<And>i. i < number g \<Longrightarrow> \<not> tried_bit (tried rrp) i"
    using fresh_request [OF _ p, of g rest] g(1) by (metis option.inject ngx_http_upstream_srv_conf_t.select_convs(4) ngx_http_upstream_srv_conf_t.update_convs(4) ngx_http_upstream_srv_conf_t.surjective)
  moreover have len: "length (peer g) = length ps" using g(4) map_eq_imp_length_eq by blast
  have st: "peer_static (peer g ! k) = peer_static (ps ! k)" if "k < length ps" for k
    using arg_cong [OF g(4), of "\<lambda>l. l ! k"] that len by simp
  moreover have "rr_eligible now (tried rrp) k (peer g ! k)" if "k < length ps" "\<not> tried_bit (tried rrp) k" for k
  proof -
    have "peer_healthy (ps ! k)" using rr_fill_peers [OF assms(2), of "ps ! k" False] assms(3) that by simp
    then have "\<not> down (peer g ! k)" "max_conns (peer g ! k) = 0" using st [OF that(1)] by (auto simp: peer_healthy_def peer_static_def)
    moreover have "\<not> peer_failing now (peer g ! k)" using run(2) g(1) that(1) len by (simp add: none_failing_def)
    ultimately show ?thesis using that(2) by (simp add: rr_eligible_def peer_full_def)
  qed
  moreover have "weights_fit g"
  proof -
    have w: "map weight (peer g) = map weight ps" using peer_static_weights [OF g(4)] .
    then have "(\<forall>p \<in> set (peer g). 0 < weight p) \<longleftrightarrow> (\<forall>p \<in> set ps. 0 < weight p)" by (metis (mono_tags, lifting) image_iff list.set_map)
    then show ?thesis using g0(2,5) g(5) w len by (auto simp: weights_fit_def)
  qed
  ultimately show thesis using that [of g rest] g g0(3,4) len by simp
qed

lemma ip_hash_affinity:
  assumes conf: "us_servers us = Some ss" "\<forall>s \<in> set ss. server_ok s" "ps = rr_fill False ss" "2 \<le> length ps" "sum_list (map weight ps) < 2 ^ 63"
    and i: "ngx_http_upstream_init_ip_hash alloc resolve us = (NGX_OK, us1)" and run: "running (us_peer_data us1) ups" "none_failing now ups"
    and p: "ngx_http_upstream_init_ip_hash_peer alloc' addr (us1\<lparr>us_peer_data := ups\<rparr>) pc = (NGX_OK, pc1, Some iphp)"
  shows "\<exists>k ups' pc' iphp'. ngx_http_upstream_get_ip_hash_peer now ups pc1 iphp = Some (NGX_OK, ups', pc', iphp') \<and>
     current (iphp_rrp iphp') = Some k \<and> designated ps (ip_hash_mix (iphp_addr_of addr) 89) k \<and> pc_sockaddr pc' = Some (peer_sockaddr (ps ! k))"
proof -
  have rr: "ngx_http_upstream_init_round_robin alloc resolve us = (NGX_OK, us1)"
    using i by (auto simp: ngx_http_upstream_init_ip_hash_def split: prod.splits if_splits)
  obtain rrp where pr: "ngx_http_upstream_init_round_robin_peer (\<lambda>k. alloc' (Suc k)) True (us1\<lparr>us_peer_data := ups\<rparr>) pc = (NGX_OK, pc1, Some rrp)"
    and d: "iphp = \<lparr>iphp_rrp = rrp, iphp_hash = 89, iphp_addr = iphp_addr_of addr, iphp_tries = 0\<rparr>"
    using p by (auto simp: ngx_http_upstream_init_ip_hash_peer_def split: if_splits prod.splits option.splits ngx_rc.splits)
  obtain g rest where g: "ups = g # rest" "map peer_static (peer g) = map peer_static ps" "\<not> single g" "weights_fit g" "rrp_peers rrp = 0"
    "\<And>k. k < length (peer g) \<Longrightarrow> rr_eligible now (tried rrp) k (peer g ! k)"
    using running_request [OF conf rr run pr] by metis
  have "\<exists>k ups' pc' iphp'. ngx_http_upstream_get_ip_hash_peer now ups pc1 iphp = Some (NGX_OK, ups', pc', iphp') \<and>
     current (iphp_rrp iphp') = Some k \<and> designated (peer g) (ip_hash_mix (iphp_addr iphp) (iphp_hash iphp)) k \<and>
     pc_sockaddr pc' = Some (peer_sockaddr (peer g ! k))"
    by (rule get_ip_hash_designated) (use g d in auto)
  then show ?thesis using designated_sockaddr [OF g(2)] unfolding designated_static [OF g(2)] by (auto simp: d)
qed

lemma hash_affinity:
  assumes conf: "us_servers us = Some ss" "\<forall>s \<in> set ss. server_ok s" "ps = rr_fill False ss" "2 \<le> length ps" "sum_list (map weight ps) < 2 ^ 63"
    and i: "ngx_http_upstream_init_hash alloc resolve us = (NGX_OK, us1)" and key: "key \<noteq> []" and run: "running (us_peer_data us1) ups" "none_failing now ups"
    and p: "ngx_http_upstream_init_hash_peer alloc' (Some key) (us1\<lparr>us_peer_data := ups\<rparr>) pc = (NGX_OK, pc1, Some hp)"
  shows "\<exists>k ups' pc' hp'. ngx_http_upstream_get_hash_peer now ups pc1 hp = Some (NGX_OK, ups', pc', hp') \<and>
     current (hp_rrp hp') = Some k \<and> designated ps (uint (drop_bit 16 (ngx_crc32_long key) AND 0x7fff)) k \<and>
     pc_sockaddr pc' = Some (peer_sockaddr (ps ! k))"
proof -
  have rr: "ngx_http_upstream_init_round_robin alloc resolve us = (NGX_OK, us1)"
    using i by (auto simp: ngx_http_upstream_init_hash_def split: prod.splits if_splits)
  obtain rrp where pr: "ngx_http_upstream_init_round_robin_peer (\<lambda>k. alloc' (Suc k)) True (us1\<lparr>us_peer_data := ups\<rparr>) pc = (NGX_OK, pc1, Some rrp)"
    and d: "hp = \<lparr>hp_rrp = rrp, hp_key = key, hp_tries = 0, hp_rehash = 0, hp_hash = 0\<rparr>"
    using p by (auto simp: ngx_http_upstream_init_hash_peer_def split: if_splits prod.splits option.splits ngx_rc.splits)
  obtain g rest where g: "ups = g # rest" "map peer_static (peer g) = map peer_static ps" "\<not> single g" "weights_fit g" "rrp_peers rrp = 0"
    "\<And>k. k < length (peer g) \<Longrightarrow> rr_eligible now (tried rrp) k (peer g ! k)"
    using running_request [OF conf rr run pr] by metis
  have "\<exists>k ups' pc' hp'. ngx_http_upstream_get_hash_peer now ups pc1 hp = Some (NGX_OK, ups', pc', hp') \<and>
     current (hp_rrp hp') = Some k \<and> designated (peer g) (uint (drop_bit 16 (ngx_crc32_long (hp_key hp)) AND 0x7fff)) k \<and>
     pc_sockaddr pc' = Some (peer_sockaddr (peer g ! k))"
    by (rule get_hash_designated) (use g d key in auto)
  then show ?thesis using designated_sockaddr [OF g(2)] unfolding designated_static [OF g(2)] by (auto simp: d)
qed

text \<open>C32: with servers that are all up and unlimited, a new request gets a peer from the address balancer and
  from the key balancer, in the configured upstream and in every later state of it in which no peer of
  the primary group counts as failing. The peer is the one in whose interval of the total weight the hash falls: of every
  run of as many hash values as the total weight, each peer has exactly its weight. The hash of the
  first depends only on the first three bytes of an IPv4 address, or on the whole IPv6 address, that of
  the second only on the key, so that the same client or key gets the same peer as long as no peer fails.\<close>

theorem hash_balancers_affinity:
  assumes "us_servers us = Some ss" "\<forall>s \<in> set ss. server_ok s" "ps = rr_fill False ss" "2 \<le> length ps" "sum_list (map weight ps) < 2 ^ 63"
    and "running (us_peer_data us1) ups" "none_failing now ups"
  shows "(ngx_http_upstream_init_ip_hash alloc resolve us = (NGX_OK, us1) \<longrightarrow>
      ngx_http_upstream_init_ip_hash_peer alloc' addr (us1\<lparr>us_peer_data := ups\<rparr>) pc = (NGX_OK, pc1, Some iphp) \<longrightarrow>
      (\<exists>k ups' pc' iphp'. ngx_http_upstream_get_ip_hash_peer now ups pc1 iphp = Some (NGX_OK, ups', pc', iphp') \<and>
         current (iphp_rrp iphp') = Some k \<and> designated ps (ip_hash_mix (iphp_addr_of addr) 89) k \<and>
         pc_sockaddr pc' = Some (peer_sockaddr (ps ! k)))) \<and>
    (ngx_http_upstream_init_hash alloc resolve us = (NGX_OK, us1) \<longrightarrow>
      ngx_http_upstream_init_hash_peer alloc' (Some key) (us1\<lparr>us_peer_data := ups\<rparr>) pc = (NGX_OK, pc1, Some hp) \<longrightarrow> key \<noteq> [] \<longrightarrow>
      (\<exists>k ups' pc' hp'. ngx_http_upstream_get_hash_peer now ups pc1 hp = Some (NGX_OK, ups', pc', hp') \<and>
         current (hp_rrp hp') = Some k \<and> designated ps (uint (drop_bit 16 (ngx_crc32_long key) AND 0x7fff)) k \<and>
         pc_sockaddr pc' = Some (peer_sockaddr (ps ! k))))"
  using ip_hash_affinity [OF assms(1-5) _ assms(6,7)] hash_affinity [OF assms(1-5) _ _ assms(6,7)] by (intro conjI impI)

theorem hash_balancers_affinity_witness:
  "let us1 = snd (ngx_http_upstream_init_hash (\<lambda>_. True) (\<lambda>_ _. None) ex_us);
       ups = [(hd (us_peer_data us1))\<lparr>peer := map (\<lambda>p. p\<lparr>conns := 7, current_weight := -1\<rparr>) (peer (hd (us_peer_data us1)))\<rparr>, us_peer_data us1 ! 1];
       pd = ngx_http_upstream_init_hash_peer (\<lambda>_. True) (Some (bytes ''user7'')) (us1\<lparr>us_peer_data := ups\<rparr>) ex_pc;
       ps = rr_fill False (the (us_servers ex_us))
   in \<exists>k ups' pc' hp'. ngx_http_upstream_get_hash_peer 5 ups (fst (snd pd)) (the (snd (snd pd))) = Some (NGX_OK, ups', pc', hp') \<and>
        current (hp_rrp hp') = Some k \<and> designated ps (uint (drop_bit 16 (ngx_crc32_long (bytes ''user7'')) AND 0x7fff)) k"
proof -
  let ?ss = "the (us_servers ex_us)" and ?us1 = "snd (ngx_http_upstream_init_hash (\<lambda>_. True) (\<lambda>_ _. None) ex_us)"
  let ?ups = "[(hd (us_peer_data ?us1))\<lparr>peer := map (\<lambda>p. p\<lparr>conns := 7, current_weight := -1\<rparr>) (peer (hd (us_peer_data ?us1)))\<rparr>, us_peer_data ?us1 ! 1]"
  let ?pd = "ngx_http_upstream_init_hash_peer (\<lambda>_. True) (Some (bytes ''user7'')) (?us1\<lparr>us_peer_data := ?ups\<rparr>) ex_pc"
  have "us_servers ex_us = Some ?ss" "\<forall>s \<in> set ?ss. server_ok s" "2 \<le> length (rr_fill False ?ss)" "sum_list (map weight (rr_fill False ?ss)) < 2 ^ 63"
    "fst (ngx_http_upstream_init_hash (\<lambda>_. True) (\<lambda>_ _. None) ex_us) = NGX_OK" "bytes ''user7'' \<noteq> []"
    "fst ?pd = NGX_OK" "snd (snd ?pd) \<noteq> None"
    by code_simp+
  then have c: "us_servers ex_us = Some ?ss" "\<forall>s \<in> set ?ss. server_ok s" "2 \<le> length (rr_fill False ?ss)" "sum_list (map weight (rr_fill False ?ss)) < 2 ^ 63"
    and i: "ngx_http_upstream_init_hash (\<lambda>_. True) (\<lambda>_ _. None) ex_us = (NGX_OK, ?us1)" "bytes ''user7'' \<noteq> []"
      "?pd = (NGX_OK, fst (snd ?pd), Some (the (snd (snd ?pd))))"
    by (metis prod.collapse, blast, blast, blast, metis prod.collapse, blast, metis option.collapse prod.collapse)
  have run: "running (us_peer_data ?us1) ?ups" "none_failing 5 ?ups" by code_simp+
  show ?thesis unfolding Let_def
    using hash_balancers_affinity [OF c(1,2) refl c(3,4) run, of "\<lambda>_. True" "\<lambda>_ _. None" "\<lambda>_. True" _ ex_pc "fst (snd ?pd)" _ "bytes ''user7''" "the (snd (snd ?pd))"] i
    by blast
qed

end
