(* ===== verification/Ngx_Random_Balancer.thy ===== *)
theory Ngx_Random_Balancer
  imports Ngx_Hash_Balancer
begin

text \<open>
  The balancer that chooses a peer at random
  (src/nginx/src/http/modules/ngx_http_upstream_random_module.c): a peer with a probability in
  proportion to its weight, or the less loaded of two such peers.

  The generator \<^verbatim>\<open>ngx_random\<close> is an argument: \<open>rnd c\<close> is the value of its call number \<open>c\<close> within one call
  of a handler. The method takes no backup servers, so the ranges are those of the group the request is
  at; a handler that meets another group, reads past the ranges or divides by zero returns none.
\<close>

section \<open>Data and initialisation\<close>

record ngx_http_upstream_random_range_t =
  rng_peer :: nat
  rng_range :: int

record ngx_http_upstream_random_srv_conf_t =
  rcf_two :: bool
  rcf_ranges :: "ngx_http_upstream_random_range_t list option"

record ngx_http_upstream_random_peer_data_t =
  rp_rrp :: ngx_http_upstream_rr_peer_data_t
  rp_conf :: ngx_http_upstream_random_srv_conf_t
  rp_tries :: nat

text \<open>The loop of \<^verbatim>\<open>ngx_http_upstream_update_random\<close>: the peers with the sum of the weights before each.\<close>

fun random_ranges :: "ngx_http_upstream_rr_peer_t list \<Rightarrow> nat \<Rightarrow> int \<Rightarrow> ngx_http_upstream_random_range_t list" where
  "random_ranges [] i w = []"
| "random_ranges (p # ps) i w = \<lparr>rng_peer = i, rng_range = w\<rparr> # random_ranges ps (Suc i) (u64 (w + weight p))"

definition ngx_http_upstream_update_random ::
    "bool \<Rightarrow> ngx_http_upstream_srv_conf_t \<Rightarrow> ngx_http_upstream_random_srv_conf_t
       \<Rightarrow> ngx_rc \<times> ngx_http_upstream_random_srv_conf_t" where
  "ngx_http_upstream_update_random allocated us rcf =
     (if \<not> allocated then (NGX_ERROR, rcf)
      else case us_peer_data us of
             [] \<Rightarrow> (NGX_ERROR, rcf)
           | peers # _ \<Rightarrow> (NGX_OK, rcf\<lparr>rcf_ranges := Some (random_ranges (peer peers) 0 0)\<rparr>))"

text \<open>\<open>zone\<close> says whether the upstream lives in shared memory; then the ranges are made by the first
  request.\<close>

definition ngx_http_upstream_init_random ::
    "(nat \<Rightarrow> bool) \<Rightarrow> (string \<Rightarrow> nat \<Rightarrow> ngx_addr_t list option) \<Rightarrow> bool \<Rightarrow> ngx_http_upstream_srv_conf_t
       \<Rightarrow> ngx_http_upstream_random_srv_conf_t
       \<Rightarrow> ngx_rc \<times> ngx_http_upstream_srv_conf_t \<times> ngx_http_upstream_random_srv_conf_t" where
  "ngx_http_upstream_init_random alloc resolve zone us rcf =
     (case ngx_http_upstream_init_round_robin alloc resolve us of
        (rc, us') \<Rightarrow>
          if rc \<noteq> NGX_OK then (NGX_ERROR, us', rcf)
          else if zone then (NGX_OK, us', rcf)
          else case ngx_http_upstream_update_random (alloc 4) us' rcf of (rc, rcf') \<Rightarrow> (rc, us', rcf'))"

definition ngx_http_upstream_init_random_peer ::
    "(nat \<Rightarrow> bool) \<Rightarrow> bool \<Rightarrow> ngx_http_upstream_srv_conf_t \<Rightarrow> ngx_http_upstream_random_srv_conf_t \<Rightarrow> ngx_peer_connection_t
       \<Rightarrow> ngx_rc \<times> ngx_peer_connection_t \<times> ngx_http_upstream_random_srv_conf_t \<times> ngx_http_upstream_random_peer_data_t option" where
  "ngx_http_upstream_init_random_peer alloc zone us rcf pc =
     (if \<not> alloc 0 then (NGX_ERROR, pc, rcf, None)
      else
        case ngx_http_upstream_init_round_robin_peer (\<lambda>k. alloc (Suc k)) True us pc of
          (NGX_OK, pc', Some rrp) \<Rightarrow>
            if zone \<and> rcf_ranges rcf = None then
              (case ngx_http_upstream_update_random (alloc 3) us rcf of
                 (rc, rcf') \<Rightarrow>
                   if rc \<noteq> NGX_OK then (NGX_ERROR, pc', rcf', None)
                   else (NGX_OK, pc', rcf', Some \<lparr>rp_rrp = rrp, rp_conf = rcf', rp_tries = 0\<rparr>))
            else (NGX_OK, pc', rcf, Some \<lparr>rp_rrp = rrp, rp_conf = rcf, rp_tries = 0\<rparr>)
        | (rc, pc', rrp) \<Rightarrow> (NGX_ERROR, pc', rcf, None))"

section \<open>Choosing a peer\<close>

text \<open>The binary search for the last range that does not start after \<open>x\<close>.\<close>

function peek_search :: "ngx_http_upstream_random_range_t list \<Rightarrow> int \<Rightarrow> nat \<Rightarrow> nat \<Rightarrow> nat option" where
  "peek_search rs x i j =
     (if j - i > 1 then
        let k = (i + j) div 2
        in if k \<ge> length rs then None
           else if x < rng_range (rs ! k) then peek_search rs x i k
           else peek_search rs x k j
      else Some i)"
  by pat_completeness auto
termination
  by (relation "measure (\<lambda>(rs, x, i, j). j - i)") auto

declare peek_search.simps [simp del]

text \<open>The number that \<^verbatim>\<open>ngx_random\<close> returned, the index found and the peer of that range.\<close>

definition ngx_http_upstream_peek_random_peer ::
    "int \<Rightarrow> ngx_http_upstream_rr_peers_t \<Rightarrow> ngx_http_upstream_random_peer_data_t \<Rightarrow> (nat \<times> nat) option" where
  "ngx_http_upstream_peek_random_peer r peers rp =
     (case rcf_ranges (rp_conf rp) of
        None \<Rightarrow> None
      | Some rs \<Rightarrow>
          if total_weight peers = 0 then None
          else
            case peek_search rs (u64 r mod total_weight peers) 0 (number peers) of
              None \<Rightarrow> None
            | Some i \<Rightarrow>
                if i < length rs \<and> rng_peer (rs ! i) < length (peer peers) then Some (i, rng_peer (rs ! i)) else None)"

text \<open>The loops of the two handlers: the number of tries and, unless there were too many, the peer and
  its bit.\<close>

function random_loop ::
    "int \<Rightarrow> ngx_http_upstream_rr_peers_t \<Rightarrow> ngx_http_upstream_random_peer_data_t \<Rightarrow> (nat \<Rightarrow> int) \<Rightarrow> nat \<Rightarrow> nat
       \<Rightarrow> (nat \<times> (nat \<times> nat) option) option" where
  "random_loop now peers rp rnd c tr =
     (case ngx_http_upstream_peek_random_peer (rnd c) peers rp of
        None \<Rightarrow> None
      | Some (i, p) \<Rightarrow>
          if rr_eligible now (tried (rp_rrp rp)) i (peer peers ! p) then Some (tr, Some (p, i))
          else if Suc tr > 20 then Some (Suc tr, None)
          else random_loop now peers rp rnd (Suc c) (Suc tr))"
  by pat_completeness auto
termination
  by (relation "measure (\<lambda>(now, peers, rp, rnd, c, tr). 21 - tr)") auto

declare random_loop.simps [simp del]

definition random2_less :: "ngx_http_upstream_rr_peer_t \<Rightarrow> ngx_http_upstream_rr_peer_t \<Rightarrow> bool" where
  "random2_less prev p \<longleftrightarrow> u64 (conns p * weight prev) > u64 (conns prev * weight p)"

function random2_loop ::
    "int \<Rightarrow> ngx_http_upstream_rr_peers_t \<Rightarrow> ngx_http_upstream_random_peer_data_t \<Rightarrow> (nat \<Rightarrow> int) \<Rightarrow> nat \<Rightarrow> nat
       \<Rightarrow> (nat \<times> nat) option \<Rightarrow> (nat \<times> (nat \<times> nat) option) option" where
  "random2_loop now peers rp rnd c tr prev =
     (case ngx_http_upstream_peek_random_peer (rnd c) peers rp of
        None \<Rightarrow> None
      | Some (i, p) \<Rightarrow>
          let skip = (map_option fst prev = Some p \<or> \<not> rr_eligible now (tried (rp_rrp rp)) i (peer peers ! p))
          in if \<not> skip \<and> prev \<noteq> None then
               Some (tr, Some (if random2_less (peer peers ! fst (the prev)) (peer peers ! p) then the prev else (p, i)))
             else if Suc tr > 20 then Some (Suc tr, None)
             else random2_loop now peers rp rnd (Suc c) (Suc tr) (if skip then prev else Some (p, i)))"
  by pat_completeness auto
termination
  by (relation "measure (\<lambda>(now, peers, rp, rnd, c, tr, prev). 21 - tr)") auto

declare random2_loop.simps [simp del]

section \<open>The handlers\<close>

definition random_rr ::
    "int \<Rightarrow> rr_chain \<Rightarrow> ngx_peer_connection_t \<Rightarrow> ngx_http_upstream_random_peer_data_t
       \<Rightarrow> ngx_rc \<times> rr_chain \<times> ngx_peer_connection_t \<times> ngx_http_upstream_random_peer_data_t" where
  "random_rr now ups pc rp =
     (case ngx_http_upstream_get_round_robin_peer now ups pc (rp_rrp rp) of
        (rc, ups', pc', rrp) \<Rightarrow> (rc, ups', pc', rp\<lparr>rp_rrp := rrp\<rparr>))"

text \<open>The end of both handlers, from the result of the loop.\<close>

definition random_found ::
    "int \<Rightarrow> rr_chain \<Rightarrow> ngx_peer_connection_t \<Rightarrow> ngx_http_upstream_random_peer_data_t
       \<Rightarrow> (nat \<times> (nat \<times> nat) option) option
       \<Rightarrow> (ngx_rc \<times> rr_chain \<times> ngx_peer_connection_t \<times> ngx_http_upstream_random_peer_data_t) option" where
  "random_found now ups pc rp res =
     (case res of
        None \<Rightarrow> None
      | Some (tr, None) \<Rightarrow> Some (random_rr now ups pc (rp\<lparr>rp_tries := tr\<rparr>))
      | Some (tr, Some (p, i)) \<Rightarrow>
          (case use_peer now ups pc (rp_rrp rp) p i of
             (ups', pc', rrp') \<Rightarrow> Some (NGX_OK, ups', pc', rp\<lparr>rp_rrp := rrp', rp_tries := tr\<rparr>)))"

definition ngx_http_upstream_get_random_peer ::
    "(nat \<Rightarrow> int) \<Rightarrow> int \<Rightarrow> rr_chain \<Rightarrow> ngx_peer_connection_t \<Rightarrow> ngx_http_upstream_random_peer_data_t
       \<Rightarrow> (ngx_rc \<times> rr_chain \<times> ngx_peer_connection_t \<times> ngx_http_upstream_random_peer_data_t) option" where
  "ngx_http_upstream_get_random_peer rnd now ups pc rp =
     (let peers = ups ! rrp_peers (rp_rrp rp)
      in if rp_tries rp > 20 \<or> single peers then Some (random_rr now ups pc rp)
         else if rrp_peers (rp_rrp rp) \<noteq> 0 then None
         else
           let pc = pc\<lparr>pc_cached := False, pc_connection := False\<rparr>
           in random_found now ups pc rp (random_loop now peers rp rnd 0 (rp_tries rp)))"

definition ngx_http_upstream_get_random2_peer ::
    "(nat \<Rightarrow> int) \<Rightarrow> int \<Rightarrow> rr_chain \<Rightarrow> ngx_peer_connection_t \<Rightarrow> ngx_http_upstream_random_peer_data_t
       \<Rightarrow> (ngx_rc \<times> rr_chain \<times> ngx_peer_connection_t \<times> ngx_http_upstream_random_peer_data_t) option" where
  "ngx_http_upstream_get_random2_peer rnd now ups pc rp =
     (let peers = ups ! rrp_peers (rp_rrp rp)
      in if rp_tries rp > 20 \<or> single peers then Some (random_rr now ups pc rp)
         else if rrp_peers (rp_rrp rp) \<noteq> 0 then None
         else
           let pc = pc\<lparr>pc_cached := False, pc_connection := False\<rparr>
           in random_found now ups pc rp (random2_loop now peers rp rnd 0 (rp_tries rp) None))"

section \<open>The balancer contract\<close>

definition random_handler :: "(nat \<Rightarrow> int) \<Rightarrow> ngx_http_upstream_random_peer_data_t \<Rightarrow> get_handler" where
  "random_handler rnd rp =
     handler_view rp_rrp (\<lambda>now ups pc rrp. ngx_http_upstream_get_random_peer rnd now ups pc (rp\<lparr>rp_rrp := rrp\<rparr>))"

definition random2_handler :: "(nat \<Rightarrow> int) \<Rightarrow> ngx_http_upstream_random_peer_data_t \<Rightarrow> get_handler" where
  "random2_handler rnd rp =
     handler_view rp_rrp (\<lambda>now ups pc rrp. ngx_http_upstream_get_random2_peer rnd now ups pc (rp\<lparr>rp_rrp := rrp\<rparr>))"

lemma peek_bound:
  "ngx_http_upstream_peek_random_peer r peers rp = Some (i, p) \<Longrightarrow> p < length (peer peers)"
  by (auto simp: ngx_http_upstream_peek_random_peer_def split: option.splits if_splits)

lemma random_loop_eligible:
  "random_loop now peers rp rnd c tr = Some (n, Some (p, i)) \<Longrightarrow>
     p < length (peer peers) \<and> rr_eligible now (tried (rp_rrp rp)) i (peer peers ! p)"
proof (induction now peers rp rnd c tr rule: random_loop.induct)
  case (1 now peers rp rnd c tr)
  show ?case using "1.prems" "1.IH"
    by (subst (asm) random_loop.simps) (auto split: option.splits if_splits dest: peek_bound)
qed

definition random_usable :: "int \<Rightarrow> ngx_http_upstream_rr_peers_t \<Rightarrow> ngx_http_upstream_random_peer_data_t \<Rightarrow> nat \<times> nat \<Rightarrow> bool" where
  "random_usable now peers rp pi \<longleftrightarrow>
     fst pi < length (peer peers) \<and> rr_eligible now (tried (rp_rrp rp)) (snd pi) (peer peers ! fst pi)"

text \<open>The result of the second loop is one of two different usable peers, and not the more loaded one; what
  is true of every index and peer that the search can find is true of both.\<close>

lemma random2_loop_result:
  assumes "random2_loop now peers rp rnd c tr prev = Some (n, Some pi)" "\<forall>q. prev = Some q \<longrightarrow> random_usable now peers rp q \<and> P q"
    and "\<And>r i p. ngx_http_upstream_peek_random_peer r peers rp = Some (i, p) \<Longrightarrow> P (p, i)"
  shows "random_usable now peers rp pi \<and> P pi \<and>
     (\<exists>q. random_usable now peers rp q \<and> P q \<and> fst q \<noteq> fst pi \<and>
        u64 (conns (peer peers ! fst pi) * weight (peer peers ! fst q)) \<le> u64 (conns (peer peers ! fst q) * weight (peer peers ! fst pi)))"
  using assms
proof (induction now peers rp rnd c tr prev rule: random2_loop.induct)
  case (1 now peers rp rnd c tr prev)
  obtain i p where k: "ngx_http_upstream_peek_random_peer (rnd c) peers rp = Some (i, p)"
    using "1.prems"(1) by (subst (asm) random2_loop.simps) (auto split: option.splits)
  define skip where "skip \<longleftrightarrow> map_option fst prev = Some p \<or> \<not> rr_eligible now (tried (rp_rrp rp)) i (peer peers ! p)"
  have u: "\<not> skip \<Longrightarrow> random_usable now peers rp (p, i)" "P (p, i)" using peek_bound [OF k] "1.prems"(3) k by (auto simp: skip_def random_usable_def)
  show ?case
  proof (cases "\<not> skip \<and> prev \<noteq> None")
    case True
    then obtain q where q: "prev = Some q" "fst q \<noteq> p" by (auto simp: skip_def)
    have "pi = (if random2_less (peer peers ! fst q) (peer peers ! p) then q else (p, i))"
      using "1.prems"(1) True q(1) k by (subst (asm) random2_loop.simps) (auto simp: skip_def Let_def)
    moreover have "random_usable now peers rp q" "P q" "random_usable now peers rp (p, i)" using True u q(1) "1.prems"(2) by auto
    ultimately show ?thesis using q(2) u(2)
      by (intro conjI exI [of _ "if pi = q then (p, i) else q"]) (auto simp: random2_less_def split: if_splits)
  next
    case False
    then have "\<not> Suc tr > 20" and
      r: "random2_loop now peers rp rnd (Suc c) (Suc tr) (if skip then prev else Some (p, i)) = Some (n, Some pi)"
      using "1.prems"(1) k by (subst (asm) random2_loop.simps, auto simp: skip_def Let_def split: if_splits)+
    then show ?thesis using "1.IH" [OF k refl, of skip] False u "1.prems"(2,3) by (auto simp: skip_def)
  qed
qed

lemma random2_loop_tries: "random2_loop now peers rp rnd c tr prev = Some (n, None) \<Longrightarrow> n > 20"
proof (induction now peers rp rnd c tr prev rule: random2_loop.induct)
  case (1 now peers rp rnd c tr prev)
  show ?case using "1.prems" "1.IH"
    by (subst (asm) random2_loop.simps) (auto simp: Let_def split: option.splits if_splits)
qed

lemma random_found_result:
  assumes "\<And>n p i. res = Some (n, Some (p, i)) \<Longrightarrow> random_usable now (ups ! rrp_peers (rp_rrp rp)) rp (p, i)"
  shows "handler_result now ups (rp_rrp rp)
     (map_option (\<lambda>(rc, ups', pc', d). (rc, ups', pc', rp_rrp d)) (random_found now ups pc rp res))"
  using assms
  by (auto simp: random_found_def random_rr_def handler_result_fault case_prod_beta handler_result_rr random_usable_def
      intro: use_peer_result split: option.split)

lemma random_rr_result:
  "handler_result now ups (rp_rrp rp) (Some (case random_rr now ups pc rp of (rc, ups', pc', d) \<Rightarrow> (rc, ups', pc', rp_rrp d)))"
  by (simp add: random_rr_def case_prod_beta handler_result_rr)

lemma random_law: "get_law 0 ups (random_handler rnd rp now ups pc rrp)"
  unfolding random_handler_def
proof (rule handler_view_law)
  let ?rp = "rp\<lparr>rp_rrp := rrp\<rparr>"
  have "random_usable now (ups ! rrp_peers (rp_rrp ?rp)) ?rp (p, i)"
    if "random_loop now (ups ! rrp_peers rrp) ?rp rnd 0 (rp_tries rp) = Some (n, Some (p, i))" for n p i
    using random_loop_eligible [OF that] by (simp add: random_usable_def)
  note random_found_result [OF this, of "random_loop now (ups ! rrp_peers rrp) ?rp rnd 0 (rp_tries rp)"]
  then show "handler_result now ups rrp (map_option (\<lambda>(rc, ups', pc', d). (rc, ups', pc', rp_rrp d))
     (ngx_http_upstream_get_random_peer rnd now ups pc ?rp))"
    using random_rr_result [of now ups ?rp pc]
    by (auto simp: ngx_http_upstream_get_random_peer_def Let_def handler_result_fault)
qed

lemma random2_law: "get_law 0 ups (random2_handler rnd rp now ups pc rrp)"
  unfolding random2_handler_def
proof (rule handler_view_law)
  let ?rp = "rp\<lparr>rp_rrp := rrp\<rparr>"
  have "random_usable now (ups ! rrp_peers (rp_rrp ?rp)) ?rp (p, i)"
    if "random2_loop now (ups ! rrp_peers rrp) ?rp rnd 0 (rp_tries rp) None = Some (n, Some (p, i))" for n p i
    using random2_loop_result [OF that, where P = "\<lambda>_. True"] by simp
  note random_found_result [OF this, of "random2_loop now (ups ! rrp_peers rrp) ?rp rnd 0 (rp_tries rp) None"]
  then show "handler_result now ups rrp (map_option (\<lambda>(rc, ups', pc', d). (rc, ups', pc', rp_rrp d))
     (ngx_http_upstream_get_random2_peer rnd now ups pc ?rp))"
    using random_rr_result [of now ups ?rp pc]
    by (auto simp: ngx_http_upstream_get_random2_peer_def Let_def handler_result_fault)
qed

interpretation rd: peer_balancer "random_handler rnd rp" for rnd rp
  by (rule peer_balancer_of_law) (rule random_law)

interpretation rd2: peer_balancer "random2_handler rnd rp" for rnd rp
  by (rule peer_balancer_of_law) (rule random2_law)

section \<open>The search and the walk\<close>

lemma random_ranges_length [simp]: "length (random_ranges ps i w) = length ps"
  by (induction ps arbitrary: i w) simp_all

lemma random_ranges_nth:
  assumes "k < length ps" "\<forall>p \<in> set ps. 0 < weight p" "0 \<le> w" "w + sum_list (map weight ps) < 2 ^ 63"
  shows "random_ranges ps i w ! k = \<lparr>rng_peer = i + k, rng_range = w + weight_before ps k\<rparr>"
  using assms
proof (induction ps arbitrary: i w k)
  case (Cons p ps)
  have s: "0 \<le> sum_list (map weight ps)" using Cons.prems(2) by (intro sum_list_nonneg) force
  then have "u64 (w + weight p) = w + weight p" using Cons.prems by (intro u64_id) auto
  then show ?case using Cons.IH [of _ "w + weight p" "Suc i"] Cons.prems by (cases k) (auto simp: add.assoc)
qed simp

lemma peek_search_interval:
  assumes "\<And>k. k < length ps \<Longrightarrow> rng_range (rs ! k) = weight_before ps k" "length rs = length ps"
    and "i < j" "j \<le> length ps" "weight_before ps i \<le> x" "x < weight_before ps j"
  shows "\<exists>k < length ps. peek_search rs x i j = Some k \<and> weight_before ps k \<le> x \<and> x < weight_before ps (Suc k)"
  using assms
proof (induction rs x i j rule: peek_search.induct)
  case (1 rs x i j)
  let ?k = "(i + j) div 2"
  show ?case
  proof (cases "j - i > 1")
    case True
    then have k: "i < ?k" "?k < j" "?k < length ps" using "1.prems" by auto
    show ?thesis
    proof (cases "x < weight_before ps ?k")
      case lt: True
      then show ?thesis using "1.IH"(1) [OF True refl] "1.prems" k True
        by (subst peek_search.simps) (simp add: Let_def)
    next
      case ge: False
      then show ?thesis using "1.IH"(2) [OF True refl] "1.prems" k True
        by (subst peek_search.simps) (simp add: Let_def)
    qed
  next
    case False
    then have "j = Suc i" using "1.prems" by auto
    then show ?thesis using False "1.prems" by (subst peek_search.simps) (auto intro!: exI [of _ i])
  qed
qed

lemma peek_walk:
  assumes g: "weights_fit g" "number g = length (peer g)" and r: "rcf_ranges (rp_conf rp) = Some (random_ranges (peer g) 0 0)"
  obtains k where "k < length (peer g)" "ngx_http_upstream_peek_random_peer r g rp = Some (k, k)" "hash_peer g (u64 r) = Some k"
    "designated (peer g) (u64 r) k"
proof -
  let ?x = "u64 r mod total_weight g" and ?rs = "random_ranges (peer g) 0 0"
  have w: "\<forall>p \<in> set (peer g). 0 < weight p" "total_weight g = sum_list (map weight (peer g))" "total_weight g < 2 ^ 63"
    using g(1) by (simp_all add: weights_fit_def)
  obtain k where k: "k < length (peer g)" "hash_peer g (u64 r) = Some k"
    "weight_before (peer g) k \<le> ?x" "?x < weight_before (peer g) (Suc k)"
    using walk_weights [OF g(1), of "u64 r"] u64_bounds by blast
  then have pos: "total_weight g \<noteq> 0" by (auto simp: hash_peer_def)
  have x: "0 \<le> ?x" "?x < weight_before (peer g) (length (peer g))"
    using k weight_before_mono [OF w(1), of 0 k] weight_before_mono [OF w(1), of "Suc k" "length (peer g)"] by auto
  have n: "?rs ! j = \<lparr>rng_peer = j, rng_range = weight_before (peer g) j\<rparr>" if "j < length (peer g)" for j
    using random_ranges_nth [OF that w(1), of 0 0] w(2,3) by simp
  obtain k' where k': "k' < length (peer g)" "peek_search ?rs ?x 0 (length (peer g)) = Some k'"
    "weight_before (peer g) k' \<le> ?x" "?x < weight_before (peer g) (Suc k')"
    using peek_search_interval [of "peer g" ?rs 0 "length (peer g)" ?x] n x k(1)
    by (metis length_greater_0_conv list.size(3) not_less_zero ngx_http_upstream_random_range_t.select_convs(2)
        order_refl random_ranges_length weight_before_simps(1))
  then have "k' = k" using k w by (intro designated_unique [of "peer g" "u64 r"]) (simp_all add: designated_def)
  then show thesis using that [of k] k k' n r g(2) pos w(2)
    by (simp add: ngx_http_upstream_peek_random_peer_def designated_def)
qed

section \<open>Properties\<close>

lemma get_random_designated:
  assumes g: "ups = g # rest" "\<not> single g" "weights_fit g" "number g = length (peer g)"
    and d: "rrp_peers (rp_rrp rp) = 0" "rp_tries rp \<le> 20" "rcf_ranges (rp_conf rp) = Some (random_ranges (peer g) 0 0)"
    and e: "\<And>k. k < length (peer g) \<Longrightarrow> rr_eligible now (tried (rp_rrp rp)) k (peer g ! k)"
  shows "\<exists>k ups' pc' rp'. ngx_http_upstream_get_random_peer rnd now ups pc rp = Some (NGX_OK, ups', pc', rp') \<and>
    current (rp_rrp rp') = Some k \<and> designated (peer g) (u64 (rnd 0)) k \<and> pc_sockaddr pc' = Some (peer_sockaddr (peer g ! k))"
proof -
  obtain k where k: "k < length (peer g)" "ngx_http_upstream_peek_random_peer (rnd 0) g rp = Some (k, k)"
    "designated (peer g) (u64 (rnd 0)) k"
    using peek_walk [OF g(3,4) d(3)] by metis
  have "random_loop now g rp rnd 0 (rp_tries rp) = Some (rp_tries rp, Some (k, k))"
    using k e by (subst random_loop.simps) simp
  then show ?thesis
    using k g d by (simp add: ngx_http_upstream_get_random_peer_def random_found_def Let_def use_peer_def pc_use_peer_def)
qed

lemma random_ranges_peer: "k < length ps \<Longrightarrow> rng_peer (random_ranges ps i w ! k) = i + k"
  by (induction ps arbitrary: i w k) (auto simp: nth_Cons split: nat.splits)

lemma peek_index:
  "rcf_ranges (rp_conf rp) = Some (random_ranges (peer g) 0 0) \<Longrightarrow> ngx_http_upstream_peek_random_peer r g rp = Some (i, p) \<Longrightarrow> i = p"
  by (auto simp: ngx_http_upstream_peek_random_peer_def random_ranges_peer split: option.splits if_splits)

lemma get_random2_less_loaded:
  assumes "ngx_http_upstream_get_random2_peer rnd now ups pc rp = Some (NGX_OK, ups', pc', rp')" "ups = g # rest"
    and "\<not> single g" "rp_tries rp \<le> 20" "rrp_peers (rp_rrp rp) = 0" "rp_tries rp' \<le> 20"
    and "rcf_ranges (rp_conf rp) = Some (random_ranges (peer g) 0 0)"
  shows "\<exists>k q. current (rp_rrp rp') = Some k \<and> q \<noteq> k \<and> k < length (peer g) \<and> q < length (peer g) \<and>
    rr_eligible now (tried (rp_rrp rp)) k (peer g ! k) \<and> rr_eligible now (tried (rp_rrp rp)) q (peer g ! q) \<and>
    u64 (conns (peer g ! k) * weight (peer g ! q)) \<le> u64 (conns (peer g ! q) * weight (peer g ! k))"
proof -
  let ?l = "random2_loop now g rp rnd 0 (rp_tries rp) None"
  have f: "random_found now ups (pc\<lparr>pc_cached := False, pc_connection := False\<rparr>) rp ?l = Some (NGX_OK, ups', pc', rp')"
    using assms by (simp add: ngx_http_upstream_get_random2_peer_def Let_def)
  obtain n p i where l: "?l = Some (n, Some (p, i))"
    using f random2_loop_tries [of now g rp rnd 0 "rp_tries rp" None] assms(6)
    by (auto simp: random_found_def random_rr_def split: option.splits prod.splits)
  then have c: "current (rp_rrp rp') = Some p"
    using f by (auto simp: random_found_def use_peer_def Let_def)
  obtain q where "random_usable now g rp (p, i)" "random_usable now g rp q" "p = i" "fst q = snd q" "fst q \<noteq> p"
    "u64 (conns (peer g ! p) * weight (peer g ! fst q)) \<le> u64 (conns (peer g ! fst q) * weight (peer g ! p))"
  proof -
    have "\<And>r i p. ngx_http_upstream_peek_random_peer r g rp = Some (i, p) \<Longrightarrow> fst (p, i) = snd (p, i)" using peek_index [OF assms(7)] by fastforce
    then show thesis using random2_loop_result [OF l, where P = "\<lambda>q. fst q = snd q"] that by auto
  qed
  then show ?thesis using c by (intro exI [of _ p] exI [of _ "fst q"]) (simp add: random_usable_def)
qed

text \<open>C33: the random balancer finds by a binary search of the running sums of the weights the peer that a
  walk over the weights finds: from the configuration of servers that are all up and unlimited, a new
  request gets the peer in whose interval of the total weight the random number falls, so that of
  every run of as many numbers as the total weight each peer has exactly its weight. The balancer of
  two choices, on any state with the ranges of its group, takes a peer that can be used (not tried by
  the request, not down, not failing, below its limit) and is not more loaded, in proportion to the
  weights, than another peer of the group that can be used, unless it runs out of tries and falls back
  to round robin.\<close>

theorem random_balancers_choice:
  "(us_servers us = Some ss \<longrightarrow> (\<forall>s \<in> set ss. server_ok s) \<longrightarrow> ps = rr_fill False ss \<longrightarrow> 2 \<le> length ps \<longrightarrow>
      sum_list (map weight ps) < 2 ^ 63 \<longrightarrow>
      ngx_http_upstream_init_random alloc resolve False us rcf = (NGX_OK, us1, rcf1) \<longrightarrow>
      ngx_http_upstream_init_random_peer alloc' False us1 rcf1 pc = (NGX_OK, pc1, rcf2, Some rp) \<longrightarrow>
      (\<exists>k ups' pc' rp'. ngx_http_upstream_get_random_peer rnd now (us_peer_data us1) pc1 rp = Some (NGX_OK, ups', pc', rp') \<and>
         current (rp_rrp rp') = Some k \<and> designated ps (u64 (rnd 0)) k \<and> pc_sockaddr pc' = Some (peer_sockaddr (ps ! k)))) \<and>
   (ngx_http_upstream_get_random2_peer rnd now (g # rest) pc rp = Some (NGX_OK, ups', pc', rp') \<longrightarrow>
      \<not> single g \<longrightarrow> rp_tries rp \<le> 20 \<longrightarrow> rrp_peers (rp_rrp rp) = 0 \<longrightarrow> rp_tries rp' \<le> 20 \<longrightarrow>
      rcf_ranges (rp_conf rp) = Some (random_ranges (peer g) 0 0) \<longrightarrow>
      (\<forall>p \<in> set (peer g). 0 \<le> conns p \<and> conns p < 2 ^ 32 \<and> 0 < weight p \<and> weight p < 2 ^ 32) \<longrightarrow>
      (\<exists>k q. current (rp_rrp rp') = Some k \<and> q \<noteq> k \<and> k < length (peer g) \<and> q < length (peer g) \<and>
         rr_eligible now (tried (rp_rrp rp)) k (peer g ! k) \<and> rr_eligible now (tried (rp_rrp rp)) q (peer g ! q) \<and>
         conns (peer g ! k) * weight (peer g ! q) \<le> conns (peer g ! q) * weight (peer g ! k)))"
proof (intro conjI impI)
  assume conf: "us_servers us = Some ss" "\<forall>s \<in> set ss. server_ok s" "ps = rr_fill False ss" "2 \<le> length ps" "sum_list (map weight ps) < 2 ^ 63"
    and i: "ngx_http_upstream_init_random alloc resolve False us rcf = (NGX_OK, us1, rcf1)"
    and p: "ngx_http_upstream_init_random_peer alloc' False us1 rcf1 pc = (NGX_OK, pc1, rcf2, Some rp)"
  have rr: "ngx_http_upstream_init_round_robin alloc resolve us = (NGX_OK, us1)"
    and u: "ngx_http_upstream_update_random (alloc 4) us1 rcf = (NGX_OK, rcf1)"
    using i by (auto simp: ngx_http_upstream_init_random_def split: prod.splits if_splits)
  obtain rrp where rrp: "ngx_http_upstream_init_round_robin_peer (\<lambda>k. alloc' (Suc k)) True us1 pc = (NGX_OK, pc1, Some rrp)"
    and d: "rp = \<lparr>rp_rrp = rrp, rp_conf = rcf1, rp_tries = 0\<rparr>"
    using p by (auto simp: ngx_http_upstream_init_random_peer_def split: if_splits prod.splits option.splits ngx_rc.splits)
  obtain g rest where g: "us_peer_data us1 = g # rest" "peer g = ps" "\<not> single g" "weights_fit g" "rrp_peers rrp = 0"
    "\<And>k. k < length ps \<Longrightarrow> rr_eligible now (tried rrp) k (ps ! k)"
    using configured_request [OF conf rr rrp] by metis
  have "number g = length ps" using configured_group [OF conf(1,2) rr] conf(3-5) g(1,2) by (metis list.inject)
  moreover have "rcf_ranges rcf1 = Some (random_ranges (peer g) 0 0)"
    using u g(1) by (auto simp: ngx_http_upstream_update_random_def split: if_splits)
  ultimately show "\<exists>k ups' pc' rp'. ngx_http_upstream_get_random_peer rnd now (us_peer_data us1) pc1 rp = Some (NGX_OK, ups', pc', rp') \<and>
     current (rp_rrp rp') = Some k \<and> designated ps (u64 (rnd 0)) k \<and> pc_sockaddr pc' = Some (peer_sockaddr (ps ! k))"
    using get_random_designated [of "us_peer_data us1" g rest rp now rnd pc1] g d by simp
next
  assume r: "ngx_http_upstream_get_random2_peer rnd now (g # rest) pc rp = Some (NGX_OK, ups', pc', rp')"
    "\<not> single g" "rp_tries rp \<le> 20" "rrp_peers (rp_rrp rp) = 0" "rp_tries rp' \<le> 20" "rcf_ranges (rp_conf rp) = Some (random_ranges (peer g) 0 0)"
    and b: "\<forall>p \<in> set (peer g). 0 \<le> conns p \<and> conns p < 2 ^ 32 \<and> 0 < weight p \<and> weight p < 2 ^ 32"
  obtain k q where k: "current (rp_rrp rp') = Some k" "q \<noteq> k" "k < length (peer g)" "q < length (peer g)"
    "rr_eligible now (tried (rp_rrp rp)) k (peer g ! k)" "rr_eligible now (tried (rp_rrp rp)) q (peer g ! q)"
    "u64 (conns (peer g ! k) * weight (peer g ! q)) \<le> u64 (conns (peer g ! q) * weight (peer g ! k))"
    using get_random2_less_loaded [OF r(1) refl r(2-6)] by blast
  have "u64 (conns x * weight y) = conns x * weight y" if "x \<in> set (peer g)" "y \<in> set (peer g)" for x y
  proof -
    have "conns x * weight y < 2 ^ 32 * 2 ^ 32" using b that by (intro mult_strict_mono) auto
    moreover have "0 \<le> conns x * weight y" using b that by (intro mult_nonneg_nonneg) (auto intro: less_imp_le)
    ultimately show ?thesis by (intro u64_id) auto
  qed
  then show "\<exists>k q. current (rp_rrp rp') = Some k \<and> q \<noteq> k \<and> k < length (peer g) \<and> q < length (peer g) \<and>
     rr_eligible now (tried (rp_rrp rp)) k (peer g ! k) \<and> rr_eligible now (tried (rp_rrp rp)) q (peer g ! q) \<and>
     conns (peer g ! k) * weight (peer g ! q) \<le> conns (peer g ! q) * weight (peer g ! k)"
    using k by (intro exI [of _ k] exI [of _ q]) simp
qed

theorem random_balancers_choice_witness:
  "let rcf = \<lparr>rcf_two = False, rcf_ranges = None\<rparr>;
       us1 = fst (snd (ngx_http_upstream_init_random (\<lambda>_. True) (\<lambda>_ _. None) False ex_us rcf));
       rcf1 = snd (snd (ngx_http_upstream_init_random (\<lambda>_. True) (\<lambda>_ _. None) False ex_us rcf));
       pd = ngx_http_upstream_init_random_peer (\<lambda>_. True) False us1 rcf1 ex_pc;
       rp = the (snd (snd (snd pd)));
       g = hd (us_peer_data us1)
   in (\<exists>k ups' pc' rp'. ngx_http_upstream_get_random_peer int 5 (us_peer_data us1) (fst (snd pd)) rp = Some (NGX_OK, ups', pc', rp') \<and>
         current (rp_rrp rp') = Some k \<and> designated (rr_fill False (the (us_servers ex_us))) (u64 (int 0)) k) \<and>
      (\<exists>k q. current (rp_rrp (snd (snd (snd (the (ngx_http_upstream_get_random2_peer int 5 [g] ex_pc rp)))))) = Some k \<and> q \<noteq> k \<and>
         conns (peer g ! k) * weight (peer g ! q) \<le> conns (peer g ! q) * weight (peer g ! k))"
proof -
  let ?rcf = "\<lparr>rcf_two = False, rcf_ranges = None\<rparr>" and ?ss = "the (us_servers ex_us)"
  let ?i = "ngx_http_upstream_init_random (\<lambda>_. True) (\<lambda>_ _. None) False ex_us ?rcf"
  let ?pd = "ngx_http_upstream_init_random_peer (\<lambda>_. True) False (fst (snd ?i)) (snd (snd ?i)) ex_pc"
  let ?rp = "the (snd (snd (snd ?pd)))" and ?g = "hd (us_peer_data (fst (snd ?i)))"
  let ?q = "ngx_http_upstream_get_random2_peer int 5 [?g] ex_pc ?rp"
  have "us_servers ex_us = Some ?ss" "\<forall>s \<in> set ?ss. server_ok s" "2 \<le> length (rr_fill False ?ss)" "sum_list (map weight (rr_fill False ?ss)) < 2 ^ 63"
    "fst ?i = NGX_OK" "fst ?pd = NGX_OK" "snd (snd (snd ?pd)) \<noteq> None" "?q \<noteq> None" "fst (the ?q) = NGX_OK"
    by code_simp+
  then have c: "us_servers ex_us = Some ?ss" "\<forall>s \<in> set ?ss. server_ok s" "2 \<le> length (rr_fill False ?ss)" "sum_list (map weight (rr_fill False ?ss)) < 2 ^ 63"
    and i: "?i = (NGX_OK, fst (snd ?i), snd (snd ?i))" "?pd = (NGX_OK, fst (snd ?pd), fst (snd (snd ?pd)), Some ?rp)"
    and q: "?q = Some (NGX_OK, fst (snd (the ?q)), fst (snd (snd (the ?q))), snd (snd (snd (the ?q))))"
    by (metis prod.collapse, blast, blast, blast, metis prod.collapse, metis option.collapse prod.collapse, metis option.collapse prod.collapse)
  have r: "\<not> single ?g" "rp_tries ?rp \<le> 20" "rrp_peers (rp_rrp ?rp) = 0" "rp_tries (snd (snd (snd (the ?q)))) \<le> 20"
    "rcf_ranges (rp_conf ?rp) = Some (random_ranges (peer ?g) 0 0)"
    "\<forall>p \<in> set (peer ?g). 0 \<le> conns p \<and> conns p < 2 ^ 32 \<and> 0 < weight p \<and> weight p < 2 ^ 32"
    by code_simp+
  note T = random_balancers_choice [of ex_us ?ss "rr_fill False ?ss" "\<lambda>_. True" "\<lambda>_ _. None" ?rcf "fst (snd ?i)" "snd (snd ?i)"
        "\<lambda>_. True" ex_pc "fst (snd ?pd)" "fst (snd (snd ?pd))" ?rp int 5 ?g "[]"]
  note fst = T [THEN conjunct1, THEN mp, OF c(1), THEN mp, OF c(2), THEN mp, OF refl, THEN mp, OF c(3), THEN mp, OF c(4), THEN mp, OF i(1),
      THEN mp, OF i(2)]
  note snd = T [THEN conjunct2, THEN mp, OF q, THEN mp, OF r(1), THEN mp, OF r(2), THEN mp, OF r(3), THEN mp, OF r(4), THEN mp, OF r(5), THEN mp, OF r(6)]
  show ?thesis unfolding Let_def by (rule conjI) (use fst in blast, use snd in blast)
qed

end
