(* ===== verification/Ngx_Chash.thy ===== *)
theory Ngx_Chash
  imports Ngx_Hash_Balancer Ngx_String
begin

text \<open>
  The consistent method of the key balancer
  (src/nginx/src/http/modules/ngx_http_upstream_hash_module.c): every server has 160 points per unit
  of weight on the circle of 32-bit hashes; a key belongs to the server of the first point that is
  not before its hash. The table of points is built by the configuration, sorted and searched by
  halving.

  The library function \<^verbatim>\<open>qsort\<close> is an argument; what the code relies on is that it returns a sorted
  permutation. A handler returns none where the code would write past the memory of the table.
\<close>

section \<open>The table of points\<close>

record ngx_http_upstream_chash_point_t =
  pt_hash :: "32 word"
  pt_server :: string

text \<open>The scan for the port, from the end of the name: the number of digits after a colon.\<close>

function chash_scan :: "u_char list \<Rightarrow> nat \<Rightarrow> nat option" where
  "chash_scan s j =
     (if j < length s then
        let c = s ! (length s - j - 1)
        in if c = 0x3a then Some j
           else if c < 0x30 \<or> c > 0x39 then None
           else chash_scan s (Suc j)
      else None)"
  by pat_completeness auto
termination
  by (relation "measure (\<lambda>(s, j). length s - j)") auto

declare chash_scan.simps [simp del]

text \<open>Host and port of the name of a server.\<close>

definition chash_host_port :: "u_char list \<Rightarrow> u_char list \<times> u_char list" where
  "chash_host_port s =
     (if length s \<ge> 5 \<and> ngx_strncasecmp s (bytes ''unix:'') 5 = Some 0 then (drop 5 s, [])
      else case chash_scan s 0 of
             Some j \<Rightarrow> (take (length s - j - 1) s, drop (length s - j) s)
           | None \<Rightarrow> (s, []))"

definition chash_base :: "u_char list \<Rightarrow> 32 word" where
  "chash_base s =
     (case chash_host_port s of
        (host, port) \<Rightarrow> ngx_crc32_update (ngx_crc32_update (ngx_crc32_update ngx_crc32_init host) [0]) port)"

text \<open>The bytes of \<^verbatim>\<open>prev_hash\<close>, the lowest first on every machine.\<close>

definition prev_hash_bytes :: "32 word \<Rightarrow> u_char list" where
  "prev_hash_bytes h = [ucast h, ucast (drop_bit 8 h), ucast (drop_bit 16 h), ucast (drop_bit 24 h)]"

fun chash_points :: "string \<Rightarrow> 32 word \<Rightarrow> 32 word \<Rightarrow> nat \<Rightarrow> ngx_http_upstream_chash_point_t list" where
  "chash_points server base prev 0 = []"
| "chash_points server base prev (Suc n) =
     (let hash = ngx_crc32_final (ngx_crc32_update base (prev_hash_bytes prev))
      in \<lparr>pt_hash = hash, pt_server = server\<rparr> # chash_points server base hash n)"

definition peer_points :: "ngx_http_upstream_rr_peer_t \<Rightarrow> ngx_http_upstream_chash_point_t list" where
  "peer_points p = chash_points (peer_server p) (chash_base (bytes (peer_server p))) 0 (nat (u64 (weight p * 160)))"

definition ngx_http_upstream_chash_cmp_points ::
    "ngx_http_upstream_chash_point_t \<Rightarrow> ngx_http_upstream_chash_point_t \<Rightarrow> int" where
  "ngx_http_upstream_chash_cmp_points first second =
     (if pt_hash first < pt_hash second then -1 else if pt_hash first > pt_hash second then 1 else 0)"

text \<open>The loop that drops, in place, points with the hash of the point before.\<close>

function chash_unique :: "ngx_http_upstream_chash_point_t list \<Rightarrow> nat \<Rightarrow> nat \<Rightarrow> ngx_http_upstream_chash_point_t list \<times> nat" where
  "chash_unique pts i j =
     (if j < length pts then
        if pt_hash (pts ! i) \<noteq> pt_hash (pts ! j) then chash_unique (pts[Suc i := pts ! j]) (Suc i) (Suc j)
        else chash_unique pts i (Suc j)
      else (pts, i))"
  by pat_completeness auto
termination
  by (relation "measure (\<lambda>(pts, i, j). length pts - j)") auto

declare chash_unique.simps [simp del]

text \<open>The table has the memory of \<^verbatim>\<open>total_weight * 160\<close> points of 16 bytes after the count. The result has the
  return code, the upstream and the points.\<close>

definition ngx_http_upstream_init_chash ::
    "(nat \<Rightarrow> bool) \<Rightarrow> (string \<Rightarrow> nat \<Rightarrow> ngx_addr_t list option)
       \<Rightarrow> ((ngx_http_upstream_chash_point_t \<Rightarrow> ngx_http_upstream_chash_point_t \<Rightarrow> int)
             \<Rightarrow> ngx_http_upstream_chash_point_t list \<Rightarrow> ngx_http_upstream_chash_point_t list)
       \<Rightarrow> ngx_http_upstream_srv_conf_t
       \<Rightarrow> (ngx_rc \<times> ngx_http_upstream_srv_conf_t \<times> ngx_http_upstream_chash_point_t list) option" where
  "ngx_http_upstream_init_chash alloc resolve qsort us =
     (case ngx_http_upstream_init_round_robin alloc resolve us of
        (rc, us') \<Rightarrow>
          if rc \<noteq> NGX_OK then Some (NGX_ERROR, us', [])
          else case us_peer_data us' of
                 [] \<Rightarrow> None
               | peers # _ \<Rightarrow>
                   let npoints = u64 (total_weight peers * 160);
                       size = u64 (24 + 16 * (npoints - 1))
                   in if \<not> alloc 4 then Some (NGX_ERROR, us', [])
                      else
                        let pts = concat (map peer_points (peer peers))
                        in if pts = [] \<or> size < 8 + 16 * int (length pts) then None
                           else
                             case chash_unique (qsort ngx_http_upstream_chash_cmp_points pts) 0 1 of
                               (pts', i) \<Rightarrow> Some (NGX_OK, us', take (i + 1) pts'))"

section \<open>Searching the table\<close>

function find_chash_search :: "ngx_http_upstream_chash_point_t list \<Rightarrow> 32 word \<Rightarrow> nat \<Rightarrow> nat \<Rightarrow> nat" where
  "find_chash_search pts hash i j =
     (if i < j then
        let k = (i + j) div 2
        in if hash > pt_hash (pts ! k) then find_chash_search pts hash (k + 1) j
           else if hash < pt_hash (pts ! k) then find_chash_search pts hash i k
           else k
      else i)"
  by pat_completeness auto
termination
  by (relation "measure (\<lambda>(pts, hash, i, j). j - i)") auto

declare find_chash_search.simps [simp del]

definition ngx_http_upstream_find_chash_point :: "ngx_http_upstream_chash_point_t list \<Rightarrow> 32 word \<Rightarrow> nat" where
  "ngx_http_upstream_find_chash_point pts hash = find_chash_search pts hash 0 (length pts)"

section \<open>Requests\<close>

definition ngx_http_upstream_init_chash_peer ::
    "(nat \<Rightarrow> bool) \<Rightarrow> u_char list option \<Rightarrow> ngx_http_upstream_srv_conf_t \<Rightarrow> ngx_http_upstream_chash_point_t list
       \<Rightarrow> ngx_peer_connection_t \<Rightarrow> ngx_rc \<times> ngx_peer_connection_t \<times> ngx_http_upstream_hash_peer_data_t option" where
  "ngx_http_upstream_init_chash_peer alloc key us points pc =
     (case ngx_http_upstream_init_hash_peer alloc key us pc of
        (NGX_OK, pc', Some hp) \<Rightarrow>
          let hash = ngx_crc32_long (hp_key hp)
          in (NGX_OK, pc', Some (hp\<lparr>hp_hash := int (ngx_http_upstream_find_chash_point points hash) mod 2 ^ 32\<rparr>))
      | (rc, pc', hp) \<Rightarrow> (NGX_ERROR, pc', None))"

text \<open>Whether a peer belongs to the server of a point.\<close>

definition same_server :: "string \<Rightarrow> string \<Rightarrow> bool" where
  "same_server a b \<longleftrightarrow> length a = length b \<and> ngx_strncmp (bytes a) (bytes b) (length b) = Some 0"

definition chash_eligible :: "int \<Rightarrow> 64 word list \<Rightarrow> string \<Rightarrow> nat \<Rightarrow> ngx_http_upstream_rr_peer_t \<Rightarrow> bool" where
  "chash_eligible now t server i p \<longleftrightarrow> rr_eligible now t i p \<and> same_server (peer_server p) server"

function chash_loop ::
    "int \<Rightarrow> 64 word list \<Rightarrow> string \<Rightarrow> nat \<Rightarrow> ngx_http_upstream_rr_peer_t list \<Rightarrow> nat option \<Rightarrow> int
       \<Rightarrow> ngx_http_upstream_rr_peer_t list \<times> nat option \<times> int" where
  "chash_loop now t server i ps best tot =
     (if i < length ps then
        (let p = ps ! i
         in if \<not> chash_eligible now t server i p then chash_loop now t server (Suc i) ps best tot
            else
              let ps' = ps[i := rr_bump p];
                  tot' = i64 (tot + effective_weight p)
              in chash_loop now t server (Suc i) ps' (rr_better ps' best i) tot')
      else (ps, best, tot))"
  by pat_completeness auto
termination
  by (relation "measure (\<lambda>(now, t, server, i, ps, best, tot). length ps - i)") auto

declare chash_loop.simps [simp del]

text \<open>The outer loop: the peers after it and, unless there were too many tries, the best peer.\<close>

function chash_search ::
    "int \<Rightarrow> ngx_http_upstream_chash_point_t list \<Rightarrow> ngx_http_upstream_rr_peer_t list \<Rightarrow> ngx_http_upstream_hash_peer_data_t
       \<Rightarrow> ngx_http_upstream_hash_peer_data_t \<times> ngx_http_upstream_rr_peer_t list \<times> nat option" where
  "chash_search now points ps hp =
     (let server = pt_server (points ! nat (hp_hash hp mod int (length points)))
      in case chash_loop now (tried (hp_rrp hp)) server 0 ps None 0 of
           (ps', Some b, tot) \<Rightarrow>
             (hp, ps'[b := (ps' ! b)\<lparr>current_weight := i64 (current_weight (ps' ! b) - tot)\<rparr>], Some b)
         | (ps', None, tot) \<Rightarrow>
             let hp = hp\<lparr>hp_hash := (hp_hash hp + 1) mod 2 ^ 32, hp_tries := Suc (hp_tries hp)\<rparr>
             in if hp_tries hp > 20 then (hp, ps', None) else chash_search now points ps' hp)"
  by pat_completeness auto
termination
  by (relation "measure (\<lambda>(now, points, ps, hp). 21 - hp_tries hp)") auto

declare chash_search.simps [simp del]

definition ngx_http_upstream_get_chash_peer ::
    "ngx_http_upstream_chash_point_t list \<Rightarrow> int \<Rightarrow> rr_chain \<Rightarrow> ngx_peer_connection_t \<Rightarrow> ngx_http_upstream_hash_peer_data_t
       \<Rightarrow> (ngx_rc \<times> rr_chain \<times> ngx_peer_connection_t \<times> ngx_http_upstream_hash_peer_data_t) option" where
  "ngx_http_upstream_get_chash_peer points now ups pc hp =
     (let g = rrp_peers (hp_rrp hp); peers = ups ! g
      in if hp_tries hp > 20 \<or> single peers \<or> hp_key hp = [] then Some (hash_rr now ups pc hp)
         else if points = [] then None
         else
           let pc = pc\<lparr>pc_cached := False, pc_connection := False\<rparr>
           in case chash_search now points (peer peers) hp of
                (hp, ps, None) \<Rightarrow> Some (hash_rr now (ups[g := peers\<lparr>peer := ps\<rparr>]) pc hp)
              | (hp, ps, Some b) \<Rightarrow>
                  (case use_peer now (ups[g := peers\<lparr>peer := ps\<rparr>]) pc (hp_rrp hp) b b of
                     (ups', pc', rrp') \<Rightarrow> Some (NGX_OK, ups', pc', hp\<lparr>hp_rrp := rrp'\<rparr>)))"

section \<open>The balancer contract\<close>

definition chash_handler ::
    "ngx_http_upstream_chash_point_t list \<Rightarrow> ngx_http_upstream_hash_peer_data_t \<Rightarrow> get_handler" where
  "chash_handler points hp =
     handler_view hp_rrp (\<lambda>now ups pc rrp. ngx_http_upstream_get_chash_peer points now ups pc (hp\<lparr>hp_rrp := rrp\<rparr>))"

text \<open>The inner loop is the loop of round robin with the peers of other servers marked as tried.\<close>

lemma mark_exists:
  assumes "n \<le> 64 * m"
  obtains t where "length t = m" "\<And>i. i < n \<Longrightarrow> tried_bit t i = P i"
proof -
  have "\<exists>t. length t = m \<and> (\<forall>i < 64 * m. tried_bit t i = (i < k \<and> P i))" for k
  proof (induction k)
    case 0
    then show ?case by (intro exI [of _ "replicate m 0"]) (auto simp: tried_bit_iff)
  next
    case (Suc k)
    then obtain t where t: "length t = m" "\<And>i. i < 64 * m \<Longrightarrow> tried_bit t i = (i < k \<and> P i)" by auto
    show ?case
    proof (cases "P k \<and> k < 64 * m")
      case True
      then have "k div 64 < length t" using t(1) by auto
      then show ?thesis using True t tried_bit_set [of k t] by (intro exI [of _ "tried_set t k"]) (auto simp: less_Suc_eq)
    next
      case False
      then show ?thesis using t by (intro exI [of _ t]) (auto simp: less_Suc_eq)
    qed
  qed
  from this [of n] show thesis using that assms by auto
qed

lemma rr_bump_server [simp]: "peer_server (rr_bump p) = peer_server p"
  by (simp add: rr_bump_def Let_def)

lemma chash_loop_rr:
  assumes "\<And>j. j < length ps \<Longrightarrow> tried_bit t' j \<longleftrightarrow> tried_bit t j \<or> \<not> same_server (peer_server (ps ! j)) server"
  shows "chash_loop now t server i ps best tot = rr_loop now t' i ps best tot"
  using assms
proof (induction now t server i ps best tot rule: chash_loop.induct)
  case (1 now t server i ps best tot)
  have e: "chash_eligible now t server i (ps ! i) = rr_eligible now t' i (ps ! i)" if "i < length ps"
    using "1.prems" [OF that] by (auto simp: chash_eligible_def rr_eligible_def)
  show ?case
  proof (cases "i < length ps")
    case True
    show ?thesis
    proof (cases "chash_eligible now t server i (ps ! i)")
      case el: True
      have "chash_loop now t server (Suc i) (ps[i := rr_bump (ps ! i)]) (rr_better (ps[i := rr_bump (ps ! i)]) best i) (i64 (tot + effective_weight (ps ! i)))
          = rr_loop now t' (Suc i) (ps[i := rr_bump (ps ! i)]) (rr_better (ps[i := rr_bump (ps ! i)]) best i) (i64 (tot + effective_weight (ps ! i)))"
        by (rule "1.IH"(2) [OF True refl _ refl refl]) (use el "1.prems" in \<open>auto simp: nth_list_update_if\<close>)
      then show ?thesis using True el e by (subst chash_loop.simps) (simp add: rr_loop_take Let_def)
    next
      case False
      then show ?thesis using True e "1.IH"(1) [OF True refl False] "1.prems" by (subst chash_loop.simps) (simp add: rr_loop_skip)
    qed
  next
    case False
    then show ?thesis by (subst chash_loop.simps) (simp add: rr_loop_done)
  qed
qed

text \<open>So what the selection of round robin does holds for it too.\<close>

lemma chash_loop_result:
  assumes "chash_loop now t server 0 ps None 0 = (ps', b, tot)"
  shows "b = None \<Longrightarrow> ps' = ps \<and> (\<forall>j < length ps. \<not> chash_eligible now t server j (ps ! j))"
    and "b = Some k \<Longrightarrow> k < length ps \<and> chash_eligible now t server k (ps ! k) \<and>
      map conns ps' = map conns ps \<and> map peer_static ps' = map peer_static ps \<and>
      ((\<forall>p \<in> set ps. peer_weights_ok p) \<longrightarrow> (\<forall>p \<in> set ps'. peer_weights_ok p))"
proof -
  have "length ps \<le> 64 * length ps" by simp
  then obtain t' where t': "\<And>j. j < length ps \<Longrightarrow> tried_bit t' j \<longleftrightarrow> tried_bit t j \<or> \<not> same_server (peer_server (ps ! j)) server"
    by (rule mark_exists [where P = "\<lambda>j. tried_bit t j \<or> \<not> same_server (peer_server (ps ! j)) server"]) blast
  have e: "rr_eligible now t' j (ps ! j) = chash_eligible now t server j (ps ! j)" if "j < length ps" for j
    using t' [OF that] by (auto simp: rr_eligible_def chash_eligible_def)
  have l: "rr_loop now t' 0 ps None 0 = (ps', b, tot)" using chash_loop_rr [OF t'] assms by simp
  let ?rrp = "\<lparr>config = 0, rrp_peers = 0, current = None, tried = t'\<rparr>"
  show "ps' = ps \<and> (\<forall>j < length ps. \<not> chash_eligible now t server j (ps ! j))" if "b = None"
    using get_peer_none [of now ps ?rrp] l that e by (simp add: ngx_http_upstream_get_peer_def)
  have ps': "ps' = map (rr_bumped now t' 0 ps) [0..<length ps]" using rr_loop_peers [of now t' 0 ps None 0] l by simp
  assume b: "b = Some k"
  have "ngx_http_upstream_get_peer now ps ?rrp = (Some k, ps'[k := peer_touch now ((ps' ! k)\<lparr>current_weight := i64 (current_weight (ps' ! k) - tot)\<rparr>)],
      ?rrp\<lparr>current := Some k, tried := tried_set t' k\<rparr>)"
    using l b by (simp add: ngx_http_upstream_get_peer_def Let_def)
  then have "k < length ps" "rr_eligible now t' k (ps ! k)" using get_peer_some(1,2) by fastforce+
  moreover have "\<forall>p \<in> set ps'. peer_weights_ok p" if "\<forall>p \<in> set ps. peer_weights_ok p"
    using that by (auto simp: ps' intro!: rr_bumped_weights_ok)
  ultimately show "k < length ps \<and> chash_eligible now t server k (ps ! k) \<and>
      map conns ps' = map conns ps \<and> map peer_static ps' = map peer_static ps \<and>
      ((\<forall>p \<in> set ps. peer_weights_ok p) \<longrightarrow> (\<forall>p \<in> set ps'. peer_weights_ok p))"
    using e map_rr_bumped [of conns now t' 0 ps] map_rr_bumped [of peer_static now t' 0 ps] by (simp add: ps' del: map_map)
qed

lemma chash_search_result:
  assumes "chash_search now points ps hp = (hp', ps', b)"
  shows "hp_rrp hp' = hp_rrp hp" and "b = None \<Longrightarrow> ps' = ps"
    and "b = Some k \<Longrightarrow> k < length ps \<and> rr_eligible now (tried (hp_rrp hp)) k (ps ! k) \<and>
      map conns ps' = map conns ps \<and> map peer_static ps' = map peer_static ps \<and>
      ((\<forall>p \<in> set ps. peer_weights_ok p) \<longrightarrow> (\<forall>p \<in> set ps'. peer_weights_ok p))"
proof -
  have "hp_rrp hp' = hp_rrp hp \<and> (b = None \<longrightarrow> ps' = ps) \<and> (\<forall>k. b = Some k \<longrightarrow>
      k < length ps \<and> rr_eligible now (tried (hp_rrp hp)) k (ps ! k) \<and>
      map conns ps' = map conns ps \<and> map peer_static ps' = map peer_static ps \<and>
      ((\<forall>p \<in> set ps. peer_weights_ok p) \<longrightarrow> (\<forall>p \<in> set ps'. peer_weights_ok p)))"
    using assms
  proof (induction now points ps hp rule: chash_search.induct)
    case (1 now points ps hp)
    let ?server = "pt_server (points ! nat (hp_hash hp mod int (length points)))"
    let ?hp = "hp\<lparr>hp_hash := (hp_hash hp + 1) mod 2 ^ 32, hp_tries := Suc (hp_tries hp)\<rparr>"
    obtain qs r tot where l: "chash_loop now (tried (hp_rrp hp)) ?server 0 ps None 0 = (qs, r, tot)" by (metis prod_cases3)
    note L = chash_loop_result [OF l]
    show ?case
    proof (cases r)
      case None
      have qs: "qs = ps" using L(1) None by simp
      show ?thesis
      proof (cases "hp_tries hp \<ge> 20")
        case True
        then show ?thesis using "1.prems" l None qs by (subst (asm) chash_search.simps) (auto simp: Let_def)
      next
        case False
        then have "chash_search now points ps ?hp = (hp', ps', b)"
          using "1.prems" l None qs by (subst (asm) chash_search.simps) (simp add: Let_def)
        then show ?thesis using "1.IH" [OF refl l [symmetric] refl None refl] False qs by simp
      qed
    next
      case (Some k)
      let ?p = "(qs ! k)\<lparr>current_weight := i64 (current_weight (qs ! k) - tot)\<rparr>"
      have r: "hp' = hp" "ps' = qs[k := ?p]" "b = Some k"
        using "1.prems" l Some by (subst (asm) chash_search.simps, simp add: Let_def)+
      have q: "k < length ps" "chash_eligible now (tried (hp_rrp hp)) ?server k (ps ! k)" "map conns qs = map conns ps" "map peer_static qs = map peer_static ps"
        "(\<forall>p \<in> set ps. peer_weights_ok p) \<longrightarrow> (\<forall>p \<in> set qs. peer_weights_ok p)"
        using L(2) Some by simp_all
      have k: "k < length qs" using q(1,3) by (metis length_map)
      have "(\<forall>p \<in> set ps. peer_weights_ok p) \<longrightarrow> (\<forall>p \<in> set ps'. peer_weights_ok p)"
        using q(5) k ball_update [of qs peer_weights_ok ?p k] by (auto simp: r(2))
      moreover have "map conns ps' = map conns qs" "map peer_static ps' = map peer_static qs"
        using k by (simp_all add: r(2) map_update_same)
      ultimately show ?thesis using r q by (simp add: chash_eligible_def)
    qed
  qed
  then show "hp_rrp hp' = hp_rrp hp" and "b = None \<Longrightarrow> ps' = ps"
    and "b = Some k \<Longrightarrow> k < length ps \<and> rr_eligible now (tried (hp_rrp hp)) k (ps ! k) \<and>
      map conns ps' = map conns ps \<and> map peer_static ps' = map peer_static ps \<and>
      ((\<forall>p \<in> set ps. peer_weights_ok p) \<longrightarrow> (\<forall>p \<in> set ps'. peer_weights_ok p))"
    by blast+
qed

text \<open>Taking a peer after a choice that changed the weights.\<close>

lemma use_peer_after:
  assumes g: "rrp_peers rrp < length ups" and k: "k < length (peer (ups ! rrp_peers rrp))" "rr_eligible now t k (peer (ups ! rrp_peers rrp) ! k)"
    and ps: "map conns ps = map conns (peer (ups ! rrp_peers rrp))" "map peer_static ps = map peer_static (peer (ups ! rrp_peers rrp))"
      "(\<forall>p \<in> set (peer (ups ! rrp_peers rrp)). peer_weights_ok p) \<longrightarrow> (\<forall>p \<in> set ps. peer_weights_ok p)"
  shows "handler_result now ups rrp (Some (NGX_OK, use_peer now (ups[rrp_peers rrp := (ups ! rrp_peers rrp)\<lparr>peer := ps\<rparr>]) pc rrp k i))"
proof -
  let ?g = "rrp_peers rrp" and ?ps = "ps[k := peer_touch now (ps ! k)]"
  let ?rrp = "rrp\<lparr>current := Some k, tried := tried_set (tried rrp) i\<rparr>"
  have k': "k < length ps" using k(1) ps(1) by (metis length_map)
  then have "(\<forall>p \<in> set ps. peer_weights_ok p) \<longrightarrow> (\<forall>p \<in> set ?ps. peer_weights_ok p)"
    using ball_update [of ps peer_weights_ok "peer_touch now (ps ! k)" k] by simp
  then have c: "choice_ok (peer (ups ! ?g)) rrp (Some k, ?ps, ?rrp)"
    using k k' ps by (simp add: map_update_same rr_eligible_def)
  have "peer_touch now (peer_acquire x) = peer_acquire (peer_touch now x)" for x
    by (simp add: peer_touch_def peer_acquire_def)
  then have "use_peer now (ups[?g := (ups ! ?g)\<lparr>peer := ps\<rparr>]) pc rrp k i = (taken ups ?g ?ps k, pc_use_peer (ps ! k) pc, ?rrp)"
    using g k' by (simp add: use_peer_def taken_def Let_def)
  then show ?thesis using c unfolding handler_result_def by blast
qed

lemma chash_law: "get_law 0 ups (chash_handler points hp now ups pc rrp)"
  unfolding chash_handler_def
proof (rule handler_view_law)
  assume g: "rrp_peers rrp < length ups"
  let ?ps = "peer (ups ! rrp_peers rrp)"
  obtain h ps b where l: "chash_search now points ?ps (hp\<lparr>hp_rrp := rrp\<rparr>) = (h, ps, b)" by (metis prod_cases3)
  note L = chash_search_result [OF l]
  note defs = ngx_http_upstream_get_chash_peer_def hash_rr_def Let_def case_prod_beta
  consider "hp_tries hp > 20 \<or> single (ups ! rrp_peers rrp) \<or> hp_key hp = [] \<or> points = []" | "b = None" | k where "b = Some k" by blast
  then show "handler_result now ups rrp (map_option (\<lambda>(rc, ups', pc', d). (rc, ups', pc', hp_rrp d))
     (ngx_http_upstream_get_chash_peer points now ups pc (hp\<lparr>hp_rrp := rrp\<rparr>)))"
  proof cases
    case 1
    then show ?thesis by (auto simp: defs handler_result_rr handler_result_fault)
  next
    case 2
    have "(ups ! rrp_peers rrp)\<lparr>peer := ?ps\<rparr> = ups ! rrp_peers rrp" by simp
    then show ?thesis using 2 l L(1,2) by (simp add: defs handler_result_rr handler_result_fault)
  next
    case 3
    note K = L(3) [OF 3]
    show ?thesis using 3 l L(1) use_peer_after [OF g, of k now "tried rrp" ps] K
      by (simp add: defs handler_result_rr handler_result_fault)
  qed
qed

interpretation ch: peer_balancer "chash_handler points hp" for points hp
  by (rule peer_balancer_of_law) (rule chash_law)

section \<open>The search\<close>

text \<open>The successor of a hash on the circle.\<close>

definition circle_succ :: "32 word set \<Rightarrow> 32 word \<Rightarrow> 32 word" where
  "circle_succ H h = (if \<exists>v \<in> H. h \<le> v then Min {v \<in> H. h \<le> v} else Min H)"

lemma circle_succ_in: "finite H \<Longrightarrow> H \<noteq> {} \<Longrightarrow> circle_succ H h \<in> H"
  using Min_in [of "{v \<in> H. h \<le> v}"] by (auto simp: circle_succ_def)

text \<open>A smaller set that still has the successor has the same successor.\<close>

lemma circle_succ_subset:
  assumes "finite H" "H' \<subseteq> H" "circle_succ H h \<in> H'"
  shows "circle_succ H' h = circle_succ H h"
proof (cases "\<exists>v \<in> H. h \<le> v")
  case True
  let ?m = "Min {v \<in> H. h \<le> v}"
  have m: "circle_succ H h = ?m" using True by (simp add: circle_succ_def)
  have "?m \<in> {v \<in> H. h \<le> v}" using True assms(1) by (intro Min_in) auto
  then have "h \<le> ?m" "?m \<in> H'" using assms(3) m by auto
  moreover have "Min {v \<in> H'. h \<le> v} = ?m"
    using assms calculation by (intro Min_eqI) (auto intro: finite_subset)
  ultimately show ?thesis using m by (auto simp: circle_succ_def)
next
  case False
  then have "circle_succ H h = Min H" "\<not> (\<exists>v \<in> H'. h \<le> v)" using assms(2) by (auto simp: circle_succ_def)
  moreover have "Min H' = Min H"
    using assms calculation(1) by (intro Min_eqI) (auto intro: finite_subset)
  ultimately show ?thesis by (simp add: circle_succ_def)
qed

lemma find_chash_search_first:
  assumes "sorted_wrt (\<lambda>p q. pt_hash p < pt_hash q) pts" "i \<le> j" "j \<le> length pts"
    and "\<And>k. k < i \<Longrightarrow> pt_hash (pts ! k) < h" "\<And>k. j \<le> k \<Longrightarrow> k < length pts \<Longrightarrow> h \<le> pt_hash (pts ! k)"
  shows "find_chash_search pts h i j \<le> length pts \<and> (\<forall>k < find_chash_search pts h i j. pt_hash (pts ! k) < h) \<and>
     (\<forall>k < length pts. find_chash_search pts h i j \<le> k \<longrightarrow> h \<le> pt_hash (pts ! k))"
  using assms
proof (induction pts h i j rule: find_chash_search.induct)
  case (1 pts h i j)
  let ?k = "(i + j) div 2"
  have mono: "pt_hash (pts ! a) < pt_hash (pts ! b)" if "a < b" "b < length pts" for a b
    using "1.prems"(1) that by (simp add: sorted_wrt_iff_nth_less)
  show ?case
  proof (cases "i < j")
    case True
    then have k: "i \<le> ?k" "?k < j" "?k < length pts" using "1.prems" by auto
    consider (gt) "h > pt_hash (pts ! ?k)" | (lt) "h < pt_hash (pts ! ?k)" | (eq) "h = pt_hash (pts ! ?k)" by force
    then show ?thesis
    proof cases
      case gt
      have lo: "pt_hash (pts ! a) < h" if "a < ?k + 1" for a
        using that gt mono [of a ?k] k by (cases "a = ?k") auto
      have eq: "find_chash_search pts h i j = find_chash_search pts h (?k + 1) j"
        unfolding find_chash_search.simps [of pts h i j] Let_def if_P [OF True] if_P [OF gt] ..
      have le: "?k + 1 \<le> j" using k(2) by simp
      show ?thesis unfolding eq by (rule "1.IH"(1) [OF True refl gt "1.prems"(1) le "1.prems"(3) lo "1.prems"(5)])
    next
      case lt
      have hi: "h \<le> pt_hash (pts ! a)" if "?k \<le> a" "a < length pts" for a
        using that lt mono [of ?k a] k by (cases "a = ?k") auto
      have ng: "\<not> h > pt_hash (pts ! ?k)" using lt by (rule less_not_sym)
      have eq: "find_chash_search pts h i j = find_chash_search pts h i ?k"
        unfolding find_chash_search.simps [of pts h i j] Let_def if_P [OF True] if_not_P [OF ng] if_P [OF lt] ..
      show ?thesis unfolding eq
        by (rule "1.IH"(2) [OF True refl ng lt "1.prems"(1) k(1) less_imp_le [OF k(3)] "1.prems"(4) hi])
    next
      case eq
      have "find_chash_search pts h i j = ?k"
        unfolding find_chash_search.simps [of pts h i j] Let_def if_P [OF True] using eq by simp
      moreover have "h \<le> pt_hash (pts ! a)" if "?k \<le> a" "a < length pts" for a
        using that eq mono [of ?k a] by (cases "a = ?k") auto
      ultimately show ?thesis using k eq mono by auto
    qed
  next
    case False
    then have "find_chash_search pts h i j = i" by (simp add: find_chash_search.simps [of pts h i j])
    moreover have "j = i" using False "1.prems"(2) by simp
    ultimately show ?thesis using "1.prems" by auto
  qed
qed

lemma find_chash_point_circle:
  assumes "sorted_wrt (\<lambda>p q. pt_hash p < pt_hash q) pts" "pts \<noteq> []"
  shows "pt_hash (pts ! (ngx_http_upstream_find_chash_point pts h mod length pts)) = circle_succ (pt_hash ` set pts) h"
proof -
  define f where "f = ngx_http_upstream_find_chash_point pts h"
  have f: "f \<le> length pts" "\<And>k. k < f \<Longrightarrow> pt_hash (pts ! k) < h" "\<And>k. k < length pts \<Longrightarrow> f \<le> k \<Longrightarrow> h \<le> pt_hash (pts ! k)"
    using find_chash_search_first [OF assms(1), of 0 "length pts" h] by (auto simp: f_def ngx_http_upstream_find_chash_point_def)
  have mono: "pt_hash (pts ! a) \<le> pt_hash (pts ! b)" if "a \<le> b" "b < length pts" for a b
    using assms(1) that by (cases "a = b") (auto simp: sorted_wrt_iff_nth_less less_imp_le)
  show ?thesis
  proof (cases "f < length pts")
    case True
    have "Min {v \<in> pt_hash ` set pts. h \<le> v} = pt_hash (pts ! f)"
    proof (rule Min_eqI)
      fix v assume "v \<in> {v \<in> pt_hash ` set pts. h \<le> v}"
      then obtain k where "k < length pts" "v = pt_hash (pts ! k)" "h \<le> v" by (auto simp: in_set_conv_nth)
      then show "pt_hash (pts ! f) \<le> v" using f(2) [of k] mono [of f k] by (cases "k < f") auto
    qed (use True f(3) [of f] in auto)
    moreover have "\<exists>v \<in> pt_hash ` set pts. h \<le> v" using True f(3) [of f] by auto
    ultimately show ?thesis using True by (simp add: circle_succ_def f_def)
  next
    case False
    then have "f = length pts" using f(1) by simp
    moreover have "\<not> (\<exists>v \<in> pt_hash ` set pts. h \<le> v)" using f(2) calculation by (auto simp: in_set_conv_nth not_le)
    moreover have "Min (pt_hash ` set pts) = pt_hash (pts ! 0)"
      using mono [of 0] assms(2) by (intro Min_eqI imageI) (auto simp: in_set_conv_nth)
    ultimately show ?thesis by (simp add: circle_succ_def flip: f_def)
  qed
qed

section \<open>What the configuration builds\<close>

lemma chash_unique_result:
  assumes "chash_unique pts i j = (pts', i')" "i < j" "j \<le> length pts"
    and "sorted_wrt (\<lambda>p q. pt_hash p < pt_hash q) (take (Suc i) pts)"
    and "sorted_wrt (\<lambda>p q. pt_hash p \<le> pt_hash q) (pts ! i # drop j pts)"
  shows "i' < length pts' \<and> sorted_wrt (\<lambda>p q. pt_hash p < pt_hash q) (take (Suc i') pts') \<and>
     set (take (Suc i') pts') \<subseteq> set (take (Suc i) pts) \<union> set (drop j pts) \<and>
     pt_hash ` set (take (Suc i') pts') = pt_hash ` (set (take (Suc i) pts) \<union> set (drop j pts))"
  using assms
proof (induction pts i j rule: chash_unique.induct)
  case (1 pts i j)
  show ?case
  proof (cases "j < length pts")
    case True
    then have d: "drop j pts = pts ! j # drop (Suc j) pts" by (simp add: Cons_nth_drop_Suc)
    have t: "take (Suc i) pts = take i pts @ [pts ! i]" using "1.prems"(2) True by (simp add: take_Suc_conv_app_nth)
    show ?thesis
    proof (cases "pt_hash (pts ! i) = pt_hash (pts ! j)")
      case eq: True
      then have "chash_unique pts i (Suc j) = (pts', i')" using "1.prems"(1) True by (subst (asm) chash_unique.simps) simp
      then show ?thesis using "1.IH"(2) True eq "1.prems" d t by (auto simp: image_Un)
    next
      case ne: False
      let ?qs = "pts[Suc i := pts ! j]"
      have r: "chash_unique ?qs (Suc i) (Suc j) = (pts', i')" using "1.prems"(1) True ne by (subst (asm) chash_unique.simps) simp
      have q: "take (Suc (Suc i)) ?qs = take (Suc i) pts @ [pts ! j]" "drop (Suc j) ?qs = drop (Suc j) pts" "?qs ! Suc i = pts ! j"
        using True "1.prems"(2) by (simp_all add: take_Suc_conv_app_nth)
      have "pt_hash (pts ! i) < pt_hash (pts ! j)" using "1.prems"(5) d ne by (simp add: order.strict_iff_order)
      then have "\<forall>p \<in> set (take (Suc i) pts). pt_hash p < pt_hash (pts ! j)" using "1.prems"(4) t by (auto simp: sorted_wrt_append)
      then have s: "sorted_wrt (\<lambda>p q. pt_hash p < pt_hash q) (take (Suc (Suc i)) ?qs)"
        using "1.prems"(4) q(1) by (simp add: sorted_wrt_append)
      have "sorted_wrt (\<lambda>p q. pt_hash p \<le> pt_hash q) (?qs ! Suc i # drop (Suc j) ?qs)" using "1.prems"(5) d q by simp
      note "1.IH"(1) [OF True ne r _ _ s this]
      then show ?thesis using True "1.prems"(2) by (simp only: q d) (auto simp: image_Un)
    qed
  next
    case False
    then show ?thesis using "1.prems" by (subst (asm) chash_unique.simps) auto
  qed
qed

text \<open>What \<^verbatim>\<open>qsort\<close> promises for the comparison of points.\<close>

definition sorts_points ::
    "((ngx_http_upstream_chash_point_t \<Rightarrow> ngx_http_upstream_chash_point_t \<Rightarrow> int)
       \<Rightarrow> ngx_http_upstream_chash_point_t list \<Rightarrow> ngx_http_upstream_chash_point_t list) \<Rightarrow> bool" where
  "sorts_points qsort \<longleftrightarrow> (\<forall>xs. mset (qsort ngx_http_upstream_chash_cmp_points xs) = mset xs \<and>
     sorted_wrt (\<lambda>p q. ngx_http_upstream_chash_cmp_points p q \<le> 0) (qsort ngx_http_upstream_chash_cmp_points xs))"

lemma init_chash_table:
  assumes "ngx_http_upstream_init_chash alloc resolve qsort us = Some (NGX_OK, us1, pts)" "sorts_points qsort"
  obtains g rest where "us_peer_data us1 = g # rest" "ngx_http_upstream_init_round_robin alloc resolve us = (NGX_OK, us1)"
    "pts \<noteq> []" "sorted_wrt (\<lambda>p q. pt_hash p < pt_hash q) pts" "set pts \<subseteq> set (concat (map peer_points (peer g)))"
    "pt_hash ` set pts = pt_hash ` set (concat (map peer_points (peer g)))"
proof -
  let ?sort = "qsort ngx_http_upstream_chash_cmp_points"
  obtain g rest where g: "us_peer_data us1 = g # rest" "ngx_http_upstream_init_round_robin alloc resolve us = (NGX_OK, us1)"
    using assms(1) by (auto simp: ngx_http_upstream_init_chash_def Let_def split: prod.splits if_splits list.splits)
  define raw where "raw = concat (map peer_points (peer g))"
  obtain qs i where raw: "raw \<noteq> []" and u: "chash_unique (?sort raw) 0 1 = (qs, i)" and p: "pts = take (Suc i) qs"
    using assms(1) g by (auto simp: ngx_http_upstream_init_chash_def Let_def raw_def split: prod.splits if_splits)
  have m: "mset (?sort raw) = mset raw" and "sorted_wrt (\<lambda>p q. ngx_http_upstream_chash_cmp_points p q \<le> 0) (?sort raw)"
    using assms(2) by (simp_all add: sorts_points_def)
  then have so: "sorted_wrt (\<lambda>p q. pt_hash p \<le> pt_hash q) (?sort raw)"
    by (rule_tac sorted_wrt_mono_rel) (auto simp: ngx_http_upstream_chash_cmp_points_def split: if_splits)
  obtain x xs where x: "?sort raw = x # xs" using m raw by (cases "?sort raw") auto
  have set: "set raw = set (x # xs)" using m x by (metis set_mset_mset)
  note U = chash_unique_result [OF u [unfolded x], simplified, OF so [unfolded x, simplified]]
  have "sorted_wrt (\<lambda>p q. pt_hash p < pt_hash q) pts" "set pts \<subseteq> set raw" "pt_hash ` set pts = pt_hash ` set raw" "pts \<noteq> []"
    using U by (auto simp: p set)
  then show thesis using that g by (simp add: raw_def)
qed

lemma peer_points_server: "q \<in> set (peer_points p) \<Longrightarrow> pt_server q = peer_server p"
proof -
  have "q \<in> set (chash_points s b h n) \<Longrightarrow> pt_server q = s" for s b h n
    by (induction s b h n rule: chash_points.induct) (auto simp: Let_def)
  then show "q \<in> set (peer_points p) \<Longrightarrow> pt_server q = peer_server p" by (simp add: peer_points_def)
qed

lemma init_rr_group:
  assumes "ngx_http_upstream_init_round_robin alloc resolve us = (NGX_OK, us1)" "us_servers us = Some ss" "us_peer_data us1 = g # rest"
  shows "peer g = rr_fill False ss"
  using assms by (auto simp: ngx_http_upstream_init_round_robin_def rr_init_servers_def rr_group_def Let_def split: if_splits prod.splits)

section \<open>Properties\<close>

text \<open>The points of a configuration, and the servers that have a point with a given hash.\<close>

definition config_points :: "ngx_http_upstream_server_t list \<Rightarrow> ngx_http_upstream_chash_point_t list" where
  "config_points ss = concat (map peer_points (rr_fill False ss))"

definition owners :: "ngx_http_upstream_server_t list \<Rightarrow> 32 word \<Rightarrow> string set" where
  "owners ss h = pt_server ` {q \<in> set (config_points ss). pt_hash q = h}"

lemma config_points_without:
  "set (config_points (filter (\<lambda>s. server_name s \<noteq> nm) ss)) = {q \<in> set (config_points ss). pt_server q \<noteq> nm}"
proof -
  have "peer_server (rr_peer_of_server s a) = server_name s" for s a by (simp add: rr_peer_of_server_def)
  then have "q \<in> set (peer_points (rr_peer_of_server s a)) \<Longrightarrow> pt_server q = server_name s" for q s a
    using peer_points_server by fastforce
  then show ?thesis by (auto simp: config_points_def rr_fill_def)
qed

text \<open>The point of a key in a table.\<close>

definition key_point :: "ngx_http_upstream_chash_point_t list \<Rightarrow> u_char list \<Rightarrow> ngx_http_upstream_chash_point_t" where
  "key_point pts key = pts ! (ngx_http_upstream_find_chash_point pts (ngx_crc32_long key) mod length pts)"

lemma key_point_circle:
  assumes "ngx_http_upstream_init_chash alloc resolve qsort us = Some (NGX_OK, us1, pts)" "sorts_points qsort" "us_servers us = Some ss"
  shows "pt_hash (key_point pts key) = circle_succ (pt_hash ` set (config_points ss)) (ngx_crc32_long key)"
    and "key_point pts key \<in> set (config_points ss)" "pts \<noteq> []"
proof -
  obtain g rest where t: "us_peer_data us1 = g # rest" "ngx_http_upstream_init_round_robin alloc resolve us = (NGX_OK, us1)"
    "pts \<noteq> []" "sorted_wrt (\<lambda>p q. pt_hash p < pt_hash q) pts" "set pts \<subseteq> set (concat (map peer_points (peer g)))"
    "pt_hash ` set pts = pt_hash ` set (concat (map peer_points (peer g)))"
    by (rule init_chash_table [OF assms(1,2)])
  have c: "concat (map peer_points (peer g)) = config_points ss"
    using init_rr_group [OF t(2) assms(3) t(1)] by (simp add: config_points_def)
  show "pt_hash (key_point pts key) = circle_succ (pt_hash ` set (config_points ss)) (ngx_crc32_long key)"
    using find_chash_point_circle [OF t(4,3)] t(6) by (simp add: key_point_def c)
  have "key_point pts key \<in> set pts" using t(3) by (simp add: key_point_def)
  then show "key_point pts key \<in> set (config_points ss)" using t(5) c by auto
  show "pts \<noteq> []" by (rule t(3))
qed

text \<open>The table fits the memory the code allocates for it.\<close>

lemma peer_points_length: "0 \<le> weight p \<Longrightarrow> weight p < 2 ^ 48 \<Longrightarrow> int (length (peer_points p)) = 160 * weight p"
proof -
  have "length (chash_points s b h n) = n" for s b h n
    by (induction s b h n rule: chash_points.induct) (auto simp: Let_def)
  then show "0 \<le> weight p \<Longrightarrow> weight p < 2 ^ 48 \<Longrightarrow> int (length (peer_points p)) = 160 * weight p"
    by (simp add: peer_points_def u64_id)
qed

lemma config_points_length:
  "\<forall>p \<in> set ps. 0 < weight p \<and> weight p < 2 ^ 48 \<Longrightarrow> int (length (concat (map peer_points ps))) = 160 * sum_list (map weight ps)"
  by (induction ps) (simp_all add: peer_points_length)

lemma init_chash_ok:
  assumes "ngx_http_upstream_init_round_robin alloc resolve us = (NGX_OK, us1)" "us_peer_data us1 = g # rest" "alloc 4"
    and "peer g \<noteq> []" "\<forall>p \<in> set (peer g). 0 < weight p" "total_weight g = sum_list (map weight (peer g))" "total_weight g < 2 ^ 48"
  shows "\<exists>pts. ngx_http_upstream_init_chash alloc resolve qsort us = Some (NGX_OK, us1, pts)"
proof -
  have "weight p \<le> total_weight g" if "p \<in> set (peer g)" for p
    unfolding assms(6) using that assms(5) by (intro member_le_sum_list) (auto intro: less_imp_le)
  then have l: "int (length (concat (map peer_points (peer g)))) = 160 * total_weight g"
    using config_points_length [of "peer g"] assms(5-7) by fastforce
  have "0 < total_weight g" using assms(4-6) sum_list_pos [of "map weight (peer g)"] by auto
  then have "u64 (total_weight g * 160) = 160 * total_weight g" "u64 (24 + 16 * (160 * total_weight g - 1)) = 8 + 16 * (160 * total_weight g)"
    using assms(7) by (simp_all add: u64_id)
  moreover have "concat (map peer_points (peer g)) \<noteq> []" using l \<open>0 < total_weight g\<close> by (intro notI) simp
  ultimately show ?thesis using assms(1-3) l
    by (simp add: ngx_http_upstream_init_chash_def Let_def split: prod.split)
qed

text \<open>A new request takes a peer of the server of its point.\<close>

lemma same_server_refl: "same_server a a"
proof -
  have "ngx_strncmp xs xs (length xs) = Some 0" for xs by (induction xs) auto
  from this [of "bytes a"] show ?thesis by (simp add: same_server_def)
qed

lemma chash_search_first:
  assumes "k < length ps" "chash_eligible now (tried (hp_rrp hp)) server k (ps ! k)"
    and "server = pt_server (points ! nat (hp_hash hp mod int (length points)))"
  obtains b ps' where "chash_search now points ps hp = (hp, ps', Some b)" "b < length ps"
    "chash_eligible now (tried (hp_rrp hp)) server b (ps ! b)"
proof -
  obtain qs r tot where l: "chash_loop now (tried (hp_rrp hp)) server 0 ps None 0 = (qs, r, tot)" by (metis prod_cases3)
  then obtain b where b: "r = Some b" using chash_loop_result(1) [OF l] assms(1,2) by (cases r) auto
  show thesis
  proof (rule that)
    show "chash_search now points ps hp = (hp, qs[b := (qs ! b)\<lparr>current_weight := i64 (current_weight (qs ! b) - tot)\<rparr>], Some b)"
      using l b assms(3) by (subst chash_search.simps) (simp add: Let_def)
  qed (use chash_loop_result(2) [OF l b] in auto)
qed

lemma find_index_mod:
  assumes "sorted_wrt (\<lambda>p q. pt_hash p < pt_hash q) pts" "pts \<noteq> []"
  shows "nat (int (ngx_http_upstream_find_chash_point pts h) mod 2 ^ 32 mod int (length pts)) = ngx_http_upstream_find_chash_point pts h mod length pts"
proof -
  define f where "f = ngx_http_upstream_find_chash_point pts h"
  have f: "f \<le> length pts"
    using find_chash_search_first [OF assms(1), of 0 "length pts" h] by (simp add: f_def ngx_http_upstream_find_chash_point_def)
  have "distinct (map pt_hash pts)" using assms(1) by (simp add: strict_sorted_iff flip: sorted_wrt_map)
  then have "length pts = card (pt_hash ` set pts)" by (metis distinct_card length_map list.set_map)
  also have "\<dots> \<le> card (UNIV :: 32 word set)" by (rule card_mono) auto
  finally have n: "length pts \<le> 2 ^ 32" by (simp add: card_word)
  show ?thesis
  proof (cases "f < 2 ^ 32")
    case True
    then have "int f < 2 ^ 32" by simp
    then have "int f mod 2 ^ 32 = int f" by (intro mod_pos_pos_trivial) auto
    then show ?thesis unfolding f_def [symmetric] by (simp only: zmod_int [symmetric] nat_int)
  next
    case False
    then have "length pts = 2 ^ 32" "f = 2 ^ 32" using f n by auto
    then show ?thesis by (simp flip: f_def)
  qed
qed

lemma chash_request_server:
  assumes conf: "us_servers us = Some ss" "\<forall>s \<in> set ss. server_ok s" "ps = rr_fill False ss" "2 \<le> length ps" "sum_list (map weight ps) < 2 ^ 63"
    and i: "ngx_http_upstream_init_chash alloc resolve qsort us = Some (NGX_OK, us1, pts)" and q: "sorts_points qsort" and key: "key \<noteq> []"
    and p: "ngx_http_upstream_init_chash_peer alloc' (Some key) us1 pts pc = (NGX_OK, pc1, Some hp)"
  shows "\<exists>k ups' pc' hp'. ngx_http_upstream_get_chash_peer pts now (us_peer_data us1) pc1 hp = Some (NGX_OK, ups', pc', hp') \<and>
     current (hp_rrp hp') = Some k \<and> k < length ps \<and> same_server (peer_server (ps ! k)) (pt_server (key_point pts key))"
proof -
  obtain g0 rest0 where t: "us_peer_data us1 = g0 # rest0" "ngx_http_upstream_init_round_robin alloc resolve us = (NGX_OK, us1)"
    "pts \<noteq> []" "sorted_wrt (\<lambda>p q. pt_hash p < pt_hash q) pts"
    using init_chash_table [OF i q] by metis
  obtain rrp where r: "ngx_http_upstream_init_round_robin_peer (\<lambda>k. alloc' (Suc k)) True us1 pc = (NGX_OK, pc1, Some rrp)"
    and d: "hp = \<lparr>hp_rrp = rrp, hp_key = key, hp_tries = 0, hp_rehash = 0,
      hp_hash = int (ngx_http_upstream_find_chash_point pts (ngx_crc32_long key)) mod 2 ^ 32\<rparr>"
    using p by (auto simp: ngx_http_upstream_init_chash_peer_def ngx_http_upstream_init_hash_peer_def Let_def
        split: if_splits prod.splits option.splits ngx_rc.splits)
  obtain g rest where g: "us_peer_data us1 = g # rest" "peer g = ps" "\<not> single g" "rrp_peers rrp = 0"
    "\<And>k. k < length ps \<Longrightarrow> rr_eligible now (tried rrp) k (ps ! k)"
    using configured_request [OF conf t(2) r] by metis
  let ?server = "pt_server (key_point pts key)"
  have s: "?server = pt_server (pts ! nat (hp_hash hp mod int (length pts)))"
    using find_index_mod [OF t(4,3)] by (simp add: d key_point_def)
  have "key_point pts key \<in> set (config_points ss)" using key_point_circle(2) [OF i q conf(1)] .
  then obtain x where "x \<in> set ps" "peer_server x = ?server"
    using conf(3) peer_points_server by (fastforce simp: config_points_def)
  then obtain j where "j < length ps" "chash_eligible now (tried (hp_rrp hp)) ?server j (ps ! j)"
    using g(5) same_server_refl [of ?server] by (auto simp: in_set_conv_nth chash_eligible_def d)
  then obtain b ps' where b: "chash_search now pts ps hp = (hp, ps', Some b)" "b < length ps" "chash_eligible now (tried (hp_rrp hp)) ?server b (ps ! b)"
    using chash_search_first [OF _ _ s] by metis
  have "hp_rrp hp = rrp" "hp_key hp = key" "hp_tries hp = 0" by (simp_all add: d)
  then show ?thesis using b g t(3) key
    by (simp add: ngx_http_upstream_get_chash_peer_def Let_def use_peer_def chash_eligible_def)
qed

text \<open>C4: a key belongs to the point that follows its hash on the circle, and when a server is removed from the
  configuration, the keys of other servers stay where they are. The point of a key has the hash that
  follows the hash of the key among all points of the configuration; without the server \<open>nm\<close> the point
  of the key has the same hash and belongs to one of the other servers that had a point there, unless
  \<open>nm\<close> was the only one. This holds however \<^verbatim>\<open>qsort\<close> orders points with equal hashes. When all servers
  are up and unlimited and there are at least two peers, the first request on the new chain with a
  non-empty key gets a peer of the server of its point.\<close>

theorem chash_minimal_disruption:
  assumes "sorts_points qsort" "us_servers us = Some ss"
    and "ngx_http_upstream_init_chash alloc resolve qsort us = Some (NGX_OK, us1, pts)"
    and "ngx_http_upstream_init_chash alloc' resolve qsort (us\<lparr>us_servers := Some (filter (\<lambda>s. server_name s \<noteq> nm) ss)\<rparr>)
      = Some (NGX_OK, us2, pts')"
  shows "pt_hash (key_point pts key) = circle_succ (pt_hash ` set (config_points ss)) (ngx_crc32_long key) \<and>
    pt_server (key_point pts key) \<in> owners ss (pt_hash (key_point pts key)) \<and>
    (owners ss (pt_hash (key_point pts key)) = {nm} \<or>
      pt_hash (key_point pts' key) = pt_hash (key_point pts key) \<and>
      pt_server (key_point pts' key) \<in> owners ss (pt_hash (key_point pts key)) - {nm}) \<and>
    ((\<forall>s \<in> set ss. server_ok s) \<longrightarrow> 2 \<le> length (rr_fill False ss) \<longrightarrow> sum_list (map weight (rr_fill False ss)) < 2 ^ 63 \<longrightarrow> key \<noteq> [] \<longrightarrow>
      ngx_http_upstream_init_chash_peer alloc'' (Some key) us1 pts pc = (NGX_OK, pc1, Some hp) \<longrightarrow>
      (\<exists>k ups' pc' hp'. ngx_http_upstream_get_chash_peer pts now (us_peer_data us1) pc1 hp = Some (NGX_OK, ups', pc', hp') \<and>
         current (hp_rrp hp') = Some k \<and> k < length (rr_fill False ss) \<and>
         same_server (peer_server (rr_fill False ss ! k)) (pt_server (key_point pts key))))"
proof -
  let ?h = "ngx_crc32_long key" and ?H = "pt_hash ` set (config_points ss)"
  let ?ss = "filter (\<lambda>s. server_name s \<noteq> nm) ss" and ?p = "key_point pts key" and ?p' = "key_point pts' key"
  have p: "pt_hash ?p = circle_succ ?H ?h" "?p \<in> set (config_points ss)"
    using key_point_circle [OF assms(3,1,2)] by auto
  have own: "pt_server ?p \<in> owners ss (pt_hash ?p)" using p(2) by (auto simp: owners_def)
  have p': "pt_hash ?p' = circle_succ (pt_hash ` set (config_points ?ss)) ?h" "?p' \<in> set (config_points ?ss)"
    using key_point_circle [OF assms(4,1)] by auto
  have sub: "set (config_points ?ss) = {q \<in> set (config_points ss). pt_server q \<noteq> nm}" by (rule config_points_without)
  have "owners ss (pt_hash ?p) = {nm} \<or> pt_hash ?p' = pt_hash ?p \<and> pt_server ?p' \<in> owners ss (pt_hash ?p) - {nm}"
  proof (cases "owners ss (pt_hash ?p) \<subseteq> {nm}")
    case True
    then show ?thesis using own by auto
  next
    case False
    then obtain q where "q \<in> set (config_points ss)" "pt_hash q = pt_hash ?p" "pt_server q \<noteq> nm" by (auto simp: owners_def)
    then have "circle_succ ?H ?h \<in> pt_hash ` set (config_points ?ss)" using p(1) sub by force
    then have "pt_hash ?p' = pt_hash ?p"
      using circle_succ_subset [of ?H "pt_hash ` set (config_points ?ss)" ?h] p(1) p'(1) sub by auto
    moreover from this have "pt_server ?p' \<in> owners ss (pt_hash ?p) - {nm}" using p'(2) sub by (auto simp: owners_def)
    ultimately show ?thesis by simp
  qed
  then show ?thesis using p(1) own chash_request_server [OF assms(2) _ refl _ _ assms(3,1)] by (intro conjI impI)
qed

definition ex_chash_server :: "string \<Rightarrow> int \<Rightarrow> ngx_http_upstream_server_t" where
  "ex_chash_server nm w = (ex_server w False)\<lparr>server_name := nm\<rparr>"

definition ex_chash_servers :: "ngx_http_upstream_server_t list" where
  "ex_chash_servers = [ex_chash_server ''a:80'' 2, ex_chash_server ''b:80'' 1, ex_chash_server ''c:81'' 1]"

definition ex_chash_us :: ngx_http_upstream_srv_conf_t where
  "ex_chash_us = ex_us\<lparr>us_servers := Some ex_chash_servers\<rparr>"

lemma ex_init_chash:
  assumes "fst (ngx_http_upstream_init_round_robin (\<lambda>_. True) (\<lambda>_ _. None) us) = NGX_OK"
    and "case us_peer_data (snd (ngx_http_upstream_init_round_robin (\<lambda>_. True) (\<lambda>_ _. None) us)) of [] \<Rightarrow> False | g # _ \<Rightarrow>
      peer g \<noteq> [] \<and> (\<forall>p \<in> set (peer g). 0 < weight p) \<and> total_weight g = sum_list (map weight (peer g)) \<and> total_weight g < 2 ^ 48"
  shows "\<exists>us1 pts. ngx_http_upstream_init_chash (\<lambda>_. True) (\<lambda>_ _. None) qsort us = Some (NGX_OK, us1, pts)"
proof -
  let ?i = "ngx_http_upstream_init_round_robin (\<lambda>_. True) (\<lambda>_ _. None) us"
  obtain g rest where g: "us_peer_data (snd ?i) = g # rest" using assms(2) by (auto split: list.splits)
  have "?i = (NGX_OK, snd ?i)" using assms(1) by (metis prod.collapse)
  then show ?thesis using init_chash_ok [OF _ g, of "\<lambda>_. True"] assms(2) g by fastforce
qed

lemma ex_chash_rr:
  assumes "us \<in> {ex_chash_us, ex_chash_us\<lparr>us_servers := Some (filter (\<lambda>s. server_name s \<noteq> ''b:80'') ex_chash_servers)\<rparr>}"
  shows "\<exists>us1 pts. ngx_http_upstream_init_chash (\<lambda>_. True) (\<lambda>_ _. None) qsort us = Some (NGX_OK, us1, pts)"
  using assms
proof (elim insertE emptyE)
  assume u: "us = ex_chash_us"
  show ?thesis unfolding u by (rule ex_init_chash; code_simp)
next
  assume u: "us = ex_chash_us\<lparr>us_servers := Some (filter (\<lambda>s. server_name s \<noteq> ''b:80'') ex_chash_servers)\<rparr>"
  show ?thesis unfolding u by (rule ex_init_chash; code_simp)
qed

theorem chash_minimal_disruption_witness:
  "\<exists>us1 pts us2 pts' pc1 hp k ups' pc' hp'.
     ngx_http_upstream_init_chash (\<lambda>_. True) (\<lambda>_ _. None) (\<lambda>cmp. sort_key pt_hash) ex_chash_us = Some (NGX_OK, us1, pts) \<and>
     ngx_http_upstream_init_chash (\<lambda>_. True) (\<lambda>_ _. None) (\<lambda>cmp. sort_key pt_hash)
       (ex_chash_us\<lparr>us_servers := Some (filter (\<lambda>s. server_name s \<noteq> ''b:80'') ex_chash_servers)\<rparr>) = Some (NGX_OK, us2, pts') \<and>
     (owners ex_chash_servers (pt_hash (key_point pts (bytes ''user7''))) = {''b:80''} \<or>
        pt_hash (key_point pts' (bytes ''user7'')) = pt_hash (key_point pts (bytes ''user7''))) \<and>
     ngx_http_upstream_init_chash_peer (\<lambda>_. True) (Some (bytes ''user7'')) us1 pts ex_pc = (NGX_OK, pc1, Some hp) \<and>
     ngx_http_upstream_get_chash_peer pts 5 (us_peer_data us1) pc1 hp = Some (NGX_OK, ups', pc', hp') \<and> current (hp_rrp hp') = Some k \<and>
     same_server (peer_server (rr_fill False ex_chash_servers ! k)) (pt_server (key_point pts (bytes ''user7'')))"
proof -
  let ?sort = "\<lambda>cmp :: ngx_http_upstream_chash_point_t \<Rightarrow> ngx_http_upstream_chash_point_t \<Rightarrow> int. sort_key pt_hash"
  let ?us' = "ex_chash_us\<lparr>us_servers := Some (filter (\<lambda>s. server_name s \<noteq> ''b:80'') ex_chash_servers)\<rparr>" and ?key = "bytes ''user7''"
  have "sorted_wrt (\<lambda>p q. ngx_http_upstream_chash_cmp_points p q \<le> 0) (sort_key pt_hash xs)" for xs
    using sorted_sort_key [of pt_hash xs] unfolding sorted_wrt_map
    by (rule_tac sorted_wrt_mono_rel) (auto simp: ngx_http_upstream_chash_cmp_points_def)
  then have q: "sorts_points ?sort" by (simp add: sorts_points_def)
  have s: "us_servers ex_chash_us = Some ex_chash_servers" by (simp add: ex_chash_us_def)
  obtain us1 pts where i: "ngx_http_upstream_init_chash (\<lambda>_. True) (\<lambda>_ _. None) ?sort ex_chash_us = Some (NGX_OK, us1, pts)"
    using ex_chash_rr [of ex_chash_us ?sort] by auto
  obtain us2 pts' where i': "ngx_http_upstream_init_chash (\<lambda>_. True) (\<lambda>_ _. None) ?sort ?us' = Some (NGX_OK, us2, pts')"
    using ex_chash_rr [of ?us' ?sort] by auto
  have us1: "us1 = snd (ngx_http_upstream_init_round_robin (\<lambda>_. True) (\<lambda>_ _. None) ex_chash_us)"
    using init_chash_table [OF i q] by (metis snd_conv)
  have c: "\<forall>s \<in> set ex_chash_servers. server_ok s" "2 \<le> length (rr_fill False ex_chash_servers)"
    "sum_list (map weight (rr_fill False ex_chash_servers)) < 2 ^ 63" "?key \<noteq> []"
    by code_simp+
  let ?p = "ngx_http_upstream_init_hash_peer (\<lambda>_. True) (Some ?key) us1 ex_pc"
  have "fst ?p = NGX_OK" "snd (snd ?p) \<noteq> None" unfolding us1 by code_simp+
  then obtain pc1 h where "?p = (NGX_OK, pc1, Some h)" by (metis option.collapse prod.collapse)
  then obtain hp where p: "ngx_http_upstream_init_chash_peer (\<lambda>_. True) (Some ?key) us1 pts ex_pc = (NGX_OK, pc1, Some hp)"
    by (simp add: ngx_http_upstream_init_chash_peer_def Let_def)
  note T = chash_minimal_disruption [OF q s i i', of ?key "\<lambda>_. True" ex_pc pc1 hp 5]
  obtain k ups' pc' hp' where g: "ngx_http_upstream_get_chash_peer pts 5 (us_peer_data us1) pc1 hp = Some (NGX_OK, ups', pc', hp')"
    "current (hp_rrp hp') = Some k" "same_server (peer_server (rr_fill False ex_chash_servers ! k)) (pt_server (key_point pts ?key))"
    using T [THEN conjunct2, THEN conjunct2, THEN conjunct2, THEN mp, OF c(1), THEN mp, OF c(2), THEN mp, OF c(3), THEN mp, OF c(4), THEN mp, OF p]
    by (elim exE conjE)
  have own: "owners ex_chash_servers (pt_hash (key_point pts ?key)) = {''b:80''} \<or> pt_hash (key_point pts' ?key) = pt_hash (key_point pts ?key)"
    using T [THEN conjunct2, THEN conjunct2, THEN conjunct1] by (elim disjE conjE) simp_all
  show ?thesis by (intro exI conjI) (rule i, rule i', rule own, rule p, rule g(1), rule g(2), rule g(3))
qed

end
