(* ===== verification/Ngx_Radix_Tree.thy ===== *)
theory Ngx_Radix_Tree
  imports Ngx_Upstream_Peers
begin

text \<open>
  Radix trees of addresses (src/nginx/src/core/ngx_radix_tree.c and src/nginx/src/core/ngx_radix_tree.h):
  creation, insertion, deletion and lookup for 32-bit keys and for keys of sixteen bytes.

  The model works on pointers: the memory maps addresses to nodes and 0 is the null pointer. The pool
  is the list of the pages it will hand out, and an empty list is its failure. Following a null
  pointer, reading past the key and running forever are none.
\<close>

section \<open>Nodes and trees\<close>

record ngx_radix_node =
  rn_right :: nat
  rn_left :: nat
  rn_parent :: nat
  rn_value :: int

record ngx_radix_tree =
  rt_root :: nat
  rt_free :: nat
  rt_start :: nat
  rt_size :: nat
  rt_pool :: "nat list"
  rt_pagesize :: nat
  rt_mem :: "nat \<Rightarrow> ngx_radix_node"

definition NGX_RADIX_NO_VALUE :: int where
  "NGX_RADIX_NO_VALUE = 2 ^ 64 - 1"

text \<open>\<^verbatim>\<open>sizeof(ngx_radix_node_t)\<close> on a 64-bit machine.\<close>

definition radix_node_size :: nat where
  "radix_node_size = 32"

definition radix_upd :: "nat \<Rightarrow> (ngx_radix_node \<Rightarrow> ngx_radix_node) \<Rightarrow> ngx_radix_tree \<Rightarrow> ngx_radix_tree" where
  "radix_upd x f t = t\<lparr>rt_mem := (rt_mem t)(x := f (rt_mem t x))\<rparr>"

definition radix_child :: "bool \<Rightarrow> ngx_radix_tree \<Rightarrow> nat \<Rightarrow> nat" where
  "radix_child b t x = (if b then rn_right (rt_mem t x) else rn_left (rt_mem t x))"

definition set_radix_child :: "bool \<Rightarrow> nat \<Rightarrow> nat \<Rightarrow> ngx_radix_tree \<Rightarrow> ngx_radix_tree" where
  "set_radix_child b x y t = radix_upd x (\<lambda>n. if b then n\<lparr>rn_right := y\<rparr> else n\<lparr>rn_left := y\<rparr>) t"

definition ngx_radix_alloc :: "ngx_radix_tree \<Rightarrow> nat \<times> ngx_radix_tree" where
  "ngx_radix_alloc t =
     (if rt_free t \<noteq> 0 then (rt_free t, t\<lparr>rt_free := rn_right (rt_mem t (rt_free t))\<rparr>)
      else
        let take_node = (\<lambda>t. (rt_start t, t\<lparr>rt_start := rt_start t + radix_node_size, rt_size := rt_size t - radix_node_size\<rparr>))
        in if rt_size t < radix_node_size then
             case rt_pool t of
               [] \<Rightarrow> (0, t\<lparr>rt_start := 0\<rparr>)
             | p # ps \<Rightarrow> take_node (t\<lparr>rt_start := p, rt_pool := ps, rt_size := rt_pagesize t\<rparr>)
           else take_node t)"

text \<open>A new node below \<open>node\<close>.\<close>

definition radix_link :: "bool \<Rightarrow> nat \<Rightarrow> nat \<Rightarrow> ngx_radix_tree \<Rightarrow> ngx_radix_tree" where
  "radix_link b node next t =
     set_radix_child b node next
       (radix_upd next (\<lambda>n. n\<lparr>rn_right := 0, rn_left := 0, rn_parent := node, rn_value := NGX_RADIX_NO_VALUE\<rparr>) t)"

section \<open>32-bit keys\<close>

text \<open>The first loop: the bit it stops at, the last node and the last child read.\<close>

function radix32_walk :: "ngx_radix_tree \<Rightarrow> 32 word \<Rightarrow> 32 word \<Rightarrow> 32 word \<Rightarrow> nat \<Rightarrow> nat \<Rightarrow> 32 word \<times> nat \<times> nat" where
  "radix32_walk t key msk b node next =
     (if b AND msk \<noteq> 0 then
        let next = radix_child (key AND b \<noteq> 0) t node
        in if next = 0 then (b, node, next) else radix32_walk t key msk (drop_bit 1 b) next next
      else (b, node, next))"
  by pat_completeness auto

text \<open>The second loop: the nodes for the rest of the prefix.\<close>

function radix32_extend :: "ngx_radix_tree \<Rightarrow> 32 word \<Rightarrow> 32 word \<Rightarrow> 32 word \<Rightarrow> nat \<Rightarrow> ngx_radix_tree \<times> nat option" where
  "radix32_extend t key msk b node =
     (if b AND msk \<noteq> 0 then
        case ngx_radix_alloc t of
          (next, t) \<Rightarrow>
            if next = 0 then (t, None)
            else radix32_extend (radix_link (key AND b \<noteq> 0) node next t) key msk (drop_bit 1 b) next
      else (t, Some node))"
  by pat_completeness auto

lemma unat_halve: "b \<noteq> 0 \<Longrightarrow> unat (drop_bit 1 b) < unat b" for b :: "'a :: len word"
proof -
  assume "b \<noteq> 0"
  then have "0 < unat b" by (simp add: unat_gt_0)
  moreover have "unat (drop_bit 1 b) = unat b div 2" unfolding unat_drop_bit_eq by (simp add: drop_bit_Suc)
  ultimately show ?thesis by simp
qed

lemma drop_bit_less: "b AND m \<noteq> 0 \<Longrightarrow> unat (drop_bit 1 b) < unat b" for b m :: "'a :: len word"
  by (rule unat_halve) auto

termination radix32_walk
  by (relation "measure (\<lambda>(t, key, msk, b, node, next). unat b)") (auto dest: drop_bit_less)

termination radix32_extend
  by (relation "measure (\<lambda>(t, key, msk, b, node). unat b)") (auto dest: drop_bit_less)

declare radix32_walk.simps [simp del] radix32_extend.simps [simp del]

definition ngx_radix32tree_insert ::
    "32 word \<Rightarrow> 32 word \<Rightarrow> int \<Rightarrow> ngx_radix_tree \<Rightarrow> ngx_rc \<times> ngx_radix_tree" where
  "ngx_radix32tree_insert key msk value t =
     (case radix32_walk t key msk 0x80000000 (rt_root t) (rt_root t) of
        (b, node, next) \<Rightarrow>
          if next \<noteq> 0 then
            if rn_value (rt_mem t node) \<noteq> NGX_RADIX_NO_VALUE then (NGX_BUSY, t)
            else (NGX_OK, radix_upd node (\<lambda>n. n\<lparr>rn_value := value\<rparr>) t)
          else
            case radix32_extend t key msk b node of
              (t, None) \<Rightarrow> (NGX_ERROR, t)
            | (t, Some node) \<Rightarrow> (NGX_OK, radix_upd node (\<lambda>n. n\<lparr>rn_value := value\<rparr>) t))"

function radix32_descend :: "ngx_radix_tree \<Rightarrow> 32 word \<Rightarrow> 32 word \<Rightarrow> 32 word \<Rightarrow> nat \<Rightarrow> nat" where
  "radix32_descend t key msk b node =
     (if node \<noteq> 0 \<and> b AND msk \<noteq> 0 then radix32_descend t key msk (drop_bit 1 b) (radix_child (key AND b \<noteq> 0) t node)
      else node)"
  by pat_completeness auto
termination
  by (relation "measure (\<lambda>(t, key, msk, b, node). unat b)") (auto dest: drop_bit_less)

declare radix32_descend.simps [simp del]

text \<open>The loop that gives a leaf back and goes up while the parent has become an empty leaf.\<close>

partial_function (option) radix_prune :: "nat \<Rightarrow> ngx_radix_tree \<Rightarrow> ngx_radix_tree option" where
  "radix_prune node t =
     (let p = rn_parent (rt_mem t node)
      in if p = 0 then None
         else
           let t = set_radix_child (rn_right (rt_mem t p) = node) p 0 t;
               t = radix_upd node (\<lambda>n. n\<lparr>rn_right := rt_free t\<rparr>) t;
               t = t\<lparr>rt_free := node\<rparr>
           in if rn_right (rt_mem t p) \<noteq> 0 \<or> rn_left (rt_mem t p) \<noteq> 0 then Some t
              else if rn_value (rt_mem t p) \<noteq> NGX_RADIX_NO_VALUE then Some t
              else if rn_parent (rt_mem t p) = 0 then Some t
              else radix_prune p t)"

text \<open>The part of both deletions after the descent.\<close>

definition radix_delete_node :: "nat \<Rightarrow> ngx_radix_tree \<Rightarrow> (ngx_rc \<times> ngx_radix_tree) option" where
  "radix_delete_node node t =
     (if node = 0 then Some (NGX_ERROR, t)
      else if rn_right (rt_mem t node) \<noteq> 0 \<or> rn_left (rt_mem t node) \<noteq> 0 then
        if rn_value (rt_mem t node) \<noteq> NGX_RADIX_NO_VALUE
        then Some (NGX_OK, radix_upd node (\<lambda>n. n\<lparr>rn_value := NGX_RADIX_NO_VALUE\<rparr>) t)
        else Some (NGX_ERROR, t)
      else map_option (Pair NGX_OK) (radix_prune node t))"

definition ngx_radix32tree_delete :: "32 word \<Rightarrow> 32 word \<Rightarrow> ngx_radix_tree \<Rightarrow> (ngx_rc \<times> ngx_radix_tree) option" where
  "ngx_radix32tree_delete key msk t =
     radix_delete_node (radix32_descend t key msk 0x80000000 (rt_root t)) t"

partial_function (option) radix32_find_loop :: "ngx_radix_tree \<Rightarrow> 32 word \<Rightarrow> 32 word \<Rightarrow> int \<Rightarrow> nat \<Rightarrow> int option" where
  "radix32_find_loop t key b value node =
     (if node \<noteq> 0 then
        let value = (if rn_value (rt_mem t node) \<noteq> NGX_RADIX_NO_VALUE then rn_value (rt_mem t node) else value)
        in radix32_find_loop t key (drop_bit 1 b) value (radix_child (key AND b \<noteq> 0) t node)
      else Some value)"

definition ngx_radix32tree_find :: "32 word \<Rightarrow> ngx_radix_tree \<Rightarrow> int option" where
  "ngx_radix32tree_find key t = radix32_find_loop t key 0x80000000 NGX_RADIX_NO_VALUE (rt_root t)"

section \<open>Keys of sixteen bytes\<close>

text \<open>The step to the next bit: \<^verbatim>\<open>bit >>= 1\<close> and, at the end of a byte, the next byte.\<close>

definition next_bit :: "nat \<Rightarrow> 8 word \<Rightarrow> nat \<times> 8 word" where
  "next_bit i b = (if drop_bit 1 b = 0 then (i + 1, 0x80) else (i, drop_bit 1 b))"

lemma next_bit_less: "b AND m \<noteq> 0 \<Longrightarrow> (i', b') = next_bit i b \<Longrightarrow> i' < 16 \<Longrightarrow>
    256 * (16 - i') + unat b' < 256 * (16 - i) + unat b" for b m :: "8 word"
  using drop_bit_less [of b m] by (auto simp: next_bit_def split: if_splits)

function radix128_walk ::
    "ngx_radix_tree \<Rightarrow> u_char list \<Rightarrow> u_char list \<Rightarrow> nat \<Rightarrow> 8 word \<Rightarrow> nat \<Rightarrow> nat \<Rightarrow> nat \<times> 8 word \<times> nat \<times> nat" where
  "radix128_walk t key msk i b node next =
     (if b AND msk ! i \<noteq> 0 then
        let next = radix_child (key ! i AND b \<noteq> 0) t node
        in if next = 0 then (i, b, node, next)
           else case next_bit i b of (i', b') \<Rightarrow> if i' \<ge> 16 then (i', 0, next, next) else radix128_walk t key msk i' b' next next
      else (i, b, node, next))"
  by pat_completeness auto
termination
  by (relation "measure (\<lambda>(t, key, msk, i, b, node, next). 256 * (16 - i) + unat b)") (auto dest: next_bit_less simp: not_le)

function radix128_extend ::
    "ngx_radix_tree \<Rightarrow> u_char list \<Rightarrow> u_char list \<Rightarrow> nat \<Rightarrow> 8 word \<Rightarrow> nat \<Rightarrow> ngx_radix_tree \<times> nat option" where
  "radix128_extend t key msk i b node =
     (if b AND msk ! i \<noteq> 0 then
        case ngx_radix_alloc t of
          (next, t) \<Rightarrow>
            if next = 0 then (t, None)
            else
              let t = radix_link (key ! i AND b \<noteq> 0) node next t
              in case next_bit i b of (i', b') \<Rightarrow> if i' \<ge> 16 then (t, Some next) else radix128_extend t key msk i' b' next
      else (t, Some node))"
  by pat_completeness auto
termination
  by (relation "measure (\<lambda>(t, key, msk, i, b, node). 256 * (16 - i) + unat b)") (auto dest: next_bit_less simp: not_le)

function radix128_descend :: "ngx_radix_tree \<Rightarrow> u_char list \<Rightarrow> u_char list \<Rightarrow> nat \<Rightarrow> 8 word \<Rightarrow> nat \<Rightarrow> nat" where
  "radix128_descend t key msk i b node =
     (if node \<noteq> 0 \<and> b AND msk ! i \<noteq> 0 then
        let node = radix_child (key ! i AND b \<noteq> 0) t node
        in case next_bit i b of (i', b') \<Rightarrow> if i' \<ge> 16 then node else radix128_descend t key msk i' b' node
      else node)"
  by pat_completeness auto
termination
  by (relation "measure (\<lambda>(t, key, msk, i, b, node). 256 * (16 - i) + unat b)") (auto dest: next_bit_less simp: not_le)

declare radix128_walk.simps [simp del] radix128_extend.simps [simp del] radix128_descend.simps [simp del]

definition ngx_radix128tree_insert ::
    "u_char list \<Rightarrow> u_char list \<Rightarrow> int \<Rightarrow> ngx_radix_tree \<Rightarrow> ngx_rc \<times> ngx_radix_tree" where
  "ngx_radix128tree_insert key msk value t =
     (case radix128_walk t key msk 0 0x80 (rt_root t) (rt_root t) of
        (i, b, node, next) \<Rightarrow>
          if next \<noteq> 0 then
            if rn_value (rt_mem t node) \<noteq> NGX_RADIX_NO_VALUE then (NGX_BUSY, t)
            else (NGX_OK, radix_upd node (\<lambda>n. n\<lparr>rn_value := value\<rparr>) t)
          else
            case radix128_extend t key msk i b node of
              (t, None) \<Rightarrow> (NGX_ERROR, t)
            | (t, Some node) \<Rightarrow> (NGX_OK, radix_upd node (\<lambda>n. n\<lparr>rn_value := value\<rparr>) t))"

definition ngx_radix128tree_delete :: "u_char list \<Rightarrow> u_char list \<Rightarrow> ngx_radix_tree \<Rightarrow> (ngx_rc \<times> ngx_radix_tree) option" where
  "ngx_radix128tree_delete key msk t =
     radix_delete_node (radix128_descend t key msk 0 0x80 (rt_root t)) t"

text \<open>The lookup reads the next bit of the key below every node, also below a node of full depth.\<close>

partial_function (option) radix128_find_loop ::
    "ngx_radix_tree \<Rightarrow> u_char list \<Rightarrow> nat \<Rightarrow> 8 word \<Rightarrow> int \<Rightarrow> nat \<Rightarrow> int option" where
  "radix128_find_loop t key i b value node =
     (if node \<noteq> 0 then
        let value = (if rn_value (rt_mem t node) \<noteq> NGX_RADIX_NO_VALUE then rn_value (rt_mem t node) else value)
        in if i < length key then
             radix128_find_loop t key (fst (next_bit i b)) (snd (next_bit i b)) value (radix_child (key ! i AND b \<noteq> 0) t node)
           else None
      else Some value)"

definition ngx_radix128tree_find :: "u_char list \<Rightarrow> ngx_radix_tree \<Rightarrow> int option" where
  "ngx_radix128tree_find key t = radix128_find_loop t key 0 0x80 NGX_RADIX_NO_VALUE (rt_root t)"

section \<open>Creation\<close>

text \<open>The inner loop of the preallocation inserts all keys of a length. Some none is the null pointer.\<close>

partial_function (option) prealloc_level :: "32 word \<Rightarrow> 32 word \<Rightarrow> 32 word \<Rightarrow> ngx_radix_tree \<Rightarrow> ngx_radix_tree option option" where
  "prealloc_level inc msk key t =
     (case ngx_radix32tree_insert key msk NGX_RADIX_NO_VALUE t of
        (rc, t) \<Rightarrow>
          if rc \<noteq> NGX_OK then Some None
          else if key + inc = 0 then Some (Some t)
          else prealloc_level inc msk (key + inc) t)"

fun prealloc :: "nat \<Rightarrow> 32 word \<Rightarrow> 32 word \<Rightarrow> ngx_radix_tree \<Rightarrow> ngx_radix_tree option option" where
  "prealloc 0 inc msk t = Some (Some t)"
| "prealloc (Suc n) inc msk t =
     (let msk = drop_bit 1 msk OR 0x80000000
      in case prealloc_level inc msk 0 t of
           None \<Rightarrow> None
         | Some None \<Rightarrow> Some None
         | Some (Some t) \<Rightarrow> prealloc n (drop_bit 1 inc) msk t)"

text \<open>The arguments are whether the structure can be allocated, the pages of the pool, the page size and the
  memory.\<close>

definition ngx_radix_tree_create ::
    "bool \<Rightarrow> nat list \<Rightarrow> nat \<Rightarrow> (nat \<Rightarrow> ngx_radix_node) \<Rightarrow> int \<Rightarrow> ngx_radix_tree option option" where
  "ngx_radix_tree_create allocated pool pagesize mem preallocate =
     (if \<not> allocated then Some None
      else
        let t = \<lparr>rt_root = 0, rt_free = 0, rt_start = 0, rt_size = 0, rt_pool = pool, rt_pagesize = pagesize, rt_mem = mem\<rparr>
        in case ngx_radix_alloc t of
             (root, t) \<Rightarrow>
               let t = t\<lparr>rt_root := root\<rparr>
               in if root = 0 then Some None
                  else
                    let t = radix_upd root (\<lambda>n. n\<lparr>rn_right := 0, rn_left := 0, rn_parent := 0, rn_value := NGX_RADIX_NO_VALUE\<rparr>) t;
                        n = (if preallocate = -1
                             then (if pagesize div radix_node_size = 128 then 6 else if pagesize div radix_node_size = 256 then 7 else 8)
                             else preallocate)
                    in if n < 0 then None else prealloc (nat n) 0x80000000 0 t)"

end
