(* ===== verification/Ngx_Radix_Rep.thy ===== *)
theory Ngx_Radix_Rep
  imports Ngx_Radix_Tree
begin

text \<open>
  What memory represents: the tree of nodes, a position in it, and the map from prefixes to values that
  the tree stands for. The loops over the bits of a key and a mask are related to loops over a list of
  bits, on which insertion, deletion and lookup are verified once for both lengths of keys.
\<close>

section \<open>Trees and their contents\<close>

datatype rtree = RLeaf | RNode nat int rtree rtree

fun rids :: "rtree \<Rightarrow> nat list" where
  "rids RLeaf = []"
| "rids (RNode a v l r) = a # rids l @ rids r"

fun contents :: "rtree \<Rightarrow> bool list \<Rightarrow> int option" where
  "contents RLeaf p = None"
| "contents (RNode a v l r) [] = (if v = NGX_RADIX_NO_VALUE then None else Some v)"
| "contents (RNode a v l r) (b # bs) = contents (if b then r else l) bs"

fun deep :: "nat \<Rightarrow> rtree \<Rightarrow> bool" where
  "deep n RLeaf = True"
| "deep 0 (RNode a v l r) = (l = RLeaf \<and> r = RLeaf)"
| "deep (Suc n) (RNode a v l r) = (deep n l \<and> deep n r)"

fun radix_at :: "(nat \<Rightarrow> ngx_radix_node) \<Rightarrow> nat \<Rightarrow> nat \<Rightarrow> rtree \<Rightarrow> bool" where
  "radix_at m q p RLeaf = (p = 0)"
| "radix_at m q p (RNode a v l r) =
     (p = a \<and> a \<noteq> 0 \<and> rn_parent (m a) = q \<and> rn_value (m a) = v \<and> radix_at m a (rn_left (m a)) l \<and> radix_at m a (rn_right (m a)) r)"

lemma radix_at_frame: "(\<And>x. x \<in> set (rids T) \<Longrightarrow> m' x = m x) \<Longrightarrow> radix_at m' q p T = radix_at m q p T"
  by (induction T arbitrary: q p) auto

lemma radix_at_null: "radix_at m q p T \<Longrightarrow> p = 0 \<longleftrightarrow> T = RLeaf"
  by (cases T) auto

section \<open>Positions\<close>

text \<open>A node with the subtree \<open>c\<close> on the side \<open>b\<close> and \<open>s\<close> on the other; a position is the list of the
  nodes above it, the nearest first.\<close>

definition rnode :: "bool \<Rightarrow> nat \<Rightarrow> int \<Rightarrow> rtree \<Rightarrow> rtree \<Rightarrow> rtree" where
  "rnode b a v c s = (if b then RNode a v s c else RNode a v c s)"

type_synonym rframe = "bool \<times> nat \<times> int \<times> rtree"

fun rplug :: "rframe list \<Rightarrow> rtree \<Rightarrow> rtree" where
  "rplug [] T = T"
| "rplug ((b, a, v, s) # k) T = rplug k (rnode b a v T s)"

definition rpath :: "rframe list \<Rightarrow> bool list" where
  "rpath k = rev (map fst k)"

fun ctx_rids :: "rframe list \<Rightarrow> nat list" where
  "ctx_rids [] = []"
| "ctx_rids ((b, a, v, s) # k) = a # rids s @ ctx_rids k"

lemma rpath_simps [simp]: "rpath [] = []" "rpath ((b, x) # k) = rpath k @ [b]" "rpath (k @ k') = rpath k' @ rpath k"
  by (simp_all add: rpath_def)

lemma rplug_append: "rplug (k @ k') T = rplug k' (rplug k T)"
  by (induction k T rule: rplug.induct) auto

lemma rnode_simps [simp]: "rnode b a v c s \<noteq> RLeaf" "set (rids (rnode b a v c s)) = insert a (set (rids c) \<union> set (rids s))"
  "distinct (rids (rnode b a v c s)) \<longleftrightarrow> distinct (a # rids c @ rids s)"
  "contents (rnode b a v c s) [] = (if v = NGX_RADIX_NO_VALUE then None else Some v)"
  "contents (rnode b a v c s) (b' # bs) = (if b' = b then contents c bs else contents s bs)"
  by (auto simp: rnode_def)

lemma rnode_cases: "RNode a v l r = rnode b a v (if b then r else l) (if b then l else r)"
  by (simp add: rnode_def)

lemma rids_plug: "set (rids (rplug k T)) = set (rids T) \<union> set (ctx_rids k)"
  "distinct (rids (rplug k T)) \<longleftrightarrow> distinct (rids T) \<and> distinct (ctx_rids k) \<and> set (rids T) \<inter> set (ctx_rids k) = {}"
  by (induction k T rule: rplug.induct) auto

lemma contents_at [simp]: "contents (rplug k T) (rpath k @ q) = contents T q"
  by (induction k T arbitrary: q rule: rplug.induct) auto

lemma contents_else: "(\<nexists>q'. q = rpath k @ q') \<Longrightarrow> contents (rplug k T) q = contents (rplug k T') q"
proof (induction k arbitrary: T T')
  case (Cons f k)
  obtain b a v s where f: "f = (b, a, v, s)" by (cases f)
  show ?case
  proof (cases "\<exists>r. q = rpath k @ r")
    case True
    then obtain r where r: "q = rpath k @ r" by blast
    then have "contents (rnode b a v T s) r = contents (rnode b a v T' s) r"
      using Cons.prems f by (cases r) auto
    then show ?thesis by (simp add: f r)
  next
    case False
    then show ?thesis using Cons.IH by (simp add: f)
  qed
qed simp

lemma contents_plug_eqI:
  assumes "\<And>q. contents T q = contents T' q" shows "contents (rplug k T) = contents (rplug k T')"
proof
  fix q
  show "contents (rplug k T) q = contents (rplug k T') q"
    using assms contents_else [of q k T T'] by (cases "\<exists>q'. q = rpath k @ q'") auto
qed

lemma contents_plug_upd:
  assumes "\<And>q. contents T' q = (if q = [] then x else contents T q)"
  shows "contents (rplug k T') = (contents (rplug k T))(rpath k := x)"
proof
  fix q
  show "contents (rplug k T') q = ((contents (rplug k T))(rpath k := x)) q"
  proof (cases "\<exists>q'. q = rpath k @ q'")
    case True
    then obtain q' where "q = rpath k @ q'" by blast
    then show ?thesis using assms by simp
  next
    case False
    moreover from this have "q \<noteq> rpath k" by auto
    ultimately show ?thesis using contents_else [of q k T' T] by simp
  qed
qed

fun subtree :: "rtree \<Rightarrow> bool list \<Rightarrow> rtree" where
  "subtree T [] = T"
| "subtree RLeaf (b # bs) = RLeaf"
| "subtree (RNode a v l r) (b # bs) = subtree (if b then r else l) bs"

lemma subtree_zip: "subtree T p \<noteq> RLeaf \<Longrightarrow> \<exists>k. T = rplug k (subtree T p) \<and> rpath k = p"
proof (induction T p rule: subtree.induct)
  case (1 T)
  then show ?case by (intro exI [of _ "[]"]) simp
next
  case (3 a v l r b bs)
  then obtain k where k: "(if b then r else l) = rplug k (subtree (if b then r else l) bs)" "rpath k = bs" by auto
  then show ?case
    by (intro exI [of _ "k @ [(b, a, v, if b then l else r)]"]) (auto simp: rplug_append rnode_def)
qed simp

lemma contents_subtree: "contents T p = contents (subtree T p) []"
  by (induction T p rule: subtree.induct) auto

fun sibs_deep :: "nat \<Rightarrow> rframe list \<Rightarrow> bool" where
  "sibs_deep n [] = True"
| "sibs_deep n ((b, a, v, s) # k) = (deep (n - Suc (length k)) s \<and> sibs_deep n k)"

lemma deep_plug: "T \<noteq> RLeaf \<Longrightarrow> deep n (rplug k T) \<longleftrightarrow> length k \<le> n \<and> deep (n - length k) T \<and> sibs_deep n k"
proof (induction k T rule: rplug.induct)
  case (2 b a v s k T)
  have "deep (n - length k) (rnode b a v T s) \<longleftrightarrow> n - length k \<noteq> 0 \<and> deep (n - length k - 1) T \<and> deep (n - length k - 1) s"
    using "2.prems" by (cases "n - length k") (auto simp: rnode_def)
  then show ?case using "2.IH" by auto
qed simp

lemma deep_mono: "deep n T \<Longrightarrow> n \<le> m \<Longrightarrow> deep m T"
proof (induction n T arbitrary: m rule: deep.induct)
  case (2 a v l r)
  then show ?case by (cases m) auto
next
  case (3 n a v l r)
  then show ?case by (cases m) auto
qed simp

lemma deep_plug_leaf: "T \<noteq> RLeaf \<Longrightarrow> deep n (rplug k T) \<Longrightarrow> deep n (rplug k RLeaf)"
proof (cases k)
  case (Cons f k')
  obtain b a v s where f: "f = (b, a, v, s)" by (cases f)
  assume "T \<noteq> RLeaf" "deep n (rplug k T)"
  then have "length k' < n" "deep (n - Suc (length k')) s" "sibs_deep n k'"
    using deep_plug [of T n k] Cons f by auto
  moreover from this obtain j where "n - length k' = Suc j" "n - Suc (length k') = j" by (cases "n - length k'") auto
  ultimately show ?thesis using Cons f deep_plug [of "rnode b a v RLeaf s" n k'] by (auto simp: rnode_def)
qed simp

section \<open>Positions in memory\<close>

definition mchild :: "(nat \<Rightarrow> ngx_radix_node) \<Rightarrow> bool \<Rightarrow> nat \<Rightarrow> nat" where
  "mchild m b a = (if b then rn_right (m a) else rn_left (m a))"

fun ctx_at :: "(nat \<Rightarrow> ngx_radix_node) \<Rightarrow> nat \<Rightarrow> rframe list \<Rightarrow> nat \<Rightarrow> nat \<Rightarrow> bool" where
  "ctx_at m r [] p q = (p = r \<and> q = 0)"
| "ctx_at m r ((b, a, v, s) # k) p q =
     (q = a \<and> mchild m b a = p \<and> a \<noteq> 0 \<and> rn_value (m a) = v \<and> radix_at m a (mchild m (\<not> b) a) s \<and> ctx_at m r k a (rn_parent (m a)))"

lemma radix_at_rnode:
  "radix_at m q p (rnode b a v c s) \<longleftrightarrow>
     p = a \<and> a \<noteq> 0 \<and> rn_parent (m a) = q \<and> rn_value (m a) = v \<and> radix_at m a (mchild m b a) c \<and> radix_at m a (mchild m (\<not> b) a) s"
  by (auto simp: rnode_def mchild_def)

lemma radix_unzip: "radix_at m 0 r (rplug k T) \<longleftrightarrow> (\<exists>p q. ctx_at m r k p q \<and> radix_at m q p T)"
  by (induction k T rule: rplug.induct) (auto simp: radix_at_rnode)

lemma radix_ctx_frame: "(\<And>x. x \<in> set (ctx_rids k) \<Longrightarrow> m' x = m x) \<Longrightarrow> ctx_at m' r k p q = ctx_at m r k p q"
proof (induction m r k p q rule: ctx_at.induct)
  case (2 m r b a v s k p q)
  have "mchild m' c a = mchild m c a" for c using "2.prems" by (simp add: mchild_def)
  moreover have "radix_at m' a x s = radix_at m a x s" for x using "2.prems" by (intro radix_at_frame) simp
  ultimately show ?case using "2.IH" "2.prems" by simp
qed simp

lemma ctx_at_unique: "ctx_at m r k p q \<Longrightarrow> ctx_at m r k p' q' \<Longrightarrow> p = p' \<and> q = q'"
  by (cases k; cases "hd k") simp_all

end
