(* ===== verification/Ngx_Radix_Ops.thy ===== *)
theory Ngx_Radix_Ops
  imports Ngx_Radix_Rep
begin

text \<open>
  The operations of the radix tree on lists of bits: each keeps the representation and changes the map
  from prefixes to values as it should.
\<close>

section \<open>The store\<close>

definition slots :: "nat \<Rightarrow> nat \<Rightarrow> nat list" where
  "slots start sz = map (\<lambda>k. start + radix_node_size * k) [0..<sz div radix_node_size]"

fun free_at :: "(nat \<Rightarrow> ngx_radix_node) \<Rightarrow> nat \<Rightarrow> nat list \<Rightarrow> bool" where
  "free_at m f [] = (f = 0)"
| "free_at m f (x # xs) = (f = x \<and> x \<noteq> 0 \<and> free_at m (rn_right (m x)) xs)"

definition fresh :: "ngx_radix_tree \<Rightarrow> nat list" where
  "fresh t = slots (rt_start t) (rt_size t) @ concat (map (\<lambda>p. slots p (rt_pagesize t)) (rt_pool t))"

text \<open>The addresses in use are \<open>A\<close>; the free list and what is left of the pages are apart from them.\<close>

definition store_ok :: "ngx_radix_tree \<Rightarrow> nat set \<Rightarrow> bool" where
  "store_ok t A \<longleftrightarrow> radix_node_size \<le> rt_pagesize t \<and> 0 \<notin> A \<and> (\<exists>fs. free_at (rt_mem t) (rt_free t) fs \<and>
     distinct (fs @ fresh t) \<and> 0 \<notin> set (fs @ fresh t) \<and> A \<inter> set (fs @ fresh t) = {})"

lemma free_at_frame: "(\<And>x. x \<in> set fs \<Longrightarrow> m' x = m x) \<Longrightarrow> free_at m' f fs = free_at m f fs"
  by (induction fs arbitrary: f) auto

lemma radix_upd_simps [simp]:
  "rt_root (radix_upd x f t) = rt_root t" "rt_free (radix_upd x f t) = rt_free t" "rt_pagesize (radix_upd x f t) = rt_pagesize t"
  "fresh (radix_upd x f t) = fresh t" "rt_mem (radix_upd x f t) = (rt_mem t)(x := f (rt_mem t x))"
  by (simp_all add: radix_upd_def fresh_def)

lemma store_ok_upd: "x \<in> A \<Longrightarrow> store_ok t A \<Longrightarrow> store_ok (radix_upd x f t) A"
  using free_at_frame [of _ "rt_mem (radix_upd x f t)" "rt_mem t"] unfolding store_ok_def by fastforce

lemma slots_Cons: "radix_node_size \<le> n \<Longrightarrow> slots a n = a # slots (a + radix_node_size) (n - radix_node_size)"
proof -
  assume n: "radix_node_size \<le> n"
  then obtain j where j: "n div radix_node_size = Suc j" "(n - radix_node_size) div radix_node_size = j"
    by (simp add: radix_node_size_def le_div_geq)
  have "[0..<Suc j] = 0 # map Suc [0..<j]" by (simp add: map_Suc_upt upt_conv_Cons del: upt_Suc)
  then show ?thesis unfolding slots_def j by (simp add: comp_def algebra_simps)
qed

lemma slots_Nil: "n < radix_node_size \<Longrightarrow> slots a n = []"
  by (simp add: slots_def)

lemma store_ok_nil:
  "rt_free t = 0 \<Longrightarrow> store_ok t A \<longleftrightarrow>
     radix_node_size \<le> rt_pagesize t \<and> 0 \<notin> A \<and> distinct (fresh t) \<and> 0 \<notin> set (fresh t) \<and> A \<inter> set (fresh t) = {}"
proof -
  have "free_at m 0 fs \<longleftrightarrow> fs = []" for m fs by (cases fs) auto
  then show "rt_free t = 0 \<Longrightarrow> ?thesis" by (simp add: store_ok_def)
qed

lemma alloc_ok:
  assumes "ngx_radix_alloc t = (x, t')" "store_ok t A"
  shows "rt_mem t' = rt_mem t" "rt_root t' = rt_root t"
    and "x = 0 \<Longrightarrow> store_ok t' A" "x \<noteq> 0 \<Longrightarrow> x \<notin> A \<and> store_ok t' (insert x A)"
    and "x = 0 \<Longrightarrow> rt_free t' = 0 \<and> fresh t' = []"
proof -
  obtain fs where s: "radix_node_size \<le> rt_pagesize t" "0 \<notin> A" "free_at (rt_mem t) (rt_free t) fs"
     "distinct (fs @ fresh t)" "0 \<notin> set (fs @ fresh t)" "A \<inter> set (fs @ fresh t) = {}"
    using assms(2) by (auto simp: store_ok_def)
  have "rt_mem t' = rt_mem t \<and> rt_root t' = rt_root t \<and> (x = 0 \<longrightarrow> store_ok t' A) \<and> (x \<noteq> 0 \<longrightarrow> x \<notin> A \<and> store_ok t' (insert x A)) \<and>
      (x = 0 \<longrightarrow> rt_free t' = 0 \<and> fresh t' = [])"
  proof (cases "rt_free t = 0")
    case False
    then obtain gs where f: "fs = rt_free t # gs" using s(3) by (cases fs) auto
    have x: "x = rt_free t" "t' = t\<lparr>rt_free := rn_right (rt_mem t (rt_free t))\<rparr>"
      using assms(1) False by (auto simp: ngx_radix_alloc_def)
    have "fresh t' = fresh t" by (simp add: x fresh_def)
    then have "store_ok t' (insert x A)" using s f False unfolding store_ok_def
      by (intro conjI exI [of _ gs]) (auto simp: x)
    then show ?thesis using False f s by (auto simp: x)
  next
    case free: True
    then have fs: "fs = []" using s(3) by (cases fs) auto
    show ?thesis
    proof (cases "rt_size t < radix_node_size")
      case False
      then have x: "x = rt_start t" "t' = t\<lparr>rt_start := rt_start t + radix_node_size, rt_size := rt_size t - radix_node_size\<rparr>"
        using assms(1) free by (auto simp: ngx_radix_alloc_def)
      have "fresh t = x # fresh t'" using False slots_Cons [of "rt_size t" "rt_start t"] by (simp add: x fresh_def)
      then have "store_ok t' (insert x A)" "x \<noteq> 0" "x \<notin> A" using s fs free by (auto simp: x store_ok_nil)
      then show ?thesis by (simp add: x)
    next
      case small: True
      show ?thesis
      proof (cases "rt_pool t")
        case Nil
        then have x: "x = 0" "t' = t\<lparr>rt_start := 0\<rparr>" using assms(1) free small by (auto simp: ngx_radix_alloc_def)
        have "fresh t' = []" "fresh t = []" using small Nil by (simp_all add: x fresh_def slots_Nil)
        then have "store_ok t' A" using s fs free by (auto simp: x store_ok_nil)
        then show ?thesis using \<open>fresh t' = []\<close> free by (simp add: x)
      next
        case (Cons p ps)
        then have x: "x = p" "t' = t\<lparr>rt_start := p + radix_node_size, rt_pool := ps, rt_size := rt_pagesize t - radix_node_size\<rparr>"
          using assms(1) free small by (auto simp: ngx_radix_alloc_def)
        have "fresh t = x # fresh t'" using small Cons slots_Cons [OF s(1), of p] by (simp add: x fresh_def slots_Nil)
        then have "store_ok t' (insert x A)" "x \<noteq> 0" "x \<notin> A" using s fs free by (auto simp: x store_ok_nil)
        then show ?thesis by (simp add: x)
      qed
    qed
  qed
  then show "rt_mem t' = rt_mem t" "rt_root t' = rt_root t" "x = 0 \<Longrightarrow> store_ok t' A" "x \<noteq> 0 \<Longrightarrow> x \<notin> A \<and> store_ok t' (insert x A)"
    "x = 0 \<Longrightarrow> rt_free t' = 0 \<and> fresh t' = []"
    by blast+
qed

definition radix_rep :: "ngx_radix_tree \<Rightarrow> rtree \<Rightarrow> bool" where
  "radix_rep t T \<longleftrightarrow> radix_at (rt_mem t) 0 (rt_root t) T \<and> T \<noteq> RLeaf \<and> distinct (rids T) \<and> store_ok t (set (rids T))"

section \<open>Loops over bits\<close>

fun walk_bits :: "ngx_radix_tree \<Rightarrow> bool list \<Rightarrow> nat \<Rightarrow> nat \<Rightarrow> bool list \<times> nat \<times> nat" where
  "walk_bits t [] node next = ([], node, next)"
| "walk_bits t (b # bs) node next =
     (let next = radix_child b t node in if next = 0 then (b # bs, node, 0) else walk_bits t bs next next)"

fun extend_bits :: "ngx_radix_tree \<Rightarrow> bool list \<Rightarrow> nat \<Rightarrow> ngx_radix_tree \<times> nat option" where
  "extend_bits t [] node = (t, Some node)"
| "extend_bits t (b # bs) node =
     (case ngx_radix_alloc t of
        (next, t) \<Rightarrow> if next = 0 then (t, None) else extend_bits (radix_link b node next t) bs next)"

fun descend_bits :: "ngx_radix_tree \<Rightarrow> bool list \<Rightarrow> nat \<Rightarrow> nat" where
  "descend_bits t [] node = node"
| "descend_bits t (b # bs) node = (if node = 0 then 0 else descend_bits t bs (radix_child b t node))"

definition insert_bits :: "bool list \<Rightarrow> int \<Rightarrow> ngx_radix_tree \<Rightarrow> ngx_rc \<times> ngx_radix_tree" where
  "insert_bits bs value t =
     (case walk_bits t bs (rt_root t) (rt_root t) of
        (rest, node, next) \<Rightarrow>
          if next \<noteq> 0 then
            if rn_value (rt_mem t node) \<noteq> NGX_RADIX_NO_VALUE then (NGX_BUSY, t)
            else (NGX_OK, radix_upd node (\<lambda>n. n\<lparr>rn_value := value\<rparr>) t)
          else
            case extend_bits t rest node of
              (t, None) \<Rightarrow> (NGX_ERROR, t)
            | (t, Some node) \<Rightarrow> (NGX_OK, radix_upd node (\<lambda>n. n\<lparr>rn_value := value\<rparr>) t))"

lemma radix_child_mchild: "radix_child b t x = mchild (rt_mem t) b x"
  by (simp add: radix_child_def mchild_def)

text \<open>Where the first loop stops.\<close>

lemma walk_zip:
  assumes "radix_at (rt_mem t) 0 r (rplug k (RNode a v l s))" "walk_bits t bs a a = (rest, node, next)"
  shows "\<exists>k' v' l' r'. rplug k (RNode a v l s) = rplug k' (RNode node v' l' r') \<and> rpath k @ bs = rpath k' @ rest \<and>
    (if next = 0 then \<exists>b bs'. rest = b # bs' \<and> (if b then r' else l') = RLeaf else rest = [])"
  using assms
proof (induction bs arbitrary: k a v l s)
  case Nil
  then have "a \<noteq> 0" using Nil.prems(1) by (auto simp: radix_unzip)
  then show ?case using Nil.prems(2) by auto
next
  case (Cons b bs)
  let ?c = "if b then s else l" and ?sib = "if b then l else s"
  have n: "RNode a v l s = rnode b a v ?c ?sib" by (rule rnode_cases)
  obtain p q where "radix_at (rt_mem t) q p (RNode a v l s)" using Cons.prems(1) unfolding radix_unzip by blast
  then have c: "radix_at (rt_mem t) a (radix_child b t a) ?c"
    unfolding n radix_at_rnode radix_child_mchild by blast
  show ?case
  proof (cases "radix_child b t a = 0")
    case True
    then have "?c = RLeaf" using radix_at_null [OF c] by simp
    moreover have "rest = b # bs" "node = a" "next = 0" using Cons.prems(2) True by (simp_all add: Let_def)
    ultimately show ?thesis by (intro exI [of _ k] exI [of _ v] exI [of _ l] exI [of _ s]) simp
  next
    case False
    then obtain v' l' s' where c': "?c = RNode (radix_child b t a) v' l' s'" using c by (cases ?c) auto
    have w: "walk_bits t bs (radix_child b t a) (radix_child b t a) = (rest, node, next)" using Cons.prems(2) False by (simp add: Let_def)
    have p: "rplug ((b, a, v, ?sib) # k) (RNode (radix_child b t a) v' l' s') = rplug k (RNode a v l s)"
      unfolding rplug.simps n c' ..
    show ?thesis using Cons.IH [OF _ w, of "(b, a, v, ?sib) # k" v' l' s'] Cons.prems(1) unfolding p rpath_simps by auto
  qed
qed

text \<open>A new leaf below a node.\<close>

lemma link_rep:
  assumes "radix_at (rt_mem t) 0 (rt_root t) (rplug k (rnode b a v RLeaf s))" "distinct (rids (rplug k (rnode b a v RLeaf s)))"
    and x: "x \<noteq> 0" "x \<notin> set (rids (rplug k (rnode b a v RLeaf s)))"
  shows "radix_at (rt_mem (radix_link b a x t)) 0 (rt_root t) (rplug ((b, a, v, s) # k) (RNode x NGX_RADIX_NO_VALUE RLeaf RLeaf))"
proof -
  let ?m = "rt_mem t" and ?m' = "rt_mem (radix_link b a x t)"
  obtain p q where c: "ctx_at ?m (rt_root t) k p q" "radix_at ?m q p (rnode b a v RLeaf s)" using assms(1) by (auto simp: radix_unzip)
  have ne: "a \<noteq> x" "a \<notin> set (rids s)" "a \<notin> set (ctx_rids k)" using assms(2) x(2) by (auto simp: rids_plug)
  have m: "?m' y = ?m y" if "y \<noteq> a" "y \<noteq> x" for y using that by (simp add: radix_link_def set_radix_child_def)
  have a: "mchild ?m' b a = x" "mchild ?m' (\<not> b) a = mchild ?m (\<not> b) a" "rn_value (?m' a) = rn_value (?m a)" "rn_parent (?m' a) = rn_parent (?m a)"
    using ne by (auto simp: radix_link_def set_radix_child_def mchild_def)
  have xx: "rn_right (?m' x) = 0" "rn_left (?m' x) = 0" "rn_parent (?m' x) = a" "rn_value (?m' x) = NGX_RADIX_NO_VALUE"
    using ne by (auto simp: radix_link_def set_radix_child_def)
  have "x \<notin> set (rids s)" "x \<notin> set (ctx_rids k)" using x(2) by (auto simp: rids_plug)
  then have "\<And>y. y \<in> set (rids s) \<Longrightarrow> ?m' y = ?m y" "\<And>y. y \<in> set (ctx_rids k) \<Longrightarrow> ?m' y = ?m y" using m ne by metis+
  then have "radix_at ?m' a y s = radix_at ?m a y s" "ctx_at ?m' (rt_root t) k p q = ctx_at ?m (rt_root t) k p q" for y
    using radix_at_frame radix_ctx_frame by blast+
  then have "ctx_at ?m' (rt_root t) ((b, a, v, s) # k) x a" using c a by (simp add: radix_at_rnode)
  moreover have "radix_at ?m' a x (RNode x NGX_RADIX_NO_VALUE RLeaf RLeaf)" using x xx by simp
  ultimately show ?thesis unfolding radix_unzip by blast
qed

lemma link_radix_rep:
  assumes "radix_rep t (rplug k (rnode b a v RLeaf s))" "ngx_radix_alloc t = (x, t')" "x \<noteq> 0"
  shows "radix_rep (radix_link b a x t') (rplug ((b, a, v, s) # k) (RNode x NGX_RADIX_NO_VALUE RLeaf RLeaf))"
proof -
  let ?T = "rplug k (rnode b a v RLeaf s)" and ?T' = "rplug ((b, a, v, s) # k) (RNode x NGX_RADIX_NO_VALUE RLeaf RLeaf)"
  have r: "radix_at (rt_mem t) 0 (rt_root t) ?T" "distinct (rids ?T)" "store_ok t (set (rids ?T))" using assms(1) by (auto simp: radix_rep_def)
  note A = alloc_ok [OF assms(2) r(3)]
  have x: "x \<notin> set (rids ?T)" "store_ok t' (insert x (set (rids ?T)))" using A(4) assms(3) by auto
  have i: "set (rids ?T') = insert x (set (rids ?T))" "distinct (rids ?T')" using r(2) x(1) by (auto simp: rids_plug)
  have "a \<in> set (rids ?T')" "x \<in> set (rids ?T')" by (auto simp: rids_plug)
  then have "store_ok (radix_link b a x t') (set (rids ?T'))"
    using x(2) unfolding radix_link_def set_radix_child_def i(1) by (intro store_ok_upd) auto
  moreover have "radix_at (rt_mem (radix_link b a x t')) 0 (rt_root t') ?T'"
    using link_rep [of t' k b a v s x] r(1,2) A(1,2) assms(3) x(1) by simp
  moreover have "?T' \<noteq> RLeaf" using i(1) by auto
  ultimately show ?thesis using i(2) by (simp add: radix_rep_def radix_link_def set_radix_child_def)
qed

lemma contents_new_leaf: "contents (rplug ((b, a, v, s) # k) (RNode x NGX_RADIX_NO_VALUE RLeaf RLeaf)) = contents (rplug k (rnode b a v RLeaf s))"
proof -
  have "contents (RNode x NGX_RADIX_NO_VALUE RLeaf RLeaf) q = contents RLeaf q" for q by (cases q) auto
  from contents_plug_eqI [OF this, of "(b, a, v, s) # k"] show ?thesis by simp
qed

lemma deep_new_leaf:
  "deep n (rplug k (rnode b a v RLeaf s)) \<Longrightarrow> length k < n \<Longrightarrow> deep n (rplug ((b, a, v, s) # k) (RNode x NGX_RADIX_NO_VALUE RLeaf RLeaf))"
proof -
  assume d: "deep n (rplug k (rnode b a v RLeaf s))" "length k < n"
  then obtain j where j: "n - length k = Suc j" "n - Suc (length k) = j" by (cases "n - length k") auto
  then have "deep j s" "sibs_deep n k" using d(1) deep_plug [of "rnode b a v RLeaf s" n k] by (auto simp: rnode_def split: if_splits)
  moreover have "deep j (RNode x NGX_RADIX_NO_VALUE RLeaf RLeaf)" by (cases j) auto
  ultimately show ?thesis using deep_plug [of "RNode x NGX_RADIX_NO_VALUE RLeaf RLeaf" n "(b, a, v, s) # k"] d(2) j by simp
qed

text \<open>The second loop: the tree stands for the same map, with a node at the end of the prefix unless the
  memory runs out.\<close>

lemma radix_extend_ok:
  assumes "radix_rep t (rplug k (RNode a v l r))" "extend_bits t bs a = (t', res)" "bs \<noteq> [] \<longrightarrow> (if hd bs then r else l) = RLeaf"
    and "deep n (rplug k (RNode a v l r))" "length k + length bs \<le> n" "bs = [] \<longrightarrow> contents (RNode a v l r) [] = None"
  shows "\<exists>T'. radix_rep t' T' \<and> deep n T' \<and> contents T' = contents (rplug k (RNode a v l r)) \<and>
    (\<forall>x. res = Some x \<longrightarrow> (\<exists>k' v' l' r'. T' = rplug k' (RNode x v' l' r') \<and> rpath k' = rpath k @ bs)) \<and>
    (res = None \<longrightarrow> rt_free t' = 0 \<and> fresh t' = [])"
  using assms
proof (induction bs arbitrary: t k a v l r)
  case Nil
  then show ?case by (intro exI [of _ "rplug k (RNode a v l r)"]) auto
next
  case (Cons b bs)
  let ?s = "if b then l else r"
  have n: "RNode a v l r = rnode b a v RLeaf ?s" using Cons.prems(3) by (auto simp: rnode_def)
  obtain x t1 where x: "ngx_radix_alloc t = (x, t1)" by (metis surj_pair)
  show ?case
  proof (cases "x = 0")
    case True
    have "store_ok t (set (rids (rplug k (RNode a v l r))))" using Cons.prems(1) by (simp add: radix_rep_def)
    from alloc_ok(1-3,5) [OF x this] have "radix_rep t1 (rplug k (RNode a v l r))" "rt_free t1 = 0 \<and> fresh t1 = []"
      using Cons.prems(1) True by (simp_all add: radix_rep_def)
    then show ?thesis using Cons.prems(2,4) x True by (intro exI [of _ "rplug k (RNode a v l r)"]) auto
  next
    case False
    let ?k = "(b, a, v, ?s) # k" and ?N = "RNode x NGX_RADIX_NO_VALUE RLeaf RLeaf"
    have rep: "radix_rep (radix_link b a x t1) (rplug ?k ?N)" using link_radix_rep [OF _ x False] Cons.prems(1) unfolding n by blast
    have e: "extend_bits (radix_link b a x t1) bs x = (t', res)" using Cons.prems(2) x False by simp
    have d: "deep n (rplug ?k ?N)" using Cons.prems(4,5) unfolding n by (intro deep_new_leaf) auto
    have c: "contents (rplug ?k ?N) = contents (rplug k (RNode a v l r))" unfolding n by (rule contents_new_leaf)
    have "\<exists>T'. radix_rep t' T' \<and> deep n T' \<and> contents T' = contents (rplug ?k ?N) \<and>
      (\<forall>y. res = Some y \<longrightarrow> (\<exists>k' v' l' r'. T' = rplug k' (RNode y v' l' r') \<and> rpath k' = rpath ?k @ bs)) \<and>
      (res = None \<longrightarrow> rt_free t' = 0 \<and> fresh t' = [])"
      by (rule Cons.IH [OF rep e _ d]) (use Cons.prems(5) in auto)
    then show ?thesis unfolding c by simp
  qed
qed

lemma value_rep:
  assumes "radix_rep t (rplug k (RNode a v l r))"
  shows "radix_rep (radix_upd a (\<lambda>n. n\<lparr>rn_value := w\<rparr>) t) (rplug k (RNode a w l r))"
proof -
  let ?T = "rplug k (RNode a v l r)" and ?T' = "rplug k (RNode a w l r)" and ?m' = "rt_mem (radix_upd a (\<lambda>n. n\<lparr>rn_value := w\<rparr>) t)"
  have r: "radix_at (rt_mem t) 0 (rt_root t) ?T" "distinct (rids ?T)" "store_ok t (set (rids ?T))" using assms by (auto simp: radix_rep_def)
  have i: "set (rids ?T') = set (rids ?T)" "distinct (rids ?T')" using r(2) by (auto simp: rids_plug)
  obtain p q where c: "ctx_at (rt_mem t) (rt_root t) k p q" "radix_at (rt_mem t) q p (RNode a v l r)" using r(1) by (auto simp: radix_unzip)
  have ne: "a \<notin> set (rids l)" "a \<notin> set (rids r)" "a \<notin> set (ctx_rids k)" using r(2) by (auto simp: rids_plug)
  have "ctx_at ?m' (rt_root t) k p q" using c(1) ne(3) by (subst radix_ctx_frame) auto
  moreover have "radix_at ?m' a y l = radix_at (rt_mem t) a y l" "radix_at ?m' a y r = radix_at (rt_mem t) a y r" for y
    using ne by (auto intro!: radix_at_frame)
  then have "radix_at ?m' q p (RNode a w l r)" using c(2) by simp
  ultimately have "radix_at ?m' 0 (rt_root t) ?T'" unfolding radix_unzip by blast
  moreover have "store_ok (radix_upd a (\<lambda>n. n\<lparr>rn_value := w\<rparr>) t) (set (rids ?T'))"
    using r(3) unfolding i(1) by (intro store_ok_upd) (auto simp: rids_plug)
  moreover have "?T' \<noteq> RLeaf" using rids_plug(1) [of k "RNode a w l r"] by auto
  ultimately show ?thesis using i(2) by (simp add: radix_rep_def)
qed

lemma deep_value: "deep n (rplug k (RNode a v l r)) \<longleftrightarrow> deep n (rplug k (RNode a w l r))"
  by (simp add: deep_plug) (cases "n - length k"; simp)

section \<open>Insertion\<close>

definition radix_val :: "int \<Rightarrow> int option" where
  "radix_val v = (if v = NGX_RADIX_NO_VALUE then None else Some v)"

lemma insert_at_node:
  assumes "radix_rep t (rplug k (RNode a v l r))" "deep n (rplug k (RNode a v l r))"
  shows "\<exists>T'. radix_rep (radix_upd a (\<lambda>n. n\<lparr>rn_value := w\<rparr>) t) T' \<and> deep n T' \<and>
    contents T' = (contents (rplug k (RNode a v l r)))(rpath k := radix_val w)"
proof -
  have "contents (RNode a w l r) q = (if q = [] then radix_val w else contents (RNode a v l r) q)" for q
    by (cases q) (auto simp: radix_val_def)
  from contents_plug_upd [OF this, of k] show ?thesis using value_rep [OF assms(1)] assms(2) deep_value by metis
qed

lemma insert_bits_ok:
  assumes "radix_rep t T" "deep n T" "length bs \<le> n" "insert_bits bs value t = (rc, t')"
  shows "\<exists>T'. radix_rep t' T' \<and> deep n T' \<and>
    (case rc of NGX_OK \<Rightarrow> contents T bs = None \<and> contents T' = (contents T)(bs := radix_val value)
     | NGX_BUSY \<Rightarrow> contents T bs \<noteq> None \<and> T' = T \<and> t' = t
     | NGX_ERROR \<Rightarrow> contents T bs = None \<and> contents T' = contents T \<and> rt_free t' = 0 \<and> fresh t' = []
     | _ \<Rightarrow> False)"
proof -
  obtain a v l r where T: "T = rplug [] (RNode a v l r)" "rt_root t = a" using assms(1) by (cases T) (auto simp: radix_rep_def)
  obtain rest node nx where w: "walk_bits t bs a a = (rest, node, nx)" by (metis prod_cases3)
  obtain k v' l' r' where z: "T = rplug k (RNode node v' l' r')" "bs = rpath k @ rest"
    "if nx = 0 then \<exists>b bs'. rest = b # bs' \<and> (if b then r' else l') = RLeaf else rest = []"
    using walk_zip [of t "rt_root t" "[]" a v l r bs, OF _ w] assms(1) T by (auto simp: radix_rep_def)
  have val: "rn_value (rt_mem t node) = v'" using assms(1) z(1) by (auto simp: radix_rep_def radix_unzip)
  show ?thesis
  proof (cases "nx = 0")
    case False
    then have r: "rest = []" "bs = rpath k" using z by simp_all
    have c: "contents T bs = radix_val v'" using contents_at [of k "RNode node v' l' r'" "[]"] z(1) r by (simp add: radix_val_def)
    show ?thesis
    proof (cases "v' = NGX_RADIX_NO_VALUE")
      case True
      then have "rc = NGX_OK" "t' = radix_upd node (\<lambda>n. n\<lparr>rn_value := value\<rparr>) t"
        using assms(4) w T(2) False val by (auto simp: insert_bits_def)
      then show ?thesis using insert_at_node [of t k node v' l' r' n "value"] assms(1,2) c True unfolding z(1) [symmetric] r(2) [symmetric]
        by (simp add: radix_val_def)
    next
      case nv: False
      then have "rc = NGX_BUSY" "t' = t" using assms(4) w T(2) False val by (auto simp: insert_bits_def)
      then show ?thesis using assms(1,2) c nv by (simp add: radix_val_def)
    qed
  next
    case True
    then obtain b bs' where r: "rest = b # bs'" "(if b then r' else l') = RLeaf" using z(3) by auto
    have "contents T bs = None" using contents_at [of k "RNode node v' l' r'" rest] z(1,2) r by (cases b) auto
    obtain t1 res where e: "extend_bits t rest node = (t1, res)" by (metis surj_pair)
    have "length k + length rest \<le> n" using assms(3) z(2) by (simp add: rpath_def)
    then obtain T1 where T1: "radix_rep t1 T1" "deep n T1" "contents T1 = contents T"
      "\<And>x. res = Some x \<Longrightarrow> \<exists>k' v' l' r'. T1 = rplug k' (RNode x v' l' r') \<and> rpath k' = bs" "res = None \<longrightarrow> rt_free t1 = 0 \<and> fresh t1 = []"
      using radix_extend_ok [of t k node v' l' r' rest t1 res n] assms(1,2) e r unfolding z(2) by (auto simp: z(1))
    show ?thesis
    proof (cases res)
      case None
      then have "rc = NGX_ERROR" "t' = t1" using assms(4) w T(2) True e by (auto simp: insert_bits_def)
      then show ?thesis using T1 None \<open>contents T bs = None\<close> by (intro exI [of _ T1]) simp
    next
      case (Some x)
      then have o: "rc = NGX_OK" "t' = radix_upd x (\<lambda>n. n\<lparr>rn_value := value\<rparr>) t1" using assms(4) w T(2) True e by (auto simp: insert_bits_def)
      obtain k' v'' l'' r'' where x: "T1 = rplug k' (RNode x v'' l'' r'')" "rpath k' = bs" using T1(4) [OF Some] by blast
      show ?thesis using insert_at_node [of t1 k' x v'' l'' r'' n "value"] T1(1,2,3) \<open>contents T bs = None\<close> o unfolding x(1) [symmetric] x(2) by simp
    qed
  qed
qed

section \<open>Deletion\<close>

lemma descend_subtree:
  "radix_at (rt_mem t) q p T \<Longrightarrow> \<exists>q'. radix_at (rt_mem t) q' (descend_bits t bs p) (subtree T bs)"
proof (induction bs arbitrary: p q T)
  case (Cons b bs)
  show ?case
  proof (cases T)
    case (RNode a v l r)
    then have "radix_at (rt_mem t) a (radix_child b t p) (if b then r else l)" using Cons.prems by (simp add: radix_child_def)
    then show ?thesis using Cons.IH RNode Cons.prems by simp
  qed (use Cons.prems in simp)
qed auto

text \<open>What is left when a leaf is pruned.\<close>

fun pruned :: "rframe list \<Rightarrow> rtree" where
  "pruned [] = RLeaf"
| "pruned ((b, a, v, s) # k) =
     (if s \<noteq> RLeaf \<or> v \<noteq> NGX_RADIX_NO_VALUE \<or> k = [] then rplug k (rnode b a v RLeaf s) else pruned k)"

lemma pruned_contents: "k \<noteq> [] \<Longrightarrow> contents (pruned k) = contents (rplug k RLeaf)"
proof (induction k rule: pruned.induct)
  case (2 b a v s k)
  have "contents (rnode b a NGX_RADIX_NO_VALUE RLeaf RLeaf) q = contents RLeaf q" for q by (cases q) auto
  from contents_plug_eqI [OF this, of k] show ?case using "2.IH" by auto
qed simp

lemma pruned_deep: "k \<noteq> [] \<Longrightarrow> deep n (rplug k RLeaf) \<Longrightarrow> deep n (pruned k)"
proof (induction k rule: pruned.induct)
  case (2 b a v s k)
  then show ?case using deep_plug_leaf [of "rnode b a v RLeaf s" n k] by auto
qed simp

lemma unlink_rep:
  assumes "radix_rep t (rplug ((b, a, v, s) # k) (RNode x w RLeaf RLeaf))"
    and "t' = (radix_upd x (\<lambda>n. n\<lparr>rn_right := rt_free t\<rparr>) (set_radix_child b a 0 t))\<lparr>rt_free := x\<rparr>"
  shows "radix_rep t' (rplug k (rnode b a v RLeaf s))"
proof -
  let ?T = "rplug ((b, a, v, s) # k) (RNode x w RLeaf RLeaf)" and ?T' = "rplug k (rnode b a v RLeaf s)"
  let ?m = "rt_mem t" and ?m' = "rt_mem t'"
  have r: "radix_at ?m 0 (rt_root t) ?T" "distinct (rids ?T)" "store_ok t (set (rids ?T))" using assms(1) by (auto simp: radix_rep_def)
  have i: "set (rids ?T) = insert x (set (rids ?T'))" "x \<notin> set (rids ?T')" "distinct (rids ?T')" using r(2) by (auto simp: rids_plug)
  have ne: "a \<noteq> x" "a \<notin> set (rids s)" "a \<notin> set (ctx_rids k)" "x \<notin> set (rids s)" "x \<notin> set (ctx_rids k)" using r(2) by (auto simp: rids_plug)
  obtain p q where "ctx_at ?m (rt_root t) ((b, a, v, s) # k) p q" "radix_at ?m q p (RNode x w RLeaf RLeaf)" using r(1) unfolding radix_unzip by blast
  then have c: "a \<noteq> 0" "x \<noteq> 0" "rn_value (?m a) = v" "radix_at ?m a (mchild ?m (\<not> b) a) s" "ctx_at ?m (rt_root t) k a (rn_parent (?m a))" by auto
  have m: "?m' y = ?m y" if "y \<noteq> a" "y \<noteq> x" for y using that by (simp add: assms(2) set_radix_child_def)
  have a: "mchild ?m' b a = 0" "mchild ?m' (\<not> b) a = mchild ?m (\<not> b) a" "rn_value (?m' a) = v" "rn_parent (?m' a) = rn_parent (?m a)"
    using ne c by (auto simp: assms(2) set_radix_child_def mchild_def)
  have "\<And>y. y \<in> set (rids s) \<Longrightarrow> ?m' y = ?m y" "\<And>y. y \<in> set (ctx_rids k) \<Longrightarrow> ?m' y = ?m y" using m ne by metis+
  then have "radix_at ?m' a y s = radix_at ?m a y s" "ctx_at ?m' (rt_root t) k p' q' = ctx_at ?m (rt_root t) k p' q'" for y p' q'
    using radix_at_frame radix_ctx_frame by blast+
  then have "radix_at ?m' 0 (rt_root t) ?T'" using c a unfolding radix_unzip
    by (intro exI [of _ a] exI [of _ "rn_parent (?m a)"]) (simp add: radix_at_rnode)
  moreover have "store_ok t' (set (rids ?T'))"
  proof -
    obtain fs where f: "radix_node_size \<le> rt_pagesize t" "0 \<notin> set (rids ?T)" "free_at ?m (rt_free t) fs" "distinct (fs @ fresh t)"
      "0 \<notin> set (fs @ fresh t)" "set (rids ?T) \<inter> set (fs @ fresh t) = {}"
      using r(3) unfolding store_ok_def by blast
    have "a \<in> set (rids ?T)" "x \<in> set (rids ?T)" by (auto simp: rids_plug)
    then have "a \<notin> set fs" "x \<notin> set fs" using f(6) by auto
    then have "\<And>y. y \<in> set fs \<Longrightarrow> ?m' y = ?m y" using m by metis
    then have "free_at ?m' (rt_free t) fs" using free_at_frame f(3) by blast
    moreover have "rn_right (?m' x) = rt_free t" "rt_free t' = x" "rt_pagesize t' = rt_pagesize t"
      by (simp_all add: assms(2) set_radix_child_def)
    moreover have "fresh t' = fresh t" by (simp add: assms(2) set_radix_child_def fresh_def radix_upd_def)
    ultimately show ?thesis using f i c(2) unfolding store_ok_def by (intro conjI exI [of _ "x # fs"]) auto
  qed
  moreover have "?T' \<noteq> RLeaf" using rids_plug(1) [of k "rnode b a v RLeaf s"] by auto
  moreover have "rt_root t' = rt_root t" by (simp add: assms(2) set_radix_child_def)
  ultimately show ?thesis using i(3) by (simp add: radix_rep_def)
qed

lemma prune_ok:
  assumes "radix_rep t (rplug k (RNode x w RLeaf RLeaf))" "k \<noteq> []"
  shows "\<exists>t'. radix_prune x t = Some t' \<and> radix_rep t' (pruned k)"
  using assms
proof (induction k arbitrary: t x w)
  case (Cons f k)
  obtain b a v s where f: "f = (b, a, v, s)" by (cases f)
  define t1 where "t1 = (radix_upd x (\<lambda>n. n\<lparr>rn_right := rt_free t\<rparr>) (set_radix_child b a 0 t))\<lparr>rt_free := x\<rparr>"
  have rep: "radix_rep t1 (rplug k (rnode b a v RLeaf s))" using unlink_rep [of t b a v s k x w] Cons.prems(1) by (simp add: f t1_def)
  obtain p q where c: "ctx_at (rt_mem t) (rt_root t) ((b, a, v, s) # k) p q" "radix_at (rt_mem t) q p (RNode x w RLeaf RLeaf)"
    using Cons.prems(1) unfolding radix_rep_def radix_unzip f by blast
  then have x: "rn_parent (rt_mem t x) = a" "a \<noteq> 0" "mchild (rt_mem t) b a = x" "x \<noteq> 0" "radix_at (rt_mem t) a (mchild (rt_mem t) (\<not> b) a) s" by auto
  have "x \<notin> set (rids s)" using Cons.prems(1) by (auto simp: radix_rep_def rids_plug f)
  then have "mchild (rt_mem t) (\<not> b) a \<noteq> x" using x(4,5) by (cases s) auto
  then have side: "(rn_right (rt_mem t a) = x) = b" using x(3) by (auto simp: mchild_def split: if_splits)
  obtain p' q' where c': "ctx_at (rt_mem t1) (rt_root t1) k p' q'" "radix_at (rt_mem t1) q' p' (rnode b a v RLeaf s)"
    using rep unfolding radix_rep_def radix_unzip by blast
  then have a: "p' = a" "rn_parent (rt_mem t1 a) = q'" "rn_value (rt_mem t1 a) = v" "radix_at (rt_mem t1) a (mchild (rt_mem t1) (\<not> b) a) s" "mchild (rt_mem t1) b a = 0"
    by (auto simp: radix_at_rnode)
  have ch: "rn_right (rt_mem t1 a) \<noteq> 0 \<or> rn_left (rt_mem t1 a) \<noteq> 0 \<longleftrightarrow> s \<noteq> RLeaf"
    using radix_at_null [OF a(4)] a(5) by (auto simp: mchild_def split: if_splits)
  have par: "q' = 0 \<longleftrightarrow> k = []" using c'(1) by (cases k; cases "hd k") auto
  have step: "radix_prune x t = (if s \<noteq> RLeaf \<or> v \<noteq> NGX_RADIX_NO_VALUE \<or> k = [] then Some t1 else radix_prune a t1)"
    using ch par a(2,3) x(1,2) side by (subst radix_prune.simps) (auto simp: Let_def t1_def set_radix_child_def)
  show ?case
  proof (cases "s \<noteq> RLeaf \<or> v \<noteq> NGX_RADIX_NO_VALUE \<or> k = []")
    case True
    then show ?thesis using step rep by (simp add: f)
  next
    case False
    then have "radix_rep t1 (rplug k (RNode a NGX_RADIX_NO_VALUE RLeaf RLeaf))" using rep by (simp add: rnode_def split: if_splits)
    then show ?thesis using Cons.IH False step by (simp add: f)
  qed
qed simp

lemma delete_ok:
  assumes "radix_rep t T" "deep n T" "bs \<noteq> [] \<or> (\<nexists>a v. T = RNode a v RLeaf RLeaf)"
  shows "\<exists>rc t' T'. radix_delete_node (descend_bits t bs (rt_root t)) t = Some (rc, t') \<and> radix_rep t' T' \<and> deep n T' \<and>
    contents T' = (contents T)(bs := None) \<and> (contents T bs \<noteq> None \<longrightarrow> rc = NGX_OK) \<and> (rc = NGX_OK \<or> rc = NGX_ERROR \<and> t' = t)"
proof -
  let ?p = "descend_bits t bs (rt_root t)" and ?N = "subtree T bs"
  obtain q where q: "radix_at (rt_mem t) q ?p ?N" using descend_subtree [of t 0 "rt_root t" T bs] assms(1) by (auto simp: radix_rep_def)
  have cb: "contents T bs = contents ?N []" by (rule contents_subtree)
  show ?thesis
  proof (cases ?N)
    case RLeaf
    then have "contents T = (contents T)(bs := None)" using cb by auto
    then show ?thesis using q RLeaf assms(1,2) cb by (intro exI [of _ NGX_ERROR] exI [of _ t] exI [of _ T]) (auto simp: radix_delete_node_def)
  next
    case (RNode a v l r)
    then obtain k where k: "T = rplug k (RNode a v l r)" "rpath k = bs" using subtree_zip [of T bs] by auto
    have p: "?p = a" "a \<noteq> 0" "rn_value (rt_mem t a) = v" "rn_left (rt_mem t a) = 0 \<longleftrightarrow> l = RLeaf" "rn_right (rt_mem t a) = 0 \<longleftrightarrow> r = RLeaf"
      using q RNode radix_at_null by auto
    show ?thesis
    proof (cases "l = RLeaf \<and> r = RLeaf")
      case False
      show ?thesis
      proof (cases "v = NGX_RADIX_NO_VALUE")
        case True
        then have "contents T = (contents T)(bs := None)" using cb RNode by auto
        then show ?thesis using p False True assms(1,2) cb RNode
          by (intro exI [of _ NGX_ERROR] exI [of _ t] exI [of _ T]) (auto simp: radix_delete_node_def)
      next
        case nv: False
        obtain T' where "radix_rep (radix_upd a (\<lambda>n. n\<lparr>rn_value := NGX_RADIX_NO_VALUE\<rparr>) t) T'" "deep n T'" "contents T' = (contents T)(bs := None)"
          using insert_at_node [of t k a v l r n NGX_RADIX_NO_VALUE] assms(1,2) k by (auto simp: radix_val_def)
        then show ?thesis using p False nv by (intro exI [of _ NGX_OK]) (auto simp: radix_delete_node_def)
      qed
    next
      case leaf: True
      then have "k \<noteq> []" using assms(3) k by auto
      then obtain t' where t': "radix_prune a t = Some t'" "radix_rep t' (pruned k)" using prune_ok [of t k a v] assms(1) k leaf by auto
      have "contents RLeaf q' = (if q' = [] then None else contents (RNode a v RLeaf RLeaf) q')" for q' by (cases q') auto
      from contents_plug_upd [OF this, of k] have "contents (pruned k) = (contents T)(bs := None)"
        using pruned_contents [OF \<open>k \<noteq> []\<close>] k leaf by simp
      moreover have "deep n (pruned k)" using pruned_deep [OF \<open>k \<noteq> []\<close>] deep_plug_leaf [of "RNode a v l r" n k] assms(2) k by auto
      ultimately show ?thesis using t' p leaf by (intro exI [of _ NGX_OK]) (auto simp: radix_delete_node_def)
    qed
  qed
qed

text \<open>The deletion of the empty prefix from a tree with nothing else follows the null parent of the root.\<close>

lemma delete_root_fault:
  assumes "radix_rep t (RNode a v RLeaf RLeaf)" shows "radix_delete_node (rt_root t) t = None"
proof -
  have "rt_root t = a" "a \<noteq> 0" "rn_parent (rt_mem t a) = 0" "rn_left (rt_mem t a) = 0" "rn_right (rt_mem t a) = 0"
    using assms by (auto simp: radix_rep_def)
  then show ?thesis by (subst radix_delete_node_def, subst radix_prune.simps) (simp add: Let_def)
qed

section \<open>Lookup\<close>

fun lpm :: "rtree \<Rightarrow> bool list \<Rightarrow> int \<Rightarrow> int" where
  "lpm RLeaf bs acc = acc"
| "lpm (RNode a v l r) [] acc = (if v = NGX_RADIX_NO_VALUE then acc else v)"
| "lpm (RNode a v l r) (b # bs) acc = lpm (if b then r else l) bs (if v = NGX_RADIX_NO_VALUE then acc else v)"

text \<open>The value of the longest prefix in a map, or the default when there is none.\<close>

definition longest_match :: "(bool list \<Rightarrow> int option) \<Rightarrow> bool list \<Rightarrow> int \<Rightarrow> int \<Rightarrow> bool" where
  "longest_match c bs dflt r \<longleftrightarrow>
     (\<exists>n \<le> length bs. c (take n bs) = Some r \<and> (\<forall>m. n < m \<longrightarrow> m \<le> length bs \<longrightarrow> c (take m bs) = None)) \<or>
     r = dflt \<and> (\<forall>n \<le> length bs. c (take n bs) = None)"

lemma lpm_longest: "longest_match (contents T) bs acc (lpm T bs acc)"
proof (induction T bs acc rule: lpm.induct)
  case (3 a v l r b bs acc)
  let ?c = "if b then r else l" and ?acc = "if v = NGX_RADIX_NO_VALUE then acc else v"
  let ?r = "lpm ?c bs ?acc"
  have z: "contents (RNode a v l r) (take (Suc m) (b # bs)) = contents ?c (take m bs)" for m by simp
  from "3.IH" consider n where "n \<le> length bs" "contents ?c (take n bs) = Some ?r" "\<And>m. n < m \<Longrightarrow> m \<le> length bs \<Longrightarrow> contents ?c (take m bs) = None"
    | "?r = ?acc" "\<And>m. m \<le> length bs \<Longrightarrow> contents ?c (take m bs) = None"
    unfolding longest_match_def by blast
  then show ?case
  proof cases
    case 1
    have "contents (RNode a v l r) (take m (b # bs)) = None" if "Suc n < m" "m \<le> length (b # bs)" for m
      using 1(3) [of "m - 1"] that z [of "m - 1"] by (cases m) auto
    then show ?thesis using 1(1,2) unfolding longest_match_def by (intro disjI1 exI [of _ "Suc n"]) simp
  next
    case 2
    have n: "contents (RNode a v l r) (take m (b # bs)) = None" if "0 < m" "m \<le> length (b # bs)" for m
      using 2(2) [of "m - 1"] that z [of "m - 1"] by (cases m) auto
    show ?thesis
    proof (cases "v = NGX_RADIX_NO_VALUE")
      case True
      then have "contents (RNode a v l r) (take m (b # bs)) = None" if "m \<le> length (b # bs)" for m using n [of m] that by (cases m) auto
      then show ?thesis using 2(1) True unfolding longest_match_def by (intro disjI2) simp
    next
      case False
      then show ?thesis using 2(1) n unfolding longest_match_def by (intro disjI1 exI [of _ 0]) simp
    qed
  qed
qed (auto simp: longest_match_def)

lemma lpm_take: "deep n T \<Longrightarrow> lpm T (take n bs) acc = lpm T bs acc"
proof (induction n T arbitrary: bs acc rule: deep.induct)
  case (2 a v l r)
  then show ?case by (cases bs) auto
next
  case (3 n a v l r)
  then show ?case by (cases bs) auto
qed simp

end
