(* ===== verification/Ngx_Radix_Keys.thy ===== *)
theory Ngx_Radix_Keys
  imports Ngx_Radix_Ops
begin

text \<open>
  Keys and masks as lists of bits. Both lengths of keys are read through a cursor that names the next
  bit; a locale states what one turn of each loop does at a cursor, and shows that the loops are the
  loops over the bits of the prefix. It is interpreted on the loops over 32-bit words and on the loops
  over sixteen bytes.
\<close>

section \<open>Bits of a key\<close>

definition bits32 :: "32 word \<Rightarrow> bool list" where
  "bits32 w = map (\<lambda>j. bit w (31 - j)) [0..<32]"

definition bits128 :: "u_char list \<Rightarrow> bool list" where
  "bits128 ws = map (\<lambda>j. bit (ws ! (j div 8)) (7 - j mod 8)) [0..<128]"

text \<open>The bits of the key below the leading ones of the mask.\<close>

definition prefix_bits :: "bool list \<Rightarrow> bool list \<Rightarrow> bool list" where
  "prefix_bits kb mb = map fst (takeWhile snd (zip kb mb))"

lemma prefix_bits_drop:
  assumes "length kb = n" "length mb = n" "j \<le> n"
  shows "prefix_bits (drop j kb) (drop j mb) =
    (if j < n \<and> mb ! j then kb ! j # prefix_bits (drop (Suc j) kb) (drop (Suc j) mb) else [])"
  using assms Cons_nth_drop_Suc [of j kb] Cons_nth_drop_Suc [of j mb]
  by (cases "j < n") (auto simp: prefix_bits_def dest!: sym [of "_ # _"])

lemma length_prefix_bits: "length (prefix_bits kb mb) \<le> length kb"
proof -
  have "length (takeWhile snd (zip kb mb)) \<le> length (zip kb mb)" by (rule length_takeWhile_le)
  then show ?thesis by (simp add: prefix_bits_def)
qed

section \<open>Loops at a cursor\<close>

locale radix_key =
  fixes n :: nat
    and kb :: "bool list"
    and mb :: "bool list"
    and cursor :: "nat \<Rightarrow> 'c"
    and walk :: "ngx_radix_tree \<Rightarrow> 'c \<Rightarrow> nat \<Rightarrow> nat \<Rightarrow> 'c \<times> nat \<times> nat"
    and extend :: "ngx_radix_tree \<Rightarrow> 'c \<Rightarrow> nat \<Rightarrow> ngx_radix_tree \<times> nat option"
    and descend :: "ngx_radix_tree \<Rightarrow> 'c \<Rightarrow> nat \<Rightarrow> nat"
  assumes key_length: "length kb = n"
    and mask_length: "length mb = n"
    and walk_turn: "j \<le> n \<Longrightarrow> walk t (cursor j) node next =
      (if j < n \<and> mb ! j then
         if radix_child (kb ! j) t node = 0 then (cursor j, node, 0)
         else walk t (cursor (Suc j)) (radix_child (kb ! j) t node) (radix_child (kb ! j) t node)
       else (cursor j, node, next))"
    and extend_turn: "j \<le> n \<Longrightarrow> extend t (cursor j) node =
      (if j < n \<and> mb ! j then
         case ngx_radix_alloc t of
           (next, t) \<Rightarrow> if next = 0 then (t, None) else extend (radix_link (kb ! j) node next t) (cursor (Suc j)) next
       else (t, Some node))"
    and descend_turn: "j \<le> n \<Longrightarrow> descend t (cursor j) node =
      (if node \<noteq> 0 \<and> j < n \<and> mb ! j then descend t (cursor (Suc j)) (radix_child (kb ! j) t node) else node)"
begin

lemmas prefix_turn = prefix_bits_drop [OF key_length mask_length]

lemma walk_prefix:
  "j \<le> n \<Longrightarrow> \<exists>j' \<le> n. fst (walk t (cursor j) node next) = cursor j' \<and>
     walk_bits t (prefix_bits (drop j kb) (drop j mb)) node next =
       (prefix_bits (drop j' kb) (drop j' mb), snd (walk t (cursor j) node next))"
proof (induction "n - j" arbitrary: j node "next")
  case 0
  then show ?case using walk_turn [of j t node "next"] by (intro exI [of _ j]) (simp add: prefix_turn [of j])
next
  case (Suc d)
  let ?c = "radix_child (kb ! j) t node"
  show ?case
  proof (cases "mb ! j \<and> ?c \<noteq> 0")
    case True
    have "j < n" using Suc by simp
    then have "walk t (cursor j) node next = walk t (cursor (Suc j)) ?c ?c"
      "walk_bits t (prefix_bits (drop j kb) (drop j mb)) node next = walk_bits t (prefix_bits (drop (Suc j) kb) (drop (Suc j) mb)) ?c ?c"
      using True prefix_turn [of j] walk_turn [of j t node "next"] by (simp_all add: Let_def)
    then show ?thesis using Suc(1) [of "Suc j" ?c ?c] Suc(2) \<open>j < n\<close> by simp
  next
    case False
    then show ?thesis using Suc(2,3) prefix_turn [of j] walk_turn [of j t node "next"] by (intro exI [of _ j]) (auto simp: Let_def)
  qed
qed

lemma extend_prefix: "j \<le> n \<Longrightarrow> extend t (cursor j) node = extend_bits t (prefix_bits (drop j kb) (drop j mb)) node"
proof (induction "n - j" arbitrary: j t node)
  case 0
  then show ?case using extend_turn [of j t node] by (simp add: prefix_turn [of j])
next
  case (Suc d)
  then have "Suc j \<le> n" "d = n - Suc j" by simp_all
  from Suc(1) [OF this(2,1)] show ?case using Suc(3) prefix_turn [of j] extend_turn [of j t node] by (auto split: prod.splits)
qed

lemma descend_prefix: "j \<le> n \<Longrightarrow> descend t (cursor j) node = descend_bits t (prefix_bits (drop j kb) (drop j mb)) node"
proof (induction "n - j" arbitrary: j node)
  case 0
  then show ?case using descend_turn [of j t node] by (simp add: prefix_turn [of j])
next
  case (Suc d)
  then have "Suc j \<le> n" "d = n - Suc j" by simp_all
  from Suc(1) [OF this(2,1)] show ?case using Suc(3) prefix_turn [of j] descend_turn [of j t node] by auto
qed

lemma insert_prefix:
  "(case walk t (cursor 0) (rt_root t) (rt_root t) of
      (c, node, next) \<Rightarrow>
        if next \<noteq> 0 then
          if rn_value (rt_mem t node) \<noteq> NGX_RADIX_NO_VALUE then (NGX_BUSY, t)
          else (NGX_OK, radix_upd node (\<lambda>n. n\<lparr>rn_value := x\<rparr>) t)
        else
          case extend t c node of
            (t, None) \<Rightarrow> (NGX_ERROR, t)
          | (t, Some node) \<Rightarrow> (NGX_OK, radix_upd node (\<lambda>n. n\<lparr>rn_value := x\<rparr>) t)) =
   insert_bits (prefix_bits kb mb) x t"
  using walk_prefix [of 0 t "rt_root t" "rt_root t"] extend_prefix
  by (auto simp: insert_bits_def split: prod.splits)

end

section \<open>Cursors of 32-bit words\<close>

definition cursor32 :: "nat \<Rightarrow> 32 word" where
  "cursor32 j = drop_bit j 0x80000000"

lemma top_bit: "bit (0x80000000 :: 32 word) i \<longleftrightarrow> i = 31" "bit (0x80 :: 8 word) i \<longleftrightarrow> i = 7"
proof -
  have "(0x80000000 :: 32 word) = 2 ^ 31" "(0x80 :: 8 word) = 2 ^ 7" by simp_all
  then show "bit (0x80000000 :: 32 word) i \<longleftrightarrow> i = 31" "bit (0x80 :: 8 word) i \<longleftrightarrow> i = 7"
    by (auto simp only: bit_exp_iff possible_bit_word) auto
qed

lemma nonzero_bit: "w \<noteq> 0 \<longleftrightarrow> (\<exists>i. bit w i)" for w :: "'a :: len word"
  by (auto simp: bit_eq_iff dest: bit_imp_le_length)

lemma cursor32_test: "(cursor32 j AND w \<noteq> 0) = (j < 32 \<and> bit w (31 - j))" "(w AND cursor32 j \<noteq> 0) = (j < 32 \<and> bit w (31 - j))"
proof -
  have "bit (cursor32 j AND w) i \<longleftrightarrow> j < 32 \<and> i = 31 - j \<and> bit w i" for i
    unfolding cursor32_def bit_and_iff bit_drop_bit_eq comp_def top_bit by auto
  then show "(cursor32 j AND w \<noteq> 0) = (j < 32 \<and> bit w (31 - j))" by (simp add: nonzero_bit)
  then show "(w AND cursor32 j \<noteq> 0) = (j < 32 \<and> bit w (31 - j))" by (simp add: and.commute)
qed

lemma cursor32_next: "drop_bit (Suc 0) (cursor32 j) = cursor32 (Suc j)" "cursor32 0 = 0x80000000"
  by (simp_all add: cursor32_def)

lemma bits32_nth: "j < 32 \<Longrightarrow> bits32 w ! j = bit w (31 - j)" "length (bits32 w) = 32"
  by (simp_all add: bits32_def)

interpretation r32: radix_key 32 "bits32 key" "bits32 msk" cursor32 "\<lambda>t. radix32_walk t key msk" "\<lambda>t. radix32_extend t key msk"
  "\<lambda>t. radix32_descend t key msk" for key msk
proof
  fix j t node "next"
  show "radix32_walk t key msk (cursor32 j) node next =
      (if j < 32 \<and> bits32 msk ! j then
         if radix_child (bits32 key ! j) t node = 0 then (cursor32 j, node, 0)
         else radix32_walk t key msk (cursor32 (Suc j)) (radix_child (bits32 key ! j) t node) (radix_child (bits32 key ! j) t node)
       else (cursor32 j, node, next))"
    by (subst radix32_walk.simps, cases "j < 32") (simp_all add: cursor32_test cursor32_next bits32_nth Let_def)
  show "radix32_extend t key msk (cursor32 j) node =
      (if j < 32 \<and> bits32 msk ! j then
         case ngx_radix_alloc t of
           (next, t) \<Rightarrow> if next = 0 then (t, None) else radix32_extend (radix_link (bits32 key ! j) node next t) key msk (cursor32 (Suc j)) next
       else (t, Some node))"
    by (subst radix32_extend.simps, cases "j < 32") (simp_all add: cursor32_test cursor32_next bits32_nth split: prod.split)
  show "radix32_descend t key msk (cursor32 j) node =
      (if node \<noteq> 0 \<and> j < 32 \<and> bits32 msk ! j then radix32_descend t key msk (cursor32 (Suc j)) (radix_child (bits32 key ! j) t node) else node)"
    by (subst radix32_descend.simps, cases "j < 32") (simp_all add: cursor32_test cursor32_next bits32_nth)
qed (simp_all add: bits32_nth)

section \<open>Cursors of sixteen bytes\<close>

definition cursor128 :: "nat \<Rightarrow> nat \<times> 8 word" where
  "cursor128 j = (if j < 128 then (j div 8, drop_bit (j mod 8) 0x80) else (16, 0))"

lemma byte_test: "(drop_bit k 0x80 AND w \<noteq> 0) = bit w (7 - k)" "(w AND drop_bit k 0x80 \<noteq> 0) = bit w (7 - k)" if "k < 8" for w :: "8 word"
proof -
  have "bit (drop_bit k 0x80 AND w) i \<longleftrightarrow> i = 7 - k \<and> bit w i" for i
    using that unfolding bit_and_iff bit_drop_bit_eq comp_def top_bit by auto
  then show "(drop_bit k 0x80 AND w \<noteq> 0) = bit w (7 - k)" by (simp add: nonzero_bit)
  then show "(w AND drop_bit k 0x80 \<noteq> 0) = bit w (7 - k)" by (simp add: and.commute)
qed

lemma byte_next: "next_bit (j div 8) (drop_bit (j mod 8) 0x80) = (Suc j div 8, drop_bit (Suc j mod 8) 0x80)"
proof -
  have "j mod 8 < 8" by simp
  then consider "j mod 8 = 7" | "j mod 8 \<in> {0, 1, 2, 3, 4, 5, 6}" by fastforce
  then show ?thesis
  proof cases
    case 1
    then have "Suc j div 8 = j div 8 + 1" "Suc j mod 8 = 0" by presburger+
    then show ?thesis using 1 by (simp add: next_bit_def)
  next
    case 2
    then have "Suc j div 8 = j div 8" "Suc j mod 8 = Suc (j mod 8)" by (auto simp: mod_Suc div_Suc)
    then show ?thesis using 2 by (auto simp: next_bit_def)
  qed
qed

lemma bits128_nth: "j < 128 \<Longrightarrow> bits128 w ! j = bit (w ! (j div 8)) (7 - j mod 8)" "length (bits128 w) = 128"
  by (simp_all add: bits128_def)

lemma byte_last: "j < 128 \<Longrightarrow> 16 \<le> Suc j div 8 \<longleftrightarrow> Suc j = 128"
  by auto

lemma cursor128_in: "j < 128 \<Longrightarrow> cursor128 j = (j div 8, drop_bit (j mod 8) 0x80)" "cursor128 128 = (16, 0)" "cursor128 0 = (0, 0x80)"
  by (simp_all add: cursor128_def)

lemmas cursor128_simps = cursor128_in byte_test byte_next byte_last bits128_nth

text \<open>The first loop with its cursor as a pair.\<close>

definition walk128 :: "u_char list \<Rightarrow> u_char list \<Rightarrow> ngx_radix_tree \<Rightarrow> nat \<times> 8 word \<Rightarrow> nat \<Rightarrow> nat \<Rightarrow> (nat \<times> 8 word) \<times> nat \<times> nat" where
  "walk128 key msk t c node next =
     (case radix128_walk t key msk (fst c) (snd c) node next of (i, b, x) \<Rightarrow> ((i, b), x))"

lemma byte_turn:
  assumes "j < 128"
  shows "(drop_bit (j mod 8) 0x80 AND w ! (j div 8) \<noteq> 0) = bits128 w ! j" "(w ! (j div 8) AND drop_bit (j mod 8) 0x80 \<noteq> 0) = bits128 w ! j"
    and "next_bit (j div 8) (drop_bit (j mod 8) 0x80) = (Suc j div 8, drop_bit (Suc j mod 8) 0x80)"
    and "16 \<le> Suc j div 8 \<longleftrightarrow> Suc j = 128"
  using byte_test [of "j mod 8" "w ! (j div 8)"] byte_next [of j] byte_last [OF assms] bits128_nth(1) [OF assms, of w] by simp_all

lemma radix128_walk_byte:
  assumes "j < 128"
  shows "radix128_walk t key msk (j div 8) (drop_bit (j mod 8) 0x80) node next =
      (if bits128 msk ! j then
         if radix_child (bits128 key ! j) t node = 0 then (j div 8, drop_bit (j mod 8) 0x80, node, 0)
         else if Suc j = 128 then (16, 0, radix_child (bits128 key ! j) t node, radix_child (bits128 key ! j) t node)
         else radix128_walk t key msk (Suc j div 8) (drop_bit (Suc j mod 8) 0x80) (radix_child (bits128 key ! j) t node) (radix_child (bits128 key ! j) t node)
       else (j div 8, drop_bit (j mod 8) 0x80, node, next))"
  by (subst radix128_walk.simps) (auto simp only: byte_turn [OF assms] Let_def prod.case split: if_split)

lemma radix128_extend_byte:
  assumes "j < 128"
  shows "radix128_extend t key msk (j div 8) (drop_bit (j mod 8) 0x80) node =
      (if bits128 msk ! j then
         case ngx_radix_alloc t of
           (next, t) \<Rightarrow>
             if next = 0 then (t, None)
             else if Suc j = 128 then (radix_link (bits128 key ! j) node next t, Some next)
             else radix128_extend (radix_link (bits128 key ! j) node next t) key msk (Suc j div 8) (drop_bit (Suc j mod 8) 0x80) next
       else (t, Some node))"
  by (subst radix128_extend.simps) (auto simp only: byte_turn [OF assms] Let_def prod.case split: if_split)

lemma radix128_descend_byte:
  assumes "j < 128"
  shows "radix128_descend t key msk (j div 8) (drop_bit (j mod 8) 0x80) node =
      (if node \<noteq> 0 \<and> bits128 msk ! j then
         if Suc j = 128 then radix_child (bits128 key ! j) t node
         else radix128_descend t key msk (Suc j div 8) (drop_bit (Suc j mod 8) 0x80) (radix_child (bits128 key ! j) t node)
       else node)"
  by (subst radix128_descend.simps) (auto simp only: byte_turn [OF assms] Let_def prod.case split: if_split)

lemma past_last_byte: "radix128_walk t key msk 16 0 node next = (16, 0, node, next)" "radix128_extend t key msk 16 0 node = (t, Some node)"
  "radix128_descend t key msk 16 0 node = node"
  by (simp_all add: radix128_walk.simps [of _ _ _ 16 0] radix128_extend.simps [of _ _ _ 16 0] radix128_descend.simps [of _ _ _ 16 0])

lemma cursor128_cases:
  assumes "j \<le> 128"
  obtains "j = 128" "cursor128 j = (16, 0)" | "Suc j = 128" "j < 128" "cursor128 j = (j div 8, drop_bit (j mod 8) 0x80)" "cursor128 (Suc j) = (16, 0)"
  | "Suc j \<noteq> 128" "j < 128" "cursor128 j = (j div 8, drop_bit (j mod 8) 0x80)" "cursor128 (Suc j) = (Suc j div 8, drop_bit (Suc j mod 8) 0x80)"
  using assms by (auto simp: cursor128_def) linarith

interpretation r128: radix_key 128 "bits128 key" "bits128 msk" cursor128 "walk128 key msk" "\<lambda>t c. radix128_extend t key msk (fst c) (snd c)"
  "\<lambda>t c. radix128_descend t key msk (fst c) (snd c)" for key msk
proof
  fix j node "next" :: nat and t :: ngx_radix_tree
  assume j: "j \<le> 128"
  show "walk128 key msk t (cursor128 j) node next =
      (if j < 128 \<and> bits128 msk ! j then
         if radix_child (bits128 key ! j) t node = 0 then (cursor128 j, node, 0)
         else walk128 key msk t (cursor128 (Suc j)) (radix_child (bits128 key ! j) t node) (radix_child (bits128 key ! j) t node)
       else (cursor128 j, node, next))"
    using j by (cases rule: cursor128_cases) (simp_all only: walk128_def fst_conv snd_conv radix128_walk_byte [of j] past_last_byte split: if_split, simp_all)
  show "radix128_extend t key msk (fst (cursor128 j)) (snd (cursor128 j)) node =
      (if j < 128 \<and> bits128 msk ! j then
         case ngx_radix_alloc t of
           (next, t) \<Rightarrow> if next = 0 then (t, None)
             else radix128_extend (radix_link (bits128 key ! j) node next t) key msk (fst (cursor128 (Suc j))) (snd (cursor128 (Suc j))) next
       else (t, Some node))"
    using j by (cases rule: cursor128_cases) (simp_all only: fst_conv snd_conv radix128_extend_byte [of j] past_last_byte split: if_split, simp_all split: prod.split)
  show "radix128_descend t key msk (fst (cursor128 j)) (snd (cursor128 j)) node =
      (if node \<noteq> 0 \<and> j < 128 \<and> bits128 msk ! j
       then radix128_descend t key msk (fst (cursor128 (Suc j))) (snd (cursor128 (Suc j))) (radix_child (bits128 key ! j) t node) else node)"
    using j by (cases rule: cursor128_cases) (simp_all only: fst_conv snd_conv radix128_descend_byte [of j] past_last_byte split: if_split, simp_all)
qed (simp_all add: bits128_nth)

section \<open>Updates\<close>

lemma insert32_bits: "ngx_radix32tree_insert key msk value t = insert_bits (prefix_bits (bits32 key) (bits32 msk)) value t"
  using r32.insert_prefix [where key = key and msk = msk and t = t and x = "value"] by (simp add: ngx_radix32tree_insert_def cursor32_next)

lemma delete32_bits:
  "ngx_radix32tree_delete key msk t = radix_delete_node (descend_bits t (prefix_bits (bits32 key) (bits32 msk)) (rt_root t)) t"
  using r32.descend_prefix [where j = 0 and t = t and key = key and msk = msk and node = "rt_root t"] by (simp add: ngx_radix32tree_delete_def cursor32_next)

lemma insert128_bits: "ngx_radix128tree_insert key msk value t = insert_bits (prefix_bits (bits128 key) (bits128 msk)) value t"
  using r128.insert_prefix [where key = key and msk = msk and t = t and x = "value"] 
  by (cases "radix128_walk t key msk 0 0x80 (rt_root t) (rt_root t)") (simp add: ngx_radix128tree_insert_def cursor128_in walk128_def split: if_splits)

lemma delete128_bits:
  "ngx_radix128tree_delete key msk t = radix_delete_node (descend_bits t (prefix_bits (bits128 key) (bits128 msk)) (rt_root t)) t"
  using r128.descend_prefix [where j = 0 and t = t and key = key and msk = msk and node = "rt_root t"] by (simp add: ngx_radix128tree_delete_def cursor128_in)

section \<open>Lookups\<close>

text \<open>A lookup that reads the bit \<open>kb j\<close> of the key below a node of depth \<open>j\<close>, for \<open>j\<close> below \<open>n\<close>.\<close>

lemma find_lpm:
  assumes turn: "\<And>j acc node. node \<noteq> 0 \<Longrightarrow> j < n \<Longrightarrow>
      f j acc node = f (Suc j) (if rn_value (rt_mem t node) \<noteq> NGX_RADIX_NO_VALUE then rn_value (rt_mem t node) else acc) (radix_child (kb j) t node)"
    and stop: "\<And>j acc. f j acc 0 = Some acc"
  shows "radix_at (rt_mem t) q p T \<Longrightarrow> deep d T \<Longrightarrow> j + d < n \<Longrightarrow> f j acc p = Some (lpm T (map kb [j..<j + d]) acc)"
proof (induction d T arbitrary: j acc p q rule: deep.induct)
  case (1 d)
  then show ?case by (simp add: stop)
next
  case (2 a v l r)
  then show ?case by (simp add: turn stop radix_child_def)
next
  case (3 d a v l r)
  have "radix_at (rt_mem t) a (radix_child (kb j) t a) (if kb j then r else l)" "[j..<j + Suc d] = j # [Suc j..<Suc j + d]"
    using "3.prems"(1) by (auto simp: radix_child_def upt_conv_Cons simp del: upt_Suc)
  then show ?case using "3.IH" [of a "radix_child (kb j) t a" "Suc j"] "3.prems" by (auto simp: turn)
qed

lemma find32_lpm:
  assumes "radix_rep t T" "deep 32 T"
  shows "ngx_radix32tree_find key t = Some (lpm T (bits32 key) NGX_RADIX_NO_VALUE)"
proof -
  let ?f = "\<lambda>j. radix32_find_loop t key (cursor32 j)"
  have "?f 0 NGX_RADIX_NO_VALUE (rt_root t) = Some (lpm T (map (\<lambda>j. j < 32 \<and> bit key (31 - j)) [0..<0 + 32]) NGX_RADIX_NO_VALUE)"
    using assms by (intro find_lpm [where n = 33 and q = 0])
      (auto simp: radix_rep_def cursor32_test cursor32_next radix32_find_loop.simps Let_def)
  moreover have "map (\<lambda>j. j < 32 \<and> bit key (31 - j)) [0..<0 + 32] = bits32 key" by (auto simp: bits32_def)
  ultimately show ?thesis by (simp only: ngx_radix32tree_find_def cursor32_next)
qed

text \<open>The cursor of the lookup goes on past the last byte.\<close>

lemma find128_turn:
  assumes "node \<noteq> 0" "j div 8 < length key"
  shows "radix128_find_loop t key (j div 8) (drop_bit (j mod 8) 0x80) acc node =
    radix128_find_loop t key (Suc j div 8) (drop_bit (Suc j mod 8) 0x80)
      (if rn_value (rt_mem t node) \<noteq> NGX_RADIX_NO_VALUE then rn_value (rt_mem t node) else acc)
      (radix_child (bit (key ! (j div 8)) (7 - j mod 8)) t node)"
proof -
  have "j mod 8 < 8" by simp
  then show ?thesis using assms
    by (subst radix128_find_loop.simps) (simp only: Let_def if_True not_False_eq_True byte_test byte_next fst_conv snd_conv)
qed

lemma find128_lpm:
  assumes "radix_rep t T" "deep d T" "d < 8 * length key" "d \<le> 128"
  shows "ngx_radix128tree_find key t = Some (lpm T (bits128 key) NGX_RADIX_NO_VALUE)"
proof -
  let ?f = "\<lambda>j. radix128_find_loop t key (j div 8) (drop_bit (j mod 8) 0x80)" and ?kb = "\<lambda>j. bit (key ! (j div 8)) (7 - j mod 8)"
  have "?f 0 NGX_RADIX_NO_VALUE (rt_root t) = Some (lpm T (map ?kb [0..<0 + d]) NGX_RADIX_NO_VALUE)"
  proof (rule find_lpm [where q = 0 and n = "8 * length key"])
    show "?f j acc node = ?f (Suc j) (if rn_value (rt_mem t node) \<noteq> NGX_RADIX_NO_VALUE then rn_value (rt_mem t node) else acc) (radix_child (?kb j) t node)"
      if "node \<noteq> 0" "j < 8 * length key" for j acc node using that by (intro find128_turn) auto
  qed (use assms in \<open>auto simp: radix_rep_def radix128_find_loop.simps [of _ _ _ _ _ 0]\<close>)
  moreover have "map ?kb [0..<0 + d] = take d (bits128 key)" using assms(4) by (simp add: bits128_def take_map)
  ultimately show ?thesis using lpm_take [OF assms(2), of "bits128 key"] by (simp add: ngx_radix128tree_find_def)
qed

text \<open>A node of the full length of the key makes the lookup read past a key of sixteen bytes.\<close>

lemma find128_overread:
  assumes "radix_rep t T" "length key = 16" "subtree T (bits128 key) \<noteq> RLeaf"
  shows "ngx_radix128tree_find key t = None"
proof -
  let ?f = "\<lambda>j. radix128_find_loop t key (j div 8) (drop_bit (j mod 8) 0x80)" and ?kb = "\<lambda>j. bit (key ! (j div 8)) (7 - j mod 8)"
  have "?f j acc p = None" if "radix_at (rt_mem t) q p T" "j \<le> 128" "subtree T (map ?kb [j..<128]) \<noteq> RLeaf" for j acc p q T
    using that
  proof (induction "128 - j" arbitrary: j acc p q T)
    case 0
    then have "j = 128" "p \<noteq> 0" by (auto simp: radix_at_null)
    then show ?case using assms(2) by (subst radix128_find_loop.simps) (simp add: Let_def)
  next
    case (Suc d)
    then have j: "j < 128" "[j..<128] = j # [Suc j..<128]" by (auto simp: upt_conv_Cons)
    then obtain v l r where T: "T = RNode p v l r" "p \<noteq> 0" using Suc.prems by (cases T) auto
    have "radix_at (rt_mem t) p (radix_child (?kb j) t p) (if ?kb j then r else l)"
      "subtree (if ?kb j then r else l) (map ?kb [Suc j..<128]) \<noteq> RLeaf" using Suc.prems(1,3) j(2) T by (auto simp: radix_child_def)
    then have "?f (Suc j) acc' (radix_child (?kb j) t p) = None" for acc' using Suc.hyps j(1) by (intro Suc.hyps(1)) auto
    then show ?case using find128_turn [of p j key t acc] T(2) j(1) assms(2) by simp
  qed
  from this [of 0 "rt_root t" T 0] show ?thesis using assms by (simp add: ngx_radix128tree_find_def radix_rep_def bits128_def)
qed

end
