(* ===== verification/Ngx_Radix_Map.thy ===== *)
theory Ngx_Radix_Map
  imports Ngx_Radix_Keys
begin

text \<open>
  The radix tree as a map from prefixes to values: creation gives the empty map, insertion and deletion
  change the value of one prefix, and a lookup gives the value of the longest prefix of the key.
\<close>

section \<open>The abstract map\<close>

text \<open>The tree in memory stands for the map \<open>c\<close> and no node is deeper than \<open>n\<close>.\<close>

definition radix_holds :: "nat \<Rightarrow> ngx_radix_tree \<Rightarrow> (bool list \<Rightarrow> int option) \<Rightarrow> bool" where
  "radix_holds n t c \<longleftrightarrow> (\<exists>T. radix_rep t T \<and> deep n T \<and> contents T = c)"

text \<open>What an insertion promises: a prefix that has a value is refused, a failure is for lack of memory,
  and only a success changes the map.\<close>

definition radix_inserted ::
    "nat \<Rightarrow> (bool list \<Rightarrow> int option) \<Rightarrow> bool list \<Rightarrow> int \<Rightarrow> ngx_rc \<times> ngx_radix_tree \<Rightarrow> bool" where
  "radix_inserted n c p v res \<longleftrightarrow>
     (case res of (rc, t) \<Rightarrow>
        (rc = NGX_BUSY \<longleftrightarrow> c p \<noteq> None) \<and>
        (if rc = NGX_OK then radix_holds n t (c(p := radix_val v)) else radix_holds n t c) \<and>
        (rc = NGX_OK \<or> rc = NGX_BUSY \<or> rc = NGX_ERROR \<and> rt_free t = 0 \<and> fresh t = []))"

text \<open>What a deletion promises: it returns, the prefix has no value after it, and a prefix that had one is
  reported as deleted.\<close>

definition radix_deleted ::
    "nat \<Rightarrow> (bool list \<Rightarrow> int option) \<Rightarrow> bool list \<Rightarrow> (ngx_rc \<times> ngx_radix_tree) option \<Rightarrow> bool" where
  "radix_deleted n c p res \<longleftrightarrow>
     (case res of None \<Rightarrow> False
      | Some (rc, t) \<Rightarrow> radix_holds n t (c(p := None)) \<and> (c p \<noteq> None \<longrightarrow> rc = NGX_OK) \<and> (rc = NGX_OK \<or> rc = NGX_ERROR))"

lemma insert_bits_inserted: "radix_holds n t c \<Longrightarrow> length p \<le> n \<Longrightarrow> radix_inserted n c p v (insert_bits p v t)"
proof -
  assume "radix_holds n t c" and p: "length p \<le> n"
  then obtain T where T: "radix_rep t T" "deep n T" "contents T = c" by (auto simp: radix_holds_def)
  obtain rc t' where r: "insert_bits p v t = (rc, t')" by (cases "insert_bits p v t")
  from insert_bits_ok [OF T(1,2) p r] obtain T' where "radix_rep t' T'" "deep n T'"
    "case rc of NGX_OK \<Rightarrow> c p = None \<and> contents T' = c(p := radix_val v)
     | NGX_BUSY \<Rightarrow> c p \<noteq> None \<and> T' = T \<and> t' = t
     | NGX_ERROR \<Rightarrow> c p = None \<and> contents T' = c \<and> rt_free t' = 0 \<and> fresh t' = []
     | _ \<Rightarrow> False" unfolding T(3) by blast
  then show ?thesis using T by (cases rc) (auto simp: radix_inserted_def radix_holds_def r)
qed

lemma delete_bits_deleted:
  assumes "radix_holds n t c" "p \<noteq> [] \<or> (\<exists>q. q \<noteq> [] \<and> c q \<noteq> None)"
  shows "radix_deleted n c p (radix_delete_node (descend_bits t p (rt_root t)) t)"
proof -
  obtain T where T: "radix_rep t T" "deep n T" "contents T = c" using assms(1) by (auto simp: radix_holds_def)
  have "contents (RNode a v RLeaf RLeaf) q = None" if "q \<noteq> []" for a v q using that by (cases q) auto
  then have "p \<noteq> [] \<or> (\<nexists>a v. T = RNode a v RLeaf RLeaf)" using assms(2) T(3) by auto
  from delete_ok [OF T(1,2) this] show ?thesis using T(3) by (auto simp: radix_deleted_def radix_holds_def)
qed

lemma prefix_length: "length (prefix_bits (bits32 key) mb) \<le> 32" "length (prefix_bits (bits128 a) mb) \<le> 128"
  using length_prefix_bits [of "bits32 key" mb] length_prefix_bits [of "bits128 a" mb] by (simp_all add: bits32_nth bits128_nth)

section \<open>Creation\<close>

lemma word_step:
  fixes key :: "32 word"
  assumes "e < 32" "2 ^ e dvd unat key" "key + 2 ^ e \<noteq> 0"
  shows "unat (key + 2 ^ e) = unat key + 2 ^ e"
proof -
  have e: "unat (2 ^ e :: 32 word) = 2 ^ e"
  proof -
    have "(2 ^ e :: 32 word) \<noteq> 0" using assms(1) possible_bit_word [where 'a = 32, of e] by (simp only: possible_bit_def) simp
    then have "uint (2 ^ e :: 32 word) = 2 ^ e" by (intro uint_2p) (simp add: word_gt_0)
    then show ?thesis by (simp add: unat_eq_nat_uint nat_power_eq)
  qed
  have "unat key < 2 ^ 32" using unsigned_less [of key] by simp
  moreover obtain a where a: "unat key = 2 ^ e * a" using assms(2) by blast
  moreover have z: "(2 :: nat) ^ 32 = 2 ^ e * 2 ^ (32 - e)" using assms(1) by (simp flip: power_add)
  ultimately have "2 ^ e * a < 2 ^ e * 2 ^ (32 - e)" by simp
  then have "a < 2 ^ (32 - e)" by simp
  then have "2 ^ e * (a + 1) \<le> 2 ^ e * (2 :: nat) ^ (32 - e)" by (intro mult_left_mono) auto
  then have le: "unat key + 2 ^ e \<le> 2 ^ 32" unfolding z a by simp
  moreover have s: "unat (key + 2 ^ e) = (unat key + 2 ^ e) mod 2 ^ 32" by (simp add: unat_word_ariths e)
  moreover have "unat key + 2 ^ e \<noteq> 2 ^ 32" using s assms(3) by (auto simp: unat_eq_0)
  ultimately show ?thesis by simp
qed

lemma prealloc_level_ok:
  assumes "radix_holds 32 t Map.empty" "inc = 0 \<and> key = 0 \<or> (\<exists>e < 32. inc = 2 ^ e \<and> 2 ^ e dvd unat key)"
  shows "\<exists>r. prealloc_level inc msk key t = Some r \<and> (\<forall>t'. r = Some t' \<longrightarrow> radix_holds 32 t' Map.empty)"
  using assms
proof (induction "2 ^ 32 - unat key" arbitrary: key t rule: less_induct)
  case less
  obtain rc t1 where r: "ngx_radix32tree_insert key msk NGX_RADIX_NO_VALUE t = (rc, t1)" by (cases "ngx_radix32tree_insert key msk NGX_RADIX_NO_VALUE t")
  have "radix_inserted 32 Map.empty (prefix_bits (bits32 key) (bits32 msk)) NGX_RADIX_NO_VALUE (rc, t1)"
    using insert_bits_inserted [OF less.prems(1) prefix_length(1), of key "bits32 msk" NGX_RADIX_NO_VALUE] r by (simp add: insert32_bits)
  then have t1: "radix_holds 32 t1 Map.empty" by (simp add: radix_inserted_def radix_val_def split: if_splits)
  show ?case
  proof (cases "rc = NGX_OK \<and> key + inc \<noteq> 0")
    case True
    then obtain e where e: "e < 32" "inc = 2 ^ e" "2 ^ e dvd unat key" using less.prems(2) by auto
    have u: "unat (key + inc) = unat key + 2 ^ e" using word_step [of e key] e True by simp
    then have "2 ^ e dvd unat (key + inc)" using e(3) by simp
    moreover have "2 ^ 32 - unat (key + inc) < 2 ^ 32 - unat key" using u unsigned_less [of "key + inc", where 'a = nat] by (intro diff_less_mono2) (simp_all del: power_numeral)
    ultimately show ?thesis using less.hyps [of "key + inc" t1] t1 True e(1,2) r by (subst prealloc_level.simps) auto
  next
    case False
    then show ?thesis using t1 r by (subst prealloc_level.simps) auto
  qed
qed

lemma prealloc_ok:
  assumes "radix_holds 32 t Map.empty" "inc = 0 \<or> (\<exists>e < 32. inc = 2 ^ e)"
  shows "\<exists>r. prealloc n inc msk t = Some r \<and> (\<forall>t'. r = Some t' \<longrightarrow> radix_holds 32 t' Map.empty)"
  using assms
proof (induction n arbitrary: inc msk t)
  case (Suc n)
  let ?m = "drop_bit 1 msk OR 0x80000000"
  obtain r where r: "prealloc_level inc ?m 0 t = Some r" "\<And>t'. r = Some t' \<Longrightarrow> radix_holds 32 t' Map.empty"
    using prealloc_level_ok [OF Suc.prems(1), of inc 0 ?m] Suc.prems(2) by auto
  have "drop_bit 1 inc = 0 \<or> (\<exists>e < 32. drop_bit 1 inc = 2 ^ e)"
  proof (cases "inc = 0 \<or> inc = 1")
    case False
    then obtain e where "Suc e < 32" "inc = 2 ^ Suc e" using Suc.prems(2) by (metis nat.exhaust power_0)
    then have "drop_bit 1 inc = 2 ^ e" by (intro bit_eqI) (auto simp: bit_simps)
    then show ?thesis using \<open>Suc e < 32\<close> by (intro disjI2 exI [of _ e]) simp
  qed (auto simp: drop_bit_Suc)
  then show ?case using r Suc.IH [of _ "drop_bit 1 inc" ?m] by (cases r) (auto simp: Let_def)
qed simp

text \<open>The pages of the pool are apart from each other and none is at the null pointer.\<close>

definition pool_ok :: "nat list \<Rightarrow> nat \<Rightarrow> bool" where
  "pool_ok pool pagesize \<longleftrightarrow> radix_node_size \<le> pagesize \<and>
     distinct (concat (map (\<lambda>p. slots p pagesize) pool)) \<and> 0 \<notin> set (concat (map (\<lambda>p. slots p pagesize) pool))"

lemma create_ok:
  assumes "pool_ok pool pagesize" "-1 \<le> n"
  shows "\<exists>r. ngx_radix_tree_create allocated pool pagesize mem n = Some r \<and> (\<forall>t. r = Some t \<longrightarrow> radix_holds 32 t Map.empty)"
proof -
  let ?t = "\<lparr>rt_root = 0, rt_free = 0, rt_start = 0, rt_size = 0, rt_pool = pool, rt_pagesize = pagesize, rt_mem = mem\<rparr>"
  have s: "store_ok ?t {}" using assms(1) by (simp add: store_ok_nil pool_ok_def fresh_def slots_Nil radix_node_size_def)
  obtain root t1 where a: "ngx_radix_alloc ?t = (root, t1)" by (cases "ngx_radix_alloc ?t")
  define t2 where "t2 = radix_upd root (\<lambda>n. n\<lparr>rn_right := 0, rn_left := 0, rn_parent := 0, rn_value := NGX_RADIX_NO_VALUE\<rparr>) (t1\<lparr>rt_root := root\<rparr>)"
  have "radix_holds 32 t2 Map.empty" if "root \<noteq> 0"
  proof -
    have "store_ok (t1\<lparr>rt_root := root\<rparr>) {root}" using alloc_ok(4) [OF a s] that by (auto simp: store_ok_def fresh_def)
    then have "store_ok t2 {root}" unfolding t2_def by (intro store_ok_upd) auto
    then have "radix_rep t2 (RNode root NGX_RADIX_NO_VALUE RLeaf RLeaf)" using that by (auto simp: radix_rep_def t2_def)
    moreover have "contents (RNode root NGX_RADIX_NO_VALUE RLeaf RLeaf) = Map.empty"
    proof
      show "contents (RNode root NGX_RADIX_NO_VALUE RLeaf RLeaf) q = None" for q by (cases q) auto
    qed
    moreover have "deep 32 (RNode root NGX_RADIX_NO_VALUE RLeaf RLeaf)" by (simp add: numeral_eq_Suc)
    ultimately show ?thesis unfolding radix_holds_def by blast
  qed
  then have p: "root \<noteq> 0 \<Longrightarrow> \<exists>r. prealloc k 0x80000000 0 t2 = Some r \<and> (\<forall>t'. r = Some t' \<longrightarrow> radix_holds 32 t' Map.empty)" for k
    by (intro prealloc_ok disjI2 exI [of _ 31]) auto
  show ?thesis using p assms(2) a unfolding ngx_radix_tree_create_def by (auto simp: Let_def simp flip: t2_def)
qed

lemma radix_holds_mono: "radix_holds n t c \<Longrightarrow> n \<le> m \<Longrightarrow> radix_holds m t c"
  unfolding radix_holds_def using deep_mono by blast

text \<open>A tree for the witnesses: one page at 4096, of which creation takes the first node.\<close>

definition radix_sample :: ngx_radix_tree where
  "radix_sample =
     \<lparr>rt_root = 4096, rt_free = 0, rt_start = 4128, rt_size = 4064, rt_pool = [], rt_pagesize = 4096,
      rt_mem = (\<lambda>_. \<lparr>rn_right = 0, rn_left = 0, rn_parent = 0, rn_value = 0\<rparr>)
        (4096 := \<lparr>rn_right = 0, rn_left = 0, rn_parent = 0, rn_value = NGX_RADIX_NO_VALUE\<rparr>)\<rparr>"

lemma sample_pool_ok: "pool_ok [4096] 4096"
  by (auto simp: pool_ok_def slots_def radix_node_size_def distinct_map inj_on_def)

lemma sample_created:
  "ngx_radix_tree_create True [4096] 4096 (\<lambda>_. \<lparr>rn_right = 0, rn_left = 0, rn_parent = 0, rn_value = 0\<rparr>) 0 = Some (Some radix_sample)"
  by (simp add: ngx_radix_tree_create_def ngx_radix_alloc_def radix_upd_def radix_sample_def radix_node_size_def)

lemma sample_holds: "32 \<le> n \<Longrightarrow> radix_holds n radix_sample Map.empty"
  using create_ok [OF sample_pool_ok, of 0 True "\<lambda>_. \<lparr>rn_right = 0, rn_left = 0, rn_parent = 0, rn_value = 0\<rparr>"] sample_created radix_holds_mono
  by auto

section \<open>Properties\<close>

text \<open>
  Creating a radix tree always returns, also when it allocates the first levels in advance: with
  pages that are apart from each other the result is the null pointer or a tree that stands for the
  empty map, in which no node is deeper than 32.
\<close>

theorem radix_create_empty:
  assumes "pool_ok pool pagesize" "-1 \<le> preallocate"
  shows "\<exists>r. ngx_radix_tree_create allocated pool pagesize mem preallocate = Some r \<and>
    (\<forall>t. r = Some t \<longrightarrow> radix_holds 32 t Map.empty)"
  using create_ok [OF assms] .

theorem radix_create_empty_witness:
  "pool_ok [4096] 4096 \<and> (\<exists>r. ngx_radix_tree_create True [4096] 4096 (\<lambda>_. \<lparr>rn_right = 0, rn_left = 0, rn_parent = 0, rn_value = 0\<rparr>) (-1) = Some r \<and>
    (\<forall>t. r = Some t \<longrightarrow> radix_holds 32 t Map.empty))"
  using radix_create_empty [OF sample_pool_ok, of "-1"] sample_pool_ok by simp

text \<open>
  C8: Insertion into a radix tree, for 32-bit keys and for keys of sixteen bytes, changes the value of
  the prefix that the leading ones of the mask select and nothing else: it answers BUSY exactly when the
  prefix has a value already, OK when the map was changed, and ERROR only when no node was left, with the
  map unchanged although part of the path has been built.
\<close>

theorem radix_insert_correct:
  assumes "radix_holds 32 t c" "radix_holds 128 u d"
  shows "radix_inserted 32 c (prefix_bits (bits32 key) (bits32 msk)) v (ngx_radix32tree_insert key msk v t) \<and>
    radix_inserted 128 d (prefix_bits (bits128 addr) (bits128 amsk)) v (ngx_radix128tree_insert addr amsk v u)"
  using insert_bits_inserted [OF assms(1) prefix_length(1)] insert_bits_inserted [OF assms(2) prefix_length(2)]
  by (simp add: insert32_bits insert128_bits)

theorem radix_insert_correct_witness:
  "radix_inserted 32 Map.empty (prefix_bits (bits32 0x0A000000) (bits32 0xFF000000)) 7 (ngx_radix32tree_insert 0x0A000000 0xFF000000 7 radix_sample) \<and>
   radix_inserted 128 Map.empty (prefix_bits (bits128 (replicate 16 0x20)) (bits128 (replicate 16 0xFF))) 7
     (ngx_radix128tree_insert (replicate 16 0x20) (replicate 16 0xFF) 7 radix_sample)"
  using radix_insert_correct [OF sample_holds sample_holds] by simp

text \<open>
  C9: Deletion from a radix tree removes the value of the prefix and leaves the rest of the map as it
  was, giving the nodes that have become useless back to the free list; it returns, never following a
  null pointer, unless the prefix is empty and the tree has no other, and reports every prefix that had a
  value as deleted.
\<close>

theorem radix_delete_correct:
  assumes "radix_holds 32 t c" "radix_holds 128 u d"
    and "p = prefix_bits (bits32 key) (bits32 msk)" "p \<noteq> [] \<or> (\<exists>q. q \<noteq> [] \<and> c q \<noteq> None)"
    and "a = prefix_bits (bits128 addr) (bits128 amsk)" "a \<noteq> [] \<or> (\<exists>q. q \<noteq> [] \<and> d q \<noteq> None)"
  shows "radix_deleted 32 c p (ngx_radix32tree_delete key msk t) \<and> radix_deleted 128 d a (ngx_radix128tree_delete addr amsk u)"
  using delete_bits_deleted [OF assms(1,4)] delete_bits_deleted [OF assms(2,6)] assms(3,5)
  by (simp add: delete32_bits delete128_bits)

lemma prefix_nonempty: "kb \<noteq> [] \<Longrightarrow> mb \<noteq> [] \<Longrightarrow> hd mb \<Longrightarrow> prefix_bits kb mb \<noteq> []"
  by (cases kb; cases mb) (auto simp: prefix_bits_def)

theorem radix_delete_correct_witness:
  "radix_deleted 32 Map.empty (prefix_bits (bits32 0x0A000000) (bits32 0xFF000000)) (ngx_radix32tree_delete 0x0A000000 0xFF000000 radix_sample) \<and>
   radix_deleted 128 Map.empty (prefix_bits (bits128 (replicate 16 0x20)) (bits128 (replicate 16 0xFF)))
     (ngx_radix128tree_delete (replicate 16 0x20) (replicate 16 0xFF) radix_sample)"
proof -
  have "prefix_bits (bits32 0x0A000000) (bits32 0xFF000000) \<noteq> []" "prefix_bits (bits128 (replicate 16 0x20)) (bits128 (replicate 16 0xFF)) \<noteq> []"
    by (rule prefix_nonempty; simp add: bits32_def bits128_def hd_map)+
  then show ?thesis using radix_delete_correct [OF sample_holds sample_holds refl _ refl] by simp
qed

text \<open>
  C7: A lookup in a radix tree returns the value of the longest prefix of the key in the map, or the value
  that stands for none when the map has no prefix of the key: for every 32-bit key, and for every key of
  sixteen bytes, provided that a further byte can be read behind the key or that the tree has no node of
  the full depth of 128. (\<open>addr\<close> is the bytes that can be read from the address of the key on.)
\<close>

theorem radix_find_longest:
  assumes "radix_holds 32 t c" "radix_holds n u d" "n \<le> 128" "16 \<le> length addr" "n < 8 * length addr"
  shows "(\<exists>r. ngx_radix32tree_find key t = Some r \<and> longest_match c (bits32 key) NGX_RADIX_NO_VALUE r) \<and>
    (\<exists>r. ngx_radix128tree_find addr u = Some r \<and> longest_match d (bits128 addr) NGX_RADIX_NO_VALUE r)"
proof -
  obtain T U where T: "radix_rep t T" "deep 32 T" "contents T = c" "radix_rep u U" "deep n U" "contents U = d"
    using assms(1,2) unfolding radix_holds_def by blast
  have "ngx_radix128tree_find addr u = Some (lpm U (bits128 addr) NGX_RADIX_NO_VALUE)" using assms(3-) by (intro find128_lpm [OF T(4,5)]) simp_all
  then show ?thesis using find32_lpm [OF T(1,2), of key] lpm_longest [of T] lpm_longest [of U] T(3,6) by auto
qed

text \<open>The sample with a value for the prefix of the one bit 1.\<close>

definition radix_net :: ngx_radix_tree where
  "radix_net = snd (ngx_radix32tree_insert 0x80000000 0x80000000 7 radix_sample)"

lemma net_holds: "32 \<le> n \<Longrightarrow> radix_holds n radix_net [[True] \<mapsto> 7]"
proof -
  assume n: "32 \<le> n"
  have "prefix_bits (bits32 0x80000000) (bits32 0x80000000) = [True]"
    by code_simp
  then have i: "ngx_radix32tree_insert 0x80000000 0x80000000 7 radix_sample = insert_bits [True] 7 radix_sample" by (simp add: insert32_bits)
  moreover have "fst (insert_bits [True] 7 radix_sample) = NGX_OK"
    by (simp add: insert_bits_def radix_sample_def radix_child_def ngx_radix_alloc_def radix_node_size_def)
  ultimately show ?thesis
    using insert_bits_inserted [OF sample_holds [OF n], of "[True]" 7] n
    by (cases "insert_bits [True] 7 radix_sample") (simp add: radix_net_def radix_inserted_def radix_val_def NGX_RADIX_NO_VALUE_def)
qed

lemma net_match: "hd bs \<Longrightarrow> bs \<noteq> [] \<Longrightarrow> longest_match [[True] \<mapsto> 7] bs dflt r \<Longrightarrow> r = 7"
  by (cases bs) (auto simp: longest_match_def split: if_splits dest!: spec [of _ "Suc 0"])

theorem radix_find_longest_witness:
  "ngx_radix32tree_find 0x80000001 radix_net = Some 7 \<and> ngx_radix128tree_find (replicate 17 0xC0) radix_net = Some 7"
proof -
  obtain r q where r: "ngx_radix32tree_find 0x80000001 radix_net = Some r" "longest_match [[True] \<mapsto> 7] (bits32 0x80000001) NGX_RADIX_NO_VALUE r"
      "ngx_radix128tree_find (replicate 17 0xC0) radix_net = Some q" "longest_match [[True] \<mapsto> 7] (bits128 (replicate 17 0xC0)) NGX_RADIX_NO_VALUE q"
    using radix_find_longest [OF net_holds net_holds, of 128 "replicate 17 0xC0" "0x80000001"] by auto
  have "r = 7" by (rule net_match [OF _ _ r(2)]) (simp_all add: bits32_def hd_map)
  moreover have "q = 7" by (rule net_match [OF _ _ r(4)]) (simp_all add: bits128_def hd_map)
  ultimately show ?thesis using r by simp
qed

section \<open>Two faults\<close>

text \<open>Deleting the empty prefix from a tree with nothing else follows the null parent of the root.\<close>

theorem radix_delete_root_fault:
  "ngx_radix32tree_delete key 0 radix_sample = None"
proof -
  have "bits32 0 = replicate 32 False" by (simp add: bits32_def map_replicate_const)
  then have "prefix_bits (bits32 key) (bits32 0) = []" by (cases "bits32 key") (simp_all add: prefix_bits_def numeral_eq_Suc)
  moreover have "radix_delete_node (rt_root radix_sample) radix_sample = None"
    by (subst radix_delete_node_def, subst radix_prune.simps) (simp add: radix_sample_def Let_def)
  ultimately show ?thesis by (simp add: delete32_bits)
qed

text \<open>Once a prefix of 128 bits has a value, the lookup of that address reads the byte after its sixteen.\<close>

theorem radix128_find_overread:
  assumes "radix_holds 128 u d" "length addr = 16" "d (bits128 addr) \<noteq> None"
  shows "ngx_radix128tree_find addr u = None"
proof -
  obtain T where T: "radix_rep u T" "contents T = d" using assms(1) unfolding radix_holds_def by blast
  then have "subtree T (bits128 addr) \<noteq> RLeaf" using assms(3) contents_subtree [of T "bits128 addr"] by auto
  then show ?thesis using find128_overread [OF T(1) assms(2)] by simp
qed

end
