(* ===== verification/Ngx_Queue.thy ===== *)
theory Ngx_Queue
  imports Ngx_String
begin

text \<open>
  Doubly linked queues (src/nginx/src/core/ngx_queue.h and src/nginx/src/core/ngx_queue.c). A queue is a
  circle of links in memory through its head, the sentinel. Memory maps addresses to links. Each
  operation is the sequence of assignments of its macro, in the build without debugging; the lemmas say
  what it does to the list of elements that the circle holds.
\<close>

section \<open>Links\<close>

record ngx_queue_t =
  q_prev :: nat
  q_next :: nat

type_synonym qmem = "nat \<Rightarrow> ngx_queue_t"

definition set_prev :: "nat \<Rightarrow> nat \<Rightarrow> qmem \<Rightarrow> qmem" where
  "set_prev x y m = m(x := (m x)\<lparr>q_prev := y\<rparr>)"

definition set_next :: "nat \<Rightarrow> nat \<Rightarrow> qmem \<Rightarrow> qmem" where
  "set_next x y m = m(x := (m x)\<lparr>q_next := y\<rparr>)"

definition ngx_queue_init :: "nat \<Rightarrow> qmem \<Rightarrow> qmem" where
  "ngx_queue_init q m = set_next q q (set_prev q q m)"

definition ngx_queue_empty :: "nat \<Rightarrow> qmem \<Rightarrow> bool" where
  "ngx_queue_empty h m \<longleftrightarrow> h = q_prev (m h)"

definition ngx_queue_insert_head :: "nat \<Rightarrow> nat \<Rightarrow> qmem \<Rightarrow> qmem" where
  "ngx_queue_insert_head h x m =
     (let m = set_next x (q_next (m h)) m;
          m = set_prev (q_next (m x)) x m;
          m = set_prev x h m
      in set_next h x m)"

definition ngx_queue_insert_tail :: "nat \<Rightarrow> nat \<Rightarrow> qmem \<Rightarrow> qmem" where
  "ngx_queue_insert_tail h x m =
     (let m = set_prev x (q_prev (m h)) m;
          m = set_next (q_prev (m x)) x m;
          m = set_next x h m
      in set_prev h x m)"

definition ngx_queue_head :: "nat \<Rightarrow> qmem \<Rightarrow> nat" where
  "ngx_queue_head h m = q_next (m h)"

definition ngx_queue_last :: "nat \<Rightarrow> qmem \<Rightarrow> nat" where
  "ngx_queue_last h m = q_prev (m h)"

definition ngx_queue_remove :: "nat \<Rightarrow> qmem \<Rightarrow> qmem" where
  "ngx_queue_remove x m =
     (let m = set_prev (q_next (m x)) (q_prev (m x)) m
      in set_next (q_prev (m x)) (q_next (m x)) m)"

definition ngx_queue_split :: "nat \<Rightarrow> nat \<Rightarrow> nat \<Rightarrow> qmem \<Rightarrow> qmem" where
  "ngx_queue_split h q n m =
     (let m = set_prev n (q_prev (m h)) m;
          m = set_next (q_prev (m n)) n m;
          m = set_next n q m;
          m = set_prev h (q_prev (m q)) m;
          m = set_next (q_prev (m h)) h m
      in set_prev q n m)"

definition ngx_queue_add :: "nat \<Rightarrow> nat \<Rightarrow> qmem \<Rightarrow> qmem" where
  "ngx_queue_add h n m =
     (let m = set_next (q_prev (m h)) (q_next (m n)) m;
          m = set_prev (q_next (m n)) (q_prev (m h)) m;
          m = set_prev h (q_prev (m n)) m
      in set_next (q_prev (m h)) h m)"

section \<open>The list that a circle holds\<close>

fun linked :: "qmem \<Rightarrow> nat \<Rightarrow> nat list \<Rightarrow> nat \<Rightarrow> bool" where
  "linked m a [] b \<longleftrightarrow> q_next (m a) = b \<and> q_prev (m b) = a"
| "linked m a (x # xs) b \<longleftrightarrow> q_next (m a) = x \<and> q_prev (m x) = a \<and> linked m x xs b"

definition queue_at :: "qmem \<Rightarrow> nat \<Rightarrow> nat list \<Rightarrow> bool" where
  "queue_at m h xs \<longleftrightarrow> distinct (h # xs) \<and> linked m h xs h"

lemma link_simps [simp]:
  "q_next (set_prev x y m z) = q_next (m z)" "q_prev (set_next x y m z) = q_prev (m z)"
  "q_next (set_next x y m z) = (if z = x then y else q_next (m z))"
  "q_prev (set_prev x y m z) = (if z = x then y else q_prev (m z))"
  by (auto simp: set_prev_def set_next_def)

lemma queue_eqI: "q_prev x = q_prev y \<Longrightarrow> q_next x = q_next y \<Longrightarrow> x = y" for x y :: ngx_queue_t
  by simp

lemma linked_append: "linked m a (xs @ x # ys) b \<longleftrightarrow> linked m a xs x \<and> linked m x ys b"
  by (induction xs arbitrary: a) auto

lemma linked_frame:
  assumes "\<And>y. y = a \<or> y \<in> set xs \<Longrightarrow> q_next (m' y) = q_next (m y)" "\<And>y. y = b \<or> y \<in> set xs \<Longrightarrow> q_prev (m' y) = q_prev (m y)"
  shows "linked m' a xs b = linked m a xs b"
  using assms by (induction xs arbitrary: a) auto

lemma linked_ends: "linked m a xs b \<Longrightarrow> q_next (m a) = hd (xs @ [b]) \<and> q_prev (m b) = last (a # xs)"
  by (induction xs arbitrary: a) auto

lemma queue_ends: "queue_at m h xs \<Longrightarrow> q_next (m h) = hd (xs @ [h]) \<and> q_prev (m h) = last (h # xs)"
  unfolding queue_at_def using linked_ends by blast

lemma queue_frame: "(\<And>y. y \<in> set (h # xs) \<Longrightarrow> m' y = m y) \<Longrightarrow> queue_at m' h xs = queue_at m h xs"
  unfolding queue_at_def using linked_frame [of h xs m' m h] by auto

lemma queue_keep: "queue_at m h xs \<Longrightarrow> (\<And>z. z \<notin> A \<Longrightarrow> m' z = m z) \<Longrightarrow> set (h # xs) \<inter> A = {} \<Longrightarrow> queue_at m' h xs"
  using queue_frame [of h xs m' m] by blast

lemma queue_cut: "queue_at m h (xs @ x # ys) \<longleftrightarrow> distinct (h # xs @ x # ys) \<and> linked m h xs x \<and> linked m x ys h"
  by (simp add: queue_at_def linked_append)

section \<open>Operations on the list\<close>

lemma init_ok: "queue_at (ngx_queue_init h m) h []" "y \<noteq> h \<Longrightarrow> ngx_queue_init h m y = m y"
  by (auto simp: queue_at_def ngx_queue_init_def set_prev_def set_next_def)

lemma empty_ok: "queue_at m h xs \<Longrightarrow> ngx_queue_empty h m \<longleftrightarrow> xs = []"
proof -
  assume q: "queue_at m h xs"
  then have "q_prev (m h) = last (h # xs)" "h \<notin> set xs" using queue_ends by (auto simp: queue_at_def)
  then show ?thesis using last_in_set [of xs] by (auto simp: ngx_queue_empty_def)
qed

lemma ends_ok: "queue_at m h xs \<Longrightarrow> ngx_queue_head h m = hd (xs @ [h])" "queue_at m h xs \<Longrightarrow> ngx_queue_last h m = last (h # xs)"
  using queue_ends by (auto simp: ngx_queue_head_def ngx_queue_last_def)

text \<open>Both insertions put an element between two neighbours.\<close>

lemma insert_head_links:
  assumes "q_next (m a) = b" "x \<noteq> a" "x \<noteq> b"
  shows "q_next (ngx_queue_insert_head a x m y) = (if y = a then x else if y = x then b else q_next (m y))"
    and "q_prev (ngx_queue_insert_head a x m y) = (if y = x then a else if y = b then x else q_prev (m y))"
  using assms by (auto simp: ngx_queue_insert_head_def Let_def)

lemma insert_tail_head:
  assumes "q_next (m a) = b" "q_prev (m b) = a" "x \<noteq> a" "x \<noteq> b"
  shows "ngx_queue_insert_tail b x m = ngx_queue_insert_head a x m"
proof (rule ext, rule queue_eqI)
  show "q_next (ngx_queue_insert_tail b x m y) = q_next (ngx_queue_insert_head a x m y)"
    "q_prev (ngx_queue_insert_tail b x m y) = q_prev (ngx_queue_insert_head a x m y)" for y
    using assms(3,4) unfolding insert_head_links(1,2) [of m a b x y, OF assms(1,3,4)]
    by (simp_all add: ngx_queue_insert_tail_def Let_def assms(2))
qed

lemma linked_insert:
  assumes "linked m a ys b" "distinct (a # ys)" "b \<notin> set ys" "x \<notin> set (a # b # ys)"
  shows "linked (ngx_queue_insert_head a x m) a (x # ys) b"
proof -
  let ?m = "ngx_queue_insert_head a x m"
  show ?thesis
  proof (cases ys)
    case Nil
    then have "q_next (m a) = b" using assms(1) by simp
    then show ?thesis using assms Nil insert_head_links [of m a b x] by auto
  next
    case (Cons y zs)
    then have n: "q_next (m a) = y" "x \<noteq> a" "x \<noteq> y" using assms by auto
    have "linked ?m y zs b = linked m y zs b"
      using assms Cons insert_head_links [of m a y x] n by (intro linked_frame) auto
    then show ?thesis using assms Cons insert_head_links [of m a y x] n by auto
  qed
qed

text \<open>The element after which something is inserted ends the first part of the queue.\<close>

lemma queue_neighbours:
  assumes "queue_at m h (xs @ ys)"
  shows "q_next (m (last (h # xs))) = hd (ys @ [h])" "q_prev (m (hd (ys @ [h]))) = last (h # xs)"
proof -
  have "linked m (last (h # xs)) ys h" using assms by (cases xs rule: rev_cases) (simp_all add: queue_at_def linked_append)
  then show "q_next (m (last (h # xs))) = hd (ys @ [h])" "q_prev (m (hd (ys @ [h]))) = last (h # xs)"
    using linked_ends by (cases ys; force)+
qed

lemma insert_after_ok:
  assumes "queue_at m h (xs @ ys)" "x \<notin> set (h # xs @ ys)"
  shows "queue_at (ngx_queue_insert_head (last (h # xs)) x m) h (xs @ x # ys)"
proof (cases xs rule: rev_cases)
  case Nil
  then show ?thesis using assms linked_insert [of m h ys h x] by (auto simp: queue_at_def)
next
  case (snoc us p)
  let ?m = "ngx_queue_insert_head p x m"
  have q: "distinct (h # us @ p # ys)" "linked m h us p" "linked m p ys h" using assms(1) snoc by (auto simp: queue_cut)
  define b where "b = hd (ys @ [h])"
  have b: "b = h \<or> b \<in> set ys" "q_next (m p) = b" using linked_ends [OF q(3)] by (cases ys; simp add: b_def)+
  have ne: "x \<noteq> p" "x \<noteq> b" "b \<notin> set us" "b \<noteq> p" using q(1) assms(2) snoc b(1) by auto
  have "linked ?m p (x # ys) h" using q assms(2) snoc by (intro linked_insert) auto
  moreover have "linked ?m h us p = linked m h us p"
    using q(1) assms(2) snoc insert_head_links [of m p b x] b(2) ne by (intro linked_frame) auto
  ultimately show ?thesis using q assms(2) snoc by (auto simp: queue_cut)
qed

lemma insert_head_frame: "x \<noteq> a \<Longrightarrow> y \<noteq> x \<Longrightarrow> y \<noteq> a \<Longrightarrow> y \<noteq> q_next (m a) \<Longrightarrow> ngx_queue_insert_head a x m y = m y"
  by (simp add: ngx_queue_insert_head_def Let_def set_prev_def set_next_def)

lemma insert_head_ok:
  assumes "queue_at m h xs" "x \<notin> set (h # xs)"
  shows "queue_at (ngx_queue_insert_head h x m) h (x # xs)"
  using insert_after_ok [of m h "[]" xs x] assms by simp

lemma insert_before_ok:
  assumes "queue_at m h (xs @ ys)" "x \<notin> set (h # xs @ ys)"
  shows "queue_at (ngx_queue_insert_tail (hd (ys @ [h])) x m) h (xs @ x # ys)"
    and "y \<noteq> x \<Longrightarrow> y \<notin> set (h # xs @ ys) \<Longrightarrow> ngx_queue_insert_tail (hd (ys @ [h])) x m y = m y"
proof -
  have n: "q_next (m (last (h # xs))) = hd (ys @ [h])" "q_prev (m (hd (ys @ [h]))) = last (h # xs)"
    using queue_neighbours [OF assms(1)] by auto
  have "last (h # xs) \<in> set (h # xs)" "hd (ys @ [h]) \<in> set (h # ys)" by (rule last_in_set) (simp, cases ys, auto)
  then have ne: "x \<noteq> last (h # xs)" "x \<noteq> hd (ys @ [h])"
    "y \<notin> set (h # xs @ ys) \<Longrightarrow> y \<noteq> last (h # xs) \<and> y \<noteq> hd (ys @ [h])" using assms(2) by auto
  have e: "ngx_queue_insert_tail (hd (ys @ [h])) x m = ngx_queue_insert_head (last (h # xs)) x m"
    by (rule insert_tail_head [OF n ne(1,2)])
  show "queue_at (ngx_queue_insert_tail (hd (ys @ [h])) x m) h (xs @ x # ys)" unfolding e by (rule insert_after_ok [OF assms])
  show "y \<noteq> x \<Longrightarrow> y \<notin> set (h # xs @ ys) \<Longrightarrow> ngx_queue_insert_tail (hd (ys @ [h])) x m y = m y"
    unfolding e using insert_head_frame [of x "last (h # xs)" y m] ne n by simp
qed

text \<open>Removing an element joins its neighbours.\<close>

lemma remove_links:
  assumes "q_prev (m x) = a" "q_next (m x) = b" "x \<noteq> b"
  shows "q_next (ngx_queue_remove x m y) = (if y = a then b else q_next (m y))"
    and "q_prev (ngx_queue_remove x m y) = (if y = b then a else q_prev (m y))"
  using assms by (simp_all add: ngx_queue_remove_def Let_def)

lemma linked_remove:
  assumes "linked m a (x # ys) b" "distinct (a # x # ys)" "b \<notin> set (x # ys)"
  shows "linked (ngx_queue_remove x m) a ys b"
proof (cases ys)
  case Nil
  then show ?thesis using assms remove_links [of m x a b] by simp
next
  case (Cons y zs)
  then have n: "q_prev (m x) = a" "q_next (m x) = y" "x \<noteq> y" using assms by simp_all
  have "linked (ngx_queue_remove x m) y zs b = linked m y zs b"
    using assms Cons remove_links [of m x a y] n by (intro linked_frame) auto
  then show ?thesis using assms Cons remove_links [of m x a y] n by simp
qed

lemma remove_frame: "y \<noteq> q_prev (m x) \<Longrightarrow> y \<noteq> q_next (m x) \<Longrightarrow> x \<noteq> q_next (m x) \<Longrightarrow> ngx_queue_remove x m y = m y"
  by (simp add: ngx_queue_remove_def Let_def set_prev_def set_next_def)

lemma remove_ok:
  assumes "queue_at m h (xs @ x # ys)"
  shows "queue_at (ngx_queue_remove x m) h (xs @ ys)"
    and "y \<notin> set (h # xs @ ys) \<Longrightarrow> ngx_queue_remove x m y = m y"
proof -
  have q: "distinct (h # xs @ x # ys)" "linked m h xs x" "linked m x ys h" using assms by (auto simp: queue_cut)
  define a b where "a = last (h # xs)" and "b = hd (ys @ [h])"
  have n: "q_prev (m x) = a" "q_next (m x) = b" using linked_ends [OF q(2)] linked_ends [OF q(3)] by (simp_all add: a_def b_def)
  have m: "a \<in> set (h # xs)" "b \<in> set (h # ys)" unfolding a_def b_def by (rule last_in_set) (simp, cases ys, auto)
  then have "x \<noteq> b" using q(1) by auto
  then show "y \<notin> set (h # xs @ ys) \<Longrightarrow> ngx_queue_remove x m y = m y" using remove_frame [of y m x] n m by auto
  show "queue_at (ngx_queue_remove x m) h (xs @ ys)"
  proof (cases xs rule: rev_cases)
    case Nil
    then show ?thesis using assms linked_remove [of m h x ys h] by (auto simp: queue_at_def)
  next
    case (snoc us p)
    then have p: "linked m h us p" "linked m p (x # ys) h" "a = p" using assms by (auto simp: queue_cut a_def)
    have "linked (ngx_queue_remove x m) p ys h" using p q(1) snoc by (intro linked_remove) auto
    moreover have "linked (ngx_queue_remove x m) h us p = linked m h us p"
      using q(1) snoc m(2) remove_links [of m x a b] n \<open>x \<noteq> b\<close> p(3) by (intro linked_frame) auto
    ultimately show ?thesis using p q(1) snoc by (auto simp: queue_cut)
  qed
qed

text \<open>A segment whose end is moved to another element.\<close>

lemma linked_move:
  assumes "linked m a xs b" "distinct (a # xs)"
    and "\<And>y. y \<in> set (a # xs) \<Longrightarrow> y \<noteq> last (a # xs) \<Longrightarrow> q_next (m' y) = q_next (m y)" "\<And>y. y \<in> set xs \<Longrightarrow> q_prev (m' y) = q_prev (m y)"
    and "q_next (m' (last (a # xs))) = c" "q_prev (m' c) = last (a # xs)"
  shows "linked m' a xs c"
proof (cases xs rule: rev_cases)
  case Nil
  then show ?thesis using assms by simp
next
  case (snoc us p)
  then have "linked m' a us p = linked m a us p" using assms(2,3,4) by (intro linked_frame) auto
  then show ?thesis using assms(1,5,6) snoc by (simp add: linked_append)
qed

lemma split_ok:
  assumes "queue_at m h (xs @ q # ys)" "n \<notin> set (h # xs @ q # ys)"
  shows "queue_at (ngx_queue_split h q n m) h xs" "queue_at (ngx_queue_split h q n m) n (q # ys)"
    and "y \<noteq> n \<Longrightarrow> y \<notin> set (h # xs @ q # ys) \<Longrightarrow> ngx_queue_split h q n m y = m y"
proof -
  let ?m = "ngx_queue_split h q n m"
  have d: "distinct (h # xs @ q # ys)" "linked m h xs q" "linked m q ys h" using assms(1) by (auto simp: queue_cut)
  define a l where "a = last (h # xs)" and "l = last (q # ys)"
  have e: "q_prev (m q) = a" "q_prev (m h) = l" using linked_ends [OF d(2)] linked_ends [OF d(3)] by (simp_all add: a_def l_def)
  have in_s: "a \<in> set (h # xs)" "l \<in> set (q # ys)" unfolding a_def l_def by (rule last_in_set, simp)+
  have ne: "n \<noteq> h" "n \<noteq> q" "n \<noteq> a" "n \<noteq> l" "h \<noteq> q" "h \<noteq> l" "q \<noteq> a" "a \<noteq> l" using d(1) assms(2) in_s by auto
  have links: "q_next (?m y) = (if y = a then h else if y = n then q else if y = l then n else q_next (m y))"
    "q_prev (?m y) = (if y = q then n else if y = h then a else if y = n then l else q_prev (m y))" for y
    using ne by (simp_all add: ngx_queue_split_def Let_def e)
  have "linked ?m h xs h"
  proof (rule linked_move [OF d(2)])
    show "q_next (?m y) = q_next (m y)" if "y \<in> set (h # xs)" "y \<noteq> last (h # xs)" for y
    proof -
      have "y \<noteq> a" "y \<noteq> n" "y \<noteq> l" using that d(1) in_s(2) assms(2) by (auto simp: a_def)
      then show ?thesis by (simp add: links)
    qed
    show "q_prev (?m y) = q_prev (m y)" if "y \<in> set xs" for y
    proof -
      have "y \<noteq> q" "y \<noteq> h" "y \<noteq> n" using that d(1) assms(2) by auto
      then show ?thesis by (simp add: links)
    qed
  qed (use d(1) ne in \<open>simp_all add: links del: last.simps flip: a_def\<close>)
  then show "queue_at ?m h xs" using d(1) by (simp add: queue_at_def)
  have "linked ?m q ys n"
  proof (rule linked_move [OF d(3)])
    show "q_next (?m y) = q_next (m y)" if "y \<in> set (q # ys)" "y \<noteq> last (q # ys)" for y
    proof -
      have "y \<noteq> a" "y \<noteq> n" "y \<noteq> l" using that d(1) in_s(1) assms(2) by (auto simp: l_def)
      then show ?thesis by (simp add: links)
    qed
    show "q_prev (?m y) = q_prev (m y)" if "y \<in> set ys" for y
    proof -
      have "y \<noteq> q" "y \<noteq> h" "y \<noteq> n" using that d(1) assms(2) by auto
      then show ?thesis by (simp add: links)
    qed
  qed (use d(1) ne in \<open>simp_all add: links del: last.simps flip: l_def\<close>)
  moreover have "q_next (?m n) = q" "q_prev (?m q) = n" using ne by (simp_all add: links)
  ultimately show "queue_at ?m n (q # ys)" using d(1) assms(2) by (simp add: queue_at_def)
  show "?m y = m y" if "y \<noteq> n" "y \<notin> set (h # xs @ q # ys)"
  proof (rule queue_eqI)
    have "y \<noteq> a" "y \<noteq> l" "y \<noteq> q" "y \<noteq> h" using that in_s by auto
    then show "q_prev (?m y) = q_prev (m y)" "q_next (?m y) = q_next (m y)" using that(1) by (simp_all add: links)
  qed
qed

lemma add_ok:
  assumes "queue_at m h xs" "queue_at m n ys" "set (h # xs) \<inter> set (n # ys) = {}"
  shows "queue_at (ngx_queue_add h n m) h (xs @ ys)"
    and "y \<notin> set (h # n # xs @ ys) \<Longrightarrow> ngx_queue_add h n m y = m y"
proof -
  let ?m = "ngx_queue_add h n m"
  define a where "a = last (h # xs)"
  have d: "distinct (h # xs)" "linked m h xs h" "distinct (n # ys)" "linked m n ys n" using assms by (auto simp: queue_at_def)
  have e: "q_prev (m h) = a" "q_next (m n) = hd (ys @ [n])" "q_prev (m n) = last (n # ys)"
    using linked_ends [OF d(2)] linked_ends [OF d(4)] by (simp_all add: a_def)
  have in_s: "a \<in> set (h # xs)" unfolding a_def by (rule last_in_set) simp
  have "queue_at ?m h (xs @ ys) \<and> (y \<notin> set (h # n # xs @ ys) \<longrightarrow> ?m y = m y)"
  proof (cases ys)
    case Nil
    have n: "q_next (m n) = n" "q_prev (m n) = n" "q_next (m a) = h" "n \<noteq> a" "n \<noteq> h"
      using e Nil queue_neighbours(1) [of m h xs "[]"] assms(1,3) in_s by (auto simp: a_def)
    have "q_next (?m z) = q_next (m z)" "z \<noteq> n \<Longrightarrow> q_prev (?m z) = q_prev (m z)" for z
      using n(4,5) by (simp_all add: ngx_queue_add_def Let_def n(1,2,3) e(1))
    moreover have "linked ?m h xs h = linked m h xs h" using assms(3) by (intro linked_frame calculation) auto
    moreover have "queue_at ?m h xs" using d(1,2) calculation(3) by (simp add: queue_at_def)
    ultimately show ?thesis using Nil by (auto intro: queue_eqI)
  next
    case (Cons z zs)
    define l where "l = last (z # zs)"
    have l: "q_next (m n) = z" "q_prev (m n) = l" "l \<in> set ys" using e Cons by (auto simp: l_def)
    have ne: "n \<noteq> h" "n \<noteq> a" "z \<noteq> h" "z \<noteq> a" "z \<noteq> n" "l \<noteq> h" "l \<noteq> a" "l \<noteq> n" using assms(3) d(1,3) in_s l(3) Cons by auto
    have links: "q_next (?m y) = (if y = l then h else if y = a then z else q_next (m y))"
      "q_prev (?m y) = (if y = h then l else if y = z then a else q_prev (m y))" for y
      using ne by (simp_all add: ngx_queue_add_def Let_def e(1) l(1,2))
    have "linked ?m h xs z"
    proof (rule linked_move [OF d(2,1)])
      show "q_next (?m y) = q_next (m y)" if "y \<in> set (h # xs)" "y \<noteq> last (h # xs)" for y
      proof -
        have "y \<noteq> a" "y \<noteq> l" using that assms(3) l(3) by (auto simp: a_def)
        then show ?thesis by (simp add: links)
      qed
      show "q_prev (?m y) = q_prev (m y)" if "y \<in> set xs" for y
      proof -
        have "y \<noteq> z" "y \<noteq> h" using that d(1) assms(3) Cons by auto
        then show ?thesis by (simp add: links)
      qed
    qed (use ne in \<open>simp_all add: links del: last.simps flip: a_def\<close>)
    moreover have "linked m z zs n" using d(4) Cons by simp
    then have "linked ?m z zs h"
    proof (rule linked_move)
      show "q_next (?m y) = q_next (m y)" if "y \<in> set (z # zs)" "y \<noteq> last (z # zs)" for y
      proof -
        have "y \<noteq> a" "y \<noteq> l" using that assms(3) in_s Cons by (auto simp: l_def)
        then show ?thesis by (simp add: links)
      qed
      show "q_prev (?m y) = q_prev (m y)" if "y \<in> set zs" for y
      proof -
        have "y \<noteq> z" "y \<noteq> h" using that d(3) assms(3) Cons by auto
        then show ?thesis by (simp add: links)
      qed
    qed (use ne d(3) Cons in \<open>simp_all add: links del: last.simps flip: l_def\<close>)
    ultimately have "queue_at ?m h (xs @ ys)" using d(1,3) assms(3) Cons by (auto simp: queue_cut)
    moreover have "y \<notin> set (h # n # xs @ ys) \<longrightarrow> ?m y = m y" using in_s l(3) Cons by (auto intro!: queue_eqI simp: links)
    ultimately show ?thesis by blast
  qed
  then show "queue_at ?m h (xs @ ys)" "y \<notin> set (h # n # xs @ ys) \<Longrightarrow> ?m y = m y" by blast+
qed

end
