(* ===== verification/Ngx_Queue_Sort.thy ===== *)
theory Ngx_Queue_Sort
  imports Ngx_Queue "HOL-Library.Monad_Syntax"
begin

text \<open>
  The middle of a queue and the stable merge sort (src/nginx/src/core/ngx_queue.c). The sort moves links
  and never elements. The head of the second half is a local variable of the C function; \<open>local d\<close> is
  its address in the call at depth \<open>d\<close>. The loops follow pointers and are partial; that they end is part
  of the theorems.
\<close>

section \<open>Definitions\<close>

partial_function (option) middle_loop :: "nat \<Rightarrow> nat \<Rightarrow> nat \<Rightarrow> qmem \<Rightarrow> nat option" where
  "middle_loop queue middle next m =
     (let middle = q_next (m middle);
          next = q_next (m next)
      in if next = ngx_queue_last queue m then Some middle
         else
           let next = q_next (m next)
           in if next = ngx_queue_last queue m then Some middle else middle_loop queue middle next m)"

definition ngx_queue_middle :: "nat \<Rightarrow> qmem \<Rightarrow> nat option" where
  "ngx_queue_middle queue m =
     (let middle = ngx_queue_head queue m
      in if middle = ngx_queue_last queue m then Some middle
         else middle_loop queue middle (ngx_queue_head queue m) m)"

partial_function (option) merge_loop :: "(nat \<Rightarrow> nat \<Rightarrow> int) \<Rightarrow> nat \<Rightarrow> nat \<Rightarrow> nat \<Rightarrow> nat \<Rightarrow> qmem \<Rightarrow> qmem option" where
  "merge_loop cmp queue tail q1 q2 m =
     (if q1 = queue then Some (ngx_queue_add queue tail m)
      else if q2 = tail then Some m
      else if cmp q1 q2 \<le> 0 then merge_loop cmp queue tail (q_next (m q1)) q2 m
      else
        let m = ngx_queue_remove q2 m;
            m = ngx_queue_insert_tail q1 q2 m
        in merge_loop cmp queue tail q1 (ngx_queue_head tail m) m)"

definition ngx_queue_merge :: "(nat \<Rightarrow> nat \<Rightarrow> int) \<Rightarrow> nat \<Rightarrow> nat \<Rightarrow> qmem \<Rightarrow> qmem option" where
  "ngx_queue_merge cmp queue tail m = merge_loop cmp queue tail (ngx_queue_head queue m) (ngx_queue_head tail m) m"

partial_function (option) ngx_queue_sort :: "(nat \<Rightarrow> nat) \<Rightarrow> (nat \<Rightarrow> nat \<Rightarrow> int) \<Rightarrow> nat \<Rightarrow> nat \<Rightarrow> qmem \<Rightarrow> qmem option" where
  "ngx_queue_sort local cmp d queue m =
     (if ngx_queue_head queue m = ngx_queue_last queue m then Some m
      else
        do {
          q \<leftarrow> ngx_queue_middle queue m;
          m \<leftarrow> ngx_queue_sort local cmp (Suc d) queue (ngx_queue_split queue q (local d) m);
          m \<leftarrow> ngx_queue_sort local cmp (Suc d) (local d) m;
          ngx_queue_merge cmp queue (local d) m
        })"

section \<open>The middle\<close>

lemma linked_nth: "linked m a xs b \<Longrightarrow> Suc i < length xs \<Longrightarrow> q_next (m (xs ! i)) = xs ! Suc i"
proof (induction xs arbitrary: a i)
  case (Cons x xs)
  show ?case
  proof (cases i)
    case 0
    then obtain y ys where "xs = y # ys" using Cons.prems(2) by (cases xs) auto
    then show ?thesis using Cons.prems(1) 0 by simp
  next
    case (Suc j)
    then show ?thesis using Cons.IH [of x j] Cons.prems by simp
  qed
qed simp

lemma middle_loop_ok:
  assumes "queue_at m h xs" "2 * i + 1 < length xs"
  shows "middle_loop h (xs ! i) (xs ! (2 * i)) m = Some (xs ! (length xs div 2))"
  using assms
proof (induction "length xs - 2 * i" arbitrary: i rule: less_induct)
  case less
  let ?n = "length xs"
  have l: "ngx_queue_last h m = xs ! (?n - 1)" using ends_ok(2) [OF less.prems(1)] less.prems(2) by (cases xs) (simp_all add: last_conv_nth)
  have nx: "q_next (m (xs ! j)) = xs ! Suc j" if "Suc j < ?n" for j using less.prems(1) linked_nth that by (auto simp: queue_at_def)
  have eq: "xs ! j = xs ! (?n - 1) \<longleftrightarrow> j = ?n - 1" if "j < ?n" for j
    using less.prems that nth_eq_iff_index_eq [of xs j "?n - 1"] by (auto simp: queue_at_def)
  consider "2 * i + 1 = ?n - 1" | "2 * i + 2 = ?n - 1" | "2 * i + 2 < ?n - 1" using less.prems(2) by linarith
  then show ?case
  proof cases
    case 1
    then have "?n div 2 = Suc i" "Suc (2 * i) = ?n - 1" using less.prems(2) by auto
    then show ?thesis using less.prems(2) nx l eq by (subst middle_loop.simps) (simp add: Let_def)
  next
    case 2
    then have "?n div 2 = Suc i" "Suc (Suc (2 * i)) = ?n - 1" using less.prems(2) by auto
    then show ?thesis using less.prems(2) nx l eq by (subst middle_loop.simps) (simp add: Let_def)
  next
    case 3
    then have "middle_loop h (xs ! Suc i) (xs ! (2 * Suc i)) m = Some (xs ! (?n div 2))" using less.prems by (intro less.hyps) auto
    then show ?thesis using 3 nx l eq by (subst middle_loop.simps) (simp add: Let_def)
  qed
qed

lemma middle_ok: "queue_at m h xs \<Longrightarrow> ngx_queue_middle h m = Some ((xs @ [h]) ! (length xs div 2))"
proof -
  assume q: "queue_at m h xs"
  have e: "ngx_queue_head h m = hd (xs @ [h])" "ngx_queue_last h m = last (h # xs)" using ends_ok [OF q] by auto
  show ?thesis
  proof (cases "length xs \<le> 1")
    case True
    then consider "xs = []" | x where "xs = [x]" by (cases xs; cases "tl xs") auto
    then show ?thesis by cases (use e in \<open>simp_all add: ngx_queue_middle_def\<close>)
  next
    case False
    then obtain x y ys where xs: "xs = x # y # ys" by (cases xs; cases "tl xs") auto
    have "x \<noteq> last (h # xs)" using q xs by (auto simp: queue_at_def)
    moreover have "(xs @ [h]) ! (length xs div 2) = xs ! (length xs div 2)" using xs by (subst nth_append) auto
    ultimately show ?thesis using middle_loop_ok [OF q, of 0] False e xs by (simp add: ngx_queue_middle_def)
  qed
qed

section \<open>The merge\<close>

fun list_merge :: "('a \<Rightarrow> 'a \<Rightarrow> int) \<Rightarrow> 'a list \<Rightarrow> 'a list \<Rightarrow> 'a list" where
  "list_merge cmp [] ys = ys"
| "list_merge cmp (x # xs) [] = x # xs"
| "list_merge cmp (x # xs) (y # ys) = (if cmp x y \<le> 0 then x # list_merge cmp xs (y # ys) else y # list_merge cmp (x # xs) ys)"

text \<open>The elements before \<^verbatim>\<open>q1\<close> are merged.\<close>

lemma merge_loop_ok:
  assumes "queue_at m h (as @ xs)" "queue_at m n ys" "set (h # as @ xs) \<inter> set (n # ys) = {}"
  shows "\<exists>m'. merge_loop cmp h n (hd (xs @ [h])) (hd (ys @ [n])) m = Some m' \<and> queue_at m' h (as @ list_merge cmp xs ys) \<and>
    (\<forall>z. z \<notin> set (h # n # as @ xs @ ys) \<longrightarrow> m' z = m z)"
  using assms
proof (induction cmp xs ys arbitrary: as m rule: list_merge.induct)
  case (1 cmp ys)
  then show ?case using add_ok [of m h as n ys] by (subst merge_loop.simps) auto
next
  case (2 cmp x xs)
  then have "x \<noteq> h" by (auto simp: queue_at_def)
  then show ?case using "2.prems" by (subst merge_loop.simps) auto
next
  case (3 cmp x xs y ys)
  have ne: "x \<noteq> h" "y \<noteq> n" using "3.prems" by (auto simp: queue_at_def)
  show ?case
  proof (cases "cmp x y \<le> 0")
    case True
    have "q_next (m x) = hd (xs @ [h])" using "3.prems"(1) linked_ends [of m x xs h] by (simp add: queue_cut)
    then have step: "merge_loop cmp h n x y m = merge_loop cmp h n (hd (xs @ [h])) y m"
      using ne True by (subst merge_loop.simps) simp
    show ?thesis using "3.IH"(1) [OF True, of m "as @ [x]"] "3.prems" True step by simp
  next
    case False
    define m1 where "m1 = ngx_queue_remove y m"
    define m2 where "m2 = ngx_queue_insert_tail x y m1"
    have d: "distinct (h # as @ x # xs)" "distinct (n # y # ys)" using "3.prems" by (auto simp: queue_at_def)
    have m1: "queue_at m1 n ys" "\<And>z. z \<notin> set (n # ys) \<Longrightarrow> m1 z = m z"
      using remove_ok [of m n "[]" y ys] "3.prems"(2) by (simp_all add: m1_def)
    have "queue_at m1 h (as @ x # xs)" using "3.prems"(3) m1(2) by (intro queue_keep [OF "3.prems"(1), of "set (n # ys)"]) auto
    moreover have "y \<notin> set (h # as @ x # xs)" using "3.prems"(3) by auto
    ultimately have m2: "queue_at m2 h (as @ y # x # xs)" "\<And>z. z \<noteq> y \<Longrightarrow> z \<notin> set (h # as @ x # xs) \<Longrightarrow> m2 z = m1 z"
      using insert_before_ok [of m1 h as "x # xs" y] by (simp_all add: m2_def)
    have "queue_at m2 n ys"
      using "3.prems"(3) d(2) m2(2) by (intro queue_keep [OF m1(1), of "insert y (set (h # as @ x # xs))"]) auto
    moreover from this have "ngx_queue_head n m2 = hd (ys @ [n])" by (rule ends_ok)
    then have step: "merge_loop cmp h n x y m = merge_loop cmp h n x (hd (ys @ [n])) m2"
      using ne False by (subst merge_loop.simps) (simp add: m1_def m2_def)
    moreover have "set (h # (as @ [y]) @ x # xs) \<inter> set (n # ys) = {}" using "3.prems"(3) d(2) by auto
    ultimately obtain m' where m': "merge_loop cmp h n x y m = Some m'" "queue_at m' h (as @ list_merge cmp (x # xs) (y # ys))"
      "\<And>z. z \<notin> set (h # n # as @ [y] @ (x # xs) @ ys) \<Longrightarrow> m' z = m2 z"
      using "3.IH"(2) [OF False, of m2 "as @ [y]"] m2(1) False by auto
    moreover have "m' z = m z" if "z \<notin> set (h # n # as @ (x # xs) @ y # ys)" for z using that m'(3) m2(2) m1(2) by simp
    ultimately show ?thesis by auto
  qed
qed

section \<open>The sort\<close>

function list_msort :: "('a \<Rightarrow> 'a \<Rightarrow> int) \<Rightarrow> 'a list \<Rightarrow> 'a list" where
  "list_msort cmp xs =
     (if length xs \<le> 1 then xs
      else list_merge cmp (list_msort cmp (take (length xs div 2) xs)) (list_msort cmp (drop (length xs div 2) xs)))"
  by pat_completeness auto
termination
  by (relation "measure (\<lambda>(cmp, xs). length xs)") auto

declare list_msort.simps [simp del]

lemma mset_list_merge [simp]: "mset (list_merge cmp xs ys) = mset xs + mset ys"
  by (induction cmp xs ys rule: list_merge.induct) auto

lemma mset_list_msort [simp]: "mset (list_msort cmp xs) = mset xs"
proof (induction cmp xs rule: list_msort.induct)
  case (1 cmp xs)
  show ?case using 1 by (cases "length xs \<le> 1") (simp_all add: list_msort.simps [of cmp xs] flip: mset_append)
qed

lemma set_list_msort [simp]: "set (list_msort cmp xs) = set xs"
  using mset_list_msort by (rule mset_eq_setD)

text \<open>What a call at depth \<open>d\<close> does to a queue, and one call from what the two calls below it do.\<close>

definition sorts :: "(nat \<Rightarrow> nat) \<Rightarrow> (nat \<Rightarrow> nat \<Rightarrow> int) \<Rightarrow> nat \<Rightarrow> qmem \<Rightarrow> nat \<Rightarrow> nat list \<Rightarrow> bool" where
  "sorts local cmp d m h xs \<longleftrightarrow>
     (\<exists>m'. ngx_queue_sort local cmp d h m = Some m' \<and> queue_at m' h (list_msort cmp xs) \<and>
        (\<forall>z. z \<notin> set (h # xs) \<union> local ` {d..} \<longrightarrow> m' z = m z))"

lemma sort_step:
  assumes q: "queue_at m h (ls @ x # rs)" "ls \<noteq> []" "length ls = length (ls @ x # rs) div 2"
    and loc: "inj local" "local ` {d..} \<inter> set (h # ls @ x # rs) = {}"
    and call: "\<And>m h ys. ys = ls \<or> ys = x # rs \<Longrightarrow> queue_at m h ys \<Longrightarrow> local ` {Suc d..} \<inter> set (h # ys) = {} \<Longrightarrow> sorts local cmp (Suc d) m h ys"
  shows "\<exists>m'. ngx_queue_sort local cmp d h m = Some m' \<and> queue_at m' h (list_merge cmp (list_msort cmp ls) (list_msort cmp (x # rs))) \<and>
    (\<forall>z. z \<notin> set (h # ls @ x # rs) \<union> local ` {d..} \<longrightarrow> m' z = m z)"
proof -
  let ?n = "local d" and ?A = "local ` {Suc d..}"
  have range: "local ` {d..} = insert ?n ?A" by (simp add: atLeast_Suc_greaterThan flip: image_insert) (auto simp: image_iff le_less)
  have n: "?n \<notin> ?A" "?n \<notin> set (h # ls @ x # rs)" "?A \<inter> set (h # ls @ x # rs) = {}" using loc unfolding range by (auto dest: injD)
  have d: "distinct (h # ls @ x # rs)" using q(1) by (simp add: queue_at_def)
  define m1 where "m1 = ngx_queue_split h x ?n m"
  note m1 = split_ok [OF q(1) n(2), folded m1_def]
  have "?A \<inter> set (h # ls) = {}" "?A \<inter> set (?n # x # rs) = {}" using n by auto
  note call = call [OF disjI1 [OF refl] _ this(1)] call [OF disjI2 [OF refl] _ this(2)]
  obtain m2 where m2: "ngx_queue_sort local cmp (Suc d) h m1 = Some m2" "queue_at m2 h (list_msort cmp ls)"
    "\<And>z. z \<notin> set (h # ls) \<union> ?A \<Longrightarrow> m2 z = m1 z" using call(1) [OF m1(1)] unfolding sorts_def by blast
  have "queue_at m2 ?n (x # rs)" using d n m2(3) by (intro queue_keep [OF m1(2), of "set (h # ls) \<union> ?A"]) auto
  from call(2) [OF this] obtain m3 where m3: "ngx_queue_sort local cmp (Suc d) ?n m2 = Some m3" "queue_at m3 ?n (list_msort cmp (x # rs))"
    "\<And>z. z \<notin> set (?n # x # rs) \<union> ?A \<Longrightarrow> m3 z = m2 z" unfolding sorts_def by blast
  have "set (h # list_msort cmp ls) \<inter> (set (?n # x # rs) \<union> ?A) = {}" using d n by auto
  then have m3h: "queue_at m3 h ([] @ list_msort cmp ls)"
    using queue_keep [of m2 h "list_msort cmp ls" "set (?n # x # rs) \<union> ?A" m3, OF m2(2) m3(3)] by simp
  have "set (h # [] @ list_msort cmp ls) \<inter> set (?n # list_msort cmp (x # rs)) = {}" using d n by auto
  from merge_loop_ok [OF m3h m3(2) this, of cmp] obtain m4 where m4: "ngx_queue_merge cmp h ?n m3 = Some m4"
    "queue_at m4 h (list_merge cmp (list_msort cmp ls) (list_msort cmp (x # rs)))" "\<And>z. z \<notin> set (h # ?n # ls @ x # rs) \<Longrightarrow> m4 z = m3 z"
    using ends_ok(1) [OF m3h] ends_ok(1) [OF m3(2)] by (auto simp: ngx_queue_merge_def)
  have "last (x # rs) \<in> set (x # rs)" by (rule last_in_set) simp
  moreover have "hd ls \<in> set ls" "set ls \<inter> set (x # rs) = {}" using q(2) d by auto
  ultimately have "hd ls \<noteq> last (x # rs)" by (metis disjoint_iff)
  then have "ngx_queue_head h m \<noteq> ngx_queue_last h m" using ends_ok [OF q(1)] q(2) by (simp add: hd_append)
  moreover have "ngx_queue_middle h m = Some x" using middle_ok [OF q(1)] unfolding q(3) [symmetric] by (simp add: nth_append)
  ultimately have "ngx_queue_sort local cmp d h m = Some m4"
    using m2(1) m3(1) m4(1) by (subst ngx_queue_sort.simps) (simp flip: m1_def)
  moreover have "m4 z = m z" if "z \<notin> set (h # ls @ x # rs) \<union> local ` {d..}" for z
    using that m4(3) m3(3) m2(3) m1(3) unfolding range by simp
  ultimately show ?thesis using m4(2) by blast
qed

lemma queue_sort_ok:
  assumes "queue_at m h xs" "inj local" "local ` {d..} \<inter> set (h # xs) = {}"
  shows "sorts local cmp d m h xs"
  using assms(1,3)
proof (induction cmp xs arbitrary: d h m rule: list_msort.induct)
  case (1 cmp xs)
  show ?case
  proof (cases "length xs \<le> 1")
    case True
    then have "xs = [] \<or> (\<exists>x. xs = [x])" by (cases xs; cases "tl xs") auto
    then have "ngx_queue_head h m = ngx_queue_last h m" using ends_ok [OF "1.prems"(1)] by auto
    then have "ngx_queue_sort local cmp d h m = Some m" by (subst ngx_queue_sort.simps) simp
    then show ?thesis using "1.prems"(1) True by (simp add: sorts_def list_msort.simps [of cmp xs])
  next
    case False
    let ?k = "length xs div 2"
    have k: "?k < length xs" "0 < ?k" using False by auto
    have xs: "xs = take ?k xs @ xs ! ?k # drop (Suc ?k) xs" "drop ?k xs = xs ! ?k # drop (Suc ?k) xs"
      using id_take_nth_drop [OF k(1)] Cons_nth_drop_Suc [OF k(1)] by auto
    have "\<exists>m'. ngx_queue_sort local cmp d h m = Some m' \<and> queue_at m' h (list_merge cmp (list_msort cmp (take ?k xs)) (list_msort cmp (xs ! ?k # drop (Suc ?k) xs))) \<and>
      (\<forall>z. z \<notin> set (h # take ?k xs @ xs ! ?k # drop (Suc ?k) xs) \<union> local ` {d..} \<longrightarrow> m' z = m z)"
    proof (rule sort_step)
      show "sorts local cmp (Suc d) m h ys" if "ys = take ?k xs \<or> ys = xs ! ?k # drop (Suc ?k) xs" "queue_at m h ys"
        "local ` {Suc d..} \<inter> set (h # ys) = {}" for m h ys
        using that 1(1,2) [OF False] xs(2) by metis
    qed (use "1.prems" k assms(2) in \<open>auto simp flip: xs\<close>)
    then show ?thesis using False unfolding xs(1) [symmetric] xs(2) [symmetric] by (simp add: sorts_def list_msort.simps [of cmp xs])
  qed
qed

section \<open>The sort is stable\<close>

lemma set_list_merge [simp]: "set (list_merge cmp xs ys) = set xs \<union> set ys"
  by (induction cmp xs ys rule: list_merge.induct) auto

abbreviation ascending :: "('a \<Rightarrow> 'a \<Rightarrow> int) \<Rightarrow> 'a list \<Rightarrow> bool" where
  "ascending cmp \<equiv> sorted_wrt (\<lambda>x y. cmp x y \<le> 0)"

lemma merge_ascending:
  assumes "comparator cmp ok" "ascending cmp xs" "ascending cmp ys" "\<forall>x\<in>set xs \<union> set ys. ok x"
  shows "ascending cmp (list_merge cmp xs ys)"
  using assms
proof (induction cmp xs ys rule: list_merge.induct)
  case (3 cmp x xs y ys)
  note trans = comparator.cmp_trans [OF "3.prems"(1)] and anti = comparator.cmp_antisym [OF "3.prems"(1)]
  show ?case
  proof (cases "cmp x y \<le> 0")
    case True
    have "cmp x z \<le> 0" if "z \<in> set ys" for z using trans [of x y z] True "3.prems"(3,4) that by auto
    then show ?thesis using "3.IH"(1) "3.prems" True by auto
  next
    case False
    then have yx: "cmp y x \<le> 0" using anti [of x y] "3.prems"(4) by auto
    have "cmp y z \<le> 0" if "z \<in> set xs" for z using trans [of y x z] yx "3.prems"(2,4) that by auto
    then show ?thesis using "3.IH"(2) "3.prems" False yx by auto
  qed
qed auto

lemma merge_stable:
  assumes "comparator cmp ok" "ascending cmp xs" "\<forall>x\<in>set xs \<union> set ys. ok x" "ok k"
  shows "filter (\<lambda>x. cmp k x = 0 \<and> cmp x k = 0) (list_merge cmp xs ys) =
    filter (\<lambda>x. cmp k x = 0 \<and> cmp x k = 0) xs @ filter (\<lambda>x. cmp k x = 0 \<and> cmp x k = 0) ys"
  using assms
proof (induction cmp xs ys rule: list_merge.induct)
  case (3 cmp x xs y ys)
  show ?case
  proof (cases "cmp x y \<le> 0")
    case False
    note trans = comparator.cmp_trans [OF "3.prems"(1)]
    have "\<not> (cmp k z = 0 \<and> cmp z k = 0)" if "z \<in> set (x # xs)" "cmp k y = 0" for z
    proof
      assume z: "cmp k z = 0 \<and> cmp z k = 0"
      then have "cmp x k \<le> 0" using trans [of x z k] that(1) "3.prems"(2,3,4) by auto
      then show False using trans [of x k y] that(2) False "3.prems"(3,4) by auto
    qed
    then have "cmp k y = 0 \<Longrightarrow> filter (\<lambda>x. cmp k x = 0 \<and> cmp x k = 0) (x # xs) = []" by (auto simp: filter_empty_conv)
    then show ?thesis using "3.IH"(2) "3.prems" False by auto
  qed (use 3 in auto)
qed auto

lemma msort_stable:
  assumes "comparator cmp ok" "\<forall>x\<in>set xs. ok x"
  shows "ascending cmp (list_msort cmp xs) \<and>
    (\<forall>k. ok k \<longrightarrow> filter (\<lambda>x. cmp k x = 0 \<and> cmp x k = 0) (list_msort cmp xs) = filter (\<lambda>x. cmp k x = 0 \<and> cmp x k = 0) xs)"
  using assms
proof (induction cmp xs rule: list_msort.induct)
  case (1 cmp xs)
  show ?case
  proof (cases "length xs \<le> 1")
    case True
    then have "xs = [] \<or> (\<exists>x. xs = [x])" by (cases xs; cases "tl xs") auto
    then show ?thesis by (auto simp: list_msort.simps [of cmp xs])
  next
    case False
    let ?l = "take (length xs div 2) xs" and ?r = "drop (length xs div 2) xs"
    have ok: "\<forall>x\<in>set ?l. ok x" "\<forall>x\<in>set ?r. ok x" using "1.prems"(2) by (auto dest: in_set_takeD in_set_dropD)
    note ih = "1.IH"(1) [OF False "1.prems"(1) ok(1)] "1.IH"(2) [OF False "1.prems"(1) ok(2)]
    have m: "list_msort cmp xs = list_merge cmp (list_msort cmp ?l) (list_msort cmp ?r)" using False by (simp add: list_msort.simps [of cmp xs])
    have ok': "\<forall>x\<in>set (list_msort cmp ?l) \<union> set (list_msort cmp ?r). ok x" using ok by auto
    have "ascending cmp (list_msort cmp xs)" unfolding m using merge_ascending [OF "1.prems"(1) _ _ ok'] ih by blast
    moreover have "filter (\<lambda>x. cmp k x = 0 \<and> cmp x k = 0) (list_msort cmp xs) = filter (\<lambda>x. cmp k x = 0 \<and> cmp x k = 0) (?l @ ?r)" if "ok k" for k
      unfolding m filter_append using merge_stable [OF "1.prems"(1) _ ok' that] ih that by simp
    ultimately show ?thesis by simp
  qed
qed

section \<open>Properties\<close>

text \<open>
  C34: The sort of a queue returns for every comparison function that is an order, following and changing
  pointers only: the links then form a well-formed queue of the same elements in ascending order, equal
  elements in the order they had, and no memory but the queue and the local variables of the calls has
  changed.
\<close>

theorem queue_sort_correct:
  assumes "queue_at m h xs" "inj local" "range local \<inter> set (h # xs) = {}"
    and "\<And>x y. 0 < cmp x y \<longleftrightarrow> cmp y x < 0" "\<And>x y z. cmp x y \<le> 0 \<Longrightarrow> cmp y z \<le> 0 \<Longrightarrow> cmp x z \<le> 0"
  shows "\<exists>m' ys. ngx_queue_sort local cmp 0 h m = Some m' \<and> queue_at m' h ys \<and> sorted_wrt (\<lambda>x y. cmp x y \<le> 0) ys \<and> mset ys = mset xs \<and>
    (\<forall>k. filter (\<lambda>x. cmp k x = 0 \<and> cmp x k = 0) ys = filter (\<lambda>x. cmp k x = 0 \<and> cmp x k = 0) xs) \<and>
    (\<forall>z. z \<notin> set (h # xs) \<union> range local \<longrightarrow> m' z = m z)"
proof -
  have "comparator cmp (\<lambda>_. True)" by unfold_locales (use assms(4,5) in blast)+
  then have "ascending cmp (list_msort cmp xs)" "\<And>k. filter (\<lambda>x. cmp k x = 0 \<and> cmp x k = 0) (list_msort cmp xs) = filter (\<lambda>x. cmp k x = 0 \<and> cmp x k = 0) xs"
    using msort_stable by blast+
  moreover have "local ` {0..} = range local" by simp
  then obtain m' where "ngx_queue_sort local cmp 0 h m = Some m'" "queue_at m' h (list_msort cmp xs)" "\<And>z. z \<notin> set (h # xs) \<union> range local \<Longrightarrow> m' z = m z"
    using queue_sort_ok [OF assms(1,2), of 0 cmp] assms(3) unfolding sorts_def by metis
  ultimately show ?thesis by (intro exI [of _ m'] exI [of _ "list_msort cmp xs"]) simp
qed

text \<open>Three elements and the head of a queue, with the local variables far away.\<close>

definition sample_queue :: qmem where
  "sample_queue = ngx_queue_insert_tail 2 20 (ngx_queue_insert_tail 2 30 (ngx_queue_insert_tail 2 21 (ngx_queue_init 2 (\<lambda>_. \<lparr>q_prev = 0, q_next = 0\<rparr>))))"

lemma sample_queue_at: "queue_at sample_queue 2 [21, 30, 20]"
proof -
  have "queue_at (ngx_queue_init 2 (\<lambda>_. \<lparr>q_prev = 0, q_next = 0\<rparr>)) 2 []" by (rule init_ok)
  from insert_before_ok(1) [of _ 2 "[]" "[]" 21, simplified, OF this] have "queue_at (ngx_queue_insert_tail 2 21 (ngx_queue_init 2 (\<lambda>_. \<lparr>q_prev = 0, q_next = 0\<rparr>))) 2 [21]" by simp
  from insert_before_ok(1) [of _ 2 "[21]" "[]" 30, simplified, OF this] show ?thesis
    using insert_before_ok(1) [of _ 2 "[21, 30]" "[]" 20] by (simp add: sample_queue_def)
qed

theorem queue_sort_correct_witness:
  "\<exists>m' ys. ngx_queue_sort (\<lambda>d. 1000 + d) (\<lambda>x y. int (x div 10) - int (y div 10)) 0 2 sample_queue = Some m' \<and> queue_at m' 2 ys \<and>
     sorted_wrt (\<lambda>x y. int (x div 10) - int (y div 10) \<le> 0) ys \<and> mset ys = {#20, 21, 30#} \<and> filter (\<lambda>x. x div 10 = 2) ys = [21, 20]"
proof -
  have "\<exists>m' ys. ngx_queue_sort (\<lambda>d. 1000 + d) (\<lambda>x y. int (x div 10) - int (y div 10)) 0 2 sample_queue = Some m' \<and> queue_at m' 2 ys \<and>
     sorted_wrt (\<lambda>x y. int (x div 10) - int (y div 10) \<le> 0) ys \<and> mset ys = mset [21, 30, 20] \<and>
     (\<forall>k. filter (\<lambda>x. int (k div 10) - int (x div 10) = 0 \<and> int (x div 10) - int (k div 10) = 0) ys =
        filter (\<lambda>x. int (k div 10) - int (x div 10) = 0 \<and> int (x div 10) - int (k div 10) = 0) [21, 30, 20]) \<and>
     (\<forall>z. z \<notin> set [2, 21, 30, 20] \<union> range (\<lambda>d. 1000 + d) \<longrightarrow> m' z = sample_queue z)"
    by (rule queue_sort_correct [OF sample_queue_at]) auto
  then obtain m' ys where r: "ngx_queue_sort (\<lambda>d. 1000 + d) (\<lambda>x y. int (x div 10) - int (y div 10)) 0 2 sample_queue = Some m'" "queue_at m' 2 ys"
    "sorted_wrt (\<lambda>x y. int (x div 10) - int (y div 10) \<le> 0) ys" "mset ys = mset [21, 30, 20]"
    "\<And>k. filter (\<lambda>x. int (k div 10) - int (x div 10) = 0 \<and> int (x div 10) - int (k div 10) = 0) ys =
        filter (\<lambda>x. int (k div 10) - int (x div 10) = 0 \<and> int (x div 10) - int (k div 10) = 0) [21, 30, 20]" by blast
  have "(\<lambda>x. int (20 div 10) - int (x div 10) = 0 \<and> int (x div 10) - int (20 div 10) = 0) = (\<lambda>x. x div 10 = 2)" by auto
  with r(5) [of 20] have "filter (\<lambda>x. x div 10 = 2) ys = [21, 20]" by simp
  then show ?thesis using r by (intro exI [of _ m'] exI [of _ ys]) (simp add: add_mset_commute)
qed

end
