(* ===== verification/Spec2Isabelle.thy ===== *)
theory Spec2Isabelle
  imports Ngx_Least_Conn Ngx_Parse_Units Ngx_Sprintf Ngx_Base64 Ngx_Escape Ngx_Header_Line Ngx_Chunked Ngx_Status_Line Ngx_Request_Uri Ngx_Http_Args Ngx_Time_Cache Ngx_Event_Timer
    Ngx_Random_Balancer Ngx_Chash Ngx_Radix_Map Ngx_Queue_Sort
begin

text \<open>
  A verification library for AutoBurst, an autoscaler for burstable cloud instances whose load
  balancer is a copy of nginx 1.26.0 (src/nginx) with a changed least-connections method. The load
  balancer is the part that is modelled: what it does with a request from the first byte to the
  choice of a server, and the services of the core those parts rest on.

  \<^bold>\<open>The parts and how they interact.\<close> A worker process runs an event loop: it sleeps until the next
  timer expires, updates the cached time, and calls the handlers of events and of expired timers.
  A handler reads bytes of a request and gives them to the parsers (request line, header lines, URI,
  chunked body), asks a balancing method for a server of the upstream group, sends the request on,
  parses the status line of the response, writes the response back, perhaps in chunks, and returns
  the server to the balancer. Strings, numbers, escaping, dates and trees are services that all of
  these use.

  \<^bold>\<open>Upstream balancing\<close> (src/nginx/src/http/ngx_http_upstream_round_robin.c and .h, and in
  src/nginx/src/http/modules the files ngx_http_upstream_least_conn_module.c,
  ngx_http_upstream_ip_hash_module.c, ngx_http_upstream_hash_module.c and
  ngx_http_upstream_random_module.c).
  \<^item> \<open>Ngx_Upstream_Peers\<close>: the structures of peers, peer groups and per-request data as records, the
    construction of the groups from the configured servers, the bitmap of tried peers, the
    conditions that exclude a peer, and the release of a peer with its failure accounting.
  \<^item> \<open>Ngx_Balancer\<close>: the interface \<open>peer_balancer\<close> between a balancing method and the requests, as a
    locale, and the transition system of interleaved requests. Proved in it: connection counts are
    the numbers of requests that hold a peer, and stay within \<^verbatim>\<open>max_conns\<close>, in every reachable state,
    also when requests with different methods are mixed.
  \<^item> \<open>Ngx_Swrr\<close>: the abstract specification of smooth weighted round robin, on lists of weights.
  \<^item> \<open>Ngx_Upstream_RR\<close>: \<^verbatim>\<open>ngx_http_upstream_get_peer\<close> and the get handler. It refines the abstract
    specification, gives every server exactly its share, returns an eligible peer or fails over to
    the backup group, and implements \<open>peer_balancer\<close>.
  \<^item> \<open>Ngx_Least_Conn\<close>: the changed method. It implements \<open>peer_balancer\<close>; without ties it picks the
    least \<^verbatim>\<open>(conns + 1) / weight\<close>; with equal weights it picks the least connections; and since the
    test for ties was not changed with the order test, its choice depends on the order of the servers
    in the configuration.
  \<^item> \<open>Ngx_Crc32\<close>, \<open>Ngx_Hash_Balancer\<close>: CRC-32 by its two tables, equal to the division bit by bit, and
    the methods by the hash of the client address and of a key, which send a client or a key to the
    same server as long as no server fails.
  \<^item> \<open>Ngx_Chash\<close>: the consistent hash. The handler takes the server of the point that follows the hash
    of the key on the circle, and removing another server leaves the key at a point of the same hash.
  \<^item> \<open>Ngx_Random_Balancer\<close>: the two random methods. The binary search over sums of weights is the walk
    over the weights, and the one of two choices takes a usable peer that is not more loaded than another.
  All of these implement \<open>peer_balancer\<close>; the last section of this theory puts them together on one
  upstream.

  \<^bold>\<open>HTTP\<close> (src/nginx/src/http/ngx_http_parse.c, ngx_http_request.c, ngx_http_request_body.c and
  modules/ngx_http_chunked_filter_module.c).
  \<^item> \<open>Ngx_Parser\<close>: the shape of the byte-driven automata as two locales, \<open>incremental_parser\<close> (the result
    does not depend on how the input is divided into reads) and \<open>guarded_parser\<close> (an invariant of the
    automaton holds of every accepted input). One definition per state of a \<^verbatim>\<open>switch\<close>.
  \<^item> \<open>Ngx_Request_Line\<close>, \<open>Ngx_Header_Line\<close>, \<open>Ngx_Status_Line\<close>: the automata for these lines, with
    soundness (what an accepted line looks like and what the recorded pointers delimit), completeness
    for the request line, the exact language and result of the status line, and independence of the
    division into reads.
  \<^item> \<open>Ngx_Complex_Uri\<close>, \<open>Ngx_Request_Uri\<close>: the normalisation of a path, its specification on segments
    and its refinement; no normalised path leaves its root; the check that skips the
    normalisation agrees with it; the check of unsafe paths, exactly.
  \<^item> \<open>Ngx_Http_Args\<close>: query arguments, header values and cookies against specifications that split
    the text.
  \<^item> \<open>Ngx_Chunked\<close>: the chunked coding from both ends, with the round trip through writer and
    reader in any division, and the exact number of bytes still needed.

  \<^bold>\<open>Core services\<close> (src/nginx/src/core and src/nginx/src/event).
  \<^item> \<open>Ngx_Number\<close>, \<open>Ngx_Parse_Units\<close>, \<open>Ngx_Sprintf\<close>: numbers, sizes and times in text, and formatted
    output: exact values or an error, round trips, and no write past the end of a buffer.
  \<^item> \<open>Ngx_String\<close>, \<open>Ngx_Base64\<close>, \<open>Ngx_Escape\<close>: comparison (locale \<open>comparator\<close>), search, the stable
    sort, UTF-8, base64 (locale \<open>base64_alphabet\<close>) and escaping (locales \<open>escaper\<close> and
    \<open>decodable_escaper\<close>), with round trips and exact lengths.
  \<^item> \<open>Ngx_Queue\<close>, \<open>Ngx_Queue_Sort\<close>: doubly linked queues on pointers (core/ngx_queue.h and ngx_queue.c), what
    each operation does to the list a circle of links holds, and the merge sort, which ends, sorts and is
    stable.
  \<^item> \<open>Ngx_Times\<close>, \<open>Ngx_Time_Cache\<close>: calendar dates against a count of days, HTTP dates and their
    round trip, and the ring of formatted times that readers use without a lock while the event loop
    and signal handlers update it.
  \<^item> \<open>Ngx_Rbtree\<close>: red-black trees on pointers. \<open>Ngx_Rbtree_Rep\<close> says which trees a memory represents,
    \<open>Ngx_Rbtree_Insert\<close>, \<open>Ngx_Rbtree_Fix\<close> and \<open>Ngx_Rbtree_Delete\<close> prove the operations correct for every
    order of keys (locale \<open>key_order\<close>), and \<open>Ngx_Rbtree_Order\<close> interprets it for the two insert
    callbacks, plain keys and timers that wrap around.
  \<^item> \<open>Ngx_Event_Timer\<close>: timers on these trees. Setting a timer, the time until the next one, the loop
    over expired timers with handlers that satisfy the interface \<open>timer_handler\<close>: it ends, runs what
    has expired in order, and leaves nothing expired.
  \<^item> \<open>Ngx_Radix_Tree\<close>: radix trees of addresses on pointers (core/ngx_radix_tree.c). \<open>Ngx_Radix_Rep\<close> and
    \<open>Ngx_Radix_Ops\<close> verify the operations on lists of bits, \<open>Ngx_Radix_Keys\<close> relates the loops over
    32-bit words and over sixteen bytes to them (locale \<open>radix_key\<close>), and \<open>Ngx_Radix_Map\<close> states what
    creation, insertion, deletion and lookup do to the map from prefixes to values.

  \<^bold>\<open>How code becomes definitions.\<close> A structure is a record with the names of the C fields, a state of
  an automaton is a constructor, a function keeps its name, and its loops and states are definitions of
  their own. \<open>Ngx_Prelude\<close> has the conventions on integers: 64-bit values are \<open>int\<close>, wrapped by \<open>u64\<close> and
  \<open>i64\<close> where the C code computes; bytes are 8-bit words. Buffers are lists of bytes, and reading or
  writing outside of them is an error value. Locks, logging and debug output are left out; the locks
  only serialise the handlers that the transition system interleaves.

  \<^bold>\<open>Bounds and fuel.\<close> No definition has fuel. Loops over the bytes of a buffer are recursive on the
  bytes; loops over servers are recursive on the list of peers. The loops of the trees, of the queues
  and of the timers, which follow pointers, are partial functions into the option type, and that they
  return is part of the theorems. Numeric hypotheses of the theorems (weights and connection counts
  below a bound, delays below \<open>2\<^sup>6\<^sup>2\<close> milliseconds) exclude wrap-around of products and of the clock
  within one comparison and are far above what a configuration admits.

  \<^bold>\<open>Parameters.\<close> The clocks and the local time of the operating system, the event handlers, the sorting
  routine of the C library, the random numbers, the value of the hash key of a request, the pages that
  a memory pool hands out, whether an allocation succeeds (in the balancers, the functions on URIs and
  the sort), the results of floating point arithmetic, and the order in which requests interleave are
  arguments of the definitions or of the transition relations.

  \<^bold>\<open>Not modelled.\<close> System calls and the event modules, OpenSSL and QUIC, the configuration parser and
  the directives of the modules, the memory pools and shared memory, HTTP/2 and HTTP/3, mail and
  stream proxying, the other HTTP modules (proxy, FastCGI, caches, rewriting, variables, access), the
  resolver, the Windows build, and the Python controller, which only calls the interfaces of the cloud
  provider and of the load balancer. The state of these parts is mostly held by the kernel, by
  libraries or by remote services; those with logic of their own (the cache of upstream connections,
  request limiting, HPACK, range requests) are left for extensions of this library.
\<close>

section \<open>All balancing methods on one upstream\<close>

text \<open>The get handlers of the balancing methods, each with any data of a request, of the generator and of
  the table of points.\<close>

definition balancing_handlers :: "get_handler set" where
  "balancing_handlers =
     {ngx_http_upstream_get_round_robin_peer, ngx_http_upstream_get_least_conn_peer} \<union>
     range ip_hash_handler \<union> range hash_handler \<union> (\<Union>pts. range (chash_handler pts)) \<union>
     (\<Union>rnd. range (random_handler rnd)) \<union> (\<Union>rnd. range (random2_handler rnd))"

lemma balancing_handlers_contract: "get \<in> balancing_handlers \<Longrightarrow> peer_balancer get"
  unfolding balancing_handlers_def
  using rr.peer_balancer_axioms lc.peer_balancer_axioms ih.peer_balancer_axioms hs.peer_balancer_axioms
    ch.peer_balancer_axioms rd.peer_balancer_axioms rd2.peer_balancer_axioms
  by blast

text \<open>C3: in every state reachable by any interleaving of requests that take a peer of an upstream with the
  handlers of any of the balancing methods (round robin, least connections, the hashes of the address
  and of a key, the consistent hash, and the two random ones) and give it back, from a configured
  upstream without connections, the connection counter of every peer is the number of requests that
  hold it, no peer has more connections than its \<^verbatim>\<open>max_conns\<close> limit, and every effective weight is
  between 0 and the configured weight.\<close>

theorem balancers_max_conns:
  assumes "mixed_reachable balancing_handlers ups s" and "chain_idle ups" and "in_chain (bs_chain s) g k"
  shows "conns (peer_at (bs_chain s) g k) = int (holders (bs_active s) g k) \<and>
    (max_conns (peer_at (bs_chain s) g k) \<noteq> 0 \<longrightarrow>
       conns (peer_at (bs_chain s) g k) \<le> max_conns (peer_at (bs_chain s) g k)) \<and>
    0 \<le> effective_weight (peer_at (bs_chain s) g k) \<and>
    effective_weight (peer_at (bs_chain s) g k) \<le> weight (peer_at (bs_chain s) g k)"
proof -
  have "balancer_inv s" using mixed_inv [OF assms(1) balancing_handlers_contract assms(2)] .
  then show ?thesis
    using balancer_invD [of s g k] balancer_inv_weights [of s g k] assms(3) by (auto simp: peer_weights_ok_def)
qed

definition ex_ups :: rr_chain where
  "ex_ups = [(ex_group [ex_peer 3 0 1, ex_peer 1 0 0])\<lparr>total_weight := 4\<rparr>]"

definition ex_iphp :: ngx_http_upstream_ip_hash_peer_data_t where
  "ex_iphp = \<lparr>iphp_rrp = ex_rrp, iphp_hash = 89, iphp_addr = [10, 0, 7], iphp_tries = 0\<rparr>"

lemma mixed_get:
  assumes "mixed_reachable G ups \<lparr>bs_chain = c, bs_active = as\<rparr>" "get \<in> G" "get now c pc rrp = (NGX_OK, c', pc', rrp')" "length as < 9"
  shows "mixed_reachable G ups \<lparr>bs_chain = c', bs_active = rrp' # as\<rparr>"
  using mixed_step [OF assms(1,2)] balancer_step.get_peer [of get now "\<lparr>bs_chain = c, bs_active = as\<rparr>" pc rrp c' pc' rrp'] assms(3,4) by simp

theorem balancers_max_conns_witness:
  "\<exists>s. mixed_reachable balancing_handlers ex_ups s \<and> length (bs_active s) = 2 \<and>
     conns (peer_at (bs_chain s) 0 0) = 1 \<and> conns (peer_at (bs_chain s) 0 0) \<le> 1"
proof -
  let ?r = "ngx_http_upstream_get_round_robin_peer 5 ex_ups ex_pc ex_rrp"
  let ?q = "ip_hash_handler ex_iphp 6 (fst (snd ?r)) ex_pc ex_rrp"
  let ?s = "\<lparr>bs_chain = fst (snd ?q), bs_active = [snd (snd (snd ?q)), snd (snd (snd ?r))]\<rparr>"
  have "fst ?r = NGX_OK" "fst ?q = NGX_OK" by code_simp+
  then have r: "?r = (NGX_OK, fst (snd ?r), fst (snd (snd ?r)), snd (snd (snd ?r)))"
    and q: "?q = (NGX_OK, fst (snd ?q), fst (snd (snd ?q)), snd (snd (snd ?q)))"
    by (metis prod.collapse)+
  have "mixed_reachable balancing_handlers ex_ups \<lparr>bs_chain = fst (snd ?r), bs_active = [snd (snd (snd ?r))]\<rparr>"
    by (rule mixed_get [where get = ngx_http_upstream_get_round_robin_peer, OF mixed_start _ r]) (auto simp: balancing_handlers_def)
  then have re: "mixed_reachable balancing_handlers ex_ups ?s"
    by (rule mixed_get [where get = "ip_hash_handler ex_iphp", OF _ _ q]) (auto simp: balancing_handlers_def)
  have idle: "chain_idle ex_ups"
    by (simp add: ex_ups_def chain_idle_def chain_weights_ok_def peer_weights_ok_def ex_group_def ex_peer_def)
  have e: "in_chain (fst (snd ?q)) 0 0" "holders [snd (snd (snd ?q)), snd (snd (snd ?r))] 0 0 = 1" "max_conns (peer_at (fst (snd ?q)) 0 0) = 1"
    by code_simp+
  have "conns (peer_at (bs_chain ?s) 0 0) = 1 \<and> conns (peer_at (bs_chain ?s) 0 0) \<le> 1"
    using balancers_max_conns [OF re idle, of 0 0] e by simp
  then show ?thesis using re by (intro exI [of _ ?s]) simp
qed

end
